(* ===== verification/Prelude.thy ===== *)
theory Prelude
  imports Main "HOL-Library.Word" "HOL-Library.Monad_Syntax"
begin

text \<open>
  Shared vocabulary of the development.

  \<^item> The C types that cross every component: byte strings, \<open>double\<close> as its 64 bits, the pointers a
    \<open>kmpjs_value\<close> carries, the \<open>JSValue\<close> of the engine, and the \<open>kmpjs_value\<close> and tag constants
    of \<open>native/shim/quickjs_kmp.h\<close>.
  \<^item> \<open>ensures\<close>, the weakest liberal precondition of a computation that may run out of fuel, with its
    rules; the contracts of the operations, in this form, are collected in \<open>vcg\<close>.
  \<^item> Generic lemmas on lists, functions and words, declared for the automation.
\<close>

unbundle bit_operations_syntax

named_theorems vcg \<open>contracts of the operations a computation calls, in the form of \<open>ensures\<close>\<close>
named_theorems shim_defs \<open>definitions of straight-line helpers\<close>

section \<open>Bytes, doubles, pointers\<close>

text \<open>A C byte string is an Isabelle \<^typ>\<open>string\<close>: both are sequences of 8-bit units.\<close>

type_synonym bytes = string

text \<open>A C \<open>double\<close> is its bit pattern. The shim copies doubles and compares them with zero; the conversions to and
  from integers are in \<open>Numbers\<close>.\<close>

type_synonym f64 = "64 word"

definition f64_is_zero :: "f64 \<Rightarrow> bool" where
  "f64_is_zero d = (d AND 0x7FFFFFFFFFFFFFFF = 0)"

text \<open>
  The pointers found in a \<open>kmpjs_value\<close>: null, memory that nobody else writes (a literal, or a block
  handed over by value), or the data block of a growing buffer, which later calls may overwrite or free.
\<close>

datatype cptr = PNull | PStr bytes | PBlk nat

section \<open>Values of the engine\<close>

text \<open>The reference-counted tags and the immediate values of \<open>quickjs.h\<close>.\<close>

datatype jtag = TagBigInt | TagSymbol | TagString | TagStringRope | TagModule
  | TagFunctionBytecode | TagObject

datatype jsval = JInt int | JBool bool | JNull | JUndefined | JUninitialized | JException
  | JShortBigInt int | JFloat64 f64 | JPtr jtag nat

definition JS_IsNumber :: "jsval \<Rightarrow> bool" where
  "JS_IsNumber v = (case v of JInt _ \<Rightarrow> True | JFloat64 _ \<Rightarrow> True | _ \<Rightarrow> False)"

definition JS_IsBigInt :: "jsval \<Rightarrow> bool" where
  "JS_IsBigInt v = (case v of JPtr TagBigInt _ \<Rightarrow> True | JShortBigInt _ \<Rightarrow> True | _ \<Rightarrow> False)"

definition JS_IsBool :: "jsval \<Rightarrow> bool" where
  "JS_IsBool v = (case v of JBool _ \<Rightarrow> True | _ \<Rightarrow> False)"

definition JS_IsNull :: "jsval \<Rightarrow> bool" where
  "JS_IsNull v = (v = JNull)"

definition JS_IsUndefined :: "jsval \<Rightarrow> bool" where
  "JS_IsUndefined v = (v = JUndefined)"

definition JS_IsException :: "jsval \<Rightarrow> bool" where
  "JS_IsException v = (v = JException)"

definition JS_IsString :: "jsval \<Rightarrow> bool" where
  "JS_IsString v = (case v of JPtr TagString _ \<Rightarrow> True | JPtr TagStringRope _ \<Rightarrow> True | _ \<Rightarrow> False)"

definition JS_IsModule :: "jsval \<Rightarrow> bool" where
  "JS_IsModule v = (case v of JPtr TagModule _ \<Rightarrow> True | _ \<Rightarrow> False)"

text \<open>\<open>JS_VALUE_GET_PTR\<close>: the address of a reference-counted value.\<close>

fun JS_VALUE_GET_PTR :: "jsval \<Rightarrow> nat" where
  "JS_VALUE_GET_PTR (JPtr t a) = a"
| "JS_VALUE_GET_PTR v = 0"

lemmas js_is_defs = JS_IsNumber_def JS_IsBigInt_def JS_IsBool_def JS_IsNull_def
  JS_IsUndefined_def JS_IsException_def JS_IsString_def JS_IsModule_def

text \<open>\<open>cnt v a\<close>: how many references to address \<open>a\<close> owning the value \<open>v\<close> stands for.\<close>

fun cnt :: "jsval \<Rightarrow> nat \<Rightarrow> nat" where
  "cnt (JPtr t b) a = (if a = b then 1 else 0)"
| "cnt v a = 0"

section \<open>Values that cross the C boundary\<close>

definition KMPJS_ABI_VERSION :: int where "KMPJS_ABI_VERSION = 7"

definition KMPJS_TAG_UNDEFINED :: int where [simp]: "KMPJS_TAG_UNDEFINED = 0"
definition KMPJS_TAG_NULL :: int where [simp]: "KMPJS_TAG_NULL = 1"
definition KMPJS_TAG_BOOL :: int where [simp]: "KMPJS_TAG_BOOL = 2"
definition KMPJS_TAG_NUMBER :: int where [simp]: "KMPJS_TAG_NUMBER = 3"
definition KMPJS_TAG_STRING :: int where [simp]: "KMPJS_TAG_STRING = 4"
definition KMPJS_TAG_OBJECT :: int where [simp]: "KMPJS_TAG_OBJECT = 5"
definition KMPJS_TAG_EXCEPTION :: int where [simp]: "KMPJS_TAG_EXCEPTION = 6"
definition KMPJS_TAG_REF :: int where [simp]: "KMPJS_TAG_REF = 7"
definition KMPJS_TAG_BIGINT :: int where [simp]: "KMPJS_TAG_BIGINT = 8"
definition KMPJS_TAG_BINARY :: int where [simp]: "KMPJS_TAG_BINARY = 9"

definition KMPJS_REF_FUNCTION :: nat where [simp]: "KMPJS_REF_FUNCTION = 1"
definition KMPJS_REF_ARRAY :: nat where [simp]: "KMPJS_REF_ARRAY = 2"
definition KMPJS_REF_PROMISE :: nat where [simp]: "KMPJS_REF_PROMISE = 4"

definition KMPJS_MAX_FN_ID :: int where [simp]: "KMPJS_MAX_FN_ID = 0x3FFF"

text \<open>Flag words are C \<open>int32_t\<close>; the shim tests and sets single bits of them.\<close>

definition KMPJS_FLAG_REF_OBJECTS :: int where [simp]: "KMPJS_FLAG_REF_OBJECTS = 1"

record kmpjs_value =
  v_tag :: int
  v_reserved :: int
  v_ref :: "64 word"
  v_num :: f64
  v_str :: cptr
  v_str_len :: int
  v_stack :: cptr
  v_stack_len :: int

text \<open>The value after \<open>memset(out, 0, sizeof *out)\<close>.\<close>

definition zero_value :: kmpjs_value where
  "zero_value = \<lparr>v_tag = 0, v_reserved = 0, v_ref = 0, v_num = 0, v_str = PNull, v_str_len = 0,
     v_stack = PNull, v_stack_len = 0\<rparr>"

section \<open>Computations that may run out of fuel\<close>

text \<open>
  A function that enters the engine returns \<open>None\<close> when its fuel runs out, otherwise the result and
  the new state. \<open>ensures m Q\<close> says that every result of \<open>m\<close> satisfies \<open>Q\<close>.
\<close>

definition ensures :: "'a option \<Rightarrow> ('a \<Rightarrow> bool) \<Rightarrow> bool" where
  "ensures m Q = (case m of None \<Rightarrow> True | Some x \<Rightarrow> Q x)"

lemma ensures_None [simp]: "ensures None Q"
  by (simp add: ensures_def)

lemma ensures_Some [simp]: "ensures (Some x) Q = Q x"
  by (simp add: ensures_def)

lemma ensures_SomeI: "Q x \<Longrightarrow> ensures (Some x) Q"
  by simp

lemma ensures_bind: "ensures m (\<lambda>x. ensures (f x) Q) \<Longrightarrow> ensures (m \<bind> f) Q"
  by (cases m) auto

lemma ensures_if:
  "\<lbrakk>b \<Longrightarrow> ensures x Q; \<not> b \<Longrightarrow> ensures y Q\<rbrakk> \<Longrightarrow> ensures (if b then x else y) Q"
  by simp

lemma ensures_conseq: "\<lbrakk>ensures m P; \<And>x. P x \<Longrightarrow> Q x\<rbrakk> \<Longrightarrow> ensures m Q"
  by (cases m) auto

lemma ensures_conj: "\<lbrakk>ensures m P; ensures m Q\<rbrakk> \<Longrightarrow> ensures m (\<lambda>x. P x \<and> Q x)"
  by (cases m) auto

lemma ensuresD: "\<lbrakk>ensures m Q; m = Some x\<rbrakk> \<Longrightarrow> Q x"
  by simp

lemma ensuresI: "(\<And>x. m = Some x \<Longrightarrow> Q x) \<Longrightarrow> ensures m Q"
  by (cases m) auto

text \<open>Running a computation on concrete states: the continuation waits for its argument.\<close>

lemma bind_weak_cong: "m = m' \<Longrightarrow> Option.bind m f = Option.bind m' f"
  by simp

section \<open>Generic lemmas\<close>

lemma nth_update_if: "i < length xs \<Longrightarrow> xs[i := x] ! j = (if j = i then x else xs ! j)"
  by (simp add: nth_list_update)

lemma sum_list_update_nat:
  fixes xs :: "nat list"
  assumes "i < length xs"
  shows "sum_list (xs[i := y]) + xs ! i = sum_list xs + y"
  using assms by (induction xs arbitrary: i) (auto split: nat.splits)

lemma sum_map_update:
  fixes f :: "'a \<Rightarrow> nat"
  assumes "i < length xs"
  shows "(\<Sum>x\<leftarrow>xs[i := y]. f x) + f (xs ! i) = (\<Sum>x\<leftarrow>xs. f x) + f y"
  using sum_list_update_nat [of i "map f xs" "f y"] assms by (simp add: map_update)

lemma sum_map_butlast:
  fixes f :: "'a \<Rightarrow> nat"
  assumes "xs \<noteq> []"
  shows "(\<Sum>x\<leftarrow>butlast xs. f x) + f (last xs) = (\<Sum>x\<leftarrow>xs. f x)"
  using assms by (induction xs) auto

end
