(* ===== verification/PropTable.thy ===== *)
theory PropTable
  imports Prelude
begin

text \<open>
  The property table inside a shape of \<open>quickjs.c\<close>: an array of entries in the order in which the properties were
  added, with a hash table whose chains run through the entries. Looking a property up, adding one, growing
  the table, deleting a property and compacting the array; each is shown to be the operation on the list of
  properties that it stands for.
\<close>

section \<open>Data\<close>

type_synonym JSAtom = "32 word"

definition JS_ATOM_NULL :: JSAtom where "JS_ATOM_NULL = 0"
definition JS_PROP_INITIAL_SIZE :: nat where "JS_PROP_INITIAL_SIZE = 2"
definition JS_PROP_INITIAL_HASH_SIZE :: nat where "JS_PROP_INITIAL_HASH_SIZE = 4"

text \<open>An entry with the atom \<open>JS_ATOM_NULL\<close> is a deleted property. \<open>hash_next\<close> has 26 bits and is an index plus one, or 0
  at the end of a chain.\<close>

record prop_entry =
  hash_next :: "26 word"
  flags :: "6 word"
  atom :: JSAtom

text \<open>\<open>prop_count\<close> is the length of \<open>props\<close>; the hash table has \<open>prop_hash_mask + 1\<close> elements.\<close>

record prop_table =
  prop_hash_mask :: "32 word"
  prop_size :: nat
  deleted_prop_count :: nat
  hash_table :: "nat list"
  props :: "prop_entry list"

abbreviation prop_count :: "('a) prop_table_scheme \<Rightarrow> nat" where
  "prop_count sh \<equiv> length (props sh)"

abbreviation slot :: "JSAtom \<Rightarrow> 32 word \<Rightarrow> nat" where
  "slot a hash_mask \<equiv> unat (a AND hash_mask)"

section \<open>Operations\<close>

text \<open>A table with nothing in it.\<close>

definition no_props :: "nat \<Rightarrow> nat \<Rightarrow> prop_table" where
  "no_props hash_size psize =
     \<lparr>prop_hash_mask = of_nat hash_size - 1, prop_size = psize, deleted_prop_count = 0, hash_table = replicate hash_size 0, props = []\<rparr>"

text \<open>The loop of \<open>find_own_property\<close>; \<open>None\<close> is a read outside of the array or a chain without an end, otherwise the
  index of the entry, if there is one.\<close>

partial_function (option) find_loop :: "prop_entry list \<Rightarrow> JSAtom \<Rightarrow> nat \<Rightarrow> nat option option" where
  "find_loop ps a h =
     (if h = 0 then Some None
      else if length ps < h then None
      else if atom (ps ! (h - 1)) = a then Some (Some (h - 1))
      else find_loop ps a (unat (hash_next (ps ! (h - 1)))))"

definition find_own_property1 :: "'a prop_table_scheme \<Rightarrow> JSAtom \<Rightarrow> nat option option" where
  "find_own_property1 sh a = find_loop (props sh) a (hash_table sh ! slot a (prop_hash_mask sh))"

text \<open>The end of \<open>add_shape_property\<close>.\<close>

definition append_property :: "JSAtom \<Rightarrow> 6 word \<Rightarrow> 'a prop_table_scheme \<Rightarrow> 'a prop_table_scheme" where
  "append_property a fl sh =
     (let h = slot a (prop_hash_mask sh) in
      sh\<lparr>props := props sh @ [\<lparr>hash_next = of_nat (hash_table sh ! h), flags = fl, atom = a\<rparr>],
        hash_table := (hash_table sh)[h := prop_count sh + 1]\<rparr>)"

text \<open>The loop of \<open>resize_properties\<close> that fills the new hash table; the first argument list has been visited.\<close>

fun rehash_loop :: "32 word \<Rightarrow> nat list \<Rightarrow> prop_entry list \<Rightarrow> prop_entry list \<Rightarrow> nat list \<times> prop_entry list" where
  "rehash_loop hash_mask ht done_prs [] = (ht, done_prs)"
| "rehash_loop hash_mask ht done_prs (pr # prs) =
     (if atom pr \<noteq> JS_ATOM_NULL then
        let h = slot (atom pr) hash_mask in
        rehash_loop hash_mask (ht[h := length done_prs + 1]) (done_prs @ [pr\<lparr>hash_next := of_nat (ht ! h)\<rparr>]) prs
      else rehash_loop hash_mask ht (done_prs @ [pr]) prs)"

function grow_hash_size :: "nat \<Rightarrow> nat \<Rightarrow> nat" where
  "grow_hash_size new_size n = (if 0 < n \<and> n < new_size then grow_hash_size new_size (2 * n) else n)"
  by auto
termination by (relation "measure (\<lambda>(m, n). m - n)") auto

definition new_prop_size :: "nat \<Rightarrow> 'a prop_table_scheme \<Rightarrow> nat" where
  "new_prop_size count sh = max count (prop_size sh * 3 div 2)"

definition resize_table :: "nat \<Rightarrow> 'a prop_table_scheme \<Rightarrow> 'a prop_table_scheme" where
  "resize_table count sh =
     (let new_size = new_prop_size count sh;
          new_hash_size = grow_hash_size new_size (unat (prop_hash_mask sh) + 1) in
      if new_hash_size \<noteq> unat (prop_hash_mask sh) + 1 then
        let new_hash_mask = of_nat (new_hash_size - 1);
            (ht, prs) = rehash_loop new_hash_mask (replicate new_hash_size 0) [] (props sh) in
        sh\<lparr>prop_hash_mask := new_hash_mask, prop_size := new_size, hash_table := ht, props := prs\<rparr>
      else sh\<lparr>prop_size := new_size\<rparr>)"

text \<open>The loop of \<open>delete_property\<close>: the entry before the one found in its chain, and its index plus one.\<close>

partial_function (option) delete_loop :: "prop_entry list \<Rightarrow> JSAtom \<Rightarrow> nat option \<Rightarrow> nat \<Rightarrow> (nat option \<times> nat) option option" where
  "delete_loop ps a lpr h =
     (if h = 0 then Some None
      else if length ps < h then None
      else if atom (ps ! (h - 1)) = a then Some (Some (lpr, h))
      else delete_loop ps a (Some (h - 1)) (unat (hash_next (ps ! (h - 1)))))"

text \<open>Taking the entry out of its chain and clearing it.\<close>

definition unlink_entry :: "JSAtom \<Rightarrow> nat option \<Rightarrow> nat \<Rightarrow> 'a prop_table_scheme \<Rightarrow> 'a prop_table_scheme" where
  "unlink_entry a lpr i sh =
     (let pr = props sh ! i;
          sh = (case lpr of
            Some l \<Rightarrow> sh\<lparr>props := (props sh)[l := (props sh ! l)\<lparr>hash_next := hash_next pr\<rparr>]\<rparr>
          | None \<Rightarrow> sh\<lparr>hash_table := (hash_table sh)[slot a (prop_hash_mask sh) := unat (hash_next pr)]\<rparr>) in
      sh\<lparr>deleted_prop_count := deleted_prop_count sh + 1,
        props := (props sh)[i := (props sh ! i)\<lparr>flags := 0, atom := JS_ATOM_NULL\<rparr>]\<rparr>)"

text \<open>\<open>compact_properties\<close>: the loop moves the entries that are not deleted, and the values in the object, to the front.\<close>

fun compact_loop :: "32 word \<Rightarrow> nat list \<Rightarrow> prop_entry list \<Rightarrow> 'v list \<Rightarrow> nat \<Rightarrow> prop_entry list \<Rightarrow> nat list \<times> prop_entry list \<times> 'v list" where
  "compact_loop hash_mask ht new vals i [] = (ht, new, vals)"
| "compact_loop hash_mask ht new vals i (old # olds) =
     (if atom old \<noteq> JS_ATOM_NULL then
        let h = slot (atom old) hash_mask in
        compact_loop hash_mask (ht[h := length new + 1]) (new @ [\<lparr>hash_next = of_nat (ht ! h), flags = flags old, atom = atom old\<rparr>])
          (vals[length new := vals ! i]) (i + 1) olds
      else compact_loop hash_mask ht new vals (i + 1) olds)"

function shrink_hash_size :: "nat \<Rightarrow> nat \<Rightarrow> nat" where
  "shrink_hash_size new_size n = (if 0 < n \<and> new_size \<le> n div 2 then shrink_hash_size new_size (n div 2) else n)"
  by auto
termination by (relation "measure snd") auto

definition compact_size :: "'a prop_table_scheme \<Rightarrow> nat" where
  "compact_size sh = max JS_PROP_INITIAL_SIZE (prop_count sh - deleted_prop_count sh)"

definition compact_table :: "'a prop_table_scheme \<Rightarrow> 'v list \<Rightarrow> 'a prop_table_scheme \<times> 'v list" where
  "compact_table sh vals =
     (let new_size = compact_size sh;
          new_hash_size = shrink_hash_size new_size (unat (prop_hash_mask sh) + 1);
          new_hash_mask = of_nat (new_hash_size - 1);
          (ht, prs, vals) = compact_loop new_hash_mask (replicate new_hash_size 0) [] vals 0 (props sh) in
      (sh\<lparr>prop_hash_mask := new_hash_mask, prop_size := new_size, deleted_prop_count := 0, hash_table := ht, props := prs\<rparr>, vals))"

declare grow_hash_size.simps [simp del] shrink_hash_size.simps [simp del]

section \<open>Chains\<close>

abbreviation live :: "prop_entry \<Rightarrow> bool" where
  "live pr \<equiv> atom pr \<noteq> JS_ATOM_NULL"

text \<open>The chain that starts at \<open>h\<close> visits the entries with these indices.\<close>

fun entry_links :: "prop_entry list \<Rightarrow> nat \<Rightarrow> nat list \<Rightarrow> bool" where
  "entry_links ps h [] = (h = 0)"
| "entry_links ps h (i # is) = (h = Suc i \<and> i < length ps \<and> entry_links ps (unat (hash_next (ps ! i))) is)"

text \<open>The entries that belong to one element of the hash table, the last one first.\<close>

definition bucket :: "prop_entry list \<Rightarrow> 32 word \<Rightarrow> nat \<Rightarrow> nat list" where
  "bucket ps m b = rev (filter (\<lambda>i. live (ps ! i) \<and> slot (atom (ps ! i)) m = b) [0..<length ps])"

definition chains :: "prop_entry list \<Rightarrow> 32 word \<Rightarrow> nat list \<Rightarrow> bool" where
  "chains ps m ht = (length ht = unat m + 1 \<and> (\<forall>b<length ht. entry_links ps (ht ! b) (bucket ps m b)))"

definition unique :: "prop_entry list \<Rightarrow> bool" where
  "unique ps = (\<forall>i<length ps. \<forall>j<length ps. live (ps ! i) \<longrightarrow> atom (ps ! i) = atom (ps ! j) \<longrightarrow> i = j)"

definition max_count :: nat where "max_count = 2 ^ 26 - 1"

text \<open>The invariant of a table. The bounds are those of the 26-bit links.\<close>

definition table_ok :: "'a prop_table_scheme \<Rightarrow> bool" where
  "table_ok sh =
     (chains (props sh) (prop_hash_mask sh) (hash_table sh) \<and> unique (props sh) \<and> prop_count sh \<le> prop_size sh \<and>
      prop_count sh \<le> max_count \<and> prop_size sh \<le> 2 ^ 27 \<and> unat (prop_hash_mask sh) < 2 ^ 28 \<and>
      deleted_prop_count sh = length (filter (\<lambda>pr. \<not> live pr) (props sh)))"

lemma slot_le: "slot a m \<le> unat m"
  using word_and_le1 [of a m] by (simp add: word_le_nat_alt)

lemma chainsD: "chains ps m ht \<Longrightarrow> entry_links ps (ht ! slot a m) (bucket ps m (slot a m))" "chains ps m ht \<Longrightarrow> slot a m < length ht"
  using slot_le [of a m] by (auto simp: chains_def)

lemma find_links: "entry_links ps h is \<Longrightarrow> find_loop ps a h = Some (List.find (\<lambda>i. atom (ps ! i) = a) is)"
proof (induction "is" arbitrary: h)
  case Nil
  then show ?case by (subst find_loop.simps) simp
next
  case (Cons i "is")
  then show ?case by (subst find_loop.simps) simp
qed

lemma set_bucket: "set (bucket ps m b) = {i. i < length ps \<and> live (ps ! i) \<and> slot (atom (ps ! i)) m = b}"
  by (auto simp: bucket_def)

lemma distinct_bucket: "distinct (bucket ps m b)"
  by (simp add: bucket_def)

lemma find_only:
  "x \<in> set xs \<Longrightarrow> P x \<Longrightarrow> (\<And>y. y \<in> set xs \<Longrightarrow> P y \<Longrightarrow> y = x) \<Longrightarrow> List.find P xs = Some x"
proof (induction xs)
  case (Cons y ys)
  show ?case
  proof (cases "P y")
    case True
    then show ?thesis using Cons.prems(3) [of y] by simp
  next
    case False
    then have "x \<in> set ys" using Cons.prems(1,2) by auto
    then have "List.find P ys = Some x" using Cons.prems(2) by (rule Cons.IH) (rule Cons.prems(3), simp_all)
    then show ?thesis using False by simp
  qed
qed simp

text \<open>The index of a property.\<close>

definition index_of :: "prop_entry list \<Rightarrow> JSAtom \<Rightarrow> nat option" where
  "index_of ps a = List.find (\<lambda>i. atom (ps ! i) = a) [0..<length ps]"

lemma index_of_Some: "index_of ps a = Some i \<Longrightarrow> i < length ps \<and> atom (ps ! i) = a"
  by (auto simp: index_of_def find_Some_iff)

lemma index_of_None: "index_of ps a = None \<longleftrightarrow> (\<forall>i<length ps. atom (ps ! i) \<noteq> a)"
  by (auto simp: index_of_def find_None_iff)

lemma index_ofI:
  assumes "unique ps" "i < length ps" "atom (ps ! i) = a" "a \<noteq> JS_ATOM_NULL"
  shows "index_of ps a = Some i"
  unfolding index_of_def using assms by (intro find_only) (auto simp: unique_def)

lemma find_bucket:
  assumes "unique ps" "a \<noteq> JS_ATOM_NULL"
  shows "List.find (\<lambda>i. atom (ps ! i) = a) (bucket ps m (slot a m)) = index_of ps a"
proof (cases "index_of ps a")
  case None
  then have "List.find (\<lambda>i. atom (ps ! i) = a) (bucket ps m (slot a m)) = None"
    unfolding index_of_None by (auto simp: find_None_iff set_bucket)
  then show ?thesis using None by simp
next
  case (Some i)
  then have "i < length ps" "atom (ps ! i) = a" using index_of_Some by auto
  then show ?thesis unfolding Some using assms by (intro find_only) (auto simp: set_bucket unique_def)
qed

lemma find_own_property_ok:
  assumes "table_ok sh" "a \<noteq> JS_ATOM_NULL"
  shows "find_own_property1 sh a = Some (index_of (props sh) a)"
  using find_links [OF chainsD(1)] find_bucket assms by (auto simp: find_own_property1_def table_ok_def)

section \<open>Adding entries\<close>

lemma links_bound: "entry_links ps h is \<Longrightarrow> h \<le> length ps"
  by (cases "is") auto

lemma links_extend: "entry_links ps h is \<Longrightarrow> entry_links (ps @ qs) h is"
  by (induction "is" arbitrary: h) (auto simp: nth_append)

lemma bucket_append: "bucket (ps @ [e]) m b = (if live e \<and> slot (atom e) m = b then [length ps] else []) @ bucket ps m b"
  by (auto simp: bucket_def nth_append intro!: filter_cong)

lemma chains_empty: "chains [] m (replicate (unat m + 1) 0)"
  by (simp add: chains_def bucket_def nth_append del: replicate_Suc)

lemma chains_skip: "chains ps m ht \<Longrightarrow> \<not> live e \<Longrightarrow> chains (ps @ [e]) m ht"
  by (auto simp: chains_def bucket_append links_extend)

lemma chains_insert:
  assumes "chains ps m ht" "length ps \<le> max_count" "live e" "hash_next e = of_nat (ht ! slot (atom e) m)"
  shows "chains (ps @ [e]) m (ht[slot (atom e) m := length ps + 1])"
proof -
  let ?h = "slot (atom e) m"
  have "entry_links (ps @ [e]) (ht[?h := length ps + 1] ! b) (bucket (ps @ [e]) m b)" if b: "b < length ht" for b
  proof (cases "b = ?h")
    case True
    have l: "entry_links ps (ht ! ?h) (bucket ps m ?h)" using chainsD(1) [OF assms(1)] .
    then have "ht ! ?h < 2 ^ 26" using links_bound [OF l] assms(2) by (simp add: max_count_def)
    then have "unat (of_nat (ht ! ?h) :: 26 word) = ht ! ?h" by (simp add: unat_of_nat)
    then show ?thesis using True b assms(3,4) links_extend [OF l] by (simp add: bucket_append)
  next
    case False
    then show ?thesis using assms(1) b by (auto simp: bucket_append chains_def links_extend)
  qed
  then show ?thesis using assms(1) by (simp add: chains_def)
qed

lemma unique_append:
  assumes "unique ps" "index_of ps (atom e) = None \<or> \<not> live e"
  shows "unique (ps @ [e])"
  using assms unfolding unique_def index_of_None by (auto simp: nth_append less_Suc_eq)

text \<open>What a table says of its properties, without the chains.\<close>

definition keys :: "prop_entry list \<Rightarrow> (JSAtom \<times> 6 word) list" where
  "keys ps = map (\<lambda>pr. (atom pr, flags pr)) ps"

lemma keys_atom: "keys ps = keys qs \<Longrightarrow> length ps = length qs \<and> (\<forall>i<length ps. atom (ps ! i) = atom (qs ! i) \<and> flags (ps ! i) = flags (qs ! i))"
  unfolding keys_def by (metis (no_types, lifting) Pair_inject length_map nth_map)

lemma keys_simps [simp]: "keys [] = []" "keys (ps @ qs) = keys ps @ keys qs" "keys (p # ps) = (atom p, flags p) # keys ps" "length (keys ps) = length ps"
  by (simp_all add: keys_def)

lemma unique_keys: "keys ps = keys qs \<Longrightarrow> unique ps = unique qs"
  using keys_atom [of ps qs] by (auto simp: unique_def)

lemma filter_keys: "keys ps = keys qs \<Longrightarrow> length (filter (\<lambda>pr. \<not> live pr) ps) = length (filter (\<lambda>pr. \<not> live pr) qs)"
proof (induction ps arbitrary: qs)
  case (Cons p ps)
  then obtain q qs' where "qs = q # qs'" by (cases qs) auto
  then show ?case using Cons by auto
qed (auto simp: keys_def)

lemma append_ok:
  assumes "table_ok sh" "prop_count sh < prop_size sh" "prop_count sh < max_count" "a \<noteq> JS_ATOM_NULL" "index_of (props sh) a = None"
  shows "table_ok (append_property a fl sh)" "keys (props (append_property a fl sh)) = keys (props sh) @ [(a, fl)]"
  using assms chains_insert [of "props sh" "prop_hash_mask sh" "hash_table sh" "\<lparr>hash_next = of_nat (hash_table sh ! slot a (prop_hash_mask sh)), flags = fl, atom = a\<rparr>"]
  by (auto simp: table_ok_def append_property_def Let_def intro!: unique_append)

section \<open>Growing\<close>

lemma rehash_ok:
  "rehash_loop m ht done_prs prs = (ht', prs') \<Longrightarrow> chains done_prs m ht \<Longrightarrow> length done_prs + length prs \<le> max_count \<Longrightarrow>
    chains prs' m ht' \<and> keys prs' = keys (done_prs @ prs)"
proof (induction m ht done_prs prs rule: rehash_loop.induct)
  case (2 m ht done_prs pr prs)
  show ?case
  proof (cases "live pr")
    case True
    have "chains (done_prs @ [pr\<lparr>hash_next := of_nat (ht ! slot (atom pr) m)\<rparr>]) m (ht[slot (atom pr) m := length done_prs + 1])"
      using chains_insert [of done_prs m ht "pr\<lparr>hash_next := of_nat (ht ! slot (atom pr) m)\<rparr>"] 2(4,5) True by simp
    then show ?thesis using 2(1) [OF True refl] 2(3,5) True by (simp add: Let_def)
  next
    case False
    then show ?thesis using 2(2) [OF _ _ chains_skip] 2(3-5) by simp
  qed
qed auto

lemma grow_bounds: "0 < n \<Longrightarrow> m \<le> grow_hash_size m n \<and> n \<le> grow_hash_size m n \<and> (grow_hash_size m n = n \<or> grow_hash_size m n < 2 * m)"
proof (induction m n rule: grow_hash_size.induct)
  case (1 m n)
  show ?case
  proof (cases "n < m")
    case True
    then have "grow_hash_size m n = grow_hash_size m (2 * n)" using 1(2) by (subst grow_hash_size.simps) simp
    then show ?thesis using 1 True by auto
  next
    case False
    then have "grow_hash_size m n = n" by (subst grow_hash_size.simps) simp
    then show ?thesis using False by simp
  qed
qed

lemma unat_mask:
  assumes "0 < n" "n \<le> 2 ^ 28"
  shows "unat (of_nat (n - 1) :: 32 word) + 1 = n"
proof -
  have "unat (of_nat (n - 1) :: 32 word) = n - 1" using assms by (simp only: unat_of_nat) simp
  then show ?thesis using assms(1) by simp
qed

lemma resize_ok:
  assumes ok: "table_ok sh" and c: "prop_size sh \<le> max_count" "count \<le> max_count + 1"
  shows "table_ok (resize_table count sh)" "keys (props (resize_table count sh)) = keys (props sh)"
    "prop_size (resize_table count sh) = new_prop_size count sh"
proof -
  define n where "n = grow_hash_size (new_prop_size count sh) (unat (prop_hash_mask sh) + 1)"
  have ns: "new_prop_size count sh \<le> 2 ^ 27" "prop_size sh \<le> new_prop_size count sh" using c by (auto simp: new_prop_size_def max_count_def)
  have n: "unat (prop_hash_mask sh) + 1 \<le> n" "n \<le> 2 ^ 28"
    using grow_bounds [of "unat (prop_hash_mask sh) + 1" "new_prop_size count sh"] ns(1) ok by (auto simp: n_def table_ok_def)
  have eq: "resize_table count sh = (if n \<noteq> unat (prop_hash_mask sh) + 1 then
      let (ht, prs) = rehash_loop (of_nat (n - 1)) (replicate n 0) [] (props sh) in
      sh\<lparr>prop_hash_mask := of_nat (n - 1), prop_size := new_prop_size count sh, hash_table := ht, props := prs\<rparr>
      else sh\<lparr>prop_size := new_prop_size count sh\<rparr>)"
    unfolding resize_table_def Let_def n_def ..
  have "table_ok (resize_table count sh) \<and> keys (props (resize_table count sh)) = keys (props sh) \<and>
    prop_size (resize_table count sh) = new_prop_size count sh"
  proof (cases "n = unat (prop_hash_mask sh) + 1")
    case True
    then show ?thesis using ok ns unfolding eq by (auto simp: table_ok_def)
  next
    case False
    define m where "m = (of_nat (n - 1) :: 32 word)"
    obtain ht prs where r: "rehash_loop m (replicate n 0) [] (props sh) = (ht, prs)" by fastforce
    have m: "unat m + 1 = n" unfolding m_def using n by (intro unat_mask) simp_all
    have "chains prs m ht \<and> keys prs = keys (props sh)"
      using rehash_ok [OF r] chains_empty [of m] ok unfolding m by (simp add: table_ok_def)
    moreover have "resize_table count sh = sh\<lparr>prop_hash_mask := m, prop_size := new_prop_size count sh, hash_table := ht, props := prs\<rparr>"
      using False r unfolding eq m_def [symmetric] by simp
    moreover have "length prs = prop_count sh" using calculation(1) by (metis keys_simps(4))
    ultimately show ?thesis using ok ns m n unique_keys [of prs "props sh"] filter_keys [of prs "props sh"]
      by (auto simp: table_ok_def)
  qed
  then show "table_ok (resize_table count sh)" "keys (props (resize_table count sh)) = keys (props sh)"
    "prop_size (resize_table count sh) = new_prop_size count sh" by blast+
qed

section \<open>Deleting\<close>

lemma links_cong:
  "length qs = length ps \<Longrightarrow> (\<And>i. i \<in> set is \<Longrightarrow> hash_next (qs ! i) = hash_next (ps ! i)) \<Longrightarrow> entry_links qs h is = entry_links ps h is"
  by (induction "is" arbitrary: h) auto

lemma delete_links:
  "entry_links ps h is \<Longrightarrow>
    (case List.find (\<lambda>i. atom (ps ! i) = a) is of
       None \<Rightarrow> delete_loop ps a lpr h = Some None
     | Some i \<Rightarrow> \<exists>pre post. is = pre @ i # post \<and> delete_loop ps a lpr h = Some (Some (if pre = [] then lpr else Some (last pre), Suc i)))"
proof (induction "is" arbitrary: h lpr)
  case Nil
  then show ?case by (subst delete_loop.simps) simp
next
  case (Cons i "is")
  then have h: "h = Suc i" "i < length ps" "entry_links ps (unat (hash_next (ps ! i))) is" by auto
  show ?case
  proof (cases "atom (ps ! i) = a")
    case True
    then have "delete_loop ps a lpr h = Some (Some (lpr, Suc i))" using h by (subst delete_loop.simps) simp
    then show ?thesis using True by (auto intro!: exI [of _ "[]"])
  next
    case False
    then have eq: "delete_loop ps a lpr h = delete_loop ps a (Some i) (unat (hash_next (ps ! i)))" using h by (subst delete_loop.simps) simp
    show ?thesis
    proof (cases "List.find (\<lambda>i. atom (ps ! i) = a) is")
      case None
      then show ?thesis using Cons.IH [OF h(3), of "Some i"] False eq by simp
    next
      case (Some j)
      with Cons.IH [OF h(3), of "Some i"] obtain pre post where p: "is = pre @ j # post"
        "delete_loop ps a (Some i) (unat (hash_next (ps ! i))) = Some (Some (if pre = [] then Some i else Some (last pre), Suc j))" by auto
      have c: "i # is = (i # pre) @ j # post \<and>
          delete_loop ps a lpr h = Some (Some (if i # pre = [] then lpr else Some (last (i # pre)), Suc j))" using p eq by simp
      have f: "List.find (\<lambda>i. atom (ps ! i) = a) (i # is) = Some j" using Some False by simp
      show ?thesis unfolding f option.case using c by blast
    qed
  qed
qed

lemma links_remove:
  assumes "entry_links ps h (pre @ i # post)" "distinct (pre @ i # post)"
  shows "pre = [] \<Longrightarrow> h = Suc i \<and> entry_links ps (unat (hash_next (ps ! i))) post"
    "pre \<noteq> [] \<Longrightarrow> entry_links (ps[last pre := (ps ! last pre)\<lparr>hash_next := hash_next (ps ! i)\<rparr>]) h (pre @ post)"
proof -
  show "pre = [] \<Longrightarrow> h = Suc i \<and> entry_links ps (unat (hash_next (ps ! i))) post" using assms(1) by simp
  show "pre \<noteq> [] \<Longrightarrow> entry_links (ps[last pre := (ps ! last pre)\<lparr>hash_next := hash_next (ps ! i)\<rparr>]) h (pre @ post)"
    using assms
  proof (induction pre arbitrary: h)
    case (Cons l pre)
    let ?ps = "ps[last (l # pre) := (ps ! last (l # pre))\<lparr>hash_next := hash_next (ps ! i)\<rparr>]"
    show ?case
    proof (cases "pre = []")
      case True
      have "entry_links ?ps (unat (hash_next (ps ! i))) post = entry_links ps (unat (hash_next (ps ! i))) post"
        using Cons.prems True by (intro links_cong) (auto simp: nth_list_update)
      then show ?thesis using Cons.prems True by simp
    next
      case False
      then have "last pre \<noteq> l" using Cons.prems(3) by auto
      then have "hash_next (?ps ! l) = hash_next (ps ! l)" using False by simp
      then show ?thesis using Cons False by simp
    qed
  qed simp
qed

lemma bucket_clear:
  assumes "i < length ps" "length qs = length ps" "\<And>j. j < length ps \<Longrightarrow> j \<noteq> i \<Longrightarrow> atom (qs ! j) = atom (ps ! j)" "\<not> live (qs ! i)"
  shows "bucket qs m b = filter (\<lambda>j. j \<noteq> i) (bucket ps m b)"
proof -
  have "filter (\<lambda>j. live (qs ! j) \<and> slot (atom (qs ! j)) m = b) [0..<length qs] =
      filter (\<lambda>j. j \<noteq> i \<and> live (ps ! j) \<and> slot (atom (ps ! j)) m = b) [0..<length ps]"
    using assms by (intro filter_cong) (auto, metis+)
  then show ?thesis by (simp add: bucket_def rev_filter [symmetric] conj_commute)
qed

lemma delete_none:
  assumes "table_ok sh" "a \<noteq> JS_ATOM_NULL" "index_of (props sh) a = None"
  shows "delete_loop (props sh) a None (hash_table sh ! slot a (prop_hash_mask sh)) = Some None"
proof -
  have "entry_links (props sh) (hash_table sh ! slot a (prop_hash_mask sh)) (bucket (props sh) (prop_hash_mask sh) (slot a (prop_hash_mask sh)))"
    using assms(1) by (intro chainsD) (simp add: table_ok_def)
  then show ?thesis using delete_links [where lpr = None and a = a] find_bucket [of "props sh" a] assms by (fastforce simp: table_ok_def)
qed

text \<open>The entries after a deletion.\<close>

definition cleared :: "nat \<Rightarrow> prop_entry list \<Rightarrow> (JSAtom \<times> 6 word) list" where
  "cleared i ps = (keys ps)[i := (JS_ATOM_NULL, 0)]"

lemma unlink_entry_ok:
  assumes ok: "table_ok sh" and a: "a \<noteq> JS_ATOM_NULL" and i: "index_of (props sh) a = Some i"
  shows "\<exists>lpr. delete_loop (props sh) a None (hash_table sh ! slot a (prop_hash_mask sh)) = Some (Some (lpr, Suc i)) \<and>
    table_ok (unlink_entry a lpr i sh) \<and> keys (props (unlink_entry a lpr i sh)) = cleared i (props sh) \<and>
    prop_size (unlink_entry a lpr i sh) = prop_size sh"
proof -
  let ?ps = "props sh" and ?m = "prop_hash_mask sh" and ?b = "slot a (prop_hash_mask sh)"
  have ch: "chains ?ps ?m (hash_table sh)" "unique ?ps" using ok by (auto simp: table_ok_def)
  have il: "i < length ?ps" "atom (?ps ! i) = a" using index_of_Some [OF i] by auto
  note l = chainsD [OF ch(1), of a]
  have "List.find (\<lambda>i. atom (?ps ! i) = a) (bucket ?ps ?m ?b) = Some i" using find_bucket [OF ch(2) a] i by simp
  with delete_links [OF l(1), of a None] obtain pre post where b: "bucket ?ps ?m ?b = pre @ i # post"
    "delete_loop ?ps a None (hash_table sh ! ?b) = Some (Some (if pre = [] then None else Some (last pre), Suc i))" by auto
  define lpr where "lpr = (if pre = [] then None else Some (last pre))"
  define sh' where "sh' = unlink_entry a lpr i sh"
  have d: "distinct (pre @ i # post)" using distinct_bucket [of ?ps ?m ?b] b(1) by simp
  have lp: "last pre < length ?ps" "last pre \<noteq> i" if "pre \<noteq> []"
  proof -
    have "last pre \<in> set (bucket ?ps ?m ?b)" using that b(1) by simp
    then show "last pre < length ?ps" by (simp add: set_bucket)
    show "last pre \<noteq> i" using d that last_in_set [OF that] by auto
  qed
  define qs where "qs = (if pre = [] then ?ps else ?ps[last pre := (?ps ! last pre)\<lparr>hash_next := hash_next (?ps ! i)\<rparr>])"
  define ht where "ht = (if pre = [] then (hash_table sh)[?b := unat (hash_next (?ps ! i))] else hash_table sh)"
  have sh': "props sh' = qs[i := (qs ! i)\<lparr>flags := 0, atom := JS_ATOM_NULL\<rparr>]" "hash_table sh' = ht" "prop_hash_mask sh' = ?m"
    "prop_size sh' = prop_size sh" "deleted_prop_count sh' = deleted_prop_count sh + 1"
    by (simp_all add: sh'_def unlink_entry_def lpr_def qs_def ht_def Let_def)
  have q: "length qs = length ?ps" "atom (qs ! j) = atom (?ps ! j)" "flags (qs ! j) = flags (?ps ! j)" for j
    using lp by (auto simp: qs_def nth_list_update)
  have p: "length (props sh') = length ?ps" "hash_next (props sh' ! j) = hash_next (qs ! j)"
    "j < length ?ps \<Longrightarrow> atom (props sh' ! j) = (if j = i then JS_ATOM_NULL else atom (?ps ! j))"
    "j < length ?ps \<Longrightarrow> flags (props sh' ! j) = (if j = i then 0 else flags (?ps ! j))" for j
    using q il(1) by (auto simp: sh'(1) nth_list_update)
  have bk: "bucket (props sh') ?m c = filter (\<lambda>j. j \<noteq> i) (bucket ?ps ?m c)" for c
    using il(1) p by (intro bucket_clear) auto
  have "entry_links (props sh') (ht ! c) (bucket (props sh') ?m c)" if c: "c < length (hash_table sh)" for c
  proof (cases "c = ?b")
    case True
    have "filter (\<lambda>j. j \<noteq> i) pre = pre" "filter (\<lambda>j. j \<noteq> i) post = post" using d by (auto simp: filter_id_conv)
    then have f: "filter (\<lambda>j. j \<noteq> i) (pre @ i # post) = pre @ post" by simp
    have "entry_links qs (ht ! ?b) (pre @ post)"
      using links_remove [OF l(1) [unfolded b(1)] d] l(2) by (auto simp: qs_def ht_def)
    then show ?thesis using True bk [of ?b] f b(1) links_cong [of "props sh'" qs] p(1,2) q(1) by simp
  next
    case False
    have old: "entry_links ?ps (hash_table sh ! c) (bucket ?ps ?m c)" using ch(1) c by (simp add: chains_def)
    have ni: "j \<noteq> i \<and> (pre \<noteq> [] \<longrightarrow> j \<noteq> last pre)" if "j \<in> set (bucket ?ps ?m c)" for j
    proof -
      have "set (bucket ?ps ?m c) \<inter> set (bucket ?ps ?m ?b) = {}" using False by (auto simp: set_bucket)
      then show ?thesis using that b(1) last_in_set [of pre] by auto
    qed
    then have "entry_links (props sh') (hash_table sh ! c) (bucket ?ps ?m c) = entry_links ?ps (hash_table sh ! c) (bucket ?ps ?m c)"
      unfolding qs_def
    proof (intro links_cong)
      fix j assume "j \<in> set (bucket ?ps ?m c)"
      from ni [OF this] have "qs ! j = ?ps ! j" by (auto simp: qs_def)
      then show "hash_next (props sh' ! j) = hash_next (?ps ! j)" using p(2) by simp
    qed (use p(1) in simp)
    moreover have "bucket (props sh') ?m c = bucket ?ps ?m c" unfolding bk using ni by (auto simp: filter_id_conv)
    moreover have "ht ! c = hash_table sh ! c" using False by (simp add: ht_def)
    ultimately show ?thesis using old by simp
  qed
  moreover have "length ht = length (hash_table sh)" by (simp add: ht_def)
  ultimately have "chains (props sh') ?m ht" using ch(1) unfolding chains_def by simp
  moreover have "unique (props sh')" using ch(2) p unfolding unique_def by auto
  moreover have "length (filter (\<lambda>pr. \<not> live pr) (props sh')) = length (filter (\<lambda>pr. \<not> live pr) ?ps) + 1"
  proof -
    have "{j. j < length (props sh') \<and> \<not> live (props sh' ! j)} = insert i {j. j < length ?ps \<and> \<not> live (?ps ! j)}"
      using p(1,3) il by auto
    moreover have "i \<notin> {j. j < length ?ps \<and> \<not> live (?ps ! j)}" using il(2) a by simp
    ultimately show ?thesis unfolding length_filter_conv_card by simp
  qed
  ultimately have "table_ok sh'" using ok p(1) sh' by (simp add: table_ok_def)
  moreover have "keys (props sh') = cleared i ?ps" using p il(1) by (auto simp: cleared_def keys_def list_eq_iff_nth_eq nth_list_update)
  ultimately show ?thesis using b(2) sh'(4) unfolding sh'_def lpr_def by blast
qed

section \<open>Compacting\<close>

text \<open>The properties with the values an object has for them, in the order in which they were added.\<close>

definition view :: "(JSAtom \<times> 6 word) list \<Rightarrow> 'v list \<Rightarrow> (JSAtom \<times> 6 word \<times> 'v) list" where
  "view ks vs = map (\<lambda>((a, f), v). (a, f, v)) (filter (\<lambda>((a, f), v). a \<noteq> JS_ATOM_NULL) (zip ks vs))"

definition live_keys :: "(JSAtom \<times> 6 word) list \<Rightarrow> (JSAtom \<times> 6 word) list" where
  "live_keys ks = filter (\<lambda>(a, f). a \<noteq> JS_ATOM_NULL) ks"

lemma view_append: "length ks = length vs \<Longrightarrow> view (ks @ ls) (vs @ ws) = view ks vs @ view ls ws"
  by (simp add: view_def)

lemma zip_take_length: "zip ks (take (length ks) vs) = zip ks vs"
proof (induction ks arbitrary: vs)
  case (Cons k ks)
  then show ?case by (cases vs) auto
qed simp

lemma view_take: "view ks (take (length ks) vs) = view ks vs"
  by (simp add: view_def zip_take_length)

lemma live_keys_zip: "length ks \<le> length vs \<Longrightarrow> live_keys ks = map fst (filter (\<lambda>((a, f), v). a \<noteq> JS_ATOM_NULL) (zip ks vs))"
proof (induction ks arbitrary: vs)
  case (Cons k ks)
  then show ?case by (cases vs) (auto simp: live_keys_def split: prod.splits)
qed (simp add: live_keys_def)

lemma unique_snoc: "unique (ps @ [e]) \<longleftrightarrow> unique ps \<and> (live e \<longrightarrow> index_of ps (atom e) = None)"
proof (intro iffI conjI impI)
  assume u: "unique (ps @ [e])"
  show "unique ps" unfolding unique_def
  proof (intro allI impI)
    fix i j assume "i < length ps" "j < length ps" "live (ps ! i)" "atom (ps ! i) = atom (ps ! j)"
    then show "i = j" using u [unfolded unique_def, rule_format, of i j] by (simp add: nth_append)
  qed
  show "index_of ps (atom e) = None" if "live e" unfolding index_of_None
  proof (intro allI impI notI)
    fix i assume "i < length ps" "atom (ps ! i) = atom e"
    then show False using u [unfolded unique_def, rule_format, of i "length ps"] that by (simp add: nth_append)
  qed
qed (use unique_append in blast)

lemma unique_distinct: "unique ps \<longleftrightarrow> distinct (map fst (live_keys (keys ps)))"
proof (induction ps rule: rev_induct)
  case (snoc e ps)
  have "set (map fst (live_keys (keys ps))) = atom ` set ps - {JS_ATOM_NULL}" by (force simp: live_keys_def keys_def)
  moreover have "index_of ps (atom e) = None \<longleftrightarrow> atom e \<notin> atom ` set ps" unfolding index_of_None
    by (metis (no_types, lifting) image_iff in_set_conv_nth)
  ultimately have "index_of ps (atom e) = None \<longleftrightarrow> atom e \<notin> set (map fst (live_keys (keys ps)))" if "live e" using that by blast
  then show ?case using snoc by (auto simp: unique_snoc live_keys_def)
qed (simp add: unique_def live_keys_def)

lemma length_live: "length (live_keys (keys ps)) = length ps - length (filter (\<lambda>pr. \<not> live pr) ps)"
  using sum_length_filter_compl [of live ps] by (simp add: live_keys_def keys_def filter_map o_def)

lemma compact_loop_ok:
  "compact_loop m ht new vals i olds = (ht', new', vals') \<Longrightarrow> chains new m ht \<Longrightarrow> length new + length olds \<le> max_count \<Longrightarrow>
    length new \<le> i \<Longrightarrow> i + length olds \<le> length vals \<Longrightarrow>
    chains new' m ht' \<and> keys new' = keys new @ live_keys (keys olds) \<and> length vals' = length vals \<and>
    take (length new') vals' = take (length new) vals @ map snd (filter (\<lambda>((a, f), v). a \<noteq> JS_ATOM_NULL) (zip (keys olds) (drop i vals)))"
proof (induction m ht new vals i olds rule: compact_loop.induct)
  case (2 m ht new vals i old olds)
  have dr: "drop i vals = vals ! i # drop (Suc i) vals" using 2(6,7) by (simp add: Cons_nth_drop_Suc)
  show ?case
  proof (cases "live old")
    case True
    let ?e = "\<lparr>hash_next = of_nat (ht ! slot (atom old) m), flags = flags old, atom = atom old\<rparr>"
    let ?vals = "vals[length new := vals ! i]"
    have "chains (new @ [?e]) m (ht[slot (atom old) m := length new + 1])"
      using chains_insert [of new m ht ?e] 2(4,5) True by simp
    moreover have "take (Suc (length new)) ?vals = take (length new) vals @ [vals ! i]"
      using 2(6,7) by (simp add: take_Suc_conv_app_nth)
    moreover have "drop (Suc i) ?vals = drop (Suc i) vals" using 2(6) by simp
    ultimately show ?thesis using 2(1) [OF True refl] 2(3,5,6,7) True dr by (simp add: Let_def live_keys_def)
  next
    case False
    then show ?thesis using 2(2) 2(3-7) dr by (simp add: live_keys_def)
  qed
qed (simp add: live_keys_def)

lemma shrink_bounds: "2 \<le> m \<Longrightarrow> 0 < n \<Longrightarrow> 0 < shrink_hash_size m n \<and> shrink_hash_size m n \<le> n"
proof (induction m n rule: shrink_hash_size.induct)
  case (1 m n)
  show ?case
  proof (cases "m \<le> n div 2")
    case True
    then have "shrink_hash_size m n = shrink_hash_size m (n div 2)" using 1(3) by (subst shrink_hash_size.simps) simp
    then show ?thesis using 1 True by fastforce
  next
    case False
    then have "shrink_hash_size m n = n" by (subst shrink_hash_size.simps) simp
    then show ?thesis using 1(3) by simp
  qed
qed

lemma compact_ok:
  assumes ok: "table_ok sh" and vals: "prop_count sh \<le> length vals" and c: "compact_table sh vals = (sh', vals')"
  shows "table_ok sh'" "keys (props sh') = live_keys (keys (props sh))" "length vals' = length vals"
    "view (keys (props sh')) vals' = view (keys (props sh)) vals" "prop_size sh' = compact_size sh"
proof -
  define n where "n = shrink_hash_size (compact_size sh) (unat (prop_hash_mask sh) + 1)"
  define m where "m = (of_nat (n - 1) :: 32 word)"
  obtain ht prs vs where l: "compact_loop m (replicate n 0) [] vals 0 (props sh) = (ht, prs, vs)" by (metis prod_cases3)
  have n: "0 < n" "n \<le> unat (prop_hash_mask sh) + 1" using shrink_bounds [of "compact_size sh" "unat (prop_hash_mask sh) + 1"]
    by (auto simp: n_def compact_size_def JS_PROP_INITIAL_SIZE_def)
  have "unat (prop_hash_mask sh) < 2 ^ 28" using ok by (simp add: table_ok_def)
  then have m: "unat m + 1 = n" unfolding m_def using n by (intro unat_mask) simp_all
  have "sh' = sh\<lparr>prop_hash_mask := m, prop_size := compact_size sh, deleted_prop_count := 0, hash_table := ht, props := prs\<rparr> \<and> vals' = vs"
    using c l unfolding compact_table_def Let_def n_def [symmetric] m_def [symmetric] by simp
  then have sh': "props sh' = prs" "hash_table sh' = ht" "prop_hash_mask sh' = m" "prop_size sh' = compact_size sh"
    "deleted_prop_count sh' = 0" "vals' = vs" by simp_all
  have "chains prs m ht \<and> keys prs = live_keys (keys (props sh)) \<and> length vs = length vals \<and>
      take (length prs) vs = map snd (filter (\<lambda>((a, f), v). a \<noteq> JS_ATOM_NULL) (zip (keys (props sh)) vals))"
    using compact_loop_ok [OF l] chains_empty [of m] ok vals unfolding m by (simp add: table_ok_def)
  then have r: "chains prs m ht" "keys prs = live_keys (keys (props sh))" "length vs = length vals"
    "take (length prs) vs = map snd (filter (\<lambda>((a, f), v). a \<noteq> JS_ATOM_NULL) (zip (keys (props sh)) vals))" by blast+
  show "keys (props sh') = live_keys (keys (props sh))" "length vals' = length vals" "prop_size sh' = compact_size sh" using r sh' by simp_all
  have len: "length prs = prop_count sh - deleted_prop_count sh" using arg_cong [OF r(2), of length] length_live ok by (simp add: table_ok_def)
  have lk: "live_keys (keys prs) = keys prs" using r(2) by (simp add: live_keys_def)
  then have "filter (\<lambda>pr. \<not> live pr) prs = []" by (auto simp: live_keys_def keys_def filter_id_conv filter_empty_conv)
  moreover have "unique prs" using ok lk r(2) unfolding unique_distinct by (simp add: table_ok_def unique_distinct)
  ultimately show "table_ok sh'" using ok r sh' len n m
    by (auto simp: table_ok_def compact_size_def JS_PROP_INITIAL_SIZE_def)
  define F where "F = filter (\<lambda>((a, f), v). a \<noteq> JS_ATOM_NULL) (zip (keys (props sh)) vals)"
  have "keys prs = map fst F" unfolding r(2) F_def using vals by (intro live_keys_zip) simp
  moreover have "length F = length prs" using calculation by (metis keys_simps(4) length_map)
  ultimately have "zip (keys prs) vs = F"
    using r(4) zip_take_length [of "keys prs" vs] zip_map_fst_snd [of F] unfolding F_def [symmetric] by simp
  moreover have "filter (\<lambda>((a, f), v). a \<noteq> JS_ATOM_NULL) F = F" by (simp add: F_def)
  ultimately show "view (keys (props sh')) vals' = view (keys (props sh)) vals" unfolding view_def sh' F_def [symmetric] by simp
qed

end
