(* ===== verification/ShapeHash.thy ===== *)
theory ShapeHash
  imports PropTable
begin

text \<open>
  Shapes of \<open>quickjs.c\<close> and the hash table of the runtime in which the shapes that objects may share are found.
  The table is an array of chains through the field \<open>shape_hash_next\<close>. Linking a shape, unlinking it, doubling the table
  and searching a chain are shown to be insertion into, removal from and search in a set of shapes.
\<close>

section \<open>Data\<close>

text \<open>Addresses of shapes and of objects; 0 is \<open>NULL\<close>.\<close>

type_synonym addr = "64 word"

record js_shape = prop_table +
  ref_count :: int
  is_hashed :: bool
  hash :: "32 word"
  shape_hash_next :: addr
  proto :: addr

text \<open>An ordinary object. \<open>prop_values\<close> is the array \<open>prop\<close> of values, some of which may not be initialized.\<close>

record 'v js_object =
  shape :: addr
  prop_values :: "'v option list"
  is_std_array_prototype :: bool
  has_immutable_prototype :: bool
  extensible :: bool

text \<open>
  The part of the runtime that the functions on shapes use. \<open>contexts\<close> has the prototypes of the classes \<open>JS_CLASS_OBJECT\<close> and
  \<open>JS_CLASS_ARRAY\<close> of every context, 0 when they are not objects. The reference counts of atoms and of objects are those of their
  headers; \<open>zero_refs\<close> is \<open>gc_zero_ref_count_list\<close>, the objects waiting to be freed; \<open>released\<close> are the property values that have been freed; \<open>alloc_log\<close> has the answers of the allocator,
  the last one first.
\<close>

record 'v shape_rt =
  shapes :: "addr \<rightharpoonup> js_shape"
  objs :: "addr \<rightharpoonup> 'v js_object"
  shape_hash_bits :: nat
  shape_hash_count :: nat
  shape_hash_table :: "addr list"
  contexts :: "(addr \<times> addr) list"
  atom_rc :: "JSAtom \<Rightarrow> int"
  obj_rc :: "addr \<Rightarrow> int"
  zero_refs :: "addr list"
  released :: "'v list"
  alloc_log :: "addr list"

abbreviation shape_hash_size :: "'v shape_rt \<Rightarrow> nat" where
  "shape_hash_size rt \<equiv> length (shape_hash_table rt)"

text \<open>The allocator is a parameter: the address it returns in a state, 0 when there is no memory.\<close>

type_synonym 'v shape_alloc = "'v shape_rt \<Rightarrow> addr"

definition js_malloc :: "'v shape_alloc \<Rightarrow> 'v shape_rt \<Rightarrow> addr \<times> 'v shape_rt" where
  "js_malloc al rt = (al rt, rt\<lparr>alloc_log := al rt # alloc_log rt\<rparr>)"

definition set_shape :: "addr \<Rightarrow> js_shape \<Rightarrow> 'v shape_rt \<Rightarrow> 'v shape_rt" where
  "set_shape s sh rt = rt\<lparr>shapes := (shapes rt)(s \<mapsto> sh)\<rparr>"

definition set_obj :: "addr \<Rightarrow> 'v js_object \<Rightarrow> 'v shape_rt \<Rightarrow> 'v shape_rt" where
  "set_obj p ob rt = rt\<lparr>objs := (objs rt)(p \<mapsto> ob)\<rparr>"

section \<open>Hash values\<close>

definition shape_hash :: "32 word \<Rightarrow> 32 word \<Rightarrow> 32 word" where
  "shape_hash h val = (h + val) * 0x9e370001"

definition get_shape_hash :: "32 word \<Rightarrow> nat \<Rightarrow> 32 word" where
  "get_shape_hash h hash_bits = drop_bit (32 - hash_bits) h"

definition shape_initial_hash :: "addr \<Rightarrow> 32 word" where
  "shape_initial_hash pr = shape_hash (shape_hash 1 (ucast pr)) (ucast (drop_bit 32 pr))"

abbreviation hash_slot :: "nat \<Rightarrow> 32 word \<Rightarrow> nat" where
  "hash_slot bits h \<equiv> unat (get_shape_hash h bits)"

section \<open>Operations\<close>

text \<open>\<open>None\<close> is a \<open>NULL\<close> or dangling pointer that is read, an index outside of an array, or an assertion that fails.\<close>

definition init_shape_hash :: "'v shape_alloc \<Rightarrow> 'v shape_rt \<Rightarrow> int \<times> 'v shape_rt" where
  "init_shape_hash al rt =
     (let (t, rt) = js_malloc al (rt\<lparr>shape_hash_bits := 4, shape_hash_count := 0\<rparr>) in
      if t = 0 then (-1, rt) else (0, rt\<lparr>shape_hash_table := replicate (2 ^ 4) 0\<rparr>))"

definition js_shape_hash_link :: "addr \<Rightarrow> 'v shape_rt \<Rightarrow> 'v shape_rt option" where
  "js_shape_hash_link s rt =
     do { sh \<leftarrow> shapes rt s;
          let h = hash_slot (shape_hash_bits rt) (hash sh);
          if h < shape_hash_size rt then
            Some ((set_shape s (sh\<lparr>shape_hash_next := shape_hash_table rt ! h\<rparr>) rt)
              \<lparr>shape_hash_table := (shape_hash_table rt)[h := s], shape_hash_count := shape_hash_count rt + 1\<rparr>)
          else None }"

text \<open>The loop of \<open>js_shape_hash_unlink\<close>: \<open>psh\<close> points to the head of the chain (\<open>None\<close>) or into a shape; \<open>cur\<close> is \<open>*psh\<close>.\<close>

partial_function (option) unlink_loop :: "(addr \<rightharpoonup> js_shape) \<Rightarrow> addr \<Rightarrow> addr option \<Rightarrow> addr \<Rightarrow> addr option option" where
  "unlink_loop shs s psh cur =
     (if cur = s then Some psh
      else if cur = 0 then None
      else case shs cur of None \<Rightarrow> None | Some sh \<Rightarrow> unlink_loop shs s (Some cur) (shape_hash_next sh))"

definition js_shape_hash_unlink :: "addr \<Rightarrow> 'v shape_rt \<Rightarrow> 'v shape_rt option" where
  "js_shape_hash_unlink s rt =
     do { sh \<leftarrow> shapes rt s;
          let h = hash_slot (shape_hash_bits rt) (hash sh);
          if h < shape_hash_size rt then
            do { psh \<leftarrow> unlink_loop (shapes rt) s None (shape_hash_table rt ! h);
                 rt \<leftarrow> (case psh of
                   None \<Rightarrow> Some (rt\<lparr>shape_hash_table := (shape_hash_table rt)[h := shape_hash_next sh]\<rparr>)
                 | Some q \<Rightarrow> do { sh1 \<leftarrow> shapes rt q; Some (set_shape q (sh1\<lparr>shape_hash_next := shape_hash_next sh\<rparr>) rt) });
                 Some (rt\<lparr>shape_hash_count := shape_hash_count rt - 1\<rparr>) }
          else None }"

text \<open>The inner loop of \<open>resize_shape_hash\<close> moves the shapes of a chain into the new table.\<close>

partial_function (option) move_chain :: "nat \<Rightarrow> addr \<Rightarrow> (addr \<rightharpoonup> js_shape) \<Rightarrow> addr list \<Rightarrow> ((addr \<rightharpoonup> js_shape) \<times> addr list) option" where
  "move_chain bits x shs new =
     (if x = 0 then Some (shs, new)
      else case shs x of
        None \<Rightarrow> None
      | Some sh \<Rightarrow>
          let h = hash_slot bits (hash sh) in
          if h < length new then move_chain bits (shape_hash_next sh) (shs(x \<mapsto> sh\<lparr>shape_hash_next := new ! h\<rparr>)) (new[h := x])
          else None)"

fun move_chains :: "nat \<Rightarrow> addr list \<Rightarrow> (addr \<rightharpoonup> js_shape) \<Rightarrow> addr list \<Rightarrow> ((addr \<rightharpoonup> js_shape) \<times> addr list) option" where
  "move_chains bits [] shs new = Some (shs, new)"
| "move_chains bits (x # xs) shs new = do { (shs, new) \<leftarrow> move_chain bits x shs new; move_chains bits xs shs new }"

definition resize_shape_hash :: "'v shape_alloc \<Rightarrow> nat \<Rightarrow> 'v shape_rt \<Rightarrow> (int \<times> 'v shape_rt) option" where
  "resize_shape_hash al new_bits rt =
     (let (t, rt) = js_malloc al rt in
      if t = 0 then Some (-1, rt)
      else do { (shs, new) \<leftarrow> move_chains new_bits (shape_hash_table rt) (shapes rt) (replicate (2 ^ new_bits) 0);
                Some (0, rt\<lparr>shapes := shs, shape_hash_bits := new_bits, shape_hash_table := new\<rparr>) })"

text \<open>The search along a chain in \<open>find_hashed_shape_proto\<close> and \<open>find_hashed_shape_prop\<close>; 0 when there is no shape.\<close>

partial_function (option) search_chain :: "(addr \<rightharpoonup> js_shape) \<Rightarrow> (js_shape \<Rightarrow> bool) \<Rightarrow> addr \<Rightarrow> addr option" where
  "search_chain shs P x =
     (if x = 0 then Some 0
      else case shs x of
        None \<Rightarrow> None
      | Some sh \<Rightarrow> if P sh then Some x else search_chain shs P (shape_hash_next sh))"

definition find_hashed_shape_proto :: "addr \<Rightarrow> 'v shape_rt \<Rightarrow> addr option" where
  "find_hashed_shape_proto pr rt =
     (let h = shape_initial_hash pr; h1 = hash_slot (shape_hash_bits rt) h in
      if h1 < shape_hash_size rt then
        search_chain (shapes rt) (\<lambda>sh1. hash sh1 = h \<and> proto sh1 = pr \<and> prop_count sh1 = 0) (shape_hash_table rt ! h1)
      else None)"

text \<open>The loop that compares the entries of two shapes.\<close>

fun same_props :: "prop_entry list \<Rightarrow> prop_entry list \<Rightarrow> bool" where
  "same_props [] prs1 = True"
| "same_props (pr # prs) (pr1 # prs1) = (atom pr1 = atom pr \<and> flags pr1 = flags pr \<and> same_props prs prs1)"
| "same_props (pr # prs) [] = False"

definition prop_hash :: "js_shape \<Rightarrow> JSAtom \<Rightarrow> 6 word \<Rightarrow> 32 word" where
  "prop_hash sh a f = shape_hash (shape_hash (hash sh) a) (ucast f)"

definition shape_matches :: "js_shape \<Rightarrow> JSAtom \<Rightarrow> 6 word \<Rightarrow> js_shape \<Rightarrow> bool" where
  "shape_matches sh a f sh1 =
     (hash sh1 = prop_hash sh a f \<and> proto sh1 = proto sh \<and> prop_count sh1 = prop_count sh + 1 \<and>
      same_props (props sh) (props sh1) \<and> atom (props sh1 ! prop_count sh) = a \<and> flags (props sh1 ! prop_count sh) = f)"

definition find_hashed_shape_prop :: "js_shape \<Rightarrow> JSAtom \<Rightarrow> 6 word \<Rightarrow> 'v shape_rt \<Rightarrow> addr option" where
  "find_hashed_shape_prop sh a f rt =
     (let h1 = hash_slot (shape_hash_bits rt) (prop_hash sh a f) in
      if h1 < shape_hash_size rt then search_chain (shapes rt) (shape_matches sh a f) (shape_hash_table rt ! h1) else None)"

section \<open>Chains\<close>

text \<open>The addresses met from \<open>x\<close> on.\<close>

fun path :: "(addr \<rightharpoonup> addr) \<Rightarrow> addr \<Rightarrow> addr list \<Rightarrow> bool" where
  "path nx x [] = (x = 0)"
| "path nx x (y # ys) = (x = y \<and> x \<noteq> 0 \<and> (\<exists>z. nx x = Some z \<and> path nx z ys))"

lemma path_unique: "path nx x xs \<Longrightarrow> path nx x ys \<Longrightarrow> xs = ys"
proof (induction xs arbitrary: x ys)
  case Nil
  then show ?case by (cases ys) auto
next
  case (Cons y xs)
  then show ?case by (cases ys) auto
qed

lemma path_suffix: "path nx x (xs @ y # ys) \<Longrightarrow> path nx y (y # ys)"
  by (induction xs arbitrary: x) auto

lemma path_distinct: "path nx x xs \<Longrightarrow> distinct xs"
proof (induction xs arbitrary: x)
  case (Cons y ys)
  have "y \<notin> set ys"
  proof
    assume "y \<in> set ys"
    then obtain us vs where s: "ys = us @ y # vs" by (meson split_list)
    then have "path nx y ((y # us) @ y # vs)" using Cons.prems by auto
    then have "path nx y (y # vs)" by (rule path_suffix)
    then have "y # vs = y # ys" using path_unique Cons.prems by fastforce
    then show False using s by simp
  qed
  then show ?case using Cons by auto
qed simp

lemma path_dom: "path nx x xs \<Longrightarrow> y \<in> set xs \<Longrightarrow> y \<noteq> 0 \<and> y \<in> dom nx"
  by (induction xs arbitrary: x) auto

lemma path_cong: "(\<And>y. y \<in> set xs \<Longrightarrow> nx' y = nx y) \<Longrightarrow> path nx' x xs = path nx x xs"
  by (induction xs arbitrary: x) auto

text \<open>Taking an address out of a chain.\<close>

lemma path_remove:
  assumes "path nx x (xs @ y # ys)" "nx y = Some z"
  shows "if xs = [] then path nx z ys else path (nx(last xs \<mapsto> z)) x (xs @ ys)"
  using assms
proof (induction xs arbitrary: x)
  case (Cons w xs)
  have d: "distinct (w # xs @ y # ys)" using path_distinct [OF Cons.prems(1)] by simp
  obtain v where w: "x = w" "w \<noteq> 0" "nx w = Some v" "path nx v (xs @ y # ys)" using Cons.prems(1) by auto
  show ?case
  proof (cases "xs = []")
    case True
    then have "path nx z ys" using Cons.IH [OF w(4) assms(2)] by simp
    then have "path (nx(w \<mapsto> z)) z ys" using d by (subst path_cong) auto
    then show ?thesis using True w by simp
  next
    case False
    then have "path (nx(last xs \<mapsto> z)) v (xs @ ys)" "last xs \<noteq> w" using Cons.IH [OF w(4) assms(2)] d by auto
    then show ?thesis using False w by auto
  qed
qed auto

definition nexts :: "(addr \<rightharpoonup> js_shape) \<Rightarrow> addr \<rightharpoonup> addr" where
  "nexts shs s = map_option shape_hash_next (shs s)"

definition hashes :: "(addr \<rightharpoonup> js_shape) \<Rightarrow> addr \<rightharpoonup> 32 word" where
  "hashes shs s = map_option hash (shs s)"

lemma nexts_Some: "nexts shs s = Some z \<longleftrightarrow> (\<exists>sh. shs s = Some sh \<and> shape_hash_next sh = z)"
  by (auto simp: nexts_def)

lemma path_nexts: "path (nexts shs) x (y # ys) \<longleftrightarrow> x = y \<and> y \<noteq> 0 \<and> (\<exists>sh. shs y = Some sh \<and> path (nexts shs) (shape_hash_next sh) ys)"
  by (auto simp: nexts_Some)

lemma search_path:
  "path (nexts shs) x xs \<Longrightarrow>
    search_chain shs P x = Some (case List.find (\<lambda>s. P (the (shs s))) xs of None \<Rightarrow> 0 | Some s \<Rightarrow> s)"
proof (induction xs arbitrary: x)
  case Nil
  then show ?case by (subst search_chain.simps) simp
next
  case (Cons y xs)
  then obtain sh where "x = y" "y \<noteq> 0" "shs y = Some sh" "path (nexts shs) (shape_hash_next sh) xs" unfolding path_nexts by blast
  then show ?case using Cons.IH by (subst search_chain.simps) simp
qed

lemma unlink_path:
  "path (nexts shs) x (xs @ s # ys) \<Longrightarrow> unlink_loop shs s psh x = Some (if xs = [] then psh else Some (last xs))"
proof (induction xs arbitrary: x psh)
  case Nil
  then show ?case by (subst unlink_loop.simps) simp
next
  case (Cons y xs)
  then have d: "y \<noteq> s" using path_distinct [OF Cons.prems(1)] by auto
  obtain sh where "x = y" "y \<noteq> 0" "shs y = Some sh" "path (nexts shs) (shape_hash_next sh) (xs @ s # ys)"
    using Cons.prems unfolding append_Cons path_nexts by blast
  then show ?case using Cons.IH [of "shape_hash_next sh" "Some y"] d by (subst unlink_loop.simps) simp
qed


section \<open>The table as a set of shapes\<close>

text \<open>Every chain has exactly the shapes of \<open>X\<close> whose hash value leads to it.\<close>

definition hash_ok :: "addr set \<Rightarrow> (addr \<rightharpoonup> js_shape) \<Rightarrow> addr list \<Rightarrow> nat \<Rightarrow> bool" where
  "hash_ok X shs ht bits =
     (0 < bits \<and> bits \<le> 30 \<and> length ht = 2 ^ bits \<and> X \<subseteq> dom shs \<and>
      (\<forall>b<2 ^ bits. \<exists>xs. path (nexts shs) (ht ! b) xs \<and> set xs = {s \<in> X. hash_slot bits (hash (the (shs s))) = b}))"

definition hash_table_ok :: "addr set \<Rightarrow> 'v shape_rt \<Rightarrow> bool" where
  "hash_table_ok X rt =
     (hash_ok X (shapes rt) (shape_hash_table rt) (shape_hash_bits rt) \<and> finite X \<and> shape_hash_count rt = card X)"

lemma hash_slot_less: "0 < bits \<Longrightarrow> bits \<le> 30 \<Longrightarrow> hash_slot bits h < 2 ^ bits"
proof -
  assume b: "0 < bits" "bits \<le> 30"
  have "unat h < 2 ^ 32" using unsigned_less [of h] by simp
  moreover have "(2::nat) ^ 32 = 2 ^ bits * 2 ^ (32 - bits)" using b by (simp flip: power_add)
  ultimately have "unat h div 2 ^ (32 - bits) < 2 ^ bits" by (simp add: less_mult_imp_div_less)
  then show "hash_slot bits h < 2 ^ bits" by (simp add: get_shape_hash_def unat_drop_bit_eq flip: drop_bit_eq_div)
qed

lemma hash_ok_bucket:
  "hash_ok X shs ht bits \<Longrightarrow> b < 2 ^ bits \<Longrightarrow> \<exists>xs. path (nexts shs) (ht ! b) xs \<and> set xs = {s \<in> X. hash_slot bits (hash (the (shs s))) = b}"
  unfolding hash_ok_def by blast

lemma hash_okD:
  assumes "hash_ok X shs ht bits"
  obtains xs where "hash_slot bits h < length ht" "path (nexts shs) (ht ! hash_slot bits h) xs"
    "set xs = {s \<in> X. hash_slot bits (hash (the (shs s))) = hash_slot bits h}"
proof -
  have l: "hash_slot bits h < 2 ^ bits" using assms hash_slot_less [of bits h] by (simp add: hash_ok_def)
  moreover have "length ht = 2 ^ bits" using assms by (simp add: hash_ok_def)
  ultimately show ?thesis using hash_ok_bucket [OF assms l] that by auto
qed

lemma hash_ok_bits: "hash_ok X shs ht bits \<Longrightarrow> 0 < bits \<and> bits \<le> 30 \<and> length ht = 2 ^ bits \<and> X \<subseteq> dom shs"
  by (simp add: hash_ok_def)

lemma hash_ok_nonzero:
  assumes "hash_ok X shs ht bits" "s \<in> X"
  shows "s \<noteq> 0"
proof -
  obtain xs where "path (nexts shs) (ht ! hash_slot bits (hash (the (shs s)))) xs"
    "set xs = {t \<in> X. hash_slot bits (hash (the (shs t))) = hash_slot bits (hash (the (shs s)))}" by (rule hash_okD [OF assms(1)])
  then show ?thesis using assms(2) path_dom [of _ _ xs s] by blast
qed

lemma hash_ok_cong:
  assumes "hash_ok X shs ht bits" "\<And>s. s \<in> X \<Longrightarrow> \<exists>sh sh'. shs s = Some sh \<and> shs' s = Some sh' \<and> shape_hash_next sh' = shape_hash_next sh \<and> hash sh' = hash sh"
  shows "hash_ok X shs' ht bits"
proof -
  have "\<exists>xs. path (nexts shs') (ht ! b) xs \<and> set xs = {s \<in> X. hash_slot bits (hash (the (shs' s))) = b}" if b: "b < 2 ^ bits" for b
  proof -
    obtain xs where xs: "path (nexts shs) (ht ! b) xs" "set xs = {s \<in> X. hash_slot bits (hash (the (shs s))) = b}"
      using hash_ok_bucket [OF assms(1) b] by blast
    have "path (nexts shs') (ht ! b) xs = path (nexts shs) (ht ! b) xs"
      using xs(2) assms(2) by (intro path_cong) (fastforce simp: nexts_def)
    moreover have "set xs = {s \<in> X. hash_slot bits (hash (the (shs' s))) = b}" using xs(2) assms(2) by fastforce
    ultimately show ?thesis using xs(1) by blast
  qed
  moreover have "X \<subseteq> dom shs'" using assms(2) by blast
  ultimately show ?thesis using assms(1) by (simp add: hash_ok_def)
qed

lemma hash_ok_insert:
  assumes ok: "hash_ok X shs ht bits" and s: "s \<notin> X" "s \<noteq> 0" "shs s = Some sh"
  defines "b \<equiv> hash_slot bits (hash sh)"
  shows "hash_ok (insert s X) (shs(s \<mapsto> sh\<lparr>shape_hash_next := ht ! b\<rparr>)) (ht[b := s]) bits"
proof -
  let ?shs = "shs(s \<mapsto> sh\<lparr>shape_hash_next := ht ! b\<rparr>)"
  have b: "b < length ht" using hash_okD [OF ok] unfolding b_def by blast
  have "\<exists>xs. path (nexts ?shs) (ht[b := s] ! c) xs \<and> set xs = {t \<in> insert s X. hash_slot bits (hash (the (?shs t))) = c}" if c: "c < 2 ^ bits" for c
  proof -
    obtain xs where xs: "path (nexts shs) (ht ! c) xs" "set xs = {s \<in> X. hash_slot bits (hash (the (shs s))) = c}"
      using hash_ok_bucket [OF ok c] by blast
    have "path (nexts ?shs) (ht ! c) xs" using xs s(1) by (subst path_cong [of _ _ "nexts shs"]) (auto simp: nexts_def)
    moreover have "{t \<in> insert s X. hash_slot bits (hash (the (?shs t))) = c} = (if c = b then insert s (set xs) else set xs)"
      using xs(2) s by (auto simp: b_def)
    moreover have "path (nexts ?shs) s (s # xs)" if "c = b" using calculation(1) that s(2) by (simp add: nexts_def)
    moreover have "ht[b := s] ! c = (if c = b then s else ht ! c)" using b by simp
    ultimately have "path (nexts ?shs) (ht[b := s] ! c) (if c = b then s # xs else xs) \<and>
        set (if c = b then s # xs else xs) = {t \<in> insert s X. hash_slot bits (hash (the (?shs t))) = c}" by simp
    then show ?thesis by blast
  qed
  moreover have "insert s X \<subseteq> dom ?shs" using ok by (auto simp: hash_ok_def)
  ultimately show ?thesis using ok by (simp add: hash_ok_def)
qed

lemma link_ok:
  assumes ok: "hash_table_ok X rt" and s: "s \<notin> X" "s \<noteq> 0" "shapes rt s = Some sh"
  obtains x ht where "js_shape_hash_link s rt = Some (rt\<lparr>shapes := (shapes rt)(s \<mapsto> sh\<lparr>shape_hash_next := x\<rparr>), shape_hash_table := ht, shape_hash_count := shape_hash_count rt + 1\<rparr>)"
    "hash_table_ok (insert s X) (rt\<lparr>shapes := (shapes rt)(s \<mapsto> sh\<lparr>shape_hash_next := x\<rparr>), shape_hash_table := ht, shape_hash_count := shape_hash_count rt + 1\<rparr>)"
proof -
  have h: "hash_ok X (shapes rt) (shape_hash_table rt) (shape_hash_bits rt)" using ok by (simp add: hash_table_ok_def)
  then have "hash_slot (shape_hash_bits rt) (hash sh) < shape_hash_size rt" using hash_okD by blast
  then have "js_shape_hash_link s rt = Some (rt\<lparr>shapes := (shapes rt)(s \<mapsto> sh\<lparr>shape_hash_next := shape_hash_table rt ! hash_slot (shape_hash_bits rt) (hash sh)\<rparr>),
      shape_hash_table := (shape_hash_table rt)[hash_slot (shape_hash_bits rt) (hash sh) := s], shape_hash_count := shape_hash_count rt + 1\<rparr>)"
    using s(3) by (simp add: js_shape_hash_link_def set_shape_def Let_def)
  then show ?thesis using ok s(1) hash_ok_insert [OF h s] by (intro that) (simp_all add: hash_table_ok_def)
qed


lemma shape_unlink_ok:
  assumes ok: "hash_table_ok X rt" and s: "s \<in> X" "shapes rt s = Some sh"
  obtains shs ht where "js_shape_hash_unlink s rt = Some (rt\<lparr>shapes := shs, shape_hash_table := ht, shape_hash_count := shape_hash_count rt - 1\<rparr>)"
    "hash_table_ok (X - {s}) (rt\<lparr>shapes := shs, shape_hash_table := ht, shape_hash_count := shape_hash_count rt - 1\<rparr>)"
    "shs = shapes rt \<or> (\<exists>q sh1 x. q \<in> X \<and> q \<noteq> s \<and> shapes rt q = Some sh1 \<and> shs = (shapes rt)(q \<mapsto> sh1\<lparr>shape_hash_next := x\<rparr>))"
proof -
  let ?bits = "shape_hash_bits rt" and ?ht = "shape_hash_table rt"
  let ?b = "hash_slot ?bits (hash sh)"
  have h: "hash_ok X (shapes rt) ?ht ?bits" using ok by (simp add: hash_table_ok_def)
  obtain zs where b: "?b < length ?ht" and zs: "path (nexts (shapes rt)) (?ht ! ?b) zs"
    "set zs = {t \<in> X. hash_slot ?bits (hash (the (shapes rt t))) = ?b}" by (rule hash_okD [OF h])
  have "s \<in> set zs" using zs(2) s by simp
  then obtain xs ys where z: "zs = xs @ s # ys" by (meson split_list)
  have d: "distinct zs" using path_distinct [OF zs(1)] .
  define shs where "shs = (if xs = [] then shapes rt else (shapes rt)(last xs \<mapsto> (the (shapes rt (last xs)))\<lparr>shape_hash_next := shape_hash_next sh\<rparr>))"
  define ht where "ht = (if xs = [] then ?ht[?b := shape_hash_next sh] else ?ht)"
  have l: "last xs \<in> X" "last xs \<noteq> s" "last xs \<in> set zs" "\<exists>sh1. shapes rt (last xs) = Some sh1" if "xs \<noteq> []"
  proof -
    show l: "last xs \<in> set zs" using that z by simp
    then show x: "last xs \<in> X" using zs(2) by blast
    show "last xs \<noteq> s" using d z that last_in_set by fastforce
    show "\<exists>sh1. shapes rt (last xs) = Some sh1" using x hash_ok_bits [OF h] by blast
  qed
  have "unlink_loop (shapes rt) s None (?ht ! ?b) = Some (if xs = [] then None else Some (last xs))"
    using unlink_path zs(1) z by blast
  then have un: "js_shape_hash_unlink s rt = Some (rt\<lparr>shapes := shs, shape_hash_table := ht, shape_hash_count := shape_hash_count rt - 1\<rparr>)"
    using s(2) b l(4) by (auto simp: js_shape_hash_unlink_def shs_def ht_def set_shape_def Let_def)
  have hs: "hash (the (shs t)) = hash (the (shapes rt t))" for t by (auto simp: shs_def)
  have "\<exists>ws. path (nexts shs) (ht ! c) ws \<and> set ws = {t \<in> X - {s}. hash_slot ?bits (hash (the (shs t))) = c}" if c: "c < 2 ^ ?bits" for c
  proof (cases "c = ?b")
    case True
    have nx: "nexts (shapes rt) s = Some (shape_hash_next sh)" using s(2) by (simp add: nexts_def)
    have "nexts shs = (if xs = [] then nexts (shapes rt) else (nexts (shapes rt))(last xs \<mapsto> shape_hash_next sh))"
      by (auto simp: shs_def nexts_def fun_eq_iff)
    then have "path (nexts shs) (ht ! ?b) (xs @ ys)" using path_remove [OF zs(1) [unfolded z] nx] b by (auto simp: ht_def split: if_splits)
    moreover have "set (xs @ ys) = {t \<in> X - {s}. hash_slot ?bits (hash (the (shs t))) = ?b}"
      using zs(2) d unfolding z hs by auto
    ultimately show ?thesis using True by blast
  next
    case False
    obtain ws where ws: "path (nexts (shapes rt)) (?ht ! c) ws" "set ws = {t \<in> X. hash_slot ?bits (hash (the (shapes rt t))) = c}"
      using hash_ok_bucket [OF h c] by blast
    have "nexts shs t = nexts (shapes rt) t" if "t \<in> set ws" for t
    proof (cases "xs = []")
      case False
      then have "t \<noteq> last xs" using that ws(2) l(3) zs(2) \<open>c \<noteq> ?b\<close> by auto
      then show ?thesis using False by (simp add: shs_def nexts_def)
    qed (simp add: shs_def)
    then have "path (nexts shs) (?ht ! c) ws = path (nexts (shapes rt)) (?ht ! c) ws" by (rule path_cong)
    moreover have "ht ! c = ?ht ! c" using False by (simp add: ht_def)
    moreover have "set ws = {t \<in> X - {s}. hash_slot ?bits (hash (the (shs t))) = c}" using ws(2) s(2) False unfolding hs by auto
    ultimately show ?thesis using ws(1) by auto
  qed
  moreover have "X - {s} \<subseteq> dom shs" using hash_ok_bits [OF h] by (auto simp: shs_def)
  moreover have "length ht = length ?ht" by (simp add: ht_def)
  ultimately have "hash_ok (X - {s}) shs ht ?bits" using hash_ok_bits [OF h] by (simp add: hash_ok_def)
  then have "hash_table_ok (X - {s}) (rt\<lparr>shapes := shs, shape_hash_table := ht, shape_hash_count := shape_hash_count rt - 1\<rparr>)"
    using ok s(1) by (simp add: hash_table_ok_def)
  moreover have "shs = shapes rt \<or> (\<exists>q sh1 x. q \<in> X \<and> q \<noteq> s \<and> shapes rt q = Some sh1 \<and> shs = (shapes rt)(q \<mapsto> sh1\<lparr>shape_hash_next := x\<rparr>))"
    using l unfolding shs_def by (metis option.sel)
  ultimately show ?thesis using un that by blast
qed

text \<open>A search finds a shape with the property, if there is one that the hash value leads to.\<close>

lemma search_ok:
  assumes ok: "hash_table_ok X rt" and P: "\<And>sh. P sh \<Longrightarrow> hash sh = h"
  obtains s where "hash_slot (shape_hash_bits rt) h < shape_hash_size rt"
    "search_chain (shapes rt) P (shape_hash_table rt ! hash_slot (shape_hash_bits rt) h) = Some s"
    "s \<noteq> 0 \<Longrightarrow> s \<in> X \<and> P (the (shapes rt s))" "s = 0 \<Longrightarrow> \<forall>t\<in>X. \<not> P (the (shapes rt t))"
proof -
  let ?b = "hash_slot (shape_hash_bits rt) h"
  have h: "hash_ok X (shapes rt) (shape_hash_table rt) (shape_hash_bits rt)" using ok by (simp add: hash_table_ok_def)
  obtain xs where xs: "?b < shape_hash_size rt" "path (nexts (shapes rt)) (shape_hash_table rt ! ?b) xs"
    "set xs = {t \<in> X. hash_slot (shape_hash_bits rt) (hash (the (shapes rt t))) = ?b}" by (rule hash_okD [OF h])
  define r where "r = List.find (\<lambda>s. P (the (shapes rt s))) xs"
  have "search_chain (shapes rt) P (shape_hash_table rt ! ?b) = Some (case r of None \<Rightarrow> 0 | Some s \<Rightarrow> s)"
    unfolding r_def by (rule search_path [OF xs(2)])
  moreover have "s \<in> X \<and> s \<noteq> 0 \<and> P (the (shapes rt s))" if "r = Some s" for s
  proof -
    have "s \<in> set xs" "P (the (shapes rt s))" using that by (auto simp: r_def find_Some_iff)
    then show ?thesis using xs(3) path_dom [OF xs(2)] by blast
  qed
  moreover have "\<forall>t\<in>X. \<not> P (the (shapes rt t))" if "r = None"
    using that xs(3) P by (fastforce simp: r_def find_None_iff)
  ultimately show ?thesis using xs(1) by (cases r) (auto intro: that)
qed

section \<open>Doubling the table\<close>

text \<open>The shapes without their links.\<close>

definition strip_links :: "(addr \<rightharpoonup> js_shape) \<Rightarrow> addr \<rightharpoonup> js_shape" where
  "strip_links shs s = map_option (\<lambda>sh. sh\<lparr>shape_hash_next := 0\<rparr>) (shs s)"

lemma strip_upd: "strip_links (shs(s \<mapsto> sh)) = (strip_links shs)(s \<mapsto> sh\<lparr>shape_hash_next := 0\<rparr>)"
  by (auto simp: strip_links_def)

lemma strip_link: "shs s = Some sh \<Longrightarrow> strip_links (shs(s \<mapsto> sh\<lparr>shape_hash_next := x\<rparr>)) = strip_links shs"
  by (auto simp: strip_links_def)

lemma dom_strip: "dom (strip_links shs) = dom shs"
  by (auto simp: strip_links_def)

lemma strip_dom: "strip_links shs' = strip_links shs \<Longrightarrow> dom shs' = dom shs"
  by (metis dom_strip)

lemma strip_Some:
  assumes "strip_links shs' = strip_links shs" "shs s = Some sh"
  obtains x where "shs' s = Some (sh\<lparr>shape_hash_next := x\<rparr>)"
proof -
  have "map_option (\<lambda>sh. sh\<lparr>shape_hash_next := 0\<rparr>) (shs' s) = Some (sh\<lparr>shape_hash_next := 0\<rparr>)"
    using fun_cong [OF assms(1), of s] assms(2) by (simp add: strip_links_def)
  then obtain sh' where "shs' s = Some sh'" "sh'\<lparr>shape_hash_next := 0\<rparr> = sh\<lparr>shape_hash_next := 0\<rparr>" by auto
  then have "shs' s = Some (sh\<lparr>shape_hash_next := shape_hash_next sh'\<rparr>)" by (cases sh, cases sh') simp
  then show ?thesis by (rule that)
qed

lemma move_chain_ok:
  "hash_ok Y shs new bits \<Longrightarrow> path (nexts shs) x xs \<Longrightarrow> set xs \<inter> Y = {} \<Longrightarrow>
    \<exists>shs' new'. move_chain bits x shs new = Some (shs', new') \<and> hash_ok (Y \<union> set xs) shs' new' bits \<and> strip_links shs' = strip_links shs \<and>
      (\<forall>t. t \<notin> set xs \<longrightarrow> shs' t = shs t)"
proof (induction xs arbitrary: x shs new Y)
  case Nil
  then show ?case by (subst move_chain.simps) simp
next
  case (Cons y xs)
  from Cons.prems(2) obtain sh where sh: "x = y" "y \<noteq> 0" "shs y = Some sh" "path (nexts shs) (shape_hash_next sh) xs" unfolding path_nexts by blast
  let ?h = "hash_slot bits (hash sh)"
  let ?shs = "shs(y \<mapsto> sh\<lparr>shape_hash_next := new ! ?h\<rparr>)"
  have h: "?h < length new" by (rule hash_okD [OF Cons.prems(1)])
  have y: "y \<notin> Y" using Cons.prems(3) by simp
  have ny: "y \<notin> set xs" using path_distinct [OF Cons.prems(2)] by simp
  have "path (nexts ?shs) (shape_hash_next sh) xs" using sh(4) ny by (subst path_cong [of _ _ "nexts shs"]) (auto simp: nexts_def)
  moreover have "set xs \<inter> insert y Y = {}" using Cons.prems(3) ny by auto
  ultimately obtain shs' new' where r: "move_chain bits (shape_hash_next sh) ?shs (new[?h := y]) = Some (shs', new')"
    "hash_ok (insert y Y \<union> set xs) shs' new' bits" "strip_links shs' = strip_links ?shs" "\<forall>t. t \<notin> set xs \<longrightarrow> shs' t = ?shs t"
    using Cons.IH [OF hash_ok_insert [OF Cons.prems(1) y sh(2,3)]] by blast
  have "move_chain bits x shs new = Some (shs', new')" using r(1) sh h by (subst move_chain.simps) (simp add: Let_def)
  moreover have "strip_links shs' = strip_links shs" using r(3) strip_link [of shs y sh] sh(3) by simp
  moreover have "hash_ok (Y \<union> set (y # xs)) shs' new' bits" using r(2) by simp
  ultimately show ?case using r(4) by auto
qed

lemma move_chains_ok:
  "hash_ok Y shs new bits \<Longrightarrow> length xss = length hs \<Longrightarrow> (\<And>i. i < length hs \<Longrightarrow> path (nexts shs) (hs ! i) (xss ! i)) \<Longrightarrow>
    distinct (concat xss) \<Longrightarrow> set (concat xss) \<inter> Y = {} \<Longrightarrow>
    \<exists>shs' new'. move_chains bits hs shs new = Some (shs', new') \<and> hash_ok (Y \<union> set (concat xss)) shs' new' bits \<and> strip_links shs' = strip_links shs"
proof (induction hs arbitrary: xss shs new Y)
  case (Cons h hs)
  then obtain xs yss where xss: "xss = xs # yss" by (cases xss) auto
  have p: "path (nexts shs) h xs" using Cons.prems(3) [of 0] xss by simp
  have "set xs \<inter> Y = {}" using Cons.prems(5) xss by auto
  from move_chain_ok [OF Cons.prems(1) p this] obtain shs1 new1 where r: "move_chain bits h shs new = Some (shs1, new1)"
    "hash_ok (Y \<union> set xs) shs1 new1 bits" "strip_links shs1 = strip_links shs" "\<forall>t. t \<notin> set xs \<longrightarrow> shs1 t = shs t" by blast
  have "path (nexts shs1) (hs ! i) (yss ! i)" if i: "i < length hs" for i
  proof -
    have "path (nexts shs) (hs ! i) (yss ! i)" using Cons.prems(3) [of "Suc i"] i xss by simp
    moreover have "set (yss ! i) \<subseteq> set (concat yss)" 
      using nth_mem [of i yss] i Cons.prems(2) xss by (metis UN_upper length_Cons nat.inject set_concat)
    then have "nexts shs1 t = nexts shs t" if "t \<in> set (yss ! i)" for t
      using r(4) Cons.prems(4) that xss by (fastforce simp: nexts_def)
    ultimately show ?thesis using path_cong by blast
  qed
  moreover have "set (concat yss) \<inter> (Y \<union> set xs) = {}" using Cons.prems(4,5) xss by auto
  ultimately obtain shs' new' where "move_chains bits hs shs1 new1 = Some (shs', new')"
    "hash_ok (Y \<union> set xs \<union> set (concat yss)) shs' new' bits" "strip_links shs' = strip_links shs1"
    using Cons.IH [OF r(2), of yss] Cons.prems(2,4) xss by auto
  then show ?case using r(1,3) xss by (simp add: Un_assoc)
qed simp

lemma hash_ok_empty: "0 < bits \<Longrightarrow> bits \<le> 30 \<Longrightarrow> hash_ok {} shs (replicate (2 ^ bits) 0) bits"
  by (auto simp: hash_ok_def intro: exI [of _ "[]"])

lemma init_ok: "init_shape_hash al rt = (0, rt') \<Longrightarrow> hash_table_ok {} rt'"
  using hash_ok_empty [of 4 "shapes rt"] by (auto simp: init_shape_hash_def js_malloc_def hash_table_ok_def Let_def split: if_splits)

text \<open>The chains of a table together have the shapes of the table.\<close>

lemma hash_ok_chains:
  assumes "hash_ok X shs ht bits"
  obtains xss where "length xss = length ht" "\<And>i. i < length ht \<Longrightarrow> path (nexts shs) (ht ! i) (xss ! i)"
    "distinct (concat xss)" "set (concat xss) = X"
proof -
  have l: "length ht = 2 ^ bits" and b: "0 < bits" "bits \<le> 30" using hash_ok_bits [OF assms] by auto
  have "\<forall>i. \<exists>xs. i < length ht \<longrightarrow> path (nexts shs) (ht ! i) xs \<and> set xs = {s \<in> X. hash_slot bits (hash (the (shs s))) = i}"
    using hash_ok_bucket [OF assms] unfolding l by blast
  from choice [OF this] obtain f where f: "\<And>i. i < length ht \<Longrightarrow> path (nexts shs) (ht ! i) (f i) \<and> set (f i) = {s \<in> X. hash_slot bits (hash (the (shs s))) = i}" by blast
  have "distinct (concat (map f [0..<n]))" if "n \<le> length ht" for n using that
  proof (induction n)
    case (Suc n)
    have "set (concat (map f [0..<n])) \<inter> set (f n) = {}" using Suc.prems f by fastforce
    moreover have "distinct (f n)" using Suc.prems f path_distinct [of "nexts shs" "ht ! n" "f n"] by simp
    ultimately show ?case using Suc by simp
  qed simp
  moreover have "set (concat (map f [0..<length ht])) = X"
  proof
    show "set (concat (map f [0..<length ht])) \<subseteq> X" using f by auto
    show "X \<subseteq> set (concat (map f [0..<length ht]))"
    proof
      fix s assume "s \<in> X"
      moreover have "hash_slot bits (hash (the (shs s))) < length ht" using hash_slot_less b l by simp
      ultimately show "s \<in> set (concat (map f [0..<length ht]))" using f by auto
    qed
  qed
  ultimately show ?thesis using f by (intro that [of "map f [0..<length ht]"]) auto
qed

lemma resize_shape_hash_ok:
  assumes ok: "hash_table_ok X rt" and bits: "0 < bits" "bits \<le> 30"
  obtains r rt' where "resize_shape_hash al bits rt = Some (r, rt')" "hash_table_ok X rt'" "strip_links (shapes rt') = strip_links (shapes rt)"
    "rt' = rt\<lparr>shapes := shapes rt', shape_hash_bits := shape_hash_bits rt', shape_hash_table := shape_hash_table rt', alloc_log := al rt # alloc_log rt\<rparr>"
proof (cases "al rt = 0")
  case True
  then have "resize_shape_hash al bits rt = Some (-1, rt\<lparr>alloc_log := al rt # alloc_log rt\<rparr>)" by (simp add: resize_shape_hash_def js_malloc_def)
  then show ?thesis by (rule that) (use ok in \<open>simp_all add: hash_table_ok_def\<close>)
next
  case False
  have h: "hash_ok X (shapes rt) (shape_hash_table rt) (shape_hash_bits rt)" using ok by (simp add: hash_table_ok_def)
  obtain xss where xss: "length xss = shape_hash_size rt" "\<And>i. i < shape_hash_size rt \<Longrightarrow> path (nexts (shapes rt)) (shape_hash_table rt ! i) (xss ! i)"
    "distinct (concat xss)" "set (concat xss) = X" using hash_ok_chains [OF h] by blast
  obtain shs new where r: "move_chains bits (shape_hash_table rt) (shapes rt) (replicate (2 ^ bits) 0) = Some (shs, new)"
    "hash_ok X shs new bits" "strip_links shs = strip_links (shapes rt)"
    using move_chains_ok [OF hash_ok_empty [OF bits] xss(1,2,3)] xss(4) by auto
  show ?thesis
  proof (rule that)
    show "resize_shape_hash al bits rt = Some (0, rt\<lparr>shapes := shs, shape_hash_bits := bits, shape_hash_table := new, alloc_log := al rt # alloc_log rt\<rparr>)"
      using False r(1) by (simp add: resize_shape_hash_def js_malloc_def)
  qed (use r ok in \<open>simp_all add: hash_table_ok_def\<close>)
qed

end
