(* ===== verification/ShapeOps.thy ===== *)
theory ShapeOps
  imports ShapeHash
begin

text \<open>
  The operations of \<open>quickjs.c\<close> on shapes and on the properties of ordinary objects: making, cloning, counting and freeing shapes;
  growing and compacting the property arrays; adding a property, deleting one, changing its flags, setting the prototype,
  creating and freeing an object. A shape may be shared by many objects, so each operation first decides whether it may
  change the shape in place, can find another one that fits, or has to make a copy.

  A pointer to a property is the index in the arrays. \<open>None\<close> is, as in \<open>ShapeHash\<close>, undefined behaviour or a failed assertion.
\<close>

section \<open>Atoms and objects\<close>

definition JS_ATOM_END :: int where "JS_ATOM_END = 243"
definition JS_PROP_CONFIGURABLE :: "6 word" where "JS_PROP_CONFIGURABLE = 1"

definition JS_AtomIsConst :: "JSAtom \<Rightarrow> bool" where
  "JS_AtomIsConst v = (sint v < JS_ATOM_END)"

definition JS_AtomIsTaggedInt :: "JSAtom \<Rightarrow> bool" where
  "JS_AtomIsTaggedInt v = (v AND 0x80000000 \<noteq> 0)"

definition JS_DupAtom :: "JSAtom \<Rightarrow> 'v shape_rt \<Rightarrow> 'v shape_rt" where
  "JS_DupAtom v rt = (if \<not> JS_AtomIsConst v then rt\<lparr>atom_rc := (atom_rc rt)(v := atom_rc rt v + 1)\<rparr> else rt)"

definition JS_FreeAtom :: "JSAtom \<Rightarrow> 'v shape_rt \<Rightarrow> 'v shape_rt" where
  "JS_FreeAtom v rt = (if \<not> JS_AtomIsConst v then rt\<lparr>atom_rc := (atom_rc rt)(v := atom_rc rt v - 1)\<rparr> else rt)"

text \<open>\<open>JS_DupValue\<close> and \<open>JS_FreeValueRT\<close> of an object.\<close>

definition dup_object :: "addr \<Rightarrow> 'v shape_rt \<Rightarrow> 'v shape_rt" where
  "dup_object p rt = rt\<lparr>obj_rc := (obj_rc rt)(p := obj_rc rt p + 1)\<rparr>"

definition free_object_ref :: "addr \<Rightarrow> 'v shape_rt \<Rightarrow> 'v shape_rt" where
  "free_object_ref p rt =
     (let n = obj_rc rt p - 1; rt = rt\<lparr>obj_rc := (obj_rc rt)(p := n)\<rparr> in
      if n \<le> 0 then rt\<lparr>zero_refs := p # zero_refs rt\<rparr> else rt)"

definition free_property_rt :: "'v option \<Rightarrow> 'v shape_rt \<Rightarrow> 'v shape_rt" where
  "free_property_rt v rt = (case v of None \<Rightarrow> rt | Some x \<Rightarrow> rt\<lparr>released := x # released rt\<rparr>)"

section \<open>Shapes\<close>

text \<open>\<open>hash\<close> and \<open>shape_hash_next\<close> are not initialized by the function; they are only read when the shape is hashed.\<close>

definition js_new_shape_nohash :: "'v shape_alloc \<Rightarrow> addr \<Rightarrow> nat \<Rightarrow> nat \<Rightarrow> 'v shape_rt \<Rightarrow> addr \<times> 'v shape_rt" where
  "js_new_shape_nohash al pr hash_size psize rt =
     (let (s, rt) = js_malloc al rt in
      if s = 0 then (0, rt)
      else let rt = (if pr \<noteq> 0 then dup_object pr rt else rt) in
        (s, set_shape s \<lparr>prop_hash_mask = of_nat hash_size - 1, prop_size = psize, deleted_prop_count = 0,
          hash_table = replicate hash_size 0, props = [], ref_count = 1, is_hashed = False, hash = 0, shape_hash_next = 0, proto = pr\<rparr> rt))"

definition js_new_shape2 :: "'v shape_alloc \<Rightarrow> addr \<Rightarrow> nat \<Rightarrow> nat \<Rightarrow> 'v shape_rt \<Rightarrow> (addr \<times> 'v shape_rt) option" where
  "js_new_shape2 al pr hash_size psize rt =
     do { (_, rt) \<leftarrow> (if 2 * (shape_hash_count rt + 1) > shape_hash_size rt then resize_shape_hash al (shape_hash_bits rt + 1) rt else Some (0, rt));
          let (s, rt) = js_new_shape_nohash al pr hash_size psize rt;
          if s = 0 then Some (0, rt)
          else do { sh \<leftarrow> shapes rt s;
                    rt \<leftarrow> js_shape_hash_link s (set_shape s (sh\<lparr>hash := shape_initial_hash pr, is_hashed := True\<rparr>) rt);
                    Some (s, rt) } }"

definition js_new_shape :: "'v shape_alloc \<Rightarrow> addr \<Rightarrow> 'v shape_rt \<Rightarrow> (addr \<times> 'v shape_rt) option" where
  "js_new_shape al pr rt = js_new_shape2 al pr JS_PROP_INITIAL_HASH_SIZE JS_PROP_INITIAL_SIZE rt"

definition js_clone_shape :: "'v shape_alloc \<Rightarrow> addr \<Rightarrow> 'v shape_rt \<Rightarrow> (addr \<times> 'v shape_rt) option" where
  "js_clone_shape al s1 rt =
     do { sh1 \<leftarrow> shapes rt s1;
          let (s, rt) = js_malloc al rt;
          if s = 0 then Some (0, rt)
          else let sh = sh1\<lparr>ref_count := 1, is_hashed := False\<rparr>;
                   rt = set_shape s sh rt;
                   rt = (if proto sh \<noteq> 0 then dup_object (proto sh) rt else rt);
                   rt = fold (\<lambda>pr. JS_DupAtom (atom pr)) (props sh) rt in
               Some (s, rt) }"

definition js_dup_shape :: "addr \<Rightarrow> 'v shape_rt \<Rightarrow> 'v shape_rt option" where
  "js_dup_shape s rt = do { sh \<leftarrow> shapes rt s; Some (set_shape s (sh\<lparr>ref_count := ref_count sh + 1\<rparr>) rt) }"

definition js_free_shape0_rt :: "addr \<Rightarrow> 'v shape_rt \<Rightarrow> 'v shape_rt option" where
  "js_free_shape0_rt s rt =
     do { sh \<leftarrow> shapes rt s;
          if ref_count sh \<noteq> 0 then None
          else do { rt \<leftarrow> (if is_hashed sh then js_shape_hash_unlink s rt else Some rt);
                    let rt = (if proto sh \<noteq> 0 then free_object_ref (proto sh) rt else rt);
                    let rt = fold (\<lambda>pr. JS_FreeAtom (atom pr)) (props sh) rt;
                    Some (rt\<lparr>shapes := (shapes rt)(s := None)\<rparr>) } }"

definition js_free_shape_rt :: "addr \<Rightarrow> 'v shape_rt \<Rightarrow> 'v shape_rt option" where
  "js_free_shape_rt s rt =
     do { sh \<leftarrow> shapes rt s;
          let rt = set_shape s (sh\<lparr>ref_count := ref_count sh - 1\<rparr>) rt;
          if ref_count sh - 1 \<le> 0 then js_free_shape0_rt s rt else Some rt }"

definition js_free_shape_null :: "addr \<Rightarrow> 'v shape_rt \<Rightarrow> 'v shape_rt option" where
  "js_free_shape_null s rt = (if s \<noteq> 0 then js_free_shape_rt s rt else Some rt)"

section \<open>Property arrays\<close>

text \<open>\<open>js_realloc\<close> of the values of an object.\<close>

definition realloc_values :: "nat \<Rightarrow> 'v option list \<Rightarrow> 'v option list" where
  "realloc_values n vs = take n vs @ replicate (n - length vs) None"

text \<open>
  The functions that change \<open>*psh\<close>: with an object, \<open>psh\<close> is the shape of this object, which they set; without one it is a variable of
  the caller. They return the new value of \<open>*psh\<close>, or 0 on failure.
\<close>

definition store_psh :: "addr option \<Rightarrow> addr \<Rightarrow> 'v shape_rt \<Rightarrow> 'v shape_rt option" where
  "store_psh po s rt =
     (case po of None \<Rightarrow> Some rt | Some p \<Rightarrow> do { ob \<leftarrow> objs rt p; Some (set_obj p (ob\<lparr>shape := s\<rparr>) rt) })"

text \<open>The reallocation of the values at the start of \<open>resize_properties\<close>.\<close>

definition resize_values :: "'v shape_alloc \<Rightarrow> addr option \<Rightarrow> nat \<Rightarrow> 'v shape_rt \<Rightarrow> (bool \<times> 'v shape_rt) option" where
  "resize_values al po new_size rt =
     (case po of
        None \<Rightarrow> Some (True, rt)
      | Some p \<Rightarrow>
          do { ob \<leftarrow> objs rt p;
               let (t, rt) = js_malloc al rt;
               if t = 0 then Some (False, rt)
               else Some (True, set_obj p (ob\<lparr>prop_values := realloc_values new_size (prop_values ob)\<rparr>) rt) })"

definition resize_properties :: "'v shape_alloc \<Rightarrow> addr \<Rightarrow> addr option \<Rightarrow> nat \<Rightarrow> 'v shape_rt \<Rightarrow> (addr \<times> 'v shape_rt) option" where
  "resize_properties al s po count rt =
     do { sh \<leftarrow> shapes rt s;
          (done, rt) \<leftarrow> resize_values al po (new_prop_size count sh) rt;
          if \<not> done then Some (0, rt)
          else let (s', rt) = js_malloc al rt in
            if s' = 0 then Some (0, rt)
            else let sh' = (resize_table count sh)\<lparr>ref_count := 1\<rparr>;
                     rt = rt\<lparr>shapes := (shapes rt)(s' \<mapsto> sh', s := None)\<rparr> in
                 do { rt \<leftarrow> store_psh po s' rt; Some (s', rt) } }"

definition compact_properties :: "'v shape_alloc \<Rightarrow> addr \<Rightarrow> 'v shape_rt \<Rightarrow> (int \<times> 'v shape_rt) option" where
  "compact_properties al p rt =
     do { ob \<leftarrow> objs rt p;
          sh \<leftarrow> shapes rt (shape ob);
          let new_size = compact_size sh;
          if is_hashed sh \<or> prop_size sh < new_size \<or> length (prop_values ob) < prop_count sh then None
          else let (s', rt) = js_malloc al rt in
            if s' = 0 then Some (-1, rt)
            else let (sh', vs) = compact_table sh (prop_values ob) in
              if prop_count sh' \<noteq> prop_count sh - deleted_prop_count sh then None
              else let rt = rt\<lparr>shapes := (shapes rt)(s' \<mapsto> sh'\<lparr>ref_count := 1\<rparr>, shape ob := None)\<rparr>;
                       (t, rt) = js_malloc al rt;
                       vs = (if t \<noteq> 0 then realloc_values new_size vs else vs) in
                   Some (0, set_obj p (ob\<lparr>shape := s', prop_values := vs\<rparr>) rt) }"

definition add_shape_property :: "'v shape_alloc \<Rightarrow> addr \<Rightarrow> addr option \<Rightarrow> JSAtom \<Rightarrow> 6 word \<Rightarrow> 'v shape_rt \<Rightarrow> (addr \<times> 'v shape_rt) option" where
  "add_shape_property al s po a f rt =
     do { sh \<leftarrow> shapes rt s;
          let new_shape_hash = prop_hash sh a f;
          rt \<leftarrow> (if is_hashed sh then js_shape_hash_unlink s rt else Some rt);
          (s', rt) \<leftarrow> (if prop_size sh \<le> prop_count sh then resize_properties al s po (prop_count sh + 1) rt else Some (s, rt));
          if s' = 0 then do { rt \<leftarrow> (if is_hashed sh then js_shape_hash_link s rt else Some rt); Some (0, rt) }
          else do { sh \<leftarrow> shapes rt s';
                    rt \<leftarrow> (if is_hashed sh then js_shape_hash_link s' (set_shape s' (sh\<lparr>hash := new_shape_hash\<rparr>) rt) else Some rt);
                    sh \<leftarrow> shapes rt s';
                    Some (s', set_shape s' (append_property a f sh) (JS_DupAtom a rt)) } }"

section \<open>Properties of objects\<close>

definition own_property :: "addr \<Rightarrow> JSAtom \<Rightarrow> 'v shape_rt \<Rightarrow> nat option option" where
  "own_property p a rt = do { ob \<leftarrow> objs rt p; sh \<leftarrow> shapes rt (shape ob); find_own_property1 sh a }"

text \<open>The start of \<open>add_property\<close>: an index property on a prototype of arrays.\<close>

definition reset_std_array_prototype :: "addr \<Rightarrow> JSAtom \<Rightarrow> 'v shape_rt \<Rightarrow> 'v shape_rt option" where
  "reset_std_array_prototype p a rt =
     do { ob \<leftarrow> objs rt p;
          if JS_AtomIsTaggedInt a then
            if is_std_array_prototype ob then Some (set_obj p (ob\<lparr>is_std_array_prototype := False\<rparr>) rt)
            else if has_immutable_prototype ob then
              case List.find (\<lambda>(obj_proto, array_proto). obj_proto \<noteq> 0 \<and> obj_proto = p) (contexts rt) of
                None \<Rightarrow> Some rt
              | Some (obj_proto, array_proto) \<Rightarrow>
                  if array_proto \<noteq> 0 then
                    do { ob1 \<leftarrow> objs rt array_proto; Some (set_obj array_proto (ob1\<lparr>is_std_array_prototype := False\<rparr>) rt) }
                  else Some rt
            else Some rt
          else Some rt }"

text \<open>The index of the new property, or \<open>None\<close> when there is no memory.\<close>

definition add_own_property :: "'v shape_alloc \<Rightarrow> addr \<Rightarrow> JSAtom \<Rightarrow> 6 word \<Rightarrow> 'v shape_rt \<Rightarrow> (nat option \<times> 'v shape_rt) option" where
  "add_own_property al p a f rt =
     do { ob \<leftarrow> objs rt p;
          sh \<leftarrow> shapes rt (shape ob);
          if ref_count sh \<noteq> 1 then None
          else do { (s, rt) \<leftarrow> add_shape_property al (shape ob) (Some p) a f rt;
                    if s = 0 then Some (None, rt)
                    else do { sh \<leftarrow> shapes rt s; Some (Some (prop_count sh - 1), rt) } } }"

definition use_shape :: "'v shape_alloc \<Rightarrow> addr \<Rightarrow> addr \<Rightarrow> 'v shape_rt \<Rightarrow> (nat option \<times> 'v shape_rt) option" where
  "use_shape al p new_s rt =
     do { ob \<leftarrow> objs rt p;
          sh \<leftarrow> shapes rt (shape ob);
          new_sh \<leftarrow> shapes rt new_s;
          (done, rt) \<leftarrow> (if prop_size new_sh \<noteq> prop_size sh then resize_values al (Some p) (prop_size new_sh) rt else Some (True, rt));
          if \<not> done then Some (None, rt)
          else do { rt \<leftarrow> js_dup_shape new_s rt;
                    rt \<leftarrow> store_psh (Some p) new_s rt;
                    rt \<leftarrow> js_free_shape_rt (shape ob) rt;
                    Some (Some (prop_count new_sh - 1), rt) } }"

definition add_property :: "'v shape_alloc \<Rightarrow> addr \<Rightarrow> JSAtom \<Rightarrow> 6 word \<Rightarrow> 'v shape_rt \<Rightarrow> (nat option \<times> 'v shape_rt) option" where
  "add_property al p a f rt =
     do { rt \<leftarrow> reset_std_array_prototype p a rt;
          ob \<leftarrow> objs rt p;
          sh \<leftarrow> shapes rt (shape ob);
          if is_hashed sh then
            do { new_s \<leftarrow> find_hashed_shape_prop sh a f rt;
                 if new_s \<noteq> 0 then use_shape al p new_s rt
                 else if ref_count sh \<noteq> 1 then
                   do { (new_s, rt) \<leftarrow> js_clone_shape al (shape ob) rt;
                        if new_s = 0 then Some (None, rt)
                        else do { new_sh \<leftarrow> shapes rt new_s;
                                  rt \<leftarrow> js_shape_hash_link new_s (set_shape new_s (new_sh\<lparr>is_hashed := True\<rparr>) rt);
                                  rt \<leftarrow> js_free_shape_rt (shape ob) rt;
                                  rt \<leftarrow> store_psh (Some p) new_s rt;
                                  add_own_property al p a f rt } }
                 else add_own_property al p a f rt }
          else add_own_property al p a f rt }"

text \<open>The value that the caller of \<open>add_property\<close> stores.\<close>

definition set_property_value :: "addr \<Rightarrow> nat \<Rightarrow> 'v \<Rightarrow> 'v shape_rt \<Rightarrow> 'v shape_rt option" where
  "set_property_value p i v rt =
     do { ob \<leftarrow> objs rt p;
          if i < length (prop_values ob) then Some (set_obj p (ob\<lparr>prop_values := (prop_values ob)[i := Some v]\<rparr>) rt) else None }"

definition js_shape_prepare_update :: "'v shape_alloc \<Rightarrow> addr \<Rightarrow> 'v shape_rt \<Rightarrow> (int \<times> 'v shape_rt) option" where
  "js_shape_prepare_update al p rt =
     do { ob \<leftarrow> objs rt p;
          sh \<leftarrow> shapes rt (shape ob);
          if is_hashed sh then
            if ref_count sh \<noteq> 1 then
              do { (s, rt) \<leftarrow> js_clone_shape al (shape ob) rt;
                   if s = 0 then Some (-1, rt)
                   else do { rt \<leftarrow> js_free_shape_rt (shape ob) rt;
                             rt \<leftarrow> store_psh (Some p) s rt;
                             Some (0, rt) } }
            else do { rt \<leftarrow> js_shape_hash_unlink (shape ob) rt;
                      sh \<leftarrow> shapes rt (shape ob);
                      Some (0, set_shape (shape ob) (sh\<lparr>is_hashed := False\<rparr>) rt) }
          else Some (0, rt) }"

definition js_update_property_flags :: "'v shape_alloc \<Rightarrow> addr \<Rightarrow> nat \<Rightarrow> 6 word \<Rightarrow> 'v shape_rt \<Rightarrow> (int \<times> 'v shape_rt) option" where
  "js_update_property_flags al p i f rt =
     do { ob \<leftarrow> objs rt p;
          sh \<leftarrow> shapes rt (shape ob);
          if prop_count sh \<le> i then None
          else if f \<noteq> flags (props sh ! i) then
            do { (r, rt) \<leftarrow> js_shape_prepare_update al p rt;
                 if r \<noteq> 0 then Some (-1, rt)
                 else do { ob \<leftarrow> objs rt p;
                           sh \<leftarrow> shapes rt (shape ob);
                           Some (0, set_shape (shape ob) (sh\<lparr>props := (props sh)[i := (props sh ! i)\<lparr>flags := f\<rparr>]\<rparr>) rt) } }
          else Some (0, rt) }"

text \<open>
  Removing the entry that the loop of \<open>delete_property\<close> has found. The argument \<open>undef\<close> is \<open>JS_UNDEFINED\<close>.
\<close>

definition remove_entry :: "'v shape_alloc \<Rightarrow> 'v \<Rightarrow> addr \<Rightarrow> JSAtom \<Rightarrow> nat option \<Rightarrow> nat \<Rightarrow> 'v shape_rt \<Rightarrow> (int \<times> 'v shape_rt) option" where
  "remove_entry al undef p a lpr i rt =
     do { ob \<leftarrow> objs rt p;
          sh \<leftarrow> shapes rt (shape ob);
          if length (prop_values ob) \<le> i then None
          else let rt = free_property_rt (prop_values ob ! i) rt;
                   rt = JS_FreeAtom (atom (props sh ! i)) rt;
                   sh' = unlink_entry a lpr i sh;
                   rt = set_shape (shape ob) sh' rt;
                   rt = set_obj p (ob\<lparr>prop_values := (prop_values ob)[i := Some undef]\<rparr>) rt in
            if 8 \<le> deleted_prop_count sh' \<and> prop_count sh' div 2 \<le> deleted_prop_count sh' then
              do { (_, rt) \<leftarrow> compact_properties al p rt; Some (1, rt) }
            else Some (1, rt) }"

definition delete_property :: "'v shape_alloc \<Rightarrow> 'v \<Rightarrow> addr \<Rightarrow> JSAtom \<Rightarrow> 'v shape_rt \<Rightarrow> (int \<times> 'v shape_rt) option" where
  "delete_property al undef p a rt =
     do { ob \<leftarrow> objs rt p;
          sh \<leftarrow> shapes rt (shape ob);
          found \<leftarrow> delete_loop (props sh) a None (hash_table sh ! slot a (prop_hash_mask sh));
          case found of
            None \<Rightarrow> Some (1, rt)
          | Some (lpr, h) \<Rightarrow>
              if flags (props sh ! (h - 1)) AND JS_PROP_CONFIGURABLE = 0 then Some (0, rt)
              else do { (r, rt) \<leftarrow> js_shape_prepare_update al p rt;
                        if r \<noteq> 0 then Some (-1, rt) else remove_entry al undef p a lpr (h - 1) rt } }"

section \<open>Objects\<close>

text \<open>The part of \<open>free_object\<close> that every class shares.\<close>

definition free_object_rt :: "addr \<Rightarrow> 'v shape_rt \<Rightarrow> 'v shape_rt option" where
  "free_object_rt p rt =
     do { ob \<leftarrow> objs rt p;
          sh \<leftarrow> shapes rt (shape ob);
          if length (prop_values ob) < prop_count sh then None
          else let rt = fold free_property_rt (take (prop_count sh) (prop_values ob)) rt in
            js_free_shape_rt (shape ob) (rt\<lparr>objs := (objs rt)(p := None)\<rparr>) }"

text \<open>\<open>js_trigger_gc\<close> frees the objects that the collector has found to be garbage, which \<open>gc\<close> lists.\<close>

fun free_objects :: "addr list \<Rightarrow> 'v shape_rt \<Rightarrow> 'v shape_rt option" where
  "free_objects [] rt = Some rt"
| "free_objects (p # ps) rt = do { rt \<leftarrow> free_object_rt p rt; free_objects ps rt }"

definition js_trigger_gc :: "('v shape_rt \<Rightarrow> addr list) \<Rightarrow> 'v shape_rt \<Rightarrow> 'v shape_rt option" where
  "js_trigger_gc gc rt = free_objects (gc rt) rt"

text \<open>\<open>JS_NewObjectFromShape\<close> for the class \<open>JS_CLASS_OBJECT\<close>, without initial values; 0 is an exception.\<close>

definition JS_NewObjectFromShape :: "'v shape_alloc \<Rightarrow> ('v shape_rt \<Rightarrow> addr list) \<Rightarrow> addr \<Rightarrow> 'v shape_rt \<Rightarrow> (addr \<times> 'v shape_rt) option" where
  "JS_NewObjectFromShape al gc s rt =
     do { rt \<leftarrow> js_trigger_gc gc rt;
          sh \<leftarrow> shapes rt s;
          let (p, rt) = js_malloc al rt;
          if p = 0 then do { rt \<leftarrow> js_free_shape_rt s rt; Some (0, rt) }
          else let (t, rt) = js_malloc al rt in
            if t = 0 then do { rt \<leftarrow> js_free_shape_rt s rt; Some (0, rt) }
            else Some (p, (set_obj p \<lparr>shape = s, prop_values = replicate (prop_size sh) None, is_std_array_prototype = False,
              has_immutable_prototype = False, extensible = True\<rparr> rt)\<lparr>obj_rc := (obj_rc rt)(p := 1)\<rparr>) }"

definition JS_NewObjectProtoClass :: "'v shape_alloc \<Rightarrow> ('v shape_rt \<Rightarrow> addr list) \<Rightarrow> addr \<Rightarrow> 'v shape_rt \<Rightarrow> (addr \<times> 'v shape_rt) option" where
  "JS_NewObjectProtoClass al gc pr rt =
     do { s \<leftarrow> find_hashed_shape_proto pr rt;
          (s, rt) \<leftarrow> (if s \<noteq> 0 then do { rt \<leftarrow> js_dup_shape s rt; Some (s, rt) } else js_new_shape al pr rt);
          if s = 0 then Some (0, rt) else JS_NewObjectFromShape al gc s rt }"

text \<open>\<open>32 - clz32(n)\<close> is the number of bits of \<open>n\<close>.\<close>

fun bit_length :: "nat \<Rightarrow> nat" where
  "bit_length n = (if n = 0 then 0 else Suc (bit_length (n div 2)))"

declare bit_length.simps [simp del]

definition JS_NewObjectProtoClassAlloc :: "'v shape_alloc \<Rightarrow> ('v shape_rt \<Rightarrow> addr list) \<Rightarrow> addr \<Rightarrow> nat \<Rightarrow> 'v shape_rt \<Rightarrow> (addr \<times> 'v shape_rt) option" where
  "JS_NewObjectProtoClassAlloc al gc pr n_alloc_props rt =
     (let (n, hash_size) = (if n_alloc_props \<le> JS_PROP_INITIAL_SIZE then (JS_PROP_INITIAL_SIZE, JS_PROP_INITIAL_HASH_SIZE)
            else (n_alloc_props, 2 ^ bit_length (n_alloc_props - 1)));
          (s, rt) = js_new_shape_nohash al pr hash_size n rt in
      if s = 0 then Some (0, rt) else JS_NewObjectFromShape al gc s rt)"

text \<open>The loop of \<open>JS_SetPrototypeInternal\<close>: whether \<open>p\<close> is on the chain of prototypes that starts at \<open>p1\<close>.\<close>

partial_function (option) on_proto_chain :: "(addr \<rightharpoonup> addr) \<Rightarrow> addr \<Rightarrow> addr \<Rightarrow> bool option" where
  "on_proto_chain protos p p1 =
     (if p1 = p then Some True
      else case protos p1 of
        None \<Rightarrow> None
      | Some p2 \<Rightarrow> if p2 \<noteq> 0 then on_proto_chain protos p p2 else Some False)"

definition obj_proto :: "'v shape_rt \<Rightarrow> addr \<rightharpoonup> addr" where
  "obj_proto rt p = do { ob \<leftarrow> objs rt p; sh \<leftarrow> shapes rt (shape ob); Some (proto sh) }"

text \<open>The answers of \<open>JS_SetPrototypeInternal\<close>.\<close>

datatype set_proto = SetTrue | SetImmutable | SetNotExtensible | SetCircular | SetNoMemory

definition JS_SetPrototypeInternal :: "'v shape_alloc \<Rightarrow> addr \<Rightarrow> addr \<Rightarrow> 'v shape_rt \<Rightarrow> (set_proto \<times> 'v shape_rt) option" where
  "JS_SetPrototypeInternal al p pr rt =
     do { ob \<leftarrow> objs rt p;
          sh \<leftarrow> shapes rt (shape ob);
          if proto sh = pr then Some (SetTrue, rt)
          else if has_immutable_prototype ob then Some (SetImmutable, rt)
          else if \<not> extensible ob then Some (SetNotExtensible, rt)
          else do { circular \<leftarrow> (if pr \<noteq> 0 then on_proto_chain (obj_proto rt) p pr else Some False);
                    if circular then Some (SetCircular, rt)
                    else let rt = (if pr \<noteq> 0 then dup_object pr rt else rt) in
                      do { (r, rt) \<leftarrow> js_shape_prepare_update al p rt;
                           if r \<noteq> 0 then Some (SetNoMemory, rt)
                           else do { ob \<leftarrow> objs rt p;
                                     sh \<leftarrow> shapes rt (shape ob);
                                     let rt = (if proto sh \<noteq> 0 then free_object_ref (proto sh) rt else rt);
                                     let rt = set_shape (shape ob) (sh\<lparr>proto := pr\<rparr>) rt;
                                     Some (SetTrue, set_obj p (ob\<lparr>is_std_array_prototype := False\<rparr>) rt) } } } }"

end
