(* ===== verification/Shapes.thy ===== *)
theory Shapes
  imports ShapeOps
begin

text \<open>
  Objects share shapes, and the operations keep this invisible: each changes the properties of its own object as the
  list of properties says and leaves those of every other object alone, whatever the allocator answers.
\<close>

section \<open>Sums over maps\<close>

definition tally :: "('b \<Rightarrow> int) \<Rightarrow> ('a \<rightharpoonup> 'b) \<Rightarrow> int" where
  "tally f m = (\<Sum>x\<in>dom m. f (the (m x)))"

definition value_at :: "('b \<Rightarrow> int) \<Rightarrow> 'b option \<Rightarrow> int" where
  "value_at f y = (case y of None \<Rightarrow> 0 | Some z \<Rightarrow> f z)"

lemma value_at_simps [simp]: "value_at f None = 0" "value_at f (Some z) = f z"
  by (simp_all add: value_at_def)

lemma tally_del: "finite (dom m) \<Longrightarrow> tally f (m(x := None)) = tally f m - value_at f (m x)"
proof (cases "m x")
  case None
  then have "m(x := None) = m" by auto
  then show ?thesis using None by simp
next
  case (Some z)
  assume "finite (dom m)"
  then have "tally f m = f z + (\<Sum>y\<in>dom m - {x}. f (the (m y)))" unfolding tally_def using Some by (subst sum.remove [of _ x]) auto
  then show ?thesis using Some by (simp add: tally_def)
qed

lemma tally_upd: "finite (dom m) \<Longrightarrow> tally f (m(x \<mapsto> y)) = tally f m - value_at f (m x) + f y"
proof -
  assume f: "finite (dom m)"
  have "tally f (m(x \<mapsto> y)) = f y + (\<Sum>z\<in>dom m - {x}. f (the ((m(x \<mapsto> y)) z)))"
    using f by (simp add: tally_def sum.insert_remove)
  also have "(\<Sum>z\<in>dom m - {x}. f (the ((m(x \<mapsto> y)) z))) = (\<Sum>z\<in>dom m - {x}. f (the (m z)))" by (rule sum.cong) auto
  also have "\<dots> = tally f (m(x := None))" by (simp add: tally_def)
  finally show ?thesis using tally_del [OF f, of f x] by linarith
qed

lemma tally_nonneg: "(\<And>z. 0 \<le> f z) \<Longrightarrow> 0 \<le> tally f m"
  by (simp add: tally_def sum_nonneg)

lemma tally_ge: "finite (dom m) \<Longrightarrow> (\<And>z. 0 \<le> f z) \<Longrightarrow> m x = Some y \<Longrightarrow> f y \<le> tally f m"
  using tally_del [of m f x] tally_nonneg [of f "m(x := None)"] by simp

lemma tally_strip: "(\<And>sh. f (sh\<lparr>shape_hash_next := 0\<rparr>) = f sh) \<Longrightarrow> tally f (strip_links shs) = tally f shs"
  unfolding tally_def dom_strip by (rule sum.cong) (auto simp: strip_links_def)

section \<open>The invariant\<close>

definition hashed :: "(addr \<rightharpoonup> js_shape) \<Rightarrow> addr set" where
  "hashed shs = {s. \<exists>sh. shs s = Some sh \<and> is_hashed sh}"

text \<open>The number of objects that use a shape.\<close>

definition users :: "(addr \<rightharpoonup> 'v js_object) \<Rightarrow> addr \<Rightarrow> int" where
  "users obs s = tally (\<lambda>ob. of_bool (shape ob = s)) obs"

text \<open>The hash value of the contents of a shape.\<close>

definition content_hash :: "addr \<Rightarrow> (JSAtom \<times> 6 word) list \<Rightarrow> 32 word" where
  "content_hash pr ks = foldl (\<lambda>h (a, f). shape_hash (shape_hash h a) (ucast f)) (shape_initial_hash pr) ks"

definition shape_ok :: "js_shape \<Rightarrow> bool" where
  "shape_ok sh = (table_ok sh \<and> (is_hashed sh \<longrightarrow> hash sh = content_hash (proto sh) (keys (props sh))))"

text \<open>
  Reference counts are exact: \<open>held\<close> counts the references that are not from objects. Only hashed shapes are shared. The values of an
  object have room for as many properties as its shape.
\<close>

definition core :: "(addr \<Rightarrow> int) \<Rightarrow> (addr \<rightharpoonup> js_shape) \<Rightarrow> (addr \<rightharpoonup> 'v js_object) \<Rightarrow> bool" where
  "core held shs obs =
     (finite (dom shs) \<and> finite (dom obs) \<and> 0 \<notin> dom shs \<and> 0 \<notin> dom obs \<and>
      (\<forall>s sh. shs s = Some sh \<longrightarrow> shape_ok sh \<and> ref_count sh = held s + users obs s \<and> 0 < ref_count sh \<and> (\<not> is_hashed sh \<longrightarrow> ref_count sh = 1)) \<and>
      (\<forall>p ob. obs p = Some ob \<longrightarrow> (\<exists>sh. shs (shape ob) = Some sh \<and> prop_size sh \<le> length (prop_values ob))) \<and>
      (\<forall>s. held s \<noteq> 0 \<longrightarrow> s \<in> dom shs))"

definition rt_ok :: "(addr \<Rightarrow> int) \<Rightarrow> 'v shape_rt \<Rightarrow> bool" where
  "rt_ok held rt = (core held (shapes rt) (objs rt) \<and> hash_table_ok (hashed (shapes rt)) rt)"

text \<open>What a shape and an object say of their properties.\<close>

definition shape_view :: "(addr \<rightharpoonup> js_shape) \<Rightarrow> addr \<rightharpoonup> addr \<times> (JSAtom \<times> 6 word) list" where
  "shape_view shs s = map_option (\<lambda>sh. (proto sh, keys (props sh))) (shs s)"

type_synonym 'v obj_view = "addr \<times> (JSAtom \<times> 6 word \<times> 'v option) list"

definition view_in :: "(addr \<rightharpoonup> js_shape) \<Rightarrow> (addr \<rightharpoonup> 'v js_object) \<Rightarrow> addr \<rightharpoonup> 'v obj_view" where
  "view_in shs obs p = do { ob \<leftarrow> obs p; (pr, ks) \<leftarrow> shape_view shs (shape ob); Some (pr, view ks (prop_values ob)) }"

definition obj_view :: "'v shape_rt \<Rightarrow> addr \<rightharpoonup> 'v obj_view" where
  "obj_view rt = view_in (shapes rt) (objs rt)"

text \<open>The references to atoms and to prototypes that do not come from shapes.\<close>

definition atom_refs :: "(addr \<rightharpoonup> js_shape) \<Rightarrow> JSAtom \<Rightarrow> int" where
  "atom_refs shs a = tally (\<lambda>sh. int (count_list (map atom (props sh)) a)) shs"

definition proto_refs :: "(addr \<rightharpoonup> js_shape) \<Rightarrow> addr \<Rightarrow> int" where
  "proto_refs shs p = tally (\<lambda>sh. of_bool (proto sh = p \<and> p \<noteq> 0)) shs"

definition balanced :: "'v shape_rt \<Rightarrow> 'v shape_rt \<Rightarrow> bool" where
  "balanced rt rt' =
     ((\<forall>a. \<not> JS_AtomIsConst a \<longrightarrow> atom_rc rt' a - atom_refs (shapes rt') a = atom_rc rt a - atom_refs (shapes rt) a) \<and>
      (\<forall>p. obj_rc rt' p - proto_refs (shapes rt') p = obj_rc rt p - proto_refs (shapes rt) p))"

text \<open>The change from \<open>rt\<close> to \<open>rt'\<close> is not visible outside of the objects in \<open>P\<close>.\<close>

definition frame :: "addr set \<Rightarrow> (addr \<Rightarrow> int) \<Rightarrow> 'v shape_rt \<Rightarrow> 'v shape_rt \<Rightarrow> bool" where
  "frame P held rt rt' =
     ((\<forall>q. q \<notin> P \<longrightarrow> obj_view rt' q = obj_view rt q) \<and> (\<forall>s. 0 < held s \<longrightarrow> shape_view (shapes rt') s = shape_view (shapes rt) s) \<and>
      balanced rt rt' \<and> contexts rt' = contexts rt)"

lemma frame_refl: "frame P held rt rt"
  by (simp add: frame_def balanced_def)

lemma frame_trans: "frame P held rt1 rt2 \<Longrightarrow> frame P held rt2 rt3 \<Longrightarrow> frame P held rt1 rt3"
  by (auto simp: frame_def balanced_def)

lemma frame_mono: "frame P held rt rt' \<Longrightarrow> P \<subseteq> Q \<Longrightarrow> frame Q held rt rt'"
  by (auto simp: frame_def)

section \<open>Changes of links only\<close>

lemma hashed_strip: "hashed (strip_links shs) = hashed shs"
  by (auto simp: hashed_def strip_links_def)

lemma shape_ok_next [simp]: "shape_ok (sh\<lparr>shape_hash_next := x\<rparr>) = shape_ok sh"
  by (simp add: shape_ok_def table_ok_def)

lemma shape_view_strip: "shape_view (strip_links shs) = shape_view shs"
  by (auto simp: shape_view_def strip_links_def fun_eq_iff option.map_comp comp_def)

lemma strip_eq: "strip_links shs s = Some sh \<longleftrightarrow> (\<exists>sh1. shs s = Some sh1 \<and> sh = sh1\<lparr>shape_hash_next := 0\<rparr>)"
  by (auto simp: strip_links_def)

lemma core_strip: "core held (strip_links shs) obs = core held shs obs"
proof -
  have "(\<forall>s sh. strip_links shs s = Some sh \<longrightarrow> P s sh) = (\<forall>s sh. shs s = Some sh \<longrightarrow> P s (sh\<lparr>shape_hash_next := 0\<rparr>))" for P
    unfolding strip_eq by blast
  moreover have "(\<exists>sh. strip_links shs s = Some sh \<and> Q sh) = (\<exists>sh. shs s = Some sh \<and> Q (sh\<lparr>shape_hash_next := 0\<rparr>))" for Q s
    unfolding strip_eq by blast
  ultimately show ?thesis by (simp add: core_def dom_strip)
qed

lemma refs_strip: "atom_refs (strip_links shs) = atom_refs shs" "proto_refs (strip_links shs) = proto_refs shs"
  by (auto simp: atom_refs_def proto_refs_def fun_eq_iff intro!: tally_strip)

lemma relink:
  assumes "strip_links shs' = strip_links shs"
  shows "core held shs' obs = core held shs obs" "hashed shs' = hashed shs" "shape_view shs' = shape_view shs"
    "atom_refs shs' = atom_refs shs" "proto_refs shs' = proto_refs shs" "view_in shs' obs = view_in shs obs"
proof -
  show v: "shape_view shs' = shape_view shs" using assms shape_view_strip by metis
  show "core held shs' obs = core held shs obs" using assms core_strip by metis
  show "hashed shs' = hashed shs" using assms hashed_strip by metis
  show "atom_refs shs' = atom_refs shs" "proto_refs shs' = proto_refs shs" using assms refs_strip by metis+
  show "view_in shs' obs = view_in shs obs" by (simp add: view_in_def v fun_eq_iff)
qed

text \<open>A step that changes links, the hash table and the log of allocations only.\<close>

definition links_only :: "'v shape_rt \<Rightarrow> 'v shape_rt \<Rightarrow> bool" where
  "links_only rt rt' =
     (strip_links (shapes rt') = strip_links (shapes rt) \<and> objs rt' = objs rt \<and> atom_rc rt' = atom_rc rt \<and> obj_rc rt' = obj_rc rt \<and>
      contexts rt' = contexts rt \<and> released rt' = released rt \<and> zero_refs rt' = zero_refs rt)"

lemma unlink_step:
  assumes "hash_table_ok X rt" "s \<in> X" "shapes rt s = Some sh"
  obtains rt' where "js_shape_hash_unlink s rt = Some rt'" "hash_table_ok (X - {s}) rt'" "links_only rt rt'" "shapes rt' s = Some sh"
proof (rule shape_unlink_ok [OF assms])
  fix shs ht
  let ?rt = "rt\<lparr>shapes := shs, shape_hash_table := ht, shape_hash_count := shape_hash_count rt - 1\<rparr>"
  assume "js_shape_hash_unlink s rt = Some ?rt" "hash_table_ok (X - {s}) ?rt"
    and d: "shs = shapes rt \<or> (\<exists>q sh1 x. q \<in> X \<and> q \<noteq> s \<and> shapes rt q = Some sh1 \<and> shs = (shapes rt)(q \<mapsto> sh1\<lparr>shape_hash_next := x\<rparr>))"
  moreover have "strip_links shs = strip_links (shapes rt) \<and> shs s = Some sh"
    using d assms(3) strip_link [of "shapes rt"] by (elim disjE exE conjE) (simp_all del: fun_upd_apply, simp)
  ultimately show ?thesis using that [of ?rt] by (simp add: links_only_def)
qed

lemma link_step:
  assumes "hash_table_ok X rt" "s \<notin> X" "s \<noteq> 0" "shapes rt s = Some sh"
  obtains rt' x where "js_shape_hash_link s rt = Some rt'" "hash_table_ok (insert s X) rt'" "links_only rt rt'" "shapes rt' s = Some (sh\<lparr>shape_hash_next := x\<rparr>)"
proof (rule link_ok [OF assms])
  fix x ht
  let ?rt = "rt\<lparr>shapes := (shapes rt)(s \<mapsto> sh\<lparr>shape_hash_next := x\<rparr>), shape_hash_table := ht, shape_hash_count := shape_hash_count rt + 1\<rparr>"
  assume "js_shape_hash_link s rt = Some ?rt" "hash_table_ok (insert s X) ?rt"
  then show ?thesis using that [of ?rt x] strip_link [of "shapes rt" s sh x] assms(4) by (simp add: links_only_def)
qed

section \<open>Owners\<close>

lemma coreD:
  assumes "core held shs obs" "shs s = Some sh"
  shows "shape_ok sh" "ref_count sh = held s + users obs s" "0 < ref_count sh" "\<not> is_hashed sh \<Longrightarrow> ref_count sh = 1" "s \<noteq> 0"
  using assms unfolding core_def by blast+

lemma core_obj:
  assumes "core held shs obs" "obs p = Some ob"
  obtains sh where "shs (shape ob) = Some sh" "prop_size sh \<le> length (prop_values ob)"
  using assms unfolding core_def by blast

lemma core_objD: "core held shs obs \<Longrightarrow> obs p = Some ob \<Longrightarrow> \<exists>sh. shs (shape ob) = Some sh \<and> prop_size sh \<le> length (prop_values ob)"
  unfolding core_def by blast

lemma core_finite: "core held shs obs \<Longrightarrow> finite (dom shs) \<and> finite (dom obs) \<and> 0 \<notin> dom shs \<and> 0 \<notin> dom obs"
  by (simp add: core_def)

lemma users_ge: "finite (dom obs) \<Longrightarrow> obs p = Some ob \<Longrightarrow> 1 \<le> users obs (shape ob)"
  using tally_ge [of obs "\<lambda>o'. of_bool (shape o' = shape ob)" p ob] by (simp add: users_def)

lemma users_nonneg: "0 \<le> users obs s"
  by (simp add: users_def tally_nonneg)

lemma users_upd: "finite (dom obs) \<Longrightarrow> users (obs(p \<mapsto> ob)) s = users obs s - value_at (\<lambda>ob. of_bool (shape ob = s)) (obs p) + of_bool (shape ob = s)"
  by (simp add: users_def tally_upd)

lemma users_del: "finite (dom obs) \<Longrightarrow> users (obs(p := None)) s = users obs s - value_at (\<lambda>ob. of_bool (shape ob = s)) (obs p)"
  by (simp add: users_def tally_del)

text \<open>The only user of a shape that is counted once.\<close>

lemma sole_owner:
  assumes c: "core held shs obs" and h: "\<And>s. 0 \<le> held s" and p: "obs p = Some ob" "shs (shape ob) = Some sh" "ref_count sh = 1"
  shows "held (shape ob) = 0" "users obs (shape ob) = 1" "\<And>q ob'. obs q = Some ob' \<Longrightarrow> shape ob' = shape ob \<Longrightarrow> q = p"
proof -
  have f: "finite (dom obs)" using core_finite [OF c] by simp
  have rc: "1 = held (shape ob) + users obs (shape ob)" using coreD(2) [OF c p(2)] p(3) by simp
  show u: "held (shape ob) = 0" "users obs (shape ob) = 1" using rc users_ge [OF f p(1)] h [of "shape ob"] by auto
  fix q ob' assume q: "obs q = Some ob'" "shape ob' = shape ob"
  show "q = p"
  proof (rule ccontr)
    assume "q \<noteq> p"
    then have "1 \<le> users (obs(p := None)) (shape ob)" using users_ge [of "obs(p := None)" q ob'] f q by simp
    then show False using users_del [OF f] u(2) p(1) by simp
  qed
qed

lemma users_none: "core held shs obs \<Longrightarrow> s \<notin> dom shs \<Longrightarrow> users obs s = 0"
  unfolding users_def tally_def by (rule sum.neutral) (auto elim: core_obj)

lemma core_held: "core held shs obs \<Longrightarrow> s \<notin> dom shs \<Longrightarrow> held s = 0"
  by (auto simp: core_def)

lemma coreI:
  assumes "finite (dom shs)" "finite (dom obs)" "0 \<notin> dom shs" "0 \<notin> dom obs"
    "\<And>s sh. shs s = Some sh \<Longrightarrow> shape_ok sh \<and> ref_count sh = held s + users obs s \<and> 0 < ref_count sh \<and> (\<not> is_hashed sh \<longrightarrow> ref_count sh = 1)"
    "\<And>p ob. obs p = Some ob \<Longrightarrow> \<exists>sh. shs (shape ob) = Some sh \<and> prop_size sh \<le> length (prop_values ob)"
    "\<And>s. held s \<noteq> 0 \<Longrightarrow> s \<in> dom shs"
  shows "core held shs obs"
  using assms unfolding core_def by blast

section \<open>Changing the shape of one object\<close>

text \<open>An object that is the only user of its shape gets a changed shape, in the same place or in another one.\<close>

lemma core_replace:
  assumes c: "core held shs obs" and h: "\<And>s. 0 \<le> held s" and p: "obs p = Some ob" "shs (shape ob) = Some sh" "ref_count sh = 1"
    and s': "s' = shape ob \<or> s' \<notin> dom shs" "s' \<noteq> 0" and sh': "shape_ok sh'" "ref_count sh' = 1"
    and ob': "shape ob' = s'" "prop_size sh' \<le> length (prop_values ob')"
  shows "core held (shs(shape ob := None, s' \<mapsto> sh')) (obs(p \<mapsto> ob'))"
    "q \<noteq> p \<Longrightarrow> view_in (shs(shape ob := None, s' \<mapsto> sh')) (obs(p \<mapsto> ob')) q = view_in shs obs q"
    "0 < held s \<Longrightarrow> shape_view (shs(shape ob := None, s' \<mapsto> sh')) s = shape_view shs s"
proof -
  let ?shs = "shs(shape ob := None, s' \<mapsto> sh')" and ?obs = "obs(p \<mapsto> ob')"
  note f = core_finite [OF c] and own = sole_owner [OF c h p]
  have u: "users ?obs t = users obs t - of_bool (shape ob = t) + of_bool (s' = t)" for t
    using users_upd [of obs p ob' t] f p(1) ob'(1) by simp
  have other: "shape oq \<noteq> shape ob \<and> shape oq \<noteq> s'" if "obs q = Some oq" "q \<noteq> p" for q oq
  proof
    show "shape oq \<noteq> shape ob" using own(3) that by blast
    then show "shape oq \<noteq> s'" using s'(1) core_obj [OF c that(1)] by blast
  qed
  have hs: "held s' = 0" "users ?obs s' = 1"
    using s' own core_held [OF c, of s'] users_none [OF c, of s'] u [of s'] p(2) by auto
  show "core held ?shs ?obs"
  proof (rule coreI)
    fix t st assume t: "?shs t = Some st"
    show "shape_ok st \<and> ref_count st = held t + users ?obs t \<and> 0 < ref_count st \<and> (\<not> is_hashed st \<longrightarrow> ref_count st = 1)"
    proof (cases "t = s'")
      case False
      then have st: "shs t = Some st" "t \<noteq> shape ob" using t by (auto split: if_splits)
      then show ?thesis using coreD(1-4) [OF c st(1)] u [of t] False by simp
    qed (use t hs sh' in simp)
  next
    fix q oq assume q: "?obs q = Some oq"
    show "\<exists>sh. ?shs (shape oq) = Some sh \<and> prop_size sh \<le> length (prop_values oq)"
    proof (cases "q = p")
      case False
      then have oq: "obs q = Some oq" using q by simp
      from core_obj [OF c oq] obtain sq where "shs (shape oq) = Some sq" "prop_size sq \<le> length (prop_values oq)" by blast
      then show ?thesis using other [OF oq False] by auto
    qed (use q ob' in simp)
  next
    fix t assume "held t \<noteq> 0"
    then show "t \<in> dom ?shs" using own(1) hs(1) c by (auto simp: core_def)
  qed (use f s'(2) p(1) in auto)
  show "view_in ?shs ?obs q = view_in shs obs q" if "q \<noteq> p"
    using other [OF _ that] that by (cases "obs q") (auto simp: view_in_def shape_view_def)
  show "shape_view ?shs s = shape_view shs s" if "0 < held s"
    using that own(1) hs(1) by (auto simp: shape_view_def)
qed

lemma hash_table_cong:
  assumes "hash_table_ok X rt"
    "\<And>s. s \<in> X \<Longrightarrow> nexts (shapes rt') s = nexts (shapes rt) s \<and> hashes (shapes rt') s = hashes (shapes rt) s"
    "shape_hash_table rt' = shape_hash_table rt" "shape_hash_bits rt' = shape_hash_bits rt" "shape_hash_count rt' = shape_hash_count rt"
  shows "hash_table_ok X rt'"
proof -
  have h: "hash_ok X (shapes rt) (shape_hash_table rt) (shape_hash_bits rt)" using assms(1) by (simp add: hash_table_ok_def)
  have "hash_ok X (shapes rt') (shape_hash_table rt) (shape_hash_bits rt)"
  proof (rule hash_ok_cong [OF h])
    fix s assume s: "s \<in> X"
    then obtain sh where "shapes rt s = Some sh" using hash_ok_bits [OF h] by blast
    then show "\<exists>sh sh'. shapes rt s = Some sh \<and> shapes rt' s = Some sh' \<and> shape_hash_next sh' = shape_hash_next sh \<and> hash sh' = hash sh"
      using assms(2) [OF s] by (auto simp: nexts_def hashes_def)
  qed
  then show ?thesis using assms(1,3-5) by (simp add: hash_table_ok_def)
qed

section \<open>Reference counts of atoms and prototypes\<close>

lemma JS_DupAtom_simps [simp]:
  "shapes (JS_DupAtom a rt) = shapes rt" "objs (JS_DupAtom a rt) = objs rt" "shape_hash_table (JS_DupAtom a rt) = shape_hash_table rt"
  "shape_hash_bits (JS_DupAtom a rt) = shape_hash_bits rt" "shape_hash_count (JS_DupAtom a rt) = shape_hash_count rt"
  "contexts (JS_DupAtom a rt) = contexts rt" "released (JS_DupAtom a rt) = released rt" "obj_rc (JS_DupAtom a rt) = obj_rc rt"
  "\<not> JS_AtomIsConst b \<Longrightarrow> atom_rc (JS_DupAtom a rt) b = atom_rc rt b + of_bool (b = a)"
  by (auto simp: JS_DupAtom_def)

lemma JS_FreeAtom_simps [simp]:
  "shapes (JS_FreeAtom a rt) = shapes rt" "objs (JS_FreeAtom a rt) = objs rt" "shape_hash_table (JS_FreeAtom a rt) = shape_hash_table rt"
  "shape_hash_bits (JS_FreeAtom a rt) = shape_hash_bits rt" "shape_hash_count (JS_FreeAtom a rt) = shape_hash_count rt"
  "contexts (JS_FreeAtom a rt) = contexts rt" "released (JS_FreeAtom a rt) = released rt" "obj_rc (JS_FreeAtom a rt) = obj_rc rt"
  "\<not> JS_AtomIsConst b \<Longrightarrow> atom_rc (JS_FreeAtom a rt) b = atom_rc rt b - of_bool (b = a)"
  by (auto simp: JS_FreeAtom_def)

lemma fold_keep: "(\<And>x rt. g (h x rt) = g rt) \<Longrightarrow> g (fold h xs rt) = g rt"
  by (induction xs arbitrary: rt) auto

lemma fold_DupAtom [simp]:
  "shapes (fold (\<lambda>pr. JS_DupAtom (atom pr)) prs rt) = shapes rt" "objs (fold (\<lambda>pr. JS_DupAtom (atom pr)) prs rt) = objs rt"
  "shape_hash_table (fold (\<lambda>pr. JS_DupAtom (atom pr)) prs rt) = shape_hash_table rt"
  "shape_hash_bits (fold (\<lambda>pr. JS_DupAtom (atom pr)) prs rt) = shape_hash_bits rt"
  "shape_hash_count (fold (\<lambda>pr. JS_DupAtom (atom pr)) prs rt) = shape_hash_count rt"
  "contexts (fold (\<lambda>pr. JS_DupAtom (atom pr)) prs rt) = contexts rt" "released (fold (\<lambda>pr. JS_DupAtom (atom pr)) prs rt) = released rt" "obj_rc (fold (\<lambda>pr. JS_DupAtom (atom pr)) prs rt) = obj_rc rt"
  by (rule fold_keep, simp)+

lemma fold_DupAtom_rc [simp]:
  "\<not> JS_AtomIsConst b \<Longrightarrow> atom_rc (fold (\<lambda>pr. JS_DupAtom (atom pr)) prs rt) b = atom_rc rt b + int (count_list (map atom prs) b)"
  by (induction prs arbitrary: rt) auto

lemma fold_FreeAtom [simp]:
  "shapes (fold (\<lambda>pr. JS_FreeAtom (atom pr)) prs rt) = shapes rt" "objs (fold (\<lambda>pr. JS_FreeAtom (atom pr)) prs rt) = objs rt"
  "shape_hash_table (fold (\<lambda>pr. JS_FreeAtom (atom pr)) prs rt) = shape_hash_table rt"
  "shape_hash_bits (fold (\<lambda>pr. JS_FreeAtom (atom pr)) prs rt) = shape_hash_bits rt"
  "shape_hash_count (fold (\<lambda>pr. JS_FreeAtom (atom pr)) prs rt) = shape_hash_count rt"
  "contexts (fold (\<lambda>pr. JS_FreeAtom (atom pr)) prs rt) = contexts rt" "released (fold (\<lambda>pr. JS_FreeAtom (atom pr)) prs rt) = released rt" "obj_rc (fold (\<lambda>pr. JS_FreeAtom (atom pr)) prs rt) = obj_rc rt"
  by (rule fold_keep, simp)+

lemma fold_FreeAtom_rc [simp]:
  "\<not> JS_AtomIsConst b \<Longrightarrow> atom_rc (fold (\<lambda>pr. JS_FreeAtom (atom pr)) prs rt) b = atom_rc rt b - int (count_list (map atom prs) b)"
  by (induction prs arbitrary: rt) auto

lemma dup_object_simps [simp]:
  "shapes (dup_object p rt) = shapes rt" "objs (dup_object p rt) = objs rt" "shape_hash_table (dup_object p rt) = shape_hash_table rt"
  "shape_hash_bits (dup_object p rt) = shape_hash_bits rt" "shape_hash_count (dup_object p rt) = shape_hash_count rt"
  "contexts (dup_object p rt) = contexts rt" "released (dup_object p rt) = released rt" "atom_rc (dup_object p rt) = atom_rc rt"
  "obj_rc (dup_object p rt) q = obj_rc rt q + of_bool (q = p)"
  by (auto simp: dup_object_def)

lemma free_object_ref_simps [simp]:
  "shapes (free_object_ref p rt) = shapes rt" "objs (free_object_ref p rt) = objs rt" "shape_hash_table (free_object_ref p rt) = shape_hash_table rt"
  "shape_hash_bits (free_object_ref p rt) = shape_hash_bits rt" "shape_hash_count (free_object_ref p rt) = shape_hash_count rt"
  "contexts (free_object_ref p rt) = contexts rt" "released (free_object_ref p rt) = released rt" "atom_rc (free_object_ref p rt) = atom_rc rt"
  "obj_rc (free_object_ref p rt) q = obj_rc rt q - of_bool (q = p)"
  by (auto simp: free_object_ref_def Let_def)

lemma refs_upd:
  assumes "finite (dom shs)"
  shows "atom_refs (shs(s \<mapsto> sh)) a = atom_refs shs a - value_at (\<lambda>sh. int (count_list (map atom (props sh)) a)) (shs s) + int (count_list (map atom (props sh)) a)"
    "proto_refs (shs(s \<mapsto> sh)) p = proto_refs shs p - value_at (\<lambda>sh. of_bool (proto sh = p \<and> p \<noteq> 0)) (shs s) + of_bool (proto sh = p \<and> p \<noteq> 0)"
    "atom_refs (shs(s := None)) a = atom_refs shs a - value_at (\<lambda>sh. int (count_list (map atom (props sh)) a)) (shs s)"
    "proto_refs (shs(s := None)) p = proto_refs shs p - value_at (\<lambda>sh. of_bool (proto sh = p \<and> p \<noteq> 0)) (shs s)"
  using assms by (simp_all add: atom_refs_def proto_refs_def tally_upd tally_del)

section \<open>Counting and freeing shapes\<close>

lemma core_count:
  assumes c: "core held shs obs" and s: "shs s = Some sh" "0 < ref_count sh + d" "is_hashed sh \<or> d = 0"
  shows "core (held(s := held s + d)) (shs(s \<mapsto> sh\<lparr>ref_count := ref_count sh + d\<rparr>)) obs"
proof (rule coreI)
  fix t st assume t: "(shs(s \<mapsto> sh\<lparr>ref_count := ref_count sh + d\<rparr>)) t = Some st"
  show "shape_ok st \<and> ref_count st = (held(s := held s + d)) t + users obs t \<and> 0 < ref_count st \<and> (\<not> is_hashed st \<longrightarrow> ref_count st = 1)"
  proof (cases "t = s")
    case True
    then show ?thesis using t s coreD [OF c s(1)] by (auto simp: shape_ok_def table_ok_def)
  next
    case False
    then have st: "shs t = Some st" using t by simp
    then show ?thesis using False coreD(1-4) [OF c st] by simp
  qed
next
  fix p ob assume "obs p = Some ob"
  from core_objD [OF c this] s(1) show "\<exists>sh'. (shs(s \<mapsto> sh\<lparr>ref_count := ref_count sh + d\<rparr>)) (shape ob) = Some sh' \<and> prop_size sh' \<le> length (prop_values ob)"
    by (cases "shape ob = s") auto
qed (use core_finite [OF c] core_held [OF c] s(1) in \<open>auto split: if_splits\<close>)

lemma core_delete:
  assumes c: "core held shs obs" and s: "shs s = Some sh" "users obs s = 0" "ref_count sh = 1"
  shows "core (held(s := held s - 1)) (shs(s := None)) obs"
proof (rule coreI)
  have h: "held s = 1" using coreD(2) [OF c s(1)] s by simp
  fix t st assume t: "(shs(s := None)) t = Some st"
  then have st: "shs t = Some st" "t \<noteq> s" by (auto split: if_splits)
  show "shape_ok st \<and> ref_count st = (held(s := held s - 1)) t + users obs t \<and> 0 < ref_count st \<and> (\<not> is_hashed st \<longrightarrow> ref_count st = 1)"
    using coreD(1-4) [OF c st(1)] st(2) by simp
next
  fix p ob assume p: "obs p = Some ob"
  then have "shape ob \<noteq> s" using users_ge [of obs p ob] core_finite [OF c] s(2) by auto
  with core_objD [OF c p] show "\<exists>sh'. (shs(s := None)) (shape ob) = Some sh' \<and> prop_size sh' \<le> length (prop_values ob)" by auto
next
  fix t assume "(held(s := held s - 1)) t \<noteq> 0"
  then show "t \<in> dom (shs(s := None))" using core_held [OF c, of t] coreD(2) [OF c s(1)] s by (auto split: if_splits)
qed (use core_finite [OF c] in auto)

lemma core_new_shape:
  assumes c: "core held shs obs" and s: "s \<notin> dom shs" "s \<noteq> 0" and sh: "shape_ok sh" "ref_count sh = 1"
  shows "core (held(s := 1)) (shs(s \<mapsto> sh)) obs"
proof (rule coreI)
  fix t st assume t: "(shs(s \<mapsto> sh)) t = Some st"
  show "shape_ok st \<and> ref_count st = (held(s := 1)) t + users obs t \<and> 0 < ref_count st \<and> (\<not> is_hashed st \<longrightarrow> ref_count st = 1)"
  proof (cases "t = s")
    case True
    then show ?thesis using t sh users_none [OF c s(1)] by simp
  next
    case False
    then have st: "shs t = Some st" using t by simp
    then show ?thesis using False coreD(1-4) [OF c st] by simp
  qed
next
  fix p ob assume "obs p = Some ob"
  from core_objD [OF c this] s(1) show "\<exists>sh'. (shs(s \<mapsto> sh)) (shape ob) = Some sh' \<and> prop_size sh' \<le> length (prop_values ob)"
    by (cases "shape ob = s") auto
qed (use core_finite [OF c] core_held [OF c] s(2) in \<open>auto split: if_splits\<close>)

lemma core_assign:
  assumes c: "core held shs obs" and p: "obs p = Some ob" and s: "shs (shape ob') = Some sh'" "prop_size sh' \<le> length (prop_values ob')"
  shows "core (\<lambda>t. held t + of_bool (t = shape ob) - of_bool (t = shape ob')) shs (obs(p \<mapsto> ob'))"
proof (rule coreI)
  note f = core_finite [OF c]
  fix t st assume t: "shs t = Some st"
  show "shape_ok st \<and> ref_count st = held t + of_bool (t = shape ob) - of_bool (t = shape ob') + users (obs(p \<mapsto> ob')) t \<and> 0 < ref_count st \<and> (\<not> is_hashed st \<longrightarrow> ref_count st = 1)"
    using coreD(1-4) [OF c t] users_upd [of obs p ob' t] f p by auto
next
  fix q oq assume "(obs(p \<mapsto> ob')) q = Some oq"
  then show "\<exists>sh'. shs (shape oq) = Some sh' \<and> prop_size sh' \<le> length (prop_values oq)"
    using s core_objD [OF c, of q oq] by (cases "q = p") auto
next
  fix t assume "held t + of_bool (t = shape ob) - of_bool (t = shape ob') \<noteq> 0"
  then show "t \<in> dom shs" using core_held [OF c, of t] s(1) core_objD [OF c p]
    by (cases "t = shape ob"; cases "t = shape ob'") auto
qed (use core_finite [OF c] p in auto)

text \<open>The allocator gives an address that is not in use.\<close>

definition fresh_alloc :: "'v shape_alloc \<Rightarrow> bool" where
  "fresh_alloc al = (\<forall>rt. al rt = 0 \<or> al rt \<notin> dom (shapes rt) \<and> al rt \<notin> dom (objs rt))"

lemma fresh_allocD: "fresh_alloc al \<Longrightarrow> al rt \<noteq> 0 \<Longrightarrow> al rt \<notin> dom (shapes rt) \<and> al rt \<notin> dom (objs rt)"
  by (auto simp: fresh_alloc_def)

lemma rt_okD: "rt_ok held rt \<Longrightarrow> core held (shapes rt) (objs rt)" "rt_ok held rt \<Longrightarrow> hash_table_ok (hashed (shapes rt)) rt"
  by (simp_all add: rt_ok_def)

text \<open>A change of fields that the invariant does not mention, and of links.\<close>

lemma rt_ok_cong:
  "shapes rt' = shapes rt \<Longrightarrow> objs rt' = objs rt \<Longrightarrow> shape_hash_table rt' = shape_hash_table rt \<Longrightarrow>
    shape_hash_bits rt' = shape_hash_bits rt \<Longrightarrow> shape_hash_count rt' = shape_hash_count rt \<Longrightarrow> rt_ok held rt' = rt_ok held rt"
  by (simp add: rt_ok_def hash_table_ok_def)

lemma frame_relink:
  assumes "strip_links (shapes rt') = strip_links (shapes rt)" "objs rt' = objs rt" "atom_rc rt' = atom_rc rt" "obj_rc rt' = obj_rc rt" "contexts rt' = contexts rt"
  shows "frame P held rt rt'"
  using relink(3-5) [OF assms(1)] relink(6) [OF assms(1), of "objs rt"] assms(2-) by (simp add: frame_def balanced_def obj_view_def)

lemma hash_upd:
  assumes "shs s = Some sh" "hash sh' = hash sh" "shape_hash_next sh' = shape_hash_next sh"
  shows "nexts (shs(s \<mapsto> sh')) = nexts shs" "hashes (shs(s \<mapsto> sh')) = hashes shs"
  using assms by (auto simp: nexts_def hashes_def fun_eq_iff)

lemma hashed_upd: "hashed (shs(s \<mapsto> sh)) = (if is_hashed sh then insert s (hashed shs) else hashed shs - {s})"
  "hashed (shs(s := None)) = hashed shs - {s}"
  by (auto simp: hashed_def)

lemma count_ok:
  assumes i: "rt_ok held rt" and s: "shapes rt s = Some sh" "0 < ref_count sh + d" "is_hashed sh"
  defines "rt' \<equiv> set_shape s (sh\<lparr>ref_count := ref_count sh + d\<rparr>) rt"
  shows "rt_ok (held(s := held s + d)) rt'" "frame P held' rt rt'" "shape_view (shapes rt') = shape_view (shapes rt)"
proof -
  let ?shs = "(shapes rt)(s \<mapsto> sh\<lparr>ref_count := ref_count sh + d\<rparr>)"
  note c = rt_okD(1) [OF i]
  have "s \<in> hashed (shapes rt)" using s(1,3) by (simp add: hashed_def)
  then have h: "hashed ?shs = hashed (shapes rt)" using s(3) by (auto simp: hashed_upd)
  have "hash_table_ok (hashed (shapes rt)) rt'"
    using rt_okD(2) [OF i] hash_upd [of "shapes rt" s sh "sh\<lparr>ref_count := ref_count sh + d\<rparr>"] s(1)
    by (rule_tac hash_table_cong) (simp_all add: rt'_def set_shape_def)
  then show "rt_ok (held(s := held s + d)) rt'"
    using core_count [OF c s(1,2)] s(3) h by (simp add: rt_ok_def rt'_def set_shape_def)
  show v: "shape_view (shapes rt') = shape_view (shapes rt)" using s(1) by (auto simp: rt'_def set_shape_def shape_view_def fun_eq_iff)
  then have "view_in ?shs (objs rt) = view_in (shapes rt) (objs rt)" by (simp add: view_in_def rt'_def set_shape_def fun_eq_iff)
  moreover have "finite (dom (shapes rt))" using core_finite [OF c] by simp
  ultimately show "frame P held' rt rt'" using v s(1) refs_upd(1,2) [of "shapes rt" s "sh\<lparr>ref_count := ref_count sh + d\<rparr>"]
    by (simp add: frame_def balanced_def obj_view_def rt'_def set_shape_def)
qed

text \<open>Giving up a reference to a shape.\<close>

lemma free_shape_ok:
  assumes i: "rt_ok held rt" and s: "shapes rt s = Some sh" "1 < ref_count sh \<or> users (objs rt) s = 0"
  obtains rt' where "js_free_shape_rt s rt = Some rt'" "rt_ok (held(s := held s - 1)) rt'" "objs rt' = objs rt" "balanced rt rt'" "contexts rt' = contexts rt"
    "\<forall>t. t \<noteq> s \<or> 1 < ref_count sh \<longrightarrow> shape_view (shapes rt') t = shape_view (shapes rt) t" "released rt' = released rt"
    "\<forall>t. t \<noteq> s \<longrightarrow> strip_links (shapes rt') t = strip_links (shapes rt) t"
proof (cases "1 < ref_count sh")
  case True
  then have h: "is_hashed sh" using coreD(4) [OF rt_okD(1) [OF i] s(1)] by auto
  define rt' where "rt' = set_shape s (sh\<lparr>ref_count := ref_count sh - 1\<rparr>) rt"
  have "js_free_shape_rt s rt = Some rt'" using s(1) True by (simp add: js_free_shape_rt_def rt'_def Let_def)
  moreover have "rt_ok (held(s := held s - 1)) rt'" "shape_view (shapes rt') = shape_view (shapes rt)" "frame {} (\<lambda>_. 0) rt rt'"
    using count_ok [OF i s(1) _ h, of "- 1"] True by (simp_all add: rt'_def)
  moreover have "objs rt' = objs rt" "released rt' = released rt" "contexts rt' = contexts rt" by (simp_all add: rt'_def set_shape_def)
  moreover have "strip_links (shapes rt') t = strip_links (shapes rt) t" if "t \<noteq> s" for t using that by (simp add: rt'_def set_shape_def strip_links_def)
  ultimately show ?thesis by (intro that [of rt']) (auto simp: frame_def)
next
  case False
  note c = rt_okD(1) [OF i]
  have rc: "ref_count sh = 1" using False coreD(3) [OF c s(1)] by linarith
  have u: "users (objs rt) s = 0" using s(2) False by simp
  let ?sh = "sh\<lparr>ref_count := 0\<rparr>"
  define rt1 where "rt1 = set_shape s ?sh rt"
  have s1: "shapes rt1 s = Some ?sh" by (simp add: rt1_def set_shape_def)
  have h1: "hash_table_ok (hashed (shapes rt)) rt1"
    using rt_okD(2) [OF i] hash_upd [of "shapes rt" s sh ?sh] s(1)
    by (rule_tac hash_table_cong) (simp_all add: rt1_def set_shape_def)
  obtain rt2 where r2: "(if is_hashed sh then js_shape_hash_unlink s rt1 else Some rt1) = Some rt2" and t2: "hash_table_ok (hashed (shapes rt) - {s}) rt2"
    and e2: "strip_links (shapes rt2) = strip_links (shapes rt1)" "objs rt2 = objs rt" "atom_rc rt2 = atom_rc rt" "obj_rc rt2 = obj_rc rt" "contexts rt2 = contexts rt" "released rt2 = released rt"
  proof (cases "is_hashed sh")
    case True
    then have x: "s \<in> hashed (shapes rt)" using s(1) by (simp add: hashed_def)
    obtain rt2 where r2: "js_shape_hash_unlink s rt1 = Some rt2" "hash_table_ok (hashed (shapes rt) - {s}) rt2" "links_only rt1 rt2"
      by (rule unlink_step [OF h1 x s1])
    show ?thesis by (rule that [of rt2]) (use True r2 in \<open>simp_all add: links_only_def rt1_def set_shape_def\<close>)
  next
    case False
    then have "hashed (shapes rt) - {s} = hashed (shapes rt)" using s(1) by (auto simp: hashed_def)
    then show ?thesis by (rule_tac that [of rt1]) (use False h1 in \<open>simp_all add: rt1_def set_shape_def\<close>)
  qed
  obtain x where x: "shapes rt2 s = Some (?sh\<lparr>shape_hash_next := x\<rparr>)" using strip_Some [OF e2(1) s1] .
  define rt3 where "rt3 = fold (\<lambda>pr. JS_FreeAtom (atom pr)) (props sh) (if proto sh \<noteq> 0 then free_object_ref (proto sh) rt2 else rt2)"
  define rt' where "rt' = rt3\<lparr>shapes := (shapes rt3)(s := None)\<rparr>"
  have "js_free_shape_rt s rt = Some rt'" using s(1) rc r2 x s1 
    by (simp add: js_free_shape_rt_def js_free_shape0_rt_def rt1_def [symmetric] rt'_def rt3_def Let_def)
  moreover have st: "strip_links (shapes rt') = (strip_links (shapes rt))(s := None)"
    using e2(1) by (auto simp: rt'_def rt3_def rt1_def set_shape_def strip_links_def fun_eq_iff)
  then have sd: "strip_links (shapes rt') = strip_links ((shapes rt)(s := None))" by (auto simp: strip_links_def fun_eq_iff)
  note r = relink [OF sd]
  have "core (held(s := held s - 1)) (shapes rt') (objs rt)" unfolding r(1) using core_delete [OF c s(1) u rc] .
  moreover have "hash_table_ok (hashed (shapes rt')) rt'" unfolding r(2) hashed_upd(2)
    using t2 by (rule hash_table_cong) (auto simp: rt'_def rt3_def nexts_def hashes_def)
  moreover have o: "objs rt' = objs rt" "contexts rt' = contexts rt" using e2 by (simp_all add: rt'_def rt3_def)
  moreover have "released rt' = released rt" using e2(6) by (simp add: rt'_def rt3_def)
  moreover have "balanced rt rt'"
    using r(4,5) refs_upd(3,4) [of "shapes rt" s] core_finite [OF c] s(1) e2(3,4)
    by (auto simp: balanced_def rt'_def rt3_def)
  moreover have "shape_view (shapes rt') t = shape_view (shapes rt) t" if "t \<noteq> s" for t
    using r(3) that by (simp add: shape_view_def)
  moreover have "strip_links (shapes rt') t = strip_links (shapes rt) t" if "t \<noteq> s" for t using st that by simp
  ultimately show ?thesis using False by (intro that [of rt']) (auto simp: rt_ok_def)
qed

section \<open>Copies\<close>

lemma clone_ok:
  assumes i: "rt_ok held rt" and al: "fresh_alloc al" and s1: "shapes rt s1 = Some sh1"
  obtains s rt' where "js_clone_shape al s1 rt = Some (s, rt')" "objs rt' = objs rt" "contexts rt' = contexts rt" "released rt' = released rt" "balanced rt rt'"
    "s = 0 \<longrightarrow> rt_ok held rt' \<and> shapes rt' = shapes rt"
    "s \<noteq> 0 \<longrightarrow> rt_ok (held(s := 1)) rt' \<and> s \<notin> dom (shapes rt) \<and> shapes rt' = (shapes rt)(s \<mapsto> sh1\<lparr>ref_count := 1, is_hashed := False\<rparr>)"
proof (cases "al rt = 0")
  case True
  have "js_clone_shape al s1 rt = Some (0, rt\<lparr>alloc_log := al rt # alloc_log rt\<rparr>)" using True s1 by (simp add: js_clone_shape_def js_malloc_def)
  then show ?thesis by (rule that) (use i in \<open>simp_all add: balanced_def cong: rt_ok_cong\<close>)
next
  case False
  define s where "s = al rt"
  have s: "s \<noteq> 0" "s \<notin> dom (shapes rt)" using False fresh_allocD [OF al] by (auto simp: s_def)
  let ?sh = "sh1\<lparr>ref_count := 1, is_hashed := False\<rparr>"
  define rt1 where "rt1 = set_shape s ?sh (rt\<lparr>alloc_log := al rt # alloc_log rt\<rparr>)"
  define rt' where "rt' = fold (\<lambda>pr. JS_DupAtom (atom pr)) (props sh1) (if proto sh1 \<noteq> 0 then dup_object (proto sh1) rt1 else rt1)"
  note c = rt_okD(1) [OF i]
  have "js_clone_shape al s1 rt = Some (s, rt')"
    using s1 s(1) by (simp add: js_clone_shape_def js_malloc_def s_def [symmetric] rt'_def rt1_def Let_def)
  moreover have e: "shapes rt' = (shapes rt)(s \<mapsto> ?sh)" "objs rt' = objs rt" "contexts rt' = contexts rt"
    by (simp_all add: rt'_def rt1_def set_shape_def)
  moreover have "released rt' = released rt" by (simp add: rt'_def rt1_def set_shape_def)
  moreover have "shape_ok ?sh" using coreD(1) [OF c s1] by (simp add: shape_ok_def table_ok_def)
  then have "core (held(s := 1)) (shapes rt') (objs rt')" unfolding e using core_new_shape [OF c s(2,1)] by simp
  moreover have "hash_table_ok (hashed (shapes rt')) rt'"
  proof -
    have n: "s \<notin> hashed (shapes rt)" using s(2) by (auto simp: hashed_def)
    then have "hashed (shapes rt') = hashed (shapes rt)" unfolding e hashed_upd by simp
    moreover have "hash_table_ok (hashed (shapes rt)) rt'"
    proof (rule hash_table_cong [OF rt_okD(2) [OF i]])
      fix t assume "t \<in> hashed (shapes rt)"
      then have "t \<noteq> s" using n by blast
      then show "nexts (shapes rt') t = nexts (shapes rt) t \<and> hashes (shapes rt') t = hashes (shapes rt) t" unfolding e by (simp add: nexts_def hashes_def)
    qed (simp_all add: rt'_def rt1_def set_shape_def)
    ultimately show ?thesis by simp
  qed
  moreover have "balanced rt rt'"
  proof -
    have "shapes rt s = None" "finite (dom (shapes rt))" using core_finite [OF c] s(2) by auto
    then show ?thesis unfolding balanced_def e(1) using refs_upd(1,2) [of "shapes rt" s ?sh] by (auto simp: rt'_def rt1_def set_shape_def)
  qed
  ultimately show ?thesis using s by (intro that [of s rt']) (simp_all add: rt_ok_def)
qed

text \<open>An object that leaves a shared shape for one that has been made for it.\<close>

lemma leave_shape:
  assumes i: "rt_ok (held(s' := held s' + 1)) rt" and p: "objs rt p = Some ob" "shapes rt (shape ob) = Some sh" "1 < ref_count sh" "s' \<noteq> shape ob"
    and s': "shapes rt s' = Some sh'" "prop_size sh' \<le> length (prop_values ob)"
  obtains rt' where "do { rt \<leftarrow> js_free_shape_rt (shape ob) rt; store_psh (Some p) s' rt } = Some rt'" "rt_ok held rt'" "balanced rt rt'" "contexts rt' = contexts rt"
    "shape_view (shapes rt') = shape_view (shapes rt)" "objs rt' = (objs rt)(p \<mapsto> ob\<lparr>shape := s'\<rparr>)" "released rt' = released rt"
    "strip_links (shapes rt') s' = strip_links (shapes rt) s'"
proof -
  let ?held = "held(s' := held s' + 1)"
  obtain rt1 where r: "js_free_shape_rt (shape ob) rt = Some rt1" "rt_ok (?held(shape ob := ?held (shape ob) - 1)) rt1" "objs rt1 = objs rt" "balanced rt rt1"
    "contexts rt1 = contexts rt" "\<forall>t. t \<noteq> shape ob \<or> 1 < ref_count sh \<longrightarrow> shape_view (shapes rt1) t = shape_view (shapes rt) t" "released rt1 = released rt"
    "\<forall>t. t \<noteq> shape ob \<longrightarrow> strip_links (shapes rt1) t = strip_links (shapes rt) t"
    by (rule free_shape_ok [OF i p(2) disjI1 [OF p(3)]])
  let ?rt = "set_obj p (ob\<lparr>shape := s'\<rparr>) rt1"
  have st: "strip_links (shapes rt1) s' = strip_links (shapes rt) s'" using r(8) p(4) by simp
  then obtain s1 where s1: "shapes rt1 s' = Some s1" "s1\<lparr>shape_hash_next := 0\<rparr> = sh'\<lparr>shape_hash_next := 0\<rparr>"
    using s'(1) by (auto simp: strip_links_def)
  have "prop_size s1 = prop_size sh'" using arg_cong [OF s1(2), of prop_size] by simp
  then have "core (\<lambda>t. (?held(shape ob := ?held (shape ob) - 1)) t + of_bool (t = shape ob) - of_bool (t = shape (ob\<lparr>shape := s'\<rparr>))) (shapes rt1) ((objs rt1)(p \<mapsto> ob\<lparr>shape := s'\<rparr>))"
    using core_assign [OF rt_okD(1) [OF r(2)], of p ob "ob\<lparr>shape := s'\<rparr>" s1] p(1) r(3) s1(1) s'(2) by simp
  moreover have "(\<lambda>t. (?held(shape ob := ?held (shape ob) - 1)) t + of_bool (t = shape ob) - of_bool (t = shape (ob\<lparr>shape := s'\<rparr>))) = held"
    using p(4) by auto
  ultimately have "rt_ok held ?rt" using rt_okD(2) [OF r(2)] by (simp add: rt_ok_def set_obj_def hash_table_ok_def)
  moreover have "do { rt \<leftarrow> js_free_shape_rt (shape ob) rt; store_psh (Some p) s' rt } = Some ?rt" using r(1,3) p(1) by (simp add: store_psh_def)
  moreover have "balanced rt ?rt" using r(4) by (simp add: balanced_def set_obj_def)
  moreover have "shape_view (shapes rt1) = shape_view (shapes rt)" using r(6) p(3) by auto
  ultimately show ?thesis using r(3,5,7) st by (intro that [of ?rt]) (simp_all add: set_obj_def)
qed

text \<open>The fields of a shape that belong to its table.\<close>

definition same_table :: "js_shape \<Rightarrow> js_shape \<Rightarrow> bool" where
  "same_table sh sh' =
     (prop_hash_mask sh' = prop_hash_mask sh \<and> prop_size sh' = prop_size sh \<and> deleted_prop_count sh' = deleted_prop_count sh \<and>
      hash_table sh' = hash_table sh \<and> props sh' = props sh \<and> proto sh' = proto sh)"

lemma prepare_update_ok:
  assumes i: "rt_ok held rt" and h: "\<And>s. 0 \<le> held s" and al: "fresh_alloc al" and p: "objs rt p = Some ob" "shapes rt (shape ob) = Some sh"
  obtains r rt' where "js_shape_prepare_update al p rt = Some (r, rt')" "rt_ok held rt'" "frame {} held rt rt'" "released rt' = released rt" "r = 0 \<or> r = -1"
    "r = 0 \<longrightarrow> (\<exists>s' sh'. objs rt' p = Some (ob\<lparr>shape := s'\<rparr>) \<and> shapes rt' s' = Some sh' \<and> \<not> is_hashed sh' \<and> same_table sh sh')"
    "\<forall>q. q \<noteq> p \<longrightarrow> objs rt' q = objs rt q"
    "r \<noteq> 0 \<longrightarrow> objs rt' = objs rt"
proof -
  note c = rt_okD(1) [OF i]
  consider "\<not> is_hashed sh" | "is_hashed sh" "ref_count sh = 1" | "is_hashed sh" "1 < ref_count sh"
    using coreD(3) [OF c p(2)] by linarith
  then show ?thesis
  proof cases
    case 1
    then have "js_shape_prepare_update al p rt = Some (0, rt)" using p by (simp add: js_shape_prepare_update_def)
    then show ?thesis by (rule that) (use i 1 p in \<open>auto simp: frame_refl same_table_def intro!: exI [of _ "shape ob"]\<close>)
  next
    case 2
    then have x: "shape ob \<in> hashed (shapes rt)" using p(2) by (simp add: hashed_def)
    obtain rt1 where r: "js_shape_hash_unlink (shape ob) rt = Some rt1" "hash_table_ok (hashed (shapes rt) - {shape ob}) rt1" "links_only rt rt1" "shapes rt1 (shape ob) = Some sh"
      by (rule unlink_step [OF rt_okD(2) [OF i] x p(2)])
    define rt' where "rt' = set_shape (shape ob) (sh\<lparr>is_hashed := False\<rparr>) rt1"
    have o: "objs rt1 = objs rt" "strip_links (shapes rt1) = strip_links (shapes rt)" using r(3) by (simp_all add: links_only_def)
    have c1: "core held (shapes rt1) (objs rt1)" using c relink(1) [OF o(2), of held "objs rt"] o(1) by simp
    have k: "shape_ok (sh\<lparr>is_hashed := False\<rparr>)" using coreD(1) [OF c p(2)] by (simp add: shape_ok_def table_ok_def)
    have z: "shape ob \<noteq> 0" using coreD(5) [OF c p(2)] .
    obtain sh0 where sz: "shapes rt (shape ob) = Some sh0" "prop_size sh0 \<le> length (prop_values ob)" using core_objD [OF c p(1)] by blast
    have m: "(shapes rt1)(shape ob := None, shape ob \<mapsto> sh\<lparr>is_hashed := False\<rparr>) = shapes rt'" "(objs rt1)(p \<mapsto> ob) = objs rt'"
      using o(1) p(1) by (auto simp: rt'_def set_shape_def)
    have rep: "core held (shapes rt') (objs rt')"
      using core_replace(1) [OF c1 h, of p ob sh "shape ob" "sh\<lparr>is_hashed := False\<rparr>" ob] o(1) p(1) r(4) 2(2) k z sz p(2) unfolding m by simp
    have sv: "shape_view (shapes rt') = shape_view (shapes rt)"
      using r(4) p(2) relink(3) [OF o(2)] by (auto simp: rt'_def set_shape_def shape_view_def fun_eq_iff)
    have "hashed (shapes rt') = hashed (shapes rt) - {shape ob}" using relink(2) [OF o(2)] by (simp add: rt'_def set_shape_def hashed_upd)
    then have "hash_table_ok (hashed (shapes rt')) rt'" using r(2)
      by (rule_tac hash_table_cong [of _ rt1]) (auto simp: rt'_def set_shape_def nexts_def hashes_def)
    then have "rt_ok held rt'" using rep by (simp add: rt_ok_def)
    moreover have "js_shape_prepare_update al p rt = Some (0, rt')" using p 2 r(1,4) by (simp add: js_shape_prepare_update_def rt'_def)
    moreover have "frame {} held rt rt'"
    proof -
      have "obj_view rt' = obj_view rt" using sv o(1) by (simp add: obj_view_def view_in_def rt'_def set_shape_def fun_eq_iff)
      moreover have "balanced rt rt'"
        using refs_upd(1,2) [of "shapes rt1" "shape ob" "sh\<lparr>is_hashed := False\<rparr>"] core_finite [OF c1] r(3,4) relink(4,5) [OF o(2)]
        by (simp add: balanced_def rt'_def set_shape_def links_only_def)
      ultimately show ?thesis using sv r(3) by (simp add: frame_def links_only_def rt'_def set_shape_def)
    qed
    ultimately show ?thesis
      by (rule_tac that [of 0 rt']) (use r o p in \<open>auto simp: rt'_def set_shape_def links_only_def same_table_def intro!: exI [of _ "shape ob"]\<close>)
  next
    case 3
    obtain s rt1 where r: "js_clone_shape al (shape ob) rt = Some (s, rt1)" "objs rt1 = objs rt" "contexts rt1 = contexts rt" "released rt1 = released rt" "balanced rt rt1"
      "s = 0 \<longrightarrow> rt_ok held rt1 \<and> shapes rt1 = shapes rt"
      "s \<noteq> 0 \<longrightarrow> rt_ok (held(s := 1)) rt1 \<and> s \<notin> dom (shapes rt) \<and> shapes rt1 = (shapes rt)(s \<mapsto> sh\<lparr>ref_count := 1, is_hashed := False\<rparr>)"
      by (rule clone_ok [OF i al p(2)])
    show ?thesis
    proof (cases "s = 0")
      case True
      then have "js_shape_prepare_update al p rt = Some (-1, rt1)" using p 3 r(1) by (simp add: js_shape_prepare_update_def)
      then show ?thesis by (rule that) (use r True in \<open>simp_all add: frame_def obj_view_def\<close>)
    next
      case False
      note rr = mp [OF r(7) False]
      have hs: "held s = 0" using rr core_held [OF c] by blast
      have ns: "s \<noteq> shape ob" using rr p(2) by auto
      let ?sh = "sh\<lparr>ref_count := 1, is_hashed := False\<rparr>"
      have s1: "shapes rt1 s = Some ?sh" "shapes rt1 (shape ob) = Some sh" using rr ns p(2) by auto
      have sz: "prop_size ?sh \<le> length (prop_values ob)" using core_objD [OF c p(1)] p(2) by simp
      have i1: "rt_ok (held(s := held s + 1)) rt1" using rr hs by simp
      have p1: "objs rt1 p = Some ob" using r(2) p(1) by simp
      obtain rt' where m: "do { rt \<leftarrow> js_free_shape_rt (shape ob) rt1; store_psh (Some p) s rt } = Some rt'" "rt_ok held rt'" "balanced rt1 rt'" "contexts rt' = contexts rt1"
        "shape_view (shapes rt') = shape_view (shapes rt1)" "objs rt' = (objs rt1)(p \<mapsto> ob\<lparr>shape := s\<rparr>)" "released rt' = released rt1" "strip_links (shapes rt') s = strip_links (shapes rt1) s"
        by (rule leave_shape [OF i1 p1 s1(2) 3(2) ns s1(1) sz])
      have "js_shape_prepare_update al p rt = Some (0, rt')"
        using p 3 r(1) False m(1) by (auto simp: js_shape_prepare_update_def bind_eq_Some_conv)
      moreover have "obj_view rt' q = obj_view rt q" for q
      proof -
        have v: "shape_view (shapes rt') t = (if t = s then shape_view (shapes rt) (shape ob) else shape_view (shapes rt) t)" for t
          using m(5) rr p(2) by (simp add: shape_view_def)
        have "shape oq \<noteq> s" if "objs rt q = Some oq" for oq using core_objD [OF c that] rr by auto
        then show ?thesis using v m(6) r(2) p(1) by (cases "objs rt q") (auto simp: obj_view_def view_in_def)
      qed
      moreover have "balanced rt rt'" using r(5) m(3) by (simp add: balanced_def)
      moreover have "shape_view (shapes rt') t = shape_view (shapes rt) t" if "0 < held t" for t
        using m(5) rr that hs by (auto simp: shape_view_def)
      moreover obtain sh' where "shapes rt' s = Some sh'" "sh'\<lparr>shape_hash_next := 0\<rparr> = ?sh\<lparr>shape_hash_next := 0\<rparr>"
        using m(8) s1(1) by (auto simp: strip_links_def)
      then have "shapes rt' s = Some sh' \<and> \<not> is_hashed sh' \<and> same_table sh sh'"
        by (cases sh, cases sh') (simp add: same_table_def)
      ultimately show ?thesis
        by (rule_tac that [of 0 rt']) (use m r in \<open>auto simp: frame_def\<close>)
    qed
  qed
qed

end
