(* ===== verification/ObjectProps.thy ===== *)
theory ObjectProps
  imports Shapes
begin

text \<open>
  What the operations on the properties of an object do, for every state that the invariant of \<open>Shapes\<close> allows and every answer of
  the allocator: they return, they keep the invariant, the object gets the list of properties that the operation
  stands for, and nothing else is seen to change.
\<close>

section \<open>Lists of properties\<close>

definition with_flags :: "JSAtom \<Rightarrow> 6 word \<Rightarrow> (JSAtom \<times> 6 word \<times> 'w) list \<Rightarrow> (JSAtom \<times> 6 word \<times> 'w) list" where
  "with_flags a f ps = map (\<lambda>(b, g, v). (b, if b = a then f else g, v)) ps"

definition with_value :: "JSAtom \<Rightarrow> 'w \<Rightarrow> (JSAtom \<times> 6 word \<times> 'w) list \<Rightarrow> (JSAtom \<times> 6 word \<times> 'w) list" where
  "with_value a w ps = map (\<lambda>(b, g, v). (b, g, if b = a then w else v)) ps"

definition without :: "JSAtom \<Rightarrow> (JSAtom \<times> 6 word \<times> 'w) list \<Rightarrow> (JSAtom \<times> 6 word \<times> 'w) list" where
  "without a ps = filter (\<lambda>(b, g, v). b \<noteq> a) ps"

definition lookup :: "JSAtom \<Rightarrow> (JSAtom \<times> 6 word \<times> 'w) list \<Rightarrow> (6 word \<times> 'w) option" where
  "lookup a ps = map_of ps a"

lemma view_Cons [simp]: "view ((a, f) # ks) (v # vs) = (if a = JS_ATOM_NULL then view ks vs else (a, f, v) # view ks vs)"
  by (simp add: view_def)

lemma view_Nil [simp]: "view [] vs = []" "view ks [] = []"
  by (simp_all add: view_def)

lemma view_atoms: "(b, g, v) \<in> set (view ks vs) \<Longrightarrow> b \<in> fst ` set ks \<and> b \<noteq> JS_ATOM_NULL"
proof (induction ks arbitrary: vs)
  case (Cons k ks)
  then show ?case by (cases k; cases vs) (auto split: if_splits)
qed simp

text \<open>Changing the entry of one atom.\<close>

lemma view_change:
  "i < length ks \<Longrightarrow> i < length vs \<Longrightarrow> fst (ks ! i) = a \<Longrightarrow> a \<noteq> JS_ATOM_NULL \<Longrightarrow> (\<And>j. j < length ks \<Longrightarrow> fst (ks ! j) = a \<Longrightarrow> j = i) \<Longrightarrow>
    view (ks[i := (a, f)]) vs = with_flags a f (view ks vs) \<and> view (ks[i := (JS_ATOM_NULL, 0)]) (vs[i := w]) = without a (view ks vs) \<and>
    view ks (vs[i := w]) = with_value a w (view ks vs) \<and> lookup a (view ks vs) = Some (snd (ks ! i), vs ! i)"
proof (induction ks arbitrary: vs i)
  case (Cons k ks)
  obtain v vs' where vs: "vs = v # vs'" using Cons.prems(2) by (cases vs) auto
  obtain b g where k: "k = (b, g)" by force
  show ?case
  proof (cases i)
    case 0
    then have ka: "b = a" using Cons.prems(3) k by simp
    have "a \<notin> fst ` set ks" using Cons.prems(5) 0 by (fastforce simp: in_set_conv_nth)
    then have n: False if "(a, h, u) \<in> set (view ks us)" for h u and us :: "'a list" using view_atoms [OF that] by auto
    have "with_flags a f (view ks vs') = view ks vs'" "with_value a w (view ks vs') = view ks vs'"
      unfolding with_flags_def with_value_def by (rule map_idI, auto dest: n)+
    moreover have "without a (view ks vs') = view ks vs'" unfolding without_def by (auto simp: filter_id_conv dest: n)
    ultimately show ?thesis using 0 vs k ka Cons.prems(4) by (simp add: with_flags_def with_value_def without_def lookup_def)
  next
    case (Suc j)
    have ba: "b \<noteq> a" using Cons.prems(5) [of 0] Suc k by auto
    have l: "l < length ks \<Longrightarrow> fst (ks ! l) = a \<Longrightarrow> l = j" for l using Cons.prems(5) [of "Suc l"] Suc by simp
    have "view (ks[j := (a, f)]) vs' = with_flags a f (view ks vs') \<and> view (ks[j := (JS_ATOM_NULL, 0)]) (vs'[j := w]) = without a (view ks vs') \<and>
      view ks (vs'[j := w]) = with_value a w (view ks vs') \<and> lookup a (view ks vs') = Some (snd (ks ! j), vs' ! j)"
      by (rule Cons.IH [OF _ _ _ _ l]) (use Cons.prems(1-4) Suc vs in simp_all)
    then show ?thesis using Suc vs k ba by (simp add: with_flags_def with_value_def without_def lookup_def)
  qed
next
  case Nil
  from Nil(1) have False by simp
  then show ?case ..
qed

lemma lookup_None: "a \<noteq> JS_ATOM_NULL \<Longrightarrow> length ks \<le> length vs \<Longrightarrow> lookup a (view ks vs) = None \<longleftrightarrow> a \<notin> fst ` set ks"
proof (induction ks arbitrary: vs)
  case (Cons k ks)
  then obtain v vs' where "vs = v # vs'" by (cases vs) auto
  then show ?case using Cons by (cases k) (auto simp: lookup_def)
qed (simp add: lookup_def)

section \<open>Shapes with a changed table\<close>

lemma append_ext [simp]:
  "ref_count (append_property a f sh) = ref_count sh" "is_hashed (append_property a f sh) = is_hashed sh" "hash (append_property a f sh) = hash sh"
  "shape_hash_next (append_property a f sh) = shape_hash_next sh" "proto (append_property a f sh) = proto sh" "prop_size (append_property a f sh) = prop_size sh"
  by (simp_all add: append_property_def Let_def)

lemma unlink_ext [simp]:
  "ref_count (unlink_entry a l i sh) = ref_count sh" "is_hashed (unlink_entry a l i sh) = is_hashed sh" "hash (unlink_entry a l i sh) = hash sh"
  "shape_hash_next (unlink_entry a l i sh) = shape_hash_next sh" "proto (unlink_entry a l i sh) = proto sh"
  by (cases l; simp add: unlink_entry_def Let_def)+

lemma resize_ext [simp]:
  "ref_count (resize_table n sh) = ref_count sh" "is_hashed (resize_table n sh) = is_hashed sh" "hash (resize_table n sh) = hash sh"
  "shape_hash_next (resize_table n sh) = shape_hash_next sh" "proto (resize_table n sh) = proto sh"
  by (auto simp: resize_table_def Let_def split: prod.splits)

lemma compact_ext:
  assumes "compact_table sh vs = (sh', vs')"
  shows "ref_count sh' = ref_count sh" "is_hashed sh' = is_hashed sh" "proto sh' = proto sh"
  using assms by (auto simp: compact_table_def Let_def split: prod.splits)

lemma set_flags_ok:
  fixes sh :: js_shape and f :: "6 word"
  assumes ok: "table_ok sh" and i: "i < prop_count sh"
  defines "sh' \<equiv> sh\<lparr>props := (props sh)[i := (props sh ! i)\<lparr>flags := f\<rparr>]\<rparr>"
  shows "table_ok sh'" "keys (props sh') = (keys (props sh))[i := (atom (props sh ! i), f)]"
proof -
  have n: "atom (props sh' ! j) = atom (props sh ! j)" "hash_next (props sh' ! j) = hash_next (props sh ! j)" "length (props sh') = length (props sh)" for j
    using i by (auto simp: sh'_def nth_list_update)
  have "bucket (props sh') m b = bucket (props sh) m b" for m b by (simp add: bucket_def n)
  moreover have "entry_links (props sh') h is = entry_links (props sh) h is" for h "is" by (rule links_cong) (simp_all add: n)
  ultimately have "chains (props sh') m ht = chains (props sh) m ht" for m ht by (simp add: chains_def)
  moreover have "unique (props sh') = unique (props sh)" by (simp add: unique_def n)
  moreover have "length (filter (\<lambda>pr. \<not> live pr) (props sh')) = length (filter (\<lambda>pr. \<not> live pr) (props sh))"
    unfolding length_filter_conv_card by (simp add: n)
  ultimately show "table_ok sh'" using ok by (simp add: table_ok_def n sh'_def)
  show "keys (props sh') = (keys (props sh))[i := (atom (props sh ! i), f)]" by (simp add: sh'_def keys_def map_update)
qed

section \<open>An object with a shape of its own\<close>

text \<open>A step in which such an object gets new values and a new table, in the old place or in another one.\<close>

lemma own_replace:
  assumes i: "rt_ok held rt" and h: "\<And>s. 0 \<le> held s" and p: "objs rt p = Some ob" "shapes rt (shape ob) = Some sh" "\<not> is_hashed sh"
    and s': "s' = shape ob \<or> s' \<notin> dom (shapes rt)" "s' \<noteq> 0" and sh': "table_ok sh'" "\<not> is_hashed sh'" "ref_count sh' = 1"
    and ob': "shape ob' = s'" "prop_size sh' \<le> length (prop_values ob')"
    and rt': "shapes rt' = (shapes rt)(shape ob := None, s' \<mapsto> sh')" "objs rt' = (objs rt)(p \<mapsto> ob')" "shape_hash_table rt' = shape_hash_table rt"
      "shape_hash_bits rt' = shape_hash_bits rt" "shape_hash_count rt' = shape_hash_count rt" "contexts rt' = contexts rt"
    and bal: "\<And>a. \<not> JS_AtomIsConst a \<Longrightarrow> atom_rc rt' a - int (count_list (map atom (props sh')) a) = atom_rc rt a - int (count_list (map atom (props sh)) a)"
      "\<And>o'. obj_rc rt' o' - of_bool (proto sh' = o' \<and> o' \<noteq> 0) = obj_rc rt o' - of_bool (proto sh = o' \<and> o' \<noteq> 0)"
  shows "rt_ok held rt'" "frame {p} held rt rt'" "obj_view rt' p = Some (proto sh', view (keys (props sh')) (prop_values ob'))"
proof -
  note c = rt_okD(1) [OF i]
  have rc: "ref_count sh = 1" using coreD(4) [OF c p(2,3)] .
  have ok: "shape_ok sh'" using sh'(1,2) by (simp add: shape_ok_def)
  note rep = core_replace [OF c h p(1,2) rc s' ok sh'(3) ob']
  have n: "shape ob \<notin> hashed (shapes rt)" "s' \<notin> hashed (shapes rt)" using p(2,3) s' by (auto simp: hashed_def)
  then have "hashed (shapes rt') = hashed (shapes rt)" using sh'(2) unfolding rt'(1) hashed_upd by auto
  moreover have "hash_table_ok (hashed (shapes rt)) rt'"
  proof (rule hash_table_cong [OF rt_okD(2) [OF i]])
    fix t assume "t \<in> hashed (shapes rt)"
    then have "t \<noteq> shape ob" "t \<noteq> s'" using n by auto
    then show "nexts (shapes rt') t = nexts (shapes rt) t \<and> hashes (shapes rt') t = hashes (shapes rt) t"
      unfolding rt'(1) by (simp add: nexts_def hashes_def)
  qed (use rt' in simp_all)
  ultimately show "rt_ok held rt'" using rep(1) rt'(1,2) by (simp add: rt_ok_def)
  have f: "finite (dom (shapes rt))" using core_finite [OF c] by simp
  have nn: "((shapes rt)(shape ob := None)) s' = None" using s'(1) by (auto simp: domIff)
  have "balanced rt rt'" unfolding balanced_def rt'(1)
  proof (intro conjI allI impI)
    have f': "finite (dom ((shapes rt)(shape ob := None)))" using f by simp
    fix a assume "\<not> JS_AtomIsConst a"
    then show "atom_rc rt' a - atom_refs ((shapes rt)(shape ob := None, s' \<mapsto> sh')) a = atom_rc rt a - atom_refs (shapes rt) a"
      using refs_upd(1) [OF f', of s' sh' a] refs_upd(3) [OF f, of "shape ob" a] p(2) nn bal(1) [of a] by (simp del: fun_upd_apply)
  next
    have f': "finite (dom ((shapes rt)(shape ob := None)))" using f by simp
    fix o' show "obj_rc rt' o' - proto_refs ((shapes rt)(shape ob := None, s' \<mapsto> sh')) o' = obj_rc rt o' - proto_refs (shapes rt) o'"
      using refs_upd(2) [OF f', of s' sh' o'] refs_upd(4) [OF f, of "shape ob" o'] p(2) nn bal(2) [of o'] by (simp del: fun_upd_apply)
  qed
  then show "frame {p} held rt rt'" using rep(2,3) rt'(1,2,6) by (simp add: frame_def obj_view_def)
  show "obj_view rt' p = Some (proto sh', view (keys (props sh')) (prop_values ob'))"
    using rt'(1,2) ob'(1) by (simp add: obj_view_def view_in_def shape_view_def)
qed

lemma view_entry:
  assumes ok: "table_ok sh" and a: "a \<noteq> JS_ATOM_NULL" and i: "index_of (props sh) a = Some i" and n: "prop_count sh \<le> length vs"
  shows "view ((keys (props sh))[i := (a, f)]) vs = with_flags a f (view (keys (props sh)) vs)"
    "view (cleared i (props sh)) (vs[i := w]) = without a (view (keys (props sh)) vs)"
    "view (keys (props sh)) (vs[i := w]) = with_value a w (view (keys (props sh)) vs)"
    "lookup a (view (keys (props sh)) vs) = Some (flags (props sh ! i), vs ! i)"
proof -
  note il = index_of_Some [OF i]
  have u: "j = i" if "j < length (keys (props sh))" "fst (keys (props sh) ! j) = a" for j
    using ok that il a unfolding table_ok_def unique_def by (simp add: keys_def)
  have k: "i < length (keys (props sh))" "i < length vs" "fst (keys (props sh) ! i) = a" using il n by (auto simp: keys_def)
  note v = view_change [OF k a u]
  show "view ((keys (props sh))[i := (a, f)]) vs = with_flags a f (view (keys (props sh)) vs)"
    "view (cleared i (props sh)) (vs[i := w]) = without a (view (keys (props sh)) vs)"
    "view (keys (props sh)) (vs[i := w]) = with_value a w (view (keys (props sh)) vs)"
    using v unfolding cleared_def by blast+
  show "lookup a (view (keys (props sh)) vs) = Some (flags (props sh ! i), vs ! i)"
    using v il by (simp add: keys_def)
qed

lemma lookup_index:
  assumes "table_ok sh" "a \<noteq> JS_ATOM_NULL" "prop_count sh \<le> length vs"
  shows "lookup a (view (keys (props sh)) vs) = None \<longleftrightarrow> index_of (props sh) a = None"
proof -
  have "a \<notin> fst ` set (keys (props sh)) \<longleftrightarrow> index_of (props sh) a = None" unfolding index_of_None keys_def
    by (auto simp: in_set_conv_nth image_iff) (metis nth_mem)
  then show ?thesis using lookup_None [OF assms(2), of "keys (props sh)" vs] assms(3) by simp
qed

text \<open>An object of a runtime that satisfies the invariant.\<close>

lemma objE:
  assumes "rt_ok held rt" "objs rt p = Some ob"
  obtains sh where "shapes rt (shape ob) = Some sh" "table_ok sh" "prop_count sh \<le> prop_size sh" "prop_size sh \<le> length (prop_values ob)"
    "obj_view rt p = Some (proto sh, view (keys (props sh)) (prop_values ob))" "shape ob \<noteq> 0"
proof -
  note c = rt_okD(1) [OF assms(1)]
  obtain sh where sh: "shapes rt (shape ob) = Some sh" "prop_size sh \<le> length (prop_values ob)" by (rule core_obj [OF c assms(2)])
  show ?thesis
    by (rule that [OF sh(1) _ _ sh(2)]) (use coreD(1,5) [OF c sh(1)] assms(2) sh(1) in \<open>auto simp: shape_ok_def table_ok_def obj_view_def view_in_def shape_view_def\<close>)
qed

section \<open>Changing flags and values\<close>

lemma set_value_ok:
  assumes i: "rt_ok held rt" and p: "objs rt p = Some ob" "shapes rt (shape ob) = Some sh" and a: "a \<noteq> JS_ATOM_NULL" "index_of (props sh) a = Some k"
    and v: "obj_view rt p = Some (pr, ps)"
  obtains rt' where "set_property_value p k x rt = Some rt'" "rt_ok held rt'" "frame {p} held rt rt'" "obj_view rt' p = Some (pr, with_value a (Some x) ps)"
proof -
  obtain sh1 where sh1: "shapes rt (shape ob) = Some sh1" "table_ok sh1" "prop_count sh1 \<le> prop_size sh1" "prop_size sh1 \<le> length (prop_values ob)"
    "obj_view rt p = Some (proto sh1, view (keys (props sh1)) (prop_values ob))" "shape ob \<noteq> 0" by (rule objE [OF i p(1)])
  then have eq: "sh1 = sh" "pr = proto sh" "ps = view (keys (props sh)) (prop_values ob)" using p(2) v by auto
  have k: "k < length (prop_values ob)" using index_of_Some [OF a(2)] sh1(3,4) eq(1) by simp
  define ob' where "ob' = ob\<lparr>prop_values := (prop_values ob)[k := Some x]\<rparr>"
  define rt' where "rt' = set_obj p ob' rt"
  have "core (\<lambda>t. held t + of_bool (t = shape ob) - of_bool (t = shape ob')) (shapes rt) ((objs rt)(p \<mapsto> ob'))"
    by (rule core_assign [OF rt_okD(1) [OF i] p(1), of ob' sh]) (use p(2) sh1(4) eq(1) in \<open>simp_all add: ob'_def\<close>)
  then have "core held (shapes rt) ((objs rt)(p \<mapsto> ob'))" by (simp add: ob'_def)
  then have "rt_ok held rt'" using rt_okD(2) [OF i] by (simp add: rt_ok_def rt'_def set_obj_def hash_table_ok_def)
  moreover have "frame {p} held rt rt'" by (simp add: frame_def balanced_def obj_view_def view_in_def rt'_def set_obj_def)
  moreover have "obj_view rt' p = Some (pr, with_value a (Some x) ps)"
    using view_entry(3) [of sh a k "prop_values ob" "Some x"] sh1(2-4) a p(2) eq by (simp add: obj_view_def view_in_def shape_view_def rt'_def set_obj_def ob'_def)
  moreover have "set_property_value p k x rt = Some rt'" using p(1) k by (simp add: set_property_value_def rt'_def ob'_def)
  ultimately show ?thesis by (rule_tac that [of rt'])
qed

lemma frame_views: "frame {} held rt rt' \<Longrightarrow> obj_view rt' q = obj_view rt q"
  by (simp add: frame_def)

lemma same_table_ok: "same_table sh sh' \<Longrightarrow> table_ok sh' = table_ok sh"
  by (simp add: same_table_def table_ok_def)

lemma update_flags_ok:
  assumes i: "rt_ok held rt" and h: "\<And>s. 0 \<le> held s" and al: "fresh_alloc al" and p: "objs rt p = Some ob" "shapes rt (shape ob) = Some sh"
    and a: "a \<noteq> JS_ATOM_NULL" "index_of (props sh) a = Some k" and v: "obj_view rt p = Some (pr, ps)"
  obtains r rt' where "js_update_property_flags al p k f rt = Some (r, rt')" "rt_ok held rt'" "frame {p} held rt rt'" "r = 0 \<or> r = -1"
    "obj_view rt' p = Some (pr, if r = 0 then with_flags a f ps else ps)"
proof -
  obtain sh1 where sh1: "shapes rt (shape ob) = Some sh1" "table_ok sh1" "prop_count sh1 \<le> prop_size sh1" "prop_size sh1 \<le> length (prop_values ob)"
    "obj_view rt p = Some (proto sh1, view (keys (props sh1)) (prop_values ob))" "shape ob \<noteq> 0" by (rule objE [OF i p(1)])
  then have eq: "sh1 = sh" "pr = proto sh" "ps = view (keys (props sh)) (prop_values ob)" using p(2) v by auto
  have k: "k < prop_count sh" "atom (props sh ! k) = a" using index_of_Some [OF a(2)] by auto
  have ve: "view ((keys (props sh))[k := (a, f)]) (prop_values ob) = with_flags a f ps"
    using view_entry(1) [of sh a k "prop_values ob" f] sh1(2-4) a eq by simp
  show ?thesis
  proof (cases "f = flags (props sh ! k)")
    case True
    then have "js_update_property_flags al p k f rt = Some (0, rt)" using p k by (simp add: js_update_property_flags_def)
    moreover have "(keys (props sh))[k := (a, f)] = keys (props sh)" using True k by (simp add: keys_def list_update_same_conv)
    then have "with_flags a f ps = ps" using ve eq by simp
    ultimately show ?thesis by (rule_tac that [of 0 rt]) (use i v in \<open>simp_all add: frame_refl\<close>)
  next
    case False
    obtain r rt1 where r: "js_shape_prepare_update al p rt = Some (r, rt1)" "rt_ok held rt1" "frame {} held rt rt1" "released rt1 = released rt" "r = 0 \<or> r = -1"
      "r = 0 \<longrightarrow> (\<exists>s' sh'. objs rt1 p = Some (ob\<lparr>shape := s'\<rparr>) \<and> shapes rt1 s' = Some sh' \<and> \<not> is_hashed sh' \<and> same_table sh sh')"
      "\<forall>q. q \<noteq> p \<longrightarrow> objs rt1 q = objs rt q" "r \<noteq> 0 \<longrightarrow> objs rt1 = objs rt"
      by (rule prepare_update_ok [OF i h al p])
    show ?thesis
    proof (cases "r = 0")
      case True
      with r(6) obtain s' sh' where s: "objs rt1 p = Some (ob\<lparr>shape := s'\<rparr>)" "shapes rt1 s' = Some sh'" "\<not> is_hashed sh'" "same_table sh sh'" by blast
      define sh2 where "sh2 = sh'\<lparr>props := (props sh')[k := (props sh' ! k)\<lparr>flags := f\<rparr>]\<rparr>"
      define rt2 where "rt2 = set_shape s' sh2 rt1"
      have t: "table_ok sh'" "props sh' = props sh" "proto sh' = proto sh" "prop_size sh' = prop_size sh"
        using same_table_ok [OF s(4)] s(4) sh1(2) eq(1) by (simp_all add: same_table_def)
      have k2: "table_ok sh2" "keys (props sh2) = (keys (props sh))[k := (a, f)]"
        using set_flags_ok [OF t(1), of k f] k t(2) by (simp_all add: sh2_def)
      have z: "s' \<noteq> 0" and rc: "ref_count sh' = 1" using coreD(4,5) [OF rt_okD(1) [OF r(2)] s(2)] s(3) by auto
      have value_at: "map atom (props sh2) = map atom (props sh')" using k t(2) by (simp add: sh2_def map_update list_update_same_conv)
      have "rt_ok held rt2 \<and> frame {p} held rt1 rt2 \<and> obj_view rt2 p = Some (proto sh2, view (keys (props sh2)) (prop_values (ob\<lparr>shape := s'\<rparr>)))"
        by (intro conjI; rule own_replace [OF r(2) h s(1), of sh' s' sh2 "ob\<lparr>shape := s'\<rparr>" rt2])
          (use s z rc k2 sh1(4) eq(1) t value_at fun_upd_idem [of "objs rt1", OF s(1)] in \<open>simp_all add: rt2_def set_shape_def sh2_def\<close>)
      moreover have "js_update_property_flags al p k f rt = Some (0, rt2)"
        using p k False r(1) True s by (simp add: js_update_property_flags_def rt2_def sh2_def)
      moreover have "frame {p} held rt rt1" using frame_mono [OF r(3)] by simp
      ultimately show ?thesis using frame_trans k2(2) ve t(3) eq(2) by (rule_tac that [of 0 rt2]) (auto simp: sh2_def)
    next
      case False
      then have "js_update_property_flags al p k f rt = Some (-1, rt1)" using p k \<open>f \<noteq> _\<close> r(1,5) by (simp add: js_update_property_flags_def)
      then show ?thesis by (rule that) (use r v frame_mono [OF r(3)] frame_views [OF r(3)] in simp_all)
    qed
  qed
qed

section \<open>Compacting and deleting\<close>

lemma count_live: "\<not> JS_AtomIsConst a \<Longrightarrow> count_list (map fst (live_keys ks)) a = count_list (map fst ks) a"
proof (induction ks)
  case (Cons k ks)
  have "a \<noteq> JS_ATOM_NULL" using Cons.prems by (auto simp: JS_AtomIsConst_def JS_ATOM_NULL_def JS_ATOM_END_def)
  then show ?case using Cons by (cases k) (auto simp: live_keys_def)
qed (simp add: live_keys_def)

lemma atoms_keys: "map atom ps = map fst (keys ps)"
  by (simp add: keys_def)

lemma view_live: "length ks \<le> length vs \<Longrightarrow> view ks (take (length ks) vs @ ws) = view ks vs"
  using view_take [of ks "take (length ks) vs @ ws"] view_take [of ks vs] by simp

lemma realloc_length [simp]: "length (realloc_values n vs) = n"
  by (simp add: realloc_values_def)

lemma realloc_view: "length ks \<le> n \<Longrightarrow> length ks \<le> length vs \<Longrightarrow> view ks (realloc_values n vs) = view ks vs"
  unfolding realloc_values_def using view_take [of ks "take n vs @ replicate (n - length vs) None"] view_take [of ks vs] by simp

lemma compact_step:
  assumes i: "rt_ok held rt" and h: "\<And>s. 0 \<le> held s" and al: "fresh_alloc al" and p: "objs rt p = Some ob" "shapes rt (shape ob) = Some sh"
    and own: "\<not> is_hashed sh" and d: "8 \<le> deleted_prop_count sh" and v: "obj_view rt p = Some (pr, ps)"
  obtains r rt' where "compact_properties al p rt = Some (r, rt')" "rt_ok held rt'" "frame {p} held rt rt'" "obj_view rt' p = Some (pr, ps)" "released rt' = released rt"
proof -
  obtain sh1 where sh1: "shapes rt (shape ob) = Some sh1" "table_ok sh1" "prop_count sh1 \<le> prop_size sh1" "prop_size sh1 \<le> length (prop_values ob)"
    "obj_view rt p = Some (proto sh1, view (keys (props sh1)) (prop_values ob))" "shape ob \<noteq> 0" by (rule objE [OF i p(1)])
  then have eq: "sh1 = sh" "pr = proto sh" "ps = view (keys (props sh)) (prop_values ob)" using p(2) v by auto
  have dl: "deleted_prop_count sh \<le> prop_count sh" using sh1(2) eq(1) by (simp add: table_ok_def)
  then have sz: "compact_size sh \<le> prop_size sh" using d sh1(3) eq(1) by (simp add: compact_size_def JS_PROP_INITIAL_SIZE_def)
  obtain sh' vs where ct: "compact_table sh (prop_values ob) = (sh', vs)" by force
  have n: "prop_count sh \<le> length (prop_values ob)" using sh1(3,4) eq(1) by simp
  note co = compact_ok [OF sh1(2) [unfolded eq(1)] n ct] and ext = compact_ext [OF ct]
  have len: "prop_count sh' = prop_count sh - deleted_prop_count sh"
    using arg_cong [OF co(2), of length] length_live [of "props sh"] sh1(2) eq(1) by (simp add: table_ok_def)
  show ?thesis
  proof (cases "al rt = 0")
    case True
    then have "compact_properties al p rt = Some (-1, rt\<lparr>alloc_log := al rt # alloc_log rt\<rparr>)"
      using p own sz n by (simp add: compact_properties_def js_malloc_def)
    then show ?thesis
      by (rule that) (use i v in \<open>simp_all add: frame_def balanced_def obj_view_def cong: rt_ok_cong\<close>)
  next
    case False
    define s' where "s' = al rt"
    have s': "s' \<noteq> 0" "s' \<notin> dom (shapes rt)" using False fresh_allocD [OF al] by (auto simp: s'_def)
    define rt1 where "rt1 = rt\<lparr>alloc_log := al rt # alloc_log rt, shapes := (shapes rt)(s' \<mapsto> sh'\<lparr>ref_count := 1\<rparr>, shape ob := None)\<rparr>"
    define vs' where "vs' = (if al rt1 \<noteq> 0 then realloc_values (compact_size sh) vs else vs)"
    define rt' where "rt' = set_obj p (ob\<lparr>shape := s', prop_values := vs'\<rparr>) (rt1\<lparr>alloc_log := al rt1 # alloc_log rt1\<rparr>)"
    have "compact_properties al p rt = Some (0, rt')"
      using p own sz n s'(1) ct len by (simp add: compact_properties_def js_malloc_def s'_def [symmetric] rt1_def vs'_def rt'_def Let_def)
    moreover have sn: "s' \<noteq> shape ob" using s'(2) p(2) by auto
    have vl: "compact_size sh \<le> length vs'" "view (keys (props sh')) vs' = view (keys (props sh')) vs"
    proof -
      have "compact_size sh \<le> length vs" using co(3) sz sh1(4) eq(1) by simp
      moreover have "prop_count sh' \<le> compact_size sh" using len by (simp add: compact_size_def)
      ultimately show "compact_size sh \<le> length vs'" "view (keys (props sh')) vs' = view (keys (props sh')) vs"
        using realloc_view [of "keys (props sh')" "compact_size sh" vs] by (auto simp: vs'_def)
    qed
    have value_at: "count_list (map atom (props sh')) a = count_list (map atom (props sh)) a" if "\<not> JS_AtomIsConst a" for a
      using count_live [OF that, of "keys (props sh)"] co(2) by (simp add: atoms_keys)
    have "rt_ok held rt' \<and> frame {p} held rt rt' \<and> obj_view rt' p = Some (proto (sh'\<lparr>ref_count := 1\<rparr>), view (keys (props (sh'\<lparr>ref_count := 1\<rparr>))) (prop_values (ob\<lparr>shape := s', prop_values := vs'\<rparr>)))"
      by (intro conjI; rule own_replace [OF i h p own, of s' "sh'\<lparr>ref_count := 1\<rparr>" "ob\<lparr>shape := s', prop_values := vs'\<rparr>" rt'])
        (use s' co(1,5) ext own vl(1) sn value_at in \<open>simp_all add: rt'_def rt1_def set_obj_def table_ok_def fun_upd_twist\<close>)
    moreover have "released rt' = released rt" by (simp add: rt'_def rt1_def set_obj_def)
    ultimately show ?thesis using vl(2) co(4) ext(3) eq by (rule_tac that [of 0 rt']) simp_all
  qed
qed

lemma remove_entry_ok:
  assumes i: "rt_ok held rt" and h: "\<And>s. 0 \<le> held s" and al: "fresh_alloc al" and p: "objs rt p = Some ob" "shapes rt (shape ob) = Some sh"
    and own: "\<not> is_hashed sh" and a: "a \<noteq> JS_ATOM_NULL" "index_of (props sh) a = Some k" and v: "obj_view rt p = Some (pr, ps)"
    and l: "delete_loop (props sh) a None (hash_table sh ! slot a (prop_hash_mask sh)) = Some (Some (lpr, Suc k))"
  obtains rt' where "remove_entry al undef p a lpr k rt = Some (1, rt')" "rt_ok held rt'" "frame {p} held rt rt'" "obj_view rt' p = Some (pr, without a ps)"
    "released rt' = (case prop_values ob ! k of None \<Rightarrow> released rt | Some x \<Rightarrow> x # released rt)"
proof -
  obtain sh1 where sh1: "shapes rt (shape ob) = Some sh1" "table_ok sh1" "prop_count sh1 \<le> prop_size sh1" "prop_size sh1 \<le> length (prop_values ob)"
    "obj_view rt p = Some (proto sh1, view (keys (props sh1)) (prop_values ob))" "shape ob \<noteq> 0" by (rule objE [OF i p(1)])
  then have eq: "sh1 = sh" "pr = proto sh" "ps = view (keys (props sh)) (prop_values ob)" using p(2) v by auto
  have t: "table_ok sh" using sh1(2) eq(1) by simp
  have k: "k < prop_count sh" "atom (props sh ! k) = a" using index_of_Some [OF a(2)] by auto
  have kl: "k < length (prop_values ob)" using k(1) sh1(3,4) eq(1) by simp
  define sh' where "sh' = unlink_entry a lpr k sh"
  have u: "table_ok sh'" "keys (props sh') = cleared k (props sh)" "prop_size sh' = prop_size sh"
    using unlink_entry_ok [OF t a] l by (auto simp: sh'_def)
  define ob' where "ob' = ob\<lparr>prop_values := (prop_values ob)[k := Some undef]\<rparr>"
  define rt1 where "rt1 = set_obj p ob' (set_shape (shape ob) sh' (JS_FreeAtom a (free_property_rt (prop_values ob ! k) rt)))"
  have fp: "shapes (free_property_rt w z) = shapes z" "objs (free_property_rt w z) = objs z" "shape_hash_table (free_property_rt w z) = shape_hash_table z"
    "shape_hash_bits (free_property_rt w z) = shape_hash_bits z" "shape_hash_count (free_property_rt w z) = shape_hash_count z" "contexts (free_property_rt w z) = contexts z"
    "atom_rc (free_property_rt w z) = atom_rc z" "obj_rc (free_property_rt w z) = obj_rc z" for w and z :: "'a shape_rt"
    by (cases w; simp add: free_property_rt_def)+
  have value_at: "int (count_list (map atom (props sh')) b) = int (count_list (map atom (props sh)) b) - of_bool (b = a)" if "\<not> JS_AtomIsConst b" for b
  proof -
    have bn: "b \<noteq> JS_ATOM_NULL" using that by (auto simp: JS_AtomIsConst_def JS_ATOM_NULL_def JS_ATOM_END_def)
    have "map atom (props sh') = (map atom (props sh))[k := JS_ATOM_NULL]" using u(2) by (simp add: atoms_keys cleared_def map_update)
    then have "map atom (props sh') = take k (map atom (props sh)) @ JS_ATOM_NULL # drop (Suc k) (map atom (props sh))" using k(1) by (simp add: upd_conv_take_nth_drop)
    moreover have "map atom (props sh) = take k (map atom (props sh)) @ a # drop (Suc k) (map atom (props sh))"
      using k by (metis id_take_nth_drop length_map nth_map)
    ultimately obtain xs ys where "map atom (props sh') = xs @ JS_ATOM_NULL # ys" "map atom (props sh) = xs @ a # ys" by blast
    then show ?thesis using bn by auto
  qed
  have r1: "rt_ok held rt1 \<and> frame {p} held rt rt1 \<and> obj_view rt1 p = Some (proto sh', view (keys (props sh')) (prop_values ob'))"
    by (intro conjI; rule own_replace [OF i h p own, of "shape ob" sh' ob' rt1])
      (use u own sh1(4,6) eq(1) coreD(4) [OF rt_okD(1) [OF i] p(2)] value_at in \<open>simp_all add: rt1_def set_obj_def set_shape_def fp ob'_def sh'_def\<close>)
  have v1: "obj_view rt1 p = Some (pr, without a ps)"
    using r1 view_entry(2) [OF t a, of "prop_values ob" "Some undef"] u(2) eq sh1(3,4) by (simp add: ob'_def sh'_def)
  have rel: "released rt1 = (case prop_values ob ! k of None \<Rightarrow> released rt | Some x \<Rightarrow> x # released rt)"
    by (simp add: rt1_def set_obj_def set_shape_def free_property_rt_def split: option.split)
  have p1: "objs rt1 p = Some ob'" "shapes rt1 (shape ob') = Some sh'" "\<not> is_hashed sh'"
    using own by (simp_all add: rt1_def set_obj_def set_shape_def ob'_def sh'_def)
  show ?thesis
  proof (cases "8 \<le> deleted_prop_count sh' \<and> prop_count sh' div 2 \<le> deleted_prop_count sh'")
    case True
    obtain r rt' where c: "compact_properties al p rt1 = Some (r, rt')" "rt_ok held rt'" "frame {p} held rt1 rt'" "obj_view rt' p = Some (pr, without a ps)" "released rt' = released rt1"
      by (rule compact_step [OF conjunct1 [OF r1] h al p1 conjunct1 [OF True] v1])
    have "remove_entry al undef p a lpr k rt = Some (1, rt')"
      using p k kl True c(1) by (simp add: remove_entry_def rt1_def ob'_def sh'_def Let_def)
    then show ?thesis by (rule that) (use c r1 rel in \<open>auto intro: frame_trans\<close>)
  next
    case False
    then have "remove_entry al undef p a lpr k rt = Some (1, rt1)"
      using p k kl by (auto simp: remove_entry_def rt1_def ob'_def sh'_def Let_def)
    then show ?thesis by (rule that) (use r1 v1 rel in auto)
  qed
qed

text \<open>The answer of \<open>delete_property\<close>.\<close>

definition delete_result :: "JSAtom \<Rightarrow> (JSAtom \<times> 6 word \<times> 'w) list \<Rightarrow> int \<Rightarrow> bool" where
  "delete_result a ps r =
     (case lookup a ps of
        None \<Rightarrow> r = 1
      | Some (f, v) \<Rightarrow> if f AND JS_PROP_CONFIGURABLE = 0 then r = 0 else r = 1 \<or> r = -1)"

definition deleted :: "JSAtom \<Rightarrow> int \<Rightarrow> (JSAtom \<times> 6 word \<times> 'w) list \<Rightarrow> (JSAtom \<times> 6 word \<times> 'w) list" where
  "deleted a r ps = (if r = 1 then without a ps else ps)"

lemma without_absent: "lookup a ps = None \<Longrightarrow> without a ps = ps"
  unfolding lookup_def map_of_eq_None_iff without_def filter_id_conv by force

lemma delete_ok:
  assumes i: "rt_ok held rt" and h: "\<And>s. 0 \<le> held s" and al: "fresh_alloc al" and a: "a \<noteq> JS_ATOM_NULL" and v: "obj_view rt p = Some (pr, ps)"
  obtains r rt' where "delete_property al undef p a rt = Some (r, rt')" "rt_ok held rt'" "frame {p} held rt rt'" "delete_result a ps r"
    "obj_view rt' p = Some (pr, deleted a r ps)"
    "released rt' = (case lookup a ps of Some (f, Some x) \<Rightarrow> if r = 1 then x # released rt else released rt | _ \<Rightarrow> released rt)"
proof -
  obtain ob where p: "objs rt p = Some ob" using v by (auto simp: obj_view_def view_in_def bind_eq_Some_conv)
  obtain sh where sh: "shapes rt (shape ob) = Some sh" "table_ok sh" "prop_count sh \<le> prop_size sh" "prop_size sh \<le> length (prop_values ob)"
    "obj_view rt p = Some (proto sh, view (keys (props sh)) (prop_values ob))" "shape ob \<noteq> 0" by (rule objE [OF i p])
  have eq: "pr = proto sh" "ps = view (keys (props sh)) (prop_values ob)" using sh(5) v by auto
  show ?thesis
  proof (cases "index_of (props sh) a")
    case None
    have "lookup a ps = None" using lookup_index [OF sh(2) a, of "prop_values ob"] None sh(3,4) eq(2) by simp
    moreover have "delete_property al undef p a rt = Some (1, rt)" using p sh(1) delete_none [OF sh(2) a None] by (simp add: delete_property_def)
    ultimately show ?thesis
      by (rule_tac that [of 1 rt]) (use i v in \<open>simp_all add: frame_refl delete_result_def deleted_def without_absent\<close>)
  next
    case (Some k)
    have lk: "lookup a ps = Some (flags (props sh ! k), prop_values ob ! k)" using view_entry(4) [OF sh(2) a Some, of "prop_values ob"] sh(3,4) eq(2) by simp
    obtain lpr where l: "delete_loop (props sh) a None (hash_table sh ! slot a (prop_hash_mask sh)) = Some (Some (lpr, Suc k))"
      using unlink_entry_ok [OF sh(2) a Some] by blast
    show ?thesis
    proof (cases "flags (props sh ! k) AND JS_PROP_CONFIGURABLE = 0")
      case True
      then have "delete_property al undef p a rt = Some (0, rt)" using p sh(1) l by (simp add: delete_property_def)
      then show ?thesis by (rule that) (use i v lk True in \<open>simp_all add: frame_refl delete_result_def deleted_def split: option.split\<close>)
    next
      case False
      obtain r rt1 where r: "js_shape_prepare_update al p rt = Some (r, rt1)" "rt_ok held rt1" "frame {} held rt rt1" "released rt1 = released rt" "r = 0 \<or> r = -1"
        "r = 0 \<longrightarrow> (\<exists>s' sh'. objs rt1 p = Some (ob\<lparr>shape := s'\<rparr>) \<and> shapes rt1 s' = Some sh' \<and> \<not> is_hashed sh' \<and> same_table sh sh')"
        "\<forall>q. q \<noteq> p \<longrightarrow> objs rt1 q = objs rt q" "r \<noteq> 0 \<longrightarrow> objs rt1 = objs rt"
        by (rule prepare_update_ok [OF i h al p sh(1)])
      have f1: "frame {p} held rt rt1" using frame_mono [OF r(3)] by simp
      have v1: "obj_view rt1 p = Some (pr, ps)" using frame_views [OF r(3)] v by simp
      show ?thesis
      proof (cases "r = 0")
        case True
        with r(6) obtain s' sh' where s: "objs rt1 p = Some (ob\<lparr>shape := s'\<rparr>)" "shapes rt1 s' = Some sh'" "\<not> is_hashed sh'" "same_table sh sh'" by blast
        have s2: "shapes rt1 (shape (ob\<lparr>shape := s'\<rparr>)) = Some sh'" using s(2) by simp
        have k': "index_of (props sh') a = Some k" "delete_loop (props sh') a None (hash_table sh' ! slot a (prop_hash_mask sh')) = Some (Some (lpr, Suc k))"
          using Some l s(4) by (simp_all add: same_table_def)
        obtain rt2 where d: "remove_entry al undef p a lpr k rt1 = Some (1, rt2)" "rt_ok held rt2" "frame {p} held rt1 rt2" "obj_view rt2 p = Some (pr, without a ps)"
          "released rt2 = (case prop_values (ob\<lparr>shape := s'\<rparr>) ! k of None \<Rightarrow> released rt1 | Some x \<Rightarrow> x # released rt1)"
          by (rule remove_entry_ok [OF r(2) h al s(1) s2 s(3) a k'(1) v1 k'(2)])
        have "delete_property al undef p a rt = Some (1, rt2)" using p sh(1) l False r(1) True d(1) by (simp add: delete_property_def)
        then show ?thesis
          by (rule that) (use d f1 frame_trans [OF f1 d(3)] lk False r(4) in \<open>simp_all add: delete_result_def deleted_def split: option.split\<close>)
      next
        case False
        then have "r = -1" using r(5) by simp
        then have "delete_property al undef p a rt = Some (-1, rt1)" using p sh(1) l r(1) \<open>_ AND _ \<noteq> 0\<close> by (simp add: delete_property_def)
        then show ?thesis
          by (rule that) (use r f1 v1 lk \<open>_ AND _ \<noteq> 0\<close> in \<open>simp_all add: delete_result_def deleted_def split: option.split\<close>)
      qed
    qed
  qed
qed

end
