(* ===== verification/ObjectAdd.thy ===== *)
theory ObjectAdd
  imports ObjectProps
begin

text \<open>
  Adding a property: in place when the object is the only user of its shape, by moving to an existing shape that has
  the property, or by way of a copy.
\<close>

section \<open>Room for one more property\<close>

lemma table_ext: "table_ok (sh\<lparr>ref_count := r\<rparr>) = table_ok sh" "table_ok (sh\<lparr>hash := x\<rparr>) = table_ok sh" "table_ok (sh\<lparr>shape_hash_next := n\<rparr>) = table_ok sh"
  "table_ok (sh\<lparr>is_hashed := b\<rparr>) = table_ok sh"
  by (simp_all add: table_ok_def)

definition fresh_fields :: "'v shape_rt \<Rightarrow> 'v shape_rt \<Rightarrow> bool" where
  "fresh_fields rt rt' =
     (contexts rt' = contexts rt \<and> atom_rc rt' = atom_rc rt \<and> obj_rc rt' = obj_rc rt \<and> released rt' = released rt \<and>
      shape_hash_table rt' = shape_hash_table rt \<and> shape_hash_bits rt' = shape_hash_bits rt \<and> shape_hash_count rt' = shape_hash_count rt)"

lemma room_step:
  assumes al: "fresh_alloc al" and p: "objs rt p = Some ob" "shapes rt (shape ob) = Some sh" and t: "table_ok sh" "prop_size sh \<le> length (prop_values ob)"
    and n: "prop_count sh < max_count" and rc: "ref_count sh = 1" "shape ob \<noteq> 0"
  obtains s' rt' ob' sh' where
    "(if prop_size sh \<le> prop_count sh then resize_properties al (shape ob) (Some p) (prop_count sh + 1) rt else Some (shape ob, rt)) = Some (s', rt')"
    "fresh_fields rt rt'" "objs rt' = (objs rt)(p \<mapsto> ob')" "view (keys (props sh)) (prop_values ob') = view (keys (props sh)) (prop_values ob)"
    "prop_size sh \<le> length (prop_values ob')"
    "s' = 0 \<longrightarrow> shapes rt' = shapes rt \<and> shape ob' = shape ob"
    "s' \<noteq> 0 \<longrightarrow> shape ob' = s' \<and> (s' = shape ob \<or> s' \<notin> dom (shapes rt)) \<and> shapes rt' = (shapes rt)(shape ob := None, s' \<mapsto> sh') \<and> table_ok sh' \<and>
      keys (props sh') = keys (props sh) \<and> prop_count sh' < prop_size sh' \<and> prop_size sh' \<le> length (prop_values ob') \<and> ref_count sh' = 1 \<and>
      is_hashed sh' = is_hashed sh \<and> hash sh' = hash sh \<and> proto sh' = proto sh"
proof (cases "prop_size sh \<le> prop_count sh")
  case False
  have "(if prop_size sh \<le> prop_count sh then resize_properties al (shape ob) (Some p) (prop_count sh + 1) rt else Some (shape ob, rt)) = Some (shape ob, rt)"
    using False by simp
  then show ?thesis by (rule that [where ob' = ob and sh' = sh]) (use False p t rc in \<open>auto simp: fresh_fields_def\<close>)
next
  case True
  note full = this
  have n2: "prop_size sh \<le> max_count" "prop_count sh + 1 \<le> max_count + 1" using True n by simp_all
  note rs = resize_ok [OF t(1) n2]
  define m where "m = new_prop_size (prop_count sh + 1) sh"
  have m: "prop_size sh \<le> m" "prop_count sh < m" by (simp_all add: m_def new_prop_size_def)
  define ob1 where "ob1 = ob\<lparr>prop_values := realloc_values m (prop_values ob)\<rparr>"
  have pc: "prop_count sh \<le> length (prop_values ob)" using t by (simp add: table_ok_def)
  have v1: "view (keys (props sh)) (prop_values ob1) = view (keys (props sh)) (prop_values ob)" "length (prop_values ob1) = m"
    using realloc_view [of "keys (props sh)" m "prop_values ob"] m(2) pc by (simp_all add: ob1_def)
  define rt0 where "rt0 = rt\<lparr>alloc_log := al rt # alloc_log rt\<rparr>"
  define rt1 where "rt1 = set_obj p ob1 rt0"
  define rt2 where "rt2 = rt1\<lparr>alloc_log := al rt1 # alloc_log rt1\<rparr>"
  let ?r = "if prop_size sh \<le> prop_count sh then resize_properties al (shape ob) (Some p) (prop_count sh + 1) rt else Some (shape ob, rt)"
  show ?thesis
  proof (cases "al rt = 0")
    case True
    then have "?r = Some (0, rt0)" using full p by (simp add: resize_properties_def resize_values_def js_malloc_def rt0_def m_def)
    then show ?thesis by (rule that [where ob' = ob and sh' = sh]) (use p t in \<open>auto simp: fresh_fields_def rt0_def\<close>)
  next
    case False
    show ?thesis
    proof (cases "al rt1 = 0")
      case True
      then have "?r = Some (0, rt2)" using full p False
        by (simp add: resize_properties_def resize_values_def js_malloc_def rt2_def rt1_def rt0_def ob1_def m_def)
      then show ?thesis
        by (rule that [where ob' = ob1 and sh' = sh]) (use v1 m in \<open>auto simp: fresh_fields_def rt2_def rt1_def rt0_def set_obj_def ob1_def\<close>)
    next
      case False
      define s' where "s' = al rt1"
      have s': "s' \<noteq> 0" "s' \<notin> dom (shapes rt)" "s' \<noteq> shape ob" using False fresh_allocD [OF al, of rt1] p(2) by (auto simp: s'_def rt1_def rt0_def set_obj_def)
      define sh' where "sh' = (resize_table (prop_count sh + 1) sh)\<lparr>ref_count := 1\<rparr>"
      define rt3 where "rt3 = set_obj p (ob1\<lparr>shape := s'\<rparr>) (rt2\<lparr>shapes := (shapes rt)(s' \<mapsto> sh', shape ob := None)\<rparr>)"
      have e: "?r = Some (s', rt3)" using full p \<open>al rt \<noteq> 0\<close> s'(1)
        by (simp add: resize_properties_def resize_values_def js_malloc_def s'_def rt3_def rt2_def rt1_def rt0_def ob1_def sh'_def m_def store_psh_def set_obj_def Let_def)
      have k: "keys (props sh') = keys (props sh)" using rs(2) by (simp add: sh'_def)
      have k': "prop_count sh' = prop_count sh" using k by (metis keys_simps(4))
      have x: "prop_size sh' = m" "table_ok sh'" "ref_count sh' = 1" "is_hashed sh' = is_hashed sh" "hash sh' = hash sh" "proto sh' = proto sh"
        using rs(1,3) by (simp_all add: sh'_def m_def table_ext)
      have "shapes rt3 = (shapes rt)(shape ob := None, s' \<mapsto> sh')" using s'(3) by (simp add: rt3_def set_obj_def fun_upd_twist)
      then show ?thesis
        by (rule_tac that [OF e, where ob' = "ob1\<lparr>shape := s'\<rparr>" and sh' = sh'])
          (use s' v1 m k k' x in \<open>simp_all add: fresh_fields_def rt3_def rt2_def rt1_def rt0_def set_obj_def\<close>)
    qed
  qed
qed

section \<open>In and out of the hash table\<close>

lemma links_only_refl: "links_only rt rt"
  by (simp add: links_only_def)

lemma detach:
  assumes "hash_table_ok (hashed (shapes rt)) rt" "shapes rt s = Some sh"
  obtains rt' where "(if is_hashed sh then js_shape_hash_unlink s rt else Some rt) = Some rt'" "hash_table_ok (hashed (shapes rt) - {s}) rt'" "links_only rt rt'" "shapes rt' s = Some sh"
proof (cases "is_hashed sh")
  case True
  then have "s \<in> hashed (shapes rt)" using assms(2) by (simp add: hashed_def)
  from unlink_step [OF assms(1) this assms(2)] obtain rt' where "js_shape_hash_unlink s rt = Some rt'" "hash_table_ok (hashed (shapes rt) - {s}) rt'" "links_only rt rt'" "shapes rt' s = Some sh"
    by metis
  then show ?thesis using True by (intro that) simp_all
next
  case False
  then have "hashed (shapes rt) - {s} = hashed (shapes rt)" using assms(2) by (auto simp: hashed_def)
  then show ?thesis using False assms by (intro that [of rt]) (simp_all add: links_only_refl)
qed

lemma attach:
  assumes "hash_table_ok X rt" "s \<notin> X" "s \<noteq> 0" "shapes rt s = Some sh"
  obtains rt' x where "(if b then js_shape_hash_link s rt else Some rt) = Some rt'" "hash_table_ok (if b then insert s X else X) rt'" "links_only rt rt'"
    "shapes rt' s = Some (sh\<lparr>shape_hash_next := x\<rparr>)"
proof (cases b)
  case True
  from link_step [OF assms] obtain rt' x where "js_shape_hash_link s rt = Some rt'" "hash_table_ok (insert s X) rt'" "links_only rt rt'" "shapes rt' s = Some (sh\<lparr>shape_hash_next := x\<rparr>)"
    by metis
  then show ?thesis using True by (intro that) simp_all
next
  case False
  then show ?thesis using assms by (intro that [of rt "shape_hash_next sh"]) (simp_all add: links_only_refl)
qed

section \<open>Adding to a shape of its own\<close>

lemma content_hash_append: "hash sh = content_hash pr ks \<Longrightarrow> prop_hash sh a f = content_hash pr (ks @ [(a, f)])"
  by (simp add: content_hash_def prop_hash_def)

lemma append_next: "append_property a f (sh\<lparr>shape_hash_next := x\<rparr>) = (append_property a f sh)\<lparr>shape_hash_next := x\<rparr>"
  by (simp add: append_property_def Let_def)

lemma view_snoc:
  assumes "length ks < length vs" "a \<noteq> JS_ATOM_NULL"
  shows "view (ks @ [(a, f)]) vs = view ks vs @ [(a, f, vs ! length ks)]"
proof -
  have "vs = take (length ks) vs @ vs ! length ks # drop (Suc (length ks)) vs" using assms(1) by (rule id_take_nth_drop)
  then have "view (ks @ [(a, f)]) vs = view (ks @ [(a, f)]) (take (length ks) vs @ vs ! length ks # drop (Suc (length ks)) vs)" by (rule arg_cong)
  also have "\<dots> = view ks (take (length ks) vs) @ view [(a, f)] (vs ! length ks # drop (Suc (length ks)) vs)" using assms(1) by (intro view_append) simp
  finally show ?thesis using assms(2) by (simp add: view_take)
qed

lemma index_last:
  assumes "table_ok sh" "keys (props sh) = ks @ [(a, f)]" "a \<noteq> JS_ATOM_NULL"
  shows "index_of (props sh) a = Some (length ks)" "prop_count sh = Suc (length ks)"
proof -
  show l: "prop_count sh = Suc (length ks)" using arg_cong [OF assms(2), of length] by simp
  have "keys (props sh) ! length ks = (a, f)" using assms(2) by simp
  then have "atom (props sh ! length ks) = a" using l by (simp add: keys_def)
  then show "index_of (props sh) a = Some (length ks)" using assms(1,3) l by (intro index_ofI) (simp_all add: table_ok_def)
qed

lemma add_own_ok:
  assumes i: "rt_ok held rt" and h: "\<And>s. 0 \<le> held s" and al: "fresh_alloc al" and p: "objs rt p = Some ob" "shapes rt (shape ob) = Some sh" "ref_count sh = 1"
    and a: "a \<noteq> JS_ATOM_NULL" "index_of (props sh) a = None" and n: "prop_count sh < max_count" and v: "obj_view rt p = Some (pr, ps)"
  obtains r rt' where "add_own_property al p a f rt = Some (r, rt')" "rt_ok held rt'" "frame {p} held rt rt'" "released rt' = released rt"
    "r = None \<longrightarrow> obj_view rt' p = Some (pr, ps)"
    "r \<noteq> None \<longrightarrow> (\<exists>w ob' sh'. obj_view rt' p = Some (pr, ps @ [(a, f, w)]) \<and> objs rt' p = Some ob' \<and> shapes rt' (shape ob') = Some sh' \<and> index_of (props sh') a = r)"
proof -
  note c = rt_okD(1) [OF i]
  obtain sh1 where sh1: "shapes rt (shape ob) = Some sh1" "table_ok sh1" "prop_count sh1 \<le> prop_size sh1" "prop_size sh1 \<le> length (prop_values ob)"
    "obj_view rt p = Some (proto sh1, view (keys (props sh1)) (prop_values ob))" "shape ob \<noteq> 0" by (rule objE [OF i p(1)])
  then have eq: "sh1 = sh" "pr = proto sh" "ps = view (keys (props sh)) (prop_values ob)" using p(2) v by auto
  have t: "table_ok sh" "prop_size sh \<le> length (prop_values ob)" using sh1(2,4) eq(1) by auto
  let ?s = "shape ob" and ?X = "hashed (shapes rt) - {shape ob}"
  obtain rt1 where d: "(if is_hashed sh then js_shape_hash_unlink ?s rt else Some rt) = Some rt1" "hash_table_ok ?X rt1" "links_only rt rt1" "shapes rt1 ?s = Some sh"
    by (rule detach [OF rt_okD(2) [OF i] p(2)])
  have o1: "objs rt1 p = Some ob" "strip_links (shapes rt1) = strip_links (shapes rt)" "objs rt1 = objs rt" using d(3) p(1) by (auto simp: links_only_def)
  have c1: "core held (shapes rt1) (objs rt)" using c relink(1) [OF o1(2), of held "objs rt"] by simp
  obtain s' rt2 ob2 sh2 where
    r: "(if prop_size sh \<le> prop_count sh then resize_properties al ?s (Some p) (prop_count sh + 1) rt1 else Some (?s, rt1)) = Some (s', rt2)"
    and ff: "fresh_fields rt1 rt2" and o2: "objs rt2 = (objs rt1)(p \<mapsto> ob2)" and v2: "view (keys (props sh)) (prop_values ob2) = view (keys (props sh)) (prop_values ob)"
    and l2: "prop_size sh \<le> length (prop_values ob2)" and z2: "s' = 0 \<longrightarrow> shapes rt2 = shapes rt1 \<and> shape ob2 = ?s"
    and nz2: "s' \<noteq> 0 \<longrightarrow> shape ob2 = s' \<and> (s' = ?s \<or> s' \<notin> dom (shapes rt1)) \<and> shapes rt2 = (shapes rt1)(?s := None, s' \<mapsto> sh2) \<and> table_ok sh2 \<and>
      keys (props sh2) = keys (props sh) \<and> prop_count sh2 < prop_size sh2 \<and> prop_size sh2 \<le> length (prop_values ob2) \<and> ref_count sh2 = 1 \<and>
      is_hashed sh2 = is_hashed sh \<and> hash sh2 = hash sh \<and> proto sh2 = proto sh"
    by (rule room_step [OF al o1(1) d(4) t n p(3) sh1(6)])
  have h2: "hash_table_ok ?X rt2"
  proof (rule hash_table_cong [OF d(2)])
    fix u assume u: "u \<in> ?X"
    have "u \<in> dom (shapes rt1)" using u d(2) by (auto simp: hash_table_ok_def hash_ok_def)
    then have "shapes rt2 u = shapes rt1 u" using z2 nz2 u by (cases "s' = 0") auto
    then show "nexts (shapes rt2) u = nexts (shapes rt1) u \<and> hashes (shapes rt2) u = hashes (shapes rt1) u" by (simp add: nexts_def hashes_def)
  qed (use ff in \<open>simp_all add: fresh_fields_def\<close>)
  show ?thesis
  proof (cases "s' = 0")
    case True
    have e: "shapes rt2 = shapes rt1" "shape ob2 = ?s" using z2 True by auto
    have sX: "?s \<notin> ?X" by simp
    have s2: "shapes rt2 ?s = Some sh" using e(1) d(4) by simp
    obtain rt3 x where k: "(if is_hashed sh then js_shape_hash_link ?s rt2 else Some rt2) = Some rt3" "hash_table_ok (if is_hashed sh then insert ?s ?X else ?X) rt3"
      "links_only rt2 rt3" "shapes rt3 ?s = Some (sh\<lparr>shape_hash_next := x\<rparr>)" by (rule attach [OF h2 sX sh1(6) s2])
    have st: "strip_links (shapes rt3) = strip_links (shapes rt)" "objs rt3 = (objs rt)(p \<mapsto> ob2)" using k(3) e(1) o1 o2 by (simp_all add: links_only_def)
    have hx: "hashed (shapes rt3) = (if is_hashed sh then insert ?s ?X else ?X)" using relink(2) [OF st(1)] p(2) by (auto simp: hashed_def)
    have "core (\<lambda>t. held t + of_bool (t = shape ob) - of_bool (t = shape ob2)) (shapes rt) ((objs rt)(p \<mapsto> ob2))"
      by (rule core_assign [OF c p(1)]) (use e(2) p(2) l2 in simp_all)
    then have "core held (shapes rt3) (objs rt3)" using relink(1) [OF st(1), of held "(objs rt)(p \<mapsto> ob2)"] st(2) e(2) by simp
    then have "rt_ok held rt3" using k(2) hx by (simp add: rt_ok_def)
    moreover have ow: "obj_view rt3 q = obj_view rt q" for q
    proof -
      have "view_in (shapes rt3) (objs rt3) q = view_in (shapes rt) ((objs rt)(p \<mapsto> ob2)) q" using relink(6) [OF st(1), of "(objs rt)(p \<mapsto> ob2)"] st(2) by simp
      also have "\<dots> = view_in (shapes rt) (objs rt) q"
        using p v2 e(2) by (cases "q = p") (auto simp: view_in_def shape_view_def)
      finally show ?thesis by (simp add: obj_view_def)
    qed
    have "frame {p} held rt rt3"
      using ow relink(3-5) [OF st(1)] k(3) ff d(3) by (simp add: frame_def balanced_def links_only_def fresh_fields_def)
    moreover have "add_own_property al p a f rt = Some (None, rt3)"
      using p d(1) r True k(1) by (simp add: add_own_property_def add_shape_property_def)
    moreover have "released rt3 = released rt" using k(3) ff d(3) by (simp add: links_only_def fresh_fields_def)
    ultimately show ?thesis using v ow [of p] by (rule_tac that [of None rt3]) simp_all
  next
    case False
    then have e: "shape ob2 = s'" "s' = ?s \<or> s' \<notin> dom (shapes rt1)" "shapes rt2 = (shapes rt1)(?s := None, s' \<mapsto> sh2)" "table_ok sh2"
      "keys (props sh2) = keys (props sh)" "prop_count sh2 < prop_size sh2" "prop_size sh2 \<le> length (prop_values ob2)" "ref_count sh2 = 1"
      "is_hashed sh2 = is_hashed sh" "hash sh2 = hash sh" "proto sh2 = proto sh" using nz2 by blast+
    have pc: "prop_count sh2 = prop_count sh" using e(5) by (metis keys_simps(4))
    have ni: "index_of (props sh2) a = None"
      using a(2) keys_atom [OF e(5)] unfolding index_of_None by auto
    define sh3 where "sh3 = (if is_hashed sh then sh2\<lparr>hash := prop_hash sh a f\<rparr> else sh2)"
    define rt2' where "rt2' = set_shape s' sh3 rt2"
    have s3: "shapes rt2' s' = Some sh3" by (simp add: rt2'_def set_shape_def)
    have sX: "s' \<notin> ?X"
    proof
      assume "s' \<in> ?X"
      then have "s' \<in> dom (shapes rt)" "s' \<noteq> ?s" by (auto simp: hashed_def)
      then show False using e(2) strip_dom [OF o1(2)] by simp
    qed
    have h2': "hash_table_ok ?X rt2'"
    proof (rule hash_table_cong [OF h2])
      fix u assume "u \<in> ?X"
      then have "u \<noteq> s'" using sX by blast
      then show "nexts (shapes rt2') u = nexts (shapes rt2) u \<and> hashes (shapes rt2') u = hashes (shapes rt2) u"
        by (simp add: rt2'_def set_shape_def nexts_def hashes_def)
    qed (simp_all add: rt2'_def set_shape_def)
    obtain rt3 x where k: "(if is_hashed sh then js_shape_hash_link s' rt2' else Some rt2') = Some rt3" "hash_table_ok (if is_hashed sh then insert s' ?X else ?X) rt3"
      "links_only rt2' rt3" "shapes rt3 s' = Some (sh3\<lparr>shape_hash_next := x\<rparr>)" by (rule attach [OF h2' sX False s3])
    define shF where "shF = append_property a f sh3"
    define rt' where "rt' = set_shape s' (append_property a f (sh3\<lparr>shape_hash_next := x\<rparr>)) (JS_DupAtom a rt3)"
    have step: "add_own_property al p a f rt = Some (Some (prop_count shF - 1), rt')"
    proof -
      have "set_shape s' sh3 rt2 = rt2" if "\<not> is_hashed sh"
        using that e(3) by (simp add: sh3_def set_shape_def)
      then have l: "(if is_hashed sh2 then js_shape_hash_link s' (set_shape s' (sh2\<lparr>hash := prop_hash sh a f\<rparr>) rt2) else Some rt2) = Some rt3"
        using k(1) e(9) by (simp add: rt2'_def sh3_def split: if_splits)
      have s2: "shapes rt2 s' = Some sh2" using e(3) by simp
      have "add_shape_property al ?s (Some p) a f rt = Some (s', rt')"
        unfolding add_shape_property_def rt'_def using p(2) d(1) r False l s2 k(4) by simp
      moreover have "shapes rt' s' = Some (append_property a f (sh3\<lparr>shape_hash_next := x\<rparr>))" by (simp add: rt'_def set_shape_def)
      ultimately show ?thesis unfolding add_own_property_def using p False by (simp add: append_next shF_def)
    qed
    have lk: "shape_hash_next shF = shape_hash_next sh3" "is_hashed shF = is_hashed sh" "ref_count shF = 1" "proto shF = proto sh" "prop_size shF = prop_size sh2"
      "hash shF = (if is_hashed sh then prop_hash sh a f else hash sh)"
      using e by (simp_all add: shF_def sh3_def)
    have t3: "table_ok sh3" "props sh3 = props sh2" "prop_size sh3 = prop_size sh2" using e(4) by (simp_all add: sh3_def table_ext)
    have tF: "table_ok shF" "keys (props shF) = keys (props sh) @ [(a, f)]"
      using append_ok [of sh3 a f] t3 e(5,6) pc n a(1) ni by (simp_all add: shF_def)
    have okF: "shape_ok shF"
      using tF lk coreD(1) [OF c p(2)] content_hash_append by (auto simp: shape_ok_def)
    have shs: "strip_links (shapes rt') = strip_links ((shapes rt1)(?s := None, s' \<mapsto> shF))"
    proof -
      have "strip_links (shapes rt3) = strip_links ((shapes rt1)(?s := None, s' \<mapsto> sh3))" using k(3) e(3) by (simp add: links_only_def rt2'_def set_shape_def)
      then show ?thesis unfolding rt'_def append_next shF_def by (simp add: set_shape_def strip_upd)
    qed
    have o3: "objs rt' = (objs rt)(p \<mapsto> ob2)" using k(3) o2 o1(3) by (simp add: rt'_def rt2'_def set_shape_def links_only_def)
    have sz: "prop_size shF \<le> length (prop_values ob2)" using lk(5) e(7) by simp
    note rep = core_replace [OF c1 h p(1) d(4) p(3) e(2) False okF lk(3) e(1) sz]
    have "core held (shapes rt') (objs rt')" using rep(1) relink(1) [OF shs, of held "(objs rt)(p \<mapsto> ob2)"] o3 by simp
    moreover have "hashed (shapes rt') = (if is_hashed sh then insert s' ?X else ?X)"
      using relink(2) [OF shs] relink(2) [OF o1(2)] lk(2) sX by (auto simp: hashed_upd)
    moreover have "hash_table_ok (if is_hashed sh then insert s' ?X else ?X) rt'"
    proof (rule hash_table_cong [OF k(2)])
      fix u show "nexts (shapes rt') u = nexts (shapes rt3) u \<and> hashes (shapes rt') u = hashes (shapes rt3) u"
        using k(4) by (simp add: rt'_def set_shape_def nexts_def hashes_def)
    qed (simp_all add: rt'_def set_shape_def)
    ultimately have "rt_ok held rt'" by (simp add: rt_ok_def)
    moreover have "frame {p} held rt rt'"
    proof -
      have "obj_view rt' q = obj_view rt q" if "q \<noteq> p" for q
        using rep(2) [OF that] relink(6) [OF shs, of "(objs rt)(p \<mapsto> ob2)"] relink(6) [OF o1(2), of "objs rt"] o3 by (simp add: obj_view_def)
      moreover have "shape_view (shapes rt') u = shape_view (shapes rt) u" if "0 < held u" for u
        using rep(3) [OF that] relink(3) [OF shs] relink(3) [OF o1(2)] by simp
      moreover have "balanced rt rt'"
      proof -
        have f1: "finite (dom (shapes rt1))" using core_finite [OF c1] by simp
        then have f2: "finite (dom ((shapes rt1)(?s := None)))" by simp
        have nn: "((shapes rt1)(?s := None)) s' = None" using e(2) by auto
        have rc: "atom_rc rt' b = atom_rc rt b + of_bool (b = a)" if "\<not> JS_AtomIsConst b" for b
          using that k(3) ff d(3) by (simp add: rt'_def rt2'_def set_shape_def links_only_def fresh_fields_def)
        have orc: "obj_rc rt' = obj_rc rt" using k(3) ff d(3) by (simp add: rt'_def rt2'_def set_shape_def links_only_def fresh_fields_def)
        have value_at: "count_list (map atom (props shF)) b = count_list (map atom (props sh)) b + of_bool (b = a)" for b
          using tF(2) by (simp add: atoms_keys)
        have "atom_refs (shapes rt') b = atom_refs (shapes rt) b + of_bool (b = a)" for b
          using refs_upd(1) [OF f2, of s' shF b] refs_upd(3) [OF f1, of ?s b] nn d(4) value_at [of b] relink(4) [OF shs] relink(4) [OF o1(2)] by (simp del: fun_upd_apply)
        moreover have "proto_refs (shapes rt') q = proto_refs (shapes rt) q" for q
          using refs_upd(2) [OF f2, of s' shF q] refs_upd(4) [OF f1, of ?s q] nn d(4) lk(4) relink(5) [OF shs] relink(5) [OF o1(2)] by (simp del: fun_upd_apply)
        ultimately show ?thesis using rc orc by (simp add: balanced_def)
      qed
      moreover have "contexts rt' = contexts rt" using k(3) ff d(3) by (simp add: rt'_def rt2'_def set_shape_def links_only_def fresh_fields_def)
      ultimately show ?thesis by (simp add: frame_def)
    qed
    moreover have "released rt' = released rt" using k(3) ff d(3) by (simp add: rt'_def rt2'_def set_shape_def links_only_def fresh_fields_def)
    moreover have "obj_view rt' p = Some (pr, ps @ [(a, f, prop_values ob2 ! prop_count sh)])"
    proof -
      have "view_in (shapes rt') (objs rt') p = view_in ((shapes rt1)(?s := None, s' \<mapsto> shF)) ((objs rt)(p \<mapsto> ob2)) p"
        using relink(6) [OF shs, of "(objs rt)(p \<mapsto> ob2)"] o3 by simp
      also have "\<dots> = Some (proto sh, view (keys (props sh) @ [(a, f)]) (prop_values ob2))"
        using e(1) lk(4) tF(2) by (simp add: view_in_def shape_view_def)
      also have "view (keys (props sh) @ [(a, f)]) (prop_values ob2) = ps @ [(a, f, prop_values ob2 ! prop_count sh)]"
        using view_snoc [of "keys (props sh)" "prop_values ob2" a f] e(6,7) pc v2 eq(3) a(1) by simp
      finally show ?thesis using eq(2) by (simp add: obj_view_def)
    qed
    moreover have "objs rt' p = Some ob2" "shapes rt' (shape ob2) = Some (append_property a f (sh3\<lparr>shape_hash_next := x\<rparr>))"
      using o3 e(1) by (simp_all add: rt'_def set_shape_def)
    moreover have "index_of (props (append_property a f (sh3\<lparr>shape_hash_next := x\<rparr>))) a = Some (prop_count shF - 1)"
      using index_last [OF tF a(1)] by (simp add: append_next shF_def)
    ultimately show ?thesis using step by (rule_tac that [of "Some (prop_count shF - 1)" rt']) auto
  qed
qed

section \<open>Moving to a shape that has the property\<close>

lemma same_props_keys: "same_props ps qs \<Longrightarrow> keys ps = keys (take (length ps) qs)"
  by (induction ps qs rule: same_props.induct) auto

lemma matches_keys:
  assumes "shape_matches sh a f sh1"
  shows "keys (props sh1) = keys (props sh) @ [(a, f)]" "proto sh1 = proto sh"
proof -
  let ?n = "prop_count sh"
  have m: "prop_count sh1 = ?n + 1" "same_props (props sh) (props sh1)" "atom (props sh1 ! ?n) = a" "flags (props sh1 ! ?n) = f"
    using assms by (simp_all add: shape_matches_def)
  have "props sh1 = take ?n (props sh1) @ [props sh1 ! ?n]" using m(1) by (metis Suc_eq_plus1 lessI order_refl take_Suc_conv_app_nth take_all)
  then have "keys (props sh1) = keys (take ?n (props sh1)) @ [(a, f)]" using m(3,4) by (metis keys_simps(1,2,3))
  then show "keys (props sh1) = keys (props sh) @ [(a, f)]" using same_props_keys [OF m(2)] by simp
  show "proto sh1 = proto sh" using assms by (simp add: shape_matches_def)
qed

lemma use_shape_ok:
  assumes i: "rt_ok held rt" and h: "\<And>s. 0 \<le> held s" and p: "objs rt p = Some ob" "shapes rt (shape ob) = Some sh"
    and new: "shapes rt t = Some sh1" "is_hashed sh1" "shape_matches sh a f sh1" and a: "a \<noteq> JS_ATOM_NULL" and v: "obj_view rt p = Some (pr, ps)"
  obtains r rt' where "use_shape al p t rt = Some (r, rt')" "rt_ok held rt'" "frame {p} held rt rt'" "released rt' = released rt"
    "r = None \<longrightarrow> obj_view rt' p = Some (pr, ps)"
    "r \<noteq> None \<longrightarrow> (\<exists>w ob' sh'. obj_view rt' p = Some (pr, ps @ [(a, f, w)]) \<and> objs rt' p = Some ob' \<and> shapes rt' (shape ob') = Some sh' \<and> index_of (props sh') a = r)"
proof -
  note c = rt_okD(1) [OF i] and mk = matches_keys [OF new(3)]
  obtain sh0 where sh0: "shapes rt (shape ob) = Some sh0" "table_ok sh0" "prop_count sh0 \<le> prop_size sh0" "prop_size sh0 \<le> length (prop_values ob)"
    "obj_view rt p = Some (proto sh0, view (keys (props sh0)) (prop_values ob))" "shape ob \<noteq> 0" by (rule objE [OF i p(1)])
  then have eq: "sh0 = sh" "pr = proto sh" "ps = view (keys (props sh)) (prop_values ob)" using p(2) v by auto
  have t1: "table_ok sh1" using coreD(1) [OF c new(1)] by (simp add: shape_ok_def)
  note il = index_last [OF t1 mk(1) a]
  have pc: "prop_count sh1 = Suc (prop_count sh)" using il(2) by simp
  have st: "shape ob \<noteq> t" using p(2) new(1) pc by auto
  define vs where "vs = (if prop_size sh1 \<noteq> prop_size sh then realloc_values (prop_size sh1) (prop_values ob) else prop_values ob)"
  define ob1 where "ob1 = ob\<lparr>prop_values := vs\<rparr>"
  have len: "prop_size sh1 \<le> length vs" "prop_count sh < length vs"
    using sh0(4) eq(1) t1 pc by (auto simp: vs_def table_ok_def)
  have vv: "view (keys (props sh)) vs = ps"
    using realloc_view [of "keys (props sh)" "prop_size sh1" "prop_values ob"] eq sh0(3,4) t1 pc by (auto simp: vs_def table_ok_def)
  define rtr where "rtr = (if prop_size sh1 \<noteq> prop_size sh then rt\<lparr>alloc_log := al rt # alloc_log rt\<rparr> else rt)"
  show ?thesis
  proof (cases "prop_size sh1 \<noteq> prop_size sh \<and> al rt = 0")
    case True
    then have "use_shape al p t rt = Some (None, rtr)" using p new by (simp add: use_shape_def resize_values_def js_malloc_def rtr_def)
    then show ?thesis by (rule that) (use i v in \<open>simp_all add: rtr_def frame_def balanced_def obj_view_def cong: rt_ok_cong\<close>)
  next
    case False
    let ?sh1 = "sh1\<lparr>ref_count := ref_count sh1 + 1\<rparr>"
    define rtd where "rtd = set_shape t ?sh1 rtr"
    define rta where "rta = set_obj p (ob1\<lparr>shape := t\<rparr>) rtd"
    have ir: "rt_ok held rtr" using i by (simp add: rtr_def cong: rt_ok_cong)
    have pr: "objs rtr = objs rt" "shapes rtr = shapes rt" by (simp_all add: rtr_def)
    have "0 < ref_count sh1 + 1" using coreD(3) [OF c new(1)] by simp
    then have cd: "rt_ok (held(t := held t + 1)) rtd" "frame {} held rtr rtd" "shape_view (shapes rtd) = shape_view (shapes rtr)"
      using count_ok [OF ir, of t sh1 1] new pr by (simp_all add: rtd_def)
    let ?held = "\<lambda>u. held u + of_bool (u = shape ob)"
    have td: "shapes rtd t = Some ?sh1" "objs rtd = objs rt" "shapes rtd (shape ob) = Some sh" using st pr p(2) by (simp_all add: rtd_def set_shape_def)
    have "core (\<lambda>u. (held(t := held t + 1)) u + of_bool (u = shape ob) - of_bool (u = shape (ob1\<lparr>shape := t\<rparr>))) (shapes rtd) ((objs rtd)(p \<mapsto> ob1\<lparr>shape := t\<rparr>))"
      by (rule core_assign [OF rt_okD(1) [OF cd(1)], where sh' = ?sh1]) (use td p(1) len(1) in \<open>simp_all add: ob1_def\<close>)
    moreover have "(\<lambda>u. (held(t := held t + 1)) u + of_bool (u = shape ob) - of_bool (u = shape (ob1\<lparr>shape := t\<rparr>))) = ?held" by auto
    ultimately have ia: "rt_ok ?held rta" using rt_okD(2) [OF cd(1)] by (simp add: rt_ok_def rta_def set_obj_def hash_table_ok_def)
    have sa: "shapes rta (shape ob) = Some sh" using td(3) by (simp add: rta_def set_obj_def)
    have ua: "users (objs rta) (shape ob) = users (objs rt) (shape ob) - 1"
      using users_upd [of "objs rt" p "ob1\<lparr>shape := t\<rparr>" "shape ob"] core_finite [OF c] p(1) st td(2) by (simp add: rta_def set_obj_def)
    have "users (objs rt) (shape ob) = ref_count sh - held (shape ob)" using coreD(2) [OF c p(2)] by simp
    then have u1: "1 < ref_count sh \<or> users (objs rta) (shape ob) = 0" using ua h [of "shape ob"] users_nonneg [of "objs rta" "shape ob"] by linarith
    obtain rt' where f: "js_free_shape_rt (shape ob) rta = Some rt'" "rt_ok (?held(shape ob := ?held (shape ob) - 1)) rt'" "objs rt' = objs rta" "balanced rta rt'" "contexts rt' = contexts rta"
      "\<forall>u. u \<noteq> shape ob \<or> 1 < ref_count sh \<longrightarrow> shape_view (shapes rt') u = shape_view (shapes rta) u" "released rt' = released rta"
      "\<forall>u. u \<noteq> shape ob \<longrightarrow> strip_links (shapes rt') u = strip_links (shapes rta) u"
      by (rule free_shape_ok [OF ia sa u1])
    have "?held(shape ob := ?held (shape ob) - 1) = held" by auto
    then have "rt_ok held rt'" using f(2) by simp
    moreover have "use_shape al p t rt = Some (Some (prop_count sh1 - 1), rt')"
    proof -
      have "(if prop_size sh1 \<noteq> prop_size sh then resize_values al (Some p) (prop_size sh1) rt else Some (True, rt)) = Some (True, set_obj p ob1 rtr)"
        using False p(1) by (auto simp: resize_values_def js_malloc_def rtr_def ob1_def vs_def set_obj_def fun_upd_idem)
      moreover have "js_dup_shape t (set_obj p ob1 rtr) = Some (set_obj p ob1 rtd)"
        using new(1) pr by (simp add: js_dup_shape_def rtd_def set_obj_def set_shape_def)
      moreover have "store_psh (Some p) t (set_obj p ob1 rtd) = Some rta" by (simp add: store_psh_def rta_def set_obj_def)
      ultimately show ?thesis using p new(1) f(1) by (simp add: use_shape_def)
    qed
    moreover have oth: "shape_view (shapes rt') u = shape_view (shapes rt) u" if "u \<noteq> shape ob \<or> 1 < ref_count sh" for u
      using f(6) that cd(3) pr(2) by (simp add: rta_def set_obj_def)
    have "obj_view rt' q = obj_view rt q" if q: "q \<noteq> p" for q
    proof (cases "objs rt q")
      case (Some oq)
      have "1 < ref_count sh" if "shape oq = shape ob"
      proof (rule ccontr)
        assume "\<not> 1 < ref_count sh"
        then have "ref_count sh = 1" using coreD(3) [OF c p(2)] by linarith
        then show False using sole_owner(3) [OF c h p _ Some that] q by blast
      qed
      then show ?thesis using Some q f(3) td(2) oth by (auto simp: obj_view_def view_in_def rta_def set_obj_def)
    qed (use q f(3) td(2) in \<open>simp add: obj_view_def view_in_def rta_def set_obj_def\<close>)
    moreover have "shape_view (shapes rt') u = shape_view (shapes rt) u" if "0 < held u" for u
    proof (cases "u = shape ob")
      case True
      then have "1 < ref_count sh" using coreD(2) [OF c p(2)] that users_ge [of "objs rt" p ob] core_finite [OF c] p(1) by simp
      then show ?thesis by (rule_tac oth) simp
    qed (use oth in simp)
    moreover have "balanced rt rt'"
      using f(4) cd(2) by (simp add: balanced_def frame_def rta_def set_obj_def rtr_def split: if_splits)
    moreover have "contexts rt' = contexts rt" "released rt' = released rt" using f(5,7) by (simp_all add: rta_def set_obj_def rtd_def set_shape_def rtr_def)
    moreover have "strip_links (shapes rt') t = strip_links (shapes rta) t" using f(8) st by simp
    then obtain sh' where sh': "shapes rt' t = Some sh'" "sh'\<lparr>shape_hash_next := 0\<rparr> = ?sh1\<lparr>shape_hash_next := 0\<rparr>"
      using td(1) by (auto simp: strip_links_def rta_def set_obj_def)
    have pe: "props sh' = props sh1" "proto sh' = proto sh1" using arg_cong [OF sh'(2), of props] arg_cong [OF sh'(2), of proto] by simp_all
    have o': "objs rt' p = Some (ob1\<lparr>shape := t\<rparr>)" using f(3) by (simp add: rta_def set_obj_def)
    moreover have "obj_view rt' p = Some (pr, ps @ [(a, f, vs ! prop_count sh)])"
      using o' sh'(1) pe mk eq(2) vv view_snoc [of "keys (props sh)" vs a f] len(2) a by (simp add: obj_view_def view_in_def shape_view_def ob1_def)
    moreover have "index_of (props sh') a = Some (prop_count sh1 - 1)" using pe(1) il by simp
    ultimately show ?thesis using sh'(1) by (rule_tac that [of "Some (prop_count sh1 - 1)" rt']) (auto simp: frame_def)
  qed
qed

section \<open>Adding a property\<close>

definition contexts_ok :: "'v shape_rt \<Rightarrow> bool" where
  "contexts_ok rt = list_all (\<lambda>(obj_pr, array_pr). array_pr = 0 \<or> obj_view rt array_pr \<noteq> None) (contexts rt)"

lemma contexts_frame: "contexts_ok rt \<Longrightarrow> frame P held rt rt' \<Longrightarrow> (\<And>q. q \<in> P \<Longrightarrow> obj_view rt' q \<noteq> None) \<Longrightarrow> contexts_ok rt'"
proof -
  assume x: "contexts_ok rt" "frame P held rt rt'" "\<And>q. q \<in> P \<Longrightarrow> obj_view rt' q \<noteq> None"
  have "q = 0 \<or> obj_view rt' q \<noteq> None" if "(o1, q) \<in> set (contexts rt)" for o1 q
  proof (cases "q \<in> P")
    case False
    then have "obj_view rt' q = obj_view rt q" using x(2) by (simp add: frame_def)
    then show ?thesis using x(1) that by (auto simp: contexts_ok_def list_all_iff)
  qed (use x(3) in blast)
  then show ?thesis using x(2) by (auto simp: contexts_ok_def frame_def list_all_iff)
qed

lemma flag_step:
  fixes b :: bool
  assumes i: "rt_ok held rt" and q: "objs rt q = Some ob"
  defines "rt' \<equiv> set_obj q (ob\<lparr>is_std_array_prototype := b\<rparr>) rt"
  shows "rt_ok held rt'" "frame {} held' rt rt'"
proof -
  let ?ob = "ob\<lparr>is_std_array_prototype := b\<rparr>"
  obtain sh where "shapes rt (shape ob) = Some sh" "prop_size sh \<le> length (prop_values ob)" by (rule core_obj [OF rt_okD(1) [OF i] q])
  then have "core (\<lambda>t. held t + of_bool (t = shape ob) - of_bool (t = shape ?ob)) (shapes rt) ((objs rt)(q \<mapsto> ?ob))"
    by (intro core_assign [OF rt_okD(1) [OF i] q]) simp_all
  then show "rt_ok held rt'" using rt_okD(2) [OF i] by (simp add: rt_ok_def rt'_def set_obj_def hash_table_ok_def)
  show "frame {} held' rt rt'" using q by (simp add: frame_def balanced_def obj_view_def view_in_def rt'_def set_obj_def)
qed

lemma reset_ok:
  assumes i: "rt_ok held rt" and x: "contexts_ok rt" and p: "objs rt p = Some ob"
  obtains rt' where "reset_std_array_prototype p a rt = Some rt'" "rt_ok held rt'" "frame {} held rt rt'" "released rt' = released rt" "shapes rt' = shapes rt"
proof -
  have "\<exists>rt'. reset_std_array_prototype p a rt = Some rt' \<and> rt_ok held rt' \<and> frame {} held rt rt' \<and> released rt' = released rt \<and> shapes rt' = shapes rt"
  proof (cases "List.find (\<lambda>(obj_pr, array_pr). obj_pr \<noteq> 0 \<and> obj_pr = p) (contexts rt)")
    case None
    then show ?thesis using i p flag_step [OF i p, where b = False] by (auto simp: reset_std_array_prototype_def frame_refl set_obj_def)
  next
    case (Some c)
    obtain o1 a1 where c: "c = (o1, a1)" by force
    have m: "(o1, a1) \<in> set (contexts rt)" using Some c unfolding find_Some_iff by (metis nth_mem)
    have "\<exists>oa. objs rt a1 = Some oa" if "a1 \<noteq> 0"
    proof -
      have "obj_view rt a1 \<noteq> None" using x m that unfolding contexts_ok_def list_all_iff by blast
      then show ?thesis by (auto simp: obj_view_def view_in_def split: bind_splits)
    qed
    then obtain oa where oa: "a1 \<noteq> 0 \<longrightarrow> objs rt a1 = Some oa" by blast
    then show ?thesis using i p flag_step [OF i p, where b = False] flag_step [OF i, of a1 oa, where b = False] Some c
      by (cases "a1 = 0") (auto simp: reset_std_array_prototype_def frame_refl set_obj_def)
  qed
  then show ?thesis using that by blast
qed

lemma core_set_hashed:
  assumes c: "core held shs obs" and s: "shs s = Some sh" "hash sh = content_hash (proto sh) (keys (props sh))"
  shows "core held (shs(s \<mapsto> sh\<lparr>is_hashed := True\<rparr>)) obs"
proof (rule coreI)
  fix t st assume t: "(shs(s \<mapsto> sh\<lparr>is_hashed := True\<rparr>)) t = Some st"
  show "shape_ok st \<and> ref_count st = held t + users obs t \<and> 0 < ref_count st \<and> (\<not> is_hashed st \<longrightarrow> ref_count st = 1)"
  proof (cases "t = s")
    case True
    then show ?thesis using t s(2) coreD(1-3) [OF c s(1)] by (auto simp: shape_ok_def table_ext)
  next
    case False
    then have st: "shs t = Some st" using t by simp
    then show ?thesis using coreD(1-4) [OF c st] by simp
  qed
next
  fix p ob assume "obs p = Some ob"
  from core_objD [OF c this] s(1) show "\<exists>sh'. (shs(s \<mapsto> sh\<lparr>is_hashed := True\<rparr>)) (shape ob) = Some sh' \<and> prop_size sh' \<le> length (prop_values ob)"
    by (cases "shape ob = s") auto
qed (use core_finite [OF c] core_held [OF c] s(1) in auto)

text \<open>An object that leaves its shape for a copy of it, which is put into the hash table.\<close>

lemma clone_for_add:
  assumes i: "rt_ok held rt" and al: "fresh_alloc al" and p: "objs rt p = Some ob" "shapes rt (shape ob) = Some sh"
    and sh: "is_hashed sh" "1 < ref_count sh" and cl: "js_clone_shape al (shape ob) rt = Some (s, rt1)" "s \<noteq> 0"
  obtains rt2 rt3 rt' sh' where "shapes rt1 s = Some sh'" "js_shape_hash_link s (set_shape s (sh'\<lparr>is_hashed := True\<rparr>) rt1) = Some rt2"
    "js_free_shape_rt (shape ob) rt2 = Some rt3" "store_psh (Some p) s rt3 = Some rt'" "rt_ok held rt'" "frame {} held rt rt'" "released rt' = released rt"
    "objs rt' p = Some (ob\<lparr>shape := s\<rparr>)" "\<exists>sh2. shapes rt' s = Some sh2 \<and> ref_count sh2 = 1 \<and> props sh2 = props sh"
proof -
  note c = rt_okD(1) [OF i]
  obtain s0 rt0 where r0: "js_clone_shape al (shape ob) rt = Some (s0, rt0)" "objs rt0 = objs rt" "contexts rt0 = contexts rt" "released rt0 = released rt" "balanced rt rt0"
    "s0 = 0 \<longrightarrow> rt_ok held rt0 \<and> shapes rt0 = shapes rt"
    "s0 \<noteq> 0 \<longrightarrow> rt_ok (held(s0 := 1)) rt0 \<and> s0 \<notin> dom (shapes rt) \<and> shapes rt0 = (shapes rt)(s0 \<mapsto> sh\<lparr>ref_count := 1, is_hashed := False\<rparr>)"
    by (rule clone_ok [OF i al p(2)])
  have r: "objs rt1 = objs rt" "contexts rt1 = contexts rt" "released rt1 = released rt" "balanced rt rt1" "rt_ok (held(s := 1)) rt1" "s \<notin> dom (shapes rt)"
    "shapes rt1 = (shapes rt)(s \<mapsto> sh\<lparr>ref_count := 1, is_hashed := False\<rparr>)" using r0 cl by auto
  let ?sh = "sh\<lparr>ref_count := 1, is_hashed := False\<rparr>"
  let ?shh = "?sh\<lparr>is_hashed := True\<rparr>"
  define rtb where "rtb = set_shape s ?shh rt1"
  have s1: "shapes rt1 s = Some ?sh" using r(7) by simp
  have n: "s \<notin> hashed (shapes rt1)" using s1 by (simp add: hashed_def)
  have "hash ?sh = content_hash (proto ?sh) (keys (props ?sh))" using coreD(1) [OF c p(2)] sh(1) by (simp add: shape_ok_def)
  then have cb: "core (held(s := 1)) (shapes rtb) (objs rtb)" using core_set_hashed [OF rt_okD(1) [OF r(5)] s1] by (simp add: rtb_def set_shape_def)
  have hb: "hash_table_ok (hashed (shapes rt1)) rtb"
  proof (rule hash_table_cong [OF rt_okD(2) [OF r(5)]])
    fix u assume "u \<in> hashed (shapes rt1)"
    then show "nexts (shapes rtb) u = nexts (shapes rt1) u \<and> hashes (shapes rtb) u = hashes (shapes rt1) u"
      using n by (auto simp: rtb_def set_shape_def nexts_def hashes_def)
  qed (simp_all add: rtb_def set_shape_def)
  have sb: "shapes rtb s = Some ?shh" by (simp add: rtb_def set_shape_def)
  obtain rt2 x where l: "js_shape_hash_link s rtb = Some rt2" "hash_table_ok (insert s (hashed (shapes rt1))) rt2" "links_only rtb rt2" "shapes rt2 s = Some (?shh\<lparr>shape_hash_next := x\<rparr>)"
    by (rule link_step [OF hb n cl(2) sb])
  have st: "strip_links (shapes rt2) = strip_links (shapes rtb)" "objs rt2 = objs rt" using l(3) r(1) by (simp_all add: links_only_def rtb_def set_shape_def)
  have "hashed (shapes rt2) = insert s (hashed (shapes rt1))" using relink(2) [OF st(1)] by (simp add: rtb_def set_shape_def hashed_upd)
  moreover have "core (held(s := 1)) (shapes rt2) (objs rt2)" using cb relink(1) [OF st(1), of "held(s := 1)" "objs rt"] st(2) r(1) by (simp add: rtb_def set_shape_def)
  moreover have hs: "held s = 0" using core_held [OF c r(6)] .
  ultimately have i2: "rt_ok (held(s := held s + 1)) rt2" using l(2) by (simp add: rt_ok_def)
  have ns: "s \<noteq> shape ob" using r(6) p(2) by auto
  have "shapes rtb (shape ob) = Some sh" using ns p(2) r(7) by (simp add: rtb_def set_shape_def)
  then obtain y where y: "shapes rt2 (shape ob) = Some (sh\<lparr>shape_hash_next := y\<rparr>)" by (rule strip_Some [OF st(1)])
  have sz: "prop_size (?shh\<lparr>shape_hash_next := x\<rparr>) \<le> length (prop_values ob)" using core_objD [OF c p(1)] p(2) by simp
  have p2: "objs rt2 p = Some ob" "1 < ref_count (sh\<lparr>shape_hash_next := y\<rparr>)" using st(2) p(1) sh(2) by simp_all
  obtain rt' where m: "do { rt \<leftarrow> js_free_shape_rt (shape ob) rt2; store_psh (Some p) s rt } = Some rt'" "rt_ok held rt'" "balanced rt2 rt'" "contexts rt' = contexts rt2"
    "shape_view (shapes rt') = shape_view (shapes rt2)" "objs rt' = (objs rt2)(p \<mapsto> ob\<lparr>shape := s\<rparr>)" "released rt' = released rt2" "strip_links (shapes rt') s = strip_links (shapes rt2) s"
    by (rule leave_shape [OF i2 p2(1) y p2(2) ns l(4) sz])
  then obtain rt3 where m1: "js_free_shape_rt (shape ob) rt2 = Some rt3" "store_psh (Some p) s rt3 = Some rt'" by (auto simp: bind_eq_Some_conv)
  have sv: "shape_view (shapes rt') u = (if u = s then shape_view (shapes rt) (shape ob) else shape_view (shapes rt) u)" for u
    using m(5) relink(3) [OF st(1)] r(7) p(2) by (simp add: rtb_def set_shape_def shape_view_def)
  have ov: "obj_view rt' q = obj_view rt q" for q
  proof -
    have "shape oq \<noteq> s" if "objs rt q = Some oq" for oq using core_objD [OF c that] r(6) by auto
    then show ?thesis using sv m(6) st(2) p(1) by (cases "objs rt q") (auto simp: obj_view_def view_in_def)
  qed
  have bal: "balanced rt rt'"
  proof -
    have "balanced rt1 rtb"
      using refs_upd(1,2) [of "shapes rt1" s ?shh] core_finite [OF rt_okD(1) [OF r(5)]] s1 by (simp add: balanced_def rtb_def set_shape_def)
    moreover have "balanced rtb rt2" using relink(4,5) [OF st(1)] l(3) by (simp add: balanced_def links_only_def)
    ultimately show ?thesis using r(4) m(3) by (simp add: balanced_def)
  qed
  have "frame {} held rt rt'" unfolding frame_def
    using ov sv hs bal m(4) l(3) r(2) by (auto simp: links_only_def rtb_def set_shape_def)
  moreover have "\<exists>sh2. shapes rt' s = Some sh2 \<and> ref_count sh2 = 1 \<and> props sh2 = props sh"
  proof -
    obtain sh2 where s2: "shapes rt' s = Some sh2" "sh2\<lparr>shape_hash_next := 0\<rparr> = ?shh\<lparr>shape_hash_next := 0\<rparr>"
      using m(8) l(4) by (auto simp: strip_links_def)
    have "ref_count sh2 = 1" "props sh2 = props sh" using arg_cong [OF s2(2), of ref_count] arg_cong [OF s2(2), of props] by simp_all
    then show ?thesis using s2(1) by simp
  qed
  moreover have "released rt' = released rt" using m(7) l(3) r(3) by (simp add: links_only_def rtb_def set_shape_def)
  ultimately show ?thesis using that [OF s1 _ m1 m(2)] l(1) m(6) by (simp add: rtb_def)
qed

lemma add_property_ok:
  assumes i: "rt_ok held rt" and x: "contexts_ok rt" and h: "\<And>s. 0 \<le> held s" and al: "fresh_alloc al" and a: "a \<noteq> JS_ATOM_NULL"
    and v: "obj_view rt p = Some (pr, ps)" and new: "lookup a ps = None" and n: "\<And>ob sh. objs rt p = Some ob \<Longrightarrow> shapes rt (shape ob) = Some sh \<Longrightarrow> prop_count sh < max_count"
  obtains r rt' where "add_property al p a f rt = Some (r, rt')" "rt_ok held rt'" "frame {p} held rt rt'" "released rt' = released rt"
    "r = None \<longrightarrow> obj_view rt' p = Some (pr, ps)"
    "r \<noteq> None \<longrightarrow> (\<exists>w ob' sh'. obj_view rt' p = Some (pr, ps @ [(a, f, w)]) \<and> objs rt' p = Some ob' \<and> shapes rt' (shape ob') = Some sh' \<and> index_of (props sh') a = r)"
proof -
  have "\<exists>ob0. objs rt p = Some ob0" using v by (auto simp: obj_view_def view_in_def bind_eq_Some_conv)
  then obtain ob0 where p0: "objs rt p = Some ob0" by blast
  obtain rt0 where r0: "reset_std_array_prototype p a rt = Some rt0" "rt_ok held rt0" "frame {} held rt rt0" "released rt0 = released rt" "shapes rt0 = shapes rt"
    by (rule reset_ok [OF i x p0])
  have v0: "obj_view rt0 p = Some (pr, ps)" using frame_views [OF r0(3)] v by simp
  then have "\<exists>ob. objs rt0 p = Some ob" by (auto simp: obj_view_def view_in_def bind_eq_Some_conv)
  then obtain ob where p: "objs rt0 p = Some ob" by blast
  obtain sh where sh: "shapes rt0 (shape ob) = Some sh" "table_ok sh" "prop_count sh \<le> prop_size sh" "prop_size sh \<le> length (prop_values ob)"
    "obj_view rt0 p = Some (proto sh, view (keys (props sh)) (prop_values ob))" "shape ob \<noteq> 0" by (rule objE [OF r0(2) p])
  have eq: "pr = proto sh" "ps = view (keys (props sh)) (prop_values ob)" using sh(5) v0 by auto
  have ni: "index_of (props sh) a = None" using lookup_index [OF sh(2) a, of "prop_values ob"] new sh(3,4) eq(2) by simp
  have f0: "frame {p} held rt rt0" using frame_mono [OF r0(3)] by simp
  have cnt: "prop_count sh < max_count"
  proof -
    have "shape ob = shape ob0" using r0(1) p0 p by (auto simp: reset_std_array_prototype_def set_obj_def bind_eq_Some_conv split: if_splits option.splits)
    then show ?thesis using n [OF p0] sh(1) r0(5) by simp
  qed
  let ?post = "\<lambda>r rt'. (r = None \<longrightarrow> obj_view rt' p = Some (pr, ps)) \<and>
    (r \<noteq> None \<longrightarrow> (\<exists>w ob' sh'. obj_view rt' p = Some (pr, ps @ [(a, f, w)]) \<and> objs rt' p = Some ob' \<and> shapes rt' (shape ob') = Some sh' \<and> index_of (props sh') a = r))"
  have "\<exists>r rt'. add_property al p a f rt = Some (r, rt') \<and> rt_ok held rt' \<and> frame {p} held rt0 rt' \<and> released rt' = released rt0 \<and> ?post r rt'"
  proof (cases "is_hashed sh")
    case False
    have "ref_count sh = 1" using coreD(4) [OF rt_okD(1) [OF r0(2)] sh(1) False] .
    from add_own_ok [OF r0(2) h al p sh(1) this a ni cnt v0, of f] obtain r rt' where w: "add_own_property al p a f rt0 = Some (r, rt')" "rt_ok held rt'"
      "frame {p} held rt0 rt'" "released rt' = released rt0" "?post r rt'" by metis
    have "add_property al p a f rt = Some (r, rt')" using r0(1) p sh(1) False w(1) by (simp add: add_property_def)
    then show ?thesis using w(2-) by blast
  next
    case True
    obtain t where fd: "find_hashed_shape_prop sh a f rt0 = Some t" and t: "t \<noteq> 0 \<Longrightarrow> t \<in> hashed (shapes rt0) \<and> shape_matches sh a f (the (shapes rt0 t))"
    proof (rule search_ok [OF rt_okD(2) [OF r0(2)], of "shape_matches sh a f" "prop_hash sh a f"])
      show "hash s1 = prop_hash sh a f" if "shape_matches sh a f s1" for s1 using that by (simp add: shape_matches_def)
    next
      fix t assume "hash_slot (shape_hash_bits rt0) (prop_hash sh a f) < shape_hash_size rt0"
        "search_chain (shapes rt0) (shape_matches sh a f) (shape_hash_table rt0 ! hash_slot (shape_hash_bits rt0) (prop_hash sh a f)) = Some t"
        "t \<noteq> 0 \<Longrightarrow> t \<in> hashed (shapes rt0) \<and> shape_matches sh a f (the (shapes rt0 t))"
      then show thesis by (intro that [of t]) (simp_all add: find_hashed_shape_prop_def Let_def)
    qed
    show ?thesis
    proof (cases "t = 0")
      case False
      from t [OF this] obtain sh1 where s1: "shapes rt0 t = Some sh1" "is_hashed sh1" "shape_matches sh a f sh1" by (auto simp: hashed_def)
      from use_shape_ok [OF r0(2) h p sh(1) s1 a v0, of al] obtain r rt' where w: "use_shape al p t rt0 = Some (r, rt')" "rt_ok held rt'"
        "frame {p} held rt0 rt'" "released rt' = released rt0" "?post r rt'" by metis
      have "add_property al p a f rt = Some (r, rt')" using r0(1) p sh(1) True fd False w(1) by (simp add: add_property_def)
      then show ?thesis using w(2-) by blast
    next
      case notfound: True
      show ?thesis
      proof (cases "ref_count sh = 1")
        case rc: True
        from add_own_ok [OF r0(2) h al p sh(1) rc a ni cnt v0, of f] obtain r rt' where w: "add_own_property al p a f rt0 = Some (r, rt')" "rt_ok held rt'"
          "frame {p} held rt0 rt'" "released rt' = released rt0" "?post r rt'" by metis
        have "add_property al p a f rt = Some (r, rt')" using r0(1) p sh(1) True fd notfound rc w(1) by (simp add: add_property_def)
        then show ?thesis using w(2-) by blast
      next
        case rc: False
        then have rc1: "1 < ref_count sh" using coreD(3) [OF rt_okD(1) [OF r0(2)] sh(1)] by linarith
        obtain s rt1 where cl: "js_clone_shape al (shape ob) rt0 = Some (s, rt1)" "objs rt1 = objs rt0" "contexts rt1 = contexts rt0" "released rt1 = released rt0" "balanced rt0 rt1"
          "s = 0 \<longrightarrow> rt_ok held rt1 \<and> shapes rt1 = shapes rt0"
          "s \<noteq> 0 \<longrightarrow> rt_ok (held(s := 1)) rt1 \<and> s \<notin> dom (shapes rt0) \<and> shapes rt1 = (shapes rt0)(s \<mapsto> sh\<lparr>ref_count := 1, is_hashed := False\<rparr>)"
          by (rule clone_ok [OF r0(2) al sh(1)])
        show ?thesis
        proof (cases "s = 0")
          case True
          then have "add_property al p a f rt = Some (None, rt1)" using r0(1) p sh(1) \<open>is_hashed sh\<close> fd notfound rc cl(1) by (simp add: add_property_def)
          moreover have "obj_view rt1 = obj_view rt0" using cl True by (simp add: obj_view_def)
          ultimately show ?thesis using cl True v0 by (auto simp: frame_def)
        next
          case nz: False
          obtain rt2 rt3 rt4 sh' where m: "shapes rt1 s = Some sh'" "js_shape_hash_link s (set_shape s (sh'\<lparr>is_hashed := True\<rparr>) rt1) = Some rt2"
            "js_free_shape_rt (shape ob) rt2 = Some rt3" "store_psh (Some p) s rt3 = Some rt4" "rt_ok held rt4" "frame {} held rt0 rt4" "released rt4 = released rt0"
            "objs rt4 p = Some (ob\<lparr>shape := s\<rparr>)" "\<exists>sh2. shapes rt4 s = Some sh2 \<and> ref_count sh2 = 1 \<and> props sh2 = props sh"
            by (rule clone_for_add [OF r0(2) al p sh(1) True rc1 cl(1) nz])
          from m(9) obtain sh2 where s2: "shapes rt4 (shape (ob\<lparr>shape := s\<rparr>)) = Some sh2" "ref_count sh2 = 1" "props sh2 = props sh" by auto
          have v4: "obj_view rt4 p = Some (pr, ps)" using frame_views [OF m(6)] v0 by simp
          have ni2: "index_of (props sh2) a = None" and cnt2: "prop_count sh2 < max_count" using s2(3) ni cnt by simp_all
          from add_own_ok [OF m(5) h al m(8) s2(1,2) a ni2 cnt2 v4, of f] obtain r rt' where w: "add_own_property al p a f rt4 = Some (r, rt')" "rt_ok held rt'"
            "frame {p} held rt4 rt'" "released rt' = released rt4" "?post r rt'" by metis
          have "add_property al p a f rt = Some (r, rt')"
            using r0(1) p sh(1) True fd notfound rc cl(1) nz m(1-4) w(1) by (simp add: add_property_def)
          moreover have "frame {p} held rt0 rt'" using frame_trans [OF frame_mono [OF m(6)] w(3)] by simp
          ultimately show ?thesis using w(2,4,5) m(7) by auto
        qed
      qed
    qed
  qed
  then obtain r rt' where w: "add_property al p a f rt = Some (r, rt')" "rt_ok held rt'" "frame {p} held rt0 rt'" "released rt' = released rt0" "?post r rt'" by blast
  show ?thesis by (rule that [OF w(1,2) frame_trans [OF f0 w(3)]]) (use w(4,5) r0(4) in simp_all)
qed

end
