(* ===== verification/ObjectLife.thy ===== *)
theory ObjectLife
  imports ObjectAdd
begin

text \<open>
  Creating objects, which share the shapes of their prototype, freeing them, and changing the prototype of an object.
\<close>

section \<open>Freeing an object\<close>

lemma view_none: "rt_ok held rt \<Longrightarrow> obj_view rt p = None \<longleftrightarrow> objs rt p = None"
proof
  assume i: "rt_ok held rt" and v: "obj_view rt p = None"
  show "objs rt p = None"
  proof (rule ccontr)
    assume "objs rt p \<noteq> None"
    then obtain ob where "objs rt p = Some ob" by blast
    from objE [OF i this] show False using v by (metis option.distinct(1))
  qed
qed (simp add: obj_view_def view_in_def)

lemma core_free_object:
  assumes c: "core held shs obs" and p: "obs p = Some ob"
  shows "core (\<lambda>t. held t + of_bool (t = shape ob)) shs (obs(p := None))"
proof (rule coreI)
  note f = core_finite [OF c]
  fix t st assume t: "shs t = Some st"
  show "shape_ok st \<and> ref_count st = held t + of_bool (t = shape ob) + users (obs(p := None)) t \<and> 0 < ref_count st \<and> (\<not> is_hashed st \<longrightarrow> ref_count st = 1)"
    using coreD(1-4) [OF c t] users_del [of obs p t] f p by auto
next
  fix q oq assume "(obs(p := None)) q = Some oq"
  then show "\<exists>sh'. shs (shape oq) = Some sh' \<and> prop_size sh' \<le> length (prop_values oq)" using core_objD [OF c, of q oq] by (cases "q = p") auto
next
  fix t assume "held t + of_bool (t = shape ob) \<noteq> 0"
  then show "t \<in> dom shs" using core_held [OF c, of t] core_objD [OF c p] by (cases "t = shape ob") auto
qed (use core_finite [OF c] in auto)

text \<open>The values of an object.\<close>

definition values_of :: "'v option list \<Rightarrow> 'v list" where
  "values_of vs = map the (filter (\<lambda>v. v \<noteq> None) vs)"

lemma fold_free_property:
  "fold free_property_rt vs rt = rt\<lparr>released := rev (values_of vs) @ released rt\<rparr>"
  by (induction vs arbitrary: rt) (auto simp: free_property_rt_def values_of_def)

lemma object_freed_ok:
  assumes i: "rt_ok held rt" and h: "\<And>s. 0 \<le> held s" and p: "objs rt p = Some ob"
  obtains rt' where "free_object_rt p rt = Some rt'" "rt_ok held rt'" "obj_view rt' = (obj_view rt)(p := None)" "balanced rt rt'" "contexts rt' = contexts rt"
    "\<forall>s. 0 < held s \<longrightarrow> shape_view (shapes rt') s = shape_view (shapes rt) s" "objs rt' = (objs rt)(p := None)"
proof -
  note c = rt_okD(1) [OF i]
  obtain sh where sh: "shapes rt (shape ob) = Some sh" "table_ok sh" "prop_count sh \<le> prop_size sh" "prop_size sh \<le> length (prop_values ob)"
    "obj_view rt p = Some (proto sh, view (keys (props sh)) (prop_values ob))" "shape ob \<noteq> 0" by (rule objE [OF i p])
  define rt1 where "rt1 = (fold free_property_rt (take (prop_count sh) (prop_values ob)) rt)\<lparr>objs := (objs rt)(p := None)\<rparr>"
  have e1: "shapes rt1 = shapes rt" "objs rt1 = (objs rt)(p := None)" "contexts rt1 = contexts rt" by (simp_all add: rt1_def fold_free_property)
  let ?held = "\<lambda>t. held t + of_bool (t = shape ob)"
  have i1: "rt_ok ?held rt1" using core_free_object [OF c p] rt_okD(2) [OF i] by (simp add: rt_ok_def rt1_def fold_free_property hash_table_ok_def)
  have s1: "shapes rt1 (shape ob) = Some sh" using e1(1) sh(1) by simp
  have "users (objs rt1) (shape ob) = ref_count sh - held (shape ob) - 1"
    using users_del [of "objs rt" p "shape ob"] core_finite [OF c] p coreD(2) [OF c sh(1)] e1(2) by simp
  then have u: "1 < ref_count sh \<or> users (objs rt1) (shape ob) = 0" using h [of "shape ob"] users_nonneg [of "objs rt1" "shape ob"] by linarith
  obtain rt' where f: "js_free_shape_rt (shape ob) rt1 = Some rt'" "rt_ok (?held(shape ob := ?held (shape ob) - 1)) rt'" "objs rt' = objs rt1" "balanced rt1 rt'" "contexts rt' = contexts rt1"
    "\<forall>t. t \<noteq> shape ob \<or> 1 < ref_count sh \<longrightarrow> shape_view (shapes rt') t = shape_view (shapes rt1) t" "released rt' = released rt1"
    "\<forall>t. t \<noteq> shape ob \<longrightarrow> strip_links (shapes rt') t = strip_links (shapes rt1) t"
    by (rule free_shape_ok [OF i1 s1 u])
  have "?held(shape ob := ?held (shape ob) - 1) = held" by auto
  then have "rt_ok held rt'" using f(2) by simp
  moreover have "free_object_rt p rt = Some rt'" using p sh f(1) by (simp add: free_object_rt_def rt1_def fold_free_property)
  moreover have "obj_view rt' = (obj_view rt)(p := None)"
  proof
    fix q show "obj_view rt' q = ((obj_view rt)(p := None)) q"
    proof (cases "q = p")
      case False
      have "1 < ref_count sh" if "objs rt q = Some oq" "shape oq = shape ob" for oq
      proof (rule ccontr)
        assume "\<not> 1 < ref_count sh"
        then have "ref_count sh = 1" using coreD(3) [OF c sh(1)] by linarith
        then show False using sole_owner(3) [OF c h p sh(1) _ that] False by blast
      qed
      then show ?thesis using False f(3,6) e1 by (cases "objs rt q") (auto simp: obj_view_def view_in_def)
    qed (use f(3) e1 in \<open>simp add: obj_view_def view_in_def\<close>)
  qed
  moreover have "balanced rt rt'" using f(4) by (simp add: balanced_def rt1_def fold_free_property)
  moreover have "shape_view (shapes rt') s = shape_view (shapes rt) s" if "0 < held s" for s
  proof (cases "s = shape ob")
    case True
    then have "1 < ref_count sh" using coreD(2) [OF c sh(1)] that users_ge [of "objs rt" p ob] core_finite [OF c] p by simp
    then show ?thesis using f(6) e1(1) by simp
  qed (use f(6) e1(1) in simp)
  ultimately show ?thesis using f(3,5) e1 by (rule_tac that [of rt']) simp_all
qed

text \<open>The collector frees existing objects, and not the prototypes the runtime uses.\<close>

definition gc_ok :: "('v shape_rt \<Rightarrow> addr list) \<Rightarrow> bool" where
  "gc_ok gc = (\<forall>rt. distinct (gc rt) \<and> set (gc rt) \<subseteq> dom (objs rt) \<and> list_all (\<lambda>(o1, a1). a1 \<notin> set (gc rt)) (contexts rt))"

lemma free_objects_ok:
  assumes h: "\<And>s. 0 \<le> held s"
  shows "rt_ok held rt \<Longrightarrow> distinct ps \<Longrightarrow> set ps \<subseteq> dom (objs rt) \<Longrightarrow>
    \<exists>rt'. free_objects ps rt = Some rt' \<and> rt_ok held rt' \<and> (\<forall>q. obj_view rt' q = (if q \<in> set ps then None else obj_view rt q)) \<and> balanced rt rt' \<and>
      contexts rt' = contexts rt \<and> (\<forall>s. 0 < held s \<longrightarrow> shape_view (shapes rt') s = shape_view (shapes rt) s)"
proof (induction ps arbitrary: rt)
  case Nil
  then show ?case by (simp add: balanced_def)
next
  case (Cons p ps)
  from Cons.prems(3) obtain ob where p: "objs rt p = Some ob" by auto
  obtain rt1 where r: "free_object_rt p rt = Some rt1" "rt_ok held rt1" "obj_view rt1 = (obj_view rt)(p := None)" "balanced rt rt1" "contexts rt1 = contexts rt"
    "\<forall>s. 0 < held s \<longrightarrow> shape_view (shapes rt1) s = shape_view (shapes rt) s" "objs rt1 = (objs rt)(p := None)" by (rule object_freed_ok [OF Cons.prems(1) h p])
  have "set ps \<subseteq> dom (objs rt1)" using Cons.prems(2,3) r(7) by auto
  with Cons.IH [OF r(2)] Cons.prems(2) obtain rt' where w: "free_objects ps rt1 = Some rt'" "rt_ok held rt'" "\<forall>q. obj_view rt' q = (if q \<in> set ps then None else obj_view rt1 q)"
    "balanced rt1 rt'" "contexts rt' = contexts rt1" "\<forall>s. 0 < held s \<longrightarrow> shape_view (shapes rt') s = shape_view (shapes rt1) s" by auto
  have "obj_view rt' q = (if q \<in> set (p # ps) then None else obj_view rt q)" for q using w(3) r(3) by auto
  moreover have "balanced rt rt'" using w(4) r(4) by (simp add: balanced_def)
  moreover have "free_objects (p # ps) rt = Some rt'" using r(1) w(1) by simp
  ultimately show ?case using w r by simp
qed

section \<open>New shapes\<close>

lemma empty_ok:
  assumes "0 < n" "n \<le> 2 ^ 28" "m \<le> 2 ^ 27"
  shows "table_ok \<lparr>prop_hash_mask = of_nat n - 1, prop_size = m, deleted_prop_count = 0, hash_table = replicate n 0, props = [], ref_count = r, is_hashed = b, hash = x, shape_hash_next = y, proto = pr\<rparr>"
proof -
  define k :: "32 word" where "k = of_nat (n - 1)"
  have e: "(of_nat n - 1 :: 32 word) = k" using assms(1) by (simp add: of_nat_diff k_def)
  have u: "unat k + 1 = n" unfolding k_def by (rule unat_mask [OF assms(1,2)])
  have c: "chains [] k (replicate n 0)" using chains_empty [of k] unfolding u .
  have "unat k < 2 ^ 28" using u assms(2) by linarith
  then show ?thesis using c assms(3) unfolding e by (simp add: table_ok_def unique_def)
qed

lemma new_shape_nohash_ok:
  assumes i: "rt_ok held rt" and al: "fresh_alloc al" and n: "0 < n" "n \<le> 2 ^ 28" "m \<le> 2 ^ 27"
  obtains s rt' where "js_new_shape_nohash al pr n m rt = (s, rt')" "objs rt' = objs rt" "contexts rt' = contexts rt" "balanced rt rt'"
    "shape_hash_bits rt' = shape_hash_bits rt" "shape_hash_count rt' = shape_hash_count rt"
    "s = 0 \<longrightarrow> rt_ok held rt' \<and> shapes rt' = shapes rt"
    "s \<noteq> 0 \<longrightarrow> rt_ok (held(s := 1)) rt' \<and> s \<notin> dom (shapes rt) \<and> (\<exists>sh. shapes rt' = (shapes rt)(s \<mapsto> sh) \<and> props sh = [] \<and> proto sh = pr \<and> \<not> is_hashed sh \<and> prop_size sh = m)"
proof (cases "al rt = 0")
  case True
  then have "js_new_shape_nohash al pr n m rt = (0, rt\<lparr>alloc_log := al rt # alloc_log rt\<rparr>)" by (simp add: js_new_shape_nohash_def js_malloc_def)
  then show ?thesis by (rule that) (use i in \<open>simp_all add: balanced_def cong: rt_ok_cong\<close>)
next
  case False
  define s where "s = al rt"
  have s: "s \<noteq> 0" "s \<notin> dom (shapes rt)" using False fresh_allocD [OF al] by (auto simp: s_def)
  note c = rt_okD(1) [OF i]
  define sh where "sh = \<lparr>prop_hash_mask = of_nat n - 1, prop_size = m, deleted_prop_count = 0, hash_table = replicate n 0, props = [], ref_count = 1, is_hashed = False, hash = 0, shape_hash_next = 0, proto = pr\<rparr>"
  define rt1 where "rt1 = rt\<lparr>alloc_log := al rt # alloc_log rt\<rparr>"
  define rt' where "rt' = set_shape s sh (if pr \<noteq> 0 then dup_object pr rt1 else rt1)"
  have e: "shapes rt' = (shapes rt)(s \<mapsto> sh)" "objs rt' = objs rt" "contexts rt' = contexts rt" by (simp_all add: rt'_def rt1_def set_shape_def)
  have "js_new_shape_nohash al pr n m rt = (s, rt')"
    using s(1) by (simp add: js_new_shape_nohash_def js_malloc_def s_def [symmetric] rt'_def rt1_def sh_def Let_def)
  moreover have "table_ok sh" unfolding sh_def using n by (rule empty_ok)
  then have ok: "shape_ok sh" "ref_count sh = 1" "props sh = []" "proto sh = pr" "\<not> is_hashed sh" "prop_size sh = m" by (simp_all add: shape_ok_def sh_def)
  then have "core (held(s := 1)) (shapes rt') (objs rt')" unfolding e using core_new_shape [OF c s(2,1)] by simp
  moreover have ns: "s \<notin> hashed (shapes rt)" using s(2) by (auto simp: hashed_def)
  have "hash_table_ok (hashed (shapes rt)) rt'"
  proof (rule hash_table_cong [OF rt_okD(2) [OF i]])
    fix t assume "t \<in> hashed (shapes rt)"
    then have "t \<noteq> s" using ns by blast
    then show "nexts (shapes rt') t = nexts (shapes rt) t \<and> hashes (shapes rt') t = hashes (shapes rt) t" unfolding e by (simp add: nexts_def hashes_def)
  qed (simp_all add: rt'_def rt1_def set_shape_def)
  moreover have "hashed (shapes rt') = hashed (shapes rt)" unfolding e hashed_upd using ns ok(5) by simp
  moreover have "balanced rt rt'"
  proof -
    have "shapes rt s = None" "finite (dom (shapes rt))" using core_finite [OF c] s(2) by auto
    then show ?thesis unfolding balanced_def e(1) using refs_upd(1,2) [of "shapes rt" s sh] ok(3,4) by (auto simp: rt'_def rt1_def set_shape_def)
  qed
  moreover have "shape_hash_bits rt' = shape_hash_bits rt" "shape_hash_count rt' = shape_hash_count rt" by (simp_all add: rt'_def rt1_def set_shape_def)
  ultimately show ?thesis using s e ok by (rule_tac that [of s rt']) (auto simp: rt_ok_def)
qed

lemma grow_bits: "hash_table_ok X rt \<Longrightarrow> shape_hash_count rt < 2 ^ 28 \<Longrightarrow> shape_hash_size rt < 2 * (shape_hash_count rt + 1) \<Longrightarrow> shape_hash_bits rt + 1 \<le> 30"
proof -
  assume h: "hash_table_ok X rt" "shape_hash_count rt < 2 ^ 28" "shape_hash_size rt < 2 * (shape_hash_count rt + 1)"
  then have "(2::nat) ^ shape_hash_bits rt < 2 * (2 ^ 28 + 1)" by (simp add: hash_table_ok_def hash_ok_def)
  also have "\<dots> < 2 ^ 30" by simp
  finally have "shape_hash_bits rt < 30" by (rule power_less_imp_less_exp [rotated]) simp
  then show ?thesis by simp
qed

lemma new_shape_ok:
  assumes i: "rt_ok held rt" and al: "fresh_alloc al" and n: "shape_hash_count rt < 2 ^ 28"
  obtains s rt' where "js_new_shape al pr rt = Some (s, rt')" "objs rt' = objs rt" "contexts rt' = contexts rt" "balanced rt rt'"
    "s = 0 \<longrightarrow> rt_ok held rt'" "\<forall>t. t \<noteq> s \<longrightarrow> shape_view (shapes rt') t = shape_view (shapes rt) t"
    "s \<noteq> 0 \<longrightarrow> rt_ok (held(s := 1)) rt' \<and> s \<notin> dom (shapes rt) \<and> shape_view (shapes rt') s = Some (pr, [])"
proof -
  have "\<exists>r rt1. (if 2 * (shape_hash_count rt + 1) > shape_hash_size rt then resize_shape_hash al (shape_hash_bits rt + 1) rt else Some (0, rt)) = Some (r, rt1) \<and>
    hash_table_ok (hashed (shapes rt)) rt1 \<and> links_only rt rt1"
  proof (cases "2 * (shape_hash_count rt + 1) > shape_hash_size rt")
    case True
    obtain r rt1 where w: "resize_shape_hash al (shape_hash_bits rt + 1) rt = Some (r, rt1)" "hash_table_ok (hashed (shapes rt)) rt1" "strip_links (shapes rt1) = strip_links (shapes rt)"
      "rt1 = rt\<lparr>shapes := shapes rt1, shape_hash_bits := shape_hash_bits rt1, shape_hash_table := shape_hash_table rt1, alloc_log := al rt # alloc_log rt\<rparr>"
      by (rule resize_shape_hash_ok [OF rt_okD(2) [OF i] _ grow_bits [OF rt_okD(2) [OF i] n True]]) simp
    have "objs rt1 = objs rt" "atom_rc rt1 = atom_rc rt" "obj_rc rt1 = obj_rc rt" "contexts rt1 = contexts rt" "released rt1 = released rt" "zero_refs rt1 = zero_refs rt"
      by (subst w(4), simp)+
    then show ?thesis using True w by (auto simp: links_only_def)
  qed (use rt_okD(2) [OF i] in \<open>simp add: links_only_refl\<close>)
  then obtain r rt1 where w: "(if 2 * (shape_hash_count rt + 1) > shape_hash_size rt then resize_shape_hash al (shape_hash_bits rt + 1) rt else Some (0, rt)) = Some (r, rt1)"
    "hash_table_ok (hashed (shapes rt)) rt1" "links_only rt rt1" by blast
  have st: "strip_links (shapes rt1) = strip_links (shapes rt)" "objs rt1 = objs rt" using w(3) by (simp_all add: links_only_def)
  have i1: "rt_ok held rt1" using rt_okD(1) [OF i] relink(1) [OF st(1), of held "objs rt"] relink(2) [OF st(1)] st(2) w(2) by (simp add: rt_ok_def)
  have hs: "0 < JS_PROP_INITIAL_HASH_SIZE" "JS_PROP_INITIAL_HASH_SIZE \<le> 2 ^ 28" "JS_PROP_INITIAL_SIZE \<le> 2 ^ 27" by (simp_all add: JS_PROP_INITIAL_HASH_SIZE_def JS_PROP_INITIAL_SIZE_def)
  obtain s rt2 where k: "js_new_shape_nohash al pr JS_PROP_INITIAL_HASH_SIZE JS_PROP_INITIAL_SIZE rt1 = (s, rt2)" "objs rt2 = objs rt1" "contexts rt2 = contexts rt1" "balanced rt1 rt2"
    "shape_hash_bits rt2 = shape_hash_bits rt1" "shape_hash_count rt2 = shape_hash_count rt1"
    "s = 0 \<longrightarrow> rt_ok held rt2 \<and> shapes rt2 = shapes rt1"
    "s \<noteq> 0 \<longrightarrow> rt_ok (held(s := 1)) rt2 \<and> s \<notin> dom (shapes rt1) \<and> (\<exists>sh. shapes rt2 = (shapes rt1)(s \<mapsto> sh) \<and> props sh = [] \<and> proto sh = pr \<and> \<not> is_hashed sh \<and> prop_size sh = JS_PROP_INITIAL_SIZE)"
    by (rule new_shape_nohash_ok [OF i1 al hs, of pr])
  have b01: "balanced rt rt1" using w(3) relink(4,5) [OF st(1)] by (simp add: balanced_def links_only_def)
  then have b02: "balanced rt rt2" using k(4) by (simp add: balanced_def)
  show ?thesis
  proof (cases "s = 0")
    case True
    then have "js_new_shape al pr rt = Some (0, rt2)" using w(1) k(1) by (simp add: js_new_shape_def js_new_shape2_def)
    then show ?thesis by (rule that) (use True k b02 w(3) relink(3) [OF st(1)] in \<open>simp_all add: links_only_def\<close>)
  next
    case False
    then obtain sh where s: "rt_ok (held(s := 1)) rt2" "s \<notin> dom (shapes rt1)" "shapes rt2 = (shapes rt1)(s \<mapsto> sh)" "props sh = []" "proto sh = pr" "\<not> is_hashed sh" using k(8) by blast
    define rt3 where "rt3 = set_shape s (sh\<lparr>hash := shape_initial_hash pr, is_hashed := True\<rparr>) rt2"
    have s2: "shapes rt2 s = Some sh" using s(3) by simp
    have n2: "s \<notin> hashed (shapes rt2)" using s2 s(6) by (simp add: hashed_def)
    let ?shh = "sh\<lparr>hash := shape_initial_hash pr\<rparr>"
    have c2: "core (held(s := 1)) (shapes rt2) (objs rt2)" using rt_okD(1) [OF s(1)] .
    have okh: "shape_ok (?shh\<lparr>is_hashed := True\<rparr>)" using coreD(1) [OF c2 s2] s(4,5) by (simp add: shape_ok_def table_ext content_hash_def)
    have c1: "core held (shapes rt1) (objs rt1)" using rt_okD(1) [OF i1] .
    have c3: "core (held(s := 1)) (shapes rt3) (objs rt3)"
      using core_new_shape [OF c1 s(2) False okh] coreD(4) [OF c2 s2 s(6)] s(3) k(2) by (simp add: rt3_def set_shape_def)
    have h3: "hash_table_ok (hashed (shapes rt2)) rt3"
    proof (rule hash_table_cong [OF rt_okD(2) [OF s(1)]])
      fix t assume "t \<in> hashed (shapes rt2)"
      then have "t \<noteq> s" using n2 by blast
      then show "nexts (shapes rt3) t = nexts (shapes rt2) t \<and> hashes (shapes rt3) t = hashes (shapes rt2) t" by (simp add: rt3_def set_shape_def nexts_def hashes_def)
    qed (simp_all add: rt3_def set_shape_def)
    have s3: "shapes rt3 s = Some (sh\<lparr>hash := shape_initial_hash pr, is_hashed := True\<rparr>)" by (simp add: rt3_def set_shape_def)
    obtain rt4 x where l: "js_shape_hash_link s rt3 = Some rt4" "hash_table_ok (insert s (hashed (shapes rt2))) rt4" "links_only rt3 rt4"
      "shapes rt4 s = Some (sh\<lparr>hash := shape_initial_hash pr, is_hashed := True, shape_hash_next := x\<rparr>)"
      by (rule link_step [OF h3 n2 False s3])
    have st4: "strip_links (shapes rt4) = strip_links (shapes rt3)" "objs rt4 = objs rt3" using l(3) by (simp_all add: links_only_def)
    have "hashed (shapes rt4) = insert s (hashed (shapes rt2))" using relink(2) [OF st4(1)] by (simp add: rt3_def set_shape_def hashed_upd)
    then have "rt_ok (held(s := 1)) rt4" using l(2) c3 relink(1) [OF st4(1), of "held(s := 1)" "objs rt3"] st4(2) by (simp add: rt_ok_def)
    moreover have "js_new_shape al pr rt = Some (s, rt4)" using w(1) k(1) False s2 l(1) by (simp add: js_new_shape_def js_new_shape2_def rt3_def)
    moreover have "balanced rt rt4"
    proof -
      have "balanced rt2 rt3" using refs_upd(1,2) [of "shapes rt2" s "sh\<lparr>hash := shape_initial_hash pr, is_hashed := True\<rparr>"] core_finite [OF c2] s2
        by (simp add: balanced_def rt3_def set_shape_def)
      moreover have "balanced rt3 rt4" using relink(4,5) [OF st4(1)] l(3) by (simp add: balanced_def links_only_def)
      ultimately show ?thesis using b02 by (simp add: balanced_def)
    qed
    moreover have "shape_view (shapes rt4) t = shape_view (shapes rt) t" if "t \<noteq> s" for t
      using relink(3) [OF st4(1)] relink(3) [OF st(1)] that s(3) by (simp add: rt3_def set_shape_def shape_view_def fun_eq_iff)
    moreover have "shape_view (shapes rt4) s = Some (pr, [])" using l(4) s(4,5) by (simp add: shape_view_def)
    moreover have "s \<notin> dom (shapes rt)" using s(2) strip_dom [OF st(1)] by simp
    moreover have "objs rt4 = objs rt" "contexts rt4 = contexts rt" using st4(2) k(2,3) st(2) l(3) w(3) by (simp_all add: rt3_def set_shape_def links_only_def)
    ultimately show ?thesis using False by (rule_tac that [of s rt4]) simp_all
  qed
qed

section \<open>New objects\<close>

lemma core_new_object:
  assumes c: "core held shs obs" and p: "p \<notin> dom obs" "p \<noteq> 0" and ob: "shs (shape ob) = Some sh" "prop_size sh \<le> length (prop_values ob)"
  shows "core (\<lambda>t. held t - of_bool (t = shape ob)) shs (obs(p \<mapsto> ob))"
proof (rule coreI)
  note f = core_finite [OF c]
  have n: "obs p = None" using p(1) by auto
  fix t st assume t: "shs t = Some st"
  show "shape_ok st \<and> ref_count st = held t - of_bool (t = shape ob) + users (obs(p \<mapsto> ob)) t \<and> 0 < ref_count st \<and> (\<not> is_hashed st \<longrightarrow> ref_count st = 1)"
    using coreD(1-4) [OF c t] users_upd [of obs p ob t] f n by auto
next
  fix q oq assume "(obs(p \<mapsto> ob)) q = Some oq"
  then show "\<exists>sh'. shs (shape oq) = Some sh' \<and> prop_size sh' \<le> length (prop_values oq)" using ob core_objD [OF c, of q oq] by (cases "q = p") auto
next
  fix t assume "held t - of_bool (t = shape ob) \<noteq> 0"
  then show "t \<in> dom shs" using core_held [OF c, of t] ob(1) by (cases "t = shape ob") auto
qed (use core_finite [OF c] p(2) in auto)

text \<open>The objects that the collector has not freed look as before.\<close>

definition shrunk :: "'v shape_rt \<Rightarrow> 'v shape_rt \<Rightarrow> addr \<Rightarrow> bool" where
  "shrunk rt rt' q = (obj_view rt' q = obj_view rt q \<or> obj_view rt' q = None)"

definition balanced_but :: "addr \<Rightarrow> 'v shape_rt \<Rightarrow> 'v shape_rt \<Rightarrow> bool" where
  "balanced_but p rt rt' =
     ((\<forall>a. \<not> JS_AtomIsConst a \<longrightarrow> atom_rc rt' a - atom_refs (shapes rt') a = atom_rc rt a - atom_refs (shapes rt) a) \<and>
      (\<forall>q. q \<noteq> p \<longrightarrow> obj_rc rt' q - proto_refs (shapes rt') q = obj_rc rt q - proto_refs (shapes rt) q))"

lemma new_object_from_shape_ok:
  assumes i: "rt_ok (held(s := held s + 1)) rt" and h: "\<And>s. 0 \<le> held s" and al: "fresh_alloc al" and gc: "gc_ok gc" and x: "contexts_ok rt"
    and s: "shape_view (shapes rt) s = Some (pr, [])"
  obtains p rt' where "JS_NewObjectFromShape al gc s rt = Some (p, rt')" "rt_ok held rt'" "contexts_ok rt'" "balanced_but p rt rt'"
    "\<forall>q. q \<noteq> p \<longrightarrow> shrunk rt rt' q" "p = 0 \<longrightarrow> shrunk rt rt' p" "p \<noteq> 0 \<longrightarrow> obj_view rt' p = Some (pr, [])"
    "\<forall>t. 0 < held t \<longrightarrow> shape_view (shapes rt') t = shape_view (shapes rt) t"
proof -
  let ?held = "held(s := held s + 1)"
  have h1: "0 \<le> ?held t" for t using h [of t] by auto
  have g: "distinct (gc rt)" "set (gc rt) \<subseteq> dom (objs rt)" "list_all (\<lambda>(o1, a1). a1 \<notin> set (gc rt)) (contexts rt)" using gc by (auto simp: gc_ok_def)
  from free_objects_ok [of ?held, OF h1 i g(1,2)] obtain rt1 where w: "free_objects (gc rt) rt = Some rt1" "rt_ok ?held rt1"
    "\<forall>q. obj_view rt1 q = (if q \<in> set (gc rt) then None else obj_view rt q)" "balanced rt rt1" "contexts rt1 = contexts rt"
    "\<forall>t. 0 < ?held t \<longrightarrow> shape_view (shapes rt1) t = shape_view (shapes rt) t" by blast
  have x1: "contexts_ok rt1" using x g(3) w(3,5) by (auto simp: contexts_ok_def list_all_iff)
  have s1: "shape_view (shapes rt1) s = Some (pr, [])" using w(6) h [of s] s by simp
  then obtain sh where sh: "shapes rt1 s = Some sh" "proto sh = pr" "props sh = []" by (auto simp: shape_view_def keys_def)
  define rt2 where "rt2 = rt1\<lparr>alloc_log := al rt1 # alloc_log rt1\<rparr>"
  have i2: "rt_ok ?held rt2" using w(2) by (simp add: rt2_def cong: rt_ok_cong)
  have fail: "\<exists>rt'. js_free_shape_rt s z = Some rt' \<and> rt_ok held rt' \<and> contexts_ok rt' \<and> balanced rt rt' \<and> (\<forall>q. shrunk rt rt' q) \<and>
      (\<forall>t. 0 < held t \<longrightarrow> shape_view (shapes rt') t = shape_view (shapes rt) t)"
    if z: "rt_ok ?held z" "shapes z = shapes rt1" "objs z = objs rt1" "contexts z = contexts rt1" "atom_rc z = atom_rc rt1" "obj_rc z = obj_rc rt1" for z
  proof -
    have sz: "shapes z s = Some sh" using z(2) sh(1) by simp
    have rc: "ref_count sh = held s + 1 + users (objs z) s" using coreD(2) [OF rt_okD(1) [OF z(1)] sz] by simp
    have u: "1 < ref_count sh \<or> users (objs z) s = 0" using rc h [of s] users_nonneg [of "objs z" s] by linarith
    obtain rt' where f: "js_free_shape_rt s z = Some rt'" "rt_ok (?held(s := ?held s - 1)) rt'" "objs rt' = objs z" "balanced z rt'" "contexts rt' = contexts z"
      "\<forall>t. t \<noteq> s \<or> 1 < ref_count sh \<longrightarrow> shape_view (shapes rt') t = shape_view (shapes z) t" "released rt' = released z"
      "\<forall>t. t \<noteq> s \<longrightarrow> strip_links (shapes rt') t = strip_links (shapes z) t" by (rule free_shape_ok [OF z(1) sz u])
    have "?held(s := ?held s - 1) = held" by auto
    moreover have ov: "obj_view rt' q = obj_view rt1 q" for q
    proof (cases "objs rt1 q")
      case (Some oq)
      have "1 < ref_count sh" if "shape oq = s"
        using users_ge [of "objs z" q oq] core_finite [OF rt_okD(1) [OF z(1)]] Some z(3) that rc h [of s] by simp
      then show ?thesis using Some f(3,6) z(2,3) by (auto simp: obj_view_def view_in_def)
    qed (use f(3) z(3) in \<open>simp add: obj_view_def view_in_def\<close>)
    moreover have "contexts_ok rt'" using x1 ov f(5) z(4) by (simp add: contexts_ok_def)
    moreover have "balanced rt rt'" using w(4) f(4) z by (simp add: balanced_def)
    moreover have "shrunk rt rt' q" for q using ov w(3) by (simp add: shrunk_def)
    moreover have "shape_view (shapes rt') t = shape_view (shapes rt) t" if "0 < held t" for t
    proof (cases "t = s")
      case True
      then have p: "0 < held s" using that by simp
      then have "1 < ref_count sh" using rc users_nonneg [of "objs z" s] by linarith
      then show ?thesis using f(6) z(2) w(6) [rule_format, of s] p True by simp
    qed (use f(6) z(2) w(6) that in simp)
    ultimately show ?thesis using f(1,2) by auto
  qed
  have bb: "balanced_but p rt rt'" if "balanced rt rt'" for p and rt' :: "'a shape_rt" using that by (simp add: balanced_but_def balanced_def)
  show ?thesis
  proof (cases "al rt1 = 0 \<or> al rt2 = 0")
    case True
    define rt3 where "rt3 = (if al rt1 = 0 then rt2 else rt2\<lparr>alloc_log := al rt2 # alloc_log rt2\<rparr>)"
    have r3: "rt_ok ?held rt3" using i2 by (simp add: rt3_def cong: rt_ok_cong)
    have "shapes rt3 = shapes rt1" "objs rt3 = objs rt1" "contexts rt3 = contexts rt1" "atom_rc rt3 = atom_rc rt1" "obj_rc rt3 = obj_rc rt1"
      by (simp_all add: rt3_def rt2_def)
    from fail [OF r3 this] obtain rt' where z: "js_free_shape_rt s rt3 = Some rt'" "rt_ok held rt'" "contexts_ok rt'" "balanced rt rt'" "\<forall>q. shrunk rt rt' q"
      "\<forall>t. 0 < held t \<longrightarrow> shape_view (shapes rt') t = shape_view (shapes rt) t" by blast
    have "JS_NewObjectFromShape al gc s rt = Some (0, rt')"
      using w(1) sh(1) True z(1) by (auto simp: JS_NewObjectFromShape_def js_trigger_gc_def js_malloc_def rt3_def rt2_def Let_def)
    then show ?thesis by (rule that) (use z bb in simp_all)
  next
    case False
    define p where "p = al rt1"
    have p: "p \<noteq> 0" "p \<notin> dom (objs rt1)" using False fresh_allocD [OF al] by (auto simp: p_def)
    define ob :: "'a js_object" where "ob = \<lparr>shape = s, prop_values = replicate (prop_size sh) None, is_std_array_prototype = False, has_immutable_prototype = False, extensible = True\<rparr>"
    define rt' where "rt' = (set_obj p ob (rt2\<lparr>alloc_log := al rt2 # alloc_log rt2\<rparr>))\<lparr>obj_rc := (obj_rc rt2)(p := 1)\<rparr>"
    have "JS_NewObjectFromShape al gc s rt = Some (p, rt')"
      using w(1) sh(1) False by (simp add: JS_NewObjectFromShape_def js_trigger_gc_def js_malloc_def rt'_def rt2_def p_def ob_def Let_def)
    moreover have "core (\<lambda>t. ?held t - of_bool (t = shape ob)) (shapes rt1) ((objs rt1)(p \<mapsto> ob))"
      by (rule core_new_object [OF rt_okD(1) [OF w(2)] p(2,1), where sh = sh]) (use sh(1) in \<open>simp_all add: ob_def\<close>)
    moreover have "(\<lambda>t. ?held t - of_bool (t = shape ob)) = held" by (auto simp: ob_def)
    ultimately have st: "JS_NewObjectFromShape al gc s rt = Some (p, rt')" "rt_ok held rt'"
      using rt_okD(2) [OF w(2)] by (simp_all add: rt_ok_def rt'_def rt2_def set_obj_def hash_table_ok_def)
    have ov: "obj_view rt' q = (if q = p then Some (pr, []) else obj_view rt1 q)" for q
      using sh by (simp add: obj_view_def view_in_def rt'_def rt2_def set_obj_def ob_def shape_view_def keys_def)
    have "contexts_ok rt'" using x1 ov by (auto simp: contexts_ok_def list_all_iff rt'_def rt2_def set_obj_def)
    moreover have "balanced_but p rt rt'" using w(4) by (simp add: balanced_but_def balanced_def rt'_def rt2_def set_obj_def)
    moreover have "shrunk rt rt' q" if "q \<noteq> p" for q using ov w(3) that by (simp add: shrunk_def)
    moreover have "shape_view (shapes rt') t = shape_view (shapes rt) t" if "0 < held t" for t
      using w(6) [rule_format, of t] that by (cases "t = s") (simp_all add: rt'_def rt2_def set_obj_def)
    ultimately show ?thesis using st p(1) ov by (rule_tac that [of p rt']) simp_all
  qed
qed

lemma new_object_ok:
  assumes i: "rt_ok held rt" and h: "\<And>s. 0 \<le> held s" and al: "fresh_alloc al" and gc: "gc_ok gc" and x: "contexts_ok rt" and n: "shape_hash_count rt < 2 ^ 28"
  obtains p rt' where "JS_NewObjectProtoClass al gc pr rt = Some (p, rt')" "rt_ok held rt'" "contexts_ok rt'" "balanced_but p rt rt'"
    "\<forall>q. q \<noteq> p \<longrightarrow> shrunk rt rt' q" "p = 0 \<longrightarrow> shrunk rt rt' p" "p \<noteq> 0 \<longrightarrow> obj_view rt' p = Some (pr, [])"
    "\<forall>t. 0 < held t \<longrightarrow> shape_view (shapes rt') t = shape_view (shapes rt) t"
proof -
  let ?P = "\<lambda>sh1. hash sh1 = shape_initial_hash pr \<and> proto sh1 = pr \<and> prop_count sh1 = 0"
  obtain t where fd: "find_hashed_shape_proto pr rt = Some t" and t: "t \<noteq> 0 \<Longrightarrow> t \<in> hashed (shapes rt) \<and> ?P (the (shapes rt t))"
  proof (rule search_ok [OF rt_okD(2) [OF i], of ?P "shape_initial_hash pr"])
    fix t assume "hash_slot (shape_hash_bits rt) (shape_initial_hash pr) < shape_hash_size rt"
      "search_chain (shapes rt) ?P (shape_hash_table rt ! hash_slot (shape_hash_bits rt) (shape_initial_hash pr)) = Some t"
      "t \<noteq> 0 \<Longrightarrow> t \<in> hashed (shapes rt) \<and> ?P (the (shapes rt t))"
    then show thesis by (intro that [of t]) (simp_all add: find_hashed_shape_proto_def Let_def)
  qed simp
  have "\<exists>s rt1. (if t \<noteq> 0 then do { rt \<leftarrow> js_dup_shape t rt; Some (t, rt) } else js_new_shape al pr rt) = Some (s, rt1) \<and> contexts rt1 = contexts rt \<and> balanced rt rt1 \<and>
    obj_view rt1 = obj_view rt \<and> (s = 0 \<longrightarrow> rt_ok held rt1) \<and> (\<forall>u. 0 < held u \<longrightarrow> shape_view (shapes rt1) u = shape_view (shapes rt) u) \<and>
    (s \<noteq> 0 \<longrightarrow> rt_ok (held(s := held s + 1)) rt1 \<and> shape_view (shapes rt1) s = Some (pr, []))"
  proof (cases "t = 0")
    case False
    from t [OF this] obtain sh where sh: "shapes rt t = Some sh" "is_hashed sh" "proto sh = pr" "props sh = []" by (auto simp: hashed_def)
    define rt1 where "rt1 = set_shape t (sh\<lparr>ref_count := ref_count sh + 1\<rparr>) rt"
    have "0 < ref_count sh + 1" using coreD(3) [OF rt_okD(1) [OF i] sh(1)] by simp
    then have c: "rt_ok (held(t := held t + 1)) rt1" "frame {} held rt rt1" "shape_view (shapes rt1) = shape_view (shapes rt)"
      using count_ok [OF i sh(1) _ sh(2)] by (simp_all add: rt1_def)
    moreover have "js_dup_shape t rt = Some rt1" using sh(1) by (simp add: js_dup_shape_def rt1_def)
    moreover have "shape_view (shapes rt) t = Some (pr, [])" using sh by (simp add: shape_view_def)
    ultimately show ?thesis using False by (auto simp: frame_def)
  next
    case True
    obtain s rt1 where k: "js_new_shape al pr rt = Some (s, rt1)" "objs rt1 = objs rt" "contexts rt1 = contexts rt" "balanced rt rt1"
      "s = 0 \<longrightarrow> rt_ok held rt1" "\<forall>t. t \<noteq> s \<longrightarrow> shape_view (shapes rt1) t = shape_view (shapes rt) t"
      "s \<noteq> 0 \<longrightarrow> rt_ok (held(s := 1)) rt1 \<and> s \<notin> dom (shapes rt) \<and> shape_view (shapes rt1) s = Some (pr, [])"
      by (rule new_shape_ok [OF i al n, of pr])
    have z: "0 \<notin> dom (shapes rt)" using core_finite [OF rt_okD(1) [OF i]] by simp
    have n2: "s \<notin> dom (shapes rt)" using k(7) z by (cases "s = 0") auto
    then have hs: "held s = 0" using core_held [OF rt_okD(1) [OF i]] by simp
    have "obj_view rt1 q = obj_view rt q" for q
    proof (cases "objs rt q")
      case (Some oq)
      then have "shape oq \<noteq> s" using core_objD [OF rt_okD(1) [OF i] Some] n2 by auto
      then show ?thesis using Some k(2,6) by (simp add: obj_view_def view_in_def)
    qed (use k(2) in \<open>simp add: obj_view_def view_in_def\<close>)
    then have "obj_view rt1 = obj_view rt" by blast
    moreover have "shape_view (shapes rt1) u = shape_view (shapes rt) u" if "0 < held u" for u using that hs k(6) by (cases "u = s") simp_all
    ultimately show ?thesis using True k hs by auto
  qed
  then obtain s rt1 where k: "(if t \<noteq> 0 then do { rt \<leftarrow> js_dup_shape t rt; Some (t, rt) } else js_new_shape al pr rt) = Some (s, rt1)" "contexts rt1 = contexts rt" "balanced rt rt1"
    "obj_view rt1 = obj_view rt" "s = 0 \<longrightarrow> rt_ok held rt1" "\<forall>u. 0 < held u \<longrightarrow> shape_view (shapes rt1) u = shape_view (shapes rt) u"
    "s \<noteq> 0 \<longrightarrow> rt_ok (held(s := held s + 1)) rt1 \<and> shape_view (shapes rt1) s = Some (pr, [])" by blast
  have x1: "contexts_ok rt1" using x k(2,4) by (simp add: contexts_ok_def)
  show ?thesis
  proof (cases "s = 0")
    case True
    then have "JS_NewObjectProtoClass al gc pr rt = Some (0, rt1)" using fd k(1) by (simp add: JS_NewObjectProtoClass_def)
    then show ?thesis by (rule that) (use True k x1 in \<open>simp_all add: balanced_but_def balanced_def shrunk_def\<close>)
  next
    case False
    then have s: "rt_ok (held(s := held s + 1)) rt1" "shape_view (shapes rt1) s = Some (pr, [])" using k(7) by auto
    obtain p rt' where m: "JS_NewObjectFromShape al gc s rt1 = Some (p, rt')" "rt_ok held rt'" "contexts_ok rt'" "balanced_but p rt1 rt'"
      "\<forall>q. q \<noteq> p \<longrightarrow> shrunk rt1 rt' q" "p = 0 \<longrightarrow> shrunk rt1 rt' p" "p \<noteq> 0 \<longrightarrow> obj_view rt' p = Some (pr, [])"
      "\<forall>t. 0 < held t \<longrightarrow> shape_view (shapes rt') t = shape_view (shapes rt1) t"
      by (rule new_object_from_shape_ok [OF s(1) h al gc x1 s(2)])
    have "JS_NewObjectProtoClass al gc pr rt = Some (p, rt')" using fd k(1) False m(1) by (simp add: JS_NewObjectProtoClass_def)
    then show ?thesis by (rule that) (use m k in \<open>simp_all add: balanced_but_def balanced_def shrunk_def\<close>)
  qed
qed

lemma bit_length_bounds: "n < 2 ^ bit_length n \<and> (0 < n \<longrightarrow> 2 ^ bit_length n \<le> 2 * n)"
proof (induction n rule: bit_length.induct)
  case (1 n)
  show ?case
  proof (cases "n = 0")
    case True
    then show ?thesis by (simp add: bit_length.simps)
  next
    case False
    then have b: "n div 2 < 2 ^ bit_length (n div 2)" "0 < n div 2 \<longrightarrow> 2 ^ bit_length (n div 2) \<le> 2 * (n div 2)" using 1 by blast+
    have e: "bit_length n = Suc (bit_length (n div 2))" using False by (simp add: bit_length.simps [of n])
    have "2 * 2 ^ bit_length (n div 2) \<le> 2 * n"
    proof (cases "n div 2 = 0")
      case True
      moreover have "bit_length 0 = 0" by (simp add: bit_length.simps)
      ultimately show ?thesis using False by simp
    next
      case False
      then show ?thesis using b(2) by simp
    qed
    then show ?thesis using b(1) unfolding e by simp
  qed
qed

text \<open>An object whose shape is not meant to be shared.\<close>

lemma new_object_alloc_ok:
  assumes i: "rt_ok held rt" and h: "\<And>s. 0 \<le> held s" and al: "fresh_alloc al" and gc: "gc_ok gc" and x: "contexts_ok rt" and n: "n_alloc \<le> 2 ^ 27"
  obtains p rt' where "JS_NewObjectProtoClassAlloc al gc pr n_alloc rt = Some (p, rt')" "rt_ok held rt'" "contexts_ok rt'" "balanced_but p rt rt'"
    "\<forall>q. q \<noteq> p \<longrightarrow> shrunk rt rt' q" "p = 0 \<longrightarrow> shrunk rt rt' p" "p \<noteq> 0 \<longrightarrow> obj_view rt' p = Some (pr, [])"
    "\<forall>t. 0 < held t \<longrightarrow> shape_view (shapes rt') t = shape_view (shapes rt) t"
proof -
  define m where "m = (if n_alloc \<le> JS_PROP_INITIAL_SIZE then JS_PROP_INITIAL_SIZE else n_alloc)"
  define k where "k = (if n_alloc \<le> JS_PROP_INITIAL_SIZE then JS_PROP_INITIAL_HASH_SIZE else 2 ^ bit_length (n_alloc - 1))"
  have "2 ^ bit_length (n_alloc - 1) \<le> 2 * (n_alloc - 1)" if "JS_PROP_INITIAL_SIZE < n_alloc"
    using bit_length_bounds [of "n_alloc - 1"] that by (simp add: JS_PROP_INITIAL_SIZE_def)
  then have hs: "0 < k" "k \<le> 2 ^ 28" "m \<le> 2 ^ 27" using n by (auto simp: k_def m_def JS_PROP_INITIAL_SIZE_def JS_PROP_INITIAL_HASH_SIZE_def)
  obtain s rt1 where w: "js_new_shape_nohash al pr k m rt = (s, rt1)" "objs rt1 = objs rt" "contexts rt1 = contexts rt" "balanced rt rt1"
    "shape_hash_bits rt1 = shape_hash_bits rt" "shape_hash_count rt1 = shape_hash_count rt" "s = 0 \<longrightarrow> rt_ok held rt1 \<and> shapes rt1 = shapes rt"
    "s \<noteq> 0 \<longrightarrow> rt_ok (held(s := 1)) rt1 \<and> s \<notin> dom (shapes rt) \<and> (\<exists>sh. shapes rt1 = (shapes rt)(s \<mapsto> sh) \<and> props sh = [] \<and> proto sh = pr \<and> \<not> is_hashed sh \<and> prop_size sh = m)"
    by (rule new_shape_nohash_ok [OF i al hs, of pr])
  have step: "JS_NewObjectProtoClassAlloc al gc pr n_alloc rt = (if s = 0 then Some (0, rt1) else JS_NewObjectFromShape al gc s rt1)"
    using w(1) by (auto simp: JS_NewObjectProtoClassAlloc_def k_def m_def Let_def)
  show ?thesis
  proof (cases "s = 0")
    case True
    have "JS_NewObjectProtoClassAlloc al gc pr n_alloc rt = Some (0, rt1)" using step True by simp
    then show ?thesis by (rule that) (use True w x in \<open>simp_all add: balanced_but_def balanced_def shrunk_def obj_view_def contexts_ok_def\<close>)
  next
    case False
    then obtain sh where s: "rt_ok (held(s := 1)) rt1" "s \<notin> dom (shapes rt)" "shapes rt1 = (shapes rt)(s \<mapsto> sh)" "props sh = []" "proto sh = pr" using w(8) by blast
    have hz: "held s = 0" using core_held [OF rt_okD(1) [OF i] s(2)] .
    have ov: "obj_view rt1 q = obj_view rt q" for q
    proof (cases "objs rt q")
      case (Some oq)
      then have "shape oq \<noteq> s" using core_objD [OF rt_okD(1) [OF i] Some] s(2) by auto
      then show ?thesis using Some w(2) s(3) by (simp add: obj_view_def view_in_def shape_view_def)
    qed (use w(2) in \<open>simp add: obj_view_def view_in_def\<close>)
    have x1: "contexts_ok rt1" using x w(3) ov by (simp add: contexts_ok_def)
    have i1: "rt_ok (held(s := held s + 1)) rt1" using s(1) hz by simp
    have sv: "shape_view (shapes rt1) s = Some (pr, [])" using s(3-5) by (simp add: shape_view_def)
    obtain p rt' where m: "JS_NewObjectFromShape al gc s rt1 = Some (p, rt')" "rt_ok held rt'" "contexts_ok rt'" "balanced_but p rt1 rt'"
      "\<forall>q. q \<noteq> p \<longrightarrow> shrunk rt1 rt' q" "p = 0 \<longrightarrow> shrunk rt1 rt' p" "p \<noteq> 0 \<longrightarrow> obj_view rt' p = Some (pr, [])"
      "\<forall>t. 0 < held t \<longrightarrow> shape_view (shapes rt') t = shape_view (shapes rt1) t"
      by (rule new_object_from_shape_ok [OF i1 h al gc x1 sv])
    have "shape_view (shapes rt1) t = shape_view (shapes rt) t" if "0 < held t" for t using that hz s(3) by (auto simp: shape_view_def)
    moreover have "JS_NewObjectProtoClassAlloc al gc pr n_alloc rt = Some (p, rt')" using step False m(1) by simp
    ultimately show ?thesis by (rule_tac that [of p rt']) (use m w(4) ov in \<open>simp_all add: balanced_but_def balanced_def shrunk_def\<close>)
  qed
qed

section \<open>Prototypes\<close>

lemma obj_proto_view: "obj_proto rt p = map_option fst (obj_view rt p)"
  by (cases "objs rt p") (auto simp: obj_proto_def obj_view_def view_in_def shape_view_def split: option.splits bind_splits)

lemma on_chain:
  "path protos x xs \<Longrightarrow> x \<noteq> 0 \<Longrightarrow> on_proto_chain protos p x = Some (p \<in> set xs)"
proof (induction xs arbitrary: x)
  case (Cons y ys)
  then obtain z where z: "x = y" "y \<noteq> 0" "protos y = Some z" "path protos z ys" by auto
  show ?case
  proof (cases "y = p")
    case True
    then show ?thesis using z(1) by (subst on_proto_chain.simps) simp
  next
    case False
    show ?thesis
    proof (cases "z = 0")
      case True
      then have "ys = []" using z(4) by (cases ys) auto
      then show ?thesis using z True False by (subst on_proto_chain.simps) simp
    next
      case nz: False
      then show ?thesis using Cons.IH [OF z(4) nz] z False by (subst on_proto_chain.simps) auto
    qed
  qed
qed simp

text \<open>Redirecting the chain at \<open>p\<close> to a chain without \<open>p\<close> leaves all chains finite.\<close>

lemma path_redirect:
  assumes "path protos x xs" "path protos y ys" "p \<notin> set ys"
  shows "\<exists>zs. path (protos(p \<mapsto> y)) x zs"
  using assms
proof (induction xs arbitrary: x)
  case Nil
  then show ?case by (metis path.simps(1))
next
  case (Cons z zs)
  have y: "path (protos(p \<mapsto> y)) y ys" using Cons.prems(2,3) by (subst path_cong [of _ _ protos]) auto
  show ?case
  proof (cases "z = p")
    case True
    then have "path (protos(p \<mapsto> y)) x (p # ys)" using Cons.prems(1) y by auto
    then show ?thesis by blast
  next
    case False
    obtain w where w: "x = z" "z \<noteq> 0" "protos z = Some w" "path protos w zs" using Cons.prems(1) by auto
    from Cons.IH [OF w(4) Cons.prems(2,3)] obtain us where "path (protos(p \<mapsto> y)) w us" by blast
    then have "path (protos(p \<mapsto> y)) x (z # us)" using w False by auto
    then show ?thesis by blast
  qed
qed

lemma set_prototype_ok:
  assumes i: "rt_ok held rt" and h: "\<And>s. 0 \<le> held s" and al: "fresh_alloc al" and v: "obj_view rt p = Some (pr0, ps)" and ch: "path (obj_proto rt) pr xs"
  obtains r rt' where "JS_SetPrototypeInternal al p pr rt = Some (r, rt')" "rt_ok held rt'" "\<forall>q. q \<noteq> p \<longrightarrow> obj_view rt' q = obj_view rt q"
    "obj_view rt' p = Some (if r = SetTrue then pr else pr0, ps)" "contexts rt' = contexts rt"
    "r = SetCircular \<longleftrightarrow> (p \<in> set xs \<and> pr0 \<noteq> pr \<and> (\<exists>ob. objs rt p = Some ob \<and> \<not> has_immutable_prototype ob \<and> extensible ob))"
    "balanced rt (if r = SetNoMemory \<and> pr \<noteq> 0 then rt'\<lparr>obj_rc := (obj_rc rt')(pr := obj_rc rt' pr - 1)\<rparr> else rt')"
    "r = SetTrue \<longrightarrow> pr = pr0 \<or> p \<notin> set xs"
proof -
  have "\<exists>ob. objs rt p = Some ob" using v by (auto simp: obj_view_def view_in_def bind_eq_Some_conv)
  then obtain ob where p: "objs rt p = Some ob" by blast
  obtain sh where sh: "shapes rt (shape ob) = Some sh" "table_ok sh" "prop_count sh \<le> prop_size sh" "prop_size sh \<le> length (prop_values ob)"
    "obj_view rt p = Some (proto sh, view (keys (props sh)) (prop_values ob))" "shape ob \<noteq> 0" by (rule objE [OF i p])
  have eq: "pr0 = proto sh" "ps = view (keys (props sh)) (prop_values ob)" using sh(5) v by auto
  consider "proto sh = pr" | "proto sh \<noteq> pr" "has_immutable_prototype ob" | "proto sh \<noteq> pr" "\<not> has_immutable_prototype ob" "\<not> extensible ob"
    | "proto sh \<noteq> pr" "\<not> has_immutable_prototype ob" "extensible ob" by blast
  then show ?thesis
  proof cases
    case 1
    then have "JS_SetPrototypeInternal al p pr rt = Some (SetTrue, rt)" using p sh(1) by (simp add: JS_SetPrototypeInternal_def)
    then show ?thesis by (rule that) (use i v eq 1 in \<open>simp_all add: balanced_def\<close>)
  next
    case 2
    then have "JS_SetPrototypeInternal al p pr rt = Some (SetImmutable, rt)" using p sh(1) by (simp add: JS_SetPrototypeInternal_def)
    then show ?thesis by (rule that) (use i v eq 2 p in \<open>simp_all add: balanced_def\<close>)
  next
    case 3
    then have "JS_SetPrototypeInternal al p pr rt = Some (SetNotExtensible, rt)" using p sh(1) by (simp add: JS_SetPrototypeInternal_def)
    then show ?thesis by (rule that) (use i v eq 3 p in \<open>simp_all add: balanced_def\<close>)
  next
    case 4
    have circ: "(if pr \<noteq> 0 then on_proto_chain (obj_proto rt) p pr else Some False) = Some (p \<in> set xs)"
    proof (cases "pr = 0")
      case True
      then have "xs = []" using ch by (cases xs) auto
      then show ?thesis using True by simp
    qed (use on_chain [OF ch] in simp)
    show ?thesis
    proof (cases "p \<in> set xs")
      case True
      then have "JS_SetPrototypeInternal al p pr rt = Some (SetCircular, rt)" using p sh(1) 4 circ by (simp add: JS_SetPrototypeInternal_def)
      then show ?thesis by (rule that) (use i v eq 4 p True in \<open>simp_all add: balanced_def\<close>)
    next
      case nc: False
      define rt1 where "rt1 = (if pr \<noteq> 0 then dup_object pr rt else rt)"
      have e1: "shapes rt1 = shapes rt" "objs rt1 = objs rt" "contexts rt1 = contexts rt" "atom_rc rt1 = atom_rc rt" by (simp_all add: rt1_def)
      have orc: "obj_rc rt1 q = obj_rc rt q + of_bool (q = pr \<and> q \<noteq> 0)" for q by (auto simp: rt1_def)
      have "rt_ok held rt1 = rt_ok held rt" by (rule rt_ok_cong) (simp_all add: rt1_def)
      then have i1: "rt_ok held rt1" using i by simp
      have p1: "objs rt1 p = Some ob" "shapes rt1 (shape ob) = Some sh" using p sh(1) e1 by simp_all
      have v1: "obj_view rt1 = obj_view rt" using e1 by (simp add: obj_view_def)
      obtain r rt2 where r: "js_shape_prepare_update al p rt1 = Some (r, rt2)" "rt_ok held rt2" "frame {} held rt1 rt2" "released rt2 = released rt1" "r = 0 \<or> r = -1"
        "r = 0 \<longrightarrow> (\<exists>s' sh'. objs rt2 p = Some (ob\<lparr>shape := s'\<rparr>) \<and> shapes rt2 s' = Some sh' \<and> \<not> is_hashed sh' \<and> same_table sh sh')"
        "\<forall>q. q \<noteq> p \<longrightarrow> objs rt2 q = objs rt1 q" "r \<noteq> 0 \<longrightarrow> objs rt2 = objs rt1"
        by (rule prepare_update_ok [OF i1 h al p1])
      have v2: "obj_view rt2 q = obj_view rt q" for q using frame_views [OF r(3)] v1 by simp
      have b12: "balanced rt1 rt2" "contexts rt2 = contexts rt" using r(3) e1(3) by (simp_all add: frame_def)
      show ?thesis
      proof (cases "r = 0")
        case False
        then have "JS_SetPrototypeInternal al p pr rt = Some (SetNoMemory, rt2)"
          using p sh(1) 4 circ nc r(1) by (simp add: JS_SetPrototypeInternal_def rt1_def)
        moreover have "balanced rt (if pr \<noteq> 0 then rt2\<lparr>obj_rc := (obj_rc rt2)(pr := obj_rc rt2 pr - 1)\<rparr> else rt2)"
        proof -
          have "obj_rc rt2 q - proto_refs (shapes rt2) q = obj_rc rt q + of_bool (q = pr \<and> q \<noteq> 0) - proto_refs (shapes rt) q" for q
            using b12(1) orc e1 by (simp add: balanced_def)
          then have q: "obj_rc rt2 q - of_bool (q = pr \<and> q \<noteq> 0) - proto_refs (shapes rt2) q = obj_rc rt q - proto_refs (shapes rt) q" for q by (simp add: algebra_simps)
          have "atom_rc rt2 a - atom_refs (shapes rt2) a = atom_rc rt a - atom_refs (shapes rt) a" if "\<not> JS_AtomIsConst a" for a
            using b12(1) e1 that by (simp add: balanced_def)
          moreover have "obj_rc rt2 u - proto_refs (shapes rt2) u = obj_rc rt u - proto_refs (shapes rt) u" if "u \<noteq> pr \<or> pr = 0" for u
            using q [of u] that by auto
          ultimately show ?thesis using q [of pr] by (auto simp: balanced_def)
        qed
        ultimately show ?thesis by (rule_tac that [of SetNoMemory rt2]) (use r(2) v2 v b12(2) nc in simp_all)
      next
        case True
        with r(6) obtain s' sh' where s: "objs rt2 p = Some (ob\<lparr>shape := s'\<rparr>)" "shapes rt2 s' = Some sh'" "\<not> is_hashed sh'" "same_table sh sh'" by blast
        define rt3 where "rt3 = (if proto sh' \<noteq> 0 then free_object_ref (proto sh') rt2 else rt2)"
        define rt4 where "rt4 = set_shape s' (sh'\<lparr>proto := pr\<rparr>) rt3"
        define rt5 where "rt5 = set_obj p (ob\<lparr>shape := s', is_std_array_prototype := False\<rparr>) rt4"
        have e3: "shapes rt3 = shapes rt2" "objs rt3 = objs rt2" by (simp_all add: rt3_def)
        have st: "JS_SetPrototypeInternal al p pr rt = Some (SetTrue, rt5)"
          using p sh(1) 4 circ nc r(1) True s e3 by (simp add: JS_SetPrototypeInternal_def rt1_def rt5_def rt4_def rt3_def)
        have t: "table_ok (sh'\<lparr>proto := pr\<rparr>)" "props sh' = props sh" "proto sh' = proto sh" "prop_size sh' = prop_size sh"
          using same_table_ok [OF s(4)] s(4) sh(2) by (simp_all add: same_table_def table_ok_def)
        have z: "s' \<noteq> 0" and rc: "ref_count sh' = 1" using coreD(4,5) [OF rt_okD(1) [OF r(2)] s(2)] s(3) by auto
        have s2: "shapes rt2 (shape (ob\<lparr>shape := s'\<rparr>)) = Some sh'" using s(2) by simp
        let ?rt5 = "rt5\<lparr>obj_rc := \<lambda>q. obj_rc rt2 q - of_bool (proto sh = q \<and> q \<noteq> 0) + of_bool (pr = q \<and> q \<noteq> 0)\<rparr>"
        have rep: "rt_ok held ?rt5 \<and> frame {p} held rt2 ?rt5 \<and> obj_view ?rt5 p = Some (proto (sh'\<lparr>proto := pr\<rparr>), view (keys (props (sh'\<lparr>proto := pr\<rparr>))) (prop_values (ob\<lparr>shape := s', is_std_array_prototype := False\<rparr>)))"
          by (intro conjI; rule own_replace [OF r(2) h s(1) s2 s(3), of s' "sh'\<lparr>proto := pr\<rparr>" "ob\<lparr>shape := s', is_std_array_prototype := False\<rparr>" ?rt5])
            (use z rc t sh(4) s(3) in \<open>simp_all add: rt5_def rt4_def rt3_def set_shape_def set_obj_def\<close>)
        have "rt_ok held ?rt5 = rt_ok held rt5" by (rule rt_ok_cong) simp_all
        then have ok: "rt_ok held rt5" using rep by simp
        have vw: "obj_view rt5 q = obj_view ?rt5 q" for q by (simp add: obj_view_def)
        have "obj_view rt5 q = obj_view rt q" if "q \<noteq> p" for q using rep v2 that unfolding vw by (simp add: frame_def)
        moreover have "obj_view rt5 p = Some (pr, ps)" using rep t eq unfolding vw by simp
        moreover have "contexts rt5 = contexts rt" using b12(2) by (simp add: rt5_def rt4_def rt3_def set_shape_def set_obj_def)
        moreover have "balanced rt rt5"
        proof -
          have a: "obj_rc rt5 q = obj_rc rt2 q - of_bool (proto sh = q \<and> q \<noteq> 0)" for q using t(3) by (auto simp: rt5_def rt4_def rt3_def set_shape_def set_obj_def)
          have b: "obj_rc rt2 q - of_bool (proto sh = q \<and> q \<noteq> 0) + of_bool (pr = q \<and> q \<noteq> 0) - proto_refs (shapes rt5) q = obj_rc rt2 q - proto_refs (shapes rt2) q" for q
            using rep by (simp add: frame_def balanced_def)
          have c: "obj_rc rt2 q - proto_refs (shapes rt2) q = obj_rc rt q + of_bool (pr = q \<and> q \<noteq> 0) - proto_refs (shapes rt) q" for q
            using b12(1) orc e1 by (simp add: balanced_def eq_commute [of pr])
          have "obj_rc rt5 q - proto_refs (shapes rt5) q = obj_rc rt q - proto_refs (shapes rt) q" for q using a [of q] b [of q] c [of q] by linarith
          then show ?thesis using rep b12(1) e1 by (simp add: frame_def balanced_def)
        qed
        ultimately show ?thesis using st ok nc by (rule_tac that [of SetTrue rt5]) simp_all
      qed
    qed
  qed
qed

end
