(* ===== verification/ObjectStore.thy ===== *)
theory ObjectStore
  imports ObjectLife
begin

text \<open>
  The objects of the runtime as an abstract store: every object has a prototype and a list of properties in the order in
  which they were added. The operations of \<open>quickjs.c\<close> on objects with shared shapes refine the operations on this store,
  for every sequence of operations and every behaviour of the allocator and of the collector.
\<close>

section \<open>The interface\<close>

text \<open>A store with observable contents, on which operations run step by step and may answer in different ways.\<close>

fun run_ops :: "('op \<Rightarrow> 's \<Rightarrow> ('r \<times> 's) option) \<Rightarrow> 'op list \<Rightarrow> 's \<Rightarrow> ('r list \<times> 's) option" where
  "run_ops exec [] s = Some ([], s)"
| "run_ops exec (c # cs) s = do { (r, s) \<leftarrow> exec c s; (rs, s) \<leftarrow> run_ops exec cs s; Some (r # rs, s) }"

fun allowed_ops :: "('op \<Rightarrow> 's \<Rightarrow> ('r \<times> 's) option) \<Rightarrow> ('op \<Rightarrow> 's \<Rightarrow> bool) \<Rightarrow> 'op list \<Rightarrow> 's \<Rightarrow> bool" where
  "allowed_ops exec allowed [] s = True"
| "allowed_ops exec allowed (c # cs) s = (allowed c s \<and> (case exec c s of None \<Rightarrow> True | Some (r, s') \<Rightarrow> allowed_ops exec allowed cs s'))"

fun spec_ops :: "('op \<Rightarrow> 'r \<Rightarrow> 'a \<Rightarrow> 'a) \<Rightarrow> 'op list \<Rightarrow> 'r list \<Rightarrow> 'a \<Rightarrow> 'a" where
  "spec_ops spec (c # cs) (r # rs) A = spec_ops spec cs rs (spec c r A)"
| "spec_ops spec cs rs A = A"

locale property_store =
  fixes ok :: "'s \<Rightarrow> bool" and obs :: "'s \<Rightarrow> 'k \<rightharpoonup> 'c" and exec :: "'op \<Rightarrow> 's \<Rightarrow> ('r \<times> 's) option"
    and allowed :: "'op \<Rightarrow> 's \<Rightarrow> bool" and spec :: "'op \<Rightarrow> 'r \<Rightarrow> ('k \<rightharpoonup> 'c) \<Rightarrow> 'k \<rightharpoonup> 'c"
  assumes step: "ok s \<Longrightarrow> allowed c s \<Longrightarrow> \<exists>r s'. exec c s = Some (r, s') \<and> ok s' \<and> (\<forall>A. obs s \<subseteq>\<^sub>m A \<longrightarrow> obs s' \<subseteq>\<^sub>m spec c r A)"
begin

lemma run_refines:
  "ok s \<Longrightarrow> allowed_ops exec allowed cs s \<Longrightarrow> obs s \<subseteq>\<^sub>m A \<Longrightarrow>
    \<exists>rs s'. run_ops exec cs s = Some (rs, s') \<and> ok s' \<and> length rs = length cs \<and> obs s' \<subseteq>\<^sub>m spec_ops spec cs rs A"
proof (induction cs arbitrary: s A)
  case (Cons c cs)
  then obtain r s1 where r: "exec c s = Some (r, s1)" "ok s1" "obs s1 \<subseteq>\<^sub>m spec c r A" using step [of s c] by auto
  have "allowed_ops exec allowed cs s1" using Cons.prems(2) r(1) by simp
  from Cons.IH [OF r(2) this r(3)] obtain rs s' where "run_ops exec cs s1 = Some (rs, s')" "ok s'" "length rs = length cs" "obs s' \<subseteq>\<^sub>m spec_ops spec cs rs (spec c r A)" by blast
  then show ?case using r(1) by (intro exI [of _ "r # rs"] exI [of _ s']) simp
qed simp

end

section \<open>Operations on objects\<close>

datatype 'v obj_op = NewObject addr | NewObjectAlloc addr nat | DefineProperty addr JSAtom "6 word" 'v | SetFlags addr JSAtom "6 word"
  | DeleteProperty addr JSAtom | SetPrototype addr addr

text \<open>\<open>Refused\<close> is an answer that leaves the store as it is: no memory, or a change that is not allowed.\<close>

datatype obj_result = Created addr | Performed | Refused

text \<open>How a caller puts the operations together: it looks the property up, adds it when it is not there, and stores the value.\<close>

definition define_property :: "'v shape_alloc \<Rightarrow> addr \<Rightarrow> JSAtom \<Rightarrow> 6 word \<Rightarrow> 'v \<Rightarrow> 'v shape_rt \<Rightarrow> (obj_result \<times> 'v shape_rt) option" where
  "define_property al p a f v rt =
     do { r \<leftarrow> own_property p a rt;
          case r of
            Some i \<Rightarrow> do { rt \<leftarrow> set_property_value p i v rt; Some (Performed, rt) }
          | None \<Rightarrow> do { (r, rt) \<leftarrow> add_property al p a f rt;
                         case r of None \<Rightarrow> Some (Refused, rt) | Some i \<Rightarrow> do { rt \<leftarrow> set_property_value p i v rt; Some (Performed, rt) } } }"

definition set_property_flags :: "'v shape_alloc \<Rightarrow> addr \<Rightarrow> JSAtom \<Rightarrow> 6 word \<Rightarrow> 'v shape_rt \<Rightarrow> (obj_result \<times> 'v shape_rt) option" where
  "set_property_flags al p a f rt =
     do { r \<leftarrow> own_property p a rt;
          case r of
            None \<Rightarrow> Some (Refused, rt)
          | Some i \<Rightarrow> do { (r, rt) \<leftarrow> js_update_property_flags al p i f rt; Some (if r = 0 then Performed else Refused, rt) } }"

fun exec_op :: "'v shape_alloc \<Rightarrow> ('v shape_rt \<Rightarrow> addr list) \<Rightarrow> 'v \<Rightarrow> 'v obj_op \<Rightarrow> 'v shape_rt \<Rightarrow> (obj_result \<times> 'v shape_rt) option" where
  "exec_op al gc undef (NewObject pr) rt =
     do { (p, rt) \<leftarrow> JS_NewObjectProtoClass al gc pr rt; Some (if p = 0 then Refused else Created p, rt) }"
| "exec_op al gc undef (NewObjectAlloc pr n) rt =
     do { (p, rt) \<leftarrow> JS_NewObjectProtoClassAlloc al gc pr n rt; Some (if p = 0 then Refused else Created p, rt) }"
| "exec_op al gc undef (DefineProperty p a f v) rt = define_property al p a f v rt"
| "exec_op al gc undef (SetFlags p a f) rt = set_property_flags al p a f rt"
| "exec_op al gc undef (DeleteProperty p a) rt =
     do { (r, rt) \<leftarrow> delete_property al undef p a rt; Some (if r = 1 then Performed else Refused, rt) }"
| "exec_op al gc undef (SetPrototype p pr) rt =
     do { (r, rt) \<leftarrow> JS_SetPrototypeInternal al p pr rt; Some (if r = SetTrue then Performed else Refused, rt) }"

text \<open>
  What an operation may be called with: an object that exists, a proper atom, a chain of prototypes that ends, and counts within
  the limits of the data structures (\<open>hash_next\<close> has 26 bits, and the hash table of shapes has at most \<open>2 ^ 30\<close> elements).
\<close>

definition has_room :: "'v shape_rt \<Rightarrow> addr \<Rightarrow> bool" where
  "has_room rt p =
     (case objs rt p of None \<Rightarrow> False | Some ob \<Rightarrow> (case shapes rt (shape ob) of None \<Rightarrow> False | Some sh \<Rightarrow> prop_count sh < max_count))"

fun allowed_op :: "'v obj_op \<Rightarrow> 'v shape_rt \<Rightarrow> bool" where
  "allowed_op (NewObject pr) rt = (shape_hash_count rt < 2 ^ 28)"
| "allowed_op (NewObjectAlloc pr n) rt = (n \<le> 2 ^ 27)"
| "allowed_op (DefineProperty p a f v) rt = (a \<noteq> JS_ATOM_NULL \<and> has_room rt p)"
| "allowed_op (SetFlags p a f) rt = (a \<noteq> JS_ATOM_NULL \<and> objs rt p \<noteq> None)"
| "allowed_op (DeleteProperty p a) rt = (a \<noteq> JS_ATOM_NULL \<and> objs rt p \<noteq> None)"
| "allowed_op (SetPrototype p pr) rt = (objs rt p \<noteq> None \<and> (pr = 0 \<or> on_proto_chain (obj_proto rt) 0 pr \<noteq> None))"

text \<open>The abstract store.\<close>

type_synonym 'v store = "addr \<rightharpoonup> 'v obj_view"

definition on_props :: "addr \<Rightarrow> ((JSAtom \<times> 6 word \<times> 'v option) list \<Rightarrow> (JSAtom \<times> 6 word \<times> 'v option) list) \<Rightarrow> 'v store \<Rightarrow> 'v store" where
  "on_props p g A = A(p := map_option (\<lambda>(pr, ps). (pr, g ps)) (A p))"

definition put :: "JSAtom \<Rightarrow> 6 word \<Rightarrow> 'v option \<Rightarrow> (JSAtom \<times> 6 word \<times> 'v option) list \<Rightarrow> (JSAtom \<times> 6 word \<times> 'v option) list" where
  "put a f v ps = (case lookup a ps of None \<Rightarrow> ps @ [(a, f, v)] | Some _ \<Rightarrow> with_value a v ps)"

fun spec_op :: "'v obj_op \<Rightarrow> obj_result \<Rightarrow> 'v store \<Rightarrow> 'v store" where
  "spec_op (NewObject pr) (Created p) A = A(p \<mapsto> (pr, []))"
| "spec_op (NewObjectAlloc pr n) (Created p) A = A(p \<mapsto> (pr, []))"
| "spec_op (DefineProperty p a f v) Performed A = on_props p (put a f (Some v)) A"
| "spec_op (SetFlags p a f) Performed A = on_props p (with_flags a f) A"
| "spec_op (DeleteProperty p a) Performed A = on_props p (without a) A"
| "spec_op (SetPrototype p pr) Performed A = A(p := map_option (\<lambda>(_, ps). (pr, ps)) (A p))"
| "spec_op c r A = A"

definition store_ok :: "(addr \<Rightarrow> int) \<Rightarrow> 'v shape_rt \<Rightarrow> bool" where
  "store_ok held rt = (rt_ok held rt \<and> contexts_ok rt)"

section \<open>Each operation\<close>

lemma own_property_view:
  assumes i: "rt_ok held rt" and a: "a \<noteq> JS_ATOM_NULL" and p: "objs rt p = Some ob"
  obtains sh pr ps where "shapes rt (shape ob) = Some sh" "obj_view rt p = Some (pr, ps)" "own_property p a rt = Some (index_of (props sh) a)"
    "lookup a ps = None \<longleftrightarrow> index_of (props sh) a = None" "ps = view (keys (props sh)) (prop_values ob)" "table_ok sh" "prop_count sh \<le> length (prop_values ob)"
proof -
  obtain sh where sh: "shapes rt (shape ob) = Some sh" "table_ok sh" "prop_count sh \<le> prop_size sh" "prop_size sh \<le> length (prop_values ob)"
    "obj_view rt p = Some (proto sh, view (keys (props sh)) (prop_values ob))" "shape ob \<noteq> 0" by (rule objE [OF i p])
  have "own_property p a rt = Some (index_of (props sh) a)" using p sh(1) find_own_property_ok [OF sh(2) a] by (simp add: own_property_def)
  then show ?thesis by (rule that [OF sh(1,5)]) (use lookup_index [OF sh(2) a, of "prop_values ob"] sh in auto)
qed

lemma view_step: "obj_view rt \<subseteq>\<^sub>m A \<Longrightarrow> frame {p} held rt rt' \<Longrightarrow> obj_view rt p = Some (pr, ps) \<Longrightarrow> obj_view rt' p = Some (pr, g ps) \<Longrightarrow> obj_view rt' \<subseteq>\<^sub>m on_props p g A"
  unfolding map_le_def frame_def on_props_def by (auto simp: dom_def)

lemma view_same: "obj_view rt \<subseteq>\<^sub>m A \<Longrightarrow> frame {p} held rt rt' \<Longrightarrow> obj_view rt' p = obj_view rt p \<Longrightarrow> obj_view rt' \<subseteq>\<^sub>m A"
  unfolding map_le_def frame_def by (metis domIff insertE singletonD)

lemma define_step:
  assumes s: "store_ok held rt" and h: "\<And>s. 0 \<le> held s" and al: "fresh_alloc al" and a: "a \<noteq> JS_ATOM_NULL" and rm: "has_room rt p"
  shows "\<exists>r rt'. define_property al p a f v rt = Some (r, rt') \<and> store_ok held rt' \<and> (r = Performed \<or> r = Refused) \<and> frame {p} held rt rt' \<and>
    (\<exists>pr ps. obj_view rt p = Some (pr, ps) \<and> obj_view rt' p = Some (pr, if r = Performed then put a f (Some v) ps else ps))"
proof -
  have i: "rt_ok held rt" and x: "contexts_ok rt" using s by (simp_all add: store_ok_def)
  obtain ob where p: "objs rt p = Some ob" using rm by (auto simp: has_room_def split: option.splits)
  obtain sh pr ps where w: "shapes rt (shape ob) = Some sh" "obj_view rt p = Some (pr, ps)" "own_property p a rt = Some (index_of (props sh) a)"
    "lookup a ps = None \<longleftrightarrow> index_of (props sh) a = None" "ps = view (keys (props sh)) (prop_values ob)" "table_ok sh" "prop_count sh \<le> length (prop_values ob)"
    by (rule own_property_view [OF i a p])
  have n: "prop_count sh' < max_count" if "objs rt p = Some ob'" "shapes rt (shape ob') = Some sh'" for ob' sh' using rm that by (simp add: has_room_def)
  show ?thesis
  proof (cases "index_of (props sh) a")
    case (Some k)
    obtain rt' where m: "set_property_value p k v rt = Some rt'" "rt_ok held rt'" "frame {p} held rt rt'" "obj_view rt' p = Some (pr, with_value a (Some v) ps)"
      by (rule set_value_ok [OF i p w(1) a Some w(2)])
    have "contexts_ok rt'" using contexts_frame [OF x m(3)] m(4) by simp
    moreover have "put a f (Some v) ps = with_value a (Some v) ps" using w(4) Some by (auto simp: put_def)
    ultimately show ?thesis using m w(2,3) Some by (auto simp: define_property_def store_ok_def)
  next
    case None
    then have nl: "lookup a ps = None" using w(4) by simp
    obtain r rt1 where m: "add_property al p a f rt = Some (r, rt1)" "rt_ok held rt1" "frame {p} held rt rt1" "released rt1 = released rt"
      "r = None \<longrightarrow> obj_view rt1 p = Some (pr, ps)"
      "r \<noteq> None \<longrightarrow> (\<exists>w ob' sh'. obj_view rt1 p = Some (pr, ps @ [(a, f, w)]) \<and> objs rt1 p = Some ob' \<and> shapes rt1 (shape ob') = Some sh' \<and> index_of (props sh') a = r)"
      by (rule add_property_ok [OF i x h al a w(2) nl n])
    show ?thesis
    proof (cases r)
      case rn: None
      then have "contexts_ok rt1" using contexts_frame [OF x m(3)] m(5) by simp
      then show ?thesis using m rn None w(2,3) by (auto simp: define_property_def store_ok_def)
    next
      case (Some k)
      with m(6) obtain u ob' sh' where z: "obj_view rt1 p = Some (pr, ps @ [(a, f, u)])" "objs rt1 p = Some ob'" "shapes rt1 (shape ob') = Some sh'" "index_of (props sh') a = Some k" by auto
      obtain rt' where t: "set_property_value p k v rt1 = Some rt'" "rt_ok held rt'" "frame {p} held rt1 rt'" "obj_view rt' p = Some (pr, with_value a (Some v) (ps @ [(a, f, u)]))"
        by (rule set_value_ok [OF m(2) z(2,3) a z(4,1)])
      have fr: "frame {p} held rt rt'" using frame_trans [OF m(3) t(3)] .
      have "with_value a (Some v) ps = ps" using nl unfolding lookup_def map_of_eq_None_iff with_value_def by (intro map_idI) force
      then have "with_value a (Some v) (ps @ [(a, f, u)]) = put a f (Some v) ps" using nl by (simp add: put_def with_value_def)
      moreover have "contexts_ok rt'" using contexts_frame [OF x fr] t(4) by simp
      ultimately show ?thesis using t m(1) Some None w(2,3) fr by (auto simp: define_property_def store_ok_def)
    qed
  qed
qed

lemma flags_step:
  assumes s: "store_ok held rt" and h: "\<And>s. 0 \<le> held s" and al: "fresh_alloc al" and a: "a \<noteq> JS_ATOM_NULL" and p: "objs rt p = Some ob"
  shows "\<exists>r rt'. set_property_flags al p a f rt = Some (r, rt') \<and> store_ok held rt' \<and> (r = Performed \<or> r = Refused) \<and> frame {p} held rt rt' \<and>
    (\<exists>pr ps. obj_view rt p = Some (pr, ps) \<and> obj_view rt' p = Some (pr, if r = Performed then with_flags a f ps else ps))"
proof -
  have i: "rt_ok held rt" and x: "contexts_ok rt" using s by (simp_all add: store_ok_def)
  obtain sh pr ps where w: "shapes rt (shape ob) = Some sh" "obj_view rt p = Some (pr, ps)" "own_property p a rt = Some (index_of (props sh) a)"
    "lookup a ps = None \<longleftrightarrow> index_of (props sh) a = None" "ps = view (keys (props sh)) (prop_values ob)" "table_ok sh" "prop_count sh \<le> length (prop_values ob)"
    by (rule own_property_view [OF i a p])
  show ?thesis
  proof (cases "index_of (props sh) a")
    case None
    then show ?thesis using w s by (auto simp: set_property_flags_def frame_refl)
  next
    case (Some k)
    obtain r rt' where m: "js_update_property_flags al p k f rt = Some (r, rt')" "rt_ok held rt'" "frame {p} held rt rt'" "r = 0 \<or> r = -1"
      "obj_view rt' p = Some (pr, if r = 0 then with_flags a f ps else ps)"
      by (rule update_flags_ok [OF i h al p w(1) a Some w(2)])
    have "contexts_ok rt'" using contexts_frame [OF x m(3)] m(5) by simp
    then show ?thesis using m w(2,3) Some by (auto simp: set_property_flags_def store_ok_def)
  qed
qed

lemma proto_path0:
  assumes "on_proto_chain protos p x = Some b"
  shows "p = 0 \<longrightarrow> (\<exists>xs. path protos x xs)"
proof (rule on_proto_chain.raw_induct [where P = "\<lambda>protos p x b. p = 0 \<longrightarrow> (\<exists>xs. path protos x xs)", OF _ assms], intro impI)
  fix f :: "(addr \<rightharpoonup> addr) \<Rightarrow> addr \<Rightarrow> addr \<Rightarrow> bool option" and protos p x b
  assume ih: "\<And>protos p x b. f protos p x = Some b \<Longrightarrow> p = 0 \<longrightarrow> (\<exists>xs. path protos x xs)" and p: "p = 0"
    and s: "(if x = p then Some True else case protos x of None \<Rightarrow> None | Some y \<Rightarrow> if y \<noteq> 0 then f protos p y else Some False) = Some b"
  consider "x = 0" | "x \<noteq> 0" "protos x = Some 0" | y where "x \<noteq> 0" "protos x = Some y" "f protos p y = Some b"
    using s p by (cases "x = 0"; cases "protos x") (auto split: if_splits)
  then show "\<exists>xs. path protos x xs"
  proof cases
    case 1
    then show ?thesis by (metis path.simps(1))
  next
    case 2
    then have "path protos x [x]" by simp
    then show ?thesis by blast
  next
    case 3
    then obtain ys where "path protos y ys" using ih p by blast
    then have "path protos x (x # ys)" using 3 by simp
    then show ?thesis by blast
  qed
qed

lemma allowed_chain: "pr = 0 \<or> on_proto_chain (obj_proto rt) 0 pr \<noteq> None \<Longrightarrow> \<exists>xs. path (obj_proto rt) pr xs"
  using proto_path0 path.simps(1) by (metis not_None_eq)

lemma shrunk_le: "obj_view rt \<subseteq>\<^sub>m A \<Longrightarrow> \<forall>q. q \<noteq> p \<longrightarrow> shrunk rt rt' q \<Longrightarrow> obj_view rt' p = Some y \<Longrightarrow> obj_view rt' \<subseteq>\<^sub>m A(p \<mapsto> y)"
  unfolding map_le_def shrunk_def by (auto simp: dom_def)

lemma shrunk_le': "obj_view rt \<subseteq>\<^sub>m A \<Longrightarrow> \<forall>q. shrunk rt rt' q \<Longrightarrow> obj_view rt' \<subseteq>\<^sub>m A"
  unfolding map_le_def shrunk_def by (metis domIff)

lemma exec_step:
  assumes s: "store_ok held rt" and h: "\<And>s. 0 \<le> held s" and al: "fresh_alloc al" and gc: "gc_ok gc" and c: "allowed_op c rt"
  shows "\<exists>r rt'. exec_op al gc undef c rt = Some (r, rt') \<and> store_ok held rt' \<and> (\<forall>A. obj_view rt \<subseteq>\<^sub>m A \<longrightarrow> obj_view rt' \<subseteq>\<^sub>m spec_op c r A)"
proof -
  have i: "rt_ok held rt" and x: "contexts_ok rt" using s by (simp_all add: store_ok_def)
  show ?thesis
  proof (cases c)
    case (NewObject pr)
    have n: "shape_hash_count rt < 2 ^ 28" using c NewObject by simp
    obtain p rt' where m: "JS_NewObjectProtoClass al gc pr rt = Some (p, rt')" "rt_ok held rt'" "contexts_ok rt'" "balanced_but p rt rt'"
      "\<forall>q. q \<noteq> p \<longrightarrow> shrunk rt rt' q" "p = 0 \<longrightarrow> shrunk rt rt' p" "p \<noteq> 0 \<longrightarrow> obj_view rt' p = Some (pr, [])"
      "\<forall>t. 0 < held t \<longrightarrow> shape_view (shapes rt') t = shape_view (shapes rt) t" by (rule new_object_ok [OF i h al gc x n])
    moreover have "\<forall>q. shrunk rt rt' q" if "p = 0" using m(5,6) that by metis
    ultimately show ?thesis using NewObject shrunk_le [of rt _ p rt'] shrunk_le' [of rt _ rt'] by (cases "p = 0") (auto simp: store_ok_def)
  next
    case (NewObjectAlloc pr n)
    then have n: "n \<le> 2 ^ 27" using c by simp
    obtain p rt' where m: "JS_NewObjectProtoClassAlloc al gc pr n rt = Some (p, rt')" "rt_ok held rt'" "contexts_ok rt'" "balanced_but p rt rt'"
      "\<forall>q. q \<noteq> p \<longrightarrow> shrunk rt rt' q" "p = 0 \<longrightarrow> shrunk rt rt' p" "p \<noteq> 0 \<longrightarrow> obj_view rt' p = Some (pr, [])"
      "\<forall>t. 0 < held t \<longrightarrow> shape_view (shapes rt') t = shape_view (shapes rt) t" by (rule new_object_alloc_ok [OF i h al gc x n])
    moreover have "\<forall>q. shrunk rt rt' q" if "p = 0" using m(5,6) that by metis
    ultimately show ?thesis using NewObjectAlloc shrunk_le [of rt _ p rt'] shrunk_le' [of rt _ rt'] by (cases "p = 0") (auto simp: store_ok_def)
  next
    case (DefineProperty p a f v)
    then have "a \<noteq> JS_ATOM_NULL" "has_room rt p" using c by auto
    from define_step [OF s h al this, of f v] obtain r rt' pr ps where m: "define_property al p a f v rt = Some (r, rt')" "store_ok held rt'" "r = Performed \<or> r = Refused"
      "frame {p} held rt rt'" "obj_view rt p = Some (pr, ps)" "obj_view rt' p = Some (pr, if r = Performed then put a f (Some v) ps else ps)" by blast
    then show ?thesis using DefineProperty view_step [OF _ m(4,5), of _ "put a f (Some v)"] view_same [OF _ m(4)] by auto
  next
    case (SetFlags p a f)
    then obtain ob where o: "a \<noteq> JS_ATOM_NULL" "objs rt p = Some ob" using c by auto
    from flags_step [OF s h al o, of f] obtain r rt' pr ps where m: "set_property_flags al p a f rt = Some (r, rt')" "store_ok held rt'" "r = Performed \<or> r = Refused"
      "frame {p} held rt rt'" "obj_view rt p = Some (pr, ps)" "obj_view rt' p = Some (pr, if r = Performed then with_flags a f ps else ps)" by blast
    then show ?thesis using SetFlags view_step [OF _ m(4,5), of _ "with_flags a f"] view_same [OF _ m(4)] by auto
  next
    case (DeleteProperty p a)
    then obtain ob where a: "a \<noteq> JS_ATOM_NULL" and o: "objs rt p = Some ob" using c by auto
    obtain pr ps where v: "obj_view rt p = Some (pr, ps)" using view_none [OF i, of p] o by (cases "obj_view rt p") auto
    obtain r rt' where m: "delete_property al undef p a rt = Some (r, rt')" "rt_ok held rt'" "frame {p} held rt rt'" "delete_result a ps r"
      "obj_view rt' p = Some (pr, deleted a r ps)"
      "released rt' = (case lookup a ps of Some (f, Some x) \<Rightarrow> if r = 1 then x # released rt else released rt | _ \<Rightarrow> released rt)"
      by (rule delete_ok [OF i h al a v])
    have "contexts_ok rt'" using contexts_frame [OF x m(3)] m(5) by simp
    then show ?thesis using DeleteProperty m v view_step [OF _ m(3) v, of _ "without a"] view_same [OF _ m(3)] by (auto simp: store_ok_def deleted_def)
  next
    case (SetPrototype p pr)
    then obtain ob where o: "objs rt p = Some ob" and q: "pr = 0 \<or> on_proto_chain (obj_proto rt) 0 pr \<noteq> None" using c by auto
    obtain xs where xs: "path (obj_proto rt) pr xs" using allowed_chain [OF q] by blast
    obtain pr0 ps where v: "obj_view rt p = Some (pr0, ps)" using view_none [OF i, of p] o by (cases "obj_view rt p") auto
    obtain r rt' where m: "JS_SetPrototypeInternal al p pr rt = Some (r, rt')" "rt_ok held rt'" "\<forall>q. q \<noteq> p \<longrightarrow> obj_view rt' q = obj_view rt q"
      "obj_view rt' p = Some (if r = SetTrue then pr else pr0, ps)" "contexts rt' = contexts rt"
      "r = SetCircular \<longleftrightarrow> (p \<in> set xs \<and> pr0 \<noteq> pr \<and> (\<exists>ob. objs rt p = Some ob \<and> \<not> has_immutable_prototype ob \<and> extensible ob))"
      "balanced rt (if r = SetNoMemory \<and> pr \<noteq> 0 then rt'\<lparr>obj_rc := (obj_rc rt')(pr := obj_rc rt' pr - 1)\<rparr> else rt')"
      "r = SetTrue \<longrightarrow> pr = pr0 \<or> p \<notin> set xs"
      by (rule set_prototype_ok [OF i h al v xs])
    have "obj_view rt' q \<noteq> None" if "obj_view rt q \<noteq> None" for q using m(3,4) that by (cases "q = p") auto
    then have "contexts_ok rt'" using x m(5) by (auto simp: contexts_ok_def list_all_iff)
    moreover have "obj_view rt' \<subseteq>\<^sub>m A(p := map_option (\<lambda>(_, ps). (pr, ps)) (A p))" if "obj_view rt \<subseteq>\<^sub>m A" "r = SetTrue" for A
      using that m(3,4) v unfolding map_le_def by (auto simp: dom_def)
    moreover have "obj_view rt' \<subseteq>\<^sub>m A" if "obj_view rt \<subseteq>\<^sub>m A" "r \<noteq> SetTrue" for A
    proof -
      have "obj_view rt' q = obj_view rt q" for q using m(3,4) v that(2) by (cases "q = p") auto
      then have "obj_view rt' = obj_view rt" by (rule ext)
      then show ?thesis using that(1) by simp
    qed
    ultimately show ?thesis using SetPrototype m(1,2) by (auto simp: store_ok_def)
  qed
qed

interpretation objects: property_store "\<lambda>rt. store_ok held rt \<and> (\<forall>s. 0 \<le> held s) \<and> fresh_alloc al \<and> gc_ok gc" obj_view "exec_op al gc undef" allowed_op spec_op
  for held al gc undef
proof (unfold_locales, goal_cases)
  case (1 rt c)
  then show ?case using exec_step [of held rt al gc c undef] by blast
qed

end
