(* ===== verification/ObjectFail.thy ===== *)
theory ObjectFail
  imports ObjectStore
begin

text \<open>
  When the operations on objects fail: only after the allocator has failed, or for the reason that the operation itself
  has to refuse the change.
\<close>

section \<open>Counting the failures of the allocator\<close>

definition failures :: "'v shape_rt \<Rightarrow> nat" where
  "failures rt = count_list (alloc_log rt) 0"

text \<open>The step from \<open>rt\<close> to \<open>rt'\<close>, which reports a failure when \<open>b\<close> holds.\<close>

definition accounts :: "bool \<Rightarrow> 'v shape_rt \<Rightarrow> 'v shape_rt \<Rightarrow> bool" where
  "accounts b rt rt' = (failures rt + of_bool b \<le> failures rt')"

lemma accounts_same: "alloc_log rt' = alloc_log rt \<Longrightarrow> accounts False rt rt'"
  by (simp add: accounts_def failures_def)

lemma accounts_trans: "accounts b rt1 rt2 \<Longrightarrow> accounts c rt2 rt3 \<Longrightarrow> accounts (b \<or> c) rt1 rt3"
  by (cases b; cases c) (auto simp: accounts_def)

lemma accounts_mono: "accounts b rt1 rt2 \<Longrightarrow> alloc_log rt3 = alloc_log rt2 \<Longrightarrow> (c \<Longrightarrow> b) \<Longrightarrow> accounts c rt1 rt3"
  by (cases b; cases c) (auto simp: accounts_def failures_def)

lemma js_malloc_accounts: "js_malloc al rt = (x, rt') \<Longrightarrow> accounts (x = 0) rt rt'"
  by (auto simp: js_malloc_def accounts_def failures_def)

section \<open>Operations that do not allocate\<close>

lemma log_set [simp]:
  "alloc_log (set_shape s sh rt) = alloc_log rt" "alloc_log (set_obj p ob rt) = alloc_log rt"
  "alloc_log (JS_DupAtom a rt) = alloc_log rt" "alloc_log (JS_FreeAtom a rt) = alloc_log rt"
  "alloc_log (dup_object p rt) = alloc_log rt" "alloc_log (free_object_ref p rt) = alloc_log rt" "alloc_log (free_property_rt v rt) = alloc_log rt"
  by (simp_all add: set_shape_def set_obj_def JS_DupAtom_def JS_FreeAtom_def dup_object_def free_object_ref_def free_property_rt_def Let_def split: option.split)

lemma log_fold [simp]:
  "alloc_log (fold (\<lambda>pr. JS_DupAtom (atom pr)) ps rt) = alloc_log rt" "alloc_log (fold (\<lambda>pr. JS_FreeAtom (atom pr)) ps rt) = alloc_log rt"
  "alloc_log (fold free_property_rt vs rt) = alloc_log rt"
  by (rule fold_keep, simp)+

lemma log_link: "js_shape_hash_link s rt = Some rt' \<Longrightarrow> alloc_log rt' = alloc_log rt"
  by (auto simp: js_shape_hash_link_def bind_eq_Some_conv Let_def split: if_splits)

lemma log_unlink: "js_shape_hash_unlink s rt = Some rt' \<Longrightarrow> alloc_log rt' = alloc_log rt"
  by (auto simp: js_shape_hash_unlink_def bind_eq_Some_conv Let_def split: if_splits option.splits)

lemma log_free_shape0: "js_free_shape0_rt s rt = Some rt' \<Longrightarrow> alloc_log rt' = alloc_log rt"
  by (auto simp: js_free_shape0_rt_def bind_eq_Some_conv Let_def dest!: log_unlink split: if_splits)

lemma log_free_shape: "js_free_shape_rt s rt = Some rt' \<Longrightarrow> alloc_log rt' = alloc_log rt"
  by (auto simp: js_free_shape_rt_def bind_eq_Some_conv Let_def dest!: log_free_shape0 split: if_splits)

lemma log_dup_shape: "js_dup_shape s rt = Some rt' \<Longrightarrow> alloc_log rt' = alloc_log rt"
  by (auto simp: js_dup_shape_def bind_eq_Some_conv)

lemma log_store_psh: "store_psh po s rt = Some rt' \<Longrightarrow> alloc_log rt' = alloc_log rt"
  by (auto simp: store_psh_def bind_eq_Some_conv split: option.splits)

lemma log_reset: "reset_std_array_prototype p a rt = Some rt' \<Longrightarrow> alloc_log rt' = alloc_log rt"
  by (auto simp: reset_std_array_prototype_def bind_eq_Some_conv split: if_splits option.splits)

lemma log_set_value: "set_property_value p i v rt = Some rt' \<Longrightarrow> alloc_log rt' = alloc_log rt"
  by (auto simp: set_property_value_def bind_eq_Some_conv split: if_splits)

lemma log_free_object: "free_object_rt p rt = Some rt' \<Longrightarrow> alloc_log rt' = alloc_log rt"
  by (auto simp: free_object_rt_def bind_eq_Some_conv Let_def dest!: log_free_shape split: if_splits)

lemma log_free_objects: "free_objects ps rt = Some rt' \<Longrightarrow> alloc_log rt' = alloc_log rt"
  by (induction ps arbitrary: rt) (auto simp: bind_eq_Some_conv dest!: log_free_object)

lemmas log_keeps = log_link log_unlink log_free_shape log_dup_shape log_store_psh log_reset log_set_value log_free_objects

section \<open>Operations that allocate\<close>

lemma resize_values_accounts: "resize_values al po n rt = Some (d, rt') \<Longrightarrow> accounts (\<not> d) rt rt'"
  by (cases "js_malloc al rt") (auto simp: resize_values_def bind_eq_Some_conv split: option.splits prod.splits if_splits dest!: js_malloc_accounts intro: accounts_same elim: accounts_mono)

lemma clone_accounts: "js_clone_shape al s rt = Some (t, rt') \<Longrightarrow> accounts (t = 0) rt rt'"
  by (cases "js_malloc al rt") (auto simp: js_clone_shape_def bind_eq_Some_conv Let_def split: prod.splits if_splits dest!: js_malloc_accounts elim!: accounts_mono)

lemma resize_properties_accounts: "resize_properties al s po n rt = Some (t, rt') \<Longrightarrow> accounts (t = 0) rt rt'"
proof -
  assume *: "resize_properties al s po n rt = Some (t, rt')"
  obtain sh where sh: "shapes rt s = Some sh" using * by (auto simp: resize_properties_def bind_eq_Some_conv)
  obtain d rt1 where d: "resize_values al po (new_prop_size n sh) rt = Some (d, rt1)" using * sh by (auto simp: resize_properties_def bind_eq_Some_conv)
  obtain x rt2 where m: "js_malloc al rt1 = (x, rt2)" by fastforce
  show ?thesis
    using * sh d m resize_values_accounts [OF d] js_malloc_accounts [OF m]
    by (auto simp: resize_properties_def bind_eq_Some_conv Let_def accounts_def failures_def split: if_splits dest!: log_store_psh)
qed

lemma add_shape_property_accounts: "add_shape_property al s po a f rt = Some (t, rt') \<Longrightarrow> s \<noteq> 0 \<Longrightarrow> accounts (t = 0) rt rt'"
proof -
  assume *: "add_shape_property al s po a f rt = Some (t, rt')" and nz: "s \<noteq> 0"
  then obtain sh rt1 u rt2 where s: "(if is_hashed sh then js_shape_hash_unlink s rt else Some rt) = Some rt1"
    "(if prop_size sh \<le> prop_count sh then resize_properties al s po (prop_count sh + 1) rt1 else Some (s, rt1)) = Some (u, rt2)"
    "(if u = 0 then do { rt \<leftarrow> (if is_hashed sh then js_shape_hash_link s rt2 else Some rt2); Some (0, rt) }
      else do { sh' \<leftarrow> shapes rt2 u;
                rt \<leftarrow> (if is_hashed sh' then js_shape_hash_link u (set_shape u (sh'\<lparr>hash := prop_hash sh a f\<rparr>) rt2) else Some rt2);
                sh' \<leftarrow> shapes rt u;
                Some (u, set_shape u (append_property a f sh') (JS_DupAtom a rt)) }) = Some (t, rt')"
    unfolding add_shape_property_def Let_def bind_eq_Some_conv by auto
  have l1: "alloc_log rt1 = alloc_log rt" using s(1) by (auto dest: log_unlink split: if_splits)
  have a2: "accounts (u = 0) rt1 rt2" using s(2) nz by (auto split: if_splits intro: accounts_same dest: resize_properties_accounts)
  have "t = u" "alloc_log rt' = alloc_log rt2" using s(3) by (auto simp: bind_eq_Some_conv split: if_splits dest!: log_link)
  then show ?thesis using a2 l1 by (simp add: accounts_def failures_def)
qed

lemma add_own_accounts: "add_own_property al p a f rt = Some (r, rt') \<Longrightarrow> objs rt p = Some ob \<Longrightarrow> shape ob \<noteq> 0 \<Longrightarrow> accounts (r = None) rt rt'"
  by (auto simp: add_own_property_def bind_eq_Some_conv split: if_splits dest!: add_shape_property_accounts)

lemma use_shape_accounts: "use_shape al p s rt = Some (r, rt') \<Longrightarrow> accounts (r = None) rt rt'"
proof -
  assume *: "use_shape al p s rt = Some (r, rt')"
  then obtain ob sh sh1 where o: "objs rt p = Some ob" "shapes rt (shape ob) = Some sh" "shapes rt s = Some sh1" by (auto simp: use_shape_def bind_eq_Some_conv)
  obtain d rt1 where d: "(if prop_size sh1 \<noteq> prop_size sh then resize_values al (Some p) (prop_size sh1) rt else Some (True, rt)) = Some (d, rt1)"
    using * o by (auto simp: use_shape_def bind_eq_Some_conv)
  have "accounts (\<not> d) rt rt1" using d by (auto split: if_splits intro: accounts_same dest: resize_values_accounts)
  then show ?thesis using * o unfolding use_shape_def
    by (simp add: d) (auto simp: bind_eq_Some_conv accounts_def failures_def split: if_splits dest!: log_keeps)
qed

lemma prepare_update_accounts: "js_shape_prepare_update al p rt = Some (r, rt') \<Longrightarrow> accounts (r \<noteq> 0) rt rt'"
proof -
  assume *: "js_shape_prepare_update al p rt = Some (r, rt')"
  then obtain ob sh where o: "objs rt p = Some ob" "shapes rt (shape ob) = Some sh" by (auto simp: js_shape_prepare_update_def bind_eq_Some_conv)
  show ?thesis
  proof (cases "is_hashed sh \<and> ref_count sh \<noteq> 1")
    case True
    with * o obtain s rt1 where c: "js_clone_shape al (shape ob) rt = Some (s, rt1)" by (auto simp: js_shape_prepare_update_def bind_eq_Some_conv)
    have "s = 0 \<and> rt' = rt1 \<or> r = 0 \<and> (\<exists>rt2. js_free_shape_rt (shape ob) rt1 = Some rt2 \<and> store_psh (Some p) s rt2 = Some rt')"
      using * o c True by (auto simp: js_shape_prepare_update_def bind_eq_Some_conv split: if_splits)
    then show ?thesis
    proof (elim disjE conjE exE)
      fix rt2 assume k: "js_free_shape_rt (shape ob) rt1 = Some rt2" "store_psh (Some p) s rt2 = Some rt'" "r = 0"
      have "alloc_log rt' = alloc_log rt1" using log_free_shape [OF k(1)] log_store_psh [OF k(2)] by (rule trans [rotated])
      then show ?thesis using accounts_mono [OF clone_accounts [OF c]] k(3) by simp
    qed (use clone_accounts [OF c] accounts_mono in \<open>simp add: accounts_def\<close>)
  next
    case False
    then have "r = 0" "alloc_log rt' = alloc_log rt"
      using * o by (auto simp: js_shape_prepare_update_def bind_eq_Some_conv split: if_splits dest!: log_keeps)
    then show ?thesis using accounts_same by simp
  qed
qed

lemma update_flags_accounts: "js_update_property_flags al p i f rt = Some (r, rt') \<Longrightarrow> accounts (r \<noteq> 0) rt rt'"
  by (auto simp: js_update_property_flags_def bind_eq_Some_conv split: if_splits dest!: prepare_update_accounts intro: accounts_same elim!: accounts_mono)

lemma new_shape_nohash_accounts: "js_new_shape_nohash al pr n m rt = (s, rt') \<Longrightarrow> accounts (s = 0) rt rt'"
  by (cases "js_malloc al rt") (auto simp: js_new_shape_nohash_def Let_def split: prod.splits if_splits dest!: js_malloc_accounts elim!: accounts_mono)

lemma resize_shape_hash_accounts: "resize_shape_hash al n rt = Some (r, rt') \<Longrightarrow> accounts (r \<noteq> 0) rt rt'"
  by (cases "js_malloc al rt") (auto simp: resize_shape_hash_def bind_eq_Some_conv split: prod.splits if_splits dest!: js_malloc_accounts elim!: accounts_mono)

lemma new_shape2_accounts: "js_new_shape2 al pr n m rt = Some (s, rt') \<Longrightarrow> accounts (s = 0) rt rt'"
proof -
  assume *: "js_new_shape2 al pr n m rt = Some (s, rt')"
  then obtain r rt1 where r: "(if 2 * (shape_hash_count rt + 1) > shape_hash_size rt then resize_shape_hash al (shape_hash_bits rt + 1) rt else Some (0, rt)) = Some (r, rt1)"
    by (auto simp: js_new_shape2_def bind_eq_Some_conv)
  obtain t rt2 where n: "js_new_shape_nohash al pr n m rt1 = (t, rt2)" by fastforce
  have "accounts False rt rt1" using r by (auto split: if_splits intro: accounts_same accounts_mono [OF resize_shape_hash_accounts])
  from accounts_trans [OF this new_shape_nohash_accounts [OF n]] have a: "accounts (t = 0) rt rt2" by simp
  have "s = t \<and> alloc_log rt' = alloc_log rt2"
    using * unfolding js_new_shape2_def r by (simp add: n) (auto simp: bind_eq_Some_conv split: if_splits dest!: log_link)
  then show ?thesis using accounts_mono [OF a] by simp
qed

lemma from_shape_accounts: "JS_NewObjectFromShape al gc s rt = Some (p, rt') \<Longrightarrow> accounts (p = 0) rt rt'"
proof -
  assume *: "JS_NewObjectFromShape al gc s rt = Some (p, rt')"
  obtain rt1 where g: "free_objects (gc rt) rt = Some rt1" using * by (auto simp: JS_NewObjectFromShape_def js_trigger_gc_def bind_eq_Some_conv)
  obtain x rt2 where x: "js_malloc al rt1 = (x, rt2)" by fastforce
  obtain y rt3 where y: "js_malloc al rt2 = (y, rt3)" by fastforce
  have l: "failures rt1 = failures rt" using log_free_objects [OF g] by (simp add: failures_def)
  have "p = 0 \<and> x = 0 \<and> alloc_log rt' = alloc_log rt2 \<or> x \<noteq> 0 \<and> p = (if y = 0 then 0 else x) \<and> alloc_log rt' = alloc_log rt3"
    using * unfolding JS_NewObjectFromShape_def js_trigger_gc_def
    by (simp add: g x y) (auto simp: bind_eq_Some_conv y split: if_splits dest!: log_free_shape)
  then show ?thesis using js_malloc_accounts [OF x] js_malloc_accounts [OF y] l by (auto simp: accounts_def failures_def split: if_splits)
qed

lemma new_object_accounts: "JS_NewObjectProtoClass al gc pr rt = Some (p, rt') \<Longrightarrow> accounts (p = 0) rt rt'"
proof -
  assume *: "JS_NewObjectProtoClass al gc pr rt = Some (p, rt')"
  obtain s where s: "find_hashed_shape_proto pr rt = Some s" using * by (auto simp: JS_NewObjectProtoClass_def bind_eq_Some_conv)
  obtain t rt1 where t: "(if s \<noteq> 0 then do { rt \<leftarrow> js_dup_shape s rt; Some (s, rt) } else js_new_shape al pr rt) = Some (t, rt1)"
    using * s by (auto simp: JS_NewObjectProtoClass_def bind_eq_Some_conv)
  have a: "accounts (t = 0) rt rt1"
    using t by (auto simp: js_new_shape_def bind_eq_Some_conv split: if_splits intro: accounts_same log_dup_shape dest: new_shape2_accounts)
  have "t = 0 \<and> p = 0 \<and> rt' = rt1 \<or> JS_NewObjectFromShape al gc t rt1 = Some (p, rt')"
    using * unfolding JS_NewObjectProtoClass_def by (simp add: s t split: if_splits)
  then show ?thesis using a accounts_trans [OF a from_shape_accounts [of al gc t rt1 p rt']] accounts_mono [of "t = 0 \<or> p = 0" rt rt' rt'] by auto
qed

lemma new_object_alloc_accounts: "JS_NewObjectProtoClassAlloc al gc pr n rt = Some (p, rt') \<Longrightarrow> accounts (p = 0) rt rt'"
proof -
  assume *: "JS_NewObjectProtoClassAlloc al gc pr n rt = Some (p, rt')"
  then obtain m k t rt1 where t: "js_new_shape_nohash al pr m k rt = (t, rt1)" "t = 0 \<and> p = 0 \<and> rt' = rt1 \<or> JS_NewObjectFromShape al gc t rt1 = Some (p, rt')"
    by (auto simp: JS_NewObjectProtoClassAlloc_def Let_def split: prod.splits if_splits)
  note a = new_shape_nohash_accounts [OF t(1)]
  show ?thesis using t(2) a accounts_trans [OF a from_shape_accounts [of al gc t rt1 p rt']] accounts_mono [of "t = 0 \<or> p = 0" rt rt' rt'] by auto
qed

lemma add_property_accounts:
  assumes i: "rt_ok held rt" and x: "contexts_ok rt" and p: "objs rt p = Some ob0" and m: "add_property al p a f rt = Some (r, rt')"
  shows "accounts (r = None) rt rt'"
proof -
  obtain rt0 where r0: "reset_std_array_prototype p a rt = Some rt0" "rt_ok held rt0" "frame {} held rt rt0" "released rt0 = released rt" "shapes rt0 = shapes rt"
    by (rule reset_ok [OF i x p])
  obtain ob where o: "objs rt0 p = Some ob" using m r0(1) by (auto simp: add_property_def bind_eq_Some_conv)
  obtain sh where sh: "shapes rt0 (shape ob) = Some sh" "shape ob \<noteq> 0" by (rule objE [OF r0(2) o])
  have f: "failures rt0 = failures rt" using log_reset [OF r0(1)] by (simp add: failures_def)
  have own: "accounts (r = None) rt0 rt'" if "add_own_property al p a f rt0 = Some (r, rt')" using add_own_accounts [OF that o sh(2)] .
  have cl: "accounts (r = None) rt0 rt'"
    if c: "js_clone_shape al (shape ob) rt0 = Some (s, rt1)" and k: "(if s = 0 then Some (None, rt1)
        else do { new_sh \<leftarrow> shapes rt1 s;
                  rt \<leftarrow> js_shape_hash_link s (set_shape s (new_sh\<lparr>is_hashed := True\<rparr>) rt1);
                  rt \<leftarrow> js_free_shape_rt (shape ob) rt;
                  rt \<leftarrow> store_psh (Some p) s rt;
                  add_own_property al p a f rt }) = Some (r, rt')" for s rt1
  proof (cases "s = 0")
    case True
    then show ?thesis using clone_accounts [OF c] k by (auto elim: accounts_mono)
  next
    case False
    then obtain new_sh rt2 rt3 rt4 where b: "js_shape_hash_link s (set_shape s (new_sh\<lparr>is_hashed := True\<rparr>) rt1) = Some rt2" "js_free_shape_rt (shape ob) rt2 = Some rt3"
      "store_psh (Some p) s rt3 = Some rt4" "add_own_property al p a f rt4 = Some (r, rt')" using k by (auto simp: bind_eq_Some_conv)
    obtain ob4 where "objs rt4 p = Some ob4" "shape ob4 = s" using b(3) by (auto simp: store_psh_def bind_eq_Some_conv set_obj_def)
    then have "accounts (r = None) rt4 rt'" using add_own_accounts [OF b(4)] False by blast
    moreover have "accounts False rt0 rt4"
      using accounts_mono [OF clone_accounts [OF c], of rt4 False] log_link [OF b(1)] log_free_shape [OF b(2)] log_store_psh [OF b(3)] by simp
    ultimately show ?thesis using accounts_trans by fastforce
  qed
  have "accounts (r = None) rt0 rt'"
    using m unfolding add_property_def
    by (simp add: r0(1) o sh(1) split: if_splits) (auto simp: bind_eq_Some_conv split: if_splits intro: own use_shape_accounts cl dest: clone_accounts)
  then show ?thesis using f by (simp add: accounts_def)
qed

lemma remove_entry_result: "remove_entry al undef p a lpr i rt = Some (r, rt') \<Longrightarrow> r = 1"
  by (auto simp: remove_entry_def bind_eq_Some_conv Let_def split: if_splits)

lemma delete_accounts:
  assumes "delete_property al undef p a rt = Some (r, rt')" "r = -1"
  shows "accounts True rt rt'"
proof -
  obtain ob sh found where o: "objs rt p = Some ob" "shapes rt (shape ob) = Some sh"
    "delete_loop (props sh) a None (hash_table sh ! slot a (prop_hash_mask sh)) = Some found"
    using assms(1) by (auto simp: delete_property_def bind_eq_Some_conv)
  with assms obtain lpr h where f: "found = Some (lpr, h)" by (cases found) (auto simp: delete_property_def)
  obtain k where "js_shape_prepare_update al p rt = Some (k, rt')" "k \<noteq> 0"
    using assms o f by (auto simp: delete_property_def bind_eq_Some_conv split: if_splits dest!: remove_entry_result)
  then show ?thesis using prepare_update_accounts by fastforce
qed

lemma set_prototype_accounts: "JS_SetPrototypeInternal al p pr rt = Some (r, rt') \<Longrightarrow> r = SetNoMemory \<Longrightarrow> accounts True rt rt'"
  by (auto simp: JS_SetPrototypeInternal_def bind_eq_Some_conv Let_def accounts_def failures_def split: if_splits dest!: prepare_update_accounts)

section \<open>Reasons to refuse\<close>

fun must_refuse :: "'v obj_op \<Rightarrow> 'v shape_rt \<Rightarrow> bool" where
  "must_refuse (SetFlags p a f) rt = (case obj_view rt p of None \<Rightarrow> False | Some (pr, ps) \<Rightarrow> lookup a ps = None)"
| "must_refuse (DeleteProperty p a) rt =
     (case obj_view rt p of None \<Rightarrow> False
      | Some (pr, ps) \<Rightarrow> (case lookup a ps of None \<Rightarrow> False | Some (f, v) \<Rightarrow> f AND JS_PROP_CONFIGURABLE = 0))"
| "must_refuse (SetPrototype p pr) rt =
     (case objs rt p of None \<Rightarrow> False
      | Some ob \<Rightarrow> obj_proto rt p \<noteq> Some pr \<and>
          (has_immutable_prototype ob \<or> \<not> extensible ob \<or> pr \<noteq> 0 \<and> on_proto_chain (obj_proto rt) p pr = Some True))"
| "must_refuse c rt = False"

definition refused_rightly :: "'v obj_op \<Rightarrow> obj_result \<Rightarrow> 'v shape_rt \<Rightarrow> 'v shape_rt \<Rightarrow> bool" where
  "refused_rightly c r rt rt' = ((must_refuse c rt \<longrightarrow> r = Refused) \<and> (r = Refused \<longrightarrow> must_refuse c rt \<or> failures rt < failures rt'))"

lemma new_object_refused: "exec_op al gc undef (NewObject pr) rt = Some (r, rt') \<Longrightarrow> refused_rightly (NewObject pr) r rt rt'"
  by (auto simp: refused_rightly_def bind_eq_Some_conv accounts_def split: if_splits dest!: new_object_accounts)

lemma new_object_alloc_refused: "exec_op al gc undef (NewObjectAlloc pr n) rt = Some (r, rt') \<Longrightarrow> refused_rightly (NewObjectAlloc pr n) r rt rt'"
  by (auto simp: refused_rightly_def bind_eq_Some_conv accounts_def split: if_splits dest!: new_object_alloc_accounts)

lemma define_refused:
  assumes s: "store_ok held rt" and m: "exec_op al gc undef (DefineProperty p a f v) rt = Some (r, rt')"
  shows "refused_rightly (DefineProperty p a f v) r rt rt'"
proof -
  have i: "rt_ok held rt" and x: "contexts_ok rt" using s by (simp_all add: store_ok_def)
  obtain k where k: "own_property p a rt = Some k" using m by (auto simp: define_property_def bind_eq_Some_conv)
  then obtain ob where o: "objs rt p = Some ob" by (auto simp: own_property_def bind_eq_Some_conv)
  show ?thesis using m k
    by (auto simp: define_property_def refused_rightly_def accounts_def bind_eq_Some_conv split: option.splits dest!: add_property_accounts [OF i x o])
qed

lemma flags_refused:
  assumes s: "store_ok held rt" and a: "a \<noteq> JS_ATOM_NULL" and m: "exec_op al gc undef (SetFlags p a f) rt = Some (r, rt')"
  shows "refused_rightly (SetFlags p a f) r rt rt'"
proof -
  have i: "rt_ok held rt" using s by (simp add: store_ok_def)
  obtain k where k: "own_property p a rt = Some k" using m by (auto simp: set_property_flags_def bind_eq_Some_conv)
  then obtain ob where o: "objs rt p = Some ob" by (auto simp: own_property_def bind_eq_Some_conv)
  obtain sh pr ps where w: "shapes rt (shape ob) = Some sh" "obj_view rt p = Some (pr, ps)" "own_property p a rt = Some (index_of (props sh) a)"
    "lookup a ps = None \<longleftrightarrow> index_of (props sh) a = None" "ps = view (keys (props sh)) (prop_values ob)" "table_ok sh" "prop_count sh \<le> length (prop_values ob)"
    by (rule own_property_view [OF i a o])
  have "must_refuse (SetFlags p a f) rt \<longleftrightarrow> k = None" using w(2,3,4) k by simp
  then show ?thesis using m k
    by (auto simp: set_property_flags_def refused_rightly_def accounts_def bind_eq_Some_conv split: option.splits if_splits dest!: update_flags_accounts)
qed

lemma delete_refused:
  assumes s: "store_ok held rt" and h: "\<And>s. 0 \<le> held s" and al: "fresh_alloc al" and a: "a \<noteq> JS_ATOM_NULL"
    and m: "exec_op al gc undef (DeleteProperty p a) rt = Some (r, rt')"
  shows "refused_rightly (DeleteProperty p a) r rt rt'"
proof -
  have i: "rt_ok held rt" using s by (simp add: store_ok_def)
  obtain k where k: "delete_property al undef p a rt = Some (k, rt')" "r = (if k = 1 then Performed else Refused)" using m by (auto simp: bind_eq_Some_conv)
  then obtain ob where o: "objs rt p = Some ob" by (auto simp: delete_property_def bind_eq_Some_conv)
  obtain pr ps where v: "obj_view rt p = Some (pr, ps)" using view_none [OF i, of p] o by (cases "obj_view rt p") auto
  have "delete_result a ps k" by (rule delete_ok [OF i h al a v, of undef]) (use k in simp)
  then show ?thesis using k(2) v delete_accounts [OF k(1)]
    by (auto simp: refused_rightly_def delete_result_def accounts_def split: option.splits if_splits)
qed

lemma set_prototype_refused:
  assumes m: "exec_op al gc undef (SetPrototype p pr) rt = Some (r, rt')"
  shows "refused_rightly (SetPrototype p pr) r rt rt'"
proof -
  obtain k where k: "JS_SetPrototypeInternal al p pr rt = Some (k, rt')" "r = (if k = SetTrue then Performed else Refused)" using m by (auto simp: bind_eq_Some_conv)
  then obtain ob sh where o: "objs rt p = Some ob" "shapes rt (shape ob) = Some sh" by (auto simp: JS_SetPrototypeInternal_def bind_eq_Some_conv)
  have "must_refuse (SetPrototype p pr) rt \<longleftrightarrow> k \<in> {SetImmutable, SetNotExtensible, SetCircular}"
    using k(1) o by (auto simp: JS_SetPrototypeInternal_def obj_proto_def bind_eq_Some_conv Let_def split: if_splits)
  then show ?thesis using k(2) set_prototype_accounts [OF k(1)] by (cases k) (auto simp: refused_rightly_def accounts_def simp del: must_refuse.simps)
qed

lemma exec_refused:
  assumes "store_ok held rt" "\<And>s. 0 \<le> held s" "fresh_alloc al" "allowed_op c rt" "exec_op al gc undef c rt = Some (r, rt')"
  shows "refused_rightly c r rt rt'"
proof (cases c)
  case (NewObject pr)
  then show ?thesis using assms(5) new_object_refused by metis
next
  case (NewObjectAlloc pr n)
  then show ?thesis using assms(5) new_object_alloc_refused by metis
next
  case (DefineProperty p a f v)
  then show ?thesis using assms(5) define_refused [OF assms(1)] by metis
next
  case (SetFlags p a f)
  then show ?thesis using assms(4,5) flags_refused [OF assms(1)] by (metis allowed_op.simps(4))
next
  case (DeleteProperty p a)
  then show ?thesis using assms(4,5) delete_refused [OF assms(1-3)] by (metis allowed_op.simps(5))
next
  case (SetPrototype p pr)
  then show ?thesis using assms(5) set_prototype_refused by metis
qed

end
