(* ===== verification/ObjectSpec.thy ===== *)
theory ObjectSpec
  imports ObjectFail
begin

text \<open>
  What the operations on shapes and objects promise, from the lookup in a property table to sequences of operations on
  a new runtime.
\<close>

section \<open>A new runtime\<close>

text \<open>The runtime after \<open>memset\<close> in \<open>JS_NewRuntime2\<close>, which then calls \<open>init_shape_hash\<close>.\<close>

definition zeroed_rt :: "'v shape_rt" where
  "zeroed_rt = \<lparr>shapes = Map.empty, objs = Map.empty, shape_hash_bits = 0, shape_hash_count = 0, shape_hash_table = [], contexts = [],
     atom_rc = (\<lambda>_. 0), obj_rc = (\<lambda>_. 0), zero_refs = [], released = [], alloc_log = []\<rparr>"

text \<open>No shape is referenced from elsewhere than from objects.\<close>

abbreviation none_held :: "addr \<Rightarrow> int" where "none_held \<equiv> \<lambda>_. 0"

lemma new_rt_ok:
  assumes "init_shape_hash al zeroed_rt = (0, rt)"
  shows "store_ok none_held rt" "obj_view rt = Map.empty"
proof -
  have rt: "shapes rt = Map.empty" "objs rt = Map.empty" "contexts rt = []"
    using assms by (auto simp: init_shape_hash_def js_malloc_def zeroed_rt_def Let_def split: if_splits)
  have "hash_table_ok {} rt" by (rule init_ok [OF assms])
  then have "rt_ok none_held rt" using rt by (simp add: rt_ok_def core_def hashed_def)
  then show "store_ok none_held rt" using rt by (simp add: store_ok_def contexts_ok_def)
  show "obj_view rt = Map.empty" using rt by (simp add: obj_view_def view_in_def fun_eq_iff)
qed

lemma run_new:
  assumes "init_shape_hash al zeroed_rt = (0, rt)" "fresh_alloc al" "gc_ok gc" "allowed_ops (exec_op al gc undef) allowed_op cs rt"
  obtains rs rt' where "run_ops (exec_op al gc undef) cs rt = Some (rs, rt')" "length rs = length cs" "store_ok none_held rt'"
    "obj_view rt' \<subseteq>\<^sub>m spec_ops spec_op cs rs Map.empty"
proof -
  have "store_ok none_held rt \<and> (\<forall>s. 0 \<le> none_held s) \<and> fresh_alloc al \<and> gc_ok gc" using new_rt_ok(1) [OF assms(1)] assms(2,3) by simp
  from objects.run_refines [OF this assms(4), of Map.empty] show thesis using new_rt_ok(2) [OF assms(1)] that by auto
qed

lemma users_card: "finite (dom obs) \<Longrightarrow> users obs s = int (card {p. \<exists>ob. obs p = Some ob \<and> shape ob = s})"
proof -
  assume f: "finite (dom obs)"
  have "{p. \<exists>ob. obs p = Some ob \<and> shape ob = s} = {p \<in> dom obs. shape (the (obs p)) = s}" by auto
  then show ?thesis using f by (simp add: users_def tally_def of_bool_def sum.If_cases Int_def)
qed

section \<open>Searching\<close>

lemma keys_match:
  assumes "shape_ok sh" "is_hashed sh" "shape_ok su" "is_hashed su" "proto su = proto sh" "keys (props su) = keys (props sh) @ [(a, f)]"
  shows "shape_matches sh a f su"
proof -
  have n: "prop_count su = prop_count sh + 1" using arg_cong [OF assms(6), of length] by simp
  have same: "same_props ps (qs @ rs)" if "keys ps = keys qs" for ps qs rs
    using that by (induction ps qs rule: list_induct2') auto
  have "keys (take (prop_count sh) (props su)) = keys (props sh)" using arg_cong [OF assms(6), of "take (prop_count sh)"] by (simp add: keys_def take_map)
  then have s: "same_props (props sh) (props su)" using same [of "props sh" _ "drop (prop_count sh) (props su)"] by (metis append_take_drop_id)
  have "keys (props su) ! prop_count sh = (a, f)" using assms(6) by (metis keys_simps(4) nth_append_length)
  then have "atom (props su ! prop_count sh) = a" "flags (props su ! prop_count sh) = f" using n by (simp_all add: keys_def)
  moreover have "hash su = prop_hash sh a f" using assms by (simp add: shape_ok_def content_hash_append)
  ultimately show ?thesis using assms(5) n s by (simp add: shape_matches_def)
qed

lemma find_shared_ok:
  fixes a :: JSAtom and f :: "6 word"
  assumes i: "rt_ok held rt" and s: "shapes rt s = Some sh" "is_hashed sh"
  defines "fits \<equiv> \<lambda>t. \<exists>su. shapes rt t = Some su \<and> is_hashed su \<and> proto su = proto sh \<and> keys (props su) = keys (props sh) @ [(a, f)]"
  shows "\<exists>t. find_hashed_shape_prop sh a f rt = Some t \<and> (t \<noteq> 0 \<longrightarrow> fits t) \<and> (t = 0 \<longrightarrow> (\<forall>u. \<not> fits u))"
proof -
  have ok: "shape_ok su" if "shapes rt u = Some su" for u su using coreD(1) [OF rt_okD(1) [OF i] that] .
  have fits: "fits t \<longleftrightarrow> t \<in> hashed (shapes rt) \<and> shape_matches sh a f (the (shapes rt t))" for t
    using keys_match [OF ok [OF s(1)] s(2)] ok by (auto simp: fits_def hashed_def matches_keys)
  obtain t where t: "hash_slot (shape_hash_bits rt) (prop_hash sh a f) < shape_hash_size rt"
    "search_chain (shapes rt) (shape_matches sh a f) (shape_hash_table rt ! hash_slot (shape_hash_bits rt) (prop_hash sh a f)) = Some t"
    "t \<noteq> 0 \<Longrightarrow> t \<in> hashed (shapes rt) \<and> shape_matches sh a f (the (shapes rt t))"
    "t = 0 \<Longrightarrow> \<forall>u\<in>hashed (shapes rt). \<not> shape_matches sh a f (the (shapes rt u))"
    by (rule search_ok [OF rt_okD(2) [OF i], of "shape_matches sh a f" "prop_hash sh a f"]) (auto simp: shape_matches_def)
  then show ?thesis using fits by (intro exI [of _ t]) (auto simp: find_hashed_shape_prop_def)
qed

lemma own_property_lookup:
  assumes i: "rt_ok held rt" and a: "a \<noteq> JS_ATOM_NULL" and v: "obj_view rt p = Some (pr, ps)"
  shows "\<exists>r. own_property p a rt = Some r \<and>
    lookup a ps = map_option (\<lambda>k. (flags (props (the (shapes rt (shape (the (objs rt p))))) ! k), prop_values (the (objs rt p)) ! k)) r"
proof -
  obtain ob where p: "objs rt p = Some ob" using v by (auto simp: obj_view_def view_in_def bind_eq_Some_conv)
  obtain sh pr' ps' where w: "shapes rt (shape ob) = Some sh" "obj_view rt p = Some (pr', ps')" "own_property p a rt = Some (index_of (props sh) a)"
    "lookup a ps' = None \<longleftrightarrow> index_of (props sh) a = None" "ps' = view (keys (props sh)) (prop_values ob)" "table_ok sh" "prop_count sh \<le> length (prop_values ob)"
    by (rule own_property_view [OF i a p])
  have "ps' = ps" using v w(2) by simp
  then show ?thesis using w p view_entry(4) [OF w(6) a _ w(7)] by (cases "index_of (props sh) a") auto
qed

section \<open>Chains of prototypes\<close>

abbreviation chains_end :: "'v shape_rt \<Rightarrow> bool" where
  "chains_end rt \<equiv> \<forall>q. obj_view rt q \<noteq> None \<longrightarrow> (\<exists>xs. path (obj_proto rt) q xs)"

lemma set_prototype_chains:
  assumes i: "rt_ok held rt" and h: "\<And>s. 0 \<le> held s" and al: "fresh_alloc al" and v: "obj_view rt p = Some (pr0, ps)"
    and c: "chains_end rt" and pr: "pr = 0 \<or> obj_view rt pr \<noteq> None"
  shows "\<exists>r rt'. JS_SetPrototypeInternal al p pr rt = Some (r, rt') \<and> rt_ok held rt' \<and> chains_end rt' \<and>
    (\<forall>q. q \<noteq> p \<longrightarrow> obj_view rt' q = obj_view rt q) \<and> obj_view rt' p = Some (if r = SetTrue then pr else pr0, ps) \<and>
    (r = SetCircular \<longrightarrow> (\<exists>xs. path (obj_proto rt) pr xs \<and> p \<in> set xs))"
proof -
  obtain xs where xs: "path (obj_proto rt) pr xs" using c pr path.simps(1) by metis
  obtain r rt' where m: "JS_SetPrototypeInternal al p pr rt = Some (r, rt')" "rt_ok held rt'" "\<forall>q. q \<noteq> p \<longrightarrow> obj_view rt' q = obj_view rt q"
    "obj_view rt' p = Some (if r = SetTrue then pr else pr0, ps)" "contexts rt' = contexts rt"
    "r = SetCircular \<longleftrightarrow> (p \<in> set xs \<and> pr0 \<noteq> pr \<and> (\<exists>ob. objs rt p = Some ob \<and> \<not> has_immutable_prototype ob \<and> extensible ob))"
    "balanced rt (if r = SetNoMemory \<and> pr \<noteq> 0 then rt'\<lparr>obj_rc := (obj_rc rt')(pr := obj_rc rt' pr - 1)\<rparr> else rt')"
    "r = SetTrue \<longrightarrow> pr = pr0 \<or> p \<notin> set xs"
    by (rule set_prototype_ok [OF i h al v xs])
  have dom: "obj_view rt q \<noteq> None" if "obj_view rt' q \<noteq> None" for q using m(3,4) v that by (cases "q = p") auto
  have "chains_end rt'"
  proof (cases "r = SetTrue \<and> p \<notin> set xs")
    case True
    have "obj_proto rt' = (obj_proto rt)(p \<mapsto> pr)" using m(3,4) True by (auto simp: obj_proto_view fun_eq_iff)
    then show ?thesis using path_redirect [OF _ xs] True c dom by metis
  next
    case False
    then have "obj_view rt' p = obj_view rt p" using m(4,8) v by auto
    then have "obj_proto rt' = obj_proto rt" using m(3) unfolding obj_proto_view fun_eq_iff by metis
    then show ?thesis using c dom by simp
  qed
  then show ?thesis using m(1-4,6) xs by auto
qed

section \<open>An example\<close>

text \<open>An allocator that counts upwards and a collector that frees nothing.\<close>

definition demo_alloc :: "int shape_alloc" where
  "demo_alloc rt = (let n = of_nat (length (alloc_log rt) + 1) in if shapes rt n = None \<and> objs rt n = None then n else 0)"

abbreviation demo_exec :: "int obj_op \<Rightarrow> int shape_rt \<Rightarrow> (obj_result \<times> int shape_rt) option" where
  "demo_exec \<equiv> exec_op demo_alloc (\<lambda>_. []) 0"

definition demo_rt :: "int shape_rt" where "demo_rt = snd (init_shape_hash demo_alloc zeroed_rt)"

text \<open>Two objects that share a shape until one of them gets a property.\<close>

definition demo_ops :: "int obj_op list" where
  "demo_ops = [NewObject 0, NewObject 0, DefineProperty 3 300 7 10]"

definition demo_obj :: "int shape_rt" where
  "demo_obj = snd (the (run_ops demo_exec demo_ops demo_rt))"

declare find_loop.simps [code] unlink_loop.simps [code] move_chain.simps [code] search_chain.simps [code] delete_loop.simps [code] on_proto_chain.simps [code]

lemma allowed_op_code [code]:
  "allowed_op c rt =
     (case c of
        NewObject pr \<Rightarrow> int (shape_hash_count rt) < 268435456
      | NewObjectAlloc pr n \<Rightarrow> int n \<le> 134217728
      | DefineProperty p a f v \<Rightarrow> a \<noteq> JS_ATOM_NULL \<and> has_room rt p
      | SetFlags p a f \<Rightarrow> a \<noteq> JS_ATOM_NULL \<and> objs rt p \<noteq> None
      | DeleteProperty p a \<Rightarrow> a \<noteq> JS_ATOM_NULL \<and> objs rt p \<noteq> None
      | SetPrototype p pr \<Rightarrow> objs rt p \<noteq> None \<and> (pr = 0 \<or> on_proto_chain (obj_proto rt) 0 pr \<noteq> None))"
  by (cases c) auto

lemma has_room_code [code]:
  "has_room rt p =
     (case objs rt p of None \<Rightarrow> False | Some ob \<Rightarrow> (case shapes rt (shape ob) of None \<Rightarrow> False | Some sh \<Rightarrow> int (prop_count sh) < 67108863))"
  by (simp add: has_room_def max_count_def split: option.split)

lemma demo_init: "init_shape_hash demo_alloc zeroed_rt = (0, demo_rt)"
  by (simp add: demo_rt_def init_shape_hash_def js_malloc_def demo_alloc_def zeroed_rt_def)

lemma demo_fresh: "fresh_alloc demo_alloc" "gc_ok (\<lambda>rt::int shape_rt. [])"
  by (auto simp: fresh_alloc_def demo_alloc_def gc_ok_def Let_def list_all_iff)

lemma demo_allowed: "allowed_ops demo_exec allowed_op demo_ops demo_rt"
  by code_simp

lemma demo_store: "store_ok none_held demo_obj"
  by (rule run_new [OF demo_init demo_fresh demo_allowed]) (simp add: demo_obj_def)

lemma demo_rt_ok: "rt_ok none_held demo_obj"
  using demo_store by (simp add: store_ok_def)

lemma demo_view: "obj_view demo_obj 3 = Some (0, [(300, 7, Some 10)])"
  by code_simp

lemma demo_view': "obj_view demo_obj 5 = Some (0, [])"
  by code_simp

lemma demo_room: "has_room demo_obj 3"
  by code_simp

lemma demo_answers: "map_option fst (run_ops demo_exec demo_ops demo_rt) = Some [Created 3, Created 5, Performed]"
  by code_simp

lemma demo_dom: "obj_view demo_obj q \<noteq> None \<Longrightarrow> q = 3 \<or> q = 5"
  by (rule run_new [OF demo_init demo_fresh demo_allowed])
    (use demo_answers in \<open>auto simp: demo_obj_def demo_ops_def on_props_def map_le_def dom_def split: if_splits\<close>)

lemma demo_chains: "chains_end demo_obj"
proof (intro allI impI)
  fix q assume q: "obj_view demo_obj q \<noteq> None"
  have "path (obj_proto demo_obj) q [q]" using demo_dom [OF q] demo_view demo_view' by (auto simp: obj_proto_view)
  then show "\<exists>xs. path (obj_proto demo_obj) q xs" by blast
qed

lemma demo_shapes:
  "map_option (\<lambda>sh. (is_hashed sh, proto sh, keys (props sh))) (shapes demo_obj 2) = Some (True, 0, [])"
  "map_option (\<lambda>sh. (is_hashed sh, proto sh, keys (props sh))) (shapes demo_obj 7) = Some (True, 0, [(300, 7)])"
  by code_simp+

section \<open>The properties\<close>

text \<open>C23: a sequence of operations on the objects of a new runtime refines the same sequence on an abstract store, in which every
  object has its own prototype and its own list of properties: sharing shapes between objects, searching them by hash, copying
  them before a change, and growing or compacting the arrays are not visible, whatever the allocator answers. No operation
  reads outside of an array, follows a dangling pointer or fails an assertion. The objects that the collector has not
  freed are as the abstract operations say.\<close>

theorem object_ops_refine:
  assumes "init_shape_hash al zeroed_rt = (0, rt)" "fresh_alloc al" "gc_ok gc" "allowed_ops (exec_op al gc undef) allowed_op cs rt"
  shows "\<exists>rs rt'. run_ops (exec_op al gc undef) cs rt = Some (rs, rt') \<and> length rs = length cs \<and> obj_view rt' \<subseteq>\<^sub>m spec_ops spec_op cs rs Map.empty"
  by (rule run_new [OF assms]) blast

theorem object_ops_refine_witness:
  "\<exists>rs rt'. run_ops demo_exec demo_ops demo_rt = Some (rs, rt') \<and> length rs = length demo_ops \<and> obj_view rt' \<subseteq>\<^sub>m spec_ops spec_op demo_ops rs Map.empty"
  by (rule object_ops_refine [OF demo_init demo_fresh demo_allowed])

text \<open>C24: after any sequence of operations on a new runtime every shape is well formed: its hash chains reach exactly its properties, it
  has as many references as objects use it, only a hashed shape is shared, and the hash table of the runtime holds
  exactly the hashed shapes.\<close>

theorem objects_stay_well_formed:
  assumes "init_shape_hash al zeroed_rt = (0, rt)" "fresh_alloc al" "gc_ok gc" "allowed_ops (exec_op al gc undef) allowed_op cs rt"
  shows "\<exists>rs rt'. run_ops (exec_op al gc undef) cs rt = Some (rs, rt') \<and> hash_table_ok (hashed (shapes rt')) rt' \<and>
    (\<forall>s sh. shapes rt' s = Some sh \<longrightarrow> table_ok sh \<and> ref_count sh = int (card {p. \<exists>ob. objs rt' p = Some ob \<and> shape ob = s}) \<and>
      0 < ref_count sh \<and> (\<not> is_hashed sh \<longrightarrow> ref_count sh = 1)) \<and>
    (\<forall>p ob. objs rt' p = Some ob \<longrightarrow> (\<exists>sh. shapes rt' (shape ob) = Some sh \<and> prop_count sh \<le> length (prop_values ob)))"
proof (rule run_new [OF assms])
  fix rs rt'
  assume r: "run_ops (exec_op al gc undef) cs rt = Some (rs, rt')" and s: "store_ok none_held rt'"
  have i: "rt_ok none_held rt'" using s by (simp add: store_ok_def)
  note c = rt_okD(1) [OF i]
  have f: "finite (dom (objs rt'))" using core_finite [OF c] by blast
  have "table_ok sh \<and> ref_count sh = int (card {p. \<exists>ob. objs rt' p = Some ob \<and> shape ob = s}) \<and> 0 < ref_count sh \<and> (\<not> is_hashed sh \<longrightarrow> ref_count sh = 1)"
    if "shapes rt' s = Some sh" for s sh using coreD [OF c that] by (simp add: users_card [OF f] shape_ok_def)
  moreover have "\<exists>sh. shapes rt' (shape ob) = Some sh \<and> prop_count sh \<le> length (prop_values ob)" if "objs rt' p = Some ob" for p ob
    by (rule objE [OF i that]) auto
  ultimately show ?thesis using r rt_okD(2) [OF i] by blast
qed

theorem objects_stay_well_formed_witness:
  "\<exists>rs rt'. run_ops demo_exec demo_ops demo_rt = Some (rs, rt') \<and> hash_table_ok (hashed (shapes rt')) rt'"
  using objects_stay_well_formed [OF demo_init demo_fresh demo_allowed] by blast

text \<open>C25: adding a property that is not there appends it to the properties of the object, gives the index under which it is then
  found, and changes no other object, whether the shape is changed in place, replaced by another one that fits, or copied.
  The counts of atoms and prototypes stay balanced. It fails only when the allocator does, and then the object is as before.\<close>

theorem add_property_correct:
  assumes "store_ok held rt" "\<And>s. 0 \<le> held s" "fresh_alloc al" "a \<noteq> JS_ATOM_NULL" "has_room rt p"
    and "obj_view rt p = Some (pr, ps)" "lookup a ps = None"
  shows "\<exists>r rt'. add_property al p a f rt = Some (r, rt') \<and> store_ok held rt' \<and> balanced rt rt' \<and> (\<forall>q. q \<noteq> p \<longrightarrow> obj_view rt' q = obj_view rt q) \<and>
    (case r of
       None \<Rightarrow> failures rt < failures rt' \<and> obj_view rt' p = Some (pr, ps)
     | Some k \<Rightarrow> own_property p a rt' = Some (Some k) \<and> (\<exists>w. obj_view rt' p = Some (pr, ps @ [(a, f, w)])))"
proof -
  have i: "rt_ok held rt" and x: "contexts_ok rt" using assms(1) by (simp_all add: store_ok_def)
  have n: "prop_count sh < max_count" if "objs rt p = Some ob" "shapes rt (shape ob) = Some sh" for ob sh using assms(5) that by (simp add: has_room_def)
  obtain ob0 where o: "objs rt p = Some ob0" using assms(5) by (auto simp: has_room_def split: option.splits)
  obtain r rt' where m: "add_property al p a f rt = Some (r, rt')" "rt_ok held rt'" "frame {p} held rt rt'" "released rt' = released rt"
    "r = None \<longrightarrow> obj_view rt' p = Some (pr, ps)"
    "r \<noteq> None \<longrightarrow> (\<exists>w ob' sh'. obj_view rt' p = Some (pr, ps @ [(a, f, w)]) \<and> objs rt' p = Some ob' \<and> shapes rt' (shape ob') = Some sh' \<and> index_of (props sh') a = r)"
    by (rule add_property_ok [OF i x assms(2-4,6,7) n])
  have "contexts_ok rt'" using contexts_frame [OF x m(3)] m(5,6) by auto
  moreover have "own_property p a rt' = Some r" if r: "r \<noteq> None"
  proof -
    obtain ob' sh' where z: "objs rt' p = Some ob'" "shapes rt' (shape ob') = Some sh'" "index_of (props sh') a = r" using m(6) r by blast
    have "table_ok sh'" using coreD(1) [OF rt_okD(1) [OF m(2)] z(2)] by (simp add: shape_ok_def)
    from find_own_property_ok [OF this assms(4)] show ?thesis using z by (simp add: own_property_def)
  qed
  ultimately show ?thesis using m add_property_accounts [OF i x o m(1)]
    by (intro exI [of _ r] exI [of _ rt']) (auto simp: store_ok_def frame_def accounts_def split: option.split)
qed

theorem add_property_correct_witness:
  "\<exists>r rt'. add_property demo_alloc 3 301 7 demo_obj = Some (r, rt') \<and> store_ok none_held rt' \<and> obj_view rt' 5 = Some (0, [])"
  using add_property_correct [OF demo_store _ demo_fresh(1) _ demo_room demo_view, of 301 7] demo_view' by (auto simp: JS_ATOM_NULL_def lookup_def)

text \<open>C26: deleting a property answers 1 and takes exactly this property from the object when it is there and configurable, answers 1 when
  it is not there and 0 when it may not be deleted, and answers -1 with nothing changed only when the allocator fails. The value
  is released exactly when the property goes, and no other object changes although the shape may have been shared.\<close>

theorem delete_property_correct:
  assumes "store_ok held rt" "\<And>s. 0 \<le> held s" "fresh_alloc al" "a \<noteq> JS_ATOM_NULL" "obj_view rt p = Some (pr, ps)"
  shows "\<exists>r rt'. delete_property al undef p a rt = Some (r, rt') \<and> store_ok held rt' \<and> balanced rt rt' \<and> (\<forall>q. q \<noteq> p \<longrightarrow> obj_view rt' q = obj_view rt q) \<and>
    delete_result a ps r \<and> (r = -1 \<longrightarrow> failures rt < failures rt') \<and> obj_view rt' p = Some (pr, if r = 1 then without a ps else ps) \<and>
    released rt' = (case lookup a ps of Some (f, Some x) \<Rightarrow> if r = 1 then x # released rt else released rt | _ \<Rightarrow> released rt)"
proof -
  have i: "rt_ok held rt" and x: "contexts_ok rt" using assms(1) by (simp_all add: store_ok_def)
  obtain r rt' where m: "delete_property al undef p a rt = Some (r, rt')" "rt_ok held rt'" "frame {p} held rt rt'" "delete_result a ps r"
    "obj_view rt' p = Some (pr, deleted a r ps)"
    "released rt' = (case lookup a ps of Some (f, Some x) \<Rightarrow> if r = 1 then x # released rt else released rt | _ \<Rightarrow> released rt)"
    by (rule delete_ok [OF i assms(2-5)])
  have "contexts_ok rt'" using contexts_frame [OF x m(3)] m(5) by simp
  then show ?thesis using m delete_accounts [OF m(1)]
    by (intro exI [of _ r] exI [of _ rt']) (auto simp: store_ok_def frame_def accounts_def deleted_def)
qed

theorem delete_property_correct_witness:
  "\<exists>r rt'. delete_property demo_alloc 0 3 300 demo_obj = Some (r, rt') \<and> store_ok none_held rt' \<and> (r = 1 \<longrightarrow> obj_view rt' 3 = Some (0, [])) \<and> obj_view rt' 5 = Some (0, [])"
  using delete_property_correct [OF demo_store _ demo_fresh(1) _ demo_view, of 300 0] demo_view' by (auto simp: JS_ATOM_NULL_def without_def)



text \<open>C28: setting a prototype never makes a cycle: when the chain of prototypes of every object ends, it still ends for every object
  afterwards. The search for a cycle itself ends, and the circular answer is given only when the object is on the chain of its new prototype.\<close>

theorem prototype_chains_stay_finite:
  assumes "rt_ok held rt" "\<And>s. 0 \<le> held s" "fresh_alloc al" "obj_view rt p = Some (pr0, ps)" "chains_end rt" "pr = 0 \<or> obj_view rt pr \<noteq> None"
  shows "\<exists>r rt'. JS_SetPrototypeInternal al p pr rt = Some (r, rt') \<and> rt_ok held rt' \<and> chains_end rt' \<and>
    (\<forall>q. q \<noteq> p \<longrightarrow> obj_view rt' q = obj_view rt q) \<and> obj_view rt' p = Some (if r = SetTrue then pr else pr0, ps) \<and>
    (r = SetCircular \<longrightarrow> (\<exists>xs. path (obj_proto rt) pr xs \<and> p \<in> set xs))"
  by (rule set_prototype_chains [OF assms])

theorem prototype_chains_stay_finite_witness:
  "\<exists>r rt'. JS_SetPrototypeInternal demo_alloc 3 5 demo_obj = Some (r, rt') \<and> rt_ok none_held rt' \<and> chains_end rt'"
  using prototype_chains_stay_finite [OF demo_rt_ok _ demo_fresh(1) demo_view demo_chains, of 5] demo_view' by auto

text \<open>C29: the search for a property along the hash chain of a shape gives what a search through the list of all properties of the object gives.\<close>

theorem property_lookup_correct:
  assumes "rt_ok held rt" "a \<noteq> JS_ATOM_NULL" "obj_view rt p = Some (pr, ps)"
  shows "\<exists>r. own_property p a rt = Some r \<and>
    lookup a ps = map_option (\<lambda>k. (flags (props (the (shapes rt (shape (the (objs rt p))))) ! k), prop_values (the (objs rt p)) ! k)) r"
  by (rule own_property_lookup [OF assms])

theorem property_lookup_correct_witness: "own_property 3 301 demo_obj = Some None \<and> own_property 3 300 demo_obj \<noteq> Some None"
  using property_lookup_correct [OF demo_rt_ok _ demo_view, of 300] property_lookup_correct [OF demo_rt_ok _ demo_view, of 301]
  by (auto simp: JS_ATOM_NULL_def lookup_def)

text \<open>C30: the search for a shape to share finds one exactly when there is a hashed shape with the same prototype whose properties
  are those of the given shape followed by the new one.\<close>

theorem shared_shape_found:
  assumes "rt_ok held rt" "shapes rt s = Some sh" "is_hashed sh"
  shows "\<exists>t. find_hashed_shape_prop sh a f rt = Some t \<and>
    (t \<noteq> 0 \<longrightarrow> (\<exists>su. shapes rt t = Some su \<and> is_hashed su \<and> proto su = proto sh \<and> keys (props su) = keys (props sh) @ [(a, f)])) \<and>
    (t = 0 \<longrightarrow> (\<forall>u su. shapes rt u = Some su \<longrightarrow> is_hashed su \<longrightarrow> proto su = proto sh \<longrightarrow> keys (props su) \<noteq> keys (props sh) @ [(a, f)]))"
  using find_shared_ok [OF assms, of a f] by blast

theorem shared_shape_found_witness:
  "\<exists>t. find_hashed_shape_prop (the (shapes demo_obj 2)) 300 7 demo_obj = Some t \<and> t \<noteq> 0"
proof -
  obtain sh su where h: "shapes demo_obj 2 = Some sh" "is_hashed sh" "proto sh = 0" "keys (props sh) = []"
    "shapes demo_obj 7 = Some su" "is_hashed su" "proto su = 0" "keys (props su) = [(300, 7)]" using demo_shapes by auto
  show ?thesis using shared_shape_found [OF demo_rt_ok h(1,2), of 300 7] h by force
qed

end
