(* ===== verification/Refs.thy ===== *)
theory Refs
  imports Prelude
begin

text \<open>
  The ref table of \<open>quickjs_kmp.c\<close>: one slot per live ref, a free list threaded through the slots,
  64-bit handles that pack the slot index with a generation.

  The table is specified by an abstract map from handles to (value, count) (\<open>ref_lookup\<close>); the locale
  \<open>ref_map\<close> states what each operation does to that map and derives what a client may rely on.
\<close>

section \<open>The table\<close>

record kmp_slot =
  s_val :: jsval
  s_refcount :: int
  s_next_free :: int
  s_gen :: "32 word"

record kmp_table =
  slots :: "kmp_slot list"
  slot_cap :: int
  free_head :: int

definition INT32_MAX :: int where "INT32_MAX = 2 ^ 31 - 1"

definition empty_table :: kmp_table where
  "empty_table = \<lparr>slots = [], slot_cap = 0, free_head = -1\<rparr>"

definition slot_handle :: "int \<Rightarrow> 32 word \<Rightarrow> 64 word" where
  "slot_handle idx gen = push_bit 32 (ucast gen) OR ucast (word_of_int (idx + 1) :: 32 word)"

definition slot_index :: "64 word \<Rightarrow> int" where
  "slot_index ref = sint (ucast (ref AND 0xFFFFFFFF) :: 32 word) - 1"

definition handle_gen :: "64 word \<Rightarrow> 32 word" where
  "handle_gen ref = ucast (drop_bit 32 ref)"

text \<open>\<open>slot_get\<close> returns the slot a handle names, here by its position in the array.\<close>

definition slot_get :: "kmp_table \<Rightarrow> 64 word \<Rightarrow> nat option" where
  "slot_get t ref =
     (let idx = slot_index ref; gen = handle_gen ref in
      if sint ref \<le> 0 \<or> idx < 0 \<or> int (length (slots t)) \<le> idx then None
      else let s = slots t ! nat idx in
        if 0 < s_refcount s \<and> s_gen s = gen then Some (nat idx) else None)"

text \<open>Whether \<open>slot_new\<close> has to grow the array, which may fail.\<close>

definition slot_grows :: "kmp_table \<Rightarrow> bool" where
  "slot_grows t = (free_head t < 0 \<and> int (length (slots t)) \<noteq> INT32_MAX \<and>
     int (length (slots t)) = slot_cap t)"

text \<open>
  \<open>slot_new\<close>; \<open>ok\<close> is whether \<open>realloc\<close> succeeds, if it is called. The handle 0 stands for
  failure, on which the caller still owns \<open>v\<close> (the C function frees it; see \<open>Engine\<close>).
\<close>

definition slot_new :: "bool \<Rightarrow> jsval \<Rightarrow> kmp_table \<Rightarrow> 64 word \<times> kmp_table" where
  "slot_new ok v t =
     (if 0 \<le> free_head t then
        let idx = free_head t; s = slots t ! nat idx in
        (slot_handle idx (s_gen s),
         t\<lparr>free_head := s_next_free s,
           slots := (slots t)[nat idx := s\<lparr>s_val := v, s_refcount := 1, s_next_free := -1\<rparr>]\<rparr>)
      else if int (length (slots t)) = INT32_MAX then (0, t)
      else if slot_grows t \<and> \<not> ok then (0, t)
      else
        let cap = (if slot_grows t then (if slot_cap t \<noteq> 0 then slot_cap t * 2 else 16) else slot_cap t);
            idx = int (length (slots t)) in
        (slot_handle idx 0,
         t\<lparr>slot_cap := cap,
           slots := slots t @ [\<lparr>s_val = v, s_refcount = 1, s_next_free = -1, s_gen = 0\<rparr>]\<rparr>))"

text \<open>\<open>slot_free\<close>: the value the slot held is handed to \<open>JS_FreeValue\<close>.\<close>

definition slot_free :: "64 word \<Rightarrow> kmp_table \<Rightarrow> jsval \<times> kmp_table" where
  "slot_free ref t =
     (let idx = slot_index ref; s = slots t ! nat idx in
      (s_val s,
       t\<lparr>slots := (slots t)[nat idx := s\<lparr>s_val := JUndefined, s_refcount := 0,
            s_gen := s_gen s + 1, s_next_free := free_head t\<rparr>],
         free_head := idx\<rparr>))"

definition ref_retain :: "64 word \<Rightarrow> kmp_table \<Rightarrow> kmp_table" where
  "ref_retain ref t =
     (case slot_get t ref of
        None \<Rightarrow> t
      | Some i \<Rightarrow> t\<lparr>slots := (slots t)[i := (slots t ! i)\<lparr>s_refcount := s_refcount (slots t ! i) + 1\<rparr>]\<rparr>)"

text \<open>\<open>kmpjs_ref_release\<close>: the freed value, if the count dropped to zero, and the new table.\<close>

definition ref_release :: "64 word \<Rightarrow> kmp_table \<Rightarrow> jsval option \<times> kmp_table" where
  "ref_release ref t =
     (case slot_get t ref of
        None \<Rightarrow> (None, t)
      | Some i \<Rightarrow>
          let n = s_refcount (slots t ! i) - 1;
              t' = t\<lparr>slots := (slots t)[i := (slots t ! i)\<lparr>s_refcount := n\<rparr>]\<rparr> in
          if n = 0 then (let (v, t'') = slot_free ref t' in (Some v, t'')) else (None, t'))"

definition live_refs :: "kmp_table \<Rightarrow> int" where
  "live_refs t = (\<Sum>s\<leftarrow>slots t. s_refcount s)"

text \<open>How many references to address \<open>a\<close> the table holds.\<close>

definition table_held :: "kmp_table \<Rightarrow> nat \<Rightarrow> nat" where
  "table_held t a = (\<Sum>s\<leftarrow>slots t. if 0 < s_refcount s then cnt (s_val s) a else 0)"

section \<open>Well-formed tables\<close>

text \<open>\<open>free_chain ss h is\<close>: the free list starting at \<open>h\<close> visits exactly the slots \<open>is\<close>.\<close>

fun free_chain :: "kmp_slot list \<Rightarrow> int \<Rightarrow> nat list \<Rightarrow> bool" where
  "free_chain ss h [] = (h = -1)"
| "free_chain ss h (i # is) =
     (h = int i \<and> i < length ss \<and> s_refcount (ss ! i) = 0 \<and> free_chain ss (s_next_free (ss ! i)) is)"

definition wf_table :: "kmp_table \<Rightarrow> bool" where
  "wf_table t =
     ((\<forall>i < length (slots t). 0 \<le> s_refcount (slots t ! i)) \<and>
      int (length (slots t)) \<le> INT32_MAX \<and>
      (\<exists>fs. free_chain (slots t) (free_head t) fs \<and> distinct fs \<and>
            (\<forall>i. i \<in> set fs \<longleftrightarrow> i < length (slots t) \<and> s_refcount (slots t ! i) = 0)))"

section \<open>Handles\<close>

text \<open>The arithmetic of the packed 64-bit handle, first for arbitrary halves.\<close>

lemma pack_high: "ucast (drop_bit 32 (push_bit 32 (ucast (g :: 32 word)) OR ucast (b :: 32 word) :: 64 word)) = g"
  by (rule bit_word_eqI) (auto simp: bit_simps dest: bit_imp_le_length)

lemma pack_low: "ucast (push_bit 32 (ucast (g :: 32 word)) OR ucast (b :: 32 word) :: 64 word) = b"
  by (rule bit_word_eqI) (auto simp: bit_simps)

lemma unpack: "(push_bit 32 (ucast (ucast (drop_bit 32 r) :: 32 word)) OR ucast (ucast r :: 32 word)) = (r :: 64 word)"
  by (rule bit_word_eqI) (auto simp: bit_simps)

lemma sint64_neg: "sint (w :: 64 word) < 0 \<longleftrightarrow> bit w 63"
  using bit_last_iff [of w] by simp

lemma pack_positive:
  "0 < sint (push_bit 32 (ucast (g :: 32 word)) OR ucast (b :: 32 word) :: 64 word) \<longleftrightarrow>
   \<not> bit g 31 \<and> (g \<noteq> 0 \<or> b \<noteq> 0)" (is "0 < sint ?w \<longleftrightarrow> _")
proof -
  have sign: "bit ?w 63 \<longleftrightarrow> bit g 31"
    by (auto simp: bit_simps dest: bit_imp_le_length)
  have zero: "?w = 0 \<longleftrightarrow> g = 0 \<and> b = 0"
    using pack_high [of g b] pack_low [of g b] by auto
  have "0 < sint ?w \<longleftrightarrow> \<not> sint ?w < 0 \<and> ?w \<noteq> 0"
    by (metis linorder_neqE_linordered_idom not_less_iff_gr_or_eq sint_0 signed_eq_0_iff)
  then show ?thesis using sign zero sint64_neg [of ?w] by simp
qed

lemma low32_mask: "(ucast (r AND 0xFFFFFFFF) :: 32 word) = ucast (r :: 64 word)"
proof (rule bit_word_eqI)
  fix n assume n: "n < LENGTH(32)"
  then have "bit (0xFFFFFFFF :: 64 word) n"
    by (simp add: bit_mask_iff flip: mask_eq_exp_minus_1 [of 32, where 'a = "64 word", simplified])
  with n show "bit (ucast (r AND 0xFFFFFFFF) :: 32 word) n = bit (ucast r :: 32 word) n"
    by (simp add: bit_simps)
qed

lemma slot_index_alt: "slot_index r = sint (ucast r :: 32 word) - 1"
  by (simp add: slot_index_def low32_mask)

lemma sint_of_small: "0 \<le> x \<Longrightarrow> x < 2 ^ 31 \<Longrightarrow> sint (word_of_int x :: 32 word) = x"
  by (simp add: int_word_sint)

lemma handle_gen_slot_handle [simp]: "handle_gen (slot_handle idx gen) = gen"
  unfolding handle_gen_def slot_handle_def by (rule pack_high)

lemma slot_index_slot_handle [simp]:
  "0 \<le> idx \<Longrightarrow> idx < INT32_MAX \<Longrightarrow> slot_index (slot_handle idx gen) = idx"
  unfolding slot_index_alt slot_handle_def pack_low
  using sint_of_small [of "idx + 1"] by (simp add: INT32_MAX_def)

text \<open>Every handle is the packing of its own index and generation.\<close>

lemma slot_handle_collapse: "slot_handle (slot_index r) (handle_gen r) = r"
  by (simp add: slot_handle_def slot_index_alt handle_gen_def unpack)

lemma slot_handle_positive:
  "0 \<le> idx \<Longrightarrow> idx < INT32_MAX \<Longrightarrow> 0 < sint (slot_handle idx gen) \<longleftrightarrow> \<not> bit gen 31"
  using sint_of_small [of "idx + 1"] by (auto simp: slot_handle_def pack_positive INT32_MAX_def)

lemma slot_handle_nonzero: "0 \<le> idx \<Longrightarrow> idx < INT32_MAX \<Longrightarrow> slot_handle idx gen \<noteq> 0"
  using slot_index_slot_handle [of idx gen] by (auto simp: slot_index_def)

section \<open>Lookup\<close>

definition ref_lookup :: "kmp_table \<Rightarrow> 64 word \<Rightarrow> (jsval \<times> int) option" where
  "ref_lookup t r = map_option (\<lambda>i. (s_val (slots t ! i), s_refcount (slots t ! i))) (slot_get t r)"

text \<open>A handle resolves to slot \<open>i\<close> exactly when it packs \<open>i\<close> with the slot's current generation,
  the slot is live and the generation has not reached the sign bit of the handle.\<close>

lemma slot_get_iff:
  assumes "int (length (slots t)) \<le> INT32_MAX"
  shows "slot_get t r = Some i \<longleftrightarrow>
    i < length (slots t) \<and> 0 < s_refcount (slots t ! i) \<and> \<not> bit (s_gen (slots t ! i)) 31 \<and>
    r = slot_handle (int i) (s_gen (slots t ! i))" (is "_ \<longleftrightarrow> ?R")
proof
  assume get: "slot_get t r = Some i"
  then have i: "slot_index r = int i" "i < length (slots t)" "0 < s_refcount (slots t ! i)"
    "handle_gen r = s_gen (slots t ! i)" "0 < sint r"
    by (auto simp: slot_get_def Let_def split: if_splits)
  moreover have r: "r = slot_handle (int i) (s_gen (slots t ! i))"
    using slot_handle_collapse [of r] i by simp
  ultimately show ?R
    using slot_handle_positive [of "int i" "s_gen (slots t ! i)"] assms by auto
next
  assume R: ?R
  with assms have "0 \<le> int i" "int i < INT32_MAX" by auto
  with R show "slot_get t r = Some i"
    by (simp add: slot_get_def Let_def slot_handle_positive not_le)
qed

lemma slot_get_Some_length: "slot_get t r = Some i \<Longrightarrow> i < length (slots t)"
  by (auto simp: slot_get_def Let_def split: if_splits)

lemma slot_get_Some_live: "slot_get t r = Some i \<Longrightarrow> 0 < s_refcount (slots t ! i)"
  by (auto simp: slot_get_def Let_def split: if_splits)

lemma slot_get_Some_index: "slot_get t r = Some i \<Longrightarrow> slot_index r = int i"
  by (auto simp: slot_get_def Let_def split: if_splits)

lemma slot_get_null [simp]: "slot_get t 0 = None"
  by (simp add: slot_get_def)

section \<open>The free list\<close>

lemma free_chain_update:
  "j \<notin> set is \<Longrightarrow> free_chain (ss[j := s]) h is = free_chain ss h is"
  by (induction "is" arbitrary: h) auto

lemma free_chain_append: "free_chain ss h is \<Longrightarrow> free_chain (ss @ [s]) h is"
  by (induction "is" arbitrary: h) (auto simp: nth_append)

lemma free_chain_head:
  "free_chain ss h is \<Longrightarrow> (0 \<le> h \<longleftrightarrow> is \<noteq> [])"
  by (cases "is") auto

lemma wf_table_empty: "wf_table empty_table"
  by (auto simp: wf_table_def empty_table_def INT32_MAX_def intro: exI [of _ "[]"])

lemma wf_tableE:
  assumes "wf_table t"
  obtains fs where "free_chain (slots t) (free_head t) fs" "distinct fs"
    "\<And>i. i \<in> set fs \<longleftrightarrow> i < length (slots t) \<and> s_refcount (slots t ! i) = 0"
    "int (length (slots t)) \<le> INT32_MAX" "\<And>i. i < length (slots t) \<Longrightarrow> 0 \<le> s_refcount (slots t ! i)"
  using assms unfolding wf_table_def by auto

lemma wf_table_length: "wf_table t \<Longrightarrow> int (length (slots t)) \<le> INT32_MAX"
  by (simp add: wf_table_def)

lemma wf_table_free_head:
  assumes "wf_table t" "0 \<le> free_head t"
  shows "nat (free_head t) < length (slots t)" "s_refcount (slots t ! nat (free_head t)) = 0"
proof -
  from assms(1) obtain fs where "free_chain (slots t) (free_head t) fs"
    by (rule wf_tableE)
  with assms(2) show "nat (free_head t) < length (slots t)" "s_refcount (slots t ! nat (free_head t)) = 0"
    by (cases fs; auto)+
qed

text \<open>Replacing a slot by one with the same liveness leaves the free list alone.\<close>

lemma wf_table_update:
  assumes wf: "wf_table t" and i: "i < length (slots t)"
    and live: "0 < s_refcount (slots t ! i)" "0 < s_refcount s"
  shows "wf_table (t\<lparr>slots := (slots t)[i := s]\<rparr>)"
proof -
  from wf obtain fs where fs: "free_chain (slots t) (free_head t) fs" "distinct fs"
    "\<And>i. i \<in> set fs \<longleftrightarrow> i < length (slots t) \<and> s_refcount (slots t ! i) = 0"
    "int (length (slots t)) \<le> INT32_MAX" "\<And>i. i < length (slots t) \<Longrightarrow> 0 \<le> s_refcount (slots t ! i)"
    by (rule wf_tableE) blast
  have "i \<notin> set fs" using fs(3) live by auto
  then have "free_chain ((slots t)[i := s]) (free_head t) fs"
    using fs(1) by (simp add: free_chain_update)
  moreover have "j \<in> set fs \<longleftrightarrow> j < length (slots t) \<and> s_refcount ((slots t)[i := s] ! j) = 0" for j
    using fs(3) [of j] i live by (cases "j = i") auto
  moreover have "0 \<le> s_refcount ((slots t)[i := s] ! j)" if "j < length (slots t)" for j
    using fs(5) that i live by (cases "j = i") auto
  ultimately show ?thesis
    using fs(2,4) unfolding wf_table_def by auto
qed

section \<open>Operations keep the table well-formed\<close>

lemma wf_slot_new_reuse:
  assumes wf: "wf_table t" and h: "0 \<le> free_head t"
  shows "wf_table (snd (slot_new ok v t))"
proof -
  from wf obtain fs where fs: "free_chain (slots t) (free_head t) fs" "distinct fs"
    "\<And>i. i \<in> set fs \<longleftrightarrow> i < length (slots t) \<and> s_refcount (slots t ! i) = 0"
    "int (length (slots t)) \<le> INT32_MAX" "\<And>i. i < length (slots t) \<Longrightarrow> 0 \<le> s_refcount (slots t ! i)"
    by (rule wf_tableE) blast
  with h obtain i js where i: "fs = i # js" by (cases fs) auto
  let ?s = "(slots t ! i)\<lparr>s_val := v, s_refcount := 1, s_next_free := -1\<rparr>"
  have "free_chain ((slots t)[i := ?s]) (s_next_free (slots t ! i)) js"
    using fs(1,2) i by (simp add: free_chain_update)
  moreover have "j \<in> set js \<longleftrightarrow> j < length (slots t) \<and> s_refcount ((slots t)[i := ?s] ! j) = 0" for j
    using fs(3) [of j] fs(1,2) i by (cases "j = i") auto
  moreover have "0 \<le> s_refcount ((slots t)[i := ?s] ! j)" if "j < length (slots t)" for j
    using fs(5) that by (cases "j = i") auto
  moreover have "nat (free_head t) = i" "distinct js" using fs(1,2) i by auto
  ultimately show ?thesis
    using fs(4) h unfolding wf_table_def slot_new_def by (auto simp: Let_def)
qed

lemma wf_slot_new_append:
  assumes wf: "wf_table t" and h: "free_head t < 0" and n: "int (length (slots t)) \<noteq> INT32_MAX"
    and s: "s_refcount s = 1"
  shows "wf_table (t\<lparr>slot_cap := c, slots := slots t @ [s]\<rparr>)" "wf_table (t\<lparr>slots := slots t @ [s]\<rparr>)"
proof -
  from wf obtain fs where fs: "free_chain (slots t) (free_head t) fs" "distinct fs"
    "\<And>i. i \<in> set fs \<longleftrightarrow> i < length (slots t) \<and> s_refcount (slots t ! i) = 0"
    "int (length (slots t)) \<le> INT32_MAX" "\<And>i. i < length (slots t) \<Longrightarrow> 0 \<le> s_refcount (slots t ! i)"
    by (rule wf_tableE) blast
  with h have "fs = []" using free_chain_head by fastforce
  with fs h n s have "free_head t = -1" "\<And>i. i < length (slots t) \<Longrightarrow> s_refcount (slots t ! i) \<noteq> 0"
    by auto
  with fs(4,5) n s show "wf_table (t\<lparr>slot_cap := c, slots := slots t @ [s]\<rparr>)" "wf_table (t\<lparr>slots := slots t @ [s]\<rparr>)"
    unfolding wf_table_def by (auto simp: nth_append less_Suc_eq intro!: exI [of _ "[]"])
qed

lemma wf_slot_new: "wf_table t \<Longrightarrow> wf_table (snd (slot_new ok v t))"
proof (cases "0 \<le> free_head t")
  case False
  assume wf: "wf_table t"
  then show ?thesis
    using wf False by (auto simp: slot_new_def Let_def not_le intro!: wf_slot_new_append)
qed (rule wf_slot_new_reuse)

lemma wf_ref_retain: "wf_table t \<Longrightarrow> wf_table (ref_retain r t)"
  by (auto simp: ref_retain_def slot_get_Some_length slot_get_Some_live
      intro!: wf_table_update split: option.splits dest: slot_get_Some_live)

lemma wf_slot_free:
  assumes wf: "wf_table t" and i: "i < length (slots t)" and live: "0 < s_refcount (slots t ! i)"
    and s: "s_refcount s = 0" "s_next_free s = free_head t"
  shows "wf_table (t\<lparr>slots := (slots t)[i := s], free_head := int i\<rparr>)"
proof -
  from wf obtain fs where fs: "free_chain (slots t) (free_head t) fs" "distinct fs"
    "\<And>i. i \<in> set fs \<longleftrightarrow> i < length (slots t) \<and> s_refcount (slots t ! i) = 0"
    "int (length (slots t)) \<le> INT32_MAX" "\<And>i. i < length (slots t) \<Longrightarrow> 0 \<le> s_refcount (slots t ! i)"
    by (rule wf_tableE) blast
  have ni: "i \<notin> set fs" using fs(3) live by auto
  let ?ss = "(slots t)[i := s]"
  have "free_chain ?ss (int i) (i # fs)"
    using fs(1) ni i s by (simp add: free_chain_update)
  moreover have "j \<in> set (i # fs) \<longleftrightarrow> j < length ?ss \<and> s_refcount (?ss ! j) = 0" for j
    using fs(3) [of j] i s by (cases "j = i") auto
  moreover have "0 \<le> s_refcount (?ss ! j)" if "j < length (slots t)" for j
    using fs(5) that i s by (cases "j = i") auto
  moreover have "distinct (i # fs)" using ni fs(2) by simp
  ultimately show ?thesis
    using fs(4) unfolding wf_table_def
    by (simp del: free_chain.simps set_simps distinct.simps) blast
qed

text \<open>What the last release does to the table, in one step.\<close>

lemma ref_release_cases:
  assumes "slot_get t r = Some i"
  shows "ref_release r t =
    (if s_refcount (slots t ! i) = 1
     then (Some (s_val (slots t ! i)),
           t\<lparr>slots := (slots t)[i := (slots t ! i)\<lparr>s_val := JUndefined, s_refcount := 0,
               s_gen := s_gen (slots t ! i) + 1, s_next_free := free_head t\<rparr>], free_head := int i\<rparr>)
     else (None, t\<lparr>slots := (slots t)[i := (slots t ! i)\<lparr>s_refcount := s_refcount (slots t ! i) - 1\<rparr>]\<rparr>))"
  using assms slot_get_Some_length [OF assms] slot_get_Some_index [OF assms]
  by (auto simp: ref_release_def slot_free_def Let_def)

lemma ref_release_dead: "slot_get t r = None \<Longrightarrow> ref_release r t = (None, t)"
  by (simp add: ref_release_def)

lemma wf_ref_release: "wf_table t \<Longrightarrow> wf_table (snd (ref_release r t))"
proof (cases "slot_get t r")
  case (Some i)
  assume wf: "wf_table t"
  note i = slot_get_Some_length [OF Some] and live = slot_get_Some_live [OF Some]
  show ?thesis
    using live by (auto simp: ref_release_cases [OF Some] intro!: wf_slot_free [OF wf i]
        wf_table_update [OF wf i])
qed (simp add: ref_release_def)

section \<open>What the operations do to the abstract map\<close>

text \<open>The view of one slot under a generation; a lookup is the view of the slot the handle names.\<close>

definition slot_view :: "kmp_slot \<Rightarrow> 32 word \<Rightarrow> (jsval \<times> int) option" where
  "slot_view s g = (if 0 < s_refcount s \<and> s_gen s = g then Some (s_val s, s_refcount s) else None)"

lemma ref_lookup_alt:
  "ref_lookup t r =
     (if 0 < sint r \<and> 0 \<le> slot_index r \<and> slot_index r < int (length (slots t))
      then slot_view (slots t ! nat (slot_index r)) (handle_gen r) else None)"
  by (auto simp: ref_lookup_def slot_get_def slot_view_def Let_def)

lemma ref_lookup_slot:
  "slot_get t r = Some i \<Longrightarrow> ref_lookup t r = Some (s_val (slots t ! i), s_refcount (slots t ! i))"
  by (simp add: ref_lookup_def)

lemma ref_lookup_None_iff [simp]: "ref_lookup t r = None \<longleftrightarrow> slot_get t r = None"
  by (simp add: ref_lookup_def)

lemma ref_lookup_pos: "ref_lookup t r = Some (v, n) \<Longrightarrow> 0 < n"
  by (auto simp: ref_lookup_def dest: slot_get_Some_live)

lemma ref_lookup_null: "ref_lookup t 0 = None"
  by simp

lemma handle_eqI: "slot_index r = slot_index q \<Longrightarrow> handle_gen r = handle_gen q \<Longrightarrow> r = q"
  by (metis slot_handle_collapse)

text \<open>Replacing slot \<open>i\<close> affects only the handles that name it.\<close>

lemma ref_lookup_update:
  assumes "i < length (slots t)" and "slots t' = (slots t)[i := s]"
  shows "ref_lookup t' r =
    (if slot_index r = int i then (if 0 < sint r then slot_view s (handle_gen r) else None)
     else ref_lookup t r)"
  using assms by (auto simp: ref_lookup_alt nth_list_update)

lemma ref_lookup_append:
  assumes "slots t' = slots t @ [s]"
  shows "ref_lookup t' r =
    (if slot_index r = int (length (slots t)) then (if 0 < sint r then slot_view s (handle_gen r) else None)
     else ref_lookup t r)"
  using assms by (auto simp: ref_lookup_alt nth_append)

lemma slot_get_Some_gen: "slot_get t r = Some i \<Longrightarrow> s_gen (slots t ! i) = handle_gen r \<and> 0 < sint r"
  by (auto simp: slot_get_def Let_def split: if_splits)

lemma ref_lookup_same_slot:
  assumes "slot_get t r = Some i" "slot_index q = int i" "q \<noteq> r"
  shows "ref_lookup t q = None" "handle_gen q \<noteq> handle_gen r"
  using assms slot_get_Some_index [OF assms(1)] slot_get_Some_gen [OF assms(1)] handle_eqI [of q r]
  by (auto simp: ref_lookup_alt slot_view_def simp del: ref_lookup_None_iff)

lemma ref_lookup_update_at:
  assumes get: "slot_get t r = Some i" and upd: "slots t' = (slots t)[i := s]"
    and s: "s_refcount s = 0 \<or> s_gen s = handle_gen r"
  shows "ref_lookup t' = (ref_lookup t)(r := slot_view s (handle_gen r))"
proof
  fix q
  note facts = slot_get_Some_index [OF get] slot_get_Some_gen [OF get]
  note lookup = ref_lookup_update [OF slot_get_Some_length [OF get] upd, of q]
  consider "q = r" | "q \<noteq> r" "slot_index q = int i" | "slot_index q \<noteq> int i" by blast
  then show "ref_lookup t' q = ((ref_lookup t)(r := slot_view s (handle_gen r))) q"
  proof cases
    case 2
    with ref_lookup_same_slot [OF get 2(2,1)] lookup s show ?thesis
      by (auto simp: slot_view_def simp del: ref_lookup_None_iff)
  qed (use lookup facts in auto)
qed

lemma ref_lookup_retain:
  "ref_lookup (ref_retain r t) = (ref_lookup t)(r := map_option (\<lambda>(v, n). (v, n + 1)) (ref_lookup t r))"
proof (cases "slot_get t r")
  case (Some i)
  let ?s = "(slots t ! i)\<lparr>s_refcount := s_refcount (slots t ! i) + 1\<rparr>"
  have "ref_lookup (ref_retain r t) = (ref_lookup t)(r := slot_view ?s (handle_gen r))"
    by (rule ref_lookup_update_at [OF Some])
       (use Some slot_get_Some_gen [OF Some] in \<open>simp_all add: ref_retain_def\<close>)
  then show ?thesis
    using slot_get_Some_gen [OF Some] slot_get_Some_live [OF Some] ref_lookup_slot [OF Some]
    by (simp add: slot_view_def)
qed (auto simp: ref_retain_def fun_eq_iff ref_lookup_def)

lemma ref_lookup_release:
  "ref_lookup (snd (ref_release r t)) =
     (ref_lookup t)(r := (case ref_lookup t r of
         Some (v, n) \<Rightarrow> if n = 1 then None else Some (v, n - 1) | None \<Rightarrow> None))"
proof (cases "slot_get t r")
  case (Some i)
  let ?s = "if s_refcount (slots t ! i) = 1
    then (slots t ! i)\<lparr>s_val := JUndefined, s_refcount := 0,
      s_gen := s_gen (slots t ! i) + 1, s_next_free := free_head t\<rparr>
    else (slots t ! i)\<lparr>s_refcount := s_refcount (slots t ! i) - 1\<rparr>"
  have "ref_lookup (snd (ref_release r t)) = (ref_lookup t)(r := slot_view ?s (handle_gen r))"
    by (rule ref_lookup_update_at [OF Some])
       (use slot_get_Some_gen [OF Some] in \<open>simp_all add: ref_release_cases [OF Some]\<close>)
  then show ?thesis
    using slot_get_Some_gen [OF Some] slot_get_Some_live [OF Some] ref_lookup_slot [OF Some]
    by (simp add: slot_view_def)
qed (auto simp: ref_release_def fun_eq_iff ref_lookup_def)

text \<open>The value handed back by a release is the stored one, exactly when the count reaches zero.\<close>

lemma ref_release_freed:
  "fst (ref_release r t) =
     (case ref_lookup t r of Some (v, n) \<Rightarrow> if n = 1 then Some v else None | None \<Rightarrow> None)"
proof (cases "slot_get t r")
  case (Some i)
  then show ?thesis by (simp add: ref_release_cases [OF Some] ref_lookup_slot)
qed (simp add: ref_release_def ref_lookup_def)

text \<open>\<open>slot_new\<close> hands out a handle that named nothing before and names the new value now, unless
  the generation of the reused slot has reached \<open>2^31\<close>.\<close>

lemma slot_new_cases:
  assumes wf: "wf_table t" and new: "slot_new ok v t = (h, t')"
  obtains (fail) "h = 0" "t' = t" "free_head t < 0"
      "int (length (slots t)) = INT32_MAX \<or> (slot_grows t \<and> \<not> ok)"
  | (reuse) i where "i < length (slots t)" "s_refcount (slots t ! i) = 0"
      "free_head t = int i" "h = slot_handle (int i) (s_gen (slots t ! i))"
      "slots t' = (slots t)[i := (slots t ! i)\<lparr>s_val := v, s_refcount := 1, s_next_free := -1\<rparr>]"
  | (append) "free_head t < 0" "int (length (slots t)) < INT32_MAX"
      "h = slot_handle (int (length (slots t))) 0"
      "slots t' = slots t @ [\<lparr>s_val = v, s_refcount = 1, s_next_free = -1, s_gen = 0\<rparr>]"
proof (cases "0 \<le> free_head t")
  case True
  with wf_table_free_head [OF wf True] new show ?thesis
    by (intro reuse [of "nat (free_head t)"]) (auto simp: slot_new_def Let_def)
next
  case False
  show ?thesis
  proof (cases "int (length (slots t)) = INT32_MAX \<or> (slot_grows t \<and> \<not> ok)")
    case True
    with False new fail show ?thesis by (auto simp: slot_new_def split: if_splits)
  next
    case nofail: False
    with False new wf_table_length [OF wf] append show ?thesis by (auto simp: slot_new_def Let_def)
  qed
qed

lemma ref_lookup_new:
  assumes wf: "wf_table t" and new: "slot_new ok v t = (h, t')" and h: "h \<noteq> 0" "\<not> bit (handle_gen h) 31"
  shows "ref_lookup t' = (ref_lookup t)(h \<mapsto> (v, 1))" "ref_lookup t h = None"
proof -
  note len = wf_table_length [OF wf]
  from wf new have both: "ref_lookup t' = (ref_lookup t)(h \<mapsto> (v, 1)) \<and> ref_lookup t h = None"
  proof (cases rule: slot_new_cases)
    case (reuse i)
    then have h': "slot_index h = int i" "handle_gen h = s_gen (slots t ! i)" "0 < sint h"
      using len h slot_handle_positive [of "int i"] by auto
    then have dead: "ref_lookup t q = None" if "slot_index q = int i" for q
      using that reuse by (auto simp: ref_lookup_alt slot_view_def simp del: ref_lookup_None_iff)
    have "ref_lookup t' q = ((ref_lookup t)(h \<mapsto> (v, 1))) q" for q
      using dead [of q] h' handle_eqI [of q h] ref_lookup_update [OF reuse(1,5), of q]
      by (cases "q = h") (auto simp: slot_view_def simp del: ref_lookup_None_iff)
    with dead h' show ?thesis by blast
  next
    case append
    then have h': "slot_index h = int (length (slots t))" "handle_gen h = 0" "0 < sint h"
      using slot_handle_positive [of "int (length (slots t))"] by auto
    then have dead: "ref_lookup t q = None" if "slot_index q = int (length (slots t))" for q
      using that by (auto simp: ref_lookup_alt simp del: ref_lookup_None_iff)
    have "ref_lookup t' q = ((ref_lookup t)(h \<mapsto> (v, 1))) q" for q
      using dead [of q] h' handle_eqI [of q h] ref_lookup_append [OF append(4), of q]
      by (cases "q = h") (auto simp: slot_view_def simp del: ref_lookup_None_iff)
    with dead h' show ?thesis by blast
  qed (use h in simp)
  then show "ref_lookup t' = (ref_lookup t)(h \<mapsto> (v, 1))" "ref_lookup t h = None" by auto
qed

section \<open>The interface of the ref table\<close>

datatype 'r ref_op = Retain 'r | Release 'r

fun run_refs :: "('r \<Rightarrow> 't \<Rightarrow> 't) \<Rightarrow> ('r \<Rightarrow> 't \<Rightarrow> 't) \<Rightarrow> 'r ref_op list \<Rightarrow> 't \<Rightarrow> 't" where
  "run_refs ret rel [] t = t"
| "run_refs ret rel (Retain r # ops) t = run_refs ret rel ops (ret r t)"
| "run_refs ret rel (Release r # ops) t = run_refs ret rel ops (rel r t)"

text \<open>
  What a client of the table relies on: each operation is its effect on the abstract map from handles
  to (value, count). \<open>usable\<close> handles are those a lookup can accept.
\<close>

locale ref_map =
  fixes wf :: "'t \<Rightarrow> bool" and lookup :: "'t \<Rightarrow> 'r \<Rightarrow> (jsval \<times> int) option"
    and new :: "bool \<Rightarrow> jsval \<Rightarrow> 't \<Rightarrow> 'r \<times> 't" and null :: 'r and usable :: "'r \<Rightarrow> bool"
    and retain :: "'r \<Rightarrow> 't \<Rightarrow> 't" and release :: "'r \<Rightarrow> 't \<Rightarrow> jsval option \<times> 't"
  assumes wf_new: "wf t \<Longrightarrow> wf (snd (new ok v t))"
    and wf_retain: "wf t \<Longrightarrow> wf (retain r t)"
    and wf_release: "wf t \<Longrightarrow> wf (snd (release r t))"
    and lookup_null: "lookup t null = None"
    and lookup_pos: "lookup t r = Some (v, n) \<Longrightarrow> 0 < n"
    and lookup_new: "\<lbrakk>wf t; new ok v t = (h, t'); h \<noteq> null; usable h\<rbrakk> \<Longrightarrow>
      lookup t' = (lookup t)(h \<mapsto> (v, 1))"
    and new_fresh: "\<lbrakk>wf t; new ok v t = (h, t'); h \<noteq> null; usable h\<rbrakk> \<Longrightarrow> lookup t h = None"
    and lookup_retain: "lookup (retain r t) =
      (lookup t)(r := map_option (\<lambda>(v, n). (v, n + 1)) (lookup t r))"
    and lookup_release: "lookup (snd (release r t)) =
      (lookup t)(r := (case lookup t r of
         Some (v, n) \<Rightarrow> if n = 1 then None else Some (v, n - 1) | None \<Rightarrow> None))"
    and release_freed: "fst (release r t) =
      (case lookup t r of Some (v, n) \<Rightarrow> if n = 1 then Some v else None | None \<Rightarrow> None)"
begin

text \<open>A retain undone by a release leaves every handle as it was and frees nothing.\<close>

lemma retain_release_undo:
  "lookup t r \<noteq> None \<Longrightarrow> lookup (snd (release r (retain r t))) = lookup t \<and> fst (release r (retain r t)) = None"
  using lookup_pos [of t r] by (auto simp: lookup_release release_freed lookup_retain fun_eq_iff)

text \<open>A new handle that is released frees its value and leaves every other handle as it was.\<close>

lemma new_release_undo:
  assumes "wf t" "new ok v t = (h, t')" "h \<noteq> null" "usable h"
  shows "lookup (snd (release h t')) = lookup t \<and> fst (release h t') = Some v"
  using lookup_new [OF assms] new_fresh [OF assms]
  by (auto simp: lookup_release release_freed fun_eq_iff)

lemma other_handles:
  "q \<noteq> r \<Longrightarrow> lookup (retain r t) q = lookup t q"
  "q \<noteq> r \<Longrightarrow> lookup (snd (release r t)) q = lookup t q"
  by (auto simp: lookup_retain lookup_release)

text \<open>A handle lives, with its value, as long as it has been released less often than it is counted.\<close>

lemma handle_survives:
  assumes "lookup t r = Some (v, n)" "int (count_list ops (Release r)) < n"
  shows "lookup (run_refs retain (\<lambda>r t. snd (release r t)) ops t) r =
    Some (v, n + int (count_list ops (Retain r)) - int (count_list ops (Release r)))"
  using assms
proof (induction ops arbitrary: t n)
  case (Cons op ops)
  show ?case
  proof (cases op)
    case (Retain q)
    with Cons.prems have "lookup (retain q t) r = Some (v, if q = r then n + 1 else n)"
      by (auto simp: lookup_retain)
    from Cons.IH [OF this] Cons.prems Retain show ?thesis by (auto split: if_splits)
  next
    case (Release q)
    with Cons.prems have "lookup (snd (release q t)) r = Some (v, if q = r then n - 1 else n)"
      by (auto simp: lookup_release split: if_splits)
    from Cons.IH [OF this] Cons.prems Release show ?thesis by (auto split: if_splits)
  qed
qed simp

end

definition usable_handle :: "64 word \<Rightarrow> bool" where
  "usable_handle h = (\<not> bit (handle_gen h) 31)"

interpretation refs: ref_map wf_table ref_lookup slot_new 0 usable_handle ref_retain ref_release
  by unfold_locales
    (auto simp: wf_slot_new wf_ref_retain wf_ref_release ref_lookup_null ref_lookup_pos usable_handle_def
      ref_lookup_retain ref_lookup_release ref_release_freed dest: ref_lookup_new simp del: ref_lookup_None_iff)

section \<open>References held by the table\<close>

lemma table_held_update:
  assumes "i < length (slots t)" "slots t' = (slots t)[i := s]"
  shows "table_held t' a + (if 0 < s_refcount (slots t ! i) then cnt (s_val (slots t ! i)) a else 0)
    = table_held t a + (if 0 < s_refcount s then cnt (s_val s) a else 0)"
  unfolding table_held_def assms(2)
  using sum_map_update [OF assms(1), of "\<lambda>s. if 0 < s_refcount s then cnt (s_val s) a else 0" s] by simp

lemma table_held_new:
  assumes "wf_table t" "slot_new ok v t = (h, t')"
  shows "table_held t' a = table_held t a + (if h = 0 then 0 else cnt v a)"
  using assms
proof (cases rule: slot_new_cases)
  case (reuse i)
  have "h \<noteq> 0" using reuse wf_table_length [OF assms(1)] by (simp add: slot_handle_nonzero)
  with table_held_update [OF reuse(1,5), of a] reuse show ?thesis by simp
next
  case append
  then have "h \<noteq> 0" by (simp add: slot_handle_nonzero)
  with append show ?thesis by (simp add: table_held_def)
qed simp

lemma table_held_retain: "table_held (ref_retain r t) a = table_held t a"
proof (cases "slot_get t r")
  case (Some i)
  let ?s = "(slots t ! i)\<lparr>s_refcount := s_refcount (slots t ! i) + 1\<rparr>"
  have "slots (ref_retain r t) = (slots t)[i := ?s]" using Some by (simp add: ref_retain_def)
  from table_held_update [OF slot_get_Some_length [OF Some] this, of a] slot_get_Some_live [OF Some]
  show ?thesis by simp
qed (simp add: ref_retain_def)

lemma table_held_release:
  "table_held t a = table_held (snd (ref_release r t)) a +
     (case fst (ref_release r t) of Some v \<Rightarrow> cnt v a | None \<Rightarrow> 0)"
proof (cases "slot_get t r")
  case (Some i)
  let ?s = "if s_refcount (slots t ! i) = 1
    then (slots t ! i)\<lparr>s_val := JUndefined, s_refcount := 0,
      s_gen := s_gen (slots t ! i) + 1, s_next_free := free_head t\<rparr>
    else (slots t ! i)\<lparr>s_refcount := s_refcount (slots t ! i) - 1\<rparr>"
  have "slots (snd (ref_release r t)) = (slots t)[i := ?s]"
    by (simp add: ref_release_cases [OF Some])
  from table_held_update [OF slot_get_Some_length [OF Some] this, of a] slot_get_Some_live [OF Some]
  show ?thesis by (auto simp: ref_release_cases [OF Some])
qed (simp add: ref_release_def)

section \<open>Outstanding releases\<close>

lemma sum_list_update_int:
  fixes xs :: "int list"
  shows "i < length xs \<Longrightarrow> sum_list (xs[i := y]) = sum_list xs - xs ! i + y"
  by (induction xs arbitrary: i) (auto split: nat.splits)

lemma live_refs_update:
  "i < length (slots t) \<Longrightarrow> slots t' = (slots t)[i := s] \<Longrightarrow>
   live_refs t' = live_refs t - s_refcount (slots t ! i) + s_refcount s"
  unfolding live_refs_def by (simp add: map_update sum_list_update_int)

lemma live_refs_new:
  assumes wf: "wf_table t"
  shows "live_refs (snd (slot_new ok v t)) = live_refs t + (if fst (slot_new ok v t) = 0 then 0 else 1)"
proof -
  obtain h t' where new: "slot_new ok v t = (h, t')" by fastforce
  from wf new show ?thesis
  proof (cases rule: slot_new_cases)
    case (reuse i)
    have "h \<noteq> 0" using reuse wf_table_length [OF wf] by (simp add: slot_handle_nonzero)
    with live_refs_update [OF reuse(1,5)] reuse new show ?thesis by simp
  next
    case append
    then have "h \<noteq> 0" by (simp add: slot_handle_nonzero)
    with append new show ?thesis by (simp add: live_refs_def)
  qed (use new in simp)
qed

lemma live_refs_retain: "live_refs (ref_retain r t) = live_refs t + (if slot_get t r = None then 0 else 1)"
proof (cases "slot_get t r")
  case (Some i)
  let ?s = "(slots t ! i)\<lparr>s_refcount := s_refcount (slots t ! i) + 1\<rparr>"
  have "slots (ref_retain r t) = (slots t)[i := ?s]" using Some by (simp add: ref_retain_def)
  from live_refs_update [OF slot_get_Some_length [OF Some] this] Some show ?thesis by simp
qed (simp add: ref_retain_def)

lemma live_refs_release: "live_refs (snd (ref_release r t)) = live_refs t - (if slot_get t r = None then 0 else 1)"
proof (cases "slot_get t r")
  case (Some i)
  let ?s = "if s_refcount (slots t ! i) = 1
    then (slots t ! i)\<lparr>s_val := JUndefined, s_refcount := 0,
      s_gen := s_gen (slots t ! i) + 1, s_next_free := free_head t\<rparr>
    else (slots t ! i)\<lparr>s_refcount := s_refcount (slots t ! i) - 1\<rparr>"
  have "slots (snd (ref_release r t)) = (slots t)[i := ?s]" by (simp add: ref_release_cases [OF Some])
  from live_refs_update [OF slot_get_Some_length [OF Some] this] Some show ?thesis by simp
qed (simp add: ref_release_def)

section \<open>Released handles stay rejected\<close>

datatype table_op = TNew bool jsval | TRetain "64 word" | TRelease "64 word"

fun table_do :: "table_op \<Rightarrow> kmp_table \<Rightarrow> kmp_table" where
  "table_do (TNew ok v) t = snd (slot_new ok v t)"
| "table_do (TRetain r) t = ref_retain r t"
| "table_do (TRelease r) t = snd (ref_release r t)"

text \<open>\<open>stale t r\<close>: the handle belongs to an earlier generation of a slot of the table.\<close>

definition stale :: "kmp_table \<Rightarrow> 64 word \<Rightarrow> bool" where
  "stale t r = (0 \<le> slot_index r \<and> slot_index r < int (length (slots t)) \<and>
     unat (handle_gen r) < unat (s_gen (slots t ! nat (slot_index r))))"

lemma gen_below: "\<not> bit (g :: 32 word) 31 \<Longrightarrow> unat g < 2 ^ 31"
proof -
  assume "\<not> bit g 31"
  then have "g = take_bit 31 g"
    by (intro bit_word_eqI) (auto simp: bit_take_bit_iff less_Suc_eq numeral_eq_Suc)
  then have "unat g = take_bit 31 (unat g)" by (metis unsigned_take_bit_eq)
  then show "unat g < 2 ^ 31" by (metis take_bit_nat_less_exp)
qed

lemma stale_rejected: "stale t r \<Longrightarrow> slot_get t r = None"
  by (auto simp: stale_def slot_get_def Let_def)

lemma wf_table_do: "wf_table t \<Longrightarrow> wf_table (table_do op t)"
  by (cases op) (auto simp: wf_slot_new wf_ref_retain wf_ref_release)

lemma table_do_gen:
  assumes wf: "wf_table t" and i: "i < length (slots t)"
  shows "i < length (slots (table_do op t)) \<and>
    (s_gen (slots (table_do op t) ! i) = s_gen (slots t ! i) \<or>
     s_gen (slots (table_do op t) ! i) = s_gen (slots t ! i) + 1)"
proof (cases op)
  case (TNew ok v)
  obtain h t' where new: "slot_new ok v t = (h, t')" by fastforce
  from wf new show ?thesis
    by (cases rule: slot_new_cases) (use i TNew new in \<open>auto simp: nth_append nth_list_update\<close>)
next
  case (TRetain r)
  with i show ?thesis
    by (auto simp: ref_retain_def nth_list_update slot_get_Some_length split: option.splits)
next
  case (TRelease r)
  then show ?thesis using i
    by (cases "slot_get t r")
      (auto simp: ref_release_cases ref_release_dead nth_list_update slot_get_Some_length)
qed

lemma fold_table_do_stale:
  assumes "wf_table t" "stale t r" "unat (s_gen (slots t ! nat (slot_index r))) + length ops < 2 ^ 32"
  shows "stale (fold table_do ops t) r"
  using assms
proof (induction ops arbitrary: t)
  case (Cons op ops)
  let ?i = "nat (slot_index r)" and ?t = "table_do op t"
  have i: "?i < length (slots t)" using Cons.prems(2) by (auto simp: stale_def)
  have "unat (s_gen (slots t ! ?i) + 1) = unat (s_gen (slots t ! ?i)) + 1"
    using Cons.prems(3) by (simp add: unat_word_ariths)
  with table_do_gen [OF Cons.prems(1) i, of op] Cons.prems(2,3)
  have "stale ?t r" "unat (s_gen (slots ?t ! ?i)) + length ops < 2 ^ 32"
    by (auto simp: stale_def)
  with Cons.IH [OF wf_table_do [OF Cons.prems(1)]] show ?case by simp
qed simp

section \<open>Properties\<close>

definition one_slot :: kmp_table where
  "one_slot = \<lparr>slots = [\<lparr>s_val = JPtr TagObject 7, s_refcount = 1, s_next_free = -1, s_gen = 0\<rparr>],
     slot_cap = 16, free_head = -1\<rparr>"

lemma one_slot_new: "slot_new True (JPtr TagObject 7) empty_table = (1, one_slot)"
  by (simp add: slot_new_def empty_table_def one_slot_def INT32_MAX_def slot_grows_def slot_handle_def)

lemma wf_one_slot: "wf_table one_slot"
  using wf_slot_new [OF wf_table_empty, of True "JPtr TagObject 7"] one_slot_new by simp

lemma lookup_one_slot: "ref_lookup one_slot 1 = Some (JPtr TagObject 7, 1)"
  by (simp add: ref_lookup_def slot_get_def one_slot_def slot_index_def handle_gen_def Let_def)

text \<open>C3: \<open>slot_new\<close> refines insertion into a map: unless it fails (handle 0) or the reused slot has used up
  its \<open>2^31\<close> generations, the handle it returns named nothing before, names the new value with count 1
  now, and every other handle resolves as it did.\<close>

theorem slot_new_refines:
  assumes "wf_table t" "slot_new ok v t = (h, t')" "h \<noteq> 0" "usable_handle h"
  shows "ref_lookup t h = None \<and> ref_lookup t' = (ref_lookup t)(h \<mapsto> (v, 1)) \<and> wf_table t'"
  using refs.new_fresh [OF assms] refs.lookup_new [OF assms] refs.wf_new [OF assms(1), of ok v] assms(2) by simp

theorem slot_new_refines_witness:
  "ref_lookup empty_table 1 = None \<and> ref_lookup one_slot = (ref_lookup empty_table)(1 \<mapsto> (JPtr TagObject 7, 1)) \<and>
   wf_table one_slot"
  by (rule slot_new_refines [OF wf_table_empty one_slot_new]) (simp_all add: usable_handle_def handle_gen_def)


text \<open>A handle keeps resolving to its value, with the exact count, through any interleaving of retains
  and releases of any handles, as long as it has been released less often than it is counted.\<close>

theorem handle_stays_valid:
  assumes "ref_lookup t r = Some (v, n)" "int (count_list ops (Release r)) < n"
  shows "ref_lookup (run_refs ref_retain (\<lambda>r t. snd (ref_release r t)) ops t) r =
    Some (v, n + int (count_list ops (Retain r)) - int (count_list ops (Release r)))"
  using assms by (rule refs.handle_survives)

theorem handle_stays_valid_witness:
  "ref_lookup (run_refs ref_retain (\<lambda>r t. snd (ref_release r t)) [Retain 1, Release 5] one_slot) 1 =
   Some (JPtr TagObject 7, 2)"
  using handle_stays_valid [OF lookup_one_slot, of "[Retain 1, Release 5]"] by simp

text \<open>C6: a handle whose last reference has been released is rejected by every later lookup, whatever
  is done to the table in between, for at least \<open>2^31\<close> further table operations: a reused slot does
  not answer to its earlier handles.\<close>

theorem released_handle_rejected:
  assumes wf: "wf_table t" and r: "ref_lookup t r = Some (v, 1)" and n: "length ops < 2 ^ 31"
  shows "slot_get (fold table_do ops (snd (ref_release r t))) r = None"
proof -
  obtain i where i: "slot_get t r = Some i" "s_refcount (slots t ! i) = 1"
    using r by (auto simp: ref_lookup_def)
  let ?t = "snd (ref_release r t)"
  have at: "slot_index r = int i" "i < length (slots t)" "s_gen (slots t ! i) = handle_gen r"
    "\<not> bit (s_gen (slots t ! i)) 31"
    using slot_get_Some_index [OF i(1)] slot_get_Some_length [OF i(1)] slot_get_Some_gen [OF i(1)]
      slot_get_iff [OF wf_table_length [OF wf]] i(1) by auto
  have small: "unat (handle_gen r) < 2 ^ 31"
    using at(3,4) gen_below [of "handle_gen r"] by simp
  then have succ: "unat (handle_gen r + 1) = unat (handle_gen r) + 1" by (simp add: unat_word_ariths)
  have "length (slots ?t) = length (slots t)" "s_gen (slots ?t ! i) = handle_gen r + 1"
    using at i by (simp_all add: ref_release_cases [OF i(1)])
  with at succ small n have "stale ?t r" "unat (s_gen (slots ?t ! nat (slot_index r))) + length ops < 2 ^ 32"
    by (auto simp: stale_def)
  with fold_table_do_stale [OF wf_ref_release [OF wf]] show ?thesis by (intro stale_rejected) blast
qed

theorem released_handle_rejected_witness:
  "slot_get (fold table_do [TNew True (JPtr TagObject 9)] (snd (ref_release 1 one_slot))) 1 = None"
  by (rule released_handle_rejected [OF wf_one_slot lookup_one_slot]) simp


text \<open>The \<open>live_refs\<close> statistic counts outstanding releases: a successful \<open>slot_new\<close> and a retain of a
  live handle add one, a release of a live handle takes one away.\<close>

theorem live_refs_counts_releases:
  assumes "wf_table t"
  shows "live_refs (snd (slot_new ok v t)) = live_refs t + (if fst (slot_new ok v t) = 0 then 0 else 1) \<and>
    live_refs (ref_retain r t) = live_refs t + (if slot_get t r = None then 0 else 1) \<and>
    live_refs (snd (ref_release r t)) = live_refs t - (if slot_get t r = None then 0 else 1)"
  using live_refs_new [OF assms] live_refs_retain live_refs_release by simp

theorem live_refs_counts_releases_witness:
  "live_refs (snd (slot_new True (JPtr TagObject 7) one_slot)) = live_refs one_slot + 1"
  using live_refs_counts_releases [OF wf_one_slot, of True "JPtr TagObject 7" 1]
  by (simp add: slot_new_def one_slot_def INT32_MAX_def slot_grows_def slot_handle_def)

text \<open>C18: a slot that has been freed \<open>2^31\<close> times hands out handles whose sign bit is set: \<open>slot_new\<close>
  reports success with a nonzero handle, but no lookup accepts that handle, so it cannot be used or
  released and its value stays held until the engine is destroyed.\<close>

theorem exhausted_generation_unusable:
  assumes wf: "wf_table t" and i: "free_head t = int i" and gen: "bit (s_gen (slots t ! i)) 31"
    and new: "slot_new ok v t = (h, t')"
  shows "h \<noteq> 0 \<and> slot_get t' h = None \<and> ref_release h t' = (None, t') \<and>
    (\<forall>a. table_held t' a = table_held t a + cnt v a)"
proof -
  have idx: "i < length (slots t)" using wf_table_free_head [OF wf] i by simp
  then have range: "int i < INT32_MAX" using wf_table_length [OF wf] by linarith
  have h: "h = slot_handle (int i) (s_gen (slots t ! i))" using new i by (simp add: slot_new_def Let_def)
  have "h \<noteq> 0" unfolding h using range by (simp add: slot_handle_nonzero)
  moreover have "sint h \<le> 0" unfolding h using range gen slot_handle_positive [of "int i" "s_gen (slots t ! i)"] by simp
  then have "slot_get t' h = None" by (simp add: slot_get_def Let_def)
  ultimately show ?thesis using table_held_new [OF wf new] by (simp add: ref_release_dead)
qed

definition worn_table :: kmp_table where
  "worn_table = \<lparr>slots = [\<lparr>s_val = JUndefined, s_refcount = 0, s_next_free = -1, s_gen = 0x80000000\<rparr>],
     slot_cap = 16, free_head = 0\<rparr>"

lemma wf_worn_table: "wf_table worn_table"
  unfolding wf_table_def worn_table_def INT32_MAX_def by (auto intro!: exI [of _ "[0]"])

theorem exhausted_generation_unusable_witness:
  "slot_get (snd (slot_new True (JPtr TagObject 7) worn_table)) (fst (slot_new True (JPtr TagObject 7) worn_table)) = None"
proof -
  have "bit (0x80000000 :: 32 word) 31" by code_simp
  then show ?thesis
    using exhausted_generation_unusable [OF wf_worn_table, of 0 True "JPtr TagObject 7"
        "fst (slot_new True (JPtr TagObject 7) worn_table)" "snd (slot_new True (JPtr TagObject 7) worn_table)"]
    by (simp add: worn_table_def)
qed

end
