(* ===== verification/Buffers.thy ===== *)
theory Buffers
  imports Prelude
begin

text \<open>
  The growing buffers (\<open>kmp_buf\<close>) the shim hands its string payloads out in.

  A payload published from a buffer is a pointer into the buffer's data block, so what a caller reads
  depends on what happens to that block later. The model keeps the blocks explicit: \<open>cmem\<close> maps buffer
  addresses to \<open>kmp_buf\<close> structs and block addresses to their bytes. The five buffers of the engine
  struct have the fixed addresses 0 to 4; the buffers a host call allocates for its arguments get fresh
  addresses.
\<close>

section \<open>Buffers and blocks\<close>

record kmp_buf =
  b_data :: "nat option"
  b_len :: int
  b_cap :: int

record cmem =
  bufs :: "nat \<Rightarrow> kmp_buf"
  next_buf :: nat
  blocks :: "nat \<Rightarrow> bytes option"
  next_block :: nat

definition empty_buf :: kmp_buf where
  "empty_buf = \<lparr>b_data = None, b_len = 0, b_cap = 0\<rparr>"

definition OUT_STR :: nat where [simp]: "OUT_STR = 0"
definition OUT_STACK :: nat where [simp]: "OUT_STACK = 1"
definition REJ_STR :: nat where [simp]: "REJ_STR = 2"
definition REJ_STACK :: nat where [simp]: "REJ_STACK = 3"
definition LOG_LINE :: nat where [simp]: "LOG_LINE = 4"

text \<open>Memory right after \<open>calloc\<close> of the engine struct.\<close>

definition init_mem :: cmem where
  "init_mem = \<lparr>bufs = (\<lambda>_. empty_buf), next_buf = 5, blocks = (\<lambda>_. None), next_block = 0\<rparr>"

text \<open>The conversion \<open>(int32_t)x\<close>.\<close>

definition to_int32 :: "int \<Rightarrow> int" where
  "to_int32 x = sint (word_of_int x :: 32 word)"

section \<open>Operations\<close>

definition set_buf :: "nat \<Rightarrow> kmp_buf \<Rightarrow> cmem \<Rightarrow> cmem" where
  "set_buf i b m = m\<lparr>bufs := (bufs m)(i := b)\<rparr>"

definition buf_reset :: "nat \<Rightarrow> cmem \<Rightarrow> cmem" where
  "buf_reset i m = set_buf i ((bufs m i)\<lparr>b_len := 0\<rparr>) m"

text \<open>\<open>while (cap - b->len < n) cap *= 2;\<close>\<close>

function buf_grow :: "nat \<Rightarrow> nat \<Rightarrow> nat \<Rightarrow> nat" where
  "buf_grow cap len n = (if 0 < cap \<and> cap - len < n then buf_grow (cap * 2) len n else cap)"
  by pat_completeness auto
termination
  by (relation "measure (\<lambda>(cap, len, n). len + n - cap)") auto

declare buf_grow.simps [simp del]

text \<open>\<open>realloc\<close> of a data block: the bytes move to a new block and the old one is gone.\<close>

definition block_realloc :: "nat option \<Rightarrow> cmem \<Rightarrow> nat \<times> cmem" where
  "block_realloc old m =
     (let k = next_block m;
          content = (case old of None \<Rightarrow> [] | Some j \<Rightarrow> (case blocks m j of None \<Rightarrow> [] | Some c \<Rightarrow> c));
          bs = (case old of None \<Rightarrow> blocks m | Some j \<Rightarrow> (blocks m)(j := None)) in
      (k, m\<lparr>blocks := bs(k \<mapsto> content), next_block := k + 1\<rparr>))"

text \<open>\<open>memcpy(data + len, p, n)\<close>: what lies behind the copied range keeps its old bytes.\<close>

definition overwrite :: "nat \<Rightarrow> bytes \<Rightarrow> bytes \<Rightarrow> bytes" where
  "overwrite len p c = take len c @ p @ drop (len + length p) c"


text \<open>\<open>buf_append\<close>; \<open>ok\<close> is whether \<open>realloc\<close> succeeds, if it is called.\<close>

definition buf_needs_grow :: "nat \<Rightarrow> nat \<Rightarrow> cmem \<Rightarrow> bool" where
  "buf_needs_grow i n m = (nat (b_cap (bufs m i)) - nat (b_len (bufs m i)) < n)"

text \<open>The growth step of \<open>buf_append\<close>, and its copy step.\<close>

definition buf_reserve :: "nat \<Rightarrow> nat \<Rightarrow> cmem \<Rightarrow> cmem" where
  "buf_reserve i n m =
     (let b = bufs m i;
          cap = buf_grow (if b_cap b \<noteq> 0 then nat (b_cap b) else 64) (nat (b_len b)) n;
          (k, m') = block_realloc (b_data b) m in
      set_buf i (b\<lparr>b_data := Some k, b_cap := to_int32 (int cap)\<rparr>) m')"

definition buf_copy :: "nat \<Rightarrow> bytes \<Rightarrow> cmem \<Rightarrow> cmem" where
  "buf_copy i p m =
     (let b = bufs m i;
          bs = (case b_data b of None \<Rightarrow> blocks m
                | Some k \<Rightarrow> (blocks m)(k := map_option (overwrite (nat (b_len b)) p) (blocks m k))) in
      set_buf i (b\<lparr>b_len := b_len b + to_int32 (int (length p))\<rparr>) (m\<lparr>blocks := bs\<rparr>))"

definition buf_append :: "bool \<Rightarrow> nat \<Rightarrow> bytes \<Rightarrow> cmem \<Rightarrow> int \<times> cmem" where
  "buf_append ok i p m =
     (if buf_needs_grow i (length p) m then
        (if ok then (0, buf_copy i p (buf_reserve i (length p) m)) else (-1, m))
      else (0, buf_copy i p m))"

definition buf_free :: "nat \<Rightarrow> cmem \<Rightarrow> cmem" where
  "buf_free i m =
     (let m1 = (case b_data (bufs m i) of None \<Rightarrow> m | Some k \<Rightarrow> m\<lparr>blocks := (blocks m)(k := None)\<rparr>) in
      set_buf i empty_buf m1)"

definition publish :: "nat \<Rightarrow> cmem \<Rightarrow> cptr \<times> int" where
  "publish i m =
     ((case b_data (bufs m i) of None \<Rightarrow> PStr '''' | Some k \<Rightarrow> PBlk k), b_len (bufs m i))"

text \<open>What a caller reads through a pointer: \<open>None\<close> for null, for a freed block and for a read past
  the bytes the block holds.\<close>

definition cread :: "cmem \<Rightarrow> cptr \<Rightarrow> int \<Rightarrow> bytes option" where
  "cread m p len =
     (case p of
        PNull \<Rightarrow> None
      | PStr s \<Rightarrow> if nat len \<le> length s then Some (take (nat len) s) else None
      | PBlk k \<Rightarrow> (case blocks m k of None \<Rightarrow> None
                   | Some c \<Rightarrow> if nat len \<le> length c then Some (take (nat len) c) else None))"

text \<open>The bytes a buffer currently holds.\<close>

definition buf_bytes :: "cmem \<Rightarrow> nat \<Rightarrow> bytes" where
  "buf_bytes m i =
     (case b_data (bufs m i) of None \<Rightarrow> []
      | Some k \<Rightarrow> (case blocks m k of None \<Rightarrow> [] | Some c \<Rightarrow> take (nat (b_len (bufs m i))) c))"

text \<open>Fresh buffers for the arguments of one host call (\<open>calloc\<close>): the first address.\<close>

definition alloc_bufs :: "nat \<Rightarrow> cmem \<Rightarrow> nat \<times> cmem" where
  "alloc_bufs n m = (next_buf m, m\<lparr>next_buf := next_buf m + n\<rparr>)"

section \<open>Well-formed memory\<close>

text \<open>Every buffer points to a block of its own that exists; addresses not handed out are unused.\<close>

definition wf_mem :: "cmem \<Rightarrow> bool" where
  "wf_mem m =
     ((\<forall>i k. b_data (bufs m i) = Some k \<longrightarrow> k < next_block m \<and> blocks m k \<noteq> None) \<and>
      (\<forall>i j k. b_data (bufs m i) = Some k \<longrightarrow> b_data (bufs m j) = Some k \<longrightarrow> i = j) \<and>
      (\<forall>i. next_buf m \<le> i \<longrightarrow> bufs m i = empty_buf) \<and> 5 \<le> next_buf m)"

text \<open>A block is owned when some buffer points to it. Blocks that no buffer owns (a payload a caller
  has set aside) are left alone by every buffer operation.\<close>

definition owned :: "cmem \<Rightarrow> nat \<Rightarrow> bool" where
  "owned m k = (\<exists>i. b_data (bufs m i) = Some k)"

definition keeps_loose :: "cmem \<Rightarrow> cmem \<Rightarrow> bool" where
  "keeps_loose m m' =
     (next_block m \<le> next_block m' \<and> next_buf m \<le> next_buf m' \<and>
      (\<forall>k. k < next_block m \<and> \<not> owned m k \<longrightarrow> blocks m' k = blocks m k \<and> \<not> owned m' k))"

text \<open>A buffer whose length is within its block, as every buffer is while its contents stay below
  two gigabytes.\<close>

definition sized :: "cmem \<Rightarrow> nat \<Rightarrow> bool" where
  "sized m i =
     (0 \<le> b_len (bufs m i) \<and>
      (case b_data (bufs m i) of None \<Rightarrow> b_len (bufs m i) = 0 \<and> b_cap (bufs m i) = 0
       | Some k \<Rightarrow> (case blocks m k of None \<Rightarrow> False | Some c \<Rightarrow> nat (b_len (bufs m i)) \<le> length c)))"

lemma wf_mem_init: "wf_mem init_mem"
  by (simp add: wf_mem_def init_mem_def empty_buf_def)

lemma keeps_loose_refl [simp, intro!]: "keeps_loose m m"
  by (simp add: keeps_loose_def)

lemma keeps_loose_trans: "keeps_loose m1 m2 \<Longrightarrow> keeps_loose m2 m3 \<Longrightarrow> keeps_loose m1 m3"
  unfolding keeps_loose_def by (metis order_trans less_le_trans)

lemma wf_memD:
  assumes "wf_mem m"
  shows "b_data (bufs m i) = Some k \<Longrightarrow> k < next_block m"
    "b_data (bufs m i) = Some k \<Longrightarrow> blocks m k \<noteq> None"
    "b_data (bufs m i) = Some k \<Longrightarrow> b_data (bufs m j) = Some k \<Longrightarrow> i = j"
    "next_buf m \<le> i \<Longrightarrow> bufs m i = empty_buf" "5 \<le> next_buf m"
  using assms unfolding wf_mem_def by auto

subsection \<open>Every operation keeps memory well-formed\<close>

lemma wf_buf_reset: "wf_mem m \<Longrightarrow> i < next_buf m \<Longrightarrow> wf_mem (buf_reset i m)"
  unfolding wf_mem_def buf_reset_def set_buf_def by (auto split: if_splits)

lemma loose_buf_reset: "keeps_loose m (buf_reset i m)"
  by (auto simp: keeps_loose_def buf_reset_def set_buf_def owned_def split: if_splits)

lemma wf_buf_free: "wf_mem m \<Longrightarrow> wf_mem (buf_free i m)"
  unfolding wf_mem_def buf_free_def set_buf_def empty_buf_def
  by (auto simp: Let_def split: option.splits if_splits)

lemma loose_buf_free: "keeps_loose m (buf_free i m)"
  by (auto simp: keeps_loose_def buf_free_def set_buf_def owned_def empty_buf_def split: option.splits if_splits)

lemma wf_set_empty: "wf_mem m \<Longrightarrow> wf_mem (set_buf i empty_buf m)"
  unfolding wf_mem_def set_buf_def by (auto simp: empty_buf_def)

lemma loose_set_empty: "keeps_loose m (set_buf i empty_buf m)"
  by (auto simp: keeps_loose_def set_buf_def owned_def empty_buf_def split: if_splits)

lemma wf_alloc_bufs: "wf_mem m \<Longrightarrow> wf_mem (snd (alloc_bufs n m))"
  by (auto simp: wf_mem_def alloc_bufs_def)

lemma loose_alloc_bufs: "keeps_loose m (snd (alloc_bufs n m))"
  by (auto simp: keeps_loose_def alloc_bufs_def owned_def)

text \<open>Growing and copying change buffer \<open>i\<close> only, and of the blocks only those it owned or now owns.\<close>

definition touches_only :: "nat \<Rightarrow> cmem \<Rightarrow> cmem \<Rightarrow> bool" where
  "touches_only i m m' =
     ((\<forall>j. j \<noteq> i \<longrightarrow> bufs m' j = bufs m j) \<and> next_buf m' = next_buf m \<and> next_block m \<le> next_block m' \<and>
      (b_data (bufs m' i) = b_data (bufs m i) \<or>
       (\<exists>k. next_block m \<le> k \<and> b_data (bufs m' i) = Some k)) \<and>
      (\<forall>k. b_data (bufs m' i) = Some k \<longrightarrow> k < next_block m' \<and> blocks m' k \<noteq> None) \<and>
      (\<forall>k. b_data (bufs m i) \<noteq> Some k \<longrightarrow> k < next_block m \<longrightarrow> blocks m' k = blocks m k))"

lemma reserve_touches: "touches_only i m (buf_reserve i n m)"
  by (auto simp: touches_only_def buf_reserve_def block_realloc_def set_buf_def Let_def split: option.splits)

lemma copy_touches:
  assumes "\<And>k. b_data (bufs m i) = Some k \<Longrightarrow> k < next_block m \<and> blocks m k \<noteq> None"
  shows "touches_only i m (buf_copy i p m)"
  using assms by (auto simp: touches_only_def buf_copy_def set_buf_def Let_def split: option.splits)

lemma touches_onlyD:
  assumes "touches_only i m m'"
  shows "j \<noteq> i \<Longrightarrow> bufs m' j = bufs m j" "next_buf m' = next_buf m" "next_block m \<le> next_block m'"
    "b_data (bufs m' i) = b_data (bufs m i) \<or> (\<exists>k. next_block m \<le> k \<and> b_data (bufs m' i) = Some k)"
    "b_data (bufs m' i) = Some k \<Longrightarrow> k < next_block m' \<and> blocks m' k \<noteq> None"
    "b_data (bufs m i) \<noteq> Some k \<Longrightarrow> k < next_block m \<Longrightarrow> blocks m' k = blocks m k"
  using assms unfolding touches_only_def by auto

lemma touches_only_trans:
  assumes "touches_only i m1 m2" "touches_only i m2 m3" shows "touches_only i m1 m3"
proof -
  note a = touches_onlyD [OF assms(1)] and b = touches_onlyD [OF assms(2)]
  have "b_data (bufs m3 i) = b_data (bufs m1 i) \<or> (\<exists>k. next_block m1 \<le> k \<and> b_data (bufs m3 i) = Some k)"
    using a(3,4) b(4) by fastforce
  moreover have "blocks m3 k = blocks m1 k" if k: "b_data (bufs m1 i) \<noteq> Some k" "k < next_block m1" for k
  proof -
    have "b_data (bufs m2 i) \<noteq> Some k" using a(4) k by auto
    with a(3,6) b(6) k show ?thesis by auto
  qed
  ultimately show ?thesis
    using a(1,2,3) b(1,2,3,5) unfolding touches_only_def by auto
qed

lemma append_touches:
  assumes wf: "wf_mem m" and ap: "buf_append ok i p m = (rc, m')"
  shows "touches_only i m m'"
proof -
  have "touches_only i m (buf_copy i p m)"
    using wf_memD(1,2) [OF wf] by (intro copy_touches) blast
  moreover have "touches_only i m m"
    using wf_memD(1,2) [OF wf] by (auto simp: touches_only_def)
  moreover have "touches_only i m (buf_copy i p (buf_reserve i (length p) m))"
    by (rule touches_only_trans [OF reserve_touches copy_touches])
       (use reserve_touches in \<open>auto simp: touches_only_def\<close>)
  ultimately show ?thesis using ap by (auto simp: buf_append_def split: if_splits)
qed

lemma wf_buf_append:
  assumes wf: "wf_mem m" and i: "i < next_buf m" and ap: "buf_append ok i p m = (rc, m')"
  shows "wf_mem m'"
proof -
  note fr = touches_onlyD [OF append_touches [OF wf ap]]
  have data: "b_data (bufs m' j) = b_data (bufs m j) \<or> (j = i \<and> (\<exists>k. next_block m \<le> k \<and> b_data (bufs m' j) = Some k))" for j
    using fr(1) [of j] fr(4) by (cases "j = i") auto
  have "k < next_block m' \<and> blocks m' k \<noteq> None" if "b_data (bufs m' j) = Some k" for j k
  proof (cases "j = i")
    case True
    then show ?thesis using fr(5) that by simp
  next
    case False
    with that fr(1) have j: "b_data (bufs m j) = Some k" by simp
    then have "b_data (bufs m i) \<noteq> Some k" using wf_memD(3) [OF wf j, of i] False by auto
    with wf_memD(1,2) [OF wf j] fr(3) fr(6) [of k] show ?thesis by auto
  qed
  moreover have "j = j'" if "b_data (bufs m' j) = Some k" "b_data (bufs m' j') = Some k" for j j' k
  proof (cases "k < next_block m")
    case True
    then have "b_data (bufs m j) = Some k" "b_data (bufs m j') = Some k"
      using data [of j] data [of j'] that by auto
    then show ?thesis by (rule wf_memD(3) [OF wf])
  next
    case False
    then have "b_data (bufs m j) \<noteq> Some k" "b_data (bufs m j') \<noteq> Some k"
      using wf_memD(1) [OF wf, of j k] wf_memD(1) [OF wf, of j' k] by auto
    then have "j = i" "j' = i" using data [of j] data [of j'] that by auto
    then show ?thesis by simp
  qed
  moreover have "bufs m' j = empty_buf" if "next_buf m' \<le> j" for j
    using that fr(1) [of j] fr(2) i wf_memD(4) [OF wf, of j] by auto
  ultimately show ?thesis using fr(2) wf_memD(5) [OF wf] unfolding wf_mem_def by simp
qed

lemma loose_buf_append:
  assumes wf: "wf_mem m" and ap: "buf_append ok i p m = (rc, m')"
  shows "keeps_loose m m'"
proof -
  note fr = touches_onlyD [OF append_touches [OF wf ap]]
  have "blocks m' k = blocks m k \<and> \<not> owned m' k" if "k < next_block m" "\<not> owned m k" for k
    using that fr(1,4,6) unfolding owned_def by (metis leD option.inject)
  with fr(2,3) show ?thesis by (auto simp: keeps_loose_def)
qed

text \<open>Setting a buffer aside, letting others run, and restoring it.\<close>

lemma wf_restore_buf:
  assumes wf: "wf_mem m" and loose: "keeps_loose (set_buf i empty_buf m) m2" and wf2: "wf_mem m2"
    and i: "i < next_buf m"
  shows "wf_mem (set_buf i (bufs m i) (buf_free i m2))"
    "b_data (bufs m i) = Some k \<Longrightarrow> blocks (set_buf i (bufs m i) (buf_free i m2)) k = blocks m k"
proof -
  let ?m3 = "buf_free i m2" and ?keep = "bufs m i"
  note wf3 = wf_buf_free [OF wf2, of i]
  have loose3: "keeps_loose (set_buf i empty_buf m) ?m3"
    using loose loose_buf_free keeps_loose_trans by blast
  have keep: "blocks ?m3 k = blocks m k \<and> \<not> owned ?m3 k \<and> k < next_block ?m3" if "b_data ?keep = Some k" for k
  proof -
    have "\<not> owned (set_buf i empty_buf m) k"
      using that wf_memD(3) [OF wf] by (auto simp: owned_def set_buf_def empty_buf_def split: if_splits)
    then show ?thesis
      using loose3 wf_memD(1) [OF wf that] by (auto simp: keeps_loose_def set_buf_def)
  qed
  have "i < next_buf ?m3" using loose3 i by (auto simp: keeps_loose_def set_buf_def)
  then show "wf_mem (set_buf i ?keep ?m3)"
    using wf3 keep wf_memD(2) [OF wf] unfolding wf_mem_def owned_def set_buf_def by auto
  show "b_data ?keep = Some k \<Longrightarrow> blocks (set_buf i ?keep ?m3) k = blocks m k"
    using keep by (simp add: set_buf_def)
qed

lemma loose_restore_buf:
  assumes wf: "wf_mem m" and loose: "keeps_loose (set_buf i empty_buf m) m2"
  shows "keeps_loose m (set_buf i (bufs m i) (buf_free i m2))"
proof -
  have loose3: "keeps_loose (set_buf i empty_buf m) (buf_free i m2)"
    using loose loose_buf_free keeps_loose_trans by blast
  have "\<not> owned (set_buf i empty_buf m) k" if "\<not> owned m k" for k
    using that by (auto simp: owned_def set_buf_def empty_buf_def)
  with loose3 show ?thesis
    unfolding keeps_loose_def by (auto simp: set_buf_def owned_def split: if_splits)
qed

section \<open>What a buffer holds\<close>

lemma to_int32_small: "n < 2 ^ 31 \<Longrightarrow> to_int32 (int n) = int n"
  unfolding to_int32_def int_word_sint by simp

text \<open>The growth loop ends with room for the new bytes.\<close>

lemma buf_grow_room: "0 < cap \<Longrightarrow> n \<le> buf_grow cap len n - len \<and> cap \<le> buf_grow cap len n"
proof (induction cap len n rule: buf_grow.induct)
  case (1 cap len n)
  then show ?case
    by (cases "cap - len < n") (auto simp: buf_grow.simps [of cap len n] intro: order_trans)
qed

lemma overwrite_take: "len \<le> length c \<Longrightarrow> take (len + length p) (overwrite len p c) = take len c @ p"
  by (simp add: overwrite_def)

lemma overwrite_length: "len \<le> length c \<Longrightarrow> len + length p \<le> length (overwrite len p c)"
  by (simp add: overwrite_def)

lemma reserve_keeps:
  assumes "sized m i"
  shows "sized (buf_reserve i n m) i" "buf_bytes (buf_reserve i n m) i = buf_bytes m i"
    "b_len (bufs (buf_reserve i n m) i) = b_len (bufs m i)" "b_data (bufs (buf_reserve i n m) i) \<noteq> None"
  using assms
  by (auto simp: sized_def buf_bytes_def buf_reserve_def block_realloc_def set_buf_def Let_def split: option.splits)

lemma copy_appends:
  assumes "sized m i" "b_data (bufs m i) \<noteq> None \<or> p = []" "nat (b_len (bufs m i)) + length p < 2 ^ 31"
  shows "sized (buf_copy i p m) i" "buf_bytes (buf_copy i p m) i = buf_bytes m i @ p"
    "b_len (bufs (buf_copy i p m) i) = b_len (bufs m i) + int (length p)"
  using assms to_int32_small [of "length p"]
  by (auto simp: sized_def buf_bytes_def buf_copy_def set_buf_def Let_def overwrite_take overwrite_length
      nat_add_distrib split: option.splits)

lemma buf_append_bytes:
  assumes sz: "sized m i" and n: "nat (b_len (bufs m i)) + length p < 2 ^ 31"
    and ap: "buf_append ok i p m = (0, m')"
  shows "sized m' i \<and> buf_bytes m' i = buf_bytes m i @ p \<and> b_len (bufs m' i) = b_len (bufs m i) + int (length p)"
proof (cases "buf_needs_grow i (length p) m")
  case True
  with ap have m': "m' = buf_copy i p (buf_reserve i (length p) m)"
    by (auto simp: buf_append_def split: if_splits)
  show ?thesis
    using copy_appends [of "buf_reserve i (length p) m" i p] reserve_keeps [OF sz, of "length p"] n m' by simp
next
  case False
  then have "b_data (bufs m i) \<noteq> None \<or> p = []"
    using sz by (auto simp: buf_needs_grow_def sized_def split: option.splits)
  with False ap copy_appends [OF sz _ n] show ?thesis by (auto simp: buf_append_def)
qed

lemma buf_append_fail: "buf_append ok i p m = (rc, m') \<Longrightarrow> rc \<noteq> 0 \<Longrightarrow> rc = -1 \<and> m' = m \<and> \<not> ok"
  by (auto simp: buf_append_def split: if_splits)

lemma sized_length: "sized m i \<Longrightarrow> length (buf_bytes m i) = nat (b_len (bufs m i))"
  by (auto simp: sized_def buf_bytes_def split: option.splits)

lemma sized_reset: "sized m i \<Longrightarrow> sized (buf_reset i m) i \<and> buf_bytes (buf_reset i m) i = []"
  by (auto simp: sized_def buf_reset_def set_buf_def buf_bytes_def split: option.splits)

lemma sized_init: "sized init_mem i"
  by (simp add: sized_def init_mem_def empty_buf_def)

text \<open>A caller that reads a published payload at once reads exactly what the buffer holds.\<close>

lemma publish_read: "sized m i \<Longrightarrow> cread m (fst (publish i m)) (snd (publish i m)) = Some (buf_bytes m i)"
  by (auto simp: sized_def publish_def cread_def buf_bytes_def split: option.splits)

text \<open>The contract the printing and reporting code relies on: a sink that is reset and then fed pieces
  holds their concatenation.\<close>

fun append_all :: "(bytes \<Rightarrow> 's \<Rightarrow> int \<times> 's) \<Rightarrow> bytes list \<Rightarrow> 's \<Rightarrow> int \<times> 's" where
  "append_all ap [] s = (0, s)"
| "append_all ap (p # ps) s = (let (rc, s') = ap p s in if rc = 0 then append_all ap ps s' else (rc, s'))"

locale byte_sink =
  fixes good :: "'s \<Rightarrow> bool" and contents :: "'s \<Rightarrow> bytes"
    and reset :: "'s \<Rightarrow> 's" and append :: "bytes \<Rightarrow> 's \<Rightarrow> int \<times> 's"
  assumes good_reset: "good s \<Longrightarrow> good (reset s)"
    and contents_reset: "good s \<Longrightarrow> contents (reset s) = []"
    and append_ok: "\<lbrakk>good s; length (contents s) + length p < 2 ^ 31; append p s = (0, s')\<rbrakk> \<Longrightarrow>
      good s' \<and> contents s' = contents s @ p"
begin

lemma append_all_contents:
  assumes "good s" "length (contents s) + length (concat ps) < 2 ^ 31" "append_all append ps s = (0, s')"
  shows "good s' \<and> contents s' = contents s @ concat ps"
  using assms
proof (induction ps arbitrary: s)
  case (Cons p ps)
  obtain rc s1 where ap: "append p s = (rc, s1)" by fastforce
  with Cons.prems(3) have rc: "rc = 0" by (auto split: if_splits)
  from append_ok [OF Cons.prems(1) _ ap [unfolded rc]] Cons.prems(2)
  have "good s1" "contents s1 = contents s @ p" by auto
  with Cons.IH [of s1] Cons.prems(2,3) ap rc show ?case by simp
qed simp

lemma reset_append_all:
  assumes "good s" "length (concat ps) < 2 ^ 31" "append_all append ps (reset s) = (0, s')"
  shows "good s' \<and> contents s' = concat ps"
  using append_all_contents [OF good_reset [OF assms(1)] _ assms(3)] assms(1,2)
  by (simp add: contents_reset)

end

interpretation sink: byte_sink "\<lambda>m. sized m i" "\<lambda>m. buf_bytes m i" "buf_reset i" "buf_append ok i"
proof
  fix s s' p
  assume "sized s i" "length (buf_bytes s i) + length p < 2 ^ 31" "buf_append ok i p s = (0, s')"
  then show "sized s' i \<and> buf_bytes s' i = buf_bytes s i @ p"
    using buf_append_bytes [of s i p ok s'] by (simp add: sized_length)
qed (simp_all add: sized_reset)

section \<open>Properties\<close>



text \<open>Appending to one buffer never touches what any other buffer holds, nor a block that has been
  set aside: with several results alive at once each keeps its bytes.\<close>

theorem append_is_local:
  assumes wf: "wf_mem m" and i: "i < next_buf m" and ap: "buf_append ok i p m = (rc, m')"
  shows "wf_mem m' \<and> (\<forall>j. j \<noteq> i \<longrightarrow> buf_bytes m' j = buf_bytes m j) \<and>
    (\<forall>k < next_block m. \<not> owned m k \<longrightarrow> blocks m' k = blocks m k)"
proof -
  note fr = touches_onlyD [OF append_touches [OF wf ap]]
  have "buf_bytes m' j = buf_bytes m j" if j: "j \<noteq> i" for j
  proof (cases "b_data (bufs m j)")
    case (Some k)
    then have "k < next_block m" "b_data (bufs m i) \<noteq> Some k" using wf_memD(1,3) [OF wf] j by auto
    with fr(6) Some show ?thesis unfolding buf_bytes_def fr(1) [OF j] by simp
  qed (simp add: buf_bytes_def fr(1) [OF j])
  moreover have "keeps_loose m m'" by (rule loose_buf_append [OF wf ap])
  ultimately show ?thesis using wf_buf_append [OF wf i ap] by (auto simp: keeps_loose_def)
qed

theorem append_is_local_witness:
  "wf_mem (snd (buf_append True 0 ''abc'' init_mem)) \<and>
   buf_bytes (snd (buf_append True 0 ''abc'' init_mem)) 2 = buf_bytes init_mem 2"
proof -
  have "buf_append True 0 ''abc'' init_mem = (fst (buf_append True 0 ''abc'' init_mem), snd (buf_append True 0 ''abc'' init_mem))"
    by simp
  from append_is_local [OF wf_mem_init _ this] show ?thesis by (simp add: init_mem_def)
qed

end
