(* ===== verification/Allocator.thy ===== *)
theory Allocator
  imports Prelude
begin

text \<open>
  The allocator the shim gives the engine: the C library's, with QuickJS's own accounting and limit, and
  a flag that records a refused allocation.

  The C library is a parameter. A call that reaches it comes with its answer: \<open>None\<close> when it fails, or
  the usable size of the block it returns. Live blocks are kept in a map from pointers to their usable
  size, which is what \<open>malloc_usable_size\<close> reads. \<open>size_t\<close> is 64 bits wide; its arithmetic wraps.
\<close>

section \<open>State\<close>

type_synonym size_t = "64 word"

record JSMallocState =
  malloc_count :: size_t
  malloc_size :: size_t
  malloc_limit :: size_t

record kmp_heap =
  mstate :: JSMallocState
  live :: "nat \<Rightarrow> size_t option"
  fresh :: nat

text \<open>Pointer 0 is \<open>NULL\<close>, so fresh pointers start at 1.\<close>

definition init_heap :: "size_t \<Rightarrow> kmp_heap" where
  "init_heap limit = \<lparr>mstate = \<lparr>malloc_count = 0, malloc_size = 0, malloc_limit = limit\<rparr>,
     live = (\<lambda>_. None), fresh = 1\<rparr>"

definition kmp_malloc_usable_size :: "kmp_heap \<Rightarrow> nat \<Rightarrow> size_t" where
  "kmp_malloc_usable_size h ptr = (case live h ptr of None \<Rightarrow> 0 | Some u \<Rightarrow> u)"

section \<open>Operations\<close>

text \<open>
  Each operation returns the pointer, whether it set the engine's \<open>oom\<close> flag, and the new heap. \<open>ovh\<close>
  is \<open>KMP_MALLOC_OVERHEAD\<close>: 0 on Apple platforms, 8 elsewhere.
\<close>

definition kmp_malloc :: "size_t \<Rightarrow> size_t option \<Rightarrow> size_t \<Rightarrow> kmp_heap \<Rightarrow> nat \<times> bool \<times> kmp_heap" where
  "kmp_malloc ovh libc sz h =
     (let s = mstate h in
      if malloc_size s + sz > malloc_limit s then (0, True, h)
      else (case libc of
              None \<Rightarrow> (0, False, h)
            | Some usable \<Rightarrow>
                (fresh h, False,
                 h\<lparr>mstate := s\<lparr>malloc_count := malloc_count s + 1,
                              malloc_size := malloc_size s + (usable + ovh)\<rparr>,
                   live := (live h)(fresh h \<mapsto> usable), fresh := fresh h + 1\<rparr>)))"

definition kmp_free :: "size_t \<Rightarrow> nat \<Rightarrow> kmp_heap \<Rightarrow> kmp_heap" where
  "kmp_free ovh ptr h =
     (if ptr = 0 then h
      else let s = mstate h in
        h\<lparr>mstate := s\<lparr>malloc_count := malloc_count s - 1,
                     malloc_size := malloc_size s - (kmp_malloc_usable_size h ptr + ovh)\<rparr>,
          live := (live h)(ptr := None)\<rparr>)"

definition kmp_realloc ::
  "size_t \<Rightarrow> size_t option \<Rightarrow> nat \<Rightarrow> size_t \<Rightarrow> kmp_heap \<Rightarrow> nat \<times> bool \<times> kmp_heap" where
  "kmp_realloc ovh libc ptr sz h =
     (if ptr = 0 then (if sz = 0 then (0, False, h) else kmp_malloc ovh libc sz h)
      else
        let s = mstate h; old_size = kmp_malloc_usable_size h ptr in
        if sz = 0 then
          (0, False, h\<lparr>mstate := s\<lparr>malloc_count := malloc_count s - 1,
                                  malloc_size := malloc_size s - (old_size + ovh)\<rparr>,
                       live := (live h)(ptr := None)\<rparr>)
        else if malloc_size s + sz - old_size > malloc_limit s then (0, True, h)
        else (case libc of
                None \<Rightarrow> (0, False, h)
              | Some usable \<Rightarrow>
                  (fresh h, False,
                   h\<lparr>mstate := s\<lparr>malloc_size := malloc_size s + (usable - old_size)\<rparr>,
                     live := (live h)(ptr := None, fresh h \<mapsto> usable), fresh := fresh h + 1\<rparr>)))"

section \<open>The accounting is exact\<close>

definition block_cost :: "size_t \<Rightarrow> kmp_heap \<Rightarrow> nat \<Rightarrow> size_t" where
  "block_cost ovh h p = (case live h p of None \<Rightarrow> 0 | Some u \<Rightarrow> u + ovh)"

text \<open>The counters are the number and the total cost of the live blocks (modulo \<open>2^64\<close>, as \<open>size_t\<close> is).\<close>

definition accounted :: "size_t \<Rightarrow> kmp_heap \<Rightarrow> bool" where
  "accounted ovh h =
     (0 < fresh h \<and> (\<forall>p. live h p \<noteq> None \<longrightarrow> 0 < p \<and> p < fresh h) \<and>
      malloc_size (mstate h) = (\<Sum>p<fresh h. block_cost ovh h p) \<and>
      malloc_count (mstate h) = of_nat (card {p. live h p \<noteq> None}))"

lemma accounted_finite: "accounted ovh h \<Longrightarrow> finite {p. live h p \<noteq> None}"
  by (rule finite_subset [of _ "{..<fresh h}"]) (auto simp: accounted_def)

lemma accounted_fresh: "accounted ovh h \<Longrightarrow> live h (fresh h) = None"
  unfolding accounted_def by (metis less_irrefl option.exhaust)

lemma accounted_init: "accounted ovh (init_heap limit)"
  by (simp add: accounted_def init_heap_def block_cost_def)

lemma sum_fun_upd_word:
  fixes f :: "nat \<Rightarrow> size_t"
  assumes "p < n"
  shows "(\<Sum>q<n. (f(p := x)) q) = (\<Sum>q<n. f q) - f p + x"
proof -
  have "(\<Sum>q<n. (f(p := x)) q) = x + (\<Sum>q\<in>{..<n} - {p}. f q)"
    using assms by (subst sum.remove [of _ p]) (auto intro: sum.cong)
  moreover have "(\<Sum>q<n. f q) = f p + (\<Sum>q\<in>{..<n} - {p}. f q)"
    using assms by (subst sum.remove [of _ p]) auto
  ultimately show ?thesis by simp
qed

text \<open>Allocating one more block, and giving one back.\<close>

lemma accounted_alloc:
  assumes acc: "accounted ovh h"
    and h': "live h' = (live h)(fresh h \<mapsto> u)" "fresh h' = Suc (fresh h)"
      "malloc_size (mstate h') = malloc_size (mstate h) + (u + ovh)"
      "malloc_count (mstate h') = malloc_count (mstate h) + 1"
  shows "accounted ovh h'"
proof -
  note fresh = accounted_fresh [OF acc]
  have "{p. live h' p \<noteq> None} = insert (fresh h) {p. live h p \<noteq> None}"
    using h'(1) by auto
  then have "card {p. live h' p \<noteq> None} = Suc (card {p. live h p \<noteq> None})"
    using fresh accounted_finite [OF acc] by simp
  moreover have "(\<Sum>p<fresh h. block_cost ovh h' p) = (\<Sum>p<fresh h. block_cost ovh h p)"
    using h'(1) by (intro sum.cong) (auto simp: block_cost_def)
  ultimately show ?thesis
    using acc h' unfolding accounted_def by (auto simp: block_cost_def less_Suc_eq split: if_splits)
qed

lemma accounted_dealloc:
  assumes acc: "accounted ovh h" and p: "live h p = Some u"
    and h': "live h' = (live h)(p := None)" "fresh h' = fresh h"
      "malloc_size (mstate h') = malloc_size (mstate h) - (u + ovh)"
      "malloc_count (mstate h') = malloc_count (mstate h) - 1"
  shows "accounted ovh h'"
proof -
  have p_lt: "p < fresh h" using acc p by (auto simp: accounted_def)
  have "{q. live h' q \<noteq> None} = {q. live h q \<noteq> None} - {p}" using h'(1) by auto
  then have "card {q. live h q \<noteq> None} = Suc (card {q. live h' q \<noteq> None})"
    using p accounted_finite [OF acc] by (metis (mono_tags) card_Suc_Diff1 mem_Collect_eq option.distinct(1))
  moreover have "(\<Sum>q<fresh h. block_cost ovh h' q) = (\<Sum>q<fresh h. block_cost ovh h q) - (u + ovh)"
  proof -
    have "block_cost ovh h' = (block_cost ovh h)(p := 0)"
      using h'(1) by (auto simp: block_cost_def fun_eq_iff)
    with sum_fun_upd_word [OF p_lt, of "block_cost ovh h" 0] p show ?thesis
      by (simp add: block_cost_def)
  qed
  ultimately show ?thesis
    using acc h' unfolding accounted_def by (auto split: if_splits)
qed

lemma malloc_accounted:
  assumes "accounted ovh h" "kmp_malloc ovh libc sz h = (p, oom, h')"
  shows "accounted ovh h'"
  using assms accounted_alloc [OF assms(1)]
  by (auto simp: kmp_malloc_def Let_def split: if_splits option.splits)

lemma free_accounted:
  assumes "accounted ovh h" "ptr = 0 \<or> live h ptr \<noteq> None"
  shows "accounted ovh (kmp_free ovh ptr h)"
  using assms(2) accounted_dealloc [OF assms(1), of ptr] assms(1)
  by (auto simp: kmp_free_def Let_def kmp_malloc_usable_size_def)

lemma realloc_accounted:
  assumes acc: "accounted ovh h" and ptr: "ptr = 0 \<or> live h ptr \<noteq> None"
    and re: "kmp_realloc ovh libc ptr sz h = (p, oom, h')"
  shows "accounted ovh h'"
proof (cases "ptr = 0 \<or> sz = 0")
  case True
  with re ptr malloc_accounted [OF acc] accounted_dealloc [OF acc, of ptr] acc show ?thesis
    by (auto simp: kmp_realloc_def Let_def kmp_malloc_usable_size_def split: if_splits)
next
  case False
  with ptr obtain u where u: "live h ptr = Some u" by auto
  show ?thesis
  proof (cases "malloc_size (mstate h) + sz - u > malloc_limit (mstate h) \<or> libc = None")
    case True
    with re False u acc show ?thesis
      by (auto simp: kmp_realloc_def Let_def kmp_malloc_usable_size_def split: if_splits option.splits)
  next
    case keep: False
    then obtain usable where libc: "libc = Some usable" by auto
    let ?mid = "h\<lparr>mstate := (mstate h)\<lparr>malloc_count := malloc_count (mstate h) - 1,
      malloc_size := malloc_size (mstate h) - (u + ovh)\<rparr>, live := (live h)(ptr := None)\<rparr>"
    have mid: "accounted ovh ?mid" by (rule accounted_dealloc [OF acc u]) simp_all
    show ?thesis
      by (rule accounted_alloc [OF mid, of _ usable])
         (use re False keep u libc in \<open>auto simp: kmp_realloc_def Let_def kmp_malloc_usable_size_def\<close>)
  qed
qed

text \<open>A refused allocation leaves the heap alone and is the only thing that raises the flag.\<close>

lemma malloc_oom_iff:
  assumes "kmp_malloc ovh libc sz h = (p, oom, h')"
  shows "oom \<longleftrightarrow> malloc_size (mstate h) + sz > malloc_limit (mstate h)" "oom \<Longrightarrow> p = 0 \<and> h' = h"
  using assms by (auto simp: kmp_malloc_def Let_def split: if_splits option.splits)

text \<open>Granted allocations respect the limit up to what the C library rounds up to.\<close>

lemma malloc_within_limit:
  assumes mal: "kmp_malloc ovh (Some usable) sz h = (p, oom, h')" and p: "p \<noteq> 0"
    and nowrap: "unat (malloc_size (mstate h)) + unat usable + unat ovh < 2 ^ 64" "sz \<le> usable"
  shows "unat (malloc_size (mstate h')) \<le> unat (malloc_limit (mstate h)) + (unat usable - unat sz) + unat ovh"
proof -
  have ok: "\<not> malloc_size (mstate h) + sz > malloc_limit (mstate h)"
    using mal p by (auto simp: kmp_malloc_def Let_def split: if_splits)
  have le: "unat sz \<le> unat usable" using nowrap(2) by (simp add: word_le_nat_alt)
  have sum: "unat (malloc_size (mstate h) + sz) = unat (malloc_size (mstate h)) + unat sz"
    using nowrap(1) le by (simp add: unat_word_ariths)
  have "unat (malloc_size (mstate h')) = unat (malloc_size (mstate h)) + unat usable + unat ovh"
    using mal ok nowrap(1) by (auto simp: kmp_malloc_def Let_def unat_word_ariths)
  moreover have "unat (malloc_size (mstate h)) + unat sz \<le> unat (malloc_limit (mstate h))"
    using ok sum by (simp add: word_le_nat_alt not_less)
  ultimately show ?thesis using le by simp
qed

section \<open>Properties\<close>

text \<open>The calls the engine makes of its allocator; a pointer it frees or reallocates is null or live.\<close>

datatype alloc_op = AMalloc "size_t option" size_t | AFree nat | ARealloc "size_t option" nat size_t

fun alloc_do :: "size_t \<Rightarrow> alloc_op \<Rightarrow> kmp_heap \<Rightarrow> kmp_heap" where
  "alloc_do ovh (AMalloc libc sz) h = snd (snd (kmp_malloc ovh libc sz h))"
| "alloc_do ovh (AFree p) h = kmp_free ovh p h"
| "alloc_do ovh (ARealloc libc p sz) h = snd (snd (kmp_realloc ovh libc p sz h))"

fun alloc_ok :: "alloc_op \<Rightarrow> kmp_heap \<Rightarrow> bool" where
  "alloc_ok (AMalloc libc sz) h = True"
| "alloc_ok (AFree p) h = (p = 0 \<or> live h p \<noteq> None)"
| "alloc_ok (ARealloc libc p sz) h = (p = 0 \<or> live h p \<noteq> None)"

fun alloc_run :: "size_t \<Rightarrow> alloc_op list \<Rightarrow> kmp_heap \<Rightarrow> kmp_heap option" where
  "alloc_run ovh [] h = Some h"
| "alloc_run ovh (op # ops) h = (if alloc_ok op h then alloc_run ovh ops (alloc_do ovh op h) else None)"

lemma alloc_do_accounted: "accounted ovh h \<Longrightarrow> alloc_ok op h \<Longrightarrow> accounted ovh (alloc_do ovh op h)"
proof (cases op)
  case (AMalloc libc sz)
  assume "accounted ovh h"
  from malloc_accounted [OF this] AMalloc show ?thesis by (metis alloc_do.simps(1) prod.collapse)
next
  case (AFree p)
  assume "accounted ovh h" "alloc_ok op h"
  with AFree show ?thesis by (simp add: free_accounted)
next
  case (ARealloc libc p sz)
  assume "accounted ovh h" "alloc_ok op h"
  with realloc_accounted ARealloc show ?thesis by (metis alloc_do.simps(3) alloc_ok.simps(3) prod.collapse)
qed

text \<open>C13: the accounting of the allocator is exact through every sequence of allocations, reallocations
  and frees: \<open>malloc_count\<close> is the number of live blocks and \<open>malloc_size\<close> their usable sizes plus
  the per-block overhead (modulo \<open>2^64\<close>, the width of \<open>size_t\<close>), failures included.\<close>

theorem allocator_accounting:
  assumes "alloc_run ovh ops (init_heap limit) = Some h"
  shows "accounted ovh h"
proof -
  have "accounted ovh h" if "accounted ovh h0" "alloc_run ovh ops h0 = Some h" for h0
    using that by (induction ops arbitrary: h0) (auto intro: alloc_do_accounted split: if_splits)
  with assms show ?thesis by (blast intro: accounted_init)
qed

theorem allocator_accounting_witness:
  "accounted 8 (the (alloc_run 8 [AMalloc (Some 32) 20, ARealloc (Some 64) 1 50, AMalloc None 9, AFree 2] (init_heap 1000)))"
proof -
  let ?r = "alloc_run 8 [AMalloc (Some 32) 20, ARealloc (Some 64) 1 50, AMalloc None 9, AFree 2] (init_heap 1000)"
  have "?r \<noteq> None" by (simp add: init_heap_def kmp_malloc_def kmp_realloc_def kmp_malloc_usable_size_def Let_def)
  then have "?r = Some (the ?r)" by simp
  then show ?thesis by (rule allocator_accounting)
qed

text \<open>The flag that distinguishes an out-of-memory condition from a script's own \<open>throw null\<close> is
  raised by an allocation exactly when the limit refuses it; the refused allocation returns null and
  changes nothing.\<close>

theorem oom_flag_exact:
  "fst (snd (kmp_malloc ovh libc sz h)) = (malloc_size (mstate h) + sz > malloc_limit (mstate h)) \<and>
   (fst (snd (kmp_realloc ovh libc p sz h)) =
     (sz \<noteq> 0 \<and> malloc_size (mstate h) + sz - (if p = 0 then 0 else kmp_malloc_usable_size h p) > malloc_limit (mstate h))) \<and>
   (fst (snd (kmp_malloc ovh libc sz h)) \<longrightarrow> kmp_malloc ovh libc sz h = (0, True, h)) \<and>
   (fst (snd (kmp_realloc ovh libc p sz h)) \<longrightarrow> kmp_realloc ovh libc p sz h = (0, True, h))"
  by (auto simp: kmp_malloc_def kmp_realloc_def Let_def split: option.splits)

theorem oom_flag_exact_witness:
  "kmp_malloc 8 (Some 32) 20 (init_heap 10) = (0, True, init_heap 10)"
proof -
  have "fst (snd (kmp_malloc 8 (Some 32) 20 (init_heap 10)))" by (simp add: kmp_malloc_def init_heap_def)
  with oom_flag_exact [of 8 "Some 32" 20 "init_heap 10" 0] show ?thesis by simp
qed

text \<open>A granted allocation leaves the accounted size within the limit, except for the bytes the C
  library rounds the block up by and the overhead of that one block.\<close>

theorem granted_within_limit:
  assumes "kmp_malloc ovh (Some usable) sz h = (p, oom, h')" "p \<noteq> 0"
    "unat (malloc_size (mstate h)) + unat usable + unat ovh < 2 ^ 64" "sz \<le> usable"
  shows "unat (malloc_size (mstate h')) \<le> unat (malloc_limit (mstate h)) + (unat usable - unat sz) + unat ovh"
  using assms by (rule malloc_within_limit)

theorem granted_within_limit_witness:
  "unat (malloc_size (mstate (snd (snd (kmp_malloc 8 (Some 32) 20 (init_heap 100)))))) \<le> 100 + 12 + 8"
  using granted_within_limit [of 8 32 20 "init_heap 100" 1 False "snd (snd (kmp_malloc 8 (Some 32) 20 (init_heap 100)))"]
  by (simp add: kmp_malloc_def init_heap_def)

end
