(* ===== verification/Interrupt.thy ===== *)
theory Interrupt
  imports Prelude
begin

text \<open>
  The atomic run state of the engine: idle, running or interrupted. The engine's own thread enters and
  leaves runs, possibly nested; any other thread may call \<open>kmpjs_interrupt\<close> at any moment. Each
  transition is one atomic access of the C code, so the interleavings are the sequences of these steps.
\<close>

datatype kmp_state = KMP_IDLE | KMP_RUNNING | KMP_INTERRUPTED

section \<open>The atomic accesses\<close>

text \<open>\<open>atomic_compare_exchange_strong(&state, &expected, KMP_RUNNING)\<close> of \<open>run_begin\<close>: the new state
  and whether this is the outermost run.\<close>

definition state_begin :: "kmp_state \<Rightarrow> kmp_state \<times> bool" where
  "state_begin s = (if s = KMP_IDLE then (KMP_RUNNING, True) else (s, False))"

definition state_end :: "bool \<Rightarrow> kmp_state \<Rightarrow> kmp_state" where
  "state_end outermost s = (if outermost then KMP_IDLE else s)"

definition state_interrupt :: "kmp_state \<Rightarrow> kmp_state" where
  "state_interrupt s = (if s = KMP_RUNNING then KMP_INTERRUPTED else s)"

text \<open>\<open>kmp_interrupt_handler\<close>: what the engine's polling sees.\<close>

definition state_poll :: "kmp_state \<Rightarrow> bool" where
  "state_poll s = (s = KMP_INTERRUPTED)"

section \<open>Interleavings\<close>

text \<open>The open runs of the engine thread, innermost first, each with the flag its \<open>run_begin\<close> returned.\<close>

record run_sys =
  st :: kmp_state
  frames :: "bool list"

definition init_runs :: run_sys where
  "init_runs = \<lparr>st = KMP_IDLE, frames = []\<rparr>"

inductive run_step :: "run_sys \<Rightarrow> run_sys \<Rightarrow> bool" where
  enter: "state_begin (st s) = (x, out) \<Longrightarrow> run_step s (s\<lparr>st := x, frames := out # frames s\<rparr>)"
| leave: "frames s = out # fs \<Longrightarrow> run_step s (s\<lparr>st := state_end out (st s), frames := fs\<rparr>)"
| interrupt: "run_step s (s\<lparr>st := state_interrupt (st s)\<rparr>)"

inductive_cases run_stepE: "run_step s t"

inductive reachable_runs :: "run_sys \<Rightarrow> bool" where
  start: "reachable_runs init_runs"
| step: "reachable_runs s \<Longrightarrow> run_step s t \<Longrightarrow> reachable_runs t"

text \<open>Exactly the bottom run is the outermost one, and the state is idle exactly when no run is open.\<close>

definition runs_inv :: "run_sys \<Rightarrow> bool" where
  "runs_inv s = ((st s = KMP_IDLE \<longleftrightarrow> frames s = []) \<and>
     (frames s \<noteq> [] \<longrightarrow> frames s = replicate (length (frames s) - 1) False @ [True]))"

lemma runs_inv_init: "runs_inv init_runs"
  by (simp add: runs_inv_def init_runs_def)

lemma runs_inv_step: "run_step s t \<Longrightarrow> runs_inv s \<Longrightarrow> runs_inv t"
proof (induction rule: run_step.induct)
  case (enter s x out)
  then show ?case
    by (auto simp: runs_inv_def state_begin_def split: if_splits)
       (metis Cons_replicate_eq append_Cons length_greater_0_conv Suc_pred replicate_Suc)+
next
  case (leave s out fs)
  then have fs: "out # fs = replicate (length fs) False @ [True]" and busy: "st s \<noteq> KMP_IDLE"
    by (auto simp: runs_inv_def)
  show ?case
  proof (cases fs)
    case Nil
    with fs leave busy show ?thesis by (auto simp: runs_inv_def state_end_def)
  next
    case (Cons b bs)
    with fs have "\<not> out" "fs = replicate (length fs - 1) False @ [True]" by auto
    with Cons leave busy show ?thesis by (auto simp: runs_inv_def state_end_def)
  qed
qed (auto simp: runs_inv_def state_interrupt_def)

lemma reachable_runs_inv: "reachable_runs s \<Longrightarrow> runs_inv s"
  by (induction rule: reachable_runs.induct) (auto intro: runs_inv_init runs_inv_step)

text \<open>An interrupt that hit a run is never lost: it stays visible to every poll until the outermost
  run has ended.\<close>

lemma interrupt_sticks:
  assumes "run_step s t" "runs_inv s" "st s = KMP_INTERRUPTED" "frames t \<noteq> []"
  shows "st t = KMP_INTERRUPTED"
  using assms
proof (induction rule: run_step.induct)
  case (leave s out fs)
  then have "out # fs = replicate (length fs) False @ [True]" "fs \<noteq> []"
    by (auto simp: runs_inv_def)
  then have "\<not> out" by (cases fs) auto
  with leave show ?case by (simp add: state_end_def)
qed (auto simp: state_begin_def state_interrupt_def split: if_splits)

inductive steps_within :: "run_sys \<Rightarrow> run_sys \<Rightarrow> bool" where
  here: "frames s \<noteq> [] \<Longrightarrow> steps_within s s"
| further: "steps_within s t \<Longrightarrow> run_step t u \<Longrightarrow> frames u \<noteq> [] \<Longrightarrow> steps_within s u"

lemma steps_within_inv: "steps_within s t \<Longrightarrow> runs_inv s \<Longrightarrow> runs_inv t"
  by (induction rule: steps_within.induct) (auto intro: runs_inv_step)

section \<open>Properties\<close>

text \<open>C7: in every interleaving of runs of the engine thread with interrupts from other threads, the state
  is idle exactly when no run is open, and exactly the outermost open run is the one that will return
  the engine to idle.\<close>

theorem run_state_matches_nesting:
  assumes "reachable_runs s"
  shows "(st s = KMP_IDLE \<longleftrightarrow> frames s = []) \<and>
    (frames s \<noteq> [] \<longrightarrow> frames s = replicate (length (frames s) - 1) False @ [True])"
  using reachable_runs_inv [OF assms] by (simp add: runs_inv_def)

theorem run_state_matches_nesting_witness:
  "st \<lparr>st = KMP_RUNNING, frames = [True]\<rparr> = KMP_IDLE \<longleftrightarrow> frames \<lparr>st = KMP_RUNNING, frames = [True]\<rparr> = []"
proof -
  have "run_step init_runs (init_runs\<lparr>st := KMP_RUNNING, frames := True # frames init_runs\<rparr>)"
    by (rule run_step.enter) (simp add: state_begin_def init_runs_def)
  from run_state_matches_nesting [OF reachable_runs.step [OF reachable_runs.start this]]
  show ?thesis by (simp add: init_runs_def)
qed

text \<open>C8: an interrupt is never lost: once it has hit a run, every later poll reports it, through any
  number of nested runs and further interrupts, until the outermost run has ended; after that a new
  interrupt is a no-op until the next run.\<close>

theorem interrupt_never_lost:
  assumes "reachable_runs s" "st s = KMP_INTERRUPTED" "steps_within s t"
  shows "state_poll (st t) \<and> state_interrupt KMP_IDLE = KMP_IDLE"
proof -
  have "st t = KMP_INTERRUPTED"
    using assms(3,2) reachable_runs_inv [OF assms(1)]
    by (induction rule: steps_within.induct) (auto intro: interrupt_sticks dest: steps_within_inv)
  then show ?thesis by (simp add: state_poll_def state_interrupt_def)
qed

theorem interrupt_never_lost_witness: "state_poll KMP_INTERRUPTED \<and> state_interrupt KMP_IDLE = KMP_IDLE"
proof -
  let ?a = "\<lparr>st = KMP_RUNNING, frames = [True]\<rparr>" and ?b = "\<lparr>st = KMP_INTERRUPTED, frames = [True]\<rparr>"
  have "run_step init_runs ?a"
    using run_step.enter [of init_runs KMP_RUNNING True] by (simp add: state_begin_def init_runs_def)
  moreover have "run_step ?a ?b" using run_step.interrupt [of ?a] by (simp add: state_interrupt_def)
  ultimately have "reachable_runs ?b" by (blast intro: reachable_runs.intros)
  from interrupt_never_lost [OF this _ steps_within.here] show ?thesis by simp
qed

end
