(* ===== verification/Modules.thy ===== *)
theory Modules
  imports Prelude "HOL-Library.Sublist"
begin

text \<open>
  The module name table: one row per name the engine knows. Rows are only ever appended; a lookup
  returns the first row of that name.
\<close>

datatype module_kind = KMP_MODULE_SOURCE | KMP_MODULE_BYTECODE | KMP_MODULE_EVALUATED | KMP_MODULE_LOADED

record kmp_module =
  m_name :: bytes
  m_source :: "bytes option"
  m_len :: int
  m_kind :: module_kind

fun find_module :: "kmp_module list \<Rightarrow> bytes \<Rightarrow> kmp_module option" where
  "find_module [] name = None"
| "find_module (m # ms) name = (if m_name m = name then Some m else find_module ms name)"

text \<open>The row \<open>claim_module_name\<close> appends when its allocations succeed: only a source module keeps
  its code.\<close>

definition module_row :: "bytes \<Rightarrow> module_kind \<Rightarrow> bytes \<Rightarrow> kmp_module" where
  "module_row name k code =
     \<lparr>m_name = name, m_source = (if k = KMP_MODULE_SOURCE then Some code else None),
      m_len = int (length code), m_kind = k\<rparr>"

text \<open>The message of \<open>module_name_taken\<close>, formatted with \<open>%.128s\<close> into 192 bytes.\<close>

definition taken_message :: "module_kind \<Rightarrow> bytes \<Rightarrow> bytes" where
  "taken_message k name =
     take 191 (''module '' @ [CHR 0x27] @ take 128 name @ [CHR 0x27] @
       (case k of
          KMP_MODULE_EVALUATED \<Rightarrow> '' was already evaluated''
        | KMP_MODULE_LOADED \<Rightarrow> '' was already loaded by the module loader''
        | _ \<Rightarrow> '' is already registered''))"

lemma find_module_append:
  "find_module (ms @ ns) name = (case find_module ms name of None \<Rightarrow> find_module ns name | Some m \<Rightarrow> Some m)"
  by (induction ms) auto

lemma find_module_Some: "find_module ms name = Some m \<Longrightarrow> m \<in> set ms \<and> m_name m = name"
  by (induction ms) (auto split: if_splits)

lemma find_module_None: "find_module ms name = None \<longleftrightarrow> name \<notin> m_name ` set ms"
  by (induction ms) auto

lemma m_name_row [simp]: "m_name (module_row name k code) = name"
  by (simp add: module_row_def)

text \<open>A table that only grows at the end never changes an answer it has given.\<close>

lemma find_module_prefix:
  "prefix ms ns \<Longrightarrow> find_module ms name = Some m \<Longrightarrow> find_module ns name = Some m"
  by (auto simp: prefix_def find_module_append)

text \<open>
  What the loader and the registration calls rely on: a table with a lookup and a way to claim a name.
\<close>

locale name_table =
  fixes lookup :: "'t \<Rightarrow> 'n \<Rightarrow> 'r option" and row :: "'n \<Rightarrow> 'k \<Rightarrow> 'r" and claim :: "'n \<Rightarrow> 'k \<Rightarrow> 't \<Rightarrow> 't"
  assumes claim_new: "lookup t n = None \<Longrightarrow> lookup (claim n k t) n = Some (row n k)"
    and claim_keeps: "lookup t n' = Some r' \<Longrightarrow> lookup (claim n k t) n' = Some r'"
    and claim_others: "n' \<noteq> n \<Longrightarrow> lookup (claim n k t) n' = lookup t n'"
begin

text \<open>Claims are permanent: whatever is claimed later, a name keeps its first row.\<close>

lemma claims_permanent:
  "lookup t n = Some r \<Longrightarrow> lookup (fold (\<lambda>(n, k). claim n k) cs t) n = Some r"
  by (induction cs arbitrary: t) (auto intro: claim_keeps)

lemma claimed_first:
  "lookup t n = None \<Longrightarrow> lookup (fold (\<lambda>(n, k). claim n k) ((n, k) # cs) t) n = Some (row n k)"
  by (simp add: claims_permanent claim_new)

end

definition add_row :: "bytes \<Rightarrow> module_kind \<times> bytes \<Rightarrow> kmp_module list \<Rightarrow> kmp_module list" where
  "add_row name kc ms = ms @ [module_row name (fst kc) (snd kc)]"

interpretation modtab: name_table find_module "\<lambda>n kc. module_row n (fst kc) (snd kc)" add_row
  by unfold_locales (auto simp: add_row_def find_module_append split: option.splits)

end
