(* ===== verification/Numbers.thy ===== *)
theory Numbers
  imports Prelude
begin

text \<open>
  Numbers between the host and the engine: the host's \<open>double\<close> becomes a \<open>JSValue\<close> with
  \<open>JS_NewFloat64\<close>, which picks the integer tag when the double is exactly a 32-bit integer, and a
  number value leaves through \<open>JS_ToFloat64\<close>. Doubles are their IEEE 754 bit patterns.
\<close>

section \<open>Fields of a double\<close>

definition f64_sign :: "f64 \<Rightarrow> bool" where
  "f64_sign d = (2 ^ 63 \<le> uint d)"

definition f64_exp :: "f64 \<Rightarrow> int" where
  "f64_exp d = uint d div 2 ^ 52 mod 2 ^ 11"

definition f64_frac :: "f64 \<Rightarrow> int" where
  "f64_frac d = uint d mod 2 ^ 52"

text \<open>The magnitude of a double of absolute value at least 1, in units of \<open>2 ^ -52\<close>; zero below 1.\<close>

definition f64_scaled :: "f64 \<Rightarrow> int" where
  "f64_scaled d = (if f64_exp d < 1023 then 0 else (2 ^ 52 + f64_frac d) * 2 ^ nat (f64_exp d - 1023))"

text \<open>\<open>d >= INT32_MIN && d <= INT32_MAX\<close>; infinities and NaNs have exponent 2047 and fail it.\<close>

definition f64_in_int32 :: "f64 \<Rightarrow> bool" where
  "f64_in_int32 d = (f64_scaled d \<le> (if f64_sign d then 2 ^ 31 else 2 ^ 31 - 1) * 2 ^ 52)"

text \<open>\<open>(int32_t)d\<close>, rounding towards zero.\<close>

definition f64_trunc :: "f64 \<Rightarrow> int" where
  "f64_trunc d = (let n = f64_scaled d div 2 ^ 52 in if f64_sign d then - n else n)"

function top_bit :: "int \<Rightarrow> nat" where
  "top_bit n = (if n < 2 then 0 else Suc (top_bit (n div 2)))"
  by pat_completeness auto
termination by (relation "measure nat") auto

declare top_bit.simps [simp del]

text \<open>The double of a 32-bit integer, which is always exact.\<close>

definition f64_of_int :: "int \<Rightarrow> f64" where
  "f64_of_int i =
     (if i = 0 then 0
      else let n = \<bar>i\<bar>; k = top_bit n in
        word_of_int ((if i < 0 then 2 ^ 63 else 0) + (1023 + int k) * 2 ^ 52 + (n - 2 ^ k) * 2 ^ (52 - k)))"

section \<open>The conversions\<close>

definition JS_NewFloat64 :: "f64 \<Rightarrow> jsval" where
  "JS_NewFloat64 d =
     (if f64_in_int32 d \<and> f64_of_int (f64_trunc d) = d then JInt (f64_trunc d) else JFloat64 d)"

text \<open>The fast paths of \<open>JS_ToFloat64\<close>; \<open>None\<close> stands for the general conversion, which no caller in
  the shim reaches (each tests \<open>JS_IsNumber\<close> first).\<close>

fun JS_ToFloat64 :: "jsval \<Rightarrow> f64 option" where
  "JS_ToFloat64 (JInt i) = Some (f64_of_int i)"
| "JS_ToFloat64 (JBool b) = Some (f64_of_int (if b then 1 else 0))"
| "JS_ToFloat64 JNull = Some 0"
| "JS_ToFloat64 (JFloat64 d) = Some d"
| "JS_ToFloat64 _ = None"

definition JS_NewBool :: "bool \<Rightarrow> jsval" where
  "JS_NewBool b = JBool b"

section \<open>Every 32-bit integer keeps its value\<close>

lemma top_bit_bounds: "0 < n \<Longrightarrow> 2 ^ top_bit n \<le> n \<and> n < 2 * 2 ^ top_bit n"
proof (induction n rule: top_bit.induct)
  case (1 n)
  show ?case
  proof (cases "n < 2")
    case True
    with 1 show ?thesis by (simp add: top_bit.simps [of n])
  next
    case False
    with 1 have "2 ^ top_bit (n div 2) \<le> n div 2 \<and> n div 2 < 2 * 2 ^ top_bit (n div 2)" by simp
    then show ?thesis using False by (auto simp: top_bit.simps [of n])
  qed
qed

lemma top_bit_le:
  assumes "0 < n" "n \<le> 2 ^ m" shows "top_bit n \<le> m"
proof -
  have "(2::int) ^ top_bit n \<le> 2 ^ m" using top_bit_bounds [OF assms(1)] assms(2) by linarith
  then show ?thesis by simp
qed

text \<open>The three fields of the pattern \<open>f64_of_int\<close> builds.\<close>

lemma pattern_fields:
  fixes s e f :: int
  assumes "s = 0 \<or> s = 1" "0 \<le> e" "e < 2 ^ 11" "0 \<le> f" "f < 2 ^ 52"
  defines "d \<equiv> word_of_int (s * 2 ^ 63 + e * 2 ^ 52 + f) :: f64"
  shows "f64_sign d = (s = 1)" "f64_exp d = e" "f64_frac d = f"
proof -
  have "0 \<le> s * 2 ^ 63 + e * 2 ^ 52 + f" "s * 2 ^ 63 + e * 2 ^ 52 + f < 2 ^ 64" using assms(1-5) by auto
  then have u: "uint d = s * 2 ^ 63 + e * 2 ^ 52 + f"
    unfolding d_def unsigned_of_int by (simp add: take_bit_int_eq_self)
  have q: "uint d = (s * 2 ^ 11 + e) * 2 ^ 52 + f" unfolding u by simp
  show "f64_sign d = (s = 1)" using assms(1-5) u by (auto simp: f64_sign_def)
  have "uint d div 2 ^ 52 = s * 2 ^ 11 + e" unfolding q using assms(4,5) by simp
  then show "f64_exp d = e" unfolding f64_exp_def using assms(2,3) by simp
  show "f64_frac d = f" unfolding f64_frac_def q using assms(4,5) by (simp only: mod_mult_self3 mod_pos_pos_trivial)
qed

lemma f64_of_int_fields:
  assumes "i \<noteq> 0" "\<bar>i\<bar> \<le> 2 ^ 31"
  shows "f64_sign (f64_of_int i) = (i < 0)" "f64_scaled (f64_of_int i) = \<bar>i\<bar> * 2 ^ 52"
proof -
  let ?n = "\<bar>i\<bar>"
  let ?k = "top_bit ?n"
  have n: "0 < ?n" "?n \<le> 2 ^ 31" using assms by auto
  have k: "?k \<le> 31" using top_bit_le [OF n] .
  have f: "0 \<le> ?n - 2 ^ ?k" "?n - 2 ^ ?k < 2 ^ ?k" using top_bit_bounds [OF n(1)] by linarith+
  have split: "(2::int) ^ 52 = 2 ^ ?k * 2 ^ (52 - ?k)" using k by (simp flip: power_add)
  have bound: "0 \<le> (?n - 2 ^ ?k) * 2 ^ (52 - ?k)" "(?n - 2 ^ ?k) * 2 ^ (52 - ?k) < 2 ^ 52"
    unfolding split using f by simp_all
  have e: "0 \<le> 1023 + int ?k" "1023 + int ?k < 2 ^ 11" using k by simp_all
  have d: "f64_of_int i =
    word_of_int ((if i < 0 then 1 else 0) * 2 ^ 63 + (1023 + int ?k) * 2 ^ 52 + (?n - 2 ^ ?k) * 2 ^ (52 - ?k))"
    using assms(1) by (simp add: f64_of_int_def Let_def)
  note fields = pattern_fields [OF _ e bound, of "if i < 0 then 1 else 0", folded d]
  show "f64_sign (f64_of_int i) = (i < 0)" using fields(1) by simp
  have "f64_scaled (f64_of_int i) = (2 ^ 52 + (?n - 2 ^ ?k) * 2 ^ (52 - ?k)) * 2 ^ ?k"
    using fields(2,3) by (simp add: f64_scaled_def)
  also have "\<dots> = (2 ^ ?k + (?n - 2 ^ ?k)) * (2 ^ ?k * 2 ^ (52 - ?k))"
    unfolding split by (simp add: algebra_simps)
  also have "\<dots> = ?n * 2 ^ 52" by (simp flip: split)
  finally show "f64_scaled (f64_of_int i) = ?n * 2 ^ 52" .
qed

lemma f64_of_int_exact:
  assumes "- (2 ^ 31) \<le> i" "i < 2 ^ 31"
  shows "f64_in_int32 (f64_of_int i) \<and> f64_trunc (f64_of_int i) = i"
proof (cases "i = 0")
  case True
  then show ?thesis by (simp add: f64_of_int_def f64_in_int32_def f64_scaled_def f64_exp_def f64_trunc_def)
next
  case False
  with assms have "\<bar>i\<bar> \<le> 2 ^ 31" by auto
  from f64_of_int_fields [OF False this] assms show ?thesis
    by (auto simp: f64_in_int32_def f64_trunc_def)
qed

lemma new_float_of_int: "- (2 ^ 31) \<le> i \<Longrightarrow> i < 2 ^ 31 \<Longrightarrow> JS_NewFloat64 (f64_of_int i) = JInt i"
  using f64_of_int_exact [of i] by (simp add: JS_NewFloat64_def)

lemma to_new_float: "JS_ToFloat64 (JS_NewFloat64 d) = Some d"
  by (simp add: JS_NewFloat64_def)

lemma new_float_is_number: "JS_IsNumber (JS_NewFloat64 d)" "cnt (JS_NewFloat64 d) a = 0"
  by (simp_all add: JS_NewFloat64_def JS_IsNumber_def)

lemma f64_of_int_0 [simp]: "f64_of_int 0 = 0"
  by (simp add: f64_of_int_def)

section \<open>Properties\<close>

text \<open>A number that the host hands in and reads back is the same double, bit for bit: \<open>-0\<close>, infinities
  and NaN payloads included; and every 32-bit integer takes the engine's integer representation with
  its exact value.\<close>

theorem number_round_trip:
  "JS_IsNumber (JS_NewFloat64 d) \<and> JS_ToFloat64 (JS_NewFloat64 d) = Some d \<and>
   (\<forall>i. - (2 ^ 31) \<le> i \<and> i < 2 ^ 31 \<longrightarrow> JS_NewFloat64 (f64_of_int i) = JInt i)"
  by (simp add: to_new_float new_float_is_number new_float_of_int)

theorem number_round_trip_witness: "JS_NewFloat64 (f64_of_int (-5)) = JInt (-5)"
  using number_round_trip [of 0] by simp

end
