(* ===== verification/Engine.thy ===== *)
theory Engine
  imports Refs Buffers Allocator Interrupt Modules Numbers
begin

text \<open>
  The state the shim works on and the two machines it sits between.

  QuickJS is an open machine: \<open>q_step\<close> takes an input (an API call, or the answer to a request the engine
  made) and a heap, and yields the engine's reply: the result of the call, or a request to one of the
  callbacks the shim installed. The host (the code behind the callbacks of \<open>kmpjs_create\<close>) is a machine
  of the same shape that is asked by the shim and may call the shim's API back before it answers. Neither
  is constrained: what is proved holds for every engine and every host.

  The shim's functions are written over a link \<open>X\<close>, whose \<open>enter\<close> runs one engine call to its result,
  callbacks included, and whose \<open>ask\<close> runs one host callback to its answer, with the API calls it
  makes; the theory \<open>Exec\<close> builds these two functions.

  Besides the C state, a world carries ghost state: \<open>held w a\<close> counts the references to the engine
  object at address \<open>a\<close> that C code owns, and \<open>bad\<close> records a release of something not owned.
\<close>

section \<open>Engine and host as machines\<close>

datatype jscall =
    CEval bytes bytes int
  | CEvalFunction jsval
  | CCall jsval jsval "jsval list"
  | CGetPropertyStr jsval bytes
  | CGetPropertyUint32 jsval nat
  | CSetPropertyStr jsval bytes jsval
  | CDefinePropertyValueStr jsval bytes jsval int
  | CJSONStringify jsval
  | CToString jsval
  | CToCStringLen jsval
  | CNewStringLen bytes
  | CParseJSON bytes bytes
  | CNewArrayBufferCopy bytes
  | CGetArrayBuffer jsval
  | CGetTypedArrayBuffer jsval
  | CExecutePendingJob
  | CGetException
  | CThrow jsval
  | CThrowError bytes bytes
  | CNewError
  | CNewObject
  | CNewCFunction bytes int
  | CNewCFunctionMagic bytes int
  | CGetGlobalObject
  | CPromiseResult jsval
  | CGetModuleNamespace nat
  | CGetImportMeta nat
  | CModuleName jsval nat
  | CStrdup bytes
  | CNewRuntime
  | CNewContext
  | CNewContextRaw
  | CReadObject jsval bytes
  | CResolveModule jsval
  | CPrintValue jsval
  | CSetMaxStackSize int
  | CSetGCThreshold int
  | CUpdateStackTop
  | CComputeMemoryUsage
  | CDumpMemoryUsage
  | CSetStripInfo int
  | CWriteObject jsval
  | CNewCModule bytes

text \<open>Results. A C string is returned with the address of the engine string it keeps alive.\<close>

datatype jret =
    RVal jsval
  | RInt int
  | RCStr "(bytes \<times> nat) option"
  | RBytes "bytes option"
  | RTyped jsval nat nat
  | RModule "nat option"
  | RChunks "bytes list"
  | RUsage "int list"

fun ret_val :: "jret \<Rightarrow> jsval" where "ret_val (RVal v) = v" | "ret_val _ = JException"
fun ret_int :: "jret \<Rightarrow> int" where "ret_int (RInt i) = i" | "ret_int _ = -1"
fun ret_cstr :: "jret \<Rightarrow> (bytes \<times> nat) option" where "ret_cstr (RCStr s) = s" | "ret_cstr _ = None"
fun ret_bytes :: "jret \<Rightarrow> bytes option" where "ret_bytes (RBytes s) = s" | "ret_bytes _ = None"
fun ret_typed :: "jret \<Rightarrow> jsval \<times> nat \<times> nat" where
  "ret_typed (RTyped v off len) = (v, off, len)" | "ret_typed _ = (JException, 0, 0)"
fun ret_chunks :: "jret \<Rightarrow> bytes list" where "ret_chunks (RChunks cs) = cs" | "ret_chunks _ = []"
fun ret_usage :: "jret \<Rightarrow> int list" where "ret_usage (RUsage us) = us" | "ret_usage _ = []"

text \<open>What the engine asks of the shim while it runs.\<close>

datatype jsreq =
    QHost int "jsval list"
  | QPrint "jsval list"
  | QPerformanceNow
  | QReject jsval jsval bool
  | QNormalize bytes bytes
  | QLoad bytes
  | QPoll
  | QMalloc size_t
  | QFree nat
  | QRealloc nat size_t

datatype jsin = InCall jscall | InAnswer jret
datatype jsout = OutRet jret | OutReq jsreq

text \<open>The API calls a host callback may make before it returns.\<close>

datatype apicall =
    AEval bytes bytes int
  | ADefineFunction bytes int int
  | ARetain "64 word"
  | ARelease "64 word"
  | AGet "64 word" bytes int
  | AGetIndex "64 word" int int
  | ASet "64 word" bytes kmpjs_value
  | ACall "64 word" "64 word" "kmpjs_value list" int
  | AToJson "64 word"
  | ARegisterModule bytes bytes
  | AEvalModule bytes bytes int
  | ARunBytecode bytes int
  | ARegisterModuleBytecode bytes
  | AStats
  | ADumpMemory

datatype hin = HCall int "kmpjs_value list" | HLog bytes | HRejection kmpjs_value
  | HResult int kmpjs_value "int list"
datatype hout = HDone int kmpjs_value | HApi apicall

text \<open>Everything the shim is linked against.\<close>

record ('h, 'u) sys =
  q_step :: "jsin \<Rightarrow> 'h \<Rightarrow> jsout \<times> 'h"
  q_free :: "jsval \<Rightarrow> 'h \<Rightarrow> 'h"
  q_is_function :: "'h \<Rightarrow> jsval \<Rightarrow> bool"
  q_is_array :: "'h \<Rightarrow> jsval \<Rightarrow> int"
  q_is_error :: "'h \<Rightarrow> jsval \<Rightarrow> bool"
  q_class_id :: "'h \<Rightarrow> jsval \<Rightarrow> nat"
  q_promise_state :: "'h \<Rightarrow> jsval \<Rightarrow> int"
  q_job_pending :: "'h \<Rightarrow> bool"
  h_step :: "hin \<Rightarrow> 'u \<Rightarrow> hout \<times> 'u"
  h_load :: "bytes \<Rightarrow> 'u \<Rightarrow> (int \<times> kmpjs_value) \<times> 'u"
  c_alloc :: "nat \<Rightarrow> bool"
  c_usable :: "nat \<Rightarrow> size_t"
  c_overhead :: size_t
  c_clock :: "nat \<Rightarrow> f64"
  irq :: "nat \<Rightarrow> bool"
  commit :: bytes

section \<open>The engine struct and the world\<close>

text \<open>The runtime and the context are counted engine objects like any other value; \<open>JNull\<close> is the null
  pointer. The callbacks of \<open>kmpjs_create\<close> are kept as whether they are set; what they do is \<open>h_step\<close>.\<close>

record kmp_rejected =
  r_promise :: jsval
  r_reason :: jsval

record kmpjs_engine =
  rt :: jsval
  ctx :: jsval
  has_host :: bool
  has_log :: bool
  has_rejection :: bool
  has_module_loader :: bool
  max_stack_size :: int
  memory_limit :: int
  cls_array_buffer :: nat
  cls_shared_array_buffer :: nat
  cls_typed_array_first :: nat
  cls_typed_array_last :: nat
  bigint_ctor :: jsval
  module_scheme :: bytes
  modules :: "kmp_module list"
  module_cap :: int
  rejected :: "kmp_rejected list"
  rejected_cap :: int
  state :: kmp_state
  oom :: bool
  refs :: kmp_table

record ('h, 'u) world =
  eng :: kmpjs_engine
  mem :: cmem
  jsmem :: kmp_heap
  heap :: 'h
  hst :: 'u
  ticks :: nat
  held :: "nat \<Rightarrow> nat"
  bad :: bool

record ('h, 'u) link =
  lib :: "('h, 'u) sys"
  enter :: "jscall \<Rightarrow> ('h, 'u) world \<Rightarrow> (jret \<times> ('h, 'u) world) option"
  ask :: "hin \<Rightarrow> ('h, 'u) world \<Rightarrow> ((int \<times> kmpjs_value) \<times> ('h, 'u) world) option"
  fuel :: nat

definition upd_eng :: "(kmpjs_engine \<Rightarrow> kmpjs_engine) \<Rightarrow> ('h, 'u) world \<Rightarrow> ('h, 'u) world" where
  "upd_eng f w = w\<lparr>eng := f (eng w)\<rparr>"

definition upd_mem :: "(cmem \<Rightarrow> cmem) \<Rightarrow> ('h, 'u) world \<Rightarrow> ('h, 'u) world" where
  "upd_mem f w = w\<lparr>mem := f (mem w)\<rparr>"

text \<open>One call of the C library's allocator by the shim: whether it succeeds.\<close>

definition c_malloc :: "('h, 'u) link \<Rightarrow> ('h, 'u) world \<Rightarrow> (bool \<times> ('h, 'u) world) option" where
  "c_malloc X w = Some (c_alloc (lib X) (ticks w), w\<lparr>ticks := ticks w + 1\<rparr>)"

text \<open>Another thread may call \<open>kmpjs_interrupt\<close> before any atomic access of the engine thread.\<close>

definition env_irq :: "('h, 'u) link \<Rightarrow> ('h, 'u) world \<Rightarrow> ('h, 'u) world" where
  "env_irq X w =
     (let w1 = w\<lparr>ticks := ticks w + 1\<rparr> in
      if irq (lib X) (ticks w) then upd_eng (\<lambda>e. e\<lparr>state := state_interrupt (state e)\<rparr>) w1 else w1)"

section \<open>References owned by C code\<close>

definition add_ref :: "jsval \<Rightarrow> (nat \<Rightarrow> nat) \<Rightarrow> nat \<Rightarrow> nat" where
  [simp]: "add_ref v f a = f a + cnt v a"

definition drop_ref :: "jsval \<Rightarrow> (nat \<Rightarrow> nat) \<Rightarrow> nat \<Rightarrow> nat" where
  [simp]: "drop_ref v f a = f a - cnt v a"

definition own :: "jsval \<Rightarrow> ('h, 'u) world \<Rightarrow> ('h, 'u) world" where
  "own v w = w\<lparr>held := add_ref v (held w)\<rparr>"

text \<open>Giving a reference up, either to the engine (an API call that consumes its argument) or to
  \<open>JS_FreeValue\<close>.\<close>

definition disown :: "jsval \<Rightarrow> ('h, 'u) world \<Rightarrow> ('h, 'u) world" where
  "disown v w = w\<lparr>held := drop_ref v (held w),
     bad := (bad w \<or> (case v of JPtr t a \<Rightarrow> held w a = 0 | _ \<Rightarrow> False))\<rparr>"

definition JS_FreeValue :: "('h, 'u) link \<Rightarrow> jsval \<Rightarrow> ('h, 'u) world \<Rightarrow> ('h, 'u) world" where
  "JS_FreeValue X v w = (disown v w)\<lparr>heap := q_free (lib X) v (heap w)\<rparr>"

definition JS_DupValue :: "jsval \<Rightarrow> ('h, 'u) world \<Rightarrow> ('h, 'u) world" where
  "JS_DupValue v w = own v w"

section \<open>Calls into the engine\<close>

text \<open>Calls that return an owned value.\<close>

definition js_val :: "('h, 'u) link \<Rightarrow> jscall \<Rightarrow> ('h, 'u) world \<Rightarrow> (jsval \<times> ('h, 'u) world) option" where
  "js_val X c w = do { (r, w) \<leftarrow> enter X c w; Some (ret_val r, own (ret_val r) w) }"

definition js_int :: "('h, 'u) link \<Rightarrow> jscall \<Rightarrow> ('h, 'u) world \<Rightarrow> (int \<times> ('h, 'u) world) option" where
  "js_int X c w = do { (r, w) \<leftarrow> enter X c w; Some (ret_int r, w) }"

text \<open>\<open>JS_ToCStringLen\<close> keeps the engine's string alive until \<open>JS_FreeCString\<close>.\<close>

definition cstr_val :: "(bytes \<times> nat) option \<Rightarrow> jsval" where
  "cstr_val p = (case p of None \<Rightarrow> JUndefined | Some (s, a) \<Rightarrow> JPtr TagString a)"

definition JS_ToCStringLen ::
  "('h, 'u) link \<Rightarrow> jsval \<Rightarrow> ('h, 'u) world \<Rightarrow> ((bytes \<times> nat) option \<times> ('h, 'u) world) option" where
  "JS_ToCStringLen X v w =
     do { (r, w) \<leftarrow> enter X (CToCStringLen v) w; Some (ret_cstr r, own (cstr_val (ret_cstr r)) w) }"

definition JS_FreeCString :: "('h, 'u) link \<Rightarrow> (bytes \<times> nat) option \<Rightarrow> ('h, 'u) world \<Rightarrow> ('h, 'u) world" where
  "JS_FreeCString X p w = JS_FreeValue X (cstr_val p) w"

text \<open>Calls that consume an argument.\<close>

definition JS_SetPropertyStr ::
  "('h, 'u) link \<Rightarrow> jsval \<Rightarrow> bytes \<Rightarrow> jsval \<Rightarrow> ('h, 'u) world \<Rightarrow> (int \<times> ('h, 'u) world) option" where
  "JS_SetPropertyStr X obj name v w = js_int X (CSetPropertyStr obj name v) (disown v w)"

definition JS_DefinePropertyValueStr ::
  "('h, 'u) link \<Rightarrow> jsval \<Rightarrow> bytes \<Rightarrow> jsval \<Rightarrow> int \<Rightarrow> ('h, 'u) world \<Rightarrow> (int \<times> ('h, 'u) world) option" where
  "JS_DefinePropertyValueStr X obj name v flags w =
     js_int X (CDefinePropertyValueStr obj name v flags) (disown v w)"

definition JS_EvalFunction ::
  "('h, 'u) link \<Rightarrow> jsval \<Rightarrow> ('h, 'u) world \<Rightarrow> (jsval \<times> ('h, 'u) world) option" where
  "JS_EvalFunction X obj w = js_val X (CEvalFunction obj) (disown obj w)"

definition JS_Throw ::
  "('h, 'u) link \<Rightarrow> jsval \<Rightarrow> ('h, 'u) world \<Rightarrow> (jsval \<times> ('h, 'u) world) option" where
  "JS_Throw X v w = do { (r, w) \<leftarrow> enter X (CThrow v) (disown v w); Some (JException, w) }"

text \<open>The \<open>JS_Throw...Error\<close> family: an error of the named class with a formatted message.\<close>

definition JS_ThrowError ::
  "('h, 'u) link \<Rightarrow> bytes \<Rightarrow> bytes \<Rightarrow> ('h, 'u) world \<Rightarrow> (jsval \<times> ('h, 'u) world) option" where
  "JS_ThrowError X cls msg w = do { (r, w) \<leftarrow> enter X (CThrowError cls msg) w; Some (JException, w) }"

definition JS_ThrowOutOfMemory ::
  "('h, 'u) link \<Rightarrow> ('h, 'u) world \<Rightarrow> (jsval \<times> ('h, 'u) world) option" where
  "JS_ThrowOutOfMemory X w = JS_ThrowError X ''InternalError'' ''out of memory'' w"

end
