(* ===== verification/Contract.thy ===== *)
theory Contract
  imports Engine
begin

text \<open>
  The contract every function of the shim keeps, as one judgement. \<open>step T w0 w\<close> says that \<open>w\<close> is a
  good world reached from \<open>w0\<close>: the references C code holds are exactly those in the engine struct plus
  the temporaries \<open>T\<close>, nothing was released twice, the ref table and the buffers are well-formed, and
  relative to \<open>w0\<close> the engine is idle exactly if it was, an interrupt has not been lost, the module
  table has only grown, the configuration is untouched and set-aside payloads are intact.

  The locale \<open>engine_link\<close> is the interface to the engine and the host: entering the engine and asking
  the host keep the contract. Every
  function of the shim is shown to keep the contract over any such link.
\<close>

section \<open>Good worlds\<close>

text \<open>References to address \<open>a\<close> held by the engine struct.\<close>

definition hold :: "kmpjs_engine \<Rightarrow> nat \<Rightarrow> nat" where
  "hold e a = table_held (refs e) a + (\<Sum>r\<leftarrow>rejected e. cnt (r_promise r) a + cnt (r_reason r) a) +
     cnt (bigint_ctor e) a + cnt (ctx e) a + cnt (rt e) a"

definition good :: "(nat \<Rightarrow> nat) \<Rightarrow> ('h, 'u) world \<Rightarrow> bool" where
  "good T w =
     (\<not> bad w \<and> (\<forall>a. held w a = hold (eng w) a + T a) \<and> wf_table (refs (eng w)) \<and> wf_mem (mem w) \<and>
      distinct (map (\<lambda>r. JS_VALUE_GET_PTR (r_promise r)) (rejected (eng w))))"

definition config_of :: "kmpjs_engine \<Rightarrow> kmpjs_engine" where
  "config_of e = e\<lparr>modules := [], module_cap := 0, rejected := [], rejected_cap := 0,
     state := KMP_IDLE, oom := False, refs := empty_table\<rparr>"

definition rel :: "('h, 'u) world \<Rightarrow> ('h, 'u) world \<Rightarrow> bool" where
  "rel w w' =
     ((state (eng w) = KMP_IDLE \<longleftrightarrow> state (eng w') = KMP_IDLE) \<and>
      (state (eng w) = KMP_INTERRUPTED \<longrightarrow> state (eng w') = KMP_INTERRUPTED) \<and>
      prefix (modules (eng w)) (modules (eng w')) \<and>
      config_of (eng w') = config_of (eng w) \<and>
      keeps_loose (mem w) (mem w'))"

definition step :: "(nat \<Rightarrow> nat) \<Rightarrow> ('h, 'u) world \<Rightarrow> ('h, 'u) world \<Rightarrow> bool" where
  "step T w0 w = (good T w \<and> rel w0 w)"

lemma rel_refl [simp]: "rel w w"
  by (simp add: rel_def)

lemma rel_trans: "rel w1 w2 \<Longrightarrow> rel w2 w3 \<Longrightarrow> rel w1 w3"
  unfolding rel_def by (auto intro: keeps_loose_trans prefix_order.order_trans)

lemma step_start: "good T w \<Longrightarrow> step T w w"
  by (simp add: step_def)

lemma step_trans: "step T w0 w \<Longrightarrow> step T' w w' \<Longrightarrow> step T' w0 w'"
  by (auto simp: step_def intro: rel_trans)

lemma step_cong: "step T' w0 w \<Longrightarrow> (\<And>a. T' a = T a) \<Longrightarrow> step T w0 w"
  by (simp add: step_def good_def)

section \<open>State updates that keep the contract\<close>

named_theorems keep \<open>state updates that keep the contract\<close>

lemma step_own [keep]: "step T w0 w \<Longrightarrow> step (\<lambda>a. T a + cnt v a) w0 (own v w)"
  by (auto simp: step_def good_def rel_def own_def)

lemma step_dup [keep]: "step T w0 w \<Longrightarrow> step (\<lambda>a. T a + cnt v a) w0 (JS_DupValue v w)"
  unfolding JS_DupValue_def by (rule step_own)

lemma step_disown [keep]:
  assumes "step T w0 w" "\<And>a. cnt v a \<le> T a"
  shows "step (\<lambda>a. T a - cnt v a) w0 (disown v w)"
proof -
  have "held w a \<noteq> 0" if "v = JPtr t a" for t a
    using assms that by (auto simp: step_def good_def dest: meta_spec [of _ a])
  moreover have "held w a - cnt v a = hold (eng w) a + (T a - cnt v a)" for a
    using assms by (simp add: step_def good_def)
  ultimately show ?thesis
    using assms(1) by (auto simp: step_def good_def rel_def disown_def split: jsval.splits)
qed

lemma step_heap [keep]: "step T w0 w \<Longrightarrow> step T w0 (w\<lparr>heap := h\<rparr>)"
  by (auto simp: step_def good_def rel_def)

lemma step_hst [keep]: "step T w0 w \<Longrightarrow> step T w0 (w\<lparr>hst := u\<rparr>)"
  by (auto simp: step_def good_def rel_def)

lemma step_jsmem [keep]: "step T w0 w \<Longrightarrow> step T w0 (w\<lparr>jsmem := m\<rparr>)"
  by (auto simp: step_def good_def rel_def)

lemma step_ticks [keep]: "step T w0 w \<Longrightarrow> step T w0 (w\<lparr>ticks := n\<rparr>)"
  by (auto simp: step_def good_def rel_def)

lemma step_free [keep]:
  "step T w0 w \<Longrightarrow> (\<And>a. cnt v a \<le> T a) \<Longrightarrow> step (\<lambda>a. T a - cnt v a) w0 (JS_FreeValue X v w)"
  unfolding JS_FreeValue_def by (intro step_heap step_disown)

lemma step_free_cstr [keep]:
  "step T w0 w \<Longrightarrow> (\<And>a. cnt (cstr_val p) a \<le> T a) \<Longrightarrow>
   step (\<lambda>a. T a - cnt (cstr_val p) a) w0 (JS_FreeCString X p w)"
  unfolding JS_FreeCString_def by (rule step_free)

lemma step_oom [keep]: "step T w0 w \<Longrightarrow> step T w0 (upd_eng (\<lambda>e. e\<lparr>oom := b\<rparr>) w)"
  by (auto simp: step_def good_def rel_def upd_eng_def hold_def config_of_def)

lemma step_irq [keep]: "step T w0 w \<Longrightarrow> step T w0 (env_irq X w)"
  by (auto simp: step_def good_def rel_def upd_eng_def hold_def config_of_def env_irq_def Let_def
      state_interrupt_def)

lemma step_mem:
  assumes "step T w0 w" "wf_mem (mem w) \<Longrightarrow> wf_mem (f (mem w))" "wf_mem (mem w) \<Longrightarrow> keeps_loose (mem w) (f (mem w))"
  shows "step T w0 (upd_mem f w)"
  using assms by (auto simp: step_def good_def rel_def upd_mem_def intro: keeps_loose_trans)

text \<open>Buffer addresses that existed at the start still exist.\<close>

lemma step_bufs: "step T w0 w \<Longrightarrow> i < next_buf (mem w0) \<Longrightarrow> i < next_buf (mem w)"
  by (auto simp: step_def rel_def keeps_loose_def)

lemma step_bufs5: "step T w0 w \<Longrightarrow> i < 5 \<Longrightarrow> i < next_buf (mem w)"
  using wf_memD(5) [of "mem w"] by (auto simp: step_def good_def)

lemma step_buf_reset [keep]:
  "step T w0 w \<Longrightarrow> i < next_buf (mem w0) \<or> i < 5 \<Longrightarrow> step T w0 (upd_mem (buf_reset i) w)"
  by (rule step_mem) (auto intro: wf_buf_reset loose_buf_reset step_bufs step_bufs5)

lemma step_buf_free [keep]: "step T w0 w \<Longrightarrow> step T w0 (upd_mem (buf_free i) w)"
  by (rule step_mem) (auto intro: wf_buf_free loose_buf_free)

section \<open>Rules for computations\<close>

text \<open>The control flow of a function, one rule per construct.\<close>

lemma ensures_bindI:
  "ensures m (\<lambda>(r, w'). P r w') \<Longrightarrow> (\<And>r w'. P r w' \<Longrightarrow> ensures (k r w') Q) \<Longrightarrow>
   ensures (m \<bind> (\<lambda>(r, w'). k r w')) Q"
  by (cases m) auto

lemma ensures_bind_if:
  "ensures (if b then m1 else m2) (\<lambda>(r, w'). step T w0 w') \<Longrightarrow>
   (\<And>r w'. step T w0 w' \<Longrightarrow> ensures (k r w') Q) \<Longrightarrow>
   ensures ((if b then m1 else m2) \<bind> (\<lambda>(r, w'). k r w')) Q"
  by (rule ensures_bindI)

lemma ensures_ret: "P x w \<Longrightarrow> ensures (Some (x, w)) (\<lambda>(r, w'). P r w')"
  by simp

lemma ensures_option:
  "(x = None \<Longrightarrow> ensures a Q) \<Longrightarrow> (\<And>y. x = Some y \<Longrightarrow> ensures (f y) Q) \<Longrightarrow>
   ensures (case x of None \<Rightarrow> a | Some y \<Rightarrow> f y) Q"
  by (cases x) auto

lemma ensures_let: "(\<And>y. y = x \<Longrightarrow> ensures (f y) Q) \<Longrightarrow> ensures (let y = x in f y) Q"
  by (simp add: Let_def)

lemma ensures_weaken:
  "ensures m (\<lambda>(r, w'). step (T r w') w0 w') \<Longrightarrow> (\<And>r w' a. T r w' a = T' r w' a) \<Longrightarrow>
   ensures m (\<lambda>(r, w'). step (T' r w') w0 w')"
  by (auto simp: ensures_def split: option.splits intro: step_cong)

lemma ensures_tail:
  "ensures m (\<lambda>(r, w'). P r w') \<Longrightarrow> (\<And>r w'. P r w' \<Longrightarrow> Q r w') \<Longrightarrow> ensures m (\<lambda>(r, w'). Q r w')"
  by (cases m) auto

lemma ensures_sum:
  "(\<And>a. x = Inl a \<Longrightarrow> ensures (f a) Q) \<Longrightarrow> (\<And>b. x = Inr b \<Longrightarrow> ensures (g b) Q) \<Longrightarrow>
   ensures (case x of Inl a \<Rightarrow> f a | Inr b \<Rightarrow> g b) Q"
  by (cases x) auto

lemma ensures_pair: "(\<And>a b. x = (a, b) \<Longrightarrow> ensures (f a b) Q) \<Longrightarrow> ensures (case x of (a, b) \<Rightarrow> f a b) Q"
  by (cases x) auto

lemma step_if: "(b \<Longrightarrow> step T w0 w) \<Longrightarrow> (\<not> b \<Longrightarrow> step T w0 w') \<Longrightarrow> step T w0 (if b then w else w')"
  by simp

lemmas flow = ensures_bind_if ensures_bindI ensures_ret ensures_if ensures_option ensures_None ensures_pair ensures_sum

locale engine_link =
  fixes X :: "('h, 'u) link"
  assumes enter_step: "step T w0 w \<Longrightarrow> enter X c w = Some (r, w') \<Longrightarrow> step T w0 w'"
    and ask_step: "step T w0 w \<Longrightarrow> ask X i w = Some (x, w') \<Longrightarrow> step T w0 w'"
begin

lemma ask_ok [vcg]: "step T w0 w \<Longrightarrow> ensures (ask X i w) (\<lambda>(r, w'). step T w0 w')"
  by (rule ensuresI) (auto dest: ask_step)

lemma enter_ok [vcg]: "step T w0 w \<Longrightarrow> ensures (enter X c w) (\<lambda>(r, w'). step T w0 w')"
  by (rule ensuresI) (auto dest: enter_step)

lemma js_val_ok [vcg]: "step T w0 w \<Longrightarrow> ensures (js_val X c w) (\<lambda>(v, w'). step (\<lambda>a. T a + cnt v a) w0 w')"
  unfolding js_val_def by (rule ensures_bindI, erule enter_ok, rule ensures_ret, erule step_own)

lemma js_int_ok [vcg]: "step T w0 w \<Longrightarrow> ensures (js_int X c w) (\<lambda>(v, w'). step T w0 w')"
  unfolding js_int_def by (rule ensures_bindI, erule enter_ok, rule ensures_ret)

lemma tocstring_ok [vcg]:
  "step T w0 w \<Longrightarrow> ensures (JS_ToCStringLen X v w) (\<lambda>(p, w'). step (\<lambda>a. T a + cnt (cstr_val p) a) w0 w')"
  unfolding JS_ToCStringLen_def by (rule ensures_bindI, erule enter_ok, rule ensures_ret, erule step_own)

lemma setprop_ok [vcg]:
  "step T w0 w \<Longrightarrow> (\<And>a. cnt v a \<le> T a) \<Longrightarrow>
   ensures (JS_SetPropertyStr X obj name v w) (\<lambda>(rc, w'). step (\<lambda>a. T a - cnt v a) w0 w')"
  unfolding JS_SetPropertyStr_def by (intro js_int_ok step_disown)

lemma defprop_ok [vcg]:
  "step T w0 w \<Longrightarrow> (\<And>a. cnt v a \<le> T a) \<Longrightarrow>
   ensures (JS_DefinePropertyValueStr X obj name v flags w) (\<lambda>(rc, w'). step (\<lambda>a. T a - cnt v a) w0 w')"
  unfolding JS_DefinePropertyValueStr_def by (intro js_int_ok step_disown)

lemma evalfunction_ok [vcg]:
  "step T w0 w \<Longrightarrow> (\<And>a. cnt v a \<le> T a) \<Longrightarrow>
   ensures (JS_EvalFunction X v w) (\<lambda>(r, w'). step (\<lambda>a. T a - cnt v a + cnt r a) w0 w')"
  unfolding JS_EvalFunction_def by (rule js_val_ok [THEN ensures_weaken]) (auto intro: step_disown)

lemma throw_ok [vcg]:
  "step T w0 w \<Longrightarrow> (\<And>a. cnt v a \<le> T a) \<Longrightarrow>
   ensures (JS_Throw X v w) (\<lambda>(r, w'). r = JException \<and> step (\<lambda>a. T a - cnt v a) w0 w')"
  unfolding JS_Throw_def
  by (rule ensures_bindI, rule enter_ok, rule step_disown) simp_all

lemma throwerror_ok [vcg]:
  "step T w0 w \<Longrightarrow> ensures (JS_ThrowError X cls msg w) (\<lambda>(r, w'). r = JException \<and> step T w0 w')"
  unfolding JS_ThrowError_def by (rule ensures_bindI, erule enter_ok) simp

lemma throwoom_ok [vcg]:
  "step T w0 w \<Longrightarrow> ensures (JS_ThrowOutOfMemory X w) (\<lambda>(r, w'). r = JException \<and> step T w0 w')"
  unfolding JS_ThrowOutOfMemory_def by (rule throwerror_ok)

lemma malloc_ok [vcg]: "step T w0 w \<Longrightarrow> ensures (c_malloc X w) (\<lambda>(b, w'). step T w0 w')"
  unfolding c_malloc_def by (rule ensures_ret, erule step_ticks)

end

end
