(* ===== verification/Convert.thy ===== *)
theory Convert
  imports Contract
begin

text \<open>
  Value conversion in both directions: \<open>value_to_out\<close> and \<open>error_to_out\<close> describe engine values and
  exceptions to the host, \<open>value_from_host\<close> builds engine values from what the host hands in. Each
  function enters the engine, so each may run script and host callbacks before it returns.
\<close>

section \<open>Buffers and refs of the engine struct\<close>

text \<open>\<open>buf_append\<close> on the world: \<open>realloc\<close> is called only when the buffer has to grow.\<close>

definition w_append :: "('h, 'u) link \<Rightarrow> nat \<Rightarrow> bytes \<Rightarrow> ('h, 'u) world \<Rightarrow> (int \<times> ('h, 'u) world) option" where
  "w_append X i p w =
     do { (ok, w) \<leftarrow> (if buf_needs_grow i (length p) (mem w) then c_malloc X w else Some (True, w));
          let (rc, m) = buf_append ok i p (mem w);
          Some (rc, w\<lparr>mem := m\<rparr>) }"

text \<open>Reading a \<open>(pointer, length)\<close> pair the host handed in; null stands for the empty string.\<close>

definition in_bytes :: "('h, 'u) world \<Rightarrow> cptr \<Rightarrow> int \<Rightarrow> bytes" where
  "in_bytes w p len = (case cread (mem w) p len of None \<Rightarrow> '''' | Some s \<Rightarrow> s)"

text \<open>\<open>slot_new\<close>: takes ownership of \<open>v\<close>, frees it and returns 0 when no slot can be allocated.\<close>

definition w_slot_new :: "('h, 'u) link \<Rightarrow> jsval \<Rightarrow> ('h, 'u) world \<Rightarrow> (64 word \<times> ('h, 'u) world) option" where
  "w_slot_new X v w =
     do { (ok, w) \<leftarrow> (if slot_grows (refs (eng w)) then c_malloc X w else Some (True, w));
          let (h, t) = slot_new ok v (refs (eng w));
          if h = 0 then Some (0, JS_FreeValue X v w)
          else Some (h, upd_eng (\<lambda>e. e\<lparr>refs := t\<rparr>) w) }"

text \<open>\<open>kmpjs_ref_retain\<close> and \<open>kmpjs_ref_release\<close>.\<close>

definition kmpjs_ref_retain :: "64 word \<Rightarrow> ('h, 'u) world \<Rightarrow> ('h, 'u) world" where
  "kmpjs_ref_retain ref w = upd_eng (\<lambda>e. e\<lparr>refs := ref_retain ref (refs e)\<rparr>) w"

definition kmpjs_ref_release :: "('h, 'u) link \<Rightarrow> 64 word \<Rightarrow> ('h, 'u) world \<Rightarrow> ('h, 'u) world" where
  "kmpjs_ref_release X ref w =
     (let (freed, t) = ref_release ref (refs (eng w));
          w1 = upd_eng (\<lambda>e. e\<lparr>refs := t\<rparr>) w in
      case freed of None \<Rightarrow> w1 | Some v \<Rightarrow> JS_FreeValue X v w1)"

text \<open>\<open>s->val\<close> for a slot that was looked up earlier.\<close>

definition slot_val :: "nat \<Rightarrow> ('h, 'u) world \<Rightarrow> jsval" where
  "slot_val i w = s_val (slots (refs (eng w)) ! i)"

section \<open>From the engine to the host\<close>

definition copy_js_string ::
  "('h, 'u) link \<Rightarrow> jsval \<Rightarrow> nat \<Rightarrow> ('h, 'u) world \<Rightarrow> (int \<times> ('h, 'u) world) option" where
  "copy_js_string X str b w =
     do { (p, w) \<leftarrow> JS_ToCStringLen X str w;
          case p of None \<Rightarrow> Some (-1, w)
          | Some s \<Rightarrow> do { (rc, w) \<leftarrow> w_append X b (fst s) (upd_mem (buf_reset b) w);
                           Some (rc, JS_FreeCString X (Some s) w) } }"

definition object_kind :: "('h, 'u) link \<Rightarrow> 'h \<Rightarrow> jsval \<Rightarrow> int" where
  "object_kind X h v =
     (if q_is_function (lib X) h v then int KMPJS_REF_FUNCTION else 0) OR
     (if 0 < q_is_array (lib X) h v then int KMPJS_REF_ARRAY else 0) OR
     (if 0 \<le> q_promise_state (lib X) h v then int KMPJS_REF_PROMISE else 0)"

text \<open>The bytes of a binary value: \<open>Inl ()\<close> for any other value, else the data (\<open>None\<close> with the
  exception pending) and the buffer to release.\<close>

definition binary_data ::
  "('h, 'u) link \<Rightarrow> jsval \<Rightarrow> ('h, 'u) world \<Rightarrow> ((bytes option \<times> jsval) option \<times> ('h, 'u) world) option" where
  "binary_data X v w =
     (let cid = q_class_id (lib X) (heap w) v; e = eng w in
      if cid = cls_array_buffer e \<or> cid = cls_shared_array_buffer e then
        do { (r, w) \<leftarrow> enter X (CGetArrayBuffer v) w; Some (Some (ret_bytes r, JUndefined), w) }
      else if cls_typed_array_first e \<le> cid \<and> cid \<le> cls_typed_array_last e then
        do { (r, w) \<leftarrow> enter X (CGetTypedArrayBuffer v) w;
             let (buffer, off, len) = ret_typed r;
             let w = own buffer w;
             if JS_IsException buffer then Some (Some (None, buffer), w)
             else do { (r, w) \<leftarrow> enter X (CGetArrayBuffer buffer) w;
                       Some (Some (map_option (\<lambda>d. take len (drop off d)) (ret_bytes r), buffer), w) } }
      else Some (None, w))"

definition binary_to_out ::
  "('h, 'u) link \<Rightarrow> jsval \<Rightarrow> nat \<Rightarrow> kmpjs_value \<Rightarrow> ('h, 'u) world \<Rightarrow> ((int \<times> kmpjs_value) \<times> ('h, 'u) world) option" where
  "binary_to_out X v sbuf out w =
     do { (bd, w) \<leftarrow> binary_data X v w;
          case bd of
            None \<Rightarrow> Some ((0, out), w)
          | Some db \<Rightarrow>
              let out = out\<lparr>v_tag := KMPJS_TAG_EXCEPTION\<rparr> in
              case fst db of
                None \<Rightarrow> Some ((1, out), JS_FreeValue X (snd db) w)
              | Some d \<Rightarrow>
                  do { (rc, w) \<leftarrow> w_append X sbuf d (upd_mem (buf_reset sbuf) w);
                       if rc = 0 then
                         let (p, n) = publish sbuf (mem w) in
                         Some ((1, out\<lparr>v_tag := KMPJS_TAG_BINARY, v_str := p, v_str_len := n\<rparr>),
                               JS_FreeValue X (snd db) w)
                       else do { (_, w) \<leftarrow> JS_ThrowOutOfMemory X w;
                                 Some ((1, out), JS_FreeValue X (snd db) w) } } }"

text \<open>The text of a string, a BigInt or a JSON value, published from \<open>sbuf\<close> under \<open>tag\<close>.\<close>

definition text_to_out ::
  "('h, 'u) link \<Rightarrow> int \<Rightarrow> jsval \<Rightarrow> nat \<Rightarrow> ('h, 'u) world \<Rightarrow> ((int \<times> kmpjs_value) \<times> ('h, 'u) world) option" where
  "text_to_out X tag v sbuf w =
     do { (rc, w) \<leftarrow> copy_js_string X v sbuf w;
          let out = zero_value\<lparr>v_tag := tag\<rparr>;
          if rc \<noteq> 0 then Some ((-1, out), w)
          else let (p, n) = publish sbuf (mem w) in Some ((0, out\<lparr>v_str := p, v_str_len := n\<rparr>), w) }"

text \<open>The branch of \<open>value_to_out\<close> that hands an object out as a ref.\<close>

definition ref_to_out ::
  "('h, 'u) link \<Rightarrow> jsval \<Rightarrow> ('h, 'u) world \<Rightarrow> ((int \<times> kmpjs_value) \<times> ('h, 'u) world) option" where
  "ref_to_out X v w =
     (let out = zero_value\<lparr>v_tag := KMPJS_TAG_REF, v_num := f64_of_int (object_kind X (heap w) v)\<rparr> in
      do { (h, w) \<leftarrow> w_slot_new X v (JS_DupValue v w);
           if h = 0 then do { (_, w) \<leftarrow> JS_ThrowOutOfMemory X w; Some ((-1, out), w) }
           else Some ((0, out\<lparr>v_ref := h\<rparr>), w) })"

text \<open>The last branch: an object leaves as its JSON text.\<close>

definition json_to_out ::
  "('h, 'u) link \<Rightarrow> jsval \<Rightarrow> nat \<Rightarrow> ('h, 'u) world \<Rightarrow> ((int \<times> kmpjs_value) \<times> ('h, 'u) world) option" where
  "json_to_out X v sbuf w =
     do { (json, w) \<leftarrow> js_val X (CJSONStringify v) w;
          if JS_IsException json then Some ((-1, zero_value), w)
          else if JS_IsUndefined json then Some ((0, zero_value\<lparr>v_tag := KMPJS_TAG_OBJECT\<rparr>), w)
          else do { (r, w) \<leftarrow> text_to_out X KMPJS_TAG_OBJECT json sbuf w;
                    Some (r, JS_FreeValue X json w) } }"

definition value_to_out ::
  "('h, 'u) link \<Rightarrow> jsval \<Rightarrow> nat \<Rightarrow> int \<Rightarrow> ('h, 'u) world \<Rightarrow> ((int \<times> kmpjs_value) \<times> ('h, 'u) world) option" where
  "value_to_out X v sbuf flags w =
     (if JS_IsUndefined v then Some ((0, zero_value\<lparr>v_tag := KMPJS_TAG_UNDEFINED\<rparr>), w)
      else if JS_IsNull v then Some ((0, zero_value\<lparr>v_tag := KMPJS_TAG_NULL\<rparr>), w)
      else if JS_IsBool v then
        Some ((0, zero_value\<lparr>v_tag := KMPJS_TAG_BOOL, v_num := f64_of_int (if v = JBool True then 1 else 0)\<rparr>), w)
      else if JS_IsNumber v then
        (case JS_ToFloat64 v of
           None \<Rightarrow> Some ((-1, zero_value\<lparr>v_tag := KMPJS_TAG_NUMBER\<rparr>), w)
         | Some d \<Rightarrow> Some ((0, zero_value\<lparr>v_tag := KMPJS_TAG_NUMBER, v_num := d\<rparr>), w))
      else if JS_IsString v then text_to_out X KMPJS_TAG_STRING v sbuf w
      else if JS_IsBigInt v then text_to_out X KMPJS_TAG_BIGINT v sbuf w
      else if flags AND KMPJS_FLAG_REF_OBJECTS \<noteq> 0 then ref_to_out X v w
      else if q_is_function (lib X) (heap w) v then Some ((0, zero_value\<lparr>v_tag := KMPJS_TAG_OBJECT\<rparr>), w)
      else do { (r, w) \<leftarrow> binary_to_out X v sbuf zero_value w;
                if fst r \<noteq> 0 then Some ((if v_tag (snd r) = KMPJS_TAG_BINARY then 0 else -1, snd r), w)
                else json_to_out X v sbuf w })"

section \<open>Exceptions\<close>

definition take_exception ::
  "('h, 'u) link \<Rightarrow> ('h, 'u) world \<Rightarrow> ((jsval \<times> bool) \<times> ('h, 'u) world) option" where
  "take_exception X w =
     do { (exc, w) \<leftarrow> js_val X CGetException w;
          Some ((exc, JS_IsNull exc \<and> oom (eng w)), upd_eng (\<lambda>e. e\<lparr>oom := False\<rparr>) w) }"

text \<open>\<open>JS_FreeValue(ctx, JS_GetException(ctx))\<close>: the pending exception is dropped.\<close>

definition drop_exception :: "('h, 'u) link \<Rightarrow> ('h, 'u) world \<Rightarrow> (unit \<times> ('h, 'u) world) option" where
  "drop_exception X w = do { (exc, w) \<leftarrow> js_val X CGetException w; Some ((), JS_FreeValue X exc w) }"

text \<open>A message of the shim's own, published from \<open>out_str\<close>.\<close>

definition message_out :: "('h, 'u) link \<Rightarrow> bytes \<Rightarrow> ('h, 'u) world \<Rightarrow> (kmpjs_value \<times> ('h, 'u) world) option" where
  "message_out X msg w =
     do { (_, w) \<leftarrow> w_append X OUT_STR msg (upd_mem (buf_reset OUT_STR) w);
          let (p, n) = publish OUT_STR (mem w);
          Some (zero_value\<lparr>v_tag := KMPJS_TAG_EXCEPTION, v_str := p, v_str_len := n\<rparr>, w) }"

definition fail_message :: "('h, 'u) link \<Rightarrow> bytes \<Rightarrow> ('h, 'u) world \<Rightarrow> ((int \<times> kmpjs_value) \<times> ('h, 'u) world) option" where
  "fail_message X msg w = do { (out, w) \<leftarrow> message_out X msg w; Some ((-1, out), w) }"

definition oom_to_out :: "('h, 'u) link \<Rightarrow> ('h, 'u) world \<Rightarrow> (kmpjs_value \<times> ('h, 'u) world) option" where
  "oom_to_out X w = message_out X ''InternalError: out of memory'' w"

text \<open>The first half of \<open>error_to_out\<close>: the message, \<open>toString()\<close> of the error.\<close>

definition error_text ::
  "('h, 'u) link \<Rightarrow> jsval \<Rightarrow> nat \<Rightarrow> ('h, 'u) world \<Rightarrow> (kmpjs_value \<times> ('h, 'u) world) option" where
  "error_text X exc sbuf w =
     do { (s, w) \<leftarrow> js_val X (CToString exc) w;
          (rc, w) \<leftarrow> (if JS_IsException s then Some (-1, w) else copy_js_string X s sbuf w);
          (_, w) \<leftarrow> (if rc \<noteq> 0 then
             do { (_, w) \<leftarrow> drop_exception X w;
                  w_append X sbuf ''unknown exception'' (upd_mem (buf_reset sbuf) w) }
           else Some (0, w));
          let w = JS_FreeValue X s w;
          let (p, n) = publish sbuf (mem w);
          Some (zero_value\<lparr>v_tag := KMPJS_TAG_EXCEPTION, v_str := p, v_str_len := n\<rparr>, w) }"

text \<open>The second half: the stack of an \<open>Error\<close> object.\<close>

definition error_stack ::
  "('h, 'u) link \<Rightarrow> jsval \<Rightarrow> nat \<Rightarrow> kmpjs_value \<Rightarrow> ('h, 'u) world \<Rightarrow> (kmpjs_value \<times> ('h, 'u) world) option" where
  "error_stack X exc stackbuf out w =
     do { (s, w) \<leftarrow> js_val X (CGetPropertyStr exc ''stack'') w;
          if JS_IsException s then do { (_, w) \<leftarrow> drop_exception X w; Some (out, w) }
          else do { (rc, w) \<leftarrow> (if JS_IsString s then copy_js_string X s stackbuf w else Some (-1, w));
                    let (p, n) = publish stackbuf (mem w);
                    Some (if rc = 0 then out\<lparr>v_stack := p, v_stack_len := n\<rparr> else out, JS_FreeValue X s w) } }"

definition error_to_out ::
  "('h, 'u) link \<Rightarrow> jsval \<Rightarrow> nat \<Rightarrow> nat \<Rightarrow> ('h, 'u) world \<Rightarrow> (kmpjs_value \<times> ('h, 'u) world) option" where
  "error_to_out X exc sbuf stackbuf w =
     do { (out, w) \<leftarrow> error_text X exc sbuf w;
          (out, w) \<leftarrow> (if q_is_error (lib X) (heap w) exc then error_stack X exc stackbuf out w else Some (out, w));
          Some (out, JS_FreeValue X exc w) }"

definition exception_to_out :: "('h, 'u) link \<Rightarrow> ('h, 'u) world \<Rightarrow> (kmpjs_value \<times> ('h, 'u) world) option" where
  "exception_to_out X w =
     do { (x, w) \<leftarrow> take_exception X w;
          if snd x then oom_to_out X w else error_to_out X (fst x) OUT_STR OUT_STACK w }"

section \<open>From the host to the engine\<close>

text \<open>\<open>terminated_copy\<close> of \<open>len\<close> bytes; the terminating NUL is not part of the contents.\<close>

definition terminated_copy :: "('h, 'u) link \<Rightarrow> bytes \<Rightarrow> ('h, 'u) world \<Rightarrow> (bytes option \<times> ('h, 'u) world) option" where
  "terminated_copy X p w = do { (ok, w) \<leftarrow> c_malloc X w; Some (if ok then Some p else None, w) }"

definition throw_message :: "('h, 'u) link \<Rightarrow> bytes \<Rightarrow> ('h, 'u) world \<Rightarrow> (jsval \<times> ('h, 'u) world) option" where
  "throw_message X p w =
     do { (err, w) \<leftarrow> js_val X CNewError w;
          if JS_IsException err then Some (err, w)
          else do { (msg, w) \<leftarrow> js_val X (CNewStringLen p) w;
                    (rc, w) \<leftarrow> JS_DefinePropertyValueStr X err ''message'' msg 3 w;
                    if rc < 0 then Some (JException, JS_FreeValue X err w)
                    else JS_Throw X err w } }"

definition object_from_host ::
  "('h, 'u) link \<Rightarrow> kmpjs_value \<Rightarrow> ('h, 'u) world \<Rightarrow> (jsval \<times> ('h, 'u) world) option" where
  "object_from_host X v w =
     (if v_str v = PNull then Some (JUndefined, w)
      else do { (buf, w) \<leftarrow> terminated_copy X (in_bytes w (v_str v) (v_str_len v)) w;
                case buf of None \<Rightarrow> JS_ThrowOutOfMemory X w
                | Some s \<Rightarrow> js_val X (CParseJSON s ''<host>'') w })"

definition bigint_from_host ::
  "('h, 'u) link \<Rightarrow> kmpjs_value \<Rightarrow> ('h, 'u) world \<Rightarrow> (jsval \<times> ('h, 'u) world) option" where
  "bigint_from_host X v w =
     do { (text, w) \<leftarrow> js_val X (CNewStringLen (in_bytes w (v_str v) (v_str_len v))) w;
          if JS_IsException text then Some (text, w)
          else do { (r, w) \<leftarrow> js_val X (CCall (bigint_ctor (eng w)) JUndefined [text]) w;
                    Some (r, JS_FreeValue X text w) } }"

definition ref_from_host ::
  "('h, 'u) link \<Rightarrow> kmpjs_value \<Rightarrow> ('h, 'u) world \<Rightarrow> (jsval \<times> ('h, 'u) world) option" where
  "ref_from_host X v w =
     (case slot_get (refs (eng w)) (v_ref v) of
        None \<Rightarrow> JS_ThrowError X ''TypeError'' ''invalid or released ref'' w
      | Some i \<Rightarrow> Some (slot_val i w, JS_DupValue (slot_val i w) w))"

definition value_from_host ::
  "('h, 'u) link \<Rightarrow> kmpjs_value \<Rightarrow> ('h, 'u) world \<Rightarrow> (jsval \<times> ('h, 'u) world) option" where
  "value_from_host X v w =
     (if v_tag v = KMPJS_TAG_UNDEFINED then Some (JUndefined, w)
      else if v_tag v = KMPJS_TAG_NULL then Some (JNull, w)
      else if v_tag v = KMPJS_TAG_BOOL then Some (JS_NewBool (\<not> f64_is_zero (v_num v)), w)
      else if v_tag v = KMPJS_TAG_NUMBER then Some (JS_NewFloat64 (v_num v), w)
      else if v_tag v = KMPJS_TAG_STRING then js_val X (CNewStringLen (in_bytes w (v_str v) (v_str_len v))) w
      else if v_tag v = KMPJS_TAG_OBJECT then object_from_host X v w
      else if v_tag v = KMPJS_TAG_REF then ref_from_host X v w
      else if v_tag v = KMPJS_TAG_BIGINT then bigint_from_host X v w
      else if v_tag v = KMPJS_TAG_BINARY then
        js_val X (CNewArrayBufferCopy (in_bytes w (v_str v) (v_str_len v))) w
      else throw_message X (in_bytes w (v_str v) (v_str_len v)) w)"

section \<open>The contract\<close>

lemma cnt_exception [simp]: "JS_IsException v \<Longrightarrow> cnt v a = 0" "JS_IsNull v \<Longrightarrow> cnt v a = 0"
  "JS_IsUndefined v \<Longrightarrow> cnt v a = 0"
  by (simp_all add: js_is_defs)

lemma step_refs:
  assumes "step T w0 w" "wf_table (refs (eng w)) \<Longrightarrow> wf_table t"
    "\<And>a. table_held t a + T' a = table_held (refs (eng w)) a + T a"
  shows "step T' w0 (upd_eng (\<lambda>e. e\<lparr>refs := t\<rparr>) w)"
proof -
  have "hold (eng w) a + T a = hold ((eng w)\<lparr>refs := t\<rparr>) a + T' a" for a
    using assms(3) [of a] by (simp add: hold_def)
  then show ?thesis
    using assms(1,2) by (auto simp: step_def good_def rel_def upd_eng_def config_of_def)
qed

lemma step_retain [keep]: "step T w0 w \<Longrightarrow> step T w0 (kmpjs_ref_retain r w)"
  unfolding kmpjs_ref_retain_def
  using step_refs [of T w0 w "ref_retain r (refs (eng w))" T]
  by (simp add: wf_ref_retain table_held_retain upd_eng_def)

lemma step_release [keep]:
  assumes "step T w0 w" shows "step T w0 (kmpjs_ref_release X r w)"
proof -
  obtain fr t where rel: "ref_release r (refs (eng w)) = (fr, t)" by fastforce
  let ?V = "\<lambda>a. case fr of Some v \<Rightarrow> cnt v a | None \<Rightarrow> 0"
  have "step (\<lambda>a. T a + ?V a) w0 (upd_eng (\<lambda>e. e\<lparr>refs := t\<rparr>) w)"
    using assms wf_ref_release [of "refs (eng w)" r] table_held_release [of "refs (eng w)" _ r] rel
    by (intro step_refs [where T = T]) auto
  then have "step T w0 (case fr of None \<Rightarrow> upd_eng (\<lambda>e. e\<lparr>refs := t\<rparr>) w
      | Some v \<Rightarrow> JS_FreeValue X v (upd_eng (\<lambda>e. e\<lparr>refs := t\<rparr>) w))"
    by (cases fr) (auto intro!: step_cong [OF step_free])
  then show ?thesis by (simp add: kmpjs_ref_release_def rel Let_def)
qed

context engine_link
begin

lemma w_append_ok [vcg]:
  assumes "step T w0 w" "i < next_buf (mem w0) \<or> i < 5"
  shows "ensures (w_append X i p w) (\<lambda>(rc, w'). step T w0 w')"
proof -
  have append: "step T w0 (w1\<lparr>mem := m\<rparr>)" if "step T w0 w1" "buf_append ok i p (mem w1) = (rc, m)" for w1 ok rc m
    using step_mem [of T w0 w1 "\<lambda>_. m"] that assms(2) step_bufs [OF that(1), of i] step_bufs5 [OF that(1), of i]
    by (auto simp: upd_mem_def intro: wf_buf_append loose_buf_append)
  have "ensures (if buf_needs_grow i (length p) (mem w) then c_malloc X w else Some (True, w)) (\<lambda>(ok, w'). step T w0 w')"
    using assms by (auto intro: malloc_ok)
  then show ?thesis unfolding w_append_def
    by (rule ensures_bindI) (auto intro: append split: prod.splits)
qed

lemma w_slot_new_ok [vcg]:
  assumes "step T w0 w" "\<And>a. cnt v a \<le> T a"
  shows "ensures (w_slot_new X v w) (\<lambda>(h, w'). step (\<lambda>a. T a - cnt v a) w0 w')"
proof -
  have new: "ensures (let (h, t) = slot_new ok v (refs (eng w1))
        in if h = 0 then Some (0, JS_FreeValue X v w1) else Some (h, upd_eng (\<lambda>e. e\<lparr>refs := t\<rparr>) w1))
      (\<lambda>(h, w'). step (\<lambda>a. T a - cnt v a) w0 w')" if st: "step T w0 w1" for w1 ok
  proof -
    obtain h t where new: "slot_new ok v (refs (eng w1)) = (h, t)" by fastforce
    have "step (\<lambda>a. T a - cnt v a) w0 (upd_eng (\<lambda>e. e\<lparr>refs := t\<rparr>) w1)" if "h \<noteq> 0"
    proof (rule step_refs [OF st])
      show "wf_table (refs (eng w1)) \<Longrightarrow> wf_table t" using wf_slot_new [of "refs (eng w1)" ok v] new by simp
      have wf: "wf_table (refs (eng w1))" using st by (simp add: step_def good_def)
      show "table_held t a + (T a - cnt v a) = table_held (refs (eng w1)) a + T a" for a
        using table_held_new [OF wf new, of a] that assms(2) [of a] by simp
    qed
    then show ?thesis using step_free [OF st assms(2)] by (simp add: new)
  qed
  have "ensures (if slot_grows (refs (eng w)) then c_malloc X w else Some (True, w)) (\<lambda>(ok, w'). step T w0 w')"
    using assms by (auto intro: malloc_ok)
  then show ?thesis unfolding w_slot_new_def by (rule ensures_bindI) (rule new)
qed

lemma copy_js_string_ok [vcg]:
  assumes "step T w0 w" "i < next_buf (mem w0) \<or> i < 5"
  shows "ensures (copy_js_string X v i w) (\<lambda>(rc, w'). step T w0 w')"
  unfolding copy_js_string_def using assms
  by - (erule conjE | rule conjI flow vcg keep | rule ensures_tail, rule vcg | assumption | rule step_cong | simp add: cstr_val_def)+

lemma binary_data_ok [vcg]:
  assumes "step T w0 w"
  shows "ensures (binary_data X v w) (\<lambda>(bd, w'). step (\<lambda>a. T a + (case bd of None \<Rightarrow> 0 | Some db \<Rightarrow> cnt (snd db) a)) w0 w')"
  unfolding binary_data_def Let_def using assms
  by - (erule conjE | rule conjI flow vcg keep | rule ensures_tail, rule vcg | assumption | rule step_cong | simp)+

lemma binary_to_out_ok [vcg]:
  assumes "step T w0 w" "i < next_buf (mem w0) \<or> i < 5"
  shows "ensures (binary_to_out X v i out w) (\<lambda>(r, w'). step T w0 w')"
  unfolding binary_to_out_def Let_def using assms
  by - (erule conjE | rule conjI flow vcg keep | rule ensures_tail, rule vcg | assumption | rule step_cong | simp)+

lemma text_to_out_ok [vcg]:
  assumes "step T w0 w" "i < next_buf (mem w0) \<or> i < 5"
  shows "ensures (text_to_out X tag v i w) (\<lambda>(r, w'). step T w0 w')"
  unfolding text_to_out_def Let_def using assms
  by - (erule conjE | rule conjI flow vcg keep | rule ensures_tail, rule vcg | assumption | rule step_cong | simp)+

lemma ref_to_out_ok [vcg]:
  assumes "step T w0 w"
  shows "ensures (ref_to_out X v w) (\<lambda>(r, w'). step T w0 w')"
  unfolding ref_to_out_def Let_def using assms
  by - (erule conjE | rule conjI flow vcg keep | rule ensures_tail, rule vcg | assumption | rule step_cong | simp)+

lemma json_to_out_ok [vcg]:
  assumes "step T w0 w" "i < next_buf (mem w0) \<or> i < 5"
  shows "ensures (json_to_out X v i w) (\<lambda>(r, w'). step T w0 w')"
  unfolding json_to_out_def Let_def using assms
  by - (erule conjE | rule conjI flow vcg keep | rule ensures_tail, rule vcg | assumption | rule step_cong | simp)+

lemma value_to_out_ok [vcg]:
  assumes "step T w0 w" "i < next_buf (mem w0) \<or> i < 5"
  shows "ensures (value_to_out X v i flags w) (\<lambda>(r, w'). step T w0 w')"
  unfolding value_to_out_def using assms
  by - (erule conjE | rule conjI flow vcg keep | rule ensures_tail, rule vcg | assumption | rule step_cong | simp)+

lemma take_exception_ok [vcg]:
  assumes "step T w0 w"
  shows "ensures (take_exception X w)
    (\<lambda>(x, w'). step (\<lambda>a. T a + cnt (fst x) a) w0 w' \<and> (snd x \<longrightarrow> fst x = JNull))"
  unfolding take_exception_def using assms
  by - (rule ensures_bindI, erule js_val_ok, auto intro: step_oom simp: JS_IsNull_def)

lemma drop_exception_ok [vcg]:
  assumes "step T w0 w"
  shows "ensures (drop_exception X w) (\<lambda>(r, w'). step T w0 w')"
  unfolding drop_exception_def Let_def using assms
  by - (erule conjE | rule conjI flow vcg keep | rule ensures_tail, rule vcg | assumption | rule step_cong | simp)+

lemma message_out_ok [vcg]:
  assumes "step T w0 w"
  shows "ensures (message_out X msg w) (\<lambda>(r, w'). step T w0 w')"
  unfolding message_out_def Let_def using assms
  by - (erule conjE | rule conjI flow vcg keep | rule ensures_tail, rule vcg | assumption | rule step_cong | simp)+

lemma fail_message_ok [vcg]:
  assumes "step T w0 w"
  shows "ensures (fail_message X msg w) (\<lambda>(r, w'). step T w0 w')"
  unfolding fail_message_def Let_def using assms
  by - (erule conjE | rule conjI flow vcg keep | rule ensures_tail, rule vcg | assumption | rule step_cong | simp)+

lemma oom_to_out_ok [vcg]:
  assumes "step T w0 w"
  shows "ensures (oom_to_out X w) (\<lambda>(r, w'). step T w0 w')"
  unfolding oom_to_out_def Let_def using assms
  by - (erule conjE | rule conjI flow vcg keep | rule ensures_tail, rule vcg | assumption | rule step_cong | simp)+

lemma error_text_ok [vcg]:
  assumes "step T w0 w" "i < next_buf (mem w0) \<or> i < 5"
  shows "ensures (error_text X v i w) (\<lambda>(r, w'). step T w0 w')"
  unfolding error_text_def Let_def using assms
  by - (erule conjE | rule conjI flow vcg keep | rule ensures_tail, rule vcg | assumption | rule step_cong | simp)+

lemma error_stack_ok [vcg]:
  assumes "step T w0 w" "i < next_buf (mem w0) \<or> i < 5"
  shows "ensures (error_stack X v i out w) (\<lambda>(r, w'). step T w0 w')"
  unfolding error_stack_def Let_def using assms
  by - (erule conjE | rule conjI flow vcg keep | rule ensures_tail, rule vcg | assumption | rule step_cong | simp)+

lemma error_to_out_ok [vcg]:
  assumes "step T w0 w" "i < next_buf (mem w0) \<or> i < 5" "j < next_buf (mem w0) \<or> j < 5" "\<And>a. cnt v a \<le> T a"
  shows "ensures (error_to_out X v i j w) (\<lambda>(r, w'). step (\<lambda>a. T a - cnt v a) w0 w')"
  unfolding error_to_out_def Let_def using assms
  by - (erule conjE | rule conjI flow vcg keep | rule ensures_tail, rule vcg | assumption | rule step_cong | simp)+

lemma exception_to_out_ok [vcg]:
  assumes "step T w0 w"
  shows "ensures (exception_to_out X w) (\<lambda>(r, w'). step T w0 w')"
  unfolding exception_to_out_def Let_def using assms
  by - (erule conjE | rule conjI flow vcg keep | rule ensures_tail, rule vcg | assumption | rule step_cong | simp)+

lemma terminated_copy_ok [vcg]:
  assumes "step T w0 w"
  shows "ensures (terminated_copy X p w) (\<lambda>(r, w'). step T w0 w')"
  unfolding terminated_copy_def Let_def using assms
  by - (erule conjE | rule conjI flow vcg keep | rule ensures_tail, rule vcg | assumption | rule step_cong | simp)+

lemma throw_message_ok [vcg]:
  assumes "step T w0 w"
  shows "ensures (throw_message X p w) (\<lambda>(r, w'). r = JException \<and> step T w0 w')"
  unfolding throw_message_def Let_def using assms
  by - (erule conjE | rule conjI flow vcg keep | rule ensures_tail, rule vcg | assumption | rule step_cong | simp add: JS_IsException_def)+

lemma object_from_host_ok [vcg]:
  assumes "step T w0 w"
  shows "ensures (object_from_host X v w) (\<lambda>(r, w'). step (\<lambda>a. T a + cnt r a) w0 w')"
  unfolding object_from_host_def Let_def using assms
  by - (erule conjE | rule conjI flow vcg keep | rule ensures_tail, rule vcg | assumption | rule step_cong | simp)+

lemma bigint_from_host_ok [vcg]:
  assumes "step T w0 w"
  shows "ensures (bigint_from_host X v w) (\<lambda>(r, w'). step (\<lambda>a. T a + cnt r a) w0 w')"
  unfolding bigint_from_host_def Let_def using assms
  by - (erule conjE | rule conjI flow vcg keep | rule ensures_tail, rule vcg | assumption | rule step_cong | simp)+

lemma ref_from_host_ok [vcg]:
  assumes "step T w0 w"
  shows "ensures (ref_from_host X v w) (\<lambda>(r, w'). step (\<lambda>a. T a + cnt r a) w0 w')"
  unfolding ref_from_host_def Let_def using assms
  by - (erule conjE | rule conjI flow vcg keep | rule ensures_tail, rule vcg | assumption | rule step_cong | simp)+

lemma value_from_host_ok [vcg]:
  assumes "step T w0 w"
  shows "ensures (value_from_host X v w) (\<lambda>(r, w'). step (\<lambda>a. T a + cnt r a) w0 w')"
  unfolding value_from_host_def Let_def using assms
  by - (erule conjE | rule conjI flow vcg keep | rule ensures_tail, rule vcg | assumption | rule step_cong | simp add: new_float_is_number JS_NewBool_def)+

end

end
