(* ===== verification/Jobs.thy ===== *)
theory Jobs
  imports Convert "HOL-Library.Multiset"
begin

text \<open>
  Runs, microtasks and unhandled rejections: \<open>run_begin\<close> and \<open>run_end\<close> bracket every call that enters
  script, the outermost call drains the job queue, and the promises that were rejected without a
  handler are reported after the drain.

  The loops of this part end only when the engine's job queue is empty, so they are bounded by the
  link's fuel and return \<open>None\<close> when it runs out.
\<close>

section \<open>The list of rejected promises\<close>

fun find_rejected :: "kmp_rejected list \<Rightarrow> jsval \<Rightarrow> nat option" where
  "find_rejected [] promise = None"
| "find_rejected (r # rs) promise =
     (if JS_VALUE_GET_PTR (r_promise r) = JS_VALUE_GET_PTR promise then Some 0
      else map_option Suc (find_rejected rs promise))"

text \<open>\<open>rejected[i] = rejected[--rejected_count]\<close>\<close>

definition swap_remove :: "nat \<Rightarrow> 'a list \<Rightarrow> 'a list" where
  "swap_remove i xs = butlast (xs[i := last xs])"

definition forget_rejected :: "('h, 'u) link \<Rightarrow> nat \<Rightarrow> ('h, 'u) world \<Rightarrow> ('h, 'u) world" where
  "forget_rejected X i w =
     (let r = rejected (eng w) ! i;
          w1 = JS_FreeValue X (r_reason r) (JS_FreeValue X (r_promise r) w) in
      upd_eng (\<lambda>e. e\<lparr>rejected := swap_remove i (rejected e)\<rparr>) w1)"

definition add_rejected :: "jsval \<Rightarrow> jsval \<Rightarrow> ('h, 'u) world \<Rightarrow> ('h, 'u) world" where
  "add_rejected promise reason w =
     upd_eng (\<lambda>e. e\<lparr>rejected := rejected e @ [\<lparr>r_promise = promise, r_reason = reason\<rparr>]\<rparr>)
       (JS_DupValue reason (JS_DupValue promise w))"

definition kmp_rejection_tracker ::
  "('h, 'u) link \<Rightarrow> jsval \<Rightarrow> jsval \<Rightarrow> bool \<Rightarrow> ('h, 'u) world \<Rightarrow> (unit \<times> ('h, 'u) world) option" where
  "kmp_rejection_tracker X promise reason is_handled w =
     (case find_rejected (rejected (eng w)) promise of
        Some i \<Rightarrow> Some ((), if is_handled then forget_rejected X i w else w)
      | None \<Rightarrow>
          if is_handled then Some ((), w)
          else if int (length (rejected (eng w))) = rejected_cap (eng w) then
            do { (ok, w) \<leftarrow> c_malloc X w;
                 if \<not> ok then Some ((), w)
                 else Some ((), add_rejected promise reason
                   (upd_eng (\<lambda>e. e\<lparr>rejected_cap := if rejected_cap e \<noteq> 0 then rejected_cap e * 2 else 4\<rparr>) w)) }
          else Some ((), add_rejected promise reason w))"

text \<open>\<open>while (e->rejected_count > 0) forget_rejected(e, e->rejected_count - 1);\<close>\<close>

fun forget_n :: "('h, 'u) link \<Rightarrow> nat \<Rightarrow> ('h, 'u) world \<Rightarrow> ('h, 'u) world" where
  "forget_n X 0 w = w"
| "forget_n X (Suc n) w = forget_n X n (forget_rejected X n w)"

definition forget_all :: "('h, 'u) link \<Rightarrow> ('h, 'u) world \<Rightarrow> ('h, 'u) world" where
  "forget_all X w = forget_n X (length (rejected (eng w))) w"

section \<open>Running jobs\<close>

fun discard_loop :: "nat \<Rightarrow> ('h, 'u) link \<Rightarrow> ('h, 'u) world \<Rightarrow> (unit \<times> ('h, 'u) world) option" where
  "discard_loop 0 X w = None"
| "discard_loop (Suc n) X w =
     do { (rc, w) \<leftarrow> js_int X CExecutePendingJob w;
          if rc \<noteq> 0 then do { (_, w) \<leftarrow> drop_exception X w; discard_loop n X w }
          else Some ((), w) }"

definition discard_jobs :: "('h, 'u) link \<Rightarrow> ('h, 'u) world \<Rightarrow> (unit \<times> ('h, 'u) world) option" where
  "discard_jobs X w =
     do { (_, w) \<leftarrow> enter X (CSetMaxStackSize 1) w;
          (_, w) \<leftarrow> discard_loop (fuel X) X w;
          (_, w) \<leftarrow> enter X (CSetMaxStackSize (max_stack_size (eng w))) w;
          Some ((), forget_all X w) }"

fun drain_loop :: "nat \<Rightarrow> ('h, 'u) link \<Rightarrow> ('h, 'u) world \<Rightarrow> (int \<times> ('h, 'u) world) option" where
  "drain_loop 0 X w = None"
| "drain_loop (Suc n) X w =
     (let w = env_irq X w in
      if state_poll (state (eng w)) then
        do { (_, w) \<leftarrow> JS_ThrowError X ''InternalError'' ''interrupted'' w; Some (-1, w) }
      else do { (rc, w) \<leftarrow> js_int X CExecutePendingJob w;
                if rc \<le> 0 then Some (rc, w) else drain_loop n X w })"

definition drain_jobs :: "('h, 'u) link \<Rightarrow> ('h, 'u) world \<Rightarrow> (int \<times> ('h, 'u) world) option" where
  "drain_jobs X w =
     do { (rc, w) \<leftarrow> drain_loop (fuel X) X w;
          if rc < 0 then
            do { (exc, w) \<leftarrow> js_val X CGetException w;
                 (_, w) \<leftarrow> discard_jobs X w;
                 (_, w) \<leftarrow> JS_Throw X exc w;
                 Some (rc, w) }
          else Some (rc, w) }"

section \<open>Runs\<close>

definition run_begin :: "('h, 'u) link \<Rightarrow> ('h, 'u) world \<Rightarrow> (bool \<times> ('h, 'u) world) option" where
  "run_begin X w =
     (let w = env_irq X w; (s, outermost) = state_begin (state (eng w));
          w = upd_eng (\<lambda>e. e\<lparr>state := s\<rparr>) w in
      if outermost then
        do { (_, w) \<leftarrow> enter X CUpdateStackTop w; Some (True, upd_eng (\<lambda>e. e\<lparr>oom := False\<rparr>) w) }
      else Some (False, w))"

definition run_end :: "('h, 'u) link \<Rightarrow> bool \<Rightarrow> ('h, 'u) world \<Rightarrow> ('h, 'u) world" where
  "run_end X outermost w =
     (let w = env_irq X w in upd_eng (\<lambda>e. e\<lparr>state := state_end outermost (state e)\<rparr>) w)"

section \<open>Reporting\<close>

text \<open>A value as the host sees it: the bytes its pointers lead to at this moment.\<close>

definition resolve :: "('h, 'u) world \<Rightarrow> kmpjs_value \<Rightarrow> kmpjs_value" where
  "resolve w v = v\<lparr>
     v_str := (case cread (mem w) (v_str v) (v_str_len v) of None \<Rightarrow> v_str v | Some s \<Rightarrow> PStr s),
     v_stack := (case cread (mem w) (v_stack v) (v_stack_len v) of None \<Rightarrow> v_stack v | Some s \<Rightarrow> PStr s)\<rparr>"

definition report_one :: "('h, 'u) link \<Rightarrow> kmpjs_value \<Rightarrow> ('h, 'u) world \<Rightarrow> (unit \<times> ('h, 'u) world) option" where
  "report_one X reason w =
     (if has_rejection (eng w) then do { (_, w) \<leftarrow> ask X (HRejection (resolve w reason)) w; Some ((), w) }
      else if has_log (eng w) then
        do { (_, w) \<leftarrow> w_append X LOG_LINE ''Unhandled promise rejection: '' (upd_mem (buf_reset LOG_LINE) w);
             (_, w) \<leftarrow> w_append X LOG_LINE (in_bytes w (v_str reason) (v_str_len reason)) w;
             (_, w) \<leftarrow> ask X (HLog (buf_bytes (mem w) LOG_LINE)) w;
             Some ((), w) }
      else Some ((), w))"

fun report_loop :: "nat \<Rightarrow> ('h, 'u) link \<Rightarrow> ('h, 'u) world \<Rightarrow> (unit \<times> ('h, 'u) world) option" where
  "report_loop 0 X w = None"
| "report_loop (Suc n) X w =
     (if rejected (eng w) = [] then Some ((), w)
      else
        let r = r_reason (last (rejected (eng w))) in
        do { (reason, w) \<leftarrow> error_to_out X r REJ_STR REJ_STACK
               (forget_rejected X (length (rejected (eng w)) - 1) (JS_DupValue r w));
             (_, w) \<leftarrow> report_one X reason w;
             report_loop n X w })"

definition report_rejections :: "('h, 'u) link \<Rightarrow> ('h, 'u) world \<Rightarrow> (unit \<times> ('h, 'u) world) option" where
  "report_rejections X w = report_loop (fuel X) X w"

text \<open>\<open>unwrap_promise\<close> consumes \<open>v\<close>; it returns the value and the flags to convert it with. \<open>module\<close>
  is the address of the module definition when a module was evaluated.\<close>

definition JS_PROMISE_PENDING :: int where [simp]: "JS_PROMISE_PENDING = 0"
definition JS_PROMISE_FULFILLED :: int where [simp]: "JS_PROMISE_FULFILLED = 1"
definition JS_PROMISE_REJECTED :: int where [simp]: "JS_PROMISE_REJECTED = 2"

definition unwrap_promise ::
  "('h, 'u) link \<Rightarrow> jsval \<Rightarrow> int \<Rightarrow> nat option \<Rightarrow> ('h, 'u) world \<Rightarrow> ((jsval \<times> int) \<times> ('h, 'u) world) option" where
  "unwrap_promise X v flags module w =
     (let st = q_promise_state (lib X) (heap w) v in
      if st = JS_PROMISE_FULFILLED then
        do { (r, w) \<leftarrow> js_val X (case module of Some m \<Rightarrow> CGetModuleNamespace m | None \<Rightarrow> CPromiseResult v) w;
             Some ((r, flags), JS_FreeValue X v w) }
      else if st = JS_PROMISE_REJECTED then
        do { (r, w) \<leftarrow> js_val X (CPromiseResult v) w;
             let w = (case find_rejected (rejected (eng w)) v of Some i \<Rightarrow> forget_rejected X i w | None \<Rightarrow> w);
             (x, w) \<leftarrow> JS_Throw X r (JS_FreeValue X v w);
             Some ((x, flags), w) }
      else if st = JS_PROMISE_PENDING then Some ((v, flags OR KMPJS_FLAG_REF_OBJECTS), w)
      else Some ((v, flags), w))"

section \<open>The contract\<close>

subsection \<open>The list of rejected promises\<close>

lemma last_swap: "i < length xs \<Longrightarrow> last (xs[i := last xs]) = last xs"
  by (cases "xs = []") (auto simp: last_list_update)

lemma swap_remove_sum:
  fixes f :: "'a \<Rightarrow> nat"
  assumes "i < length xs"
  shows "(\<Sum>x\<leftarrow>swap_remove i xs. f x) + f (xs ! i) = (\<Sum>x\<leftarrow>xs. f x)"
proof -
  have "xs[i := last xs] \<noteq> []" using assms by auto
  then show ?thesis
    using sum_map_update [OF assms, of f "last xs"] sum_map_butlast [of "xs[i := last xs]" f] last_swap [OF assms]
    by (simp add: swap_remove_def)
qed

lemma swap_remove_mset:
  assumes "i < length xs"
  shows "mset (swap_remove i xs) + {#xs ! i#} = mset xs"
proof -
  have "xs[i := last xs] \<noteq> []" using assms by auto
  from append_butlast_last_id [OF this] have "mset (swap_remove i xs) + {#last xs#} = mset (xs[i := last xs])"
    unfolding swap_remove_def last_swap [OF assms] by (metis mset_append mset_single_iff mset.simps)
  with assms show ?thesis by (simp add: mset_update)
qed

lemma swap_remove_distinct:
  assumes "i < length xs" "distinct (map f xs)"
  shows "distinct (map f (swap_remove i xs))"
proof -
  have "mset (map f xs) = mset (map f (swap_remove i xs)) + {#f (xs ! i)#}"
    using arg_cong [OF swap_remove_mset [OF assms(1)], of "image_mset f"] by simp
  then have "mset (map f xs) = mset (f (xs ! i) # map f (swap_remove i xs))" by simp
  with assms(2) have "distinct (f (xs ! i) # map f (swap_remove i xs))"
    using mset_eq_imp_distinct_iff by blast
  then show ?thesis by simp
qed

lemma swap_remove_length [simp]: "length (swap_remove i xs) = length xs - 1"
  by (simp add: swap_remove_def)

lemma find_rejected_None:
  "find_rejected rs p = None \<longleftrightarrow> JS_VALUE_GET_PTR p \<notin> (\<lambda>r. JS_VALUE_GET_PTR (r_promise r)) ` set rs"
  by (induction rs) auto

lemma find_rejected_Some:
  "find_rejected rs p = Some i \<Longrightarrow> i < length rs \<and> JS_VALUE_GET_PTR (r_promise (rs ! i)) = JS_VALUE_GET_PTR p"
  by (induction rs arbitrary: i) (auto split: if_splits)

text \<open>A change of the list that moves references between it and the temporaries.\<close>

definition rejected_held :: "kmp_rejected list \<Rightarrow> nat \<Rightarrow> nat" where
  "rejected_held rs a = (\<Sum>r\<leftarrow>rs. cnt (r_promise r) a + cnt (r_reason r) a)"

lemma step_rejected:
  assumes "step T w0 w" "\<And>a. rejected_held rs a + T' a = rejected_held (rejected (eng w)) a + T a"
    "distinct (map (\<lambda>r. JS_VALUE_GET_PTR (r_promise r)) (rejected (eng w))) \<Longrightarrow>
     distinct (map (\<lambda>r. JS_VALUE_GET_PTR (r_promise r)) rs)"
  shows "step T' w0 (upd_eng (\<lambda>e. e\<lparr>rejected := rs\<rparr>) w)"
proof -
  have "hold (eng w) a + T a = hold ((eng w)\<lparr>rejected := rs\<rparr>) a + T' a" for a
    using assms(2) [of a] by (simp add: hold_def rejected_held_def)
  then show ?thesis
    using assms(1,3) by (auto simp: step_def good_def rel_def upd_eng_def config_of_def)
qed

lemma eng_free [simp]: "eng (JS_FreeValue X v w) = eng w"
  by (simp add: JS_FreeValue_def disown_def)

lemma eng_dup [simp]: "eng (JS_DupValue v w) = eng w"
  by (simp add: JS_DupValue_def own_def)

text \<open>Releasing what the list holds and dropping the entry commute, as far as the contract goes.\<close>

lemma free_upd_eng: "upd_eng f (JS_FreeValue X v w) = JS_FreeValue X v (upd_eng f w)"
  by (cases v) (simp_all add: upd_eng_def JS_FreeValue_def disown_def)

lemma forget_rejected_alt:
  "forget_rejected X i w =
     (let r = rejected (eng w) ! i;
          w1 = upd_eng (\<lambda>e. e\<lparr>rejected := swap_remove i (rejected (eng w))\<rparr>) w in
      JS_FreeValue X (r_reason r) (JS_FreeValue X (r_promise r) w1))"
  unfolding forget_rejected_def Let_def free_upd_eng by (simp add: upd_eng_def)

lemma step_forget:
  assumes "step T w0 w" "i < length (rejected (eng w))"
  shows "step T w0 (forget_rejected X i w)"
proof -
  let ?r = "rejected (eng w) ! i"
  let ?w1 = "upd_eng (\<lambda>e. e\<lparr>rejected := swap_remove i (rejected (eng w))\<rparr>) w"
  have "step (\<lambda>a. T a + (cnt (r_promise ?r) a + cnt (r_reason ?r) a)) w0 ?w1"
    using swap_remove_sum [OF assms(2), of "\<lambda>r. cnt (r_promise r) a + cnt (r_reason r) a" for a]
    by (intro step_rejected [OF assms(1)]) (simp_all add: rejected_held_def swap_remove_distinct assms(2))
  then show ?thesis
    unfolding forget_rejected_alt Let_def by (intro step_cong [OF step_free [OF step_free]]) auto
qed

lemma forget_rejected_length [simp]:
  "rejected (eng (forget_rejected X i w)) = swap_remove i (rejected (eng w))"
  by (simp add: forget_rejected_def Let_def upd_eng_def)

lemma step_forget_n:
  "step T w0 w \<Longrightarrow> n = length (rejected (eng w)) \<Longrightarrow>
   step T w0 (forget_n X n w) \<and> rejected (eng (forget_n X n w)) = []"
proof (induction n arbitrary: w)
  case (Suc n)
  have "step T w0 (forget_rejected X n w)" using step_forget [OF Suc.prems(1)] Suc.prems(2) by simp
  moreover have "n = length (rejected (eng (forget_rejected X n w)))" using Suc.prems(2) by simp
  ultimately show ?case unfolding forget_n.simps by (rule Suc.IH)
qed simp

lemma step_forget_all [keep]: "step T w0 w \<Longrightarrow> step T w0 (forget_all X w)"
  using step_forget_n [of T w0 w] by (simp add: forget_all_def)

lemma forget_all_empty: "step T w0 w \<Longrightarrow> rejected (eng (forget_all X w)) = []"
  using step_forget_n [of T w0 w] by (simp add: forget_all_def)

lemma step_rejected_cap [keep]: "step T w0 w \<Longrightarrow> step T w0 (upd_eng (\<lambda>e. e\<lparr>rejected_cap := f e\<rparr>) w)"
  by (auto simp: step_def good_def rel_def upd_eng_def hold_def config_of_def)

lemma step_add_rejected:
  assumes "step T w0 w" "find_rejected (rejected (eng w)) p = None"
  shows "step T w0 (add_rejected p r w)"
proof -
  let ?w = "JS_DupValue r (JS_DupValue p w)"
  have "step T w0 (upd_eng (\<lambda>e. e\<lparr>rejected := rejected (eng w) @ [\<lparr>r_promise = p, r_reason = r\<rparr>]\<rparr>) ?w)"
    using assms
    by (intro step_rejected [OF step_dup [OF step_dup]]) (auto simp: rejected_held_def find_rejected_None)
  then show ?thesis by (simp add: add_rejected_def upd_eng_def)
qed

subsection \<open>Runs\<close>

lemma own_arith:
  fixes t r v :: nat
  shows "v \<le> t \<Longrightarrow> r \<le> t + r - v" "t + r - v - r = t - v"
  by simp_all

text \<open>\<open>opened T w0 out w1\<close>: a run that a call starting in \<open>w0\<close> has opened with \<open>run_begin\<close>.\<close>

definition opened :: "(nat \<Rightarrow> nat) \<Rightarrow> ('h, 'u) world \<Rightarrow> bool \<Rightarrow> ('h, 'u) world \<Rightarrow> bool" where
  "opened T w0 out w1 =
     (good T w1 \<and> state (eng w1) \<noteq> KMP_IDLE \<and> (out \<longleftrightarrow> state (eng w0) = KMP_IDLE) \<and>
      (state (eng w0) = KMP_INTERRUPTED \<longrightarrow> state (eng w1) = KMP_INTERRUPTED) \<and>
      prefix (modules (eng w0)) (modules (eng w1)) \<and> config_of (eng w1) = config_of (eng w0) \<and>
      keeps_loose (mem w0) (mem w1))"

lemma opened_start: "opened T w0 out w1 \<Longrightarrow> step T w1 w1"
  by (simp add: opened_def step_start)

lemma opened_trans: "opened T w0 out w1 \<Longrightarrow> step T' w1 w2 \<Longrightarrow> opened T' w0 out w2"
  unfolding opened_def step_def rel_def
  by (metis keeps_loose_trans prefix_order.order_trans)

text \<open>Closing the run the call opened.\<close>

lemma opened_end [keep]:
  assumes "opened T0 w0 out w1" "step T w1 w"
  shows "step T w0 (run_end X out w)"
proof -
  have "opened T w0 out (env_irq X w)" using opened_trans [OF assms(1) step_irq [OF assms(2)]] .
  then show ?thesis
    unfolding run_end_def Let_def
    by (cases out) (auto simp: opened_def step_def good_def rel_def upd_eng_def hold_def config_of_def state_end_def)
qed

lemma opened_begin:
  assumes "step T w0 w" "state_begin (state (eng w)) = (s, out)"
  shows "opened T w0 out (upd_eng (\<lambda>e. e\<lparr>state := s\<rparr>) w)"
  using assms
  by (auto simp: opened_def step_def good_def rel_def upd_eng_def hold_def config_of_def state_begin_def split: if_splits)

context engine_link
begin

lemma run_begin_ok [vcg]:
  assumes "step T w0 w"
  shows "ensures (run_begin X w) (\<lambda>(out, w1). opened T w0 out w1 \<and> step T w1 w1)"
proof -
  obtain s out where b: "state_begin (state (eng (env_irq X w))) = (s, out)" by fastforce
  let ?w1 = "upd_eng (\<lambda>e. e\<lparr>state := s\<rparr>) (env_irq X w)"
  note op = opened_begin [OF step_irq [OF assms] b]
  have "ensures (enter X CUpdateStackTop ?w1) (\<lambda>(r, w'). opened T w0 out (upd_eng (\<lambda>e. e\<lparr>oom := False\<rparr>) w'))"
    by (rule ensures_tail [OF enter_ok [OF opened_start [OF op]]]) (rule opened_trans [OF op step_oom])
  with op show ?thesis
    unfolding run_begin_def Let_def b prod.case
    by (cases out) (auto intro!: ensures_bindI opened_start)
qed

lemma tracker_ok [vcg]:
  assumes "step T w0 w"
  shows "ensures (kmp_rejection_tracker X p r h w) (\<lambda>(u, w'). step T w0 w')"
proof -
  have cap: "step T w0 (add_rejected p r (upd_eng (\<lambda>e. e\<lparr>rejected_cap := f e\<rparr>) w1))"
    if "step T w0 w1" "find_rejected (rejected (eng w1)) p = None" for w1 f
    using that by (intro step_add_rejected step_rejected_cap) (auto simp: upd_eng_def)
  show ?thesis
    unfolding kmp_rejection_tracker_def c_malloc_def using assms
    by (auto intro!: step_forget step_add_rejected cap step_ticks dest: find_rejected_Some split: option.splits)
qed

lemma discard_loop_ok [vcg]:
  "step T w0 w \<Longrightarrow> ensures (discard_loop n X w) (\<lambda>(u, w'). step T w0 w')"
proof (induction n arbitrary: w)
  case (Suc n)
  show ?case unfolding discard_loop.simps using Suc.prems
    by - (rule flow vcg Suc.IH | assumption)+
qed simp

lemma discard_jobs_ok [vcg]:
  assumes "step T w0 w"
  shows "ensures (discard_jobs X w) (\<lambda>(u, w'). step T w0 w')"
  unfolding discard_jobs_def using assms
  by - (erule conjE | rule conjI flow vcg keep | rule ensures_tail, rule vcg | assumption | rule step_cong | simp)+

lemma drain_loop_ok [vcg]:
  "step T w0 w \<Longrightarrow> ensures (drain_loop n X w) (\<lambda>(u, w'). step T w0 w')"
proof (induction n arbitrary: w)
  case (Suc n)
  show ?case unfolding drain_loop.simps Let_def using Suc.prems
    by - (erule conjE | rule flow vcg Suc.IH keep | assumption)+
qed simp

lemma drain_jobs_ok [vcg]:
  assumes "step T w0 w"
  shows "ensures (drain_jobs X w) (\<lambda>(u, w'). step T w0 w')"
  unfolding drain_jobs_def using assms
  by - (erule conjE | rule conjI flow vcg keep | rule ensures_tail, rule vcg | assumption | rule step_cong | simp)+

lemma report_one_ok [vcg]:
  assumes "step T w0 w"
  shows "ensures (report_one X r w) (\<lambda>(u, w'). step T w0 w')"
  unfolding report_one_def using assms
  by - (erule conjE | rule conjI flow vcg keep | rule ensures_tail, rule vcg | assumption | rule step_cong | simp)+

lemma report_loop_ok [vcg]:
  "step T w0 w \<Longrightarrow> ensures (report_loop n X w) (\<lambda>(u, w'). step T w0 w')"
proof (induction n arbitrary: w)
  case (Suc n)
  let ?r = "r_reason (last (rejected (eng w)))"
  show ?case
  proof (cases "rejected (eng w) = []")
    case False
    then have "step (\<lambda>a. T a + cnt ?r a) w0 (forget_rejected X (length (rejected (eng w)) - 1) (JS_DupValue ?r w))"
      by (intro step_forget step_dup Suc.prems) auto
    from error_to_out_ok [OF this, of REJ_STR REJ_STACK ?r]
    have "ensures (error_to_out X ?r REJ_STR REJ_STACK
        (forget_rejected X (length (rejected (eng w)) - 1) (JS_DupValue ?r w))) (\<lambda>(u, w'). step T w0 w')"
      by simp
    with False show ?thesis
      unfolding report_loop.simps Let_def by - (assumption | rule flow vcg Suc.IH | simp)+
  qed (use Suc.prems in simp)
qed simp

lemma report_rejections_ok [vcg]:
  "step T w0 w \<Longrightarrow> ensures (report_rejections X w) (\<lambda>(u, w'). step T w0 w')"
  unfolding report_rejections_def by (rule report_loop_ok)

lemma unwrap_promise_ok [vcg]:
  assumes "step T w0 w" "\<And>a. cnt v a \<le> T a"
  shows "ensures (unwrap_promise X v flags m w) (\<lambda>(r, w'). step (\<lambda>a. T a - cnt v a + cnt (fst r) a) w0 w')"
proof -
  have forget: "step T1 w0 (case find_rejected (rejected (eng w1)) v of Some i \<Rightarrow> forget_rejected X i w1 | None \<Rightarrow> w1)"
    if "step T1 w0 w1" for T1 w1
    using that by (auto intro: step_forget dest: find_rejected_Some split: option.splits)
  show ?thesis
    unfolding unwrap_promise_def Let_def using assms
    by - (erule conjE | rule conjI flow vcg keep forget | rule ensures_tail, rule vcg | assumption | rule step_cong | simp add: own_arith trans_le_add1)+
qed

end

end
