(* ===== verification/Bytecode.thy ===== *)
theory Bytecode
  imports Prelude
begin

text \<open>
  The bytecode container: the engine's serialized object behind a 52-byte header that names the kind
  of program and the engine commit. The commit is a parameter (\<open>KMPJS_UPSTREAM_COMMIT\<close> comes from the
  build); it has 40 bytes.
\<close>

definition KMPJS_BYTECODE_HEADER_SIZE :: nat where
  "KMPJS_BYTECODE_HEADER_SIZE = 52"

definition KMPJS_COMPILE_MODULE :: int where [simp]: "KMPJS_COMPILE_MODULE = 1"
definition KMPJS_COMPILE_STRIP_SOURCE :: int where [simp]: "KMPJS_COMPILE_STRIP_SOURCE = 2"
definition KMPJS_COMPILE_STRIP_DEBUG :: int where [simp]: "KMPJS_COMPILE_STRIP_DEBUG = 4"

record kmp_bc_header =
  magic :: bytes
  header_len :: "32 word"
  kind :: "32 word"
  upstream :: bytes

section \<open>The header in memory\<close>

text \<open>A \<open>uint32_t\<close> as the four bytes of a little-endian machine, and back.\<close>

definition byte_at :: "32 word \<Rightarrow> nat \<Rightarrow> char" where
  "byte_at w i = char_of (unat (drop_bit (8 * i) w))"

definition le32 :: "32 word \<Rightarrow> bytes" where
  "le32 w = [byte_at w 0, byte_at w 1, byte_at w 2, byte_at w 3]"

definition of_le32 :: "bytes \<Rightarrow> 32 word" where
  "of_le32 bs = of_char (bs ! 0) + push_bit 8 (of_char (bs ! 1)) + push_bit 16 (of_char (bs ! 2)) +
     push_bit 24 (of_char (bs ! 3))"

definition header_bytes :: "kmp_bc_header \<Rightarrow> bytes" where
  "header_bytes h = magic h @ le32 (header_len h) @ le32 (kind h) @ upstream h"

definition read_header :: "bytes \<Rightarrow> kmp_bc_header" where
  "read_header bs = \<lparr>magic = take 4 bs, header_len = of_le32 (take 4 (drop 4 bs)),
     kind = of_le32 (take 4 (drop 8 bs)), upstream = take 40 (drop 12 bs)\<rparr>"

text \<open>The header \<open>kmpjs_compile\<close> writes.\<close>

definition compile_header :: "bytes \<Rightarrow> int \<Rightarrow> kmp_bc_header" where
  "compile_header commit flags = \<lparr>magic = ''QJKB'', header_len = of_nat KMPJS_BYTECODE_HEADER_SIZE,
     kind = (if flags AND KMPJS_COMPILE_MODULE \<noteq> 0 then 1 else 0), upstream = commit\<rparr>"

section \<open>Checking a header\<close>

text \<open>\<open>%.12s\<close>: at most 12 bytes, up to the first NUL.\<close>

definition fmt_s :: "nat \<Rightarrow> bytes \<Rightarrow> bytes" where
  "fmt_s n s = takeWhile (\<lambda>c. c \<noteq> CHR 0x00) (take n s)"

text \<open>\<open>%s\<close> and the other functions that read a C string stop at the first NUL.\<close>

definition c_str :: "bytes \<Rightarrow> bytes" where
  "c_str s = takeWhile (\<lambda>c. c \<noteq> CHR 0x00) s"

text \<open>\<open>snprintf\<close> into a buffer of \<open>n\<close> bytes keeps \<open>n - 1\<close>.\<close>

definition snprintf :: "nat \<Rightarrow> bytes \<Rightarrow> bytes" where
  "snprintf n s = take (n - 1) s"

text \<open>\<open>check_bytecode_header\<close>: the message of the failure, or the kind and the serialized body.\<close>

definition check_bytecode_header :: "bytes \<Rightarrow> bytes \<Rightarrow> bytes + (nat \<times> bytes)" where
  "check_bytecode_header commit buf =
     (if length buf < 52 \<or> take 4 buf \<noteq> ''QJKB'' then Inl ''not QuickJS bytecode produced by this SDK''
      else
        let hdr = read_header buf in
        if header_len hdr \<noteq> of_nat KMPJS_BYTECODE_HEADER_SIZE \<or> kind hdr > 1
        then Inl ''unsupported bytecode header''
        else if upstream hdr \<noteq> commit then
          Inl (snprintf 160 (''bytecode built for engine '' @ fmt_s 12 (upstream hdr) @
                 '', this SDK embeds engine '' @ fmt_s 12 commit))
        else Inr (unat (kind hdr), drop 52 buf))"

section \<open>Round trip\<close>

lemma byte_at_nat: "(of_char (byte_at w i) :: nat) = unat w div 2 ^ (8 * i) mod 256"
  unfolding byte_at_def unat_drop_bit_eq by (simp add: drop_bit_eq_div)

lemma unat_of_le32:
  "unat (of_le32 [a, b, c, d]) = of_char a + 256 * of_char b + 65536 * of_char c + 16777216 * of_char d"
proof -
  have w: "of_le32 [a, b, c, d] =
    of_nat (of_char a + 256 * of_char b + 65536 * of_char c + 16777216 * of_char d)"
    by (simp add: of_le32_def push_bit_eq_mult of_nat_of_char mult.commute)
  moreover have "of_char a + 256 * of_char b + 65536 * of_char c + 16777216 * of_char d < (4294967296 :: nat)"
    using nat_of_char_less_256 [of a] nat_of_char_less_256 [of b] nat_of_char_less_256 [of c]
      nat_of_char_less_256 [of d] by linarith
  ultimately show ?thesis unfolding w unat_of_nat by simp
qed

lemma split_bytes:
  "(n :: nat) mod 256 + 256 * (n div 256 mod 256) + 65536 * (n div 65536 mod 256) +
     16777216 * (n div 16777216 mod 256) = n mod 4294967296"
  using mod_mult2_eq [of n 256 16777216] mod_mult2_eq [of "n div 256" 256 65536]
    mod_mult2_eq [of "n div 65536" 256 256] by (simp add: div_mult2_eq [symmetric])

lemma of_le32_le32 [simp]: "of_le32 (le32 w) = w"
proof -
  have "unat (of_le32 (le32 w)) = unat w mod 2 ^ 32"
    unfolding le32_def unat_of_le32 using split_bytes [of "unat w"] by (simp add: byte_at_nat)
  then show ?thesis using unsigned_less [where ?'a = nat, of w] by (simp add: word_unat_eq_iff)
qed

lemma le32_of_le32:
  assumes "length bs = 4"
  shows "le32 (of_le32 bs) = bs"
proof -
  from assms obtain a b c d where bs: "bs = [a, b, c, d]"
    by (auto simp: numeral_eq_Suc length_Suc_conv)
  let ?n = "unat (of_le32 bs)"
  have ch: "byte_at (of_le32 bs) i = char_of (?n div 2 ^ (8 * i))" for i
    unfolding byte_at_def unat_drop_bit_eq by (simp add: drop_bit_eq_div)
  have digit: "(of_char x + 256 * k) mod 256 = (of_char x :: nat)" "(of_char x + 256 * k) div 256 = (k :: nat)" for x k
    by simp_all
  have n: "?n = of_char a + 256 * (of_char b + 256 * (of_char c + 256 * of_char d))"
    unfolding bs unat_of_le32 by simp
  have "?n div 65536 = ?n div 256 div 256" "?n div 16777216 = ?n div 256 div 256 div 256"
    by (simp_all add: div_mult2_eq [symmetric])
  then have "?n mod 256 = of_char a" "?n div 256 mod 256 = of_char b" "?n div 65536 mod 256 = of_char c"
    "?n div 16777216 mod 256 = of_char d"
    unfolding n digit by simp_all
  then have "char_of ?n = a" "char_of (?n div 256) = b" "char_of (?n div 65536) = c" "char_of (?n div 16777216) = d"
    by (metis char_of_mod_256 char_of_char)+
  then show ?thesis using ch [of 0] ch [of 1] ch [of 2] ch [of 3] by (simp add: le32_def bs)
qed

lemma length_le32 [simp]: "length (le32 w) = 4"
  by (simp add: le32_def)

lemma read_header_bytes:
  assumes "length (magic h) = 4" "length (upstream h) = 40"
  shows "read_header (header_bytes h @ body) = h" "length (header_bytes h) = 52"
  using assms by (simp_all add: read_header_def header_bytes_def)

lemma header_bytes_read:
  assumes "52 \<le> length bs"
  shows "header_bytes (read_header bs) = take 52 bs"
proof -
  have "take 52 bs = take 4 bs @ take 4 (drop 4 bs) @ take 4 (drop 8 bs) @ take 40 (drop 12 bs)"
    using take_add [of 4 48 bs] take_add [of 4 44 "drop 4 bs"] take_add [of 4 40 "drop 8 bs"] by simp
  with assms show ?thesis by (simp add: header_bytes_def read_header_def le32_of_le32)
qed

text \<open>The checker accepts what the compiler writes and returns the kind and the body unchanged.\<close>

lemma check_compiled:
  assumes "length commit = 40"
  shows "check_bytecode_header commit (header_bytes (compile_header commit flags) @ body) =
    Inr (if flags AND KMPJS_COMPILE_MODULE \<noteq> 0 then 1 else 0, body)"
proof -
  let ?h = "compile_header commit flags"
  have h: "length (magic ?h) = 4" "length (upstream ?h) = 40" using assms by (auto simp: compile_header_def)
  have "take 4 (header_bytes ?h @ body) = ''QJKB''"
    by (simp add: header_bytes_def compile_header_def)
  then show ?thesis
    using read_header_bytes [OF h] assms
    by (simp add: check_bytecode_header_def Let_def compile_header_def KMPJS_BYTECODE_HEADER_SIZE_def)
qed

text \<open>Conversely, whatever the checker accepts starts with exactly such a header.\<close>

lemma check_accepts_only:
  assumes "check_bytecode_header commit buf = Inr (k, body)"
  shows "k \<le> 1 \<and> buf = header_bytes (compile_header commit (int k)) @ body"
proof -
  let ?h = "read_header buf"
  from assms have acc: "52 \<le> length buf" "take 4 buf = ''QJKB''" "header_len ?h = of_nat KMPJS_BYTECODE_HEADER_SIZE"
    "kind ?h \<le> 1" "upstream ?h = commit" "k = unat (kind ?h)" "body = drop 52 buf"
    by (auto simp: check_bytecode_header_def Let_def split: if_splits)
  have "unat (kind ?h) = unat (0 :: 32 word) \<or> unat (kind ?h) = unat (1 :: 32 word)"
    using acc(4) by (simp add: word_le_nat_alt le_Suc_eq)
  then have k: "kind ?h = 0 \<or> kind ?h = 1" by (simp only: word_unat_eq_iff)
  then have kk: "kind ?h = (if int k AND KMPJS_COMPILE_MODULE \<noteq> 0 then 1 else 0)"
    using acc(6) by auto
  have "magic ?h = ''QJKB''" using acc(2) by (simp add: read_header_def)
  then have "?h = compile_header commit (int k)"
    unfolding compile_header_def using kk acc(3,5)
    by (intro kmp_bc_header.equality) (simp_all only: kmp_bc_header.select_convs unit_eq)
  then have "take 52 buf = header_bytes (compile_header commit (int k))"
    using header_bytes_read [OF acc(1)] by simp
  then have "buf = header_bytes (compile_header commit (int k)) @ body"
    using acc(7) append_take_drop_id [of 52 buf] by simp
  moreover have "k \<le> 1" using k acc(6) by auto
  ultimately show ?thesis by simp
qed

section \<open>Properties\<close>

text \<open>C14: what \<open>kmpjs_compile\<close> writes is accepted by the same SDK's checker, which recovers the kind and
  the serialized body unchanged.\<close>

theorem bytecode_round_trip:
  assumes "length commit = 40"
  shows "check_bytecode_header commit (header_bytes (compile_header commit flags) @ body) =
    Inr (if flags AND KMPJS_COMPILE_MODULE \<noteq> 0 then 1 else 0, body)"
  using assms by (rule check_compiled)

theorem bytecode_round_trip_witness:
  "check_bytecode_header (replicate 40 CHR ''a'') (header_bytes (compile_header (replicate 40 CHR ''a'') 1) @ ''body'') =
   Inr (1, ''body'')"
  using bytecode_round_trip [of "replicate 40 CHR ''a''" 1 "''body''"] by simp

text \<open>C15: the checker accepts nothing else: an accepted buffer is byte for byte the header \<open>kmpjs_compile\<close>
  writes for this engine commit, followed by the body; in particular bytecode of another engine
  commit, a truncated header or an unknown kind is rejected.\<close>

theorem bytecode_accepts_only_own:
  assumes "check_bytecode_header commit buf = Inr (k, body)"
  shows "k \<le> 1 \<and> buf = header_bytes (compile_header commit (int k)) @ body"
  using assms by (rule check_accepts_only)

theorem bytecode_accepts_only_own_witness:
  "header_bytes (compile_header (replicate 40 CHR ''a'') 0) @ ''x'' =
   header_bytes (compile_header (replicate 40 CHR ''a'') (int 0)) @ ''x''"
  using bytecode_accepts_only_own [OF check_compiled [of "replicate 40 CHR ''a''" 0 "''x''"]] by simp

end
