(* ===== verification/Loader.thy ===== *)
theory Loader
  imports Jobs Bytecode
begin

text \<open>
  Modules and bytecode as the engine sees them: compiling a module with its \<open>import.meta\<close>, claiming
  names in the module table, reading bytecode, and the loader callback that resolves an import from
  the table or from the host.
\<close>

section \<open>Names\<close>

definition module_name_taken ::
  "('h, 'u) link \<Rightarrow> bytes \<Rightarrow> ('h, 'u) world \<Rightarrow> ((int \<times> kmpjs_value) \<times> ('h, 'u) world) option" where
  "module_name_taken X name w =
     (case find_module (modules (eng w)) name of
        None \<Rightarrow> Some ((0, zero_value), w)
      | Some m \<Rightarrow> fail_message X (taken_message (m_kind m) name) w)"

text \<open>Growing the table when it is full.\<close>

definition modules_reserve :: "('h, 'u) link \<Rightarrow> ('h, 'u) world \<Rightarrow> (bool \<times> ('h, 'u) world) option" where
  "modules_reserve X w =
     (if int (length (modules (eng w))) = module_cap (eng w) then
        do { (ok, w) \<leftarrow> c_malloc X w;
             Some (ok, if ok then upd_eng (\<lambda>e. e\<lparr>module_cap := if module_cap e \<noteq> 0 then module_cap e * 2 else 8\<rparr>) w else w) }
      else Some (True, w))"

definition claim_module_name ::
  "('h, 'u) link \<Rightarrow> bytes \<Rightarrow> module_kind \<Rightarrow> bytes \<Rightarrow> ('h, 'u) world \<Rightarrow> ((int \<times> kmpjs_value) \<times> ('h, 'u) world) option" where
  "claim_module_name X name k code w =
     do { (ok, w) \<leftarrow> modules_reserve X w;
          if \<not> ok then fail_message X ''out of memory'' w
          else do {
            (name_ok, w) \<leftarrow> c_malloc X w;
            (source_ok, w) \<leftarrow> (if k = KMP_MODULE_SOURCE then c_malloc X w else Some (True, w));
            if \<not> name_ok \<or> \<not> source_ok then fail_message X ''out of memory'' w
            else Some ((0, zero_value), upd_eng (\<lambda>e. e\<lparr>modules := modules e @ [module_row name k code]\<rparr>) w) } }"

section \<open>Compiling\<close>

definition set_import_meta ::
  "('h, 'u) link \<Rightarrow> nat \<Rightarrow> bytes \<Rightarrow> ('h, 'u) world \<Rightarrow> (int \<times> ('h, 'u) world) option" where
  "set_import_meta X m name w =
     do { (meta, w) \<leftarrow> js_val X (CGetImportMeta m) w;
          if JS_IsException meta then Some (-1, w)
          else do {
            (ok, w) \<leftarrow> c_malloc X w;
            if \<not> ok then do { (_, w) \<leftarrow> JS_ThrowOutOfMemory X (JS_FreeValue X meta w); Some (-1, w) }
            else do {
              (url, w) \<leftarrow> js_val X (CNewStringLen (module_scheme (eng w) @ '':'' @ name)) w;
              (rc, w) \<leftarrow> JS_DefinePropertyValueStr X meta ''url'' url 7 w;
              Some (if rc < 0 then -1 else 0, JS_FreeValue X meta w) } } }"

definition module_name_of ::
  "('h, 'u) link \<Rightarrow> jsval \<Rightarrow> nat \<Rightarrow> ('h, 'u) world \<Rightarrow> ((bytes \<times> nat) option \<times> ('h, 'u) world) option" where
  "module_name_of X cx m w =
     do { (r, w) \<leftarrow> enter X (CModuleName cx m) w; Some (ret_cstr r, own (cstr_val (ret_cstr r)) w) }"

definition JS_EVAL_TYPE_GLOBAL :: int where [simp]: "JS_EVAL_TYPE_GLOBAL = 0"
definition JS_EVAL_TYPE_MODULE :: int where [simp]: "JS_EVAL_TYPE_MODULE = 1"
definition JS_EVAL_FLAG_COMPILE_ONLY :: int where [simp]: "JS_EVAL_FLAG_COMPILE_ONLY = 32"

definition compile_module ::
  "('h, 'u) link \<Rightarrow> bytes \<Rightarrow> bytes \<Rightarrow> ('h, 'u) world \<Rightarrow> (jsval \<times> ('h, 'u) world) option" where
  "compile_module X code name w =
     do { (obj, w) \<leftarrow> js_val X (CEval code name (JS_EVAL_TYPE_MODULE OR JS_EVAL_FLAG_COMPILE_ONLY)) w;
          if JS_IsException obj then Some (obj, w)
          else do { (rc, w) \<leftarrow> set_import_meta X (JS_VALUE_GET_PTR obj) name w;
                    if rc \<noteq> 0 then Some (JException, JS_FreeValue X obj w) else Some (obj, w) } }"

definition kmp_module_normalize ::
  "('h, 'u) link \<Rightarrow> bytes \<Rightarrow> bytes \<Rightarrow> ('h, 'u) world \<Rightarrow> (jret \<times> ('h, 'u) world) option" where
  "kmp_module_normalize X base name w = enter X (CStrdup name) w"

section \<open>Bytecode\<close>

text \<open>\<open>check_bytecode_header\<close> with its error published: \<open>Inl\<close> the value describing the failure.\<close>

definition w_check_header ::
  "('h, 'u) link \<Rightarrow> bytes \<Rightarrow> ('h, 'u) world \<Rightarrow> ((kmpjs_value + nat \<times> bytes) \<times> ('h, 'u) world) option" where
  "w_check_header X buf w =
     (case check_bytecode_header (commit (lib X)) buf of
        Inl msg \<Rightarrow> do { (r, w) \<leftarrow> fail_message X msg w; Some (Inl (snd r), w) }
      | Inr kb \<Rightarrow> Some (Inr kb, w))"

definition read_bytecode_body ::
  "('h, 'u) link \<Rightarrow> bytes \<Rightarrow> nat \<Rightarrow> ('h, 'u) world \<Rightarrow> ((jsval \<times> kmpjs_value) \<times> ('h, 'u) world) option" where
  "read_bytecode_body X body k w =
     do { (obj, w) \<leftarrow> js_val X (CReadObject (ctx (eng w)) body) w;
          if JS_IsException obj then do { (out, w) \<leftarrow> exception_to_out X w; Some ((JException, out), w) }
          else if (k = 1) \<noteq> JS_IsModule obj then
            do { (r, w) \<leftarrow> fail_message X ''bytecode body does not match its header'' (JS_FreeValue X obj w);
                 Some ((JException, snd r), w) }
          else Some ((obj, zero_value), w) }"

text \<open>The three outcomes of \<open>peek_module_name\<close> once the scratch context exists.\<close>

definition peek_corrupt :: "('h, 'u) link \<Rightarrow> ('h, 'u) world \<Rightarrow> ((bytes option \<times> kmpjs_value) \<times> ('h, 'u) world) option" where
  "peek_corrupt X w =
     do { (ex, w) \<leftarrow> js_val X CGetException w;
          (msg, w) \<leftarrow> js_val X (CGetPropertyStr ex ''message'') w;
          if JS_IsString msg then
            do { (text, w) \<leftarrow> JS_ToCStringLen X msg w;
                 (r, w) \<leftarrow> fail_message X (snprintf 256 (''bytecode body is corrupt: '' @
                     (case text of None \<Rightarrow> ''(no message)'' | Some s \<Rightarrow> c_str (fst s))))
                   (JS_FreeValue X ex (JS_FreeValue X msg (JS_FreeCString X text w)));
                 Some ((None, snd r), w) }
          else do { (r, w) \<leftarrow> fail_message X ''bytecode body is corrupt: (no message)''
                      (JS_FreeValue X ex (JS_FreeValue X msg w));
                    Some ((None, snd r), w) } }"

definition peek_name ::
  "('h, 'u) link \<Rightarrow> jsval \<Rightarrow> jsval \<Rightarrow> ('h, 'u) world \<Rightarrow> ((bytes option \<times> kmpjs_value) \<times> ('h, 'u) world) option" where
  "peek_name X scratch obj w =
     do { (name, w) \<leftarrow> module_name_of X scratch (JS_VALUE_GET_PTR obj) w;
          (ok, w) \<leftarrow> (if name = None then Some (False, w) else c_malloc X w);
          let w = JS_FreeValue X obj (JS_FreeCString X name w);
          case name of
            None \<Rightarrow> do { (r, w) \<leftarrow> fail_message X ''out of memory'' w; Some ((None, snd r), w) }
          | Some s \<Rightarrow>
              if ok then Some ((Some (c_str (fst s)), zero_value), w)
              else do { (r, w) \<leftarrow> fail_message X ''out of memory'' w; Some ((None, snd r), w) } }"

definition peek_module_name ::
  "('h, 'u) link \<Rightarrow> bytes \<Rightarrow> ('h, 'u) world \<Rightarrow> ((bytes option \<times> kmpjs_value) \<times> ('h, 'u) world) option" where
  "peek_module_name X body w =
     do { (scratch, w) \<leftarrow> js_val X CNewContextRaw w;
          if JS_IsNull scratch then
            do { (r, w) \<leftarrow> fail_message X ''out of memory'' w; Some ((None, snd r), w) }
          else do {
            (obj, w) \<leftarrow> js_val X (CReadObject scratch body) w;
            if JS_IsException obj then
              do { (r, w) \<leftarrow> peek_corrupt X w; Some (r, JS_FreeValue X scratch w) }
            else if \<not> JS_IsModule obj then
              do { (r, w) \<leftarrow> fail_message X ''bytecode body does not match its header'' (JS_FreeValue X obj w);
                   Some ((None, snd r), JS_FreeValue X scratch w) }
            else do { (r, w) \<leftarrow> peek_name X scratch obj w; Some (r, JS_FreeValue X scratch w) } } }"

text \<open>\<open>throw_message(ctx, err.str, err.str_len)\<close>: the message is read back from where it was published.\<close>

definition throw_value :: "('h, 'u) link \<Rightarrow> kmpjs_value \<Rightarrow> ('h, 'u) world \<Rightarrow> (jsval \<times> ('h, 'u) world) option" where
  "throw_value X err w = throw_message X (in_bytes w (v_str err) (v_str_len err)) w"

definition quoted :: "bytes \<Rightarrow> bytes" where
  "quoted s = [CHR 0x27] @ s @ [CHR 0x27]"

text \<open>The end of \<open>module_from_bytecode\<close>, after header and name have been checked.\<close>

definition enter_module ::
  "('h, 'u) link \<Rightarrow> bytes \<Rightarrow> bytes \<Rightarrow> ('h, 'u) world \<Rightarrow> (jsval \<times> ('h, 'u) world) option" where
  "enter_module X name body w =
     do { (r, w) \<leftarrow> read_bytecode_body X body 1 w;
          if JS_IsException (fst r) then throw_value X (snd r) w
          else do { (rc, w) \<leftarrow> set_import_meta X (JS_VALUE_GET_PTR (fst r)) name w;
                    if rc \<noteq> 0 then Some (JException, JS_FreeValue X (fst r) w) else Some (fst r, w) } }"

definition module_from_bytecode ::
  "('h, 'u) link \<Rightarrow> bytes \<Rightarrow> bytes \<Rightarrow> ('h, 'u) world \<Rightarrow> (jsval \<times> ('h, 'u) world) option" where
  "module_from_bytecode X name buf w =
     do { (c, w) \<leftarrow> w_check_header X buf w;
          case c of
            Inl err \<Rightarrow> throw_value X err w
          | Inr kb \<Rightarrow>
              if fst kb \<noteq> 1 then
                JS_ThrowError X ''TypeError'' (''module '' @ quoted name @ '': bytecode is a script, not a module'') w
              else do {
                (pk, w) \<leftarrow> peek_module_name X (snd kb) w;
                case fst pk of
                  None \<Rightarrow> throw_value X (snd pk) w
                | Some compiled \<Rightarrow>
                    if compiled \<noteq> name then
                      JS_ThrowError X ''TypeError''
                        (''module '' @ quoted name @ '': bytecode was compiled as '' @ quoted compiled) w
                    else enter_module X name (snd kb) w } }"

section \<open>The loader callback\<close>

definition not_registered :: "bytes \<Rightarrow> bytes" where
  "not_registered name = ''module '' @ quoted name @ '' is not registered''"

definition module_from_host ::
  "('h, 'u) link \<Rightarrow> bytes \<Rightarrow> ('h, 'u) world \<Rightarrow> (jsval \<times> ('h, 'u) world) option" where
  "module_from_host X name w =
     (let (r, u) = h_load (lib X) name (hst w); rc = fst r; res = snd r; w = w\<lparr>hst := u\<rparr> in
      if rc \<noteq> 0 then throw_value X res w
      else if v_tag res = KMPJS_TAG_STRING then
        do { (buf, w) \<leftarrow> terminated_copy X (in_bytes w (v_str res) (v_str_len res)) w;
             case buf of None \<Rightarrow> JS_ThrowOutOfMemory X w
             | Some code \<Rightarrow> compile_module X code name w }
      else if v_tag res = KMPJS_TAG_BINARY then
        module_from_bytecode X name (in_bytes w (v_str res) (v_str_len res)) w
      else if v_tag res = KMPJS_TAG_UNDEFINED \<or> v_tag res = KMPJS_TAG_NULL then
        JS_ThrowError X ''ReferenceError'' (not_registered name) w
      else JS_ThrowError X ''TypeError''
        (''module loader returned neither source nor bytecode for '' @ quoted name) w)"

text \<open>A module the host supplied spends its name.\<close>

definition load_and_claim ::
  "('h, 'u) link \<Rightarrow> bytes \<Rightarrow> ('h, 'u) world \<Rightarrow> (jsval \<times> ('h, 'u) world) option" where
  "load_and_claim X name w =
     do { (obj, w) \<leftarrow> module_from_host X name w;
          if JS_IsException obj then Some (obj, w)
          else do { (r, w) \<leftarrow> claim_module_name X name KMP_MODULE_LOADED '''' w;
                    if fst r \<noteq> 0 then throw_value X (snd r) (JS_FreeValue X obj w) else Some (obj, w) } }"

text \<open>\<open>m = JS_VALUE_GET_PTR(obj); JS_FreeValue(ctx, obj);\<close> the result is the address of the module
  definition, or \<open>None\<close> for \<open>NULL\<close>.\<close>

definition module_def ::
  "('h, 'u) link \<Rightarrow> jsval \<Rightarrow> ('h, 'u) world \<Rightarrow> (nat option \<times> ('h, 'u) world) option" where
  "module_def X obj w =
     (if JS_IsException obj then Some (None, w) else Some (Some (JS_VALUE_GET_PTR obj), JS_FreeValue X obj w))"

definition kmp_module_loader ::
  "('h, 'u) link \<Rightarrow> bytes \<Rightarrow> ('h, 'u) world \<Rightarrow> (nat option \<times> ('h, 'u) world) option" where
  "kmp_module_loader X name w =
     (let md = find_module (modules (eng w)) name in
      case Option.bind md m_source of
        Some code \<Rightarrow> do { (obj, w) \<leftarrow> compile_module X code name w; module_def X obj w }
      | None \<Rightarrow>
          if md = None \<and> has_module_loader (eng w) then
            do { (obj, w) \<leftarrow> load_and_claim X name w; module_def X obj w }
          else do { (_, w) \<leftarrow> JS_ThrowError X ''ReferenceError'' (not_registered name) w; Some (None, w) })"

section \<open>The contract\<close>

lemma step_module_cap [keep]: "step T w0 w \<Longrightarrow> step T w0 (upd_eng (\<lambda>e. e\<lparr>module_cap := f e\<rparr>) w)"
  by (auto simp: step_def good_def rel_def upd_eng_def hold_def config_of_def)

lemma step_add_module [keep]: "step T w0 w \<Longrightarrow> step T w0 (upd_eng (\<lambda>e. e\<lparr>modules := modules e @ [m]\<rparr>) w)"
  by (auto simp: step_def good_def rel_def upd_eng_def hold_def config_of_def intro: prefix_order.order_trans)

context engine_link
begin

lemma modules_reserve_ok [vcg]:
  assumes "step T w0 w"
  shows "ensures (modules_reserve X w) (\<lambda>(r, w'). step T w0 w')"
  unfolding modules_reserve_def using assms
  by - (rule flow vcg step_if keep | assumption)+

lemma module_name_taken_ok [vcg]:
  assumes "step T w0 w"
  shows "ensures (module_name_taken X name w) (\<lambda>(r, w'). step T w0 w')"
  unfolding module_name_taken_def Let_def using assms
  by - (erule conjE | rule conjI flow vcg keep | rule ensures_tail, rule vcg | assumption | rule step_cong | simp)+

lemma claim_module_name_ok [vcg]:
  assumes "step T w0 w"
  shows "ensures (claim_module_name X name k code w) (\<lambda>(r, w'). step T w0 w')"
  unfolding claim_module_name_def Let_def using assms
  by - (erule conjE | rule conjI flow vcg keep | rule ensures_tail, rule vcg | assumption | rule step_cong | simp)+

lemma set_import_meta_ok [vcg]:
  assumes "step T w0 w"
  shows "ensures (set_import_meta X m name w) (\<lambda>(r, w'). step T w0 w')"
  unfolding set_import_meta_def Let_def using assms
  by - (erule conjE | rule conjI flow vcg keep | rule ensures_tail, rule vcg | assumption | rule step_cong | simp)+

lemma module_name_of_ok [vcg]:
  assumes "step T w0 w"
  shows "ensures (module_name_of X cx m w) (\<lambda>(r, w'). step (\<lambda>a. T a + cnt (cstr_val r) a) w0 w')"
  unfolding module_name_of_def Let_def using assms
  by - (erule conjE | rule conjI flow vcg keep | rule ensures_tail, rule vcg | assumption | rule step_cong | simp)+

lemma compile_module_ok [vcg]:
  assumes "step T w0 w"
  shows "ensures (compile_module X code name w) (\<lambda>(r, w'). step (\<lambda>a. T a + cnt r a) w0 w')"
  unfolding compile_module_def Let_def using assms
  by - (erule conjE | rule conjI flow vcg keep | rule ensures_tail, rule vcg | assumption | rule step_cong | simp)+

lemma w_check_header_ok [vcg]:
  assumes "step T w0 w"
  shows "ensures (w_check_header X buf w) (\<lambda>(r, w'). step T w0 w')"
  unfolding w_check_header_def Let_def using assms
  by - (erule conjE | rule conjI flow vcg keep | rule ensures_tail, rule vcg | assumption | rule step_cong | simp)+

lemma read_bytecode_body_ok [vcg]:
  assumes "step T w0 w"
  shows "ensures (read_bytecode_body X body k w) (\<lambda>(r, w'). step (\<lambda>a. T a + cnt (fst r) a) w0 w')"
  unfolding read_bytecode_body_def Let_def using assms
  by - (erule conjE | rule conjI flow vcg keep | rule ensures_tail, rule vcg | assumption | rule step_cong | simp)+

lemma peek_corrupt_ok [vcg]:
  assumes "step T w0 w"
  shows "ensures (peek_corrupt X w) (\<lambda>(r, w'). step T w0 w')"
  unfolding peek_corrupt_def Let_def using assms
  by - (erule conjE | rule conjI flow vcg keep | rule ensures_tail, rule vcg | assumption | rule step_cong | simp)+

lemma peek_name_ok [vcg]:
  assumes "step T w0 w" "\<And>a. cnt v a \<le> T a"
  shows "ensures (peek_name X scratch v w) (\<lambda>(r, w'). step (\<lambda>a. T a - cnt v a) w0 w')"
  unfolding peek_name_def Let_def using assms
  by - (erule conjE | rule conjI flow vcg keep | rule ensures_tail, rule vcg | assumption | rule step_cong | simp add: trans_le_add1)+

lemma peek_module_name_ok [vcg]:
  assumes "step T w0 w"
  shows "ensures (peek_module_name X body w) (\<lambda>(r, w'). step T w0 w')"
  unfolding peek_module_name_def Let_def using assms
  by - (erule conjE | rule conjI flow vcg keep | rule ensures_tail, rule vcg | assumption | rule step_cong | simp)+

lemma throw_value_ok [vcg]:
  assumes "step T w0 w"
  shows "ensures (throw_value X err w) (\<lambda>(r, w'). r = JException \<and> step T w0 w')"
  unfolding throw_value_def Let_def using assms
  by - (erule conjE | rule conjI flow vcg keep | rule ensures_tail, rule vcg | assumption | rule step_cong | simp)+

lemma enter_module_ok [vcg]:
  assumes "step T w0 w"
  shows "ensures (enter_module X name body w) (\<lambda>(r, w'). step (\<lambda>a. T a + cnt r a) w0 w')"
  unfolding enter_module_def Let_def using assms
  by - (erule conjE | rule conjI flow vcg keep | rule ensures_tail, rule vcg | assumption | rule step_cong | simp)+

lemma module_from_bytecode_ok [vcg]:
  assumes "step T w0 w"
  shows "ensures (module_from_bytecode X name buf w) (\<lambda>(r, w'). step (\<lambda>a. T a + cnt r a) w0 w')"
  unfolding module_from_bytecode_def Let_def using assms
  by - (erule conjE | rule conjI flow vcg keep | rule ensures_tail, rule vcg | assumption | rule step_cong | simp)+

lemma module_from_host_ok [vcg]:
  assumes "step T w0 w"
  shows "ensures (module_from_host X name w) (\<lambda>(r, w'). step (\<lambda>a. T a + cnt r a) w0 w')"
  unfolding module_from_host_def Let_def using assms
  by - (erule conjE | rule conjI flow vcg keep | rule ensures_tail, rule vcg | assumption | rule step_cong | simp)+

lemma load_and_claim_ok [vcg]:
  assumes "step T w0 w"
  shows "ensures (load_and_claim X name w) (\<lambda>(r, w'). step (\<lambda>a. T a + cnt r a) w0 w')"
  unfolding load_and_claim_def Let_def using assms
  by - (erule conjE | rule conjI flow vcg keep | rule ensures_tail, rule vcg | assumption | rule step_cong | simp)+

lemma module_def_ok [vcg]:
  assumes "step T w0 w" "\<And>a. cnt v a \<le> T a"
  shows "ensures (module_def X v w) (\<lambda>(r, w'). step (\<lambda>a. T a - cnt v a) w0 w')"
  unfolding module_def_def Let_def using assms
  by - (erule conjE | rule conjI flow vcg keep | rule ensures_tail, rule vcg | assumption | rule step_cong | simp)+

lemma module_loader_ok [vcg]:
  assumes "step T w0 w"
  shows "ensures (kmp_module_loader X name w) (\<lambda>(r, w'). step T w0 w')"
  unfolding kmp_module_loader_def Let_def using assms
  by - (erule conjE | rule conjI flow vcg keep | rule ensures_tail, rule vcg | assumption | rule step_cong | simp)+

end

end
