(* ===== verification/Api.thy ===== *)
theory Api
  imports Loader
begin

text \<open>
  The API calls of \<open>quickjs_kmp.h\<close> and the host function trampoline. Every call that enters script is
  bracketed by \<open>run_begin\<close> and \<open>finish\<close>; \<open>finish\<close> drains the job queue, unwraps a promise, reports
  rejections and writes the result.
\<close>

section \<open>Finishing a call\<close>

text \<open>
  The C variables \<open>failed\<close>, \<open>exc\<close>, \<open>oom\<close> and \<open>v\<close> of \<open>finish\<close> as one value: \<open>Inl (exc, oom)\<close> when
  \<open>failed\<close> is set, else \<open>Inr v\<close>.
\<close>

type_synonym outcome = "(jsval \<times> bool) + jsval"

definition take_failure :: "('h, 'u) link \<Rightarrow> ('h, 'u) world \<Rightarrow> (outcome \<times> ('h, 'u) world) option" where
  "take_failure X w = do { (x, w) \<leftarrow> take_exception X w; Some (Inl x, w) }"

definition outcome_of :: "('h, 'u) link \<Rightarrow> jsval \<Rightarrow> ('h, 'u) world \<Rightarrow> (outcome \<times> ('h, 'u) world) option" where
  "outcome_of X v w = (if JS_IsException v then take_failure X w else Some (Inr v, w))"

text \<open>The drain of the outermost call: a failing job replaces a result, not an earlier failure.\<close>

definition finish_drain ::
  "('h, 'u) link \<Rightarrow> bool \<Rightarrow> outcome \<Rightarrow> ('h, 'u) world \<Rightarrow> (outcome \<times> ('h, 'u) world) option" where
  "finish_drain X outermost r w =
     (if \<not> outermost then Some (r, w)
      else do { (rc, w) \<leftarrow> drain_jobs X w;
                if rc \<ge> 0 then Some (r, w)
                else (case r of
                    Inl x \<Rightarrow> do { (_, w) \<leftarrow> drop_exception X w; Some (Inl x, w) }
                  | Inr v \<Rightarrow> do { (r, w) \<leftarrow> take_failure X w; Some (r, JS_FreeValue X v w) }) })"

definition finish_unwrap ::
  "('h, 'u) link \<Rightarrow> bool \<Rightarrow> nat option \<Rightarrow> int \<Rightarrow> outcome \<Rightarrow> ('h, 'u) world \<Rightarrow> ((outcome \<times> int) \<times> ('h, 'u) world) option" where
  "finish_unwrap X unwrap module flags r w =
     (case r of
        Inl x \<Rightarrow> Some ((Inl x, flags), w)
      | Inr v \<Rightarrow>
          if \<not> unwrap then Some ((Inr v, flags), w)
          else do { (u, w) \<leftarrow> unwrap_promise X v flags module w;
                    (r, w) \<leftarrow> outcome_of X (fst u) w;
                    Some ((r, snd u), w) })"

text \<open>Work that the conversion itself queued runs while the finished payload is set aside.\<close>

definition late_drain :: "('h, 'u) link \<Rightarrow> ('h, 'u) world \<Rightarrow> (int \<times> ('h, 'u) world) option" where
  "late_drain X w =
     (let keep = bufs (mem w) OUT_STR in
      do { (rc, w) \<leftarrow> drain_jobs X (upd_mem (set_buf OUT_STR empty_buf) w);
           Some (rc, upd_mem (\<lambda>m. set_buf OUT_STR keep (buf_free OUT_STR m)) w) })"

definition finish_late ::
  "('h, 'u) link \<Rightarrow> kmpjs_value \<Rightarrow> ('h, 'u) world \<Rightarrow> ((int \<times> kmpjs_value) \<times> ('h, 'u) world) option" where
  "finish_late X out w =
     do { (rc, w) \<leftarrow> late_drain X w;
          if rc < 0 then do { (out, w) \<leftarrow> exception_to_out X w; Some ((-1, out), w) }
          else do { (_, w) \<leftarrow> report_rejections X w; Some ((0, out), w) } }"

definition finish_write ::
  "('h, 'u) link \<Rightarrow> bool \<Rightarrow> int \<Rightarrow> outcome \<Rightarrow> ('h, 'u) world \<Rightarrow> ((int \<times> kmpjs_value) \<times> ('h, 'u) world) option" where
  "finish_write X outermost flags r w =
     (case r of
        Inl x \<Rightarrow>
          if snd x then do { (out, w) \<leftarrow> oom_to_out X w; Some ((-1, out), w) }
          else do { (out, w) \<leftarrow> error_to_out X (fst x) OUT_STR OUT_STACK w; Some ((-1, out), w) }
      | Inr v \<Rightarrow>
          do { (ro, w) \<leftarrow> value_to_out X v OUT_STR flags w;
               (ro, w) \<leftarrow> (if fst ro \<noteq> 0 then do { (out, w) \<leftarrow> exception_to_out X w; Some ((-1, out), w) }
                 else if outermost \<and> (q_job_pending (lib X) (heap w) \<or> rejected (eng w) \<noteq> [])
                 then finish_late X (snd ro) w
                 else Some ((0, snd ro), w));
               Some (ro, JS_FreeValue X v w) })"

definition finish ::
  "('h, 'u) link \<Rightarrow> bool \<Rightarrow> jsval \<Rightarrow> int \<Rightarrow> bool \<Rightarrow> nat option \<Rightarrow> ('h, 'u) world \<Rightarrow> ((int \<times> kmpjs_value) \<times> ('h, 'u) world) option" where
  "finish X outermost v flags unwrap module w =
     do { (r, w) \<leftarrow> outcome_of X v w;
          (r, w) \<leftarrow> finish_drain X outermost r w;
          (rf, w) \<leftarrow> finish_unwrap X unwrap module flags r w;
          (_, w) \<leftarrow> (if outermost then report_rejections X w else Some ((), w));
          (ro, w) \<leftarrow> finish_write X outermost (snd rf) (fst rf) w;
          Some (ro, run_end X outermost w) }"

section \<open>Evaluation and modules\<close>

definition kmpjs_eval ::
  "('h, 'u) link \<Rightarrow> bytes \<Rightarrow> bytes \<Rightarrow> int \<Rightarrow> ('h, 'u) world \<Rightarrow> ((int \<times> kmpjs_value) \<times> ('h, 'u) world) option" where
  "kmpjs_eval X code filename flags w =
     do { (outermost, w) \<leftarrow> run_begin X w;
          (buf, w) \<leftarrow> terminated_copy X code w;
          case buf of
            None \<Rightarrow> do { (r, w) \<leftarrow> fail_message X ''out of memory'' w; Some (r, run_end X outermost w) }
          | Some code \<Rightarrow>
              do { (r, w) \<leftarrow> js_val X (CEval code filename JS_EVAL_TYPE_GLOBAL) w;
                   finish X outermost r flags True None w } }"

definition kmpjs_register_module ::
  "('h, 'u) link \<Rightarrow> bytes \<Rightarrow> bytes \<Rightarrow> ('h, 'u) world \<Rightarrow> ((int \<times> kmpjs_value) \<times> ('h, 'u) world) option" where
  "kmpjs_register_module X name code w =
     (if name = [] then fail_message X ''module name must not be empty'' w
      else do { (t, w) \<leftarrow> module_name_taken X name w;
                if fst t \<noteq> 0 then Some ((-1, snd t), w)
                else do { (c, w) \<leftarrow> claim_module_name X name KMP_MODULE_SOURCE code w;
                          if fst c \<noteq> 0 then Some ((-1, snd c), w) else Some ((0, zero_value), w) } })"

definition anonymous_name :: "bytes \<Rightarrow> bool" where
  "anonymous_name name = (case name of c # _ \<Rightarrow> c = CHR ''<'' | [] \<Rightarrow> False)"

text \<open>The two name checks that anonymous modules skip.\<close>

definition taken_unless_anonymous ::
  "('h, 'u) link \<Rightarrow> bytes \<Rightarrow> ('h, 'u) world \<Rightarrow> ((int \<times> kmpjs_value) \<times> ('h, 'u) world) option" where
  "taken_unless_anonymous X name w =
     (if anonymous_name name then Some ((0, zero_value), w) else module_name_taken X name w)"

definition claim_unless_anonymous ::
  "('h, 'u) link \<Rightarrow> bytes \<Rightarrow> ('h, 'u) world \<Rightarrow> ((int \<times> kmpjs_value) \<times> ('h, 'u) world) option" where
  "claim_unless_anonymous X name w =
     (if anonymous_name name then Some ((0, zero_value), w)
      else claim_module_name X name KMP_MODULE_EVALUATED '''' w)"

text \<open>Claiming the name of a compiled module and running it.\<close>

definition run_module ::
  "('h, 'u) link \<Rightarrow> bool \<Rightarrow> bytes \<Rightarrow> jsval \<Rightarrow> int \<Rightarrow> ('h, 'u) world \<Rightarrow> ((int \<times> kmpjs_value) \<times> ('h, 'u) world) option" where
  "run_module X outermost name obj flags w =
     do { (c, w) \<leftarrow> claim_unless_anonymous X name w;
          if fst c \<noteq> 0 then Some ((-1, snd c), run_end X outermost (JS_FreeValue X obj w))
          else do { (promise, w) \<leftarrow> JS_EvalFunction X obj w;
                    finish X outermost promise (flags OR KMPJS_FLAG_REF_OBJECTS) True (Some (JS_VALUE_GET_PTR obj)) w } }"

definition kmpjs_eval_module ::
  "('h, 'u) link \<Rightarrow> bytes \<Rightarrow> bytes \<Rightarrow> int \<Rightarrow> ('h, 'u) world \<Rightarrow> ((int \<times> kmpjs_value) \<times> ('h, 'u) world) option" where
  "kmpjs_eval_module X code name flags w =
     do { (t, w) \<leftarrow> taken_unless_anonymous X name w;
          if fst t \<noteq> 0 then Some ((-1, snd t), w)
          else do {
            (outermost, w) \<leftarrow> run_begin X w;
            (buf, w) \<leftarrow> terminated_copy X code w;
            case buf of
              None \<Rightarrow> do { (r, w) \<leftarrow> fail_message X ''out of memory'' w; Some (r, run_end X outermost w) }
            | Some code \<Rightarrow>
                do { (obj, w) \<leftarrow> compile_module X code name w;
                     if JS_IsException obj then finish X outermost obj flags False None w
                     else run_module X outermost name obj flags w } } }"

definition run_script_bytecode ::
  "('h, 'u) link \<Rightarrow> bool \<Rightarrow> bytes \<Rightarrow> int \<Rightarrow> ('h, 'u) world \<Rightarrow> ((int \<times> kmpjs_value) \<times> ('h, 'u) world) option" where
  "run_script_bytecode X outermost body flags w =
     do { (r, w) \<leftarrow> read_bytecode_body X body 0 w;
          if JS_IsException (fst r) then Some ((-1, snd r), run_end X outermost w)
          else do { (v, w) \<leftarrow> JS_EvalFunction X (fst r) w; finish X outermost v flags True None w } }"

definition run_module_bytecode ::
  "('h, 'u) link \<Rightarrow> bool \<Rightarrow> bytes \<Rightarrow> bytes \<Rightarrow> int \<Rightarrow> ('h, 'u) world \<Rightarrow> ((int \<times> kmpjs_value) \<times> ('h, 'u) world) option" where
  "run_module_bytecode X outermost name body flags w =
     do { (r, w) \<leftarrow> read_bytecode_body X body 1 w;
          if JS_IsException (fst r) then Some ((-1, snd r), run_end X outermost w)
          else do {
            (rc, w) \<leftarrow> set_import_meta X (JS_VALUE_GET_PTR (fst r)) name w;
            (rc, w) \<leftarrow> (if rc \<noteq> 0 then Some (-1, w) else js_int X (CResolveModule (fst r)) w);
            if rc < 0 then
              finish X outermost JException (flags OR KMPJS_FLAG_REF_OBJECTS) True
                (Some (JS_VALUE_GET_PTR (fst r))) (JS_FreeValue X (fst r) w)
            else run_module X outermost name (fst r) flags w } }"

definition kmpjs_run_bytecode ::
  "('h, 'u) link \<Rightarrow> bytes \<Rightarrow> int \<Rightarrow> ('h, 'u) world \<Rightarrow> ((int \<times> kmpjs_value) \<times> ('h, 'u) world) option" where
  "kmpjs_run_bytecode X buf flags w =
     do { (outermost, w) \<leftarrow> run_begin X w;
          (c, w) \<leftarrow> w_check_header X buf w;
          case c of
            Inl err \<Rightarrow> Some ((-1, err), run_end X outermost w)
          | Inr kb \<Rightarrow>
              if fst kb \<noteq> 1 then run_script_bytecode X outermost (snd kb) flags w
              else do {
                (pk, w) \<leftarrow> peek_module_name X (snd kb) w;
                case fst pk of
                  None \<Rightarrow> Some ((-1, snd pk), run_end X outermost w)
                | Some name \<Rightarrow>
                    do { (t, w) \<leftarrow> taken_unless_anonymous X name w;
                         if fst t \<noteq> 0 then Some ((-1, snd t), run_end X outermost w)
                         else run_module_bytecode X outermost name (snd kb) flags w } } }"

text \<open>The part of \<open>kmpjs_register_module_bytecode\<close> after the name has been accepted.\<close>

definition register_read ::
  "('h, 'u) link \<Rightarrow> bytes \<Rightarrow> bytes \<Rightarrow> ('h, 'u) world \<Rightarrow> ((int \<times> kmpjs_value) \<times> ('h, 'u) world) option" where
  "register_read X name body w =
     do { (r, w) \<leftarrow> read_bytecode_body X body 1 w;
          if JS_IsException (fst r) then Some ((-1, snd r), w)
          else do {
            (rc, w) \<leftarrow> set_import_meta X (JS_VALUE_GET_PTR (fst r)) name w;
            if rc \<noteq> 0 then do { (out, w) \<leftarrow> exception_to_out X w; Some ((-1, out), JS_FreeValue X (fst r) w) }
            else do {
              (c, w) \<leftarrow> claim_module_name X name KMP_MODULE_BYTECODE '''' w;
              if fst c \<noteq> 0 then Some ((-1, snd c), JS_FreeValue X (fst r) w)
              else do {
                (_, w) \<leftarrow> w_append X OUT_STR name (upd_mem (buf_reset OUT_STR) w);
                let (p, n) = publish OUT_STR (mem w);
                Some ((0, zero_value\<lparr>v_tag := KMPJS_TAG_STRING, v_str := p, v_str_len := n\<rparr>),
                      JS_FreeValue X (fst r) w) } } } }"

definition kmpjs_register_module_bytecode ::
  "('h, 'u) link \<Rightarrow> bytes \<Rightarrow> ('h, 'u) world \<Rightarrow> ((int \<times> kmpjs_value) \<times> ('h, 'u) world) option" where
  "kmpjs_register_module_bytecode X buf w =
     do { (c, w) \<leftarrow> w_check_header X buf w;
          case c of
            Inl err \<Rightarrow> Some ((-1, err), w)
          | Inr kb \<Rightarrow>
              if fst kb \<noteq> 1 then fail_message X ''bytecode is a script, not a module'' w
              else do {
                (outermost, w) \<leftarrow> run_begin X w;
                (pk, w) \<leftarrow> peek_module_name X (snd kb) w;
                case fst pk of
                  None \<Rightarrow> Some ((-1, snd pk), run_end X outermost w)
                | Some name \<Rightarrow>
                    if anonymous_name name \<or> name = [] then
                      do { (r, w) \<leftarrow> fail_message X ''bytecode module has an anonymous name; compile it with a real one'' w;
                           Some (r, run_end X outermost w) }
                    else do {
                      (t, w) \<leftarrow> module_name_taken X name w;
                      if fst t \<noteq> 0 then Some ((-1, snd t), run_end X outermost w)
                      else do { (r, w) \<leftarrow> register_read X name (snd kb) w; Some (r, run_end X outermost w) } } } }"

section \<open>Host functions\<close>

text \<open>The engine keeps \<open>magic\<close> as an \<open>int16_t\<close>.\<close>

definition fn_magic :: "int \<Rightarrow> int \<Rightarrow> int" where
  "fn_magic fn_id flags = push_bit 1 fn_id OR (flags AND KMPJS_FLAG_REF_OBJECTS)"

definition magic_fn_id :: "int \<Rightarrow> int" where
  "magic_fn_id mg = drop_bit 1 mg"

definition magic_flags :: "int \<Rightarrow> int" where
  "magic_flags mg = mg AND KMPJS_FLAG_REF_OBJECTS"

definition kmpjs_define_function ::
  "('h, 'u) link \<Rightarrow> bytes \<Rightarrow> int \<Rightarrow> int \<Rightarrow> ('h, 'u) world \<Rightarrow> ((int \<times> kmpjs_value) \<times> ('h, 'u) world) option" where
  "kmpjs_define_function X name fn_id flags w =
     (if fn_id < 0 \<or> fn_id > KMPJS_MAX_FN_ID then fail_message X ''too many host functions'' w
      else do {
        (fn, w) \<leftarrow> js_val X (CNewCFunctionMagic name (fn_magic fn_id flags)) w;
        if JS_IsException fn then do { (out, w) \<leftarrow> exception_to_out X w; Some ((-1, out), w) }
        else do {
          (global, w) \<leftarrow> js_val X CGetGlobalObject w;
          (rc, w) \<leftarrow> JS_SetPropertyStr X global name fn w;
          let w = JS_FreeValue X global w;
          if rc < 0 then do { (out, w) \<leftarrow> exception_to_out X w; Some ((-1, out), w) }
          else Some ((0, zero_value), w) } })"

text \<open>The arguments of a host call, converted one by one into the buffers from \<open>b\<close> on; the flag says
  whether all of them were.\<close>

fun host_args ::
  "('h, 'u) link \<Rightarrow> nat \<Rightarrow> int \<Rightarrow> jsval list \<Rightarrow> ('h, 'u) world \<Rightarrow> ((bool \<times> kmpjs_value list) \<times> ('h, 'u) world) option" where
  "host_args X b flags [] w = Some ((True, []), w)"
| "host_args X b flags (v # vs) w =
     do { (r, w) \<leftarrow> value_to_out X v b flags w;
          if fst r \<noteq> 0 then Some ((False, []), w)
          else do { (rs, w) \<leftarrow> host_args X (Suc b) flags vs w; Some ((fst rs, snd r # snd rs), w) } }"

definition release_arg :: "('h, 'u) link \<Rightarrow> kmpjs_value \<Rightarrow> ('h, 'u) world \<Rightarrow> ('h, 'u) world" where
  "release_arg X v w = (if v_tag v = KMPJS_TAG_REF then kmpjs_ref_release X (v_ref v) w else w)"

definition free_bufs :: "nat \<Rightarrow> nat \<Rightarrow> ('h, 'u) world \<Rightarrow> ('h, 'u) world" where
  "free_bufs b n w = fold (\<lambda>i. upd_mem (buf_free i)) [b ..< b + n] w"

definition host_call ::
  "('h, 'u) link \<Rightarrow> int \<Rightarrow> kmpjs_value list \<Rightarrow> ('h, 'u) world \<Rightarrow> (jsval \<times> ('h, 'u) world) option" where
  "host_call X fn_id args w =
     do { (r, w) \<leftarrow> ask X (HCall fn_id (map (resolve w) args)) w;
          if fst r \<noteq> 0 then throw_value X (snd r) w else value_from_host X (snd r) w }"

definition js_kmp_host ::
  "('h, 'u) link \<Rightarrow> jsval list \<Rightarrow> int \<Rightarrow> ('h, 'u) world \<Rightarrow> (jsval \<times> ('h, 'u) world) option" where
  "js_kmp_host X argv mg w =
     (if \<not> has_host (eng w) then JS_ThrowError X ''InternalError'' ''no host function handler'' w
      else do {
        (ok1, w) \<leftarrow> (if argv = [] then Some (True, w) else c_malloc X w);
        (ok2, w) \<leftarrow> (if argv = [] then Some (True, w) else c_malloc X w);
        if \<not> ok1 \<or> \<not> ok2 then JS_ThrowOutOfMemory X w
        else do {
          let (b, m) = alloc_bufs (length argv) (mem w);
          (args, w) \<leftarrow> host_args X b (magic_flags mg) argv (w\<lparr>mem := m\<rparr>);
          (ret, w) \<leftarrow> (if fst args then host_call X (magic_fn_id mg) (snd args) w else Some (JException, w));
          Some (ret, free_bufs b (length argv) (fold (release_arg X) (snd args) w)) } })"

section \<open>Printing\<close>

text \<open>\<open>JS_PrintValue\<close> hands its text to \<open>print_write\<close> piece by piece.\<close>

fun print_chunks :: "('h, 'u) link \<Rightarrow> bytes list \<Rightarrow> ('h, 'u) world \<Rightarrow> (unit \<times> ('h, 'u) world) option" where
  "print_chunks X [] w = Some ((), w)"
| "print_chunks X (c # cs) w = do { (_, w) \<leftarrow> w_append X LOG_LINE c w; print_chunks X cs w }"

definition print_arg :: "('h, 'u) link \<Rightarrow> jsval \<Rightarrow> ('h, 'u) world \<Rightarrow> (bool \<times> ('h, 'u) world) option" where
  "print_arg X v w =
     (if JS_IsString v then
        do { (p, w) \<leftarrow> JS_ToCStringLen X v w;
             case p of None \<Rightarrow> Some (False, w)
             | Some s \<Rightarrow> do { (_, w) \<leftarrow> w_append X LOG_LINE (fst s) w; Some (True, JS_FreeCString X (Some s) w) } }
      else do { (r, w) \<leftarrow> enter X (CPrintValue v) w;
                (_, w) \<leftarrow> print_chunks X (ret_chunks r) w;
                Some (True, w) })"

fun print_args :: "('h, 'u) link \<Rightarrow> bool \<Rightarrow> jsval list \<Rightarrow> ('h, 'u) world \<Rightarrow> (bool \<times> ('h, 'u) world) option" where
  "print_args X first [] w = Some (True, w)"
| "print_args X first (v # vs) w =
     do { (_, w) \<leftarrow> (if first then Some (0, w) else w_append X LOG_LINE '' '' w);
          (ok, w) \<leftarrow> print_arg X v w;
          if ok then print_args X False vs w else Some (False, w) }"

definition js_print :: "('h, 'u) link \<Rightarrow> jsval list \<Rightarrow> ('h, 'u) world \<Rightarrow> (jsval \<times> ('h, 'u) world) option" where
  "js_print X argv w =
     do { (ok, w) \<leftarrow> print_args X True argv (upd_mem (buf_reset LOG_LINE) w);
          if \<not> ok then Some (JException, w)
          else if has_log (eng w) then
            do { (_, w) \<leftarrow> ask X (HLog (buf_bytes (mem w) LOG_LINE)) w; Some (JUndefined, w) }
          else Some (JUndefined, w) }"

definition js_performance_now :: "('h, 'u) link \<Rightarrow> ('h, 'u) world \<Rightarrow> (jsval \<times> ('h, 'u) world) option" where
  "js_performance_now X w = Some (JS_NewFloat64 (c_clock (lib X) (ticks w)), w\<lparr>ticks := ticks w + 1\<rparr>)"

section \<open>Operations on refs\<close>

definition kmpjs_ref_get ::
  "('h, 'u) link \<Rightarrow> 64 word \<Rightarrow> bytes \<Rightarrow> int \<Rightarrow> ('h, 'u) world \<Rightarrow> ((int \<times> kmpjs_value) \<times> ('h, 'u) world) option" where
  "kmpjs_ref_get X ref name flags w =
     (case slot_get (refs (eng w)) ref of
        None \<Rightarrow> fail_message X ''invalid or released ref'' w
      | Some i \<Rightarrow>
          do { (outermost, w) \<leftarrow> run_begin X w;
               (v, w) \<leftarrow> js_val X (CGetPropertyStr (slot_val i w) name) w;
               finish X outermost v flags False None w })"

definition kmpjs_ref_get_index ::
  "('h, 'u) link \<Rightarrow> 64 word \<Rightarrow> int \<Rightarrow> int \<Rightarrow> ('h, 'u) world \<Rightarrow> ((int \<times> kmpjs_value) \<times> ('h, 'u) world) option" where
  "kmpjs_ref_get_index X ref index flags w =
     (case slot_get (refs (eng w)) ref of
        None \<Rightarrow> fail_message X ''invalid or released ref'' w
      | Some i \<Rightarrow>
          if index < 0 then fail_message X ''negative index'' w
          else do { (outermost, w) \<leftarrow> run_begin X w;
                    (v, w) \<leftarrow> js_val X (CGetPropertyUint32 (slot_val i w) (nat index)) w;
                    finish X outermost v flags False None w })"

definition kmpjs_ref_set ::
  "('h, 'u) link \<Rightarrow> 64 word \<Rightarrow> bytes \<Rightarrow> kmpjs_value \<Rightarrow> ('h, 'u) world \<Rightarrow> ((int \<times> kmpjs_value) \<times> ('h, 'u) world) option" where
  "kmpjs_ref_set X ref name value w =
     (case slot_get (refs (eng w)) ref of
        None \<Rightarrow> fail_message X ''invalid or released ref'' w
      | Some i \<Rightarrow>
          do { (outermost, w) \<leftarrow> run_begin X w;
               (v, w) \<leftarrow> value_from_host X value w;
               if JS_IsException v then finish X outermost JException 0 False None w
               else do { (rc, w) \<leftarrow> JS_SetPropertyStr X (slot_val i w) name v w;
                         finish X outermost (if rc < 0 then JException else JUndefined) 0 False None w } })"

fun call_args ::
  "('h, 'u) link \<Rightarrow> kmpjs_value list \<Rightarrow> ('h, 'u) world \<Rightarrow> ((bool \<times> jsval list) \<times> ('h, 'u) world) option" where
  "call_args X [] w = Some ((True, []), w)"
| "call_args X (a # as) w =
     do { (v, w) \<leftarrow> value_from_host X a w;
          if JS_IsException v then Some ((False, []), w)
          else do { (rs, w) \<leftarrow> call_args X as w; Some ((fst rs, v # snd rs), w) } }"

text \<open>\<open>this_ref\<close>: 0 stands for \<open>undefined\<close>; \<open>None\<close> for a handle that does not resolve.\<close>

definition this_slot :: "64 word \<Rightarrow> kmp_table \<Rightarrow> nat option option" where
  "this_slot this_ref t = (if this_ref = 0 then Some None else map_option Some (slot_get t this_ref))"

definition call_with ::
  "('h, 'u) link \<Rightarrow> bool \<Rightarrow> nat \<Rightarrow> nat option \<Rightarrow> kmpjs_value list \<Rightarrow> int \<Rightarrow> ('h, 'u) world \<Rightarrow> ((int \<times> kmpjs_value) \<times> ('h, 'u) world) option" where
  "call_with X outermost f ts args flags w =
     do { (cs, w) \<leftarrow> call_args X args w;
          (r, w) \<leftarrow> (if fst cs
             then js_val X (CCall (slot_val f w) (case ts of None \<Rightarrow> JUndefined | Some t \<Rightarrow> slot_val t w) (snd cs)) w
             else Some (JException, w));
          finish X outermost r flags True None (fold (JS_FreeValue X) (snd cs) w) }"

definition kmpjs_ref_call ::
  "('h, 'u) link \<Rightarrow> 64 word \<Rightarrow> 64 word \<Rightarrow> kmpjs_value list \<Rightarrow> int \<Rightarrow> ('h, 'u) world \<Rightarrow> ((int \<times> kmpjs_value) \<times> ('h, 'u) world) option" where
  "kmpjs_ref_call X ref this_ref args flags w =
     (case slot_get (refs (eng w)) ref of
        None \<Rightarrow> fail_message X ''invalid or released ref'' w
      | Some f \<Rightarrow>
          if \<not> q_is_function (lib X) (heap w) (slot_val f w) then fail_message X ''ref is not a function'' w
          else (case this_slot this_ref (refs (eng w)) of
              None \<Rightarrow> fail_message X ''invalid or released this ref'' w
            | Some ts \<Rightarrow>
                do { (outermost, w) \<leftarrow> run_begin X w;
                     (ok, w) \<leftarrow> (if args = [] then Some (True, w) else c_malloc X w);
                     if \<not> ok then
                       do { (r, w) \<leftarrow> fail_message X ''out of memory'' w; Some (r, run_end X outermost w) }
                     else call_with X outermost f ts args flags w }))"

definition kmpjs_ref_to_json ::
  "('h, 'u) link \<Rightarrow> 64 word \<Rightarrow> ('h, 'u) world \<Rightarrow> ((int \<times> kmpjs_value) \<times> ('h, 'u) world) option" where
  "kmpjs_ref_to_json X ref w =
     (case slot_get (refs (eng w)) ref of
        None \<Rightarrow> fail_message X ''invalid or released ref'' w
      | Some i \<Rightarrow>
          if q_is_function (lib X) (heap w) (slot_val i w)
          then Some ((0, zero_value\<lparr>v_tag := KMPJS_TAG_OBJECT\<rparr>), w)
          else do { (outermost, w) \<leftarrow> run_begin X w;
                    (json, w) \<leftarrow> js_val X (CJSONStringify (slot_val i w)) w;
                    (r, w) \<leftarrow> finish X outermost json 0 False None w;
                    Some (if fst r = 0 then (0, (snd r)\<lparr>v_tag := KMPJS_TAG_OBJECT\<rparr>) else r, w) })"

section \<open>Diagnostics\<close>

text \<open>The numbers of \<open>kmpjs_stats\<close>, in the order of the struct; the engine's counters come as
  \<open>[malloc_size, obj_count, str_count, atom_count, js_func_count]\<close>.\<close>

definition kmpjs_get_stats :: "('h, 'u) link \<Rightarrow> ('h, 'u) world \<Rightarrow> (int list \<times> ('h, 'u) world) option" where
  "kmpjs_get_stats X w =
     (let t = refs (eng w) in
      do { (r, w) \<leftarrow> enter X CComputeMemoryUsage w;
           case ret_usage r of
             [used, objs, strs, atoms, funcs] \<Rightarrow>
               Some ([live_refs t, int (length (slots t)), used, memory_limit (eng w), objs, strs, atoms, funcs], w)
           | _ \<Rightarrow> Some ([], w) })"

definition kmpjs_dump_memory ::
  "('h, 'u) link \<Rightarrow> ('h, 'u) world \<Rightarrow> (kmpjs_value \<times> ('h, 'u) world) option" where
  "kmpjs_dump_memory X w =
     do { (_, w) \<leftarrow> enter X CComputeMemoryUsage w;
          (ok, w) \<leftarrow> c_malloc X (upd_mem (buf_reset OUT_STR) w);
          (_, w) \<leftarrow> (if ok then do { (r, w) \<leftarrow> enter X CDumpMemoryUsage w; w_append X OUT_STR (concat (ret_chunks r)) w }
                     else Some (0, w));
          let (p, n) = publish OUT_STR (mem w);
          Some (zero_value\<lparr>v_tag := KMPJS_TAG_STRING, v_str := p, v_str_len := n\<rparr>, w) }"

section \<open>The contract\<close>

text \<open>What an outcome owns; an out-of-memory exception is the immediate \<open>null\<close>.\<close>

fun outcome_cnt :: "outcome \<Rightarrow> nat \<Rightarrow> nat" where
  "outcome_cnt (Inl x) a = (if snd x then 0 else cnt (fst x) a)"
| "outcome_cnt (Inr v) a = cnt v a"

lemma step_restore:
  assumes st: "step T w0 w" and late: "step T' (upd_mem (set_buf i empty_buf) w) w2" and i: "i < 5"
  shows "step T' w0 (upd_mem (\<lambda>m. set_buf i (bufs (mem w) i) (buf_free i m)) w2)"
proof -
  have wf: "wf_mem (mem w)" "wf_mem (mem w2)" using st late by (auto simp: step_def good_def)
  have loose: "keeps_loose (set_buf i empty_buf (mem w)) (mem w2)"
    using late by (simp add: step_def rel_def upd_mem_def)
  have "step T' w w2'" if "mem w2' = set_buf i (bufs (mem w) i) (buf_free i (mem w2))" "w2' = w2\<lparr>mem := mem w2'\<rparr>" for w2'
    using late that wf_restore_buf(1) [OF wf(1) loose wf(2) step_bufs5 [OF st i]] loose_restore_buf [OF wf(1) loose]
    by (cases w2'; cases w2) (auto simp: step_def good_def rel_def upd_mem_def)
  from this [of "upd_mem (\<lambda>m. set_buf i (bufs (mem w) i) (buf_free i m)) w2"] show ?thesis
    by (intro step_trans [OF st]) (simp add: upd_mem_def)
qed

lemma step_set_empty [keep]: "step T w0 w \<Longrightarrow> step T w0 (upd_mem (set_buf i empty_buf) w)"
  by (rule step_mem) (auto intro: wf_set_empty loose_set_empty)

context engine_link
begin

lemma take_failure_ok [vcg]:
  assumes "step T w0 w"
  shows "ensures (take_failure X w) (\<lambda>(r, w'). step (\<lambda>a. T a + outcome_cnt r a) w0 w')"
proof -
  have "ensures (take_exception X w) (\<lambda>(x, w'). step (\<lambda>a. T a + outcome_cnt (Inl x) a) w0 w')"
    by (rule ensures_conseq [OF take_exception_ok [OF assms]]) (auto elim!: step_cong)
  then show ?thesis unfolding take_failure_def by - (rule flow | assumption)+
qed

lemma outcome_of_ok [vcg]:
  assumes "step T w0 w" "\<And>a. cnt v a \<le> T a"
  shows "ensures (outcome_of X v w) (\<lambda>(r, w'). step (\<lambda>a. T a - cnt v a + outcome_cnt r a) w0 w')"
  unfolding outcome_of_def using assms
  by - (rule flow vcg | rule ensures_tail, rule vcg | assumption | erule step_cong | simp add: own_arith trans_le_add1)+

lemma finish_drain_ok [vcg]:
  assumes "step T w0 w" "\<And>a. outcome_cnt r a \<le> T a"
  shows "ensures (finish_drain X outermost r w) (\<lambda>(r', w'). step (\<lambda>a. T a - outcome_cnt r a + outcome_cnt r' a) w0 w')"
  unfolding finish_drain_def using assms
  by - (rule flow vcg keep | rule ensures_tail, rule vcg | assumption | rule step_cong | simp add: own_arith trans_le_add1)+

lemma finish_unwrap_ok [vcg]:
  assumes "step T w0 w" "\<And>a. outcome_cnt r a \<le> T a"
  shows "ensures (finish_unwrap X unwrap m flags r w)
    (\<lambda>(r', w'). step (\<lambda>a. T a - outcome_cnt r a + outcome_cnt (fst r') a) w0 w')"
  unfolding finish_unwrap_def using assms
  by - (rule flow vcg keep | rule ensures_tail, rule vcg | assumption | rule step_cong | simp add: own_arith trans_le_add1)+

lemma late_drain_ok [vcg]:
  assumes "step T w0 w"
  shows "ensures (late_drain X w) (\<lambda>(r, w'). step T w0 w')"
proof -
  let ?w = "upd_mem (set_buf OUT_STR empty_buf) w"
  have "step T ?w ?w" using step_set_empty [OF assms] by (auto simp: step_def)
  then have "ensures (drain_jobs X ?w)
      (\<lambda>(rc, w'). step T w0 (upd_mem (\<lambda>m. set_buf OUT_STR (bufs (mem w) OUT_STR) (buf_free OUT_STR m)) w'))"
    by (rule ensures_tail [OF drain_jobs_ok]) (auto intro: step_restore [OF assms])
  then show ?thesis unfolding late_drain_def Let_def
    by - (rule ensures_bindI, assumption, (rule flow | assumption)+)
qed

text \<open>The payload that was published before the drain is still there after it.\<close>

lemma late_drain_payload:
  assumes st: "step T w0 w"
  shows "ensures (late_drain X w) (\<lambda>(r, w'). bufs (mem w') OUT_STR = bufs (mem w) OUT_STR \<and>
    (\<forall>k. b_data (bufs (mem w) OUT_STR) = Some k \<longrightarrow> blocks (mem w') k = blocks (mem w) k))"
proof -
  let ?w = "upd_mem (set_buf OUT_STR empty_buf) w"
  have wf: "wf_mem (mem w)" using st by (simp add: step_def good_def)
  have i: "OUT_STR < next_buf (mem w)" using wf_memD(5) [OF wf] by simp
  have "step T ?w ?w" using step_set_empty [OF st] by (auto simp: step_def)
  from drain_jobs_ok [OF this] have "ensures (drain_jobs X ?w)
      (\<lambda>(rc, w'). wf_mem (mem w') \<and> keeps_loose (set_buf OUT_STR empty_buf (mem w)) (mem w'))"
    by (rule ensures_tail) (auto simp: step_def good_def rel_def upd_mem_def)
  then show ?thesis unfolding late_drain_def Let_def
    by (rule ensures_bindI)
       (use wf_restore_buf(2) [OF wf _ _ i] in \<open>auto simp: upd_mem_def set_buf_def\<close>)
qed

lemma finish_late_ok [vcg]:
  assumes "step T w0 w"
  shows "ensures (finish_late X out w) (\<lambda>(r, w'). step T w0 w')"
  unfolding finish_late_def using assms
  by - (rule flow vcg | assumption)+

lemma finish_write_ok [vcg]:
  assumes "step T w0 w" "\<And>a. outcome_cnt r a \<le> T a"
  shows "ensures (finish_write X outermost flags r w) (\<lambda>(ro, w'). step (\<lambda>a. T a - outcome_cnt r a) w0 w')"
  unfolding finish_write_def using assms
  by - (rule flow vcg keep | rule ensures_tail, rule vcg | assumption | rule step_cong | simp add: own_arith trans_le_add1)+

lemma finish_ok [vcg]:
  assumes "opened T0 w0 outermost w1" "step T w1 w" "\<And>a. cnt v a \<le> T a"
  shows "ensures (finish X outermost v flags unwrap m w) (\<lambda>(r, w'). step (\<lambda>a. T a - cnt v a) w0 w')"
  unfolding finish_def using assms
  by - (rule flow vcg keep | rule ensures_tail, rule vcg | assumption | rule step_cong | simp add: own_arith trans_le_add1)+

lemma eval_ok [vcg]:
  assumes "step T w0 w"
  shows "ensures (kmpjs_eval X code filename flags w) (\<lambda>(r, w'). step T w0 w')"
  unfolding kmpjs_eval_def Let_def using assms
  by - (erule conjE | rule conjI flow vcg keep | rule ensures_tail, rule vcg | assumption | rule step_cong | simp)+

lemma register_module_ok [vcg]:
  assumes "step T w0 w"
  shows "ensures (kmpjs_register_module X name code w) (\<lambda>(r, w'). step T w0 w')"
  unfolding kmpjs_register_module_def Let_def using assms
  by - (erule conjE | rule conjI flow vcg keep | rule ensures_tail, rule vcg | assumption | rule step_cong | simp)+

lemma taken_unless_anonymous_ok [vcg]:
  assumes "step T w0 w"
  shows "ensures (taken_unless_anonymous X name w) (\<lambda>(r, w'). step T w0 w')"
  unfolding taken_unless_anonymous_def Let_def using assms
  by - (erule conjE | rule conjI flow vcg keep | rule ensures_tail, rule vcg | assumption | rule step_cong | simp)+

lemma claim_unless_anonymous_ok [vcg]:
  assumes "step T w0 w"
  shows "ensures (claim_unless_anonymous X name w) (\<lambda>(r, w'). step T w0 w')"
  unfolding claim_unless_anonymous_def Let_def using assms
  by - (erule conjE | rule conjI flow vcg keep | rule ensures_tail, rule vcg | assumption | rule step_cong | simp)+

lemma run_module_ok [vcg]:
  assumes "opened T0 w0 outermost w1" "step T w1 w" "\<And>a. cnt v a \<le> T a"
  shows "ensures (run_module X outermost name v flags w) (\<lambda>(r, w'). step (\<lambda>a. T a - cnt v a) w0 w')"
  unfolding run_module_def Let_def using assms
  by - (erule conjE | rule conjI flow vcg keep | rule ensures_tail, rule vcg | assumption | rule step_cong | simp add: own_arith trans_le_add1)+

lemma eval_module_ok [vcg]:
  assumes "step T w0 w"
  shows "ensures (kmpjs_eval_module X code name flags w) (\<lambda>(r, w'). step T w0 w')"
  unfolding kmpjs_eval_module_def Let_def using assms
  by - (erule conjE | rule conjI flow vcg keep | rule ensures_tail, rule vcg | assumption | rule step_cong | simp)+

lemma run_script_bytecode_ok [vcg]:
  assumes "opened T0 w0 outermost w1" "step T w1 w"
  shows "ensures (run_script_bytecode X outermost body flags w) (\<lambda>(r, w'). step T w0 w')"
  unfolding run_script_bytecode_def Let_def using assms
  by - (erule conjE | rule conjI flow vcg keep | rule ensures_tail, rule vcg | assumption | rule step_cong | simp)+

lemma run_module_bytecode_ok [vcg]:
  assumes "opened T0 w0 outermost w1" "step T w1 w"
  shows "ensures (run_module_bytecode X outermost name body flags w) (\<lambda>(r, w'). step T w0 w')"
  unfolding run_module_bytecode_def Let_def using assms
  by - (erule conjE | rule conjI flow vcg keep | rule ensures_tail, rule vcg | assumption | rule step_cong | simp)+

lemma run_bytecode_ok [vcg]:
  assumes "step T w0 w"
  shows "ensures (kmpjs_run_bytecode X buf flags w) (\<lambda>(r, w'). step T w0 w')"
  unfolding kmpjs_run_bytecode_def Let_def using assms
  by - (erule conjE | rule conjI flow vcg keep | rule ensures_tail, rule vcg | assumption | rule step_cong | simp)+

lemma register_read_ok [vcg]:
  assumes "step T w0 w"
  shows "ensures (register_read X name body w) (\<lambda>(r, w'). step T w0 w')"
  unfolding register_read_def Let_def using assms
  by - (erule conjE | rule conjI flow vcg keep | rule ensures_tail, rule vcg | assumption | rule step_cong | simp)+

lemma register_module_bytecode_ok [vcg]:
  assumes "step T w0 w"
  shows "ensures (kmpjs_register_module_bytecode X buf w) (\<lambda>(r, w'). step T w0 w')"
  unfolding kmpjs_register_module_bytecode_def Let_def using assms
  by - (erule conjE | rule conjI flow vcg keep | rule ensures_tail, rule vcg | assumption | rule step_cong | simp)+

lemma define_function_ok [vcg]:
  assumes "step T w0 w"
  shows "ensures (kmpjs_define_function X name fn_id flags w) (\<lambda>(r, w'). step T w0 w')"
  unfolding kmpjs_define_function_def Let_def using assms
  by - (erule conjE | rule conjI flow vcg keep | rule ensures_tail, rule vcg | assumption | rule step_cong | simp add: own_arith trans_le_add1)+

lemma ref_get_ok [vcg]:
  assumes "step T w0 w"
  shows "ensures (kmpjs_ref_get X ref name flags w) (\<lambda>(r, w'). step T w0 w')"
  unfolding kmpjs_ref_get_def Let_def using assms
  by - (erule conjE | rule conjI flow vcg keep | rule ensures_tail, rule vcg | assumption | rule step_cong | simp)+

lemma ref_get_index_ok [vcg]:
  assumes "step T w0 w"
  shows "ensures (kmpjs_ref_get_index X ref index flags w) (\<lambda>(r, w'). step T w0 w')"
  unfolding kmpjs_ref_get_index_def Let_def using assms
  by - (erule conjE | rule conjI flow vcg keep | rule ensures_tail, rule vcg | assumption | rule step_cong | simp)+

lemma ref_set_ok [vcg]:
  assumes "step T w0 w"
  shows "ensures (kmpjs_ref_set X ref name value w) (\<lambda>(r, w'). step T w0 w')"
  unfolding kmpjs_ref_set_def Let_def using assms
  by - (erule conjE | rule conjI flow vcg keep | rule ensures_tail, rule vcg | assumption | rule step_cong | simp)+

lemma step_fold_free:
  "step T w0 w \<Longrightarrow> (\<And>a. (\<Sum>v\<leftarrow>vs. cnt v a) \<le> T a) \<Longrightarrow>
   step (\<lambda>a. T a - (\<Sum>v\<leftarrow>vs. cnt v a)) w0 (fold (JS_FreeValue X) vs w)"
proof (induction vs arbitrary: T w)
  case (Cons v vs)
  have le: "cnt v a \<le> T a" "(\<Sum>v\<leftarrow>vs. cnt v a) \<le> T a - cnt v a" for a
    using Cons.prems(2) [of a] by auto
  show ?case using Cons.IH [OF step_free [OF Cons.prems(1) le(1)] le(2)] by (simp add: diff_diff_add)
qed simp

lemma call_args_ok [vcg]:
  "step T w0 w \<Longrightarrow> ensures (call_args X as w) (\<lambda>(r, w'). step (\<lambda>a. T a + (\<Sum>v\<leftarrow>snd r. cnt v a)) w0 w')"
proof (induction "as" arbitrary: T w)
  case (Cons b "as")
  show ?case unfolding call_args.simps using Cons.prems
    by - (rule flow vcg Cons.IH | assumption | rule step_cong | simp)+
qed simp

lemma call_with_ok [vcg]:
  assumes op: "opened T0 w0 outermost w1" and st: "step T w1 w"
  shows "ensures (call_with X outermost f ts args flags w) (\<lambda>(r, w'). step T w0 w')"
proof -
  have call: "ensures (if fst cs then js_val X (c w2) w2 else Some (JException, w2))
      (\<lambda>(r, w'). step (\<lambda>a. T a + (\<Sum>v\<leftarrow>snd cs. cnt v a) + cnt r a) w1 w')"
    if "step (\<lambda>a. T a + (\<Sum>v\<leftarrow>snd cs. cnt v a)) w1 w2" for cs w2 c
    using that js_val_ok [OF that] by simp
  show ?thesis unfolding call_with_def
    by (rule ensures_bindI, rule call_args_ok [OF st], rule ensures_bindI, erule call,
        rule ensures_tail, rule finish_ok [OF op], rule step_fold_free)
       (auto elim!: step_cong)
qed

lemma ref_call_ok [vcg]:
  assumes "step T w0 w"
  shows "ensures (kmpjs_ref_call X ref this_ref args flags w) (\<lambda>(r, w'). step T w0 w')"
  unfolding kmpjs_ref_call_def Let_def using assms
  by - (erule conjE | rule conjI flow vcg keep | rule ensures_tail, rule vcg | assumption | rule step_cong | simp)+

lemma ref_to_json_ok [vcg]:
  assumes "step T w0 w"
  shows "ensures (kmpjs_ref_to_json X ref w) (\<lambda>(r, w'). step T w0 w')"
  unfolding kmpjs_ref_to_json_def Let_def using assms
  by - (erule conjE | rule conjI flow vcg keep | rule ensures_tail, rule vcg | assumption | rule step_cong | simp)+

lemma get_stats_ok [vcg]:
  assumes "step T w0 w"
  shows "ensures (kmpjs_get_stats X w) (\<lambda>(r, w'). step T w0 w')"
  unfolding kmpjs_get_stats_def Let_def using enter_ok [OF assms]
  by (rule ensures_bindI) (auto split: list.splits)

lemma dump_memory_ok [vcg]:
  assumes "step T w0 w"
  shows "ensures (kmpjs_dump_memory X w) (\<lambda>(r, w'). step T w0 w')"
  unfolding kmpjs_dump_memory_def Let_def using assms
  by - (erule conjE | rule conjI flow vcg keep | rule ensures_tail, rule vcg | assumption | rule step_cong | simp)+

lemma host_args_ok:
  "step T w0 w \<Longrightarrow> b + length vs \<le> next_buf (mem w0) \<Longrightarrow>
   ensures (host_args X b flags vs w) (\<lambda>(r, w'). step T w0 w')"
proof (induction vs arbitrary: b w)
  case (Cons v vs)
  show ?case unfolding host_args.simps using Cons.prems
    by - (rule flow vcg Cons.IH | assumption | simp)+
qed simp

lemma step_fold: "(\<And>x w. step T w0 w \<Longrightarrow> step T w0 (f x w)) \<Longrightarrow> step T w0 w \<Longrightarrow> step T w0 (fold f xs w)"
  by (induction xs arbitrary: w) auto

lemma step_release_args [keep]: "step T w0 w \<Longrightarrow> step T w0 (fold (release_arg X) args w)"
  by (rule step_fold) (auto simp: release_arg_def intro: step_release)

lemma step_free_bufs [keep]: "step T w0 w \<Longrightarrow> step T w0 (free_bufs b n w)"
  unfolding free_bufs_def by (rule step_fold) (auto intro: step_buf_free)

lemma host_call_ok [vcg]:
  assumes "step T w0 w"
  shows "ensures (host_call X fn_id args w) (\<lambda>(r, w'). step (\<lambda>a. T a + cnt r a) w0 w')"
  unfolding host_call_def Let_def using assms
  by - (erule conjE | rule conjI flow vcg keep | rule ensures_tail, rule vcg | assumption | rule step_cong | simp)+

lemma host_args_fresh:
  assumes "step T w0 w"
  shows "ensures (host_args X (fst (alloc_bufs (length vs) (mem w))) flags vs
      (w\<lparr>mem := snd (alloc_bufs (length vs) (mem w))\<rparr>)) (\<lambda>(r, w'). step T w0 w')"
proof -
  let ?w = "w\<lparr>mem := snd (alloc_bufs (length vs) (mem w))\<rparr>"
  have st: "step T w0 ?w"
    using step_mem [OF assms, of "\<lambda>m. snd (alloc_bufs (length vs) m)"]
    by (simp add: wf_alloc_bufs loose_alloc_bufs upd_mem_def)
  then have "step T ?w ?w" by (simp add: step_def)
  then show ?thesis
    by (rule ensures_tail [OF host_args_ok]) (auto simp: alloc_bufs_def intro: step_trans [OF st, simplified alloc_bufs_def])
qed

lemma js_kmp_host_ok [vcg]:
  assumes "step T w0 w"
  shows "ensures (js_kmp_host X argv mg w) (\<lambda>(r, w'). step (\<lambda>a. T a + cnt r a) w0 w')"
proof -
  have call: "ensures (if fst cs then host_call X f (snd cs) w1 else Some (JException, w1))
      (\<lambda>(r, w'). step (\<lambda>a. T a + cnt r a) w0 w')" if "step T w0 w1" for cs f w1
    using that host_call_ok [OF that] by simp
  show ?thesis
    unfolding js_kmp_host_def Let_def split_beta [of _ "alloc_bufs _ _"] using assms
    by - (erule conjE | rule call host_args_fresh flow vcg keep | rule ensures_tail, rule vcg | assumption | rule step_cong | simp)+
qed

lemma print_chunks_ok [vcg]: "step T w0 w \<Longrightarrow> ensures (print_chunks X cs w) (\<lambda>(r, w'). step T w0 w')"
proof (induction cs arbitrary: w)
  case (Cons c cs)
  show ?case unfolding print_chunks.simps using Cons.prems
    by - (rule flow vcg Cons.IH | assumption | simp)+
qed simp

lemma print_arg_ok [vcg]:
  assumes "step T w0 w"
  shows "ensures (print_arg X v w) (\<lambda>(r, w'). step T w0 w')"
  unfolding print_arg_def Let_def using assms
  by - (erule conjE | rule conjI flow vcg keep | rule ensures_tail, rule vcg | assumption | rule step_cong | simp add: cstr_val_def)+

lemma print_args_ok [vcg]: "step T w0 w \<Longrightarrow> ensures (print_args X first vs w) (\<lambda>(r, w'). step T w0 w')"
proof (induction vs arbitrary: first w)
  case (Cons c cs)
  show ?case unfolding print_args.simps using Cons.prems
    by - (rule flow vcg Cons.IH | assumption | simp)+
qed simp

lemma js_print_ok [vcg]:
  assumes "step T w0 w"
  shows "ensures (js_print X argv w) (\<lambda>(r, w'). step (\<lambda>a. T a + cnt r a) w0 w')"
  unfolding js_print_def Let_def using assms
  by - (erule conjE | rule conjI flow vcg keep | rule ensures_tail, rule vcg | assumption | rule step_cong | simp)+

lemma performance_now_ok [vcg]:
  "step T w0 w \<Longrightarrow> ensures (js_performance_now X w) (\<lambda>(r, w'). step (\<lambda>a. T a + cnt r a) w0 w')"
  unfolding js_performance_now_def by (simp add: new_float_is_number step_ticks)

end

end
