(* ===== verification/Exec.thy ===== *)
theory Exec
  imports Api
begin

text \<open>
  The closed system: engine, shim and host linked together. \<open>serve\<close> answers a request of the engine
  with the callback the shim installed for it, \<open>api\<close> performs a call the host makes, and \<open>mk\<close> builds
  the link over which both run. A link of depth \<open>n\<close> serves \<open>n\<close> levels of nesting (a script that calls
  the host that calls a script) with loops of at most \<open>n\<close> rounds; beyond that a call has no result.

  The interpretation at the end discharges the contract of \<open>Contract\<close> for every such link, and with it
  every function of the shim keeps the contract for every engine, every host, every allocation failure
  and every timing of interrupts.
\<close>

section \<open>Requests of the engine\<close>

text \<open>A call of the C library by the engine's allocator.\<close>

definition js_libc :: "('h, 'u) link \<Rightarrow> ('h, 'u) world \<Rightarrow> size_t option \<times> ('h, 'u) world" where
  "js_libc X w =
     ((if c_alloc (lib X) (ticks w) then Some (c_usable (lib X) (ticks w)) else None), w\<lparr>ticks := ticks w + 1\<rparr>)"

text \<open>Storing the heap an allocation left and setting \<open>e->oom\<close> when the limit refused it.\<close>

definition js_allocated :: "nat \<times> bool \<times> kmp_heap \<Rightarrow> ('h, 'u) world \<Rightarrow> jret \<times> ('h, 'u) world" where
  "js_allocated r w =
     (let (p, refused, m) = r; w = w\<lparr>jsmem := m\<rparr> in
      (RInt (int p), if refused then upd_eng (\<lambda>e. e\<lparr>oom := True\<rparr>) w else w))"

text \<open>A value a callback returns passes to the engine.\<close>

definition give :: "jsval \<times> ('h, 'u) world \<Rightarrow> (jret \<times> ('h, 'u) world) option" where
  "give r = Some (RVal (fst r), disown (fst r) (snd r))"

definition serve :: "('h, 'u) link \<Rightarrow> jsreq \<Rightarrow> ('h, 'u) world \<Rightarrow> (jret \<times> ('h, 'u) world) option" where
  "serve X q w =
     (case q of
        QHost mg argv \<Rightarrow> js_kmp_host X argv mg w \<bind> give
      | QPrint argv \<Rightarrow> js_print X argv w \<bind> give
      | QPerformanceNow \<Rightarrow> js_performance_now X w \<bind> give
      | QReject promise reason handled \<Rightarrow>
          do { (_, w) \<leftarrow> kmp_rejection_tracker X promise reason handled w; Some (RInt 0, w) }
      | QNormalize base name \<Rightarrow> kmp_module_normalize X base name w
      | QLoad name \<Rightarrow> do { (m, w) \<leftarrow> kmp_module_loader X name w; Some (RModule m, w) }
      | QPoll \<Rightarrow> let w = env_irq X w in Some (RInt (if state_poll (state (eng w)) then 1 else 0), w)
      | QMalloc sz \<Rightarrow>
          let (libc, w) = js_libc X w in
          Some (js_allocated (kmp_malloc (c_overhead (lib X)) libc sz (jsmem w)) w)
      | QFree ptr \<Rightarrow> Some (RInt 0, w\<lparr>jsmem := kmp_free (c_overhead (lib X)) ptr (jsmem w)\<rparr>)
      | QRealloc ptr sz \<Rightarrow>
          let (libc, w) = js_libc X w in
          Some (js_allocated (kmp_realloc (c_overhead (lib X)) libc ptr sz (jsmem w)) w))"

text \<open>One engine call: the engine runs until it returns, its requests are served on the way.\<close>

fun engine_loop :: "nat \<Rightarrow> ('h, 'u) link \<Rightarrow> jsin \<Rightarrow> ('h, 'u) world \<Rightarrow> (jret \<times> ('h, 'u) world) option" where
  "engine_loop 0 X i w = None"
| "engine_loop (Suc n) X i w =
     (let (o', h) = q_step (lib X) i (heap w); w = w\<lparr>heap := h\<rparr> in
      case o' of
        OutRet r \<Rightarrow> Some (r, w)
      | OutReq q \<Rightarrow> do { (a, w) \<leftarrow> serve X q w; engine_loop n X (InAnswer a) w })"

section \<open>Calls of the host\<close>

definition reply :: "(int \<times> kmpjs_value) \<times> ('h, 'u) world \<Rightarrow> (hin \<times> ('h, 'u) world) option" where
  "reply r = Some (HResult (fst (fst r)) (resolve (snd r) (snd (fst r))) [], snd r)"

definition done' :: "('h, 'u) world \<Rightarrow> (hin \<times> ('h, 'u) world) option" where
  "done' w = Some (HResult 0 zero_value [], w)"

definition api :: "('h, 'u) link \<Rightarrow> apicall \<Rightarrow> ('h, 'u) world \<Rightarrow> (hin \<times> ('h, 'u) world) option" where
  "api X c w =
     (case c of
        AEval code filename flags \<Rightarrow> kmpjs_eval X code filename flags w \<bind> reply
      | ADefineFunction name fn_id flags \<Rightarrow> kmpjs_define_function X name fn_id flags w \<bind> reply
      | ARetain ref \<Rightarrow> done' (kmpjs_ref_retain ref w)
      | ARelease ref \<Rightarrow> done' (kmpjs_ref_release X ref w)
      | AGet ref name flags \<Rightarrow> kmpjs_ref_get X ref name flags w \<bind> reply
      | AGetIndex ref index flags \<Rightarrow> kmpjs_ref_get_index X ref index flags w \<bind> reply
      | ASet ref name value \<Rightarrow> kmpjs_ref_set X ref name value w \<bind> reply
      | ACall ref this_ref args flags \<Rightarrow> kmpjs_ref_call X ref this_ref args flags w \<bind> reply
      | AToJson ref \<Rightarrow> kmpjs_ref_to_json X ref w \<bind> reply
      | ARegisterModule name code \<Rightarrow> kmpjs_register_module X name code w \<bind> reply
      | AEvalModule code name flags \<Rightarrow> kmpjs_eval_module X code name flags w \<bind> reply
      | ARunBytecode buf flags \<Rightarrow> kmpjs_run_bytecode X buf flags w \<bind> reply
      | ARegisterModuleBytecode buf \<Rightarrow> kmpjs_register_module_bytecode X buf w \<bind> reply
      | AStats \<Rightarrow> do { (ns, w) \<leftarrow> kmpjs_get_stats X w; Some (HResult 0 zero_value ns, w) }
      | ADumpMemory \<Rightarrow> do { (out, w) \<leftarrow> kmpjs_dump_memory X w; reply ((0, out), w) })"

fun host_loop :: "nat \<Rightarrow> ('h, 'u) link \<Rightarrow> hin \<Rightarrow> ('h, 'u) world \<Rightarrow> ((int \<times> kmpjs_value) \<times> ('h, 'u) world) option" where
  "host_loop 0 X i w = None"
| "host_loop (Suc n) X i w =
     (let (o', u) = h_step (lib X) i (hst w); w = w\<lparr>hst := u\<rparr> in
      case o' of
        HDone rc v \<Rightarrow> Some ((rc, v), w)
      | HApi c \<Rightarrow> do { (r, w) \<leftarrow> api X c w; host_loop n X r w })"

section \<open>The link\<close>

primrec mk :: "nat \<Rightarrow> ('h, 'u) sys \<Rightarrow> ('h, 'u) link" where
  "mk 0 S = \<lparr>lib = S, enter = (\<lambda>c w. None), ask = (\<lambda>i w. None), fuel = 0\<rparr>"
| "mk (Suc n) S =
     \<lparr>lib = S, enter = (\<lambda>c. engine_loop (Suc n) (mk n S) (InCall c)),
      ask = (\<lambda>i. host_loop (Suc n) (mk n S) i), fuel = Suc n\<rparr>"

text \<open>The same with named fields, which evaluation does not unfold before they are applied.\<close>

definition call_engine :: "nat \<Rightarrow> ('h, 'u) sys \<Rightarrow> jscall \<Rightarrow> ('h, 'u) world \<Rightarrow> (jret \<times> ('h, 'u) world) option" where
  "call_engine n S c w = engine_loop (Suc n) (mk n S) (InCall c) w"

definition ask_host :: "nat \<Rightarrow> ('h, 'u) sys \<Rightarrow> hin \<Rightarrow> ('h, 'u) world \<Rightarrow> ((int \<times> kmpjs_value) \<times> ('h, 'u) world) option" where
  "ask_host n S i w = host_loop (Suc n) (mk n S) i w"

definition no_call :: "jscall \<Rightarrow> ('h, 'u) world \<Rightarrow> (jret \<times> ('h, 'u) world) option" where
  "no_call c w = None"

definition no_ask :: "hin \<Rightarrow> ('h, 'u) world \<Rightarrow> ((int \<times> kmpjs_value) \<times> ('h, 'u) world) option" where
  "no_ask i w = None"

lemma mk_code [code]:
  "mk 0 S = \<lparr>lib = S, enter = no_call, ask = no_ask, fuel = 0\<rparr>"
  "mk (Suc n) S = \<lparr>lib = S, enter = call_engine n S, ask = ask_host n S, fuel = Suc n\<rparr>"
  by (simp_all add: no_call_def [abs_def] no_ask_def [abs_def] call_engine_def [abs_def] ask_host_def [abs_def]
      del: engine_loop.simps host_loop.simps)

text \<open>A host that makes one call after the other.\<close>

fun session :: "nat \<Rightarrow> ('h, 'u) sys \<Rightarrow> apicall list \<Rightarrow> ('h, 'u) world \<Rightarrow> ('h, 'u) world option" where
  "session n S [] w = Some w"
| "session n S (c # cs) w = do { (r, w) \<leftarrow> api (mk n S) c w; session n S cs w }"

section \<open>The contract, for the whole system\<close>

lemma bind_give:
  "ensures m (\<lambda>(r, w'). step (\<lambda>a. T a + cnt r a) w0 w') \<Longrightarrow> ensures (m \<bind> give) (\<lambda>(r, w'). step T w0 w')"
  by (cases m) (auto simp: give_def intro!: step_cong [OF step_disown])

lemma bind_reply:
  "ensures m (\<lambda>(r, w'). step T w0 w') \<Longrightarrow> ensures (m \<bind> reply) (\<lambda>(r, w'). step T w0 w')"
  by (cases m) (auto simp: reply_def)

lemma step_js_libc: "step T w0 w \<Longrightarrow> js_libc X w = (r, w') \<Longrightarrow> step T w0 w'"
  by (auto simp: js_libc_def intro: step_ticks)

lemma step_js_allocated: "step T w0 w \<Longrightarrow> js_allocated r w = (a, w') \<Longrightarrow> step T w0 w'"
  by (cases r) (auto simp: js_allocated_def Let_def split: if_splits intro: step_oom step_jsmem)

context engine_link
begin

lemma serve_ok [vcg]:
  assumes "step T w0 w"
  shows "ensures (serve X q w) (\<lambda>(r, w'). step T w0 w')"
proof (cases q)
  case (QHost mg argv)
  then show ?thesis
    by (simp add: serve_def) (rule bind_give [OF js_kmp_host_ok [OF assms]])
next
  case (QPrint argv)
  then show ?thesis
    by (simp add: serve_def) (rule bind_give [OF js_print_ok [OF assms]])
next
  case QPerformanceNow
  then show ?thesis
    by (simp add: serve_def) (rule bind_give [OF performance_now_ok [OF assms]])
next
  case (QReject p r h)
  then show ?thesis
    by (simp add: serve_def) (rule ensures_bindI [OF tracker_ok [OF assms]], simp)
next
  case (QNormalize base name)
  then show ?thesis using assms by (simp add: serve_def kmp_module_normalize_def enter_ok)
next
  case (QLoad name)
  then show ?thesis
    by (simp add: serve_def) (rule ensures_bindI [OF module_loader_ok [OF assms]], simp)
next
  case QPoll
  then show ?thesis using assms by (simp add: serve_def Let_def step_irq)
qed (use assms in \<open>auto simp: serve_def step_jsmem split: prod.splits dest: step_js_libc step_js_allocated\<close>)

lemma engine_loop_ok [vcg]:
  "step T w0 w \<Longrightarrow> ensures (engine_loop n X i w) (\<lambda>(r, w'). step T w0 w')"
proof (induction n arbitrary: i w)
  case (Suc n)
  obtain out h where o: "q_step (lib X) i (heap w) = (out, h)" by fastforce
  have st: "step T w0 (w\<lparr>heap := h\<rparr>)" by (rule step_heap [OF Suc.prems])
  show ?case
  proof (cases out)
    case (OutReq q)
    with o have "engine_loop (Suc n) X i w =
        serve X q (w\<lparr>heap := h\<rparr>) \<bind> (\<lambda>(a, w). engine_loop n X (InAnswer a) w)" by simp
    then show ?thesis using st by - (erule ssubst, (rule flow vcg Suc.IH | assumption)+)
  qed (use o st in simp)
qed simp

lemma api_ok [vcg]:
  assumes "step T w0 w"
  shows "ensures (api X c w) (\<lambda>(r, w'). step T w0 w')"
proof (cases c)
  case (ARetain r)
  then show ?thesis using assms by (simp add: api_def done'_def step_retain)
next
  case (ARelease r)
  then show ?thesis using assms by (simp add: api_def done'_def step_release)
next
  case AStats
  then show ?thesis using assms by (simp add: api_def) (rule ensures_bindI [OF get_stats_ok], auto)
next
  case ADumpMemory
  then show ?thesis using assms by (simp add: api_def) (rule ensures_bindI [OF dump_memory_ok], auto simp: reply_def)
qed (simp add: api_def, rule bind_reply, rule vcg, rule assms)+

lemma host_loop_ok [vcg]:
  "step T w0 w \<Longrightarrow> ensures (host_loop n X i w) (\<lambda>(r, w'). step T w0 w')"
proof (induction n arbitrary: i w)
  case (Suc n)
  obtain out u where o: "h_step (lib X) i (hst w) = (out, u)" by fastforce
  have st: "step T w0 (w\<lparr>hst := u\<rparr>)" by (rule step_hst [OF Suc.prems])
  show ?case
  proof (cases out)
    case (HApi c)
    with o have "host_loop (Suc n) X i w = api X c (w\<lparr>hst := u\<rparr>) \<bind> (\<lambda>(r, w). host_loop n X r w)" by simp
    then show ?thesis using st by - (erule ssubst, (rule flow vcg Suc.IH | assumption)+)
  qed (use o st in simp)
qed simp

end

lemma mk_fields:
  "lib (mk n S) = S" "fuel (mk n S) = n"
  "enter (mk (Suc n) S) c w = engine_loop (Suc n) (mk n S) (InCall c) w"
  "ask (mk (Suc n) S) i w = host_loop (Suc n) (mk n S) i w"
  by (cases n; simp del: engine_loop.simps host_loop.simps)+

lemma mk_link: "engine_link (mk n S)"
proof (induction n)
  case (Suc n)
  show ?case
  proof
    fix T w0 w c r w' assume "step T w0 w" "enter (mk (Suc n) S) c w = Some (r, w')"
    then show "step T w0 w'"
      using engine_link.engine_loop_ok [OF Suc.IH, of T w0 w "Suc n" "InCall c"] by (simp del: engine_loop.simps)
  next
    fix T w0 w i x w' assume "step T w0 w" "ask (mk (Suc n) S) i w = Some (x, w')"
    then show "step T w0 w'"
      using engine_link.host_loop_ok [OF Suc.IH, of T w0 w "Suc n" i] by (simp del: host_loop.simps split: prod.splits)
  qed
qed (unfold_locales; simp)

interpretation shim: engine_link "mk n S" for n S
  by (rule mk_link)

lemma api_step: "step T w0 w \<Longrightarrow> api (mk n S) c w = Some (r, w') \<Longrightarrow> step T w0 w'"
  using shim.api_ok [of T w0 w n S c] by simp

lemma session_step: "step T w0 w \<Longrightarrow> session n S cs w = Some w' \<Longrightarrow> step T w0 w'"
  by (induction cs arbitrary: w) (auto split: bind_splits dest: api_step)

end
