(* ===== verification/Lifecycle.thy ===== *)
theory Lifecycle
  imports Exec
begin

text \<open>
  Creating and destroying an engine. \<open>kmpjs_create\<close> builds the runtime, the context and the globals and
  undoes everything when a step fails; \<open>kmpjs_destroy\<close> releases every engine value the struct holds,
  which is what \<open>JS_FreeRuntime\<close> insists on.
\<close>

section \<open>Globals\<close>

definition new_function ::
  "('h, 'u) link \<Rightarrow> jsval \<Rightarrow> bytes \<Rightarrow> int \<Rightarrow> ('h, 'u) world \<Rightarrow> (int \<times> ('h, 'u) world) option" where
  "new_function X obj name n w =
     do { (f, w) \<leftarrow> js_val X (CNewCFunction name n) w; JS_SetPropertyStr X obj name f w }"

text \<open>Up to the label \<open>done\<close>: the result and what \<open>console\<close> and \<open>performance\<close> then hold.\<close>

definition install_body ::
  "('h, 'u) link \<Rightarrow> jsval \<Rightarrow> jsval \<Rightarrow> jsval \<Rightarrow> ('h, 'u) world \<Rightarrow> ((int \<times> jsval \<times> jsval) \<times> ('h, 'u) world) option" where
  "install_body X global console performance w =
     (if JS_IsException console \<or> JS_IsException performance then Some ((-1, console, performance), w)
      else do {
        (rc, w) \<leftarrow> new_function X console ''log'' 1 w;
        if rc < 0 then Some ((-1, console, performance), w)
        else do {
          (rc, w) \<leftarrow> new_function X performance ''now'' 0 w;
          if rc < 0 then Some ((-1, console, performance), w)
          else do {
            (rc, w) \<leftarrow> new_function X global ''print'' 1 w;
            if rc < 0 then Some ((-1, console, performance), w)
            else do {
              (rc, w) \<leftarrow> JS_SetPropertyStr X global ''console'' console w;
              if rc < 0 then Some ((-1, JUndefined, performance), w)
              else do {
                (rc, w) \<leftarrow> JS_SetPropertyStr X global ''performance'' performance w;
                if rc < 0 then Some ((-1, JUndefined, JUndefined), w)
                else Some ((0, JUndefined, JUndefined), w) } } } } })"

definition install_globals :: "('h, 'u) link \<Rightarrow> ('h, 'u) world \<Rightarrow> (int \<times> ('h, 'u) world) option" where
  "install_globals X w =
     do { (global, w) \<leftarrow> js_val X CGetGlobalObject w;
          (console, w) \<leftarrow> js_val X CNewObject w;
          (performance, w) \<leftarrow> js_val X CNewObject w;
          (r, w) \<leftarrow> install_body X global console performance w;
          Some (fst r, JS_FreeValue X global (JS_FreeValue X (snd (snd r)) (JS_FreeValue X (fst (snd r)) w))) }"

section \<open>Probing the class ids\<close>

definition probe_source :: bytes where
  "probe_source = ''[new ArrayBuffer(0), new SharedArrayBuffer(0), new Uint8ClampedArray(0), new Float64Array(0), BigInt]''"

definition probe_item :: "('h, 'u) link \<Rightarrow> jsval \<Rightarrow> nat \<Rightarrow> ('h, 'u) world \<Rightarrow> (nat \<times> ('h, 'u) world) option" where
  "probe_item X arr i w =
     do { (item, w) \<leftarrow> js_val X (CGetPropertyUint32 arr i) w;
          Some (q_class_id (lib X) (heap w) item, JS_FreeValue X item w) }"

definition probe_ok :: "('h, 'u) link \<Rightarrow> ('h, 'u) world \<Rightarrow> bool" where
  "probe_ok X w =
     (let e = eng w in
      cls_array_buffer e \<noteq> 0 \<and> cls_shared_array_buffer e \<noteq> 0 \<and> cls_typed_array_first e \<noteq> 0 \<and>
      cls_typed_array_last e > cls_typed_array_first e \<and> q_is_function (lib X) (heap w) (bigint_ctor e))"

definition probe_classes :: "('h, 'u) link \<Rightarrow> ('h, 'u) world \<Rightarrow> (int \<times> ('h, 'u) world) option" where
  "probe_classes X w =
     do { (arr, w) \<leftarrow> js_val X (CEval probe_source ''<init>'' JS_EVAL_TYPE_GLOBAL) w;
          if JS_IsException arr then Some (-1, w)
          else do {
            (c, w) \<leftarrow> probe_item X arr 0 w;
            (d, w) \<leftarrow> probe_item X arr 1 (upd_eng (\<lambda>e. e\<lparr>cls_array_buffer := c\<rparr>) w);
            (f, w) \<leftarrow> probe_item X arr 2 (upd_eng (\<lambda>e. e\<lparr>cls_shared_array_buffer := d\<rparr>) w);
            (l, w) \<leftarrow> probe_item X arr 3 (upd_eng (\<lambda>e. e\<lparr>cls_typed_array_first := f\<rparr>) w);
            (b, w) \<leftarrow> js_val X (CGetPropertyUint32 arr 4) (upd_eng (\<lambda>e. e\<lparr>cls_typed_array_last := l\<rparr>) w);
            let w = upd_eng (\<lambda>e. e\<lparr>bigint_ctor := b\<rparr>) w;
            Some (if probe_ok X w then 0 else -1, JS_FreeValue X arr w) } }"

section \<open>Creation\<close>

record kmpjs_config =
  cfg_module_scheme :: "bytes option"
  cfg_memory_limit :: int
  cfg_max_stack_size :: int
  cfg_gc_threshold :: int

record kmpjs_callbacks =
  cb_host :: bool
  cb_log :: bool
  cb_rejection :: bool
  cb_module_loader :: bool

definition scheme_of :: "kmpjs_config \<Rightarrow> bytes" where
  "scheme_of config =
     (case cfg_module_scheme config of None \<Rightarrow> ''kmp'' | Some s \<Rightarrow> if s \<noteq> [] then s else ''kmp'')"

text \<open>The struct after \<open>calloc\<close> and the assignments that precede \<open>JS_NewRuntime2\<close>.\<close>

definition new_engine :: "kmpjs_config \<Rightarrow> kmpjs_callbacks \<Rightarrow> kmpjs_engine" where
  "new_engine config cb =
     \<lparr>rt = JNull, ctx = JNull, has_host = cb_host cb, has_log = cb_log cb, has_rejection = cb_rejection cb,
      has_module_loader = cb_module_loader cb, max_stack_size = cfg_max_stack_size config mod 2 ^ 64,
      memory_limit = (if cfg_memory_limit config > 0 then cfg_memory_limit config else 0),
      cls_array_buffer = 0, cls_shared_array_buffer = 0, cls_typed_array_first = 0, cls_typed_array_last = 0,
      bigint_ctor = JInt 0, module_scheme = scheme_of config, modules = [], module_cap = 0,
      rejected = [], rejected_cap = 0, state = KMP_IDLE, oom = False, refs = empty_table\<rparr>"

text \<open>\<open>JS_FreeContext\<close> and \<open>JS_FreeRuntime\<close> on the pointers of the struct.\<close>

definition free_context :: "('h, 'u) link \<Rightarrow> ('h, 'u) world \<Rightarrow> ('h, 'u) world" where
  "free_context X w = upd_eng (\<lambda>e. e\<lparr>ctx := JNull\<rparr>) (JS_FreeValue X (ctx (eng w)) w)"

definition free_runtime :: "('h, 'u) link \<Rightarrow> ('h, 'u) world \<Rightarrow> ('h, 'u) world" where
  "free_runtime X w = upd_eng (\<lambda>e. e\<lparr>rt := JNull\<rparr>) (JS_FreeValue X (rt (eng w)) w)"

definition free_bigint :: "('h, 'u) link \<Rightarrow> ('h, 'u) world \<Rightarrow> ('h, 'u) world" where
  "free_bigint X w = upd_eng (\<lambda>e. e\<lparr>bigint_ctor := JUndefined\<rparr>) (JS_FreeValue X (bigint_ctor (eng w)) w)"

text \<open>The limits the configuration sets on a new runtime.\<close>

definition apply_limits :: "('h, 'u) link \<Rightarrow> kmpjs_config \<Rightarrow> ('h, 'u) world \<Rightarrow> (unit \<times> ('h, 'u) world) option" where
  "apply_limits X config w =
     (let w = (if cfg_memory_limit config > 0
               then w\<lparr>jsmem := (jsmem w)\<lparr>mstate := (mstate (jsmem w))\<lparr>malloc_limit := of_int (cfg_memory_limit config)\<rparr>\<rparr>\<rparr>
               else w) in
      do { (_, w) \<leftarrow> enter X (CSetMaxStackSize (cfg_max_stack_size config mod 2 ^ 64)) w;
           if cfg_gc_threshold config > 0
           then do { (_, w) \<leftarrow> enter X (CSetGCThreshold (cfg_gc_threshold config mod 2 ^ 64)) w; Some ((), w) }
           else Some ((), w) })"

text \<open>Everything after the context exists.\<close>

definition create_globals :: "('h, 'u) link \<Rightarrow> ('h, 'u) world \<Rightarrow> (bool \<times> ('h, 'u) world) option" where
  "create_globals X w =
     do { (rc, w) \<leftarrow> install_globals X (upd_eng (\<lambda>e. e\<lparr>bigint_ctor := JUndefined\<rparr>) w);
          (rc, w) \<leftarrow> (if rc \<noteq> 0 then Some (rc, w) else probe_classes X w);
          if rc \<noteq> 0 then Some (False, free_runtime X (free_context X (free_bigint X w)))
          else Some (True, w) }"

text \<open>From \<open>JS_NewRuntime2\<close> on.\<close>

definition create_runtime ::
  "('h, 'u) link \<Rightarrow> kmpjs_config \<Rightarrow> ('h, 'u) world \<Rightarrow> (bool \<times> ('h, 'u) world) option" where
  "create_runtime X config w =
     do { (r, w) \<leftarrow> js_val X CNewRuntime w;
          if JS_IsNull r then Some (False, w)
          else do {
            (_, w) \<leftarrow> apply_limits X config (upd_eng (\<lambda>e. e\<lparr>rt := r\<rparr>) w);
            (c, w) \<leftarrow> js_val X CNewContext w;
            if JS_IsNull c then Some (False, free_runtime X w)
            else create_globals X (upd_eng (\<lambda>e. e\<lparr>ctx := c\<rparr>) w) } }"

text \<open>\<open>kmpjs_create\<close>: whether a pointer is returned. The runtime starts with an unlimited heap.\<close>

definition kmpjs_create ::
  "('h, 'u) link \<Rightarrow> kmpjs_config \<Rightarrow> kmpjs_callbacks \<Rightarrow> ('h, 'u) world \<Rightarrow> (bool \<times> ('h, 'u) world) option" where
  "kmpjs_create X config cb w =
     do { (ok, w) \<leftarrow> c_malloc X w;
          if \<not> ok then Some (False, w)
          else do {
            (ok, w) \<leftarrow> c_malloc X (w\<lparr>eng := new_engine config cb, mem := init_mem, jsmem := init_heap (- 1)\<rparr>);
            if \<not> ok then Some (False, w) else create_runtime X config w } }"

section \<open>Destruction\<close>

definition free_slot :: "('h, 'u) link \<Rightarrow> kmp_slot \<Rightarrow> ('h, 'u) world \<Rightarrow> ('h, 'u) world" where
  "free_slot X s w = (if 0 < s_refcount s then JS_FreeValue X (s_val s) w else w)"

definition free_slots :: "('h, 'u) link \<Rightarrow> ('h, 'u) world \<Rightarrow> ('h, 'u) world" where
  "free_slots X w = upd_eng (\<lambda>e. e\<lparr>refs := empty_table\<rparr>) (fold (free_slot X) (slots (refs (eng w))) w)"

definition kmpjs_destroy :: "('h, 'u) link \<Rightarrow> ('h, 'u) world \<Rightarrow> ('h, 'u) world" where
  "kmpjs_destroy X w =
     (let w = free_slots X w;
          w = free_bigint X w;
          w = forget_all X w;
          w = free_context X w;
          w = free_runtime X w;
          w = upd_eng (\<lambda>e. e\<lparr>modules := [], module_scheme := []\<rparr>) w in
      fold (\<lambda>i. upd_mem (buf_free i)) [OUT_STR, OUT_STACK, REJ_STR, REJ_STACK, LOG_LINE] w)"

section \<open>What the engine struct holds\<close>

lemma hold_simps [simp]:
  "hold (e\<lparr>bigint_ctor := v\<rparr>) a + cnt (bigint_ctor e) a = hold e a + cnt v a"
  "hold (e\<lparr>ctx := v\<rparr>) a + cnt (ctx e) a = hold e a + cnt v a"
  "hold (e\<lparr>rt := v\<rparr>) a + cnt (rt e) a = hold e a + cnt v a"
  by (simp_all add: hold_def)

lemma good_eng:
  assumes "good T w" "\<And>a. hold (f (eng w)) a + T' a = hold (eng w) a + T a"
    "wf_table (refs (eng w)) \<Longrightarrow> wf_table (refs (f (eng w)))"
    "rejected (f (eng w)) = rejected (eng w)"
  shows "good T' (upd_eng f w)"
  using assms by (simp add: good_def upd_eng_def)

lemma good_cong: "good T' w \<Longrightarrow> (\<And>a. T' a = T a) \<Longrightarrow> good T w"
  by (simp add: good_def)

lemma good_free: "good T w \<Longrightarrow> (\<And>a. cnt v a \<le> T a) \<Longrightarrow> good (\<lambda>a. T a - cnt v a) (JS_FreeValue X v w)"
  using step_free [OF step_start, of T w v X] by (simp add: step_def)

text \<open>Releasing a field and clearing it, in either order.\<close>

lemma good_clear:
  assumes "good T w" "\<And>a. hold (f (eng w)) a + cnt v a = hold (eng w) a"
    "refs (f (eng w)) = refs (eng w)" "rejected (f (eng w)) = rejected (eng w)"
  shows "good T (upd_eng f (JS_FreeValue X v w))"
proof -
  have "good (\<lambda>a. T a + cnt v a) (upd_eng f w)"
    by (rule good_eng [OF assms(1)]) (use assms in \<open>auto simp: algebra_simps\<close>)
  from good_free [OF this, of v X] show ?thesis by (simp add: free_upd_eng)
qed

lemma good_free_bigint: "good T w \<Longrightarrow> good T (free_bigint X w)"
  unfolding free_bigint_def using hold_simps(1) [of JUndefined "eng w"] by (intro good_clear) auto

lemma good_free_context: "good T w \<Longrightarrow> good T (free_context X w)"
  unfolding free_context_def using hold_simps(2) [of JNull "eng w"] by (intro good_clear) auto

lemma good_free_runtime: "good T w \<Longrightarrow> good T (free_runtime X w)"
  unfolding free_runtime_def using hold_simps(3) [of JNull "eng w"] by (intro good_clear) auto

section \<open>Creation keeps the contract\<close>

text \<open>A good world whose runtime, context and \<open>BigInt\<close> fields are known.\<close>

definition at :: "jsval \<Rightarrow> jsval \<Rightarrow> jsval \<Rightarrow> (nat \<Rightarrow> nat) \<Rightarrow> ('h, 'u) world \<Rightarrow> bool" where
  "at r c b T w = (good T w \<and> rt (eng w) = r \<and> ctx (eng w) = c \<and> bigint_ctor (eng w) = b)"

lemma config_of_fields: "rt (config_of e) = rt e" "ctx (config_of e) = ctx e" "bigint_ctor (config_of e) = bigint_ctor e"
  by (simp_all add: config_of_def)

lemma step_at: "at r c b T w \<Longrightarrow> step T' w w' \<Longrightarrow> at r c b T' w'"
  unfolding at_def step_def rel_def by (metis config_of_fields)

lemma at_good: "at r c b T w \<Longrightarrow> good T w"
  by (simp add: at_def)

lemma at_step: "at r c b T w \<Longrightarrow> step T w w"
  by (simp add: at_def step_start)

lemma ensures_at:
  "at r c b T w \<Longrightarrow> (step T w w \<Longrightarrow> ensures m (\<lambda>(x, w'). step (T' x) w w')) \<Longrightarrow>
   ensures m (\<lambda>(x, w'). at r c b (T' x) w')"
  by (frule at_step) (cases m, auto intro: step_at)

text \<open>An engine before \<open>kmpjs_create\<close>: nothing is held.\<close>

definition blank :: "('h, 'u) world \<Rightarrow> bool" where
  "blank w = (\<not> bad w \<and> (\<forall>a. held w a = 0))"

lemma at_new_engine:
  "blank w \<Longrightarrow> at JNull JNull (JInt 0) (\<lambda>a. 0) (w\<lparr>eng := new_engine config cb, mem := init_mem, jsmem := m\<rparr>)"
  by (simp add: blank_def at_def good_def new_engine_def hold_def table_held_def empty_table_def wf_mem_init
      wf_table_empty [unfolded empty_table_def])

lemma at_cls:
  "at r c b T w \<Longrightarrow> at r c b T (upd_eng (\<lambda>e. e\<lparr>cls_array_buffer := x\<rparr>) w)"
  "at r c b T w \<Longrightarrow> at r c b T (upd_eng (\<lambda>e. e\<lparr>cls_shared_array_buffer := x\<rparr>) w)"
  "at r c b T w \<Longrightarrow> at r c b T (upd_eng (\<lambda>e. e\<lparr>cls_typed_array_first := x\<rparr>) w)"
  "at r c b T w \<Longrightarrow> at r c b T (upd_eng (\<lambda>e. e\<lparr>cls_typed_array_last := x\<rparr>) w)"
  by (auto simp: at_def upd_eng_def good_def hold_def)

text \<open>Storing an owned value in a field that held none.\<close>

lemma at_store:
  "at JNull c b (\<lambda>a. T a + cnt v a) w \<Longrightarrow> at v c b T (upd_eng (\<lambda>e. e\<lparr>rt := v\<rparr>) w)"
  "at r JNull b (\<lambda>a. T a + cnt v a) w \<Longrightarrow> at r v b T (upd_eng (\<lambda>e. e\<lparr>ctx := v\<rparr>) w)"
  "at r c JUndefined (\<lambda>a. T a + cnt v a) w \<Longrightarrow> at r c v T (upd_eng (\<lambda>e. e\<lparr>bigint_ctor := v\<rparr>) w)"
  "at r c (JInt n) T w \<Longrightarrow> at r c JUndefined T (upd_eng (\<lambda>e. e\<lparr>bigint_ctor := JUndefined\<rparr>) w)"
  by (auto simp: at_def upd_eng_def good_def hold_def)

text \<open>Undoing a creation leaves nothing held.\<close>

lemma at_undo:
  "at r c b T w \<Longrightarrow> at r c JUndefined T (free_bigint X w)"
  "at r c b T w \<Longrightarrow> at r JNull b T (free_context X w)"
  "at r c b T w \<Longrightarrow> at JNull c b T (free_runtime X w)"
  by (auto simp: at_def good_free_bigint good_free_context good_free_runtime)
     (auto simp: free_bigint_def free_context_def free_runtime_def upd_eng_def)

text \<open>After a failed creation: no runtime, no context, no \<open>BigInt\<close> constructor.\<close>

definition undone :: "(nat \<Rightarrow> nat) \<Rightarrow> ('h, 'u) world \<Rightarrow> bool" where
  "undone T w = (at JNull JNull JUndefined T w \<or> at JNull JNull (JInt 0) T w)"

context engine_link
begin

lemma new_function_ok [vcg]:
  assumes "step T w0 w"
  shows "ensures (new_function X obj name n w) (\<lambda>(r, w'). step T w0 w')"
  unfolding new_function_def using assms
  by - (rule flow vcg | rule ensures_tail, rule vcg | assumption | simp)+

lemma install_body_ok:
  assumes "step (\<lambda>a. T a + cnt c a + cnt p a) w0 w"
  shows "ensures (install_body X g c p w) (\<lambda>(r, w'). step (\<lambda>a. T a + cnt (fst (snd r)) a + cnt (snd (snd r)) a) w0 w')"
  unfolding install_body_def using assms
  by - (rule flow vcg | assumption | rule step_cong | simp)+

lemma install_globals_ok [vcg]:
  assumes "step T w0 w"
  shows "ensures (install_globals X w) (\<lambda>(r, w'). step T w0 w')"
  unfolding install_globals_def using assms
  by - (rule flow install_body_ok vcg keep | assumption | rule step_cong | simp)+

lemma probe_item_ok [vcg]:
  assumes "step T w0 w"
  shows "ensures (probe_item X arr i w) (\<lambda>(r, w'). step T w0 w')"
  unfolding probe_item_def using assms
  by - (rule flow vcg keep | assumption | rule step_cong | simp)+

lemma at_contracts:
  assumes "at r c b T w"
  shows "ensures (js_val X q w) (\<lambda>(v, w'). at r c b (\<lambda>a. T a + cnt v a) w')"
    "ensures (probe_item X arr i w) (\<lambda>(v, w'). at r c b T w')"
    "ensures (install_globals X w) (\<lambda>(v, w'). at r c b T w')"
    "ensures (enter X q w) (\<lambda>(v, w'). at r c b T w')"
    "ensures (c_malloc X w) (\<lambda>(v, w'). at r c b T w')"
  by (rule ensures_at [OF assms], erule vcg)+

lemma at_free: "at r c b (\<lambda>a. T a + cnt v a) w \<Longrightarrow> at r c b T (JS_FreeValue X v w)"
  by (frule at_step [THEN step_free, of r c b _ w v X]) (auto elim: step_at intro: step_cong)

lemma probe_classes_ok:
  assumes "at r c JUndefined T w"
  shows "ensures (probe_classes X w) (\<lambda>(rc, w'). \<exists>b. at r c b T w')"
  unfolding probe_classes_def Let_def using assms
  apply -
  apply (rule ensures_bindI, erule at_contracts)
  apply (rule ensures_if)
  subgoal by auto
  apply (rule ensures_bindI, erule at_contracts)
  apply (rule ensures_bindI, rule at_contracts, erule at_cls)
  apply (rule ensures_bindI, rule at_contracts, erule at_cls)
  apply (rule ensures_bindI, rule at_contracts, erule at_cls)
  apply (rule ensures_bindI, rule at_contracts, erule at_cls)
  apply (rule ensures_ret, rule exI, rule at_free, erule at_store)
  done

lemma create_globals_ok:
  assumes "at r c (JInt n) T w"
  shows "ensures (create_globals X w) (\<lambda>(ok, w'). if ok then good T w' else undone T w')"
proof -
  have probe: "ensures (if rc \<noteq> 0 then Some (rc, w1) else probe_classes X w1) (\<lambda>(rc, w'). \<exists>b. at r c b T w')"
    if "at r c JUndefined T w1" for rc :: int and w1
    using that probe_classes_ok [OF that] by auto
  have undo: "undone T (free_runtime X (free_context X (free_bigint X w1)))" if "at r c b T w1" for b w1
    using at_undo(3) [OF at_undo(2) [OF at_undo(1) [OF that]]] by (simp add: undone_def)
  show ?thesis
    unfolding create_globals_def
    by (rule ensures_bindI [OF at_contracts(3) [OF at_store(4) [OF assms]]], rule ensures_bindI, erule probe)
       (auto intro: undo at_good)
qed

lemma apply_limits_ok:
  assumes "at r c b T w"
  shows "ensures (apply_limits X config w) (\<lambda>(u, w'). at r c b T w')"
proof -
  have "at r c b T (w\<lparr>jsmem := m\<rparr>)" for m using assms by (auto simp: at_def good_def)
  then have "at r c b T (if cfg_memory_limit config > 0 then w\<lparr>jsmem := m\<rparr> else w)" for m
    using assms by simp
  then show ?thesis
    unfolding apply_limits_def Let_def
    by (intro ensures_bindI [OF at_contracts(4)] ensures_if ensures_ret) auto
qed

lemma create_runtime_ok:
  assumes "at JNull JNull (JInt 0) T w"
  shows "ensures (create_runtime X config w) (\<lambda>(ok, w'). if ok then good T w' else undone T w')"
proof -
  have undo: "undone T (free_runtime X w')" if "at r JNull (JInt 0) (\<lambda>a. T a + cnt v a) w'" "JS_IsNull v" for v w' r
    using at_undo(3) [OF that(1)] that(2) by (auto simp: undone_def)
  have lim: "ensures (apply_limits X config (upd_eng (\<lambda>e. e\<lparr>rt := r\<rparr>) w1)) (\<lambda>(u, w'). at r JNull (JInt 0) T w')"
    if "at JNull JNull (JInt 0) (\<lambda>a. T a + cnt r a) w1" for r w1
    by (rule apply_limits_ok [OF at_store(1) [OF that]])
  have glob: "ensures (create_globals X (upd_eng (\<lambda>e. e\<lparr>ctx := c\<rparr>) w1))
      (\<lambda>(ok, w'). if ok then good T w' else undone T w')"
    if "at r JNull (JInt 0) (\<lambda>a. T a + cnt c a) w1" for r c w1
    by (rule create_globals_ok [OF at_store(2) [OF that]])
  show ?thesis
    unfolding create_runtime_def
    by (rule ensures_bindI [OF at_contracts(1) [OF assms]], rule ensures_if, force simp: undone_def,
        rule ensures_bindI, erule lim, rule ensures_bindI, erule at_contracts, rule ensures_if,
        rule ensures_ret, simp only: if_False, erule (1) undo, erule glob)
qed

lemma create_ok:
  assumes "blank w"
  shows "ensures (kmpjs_create X config cb w)
    (\<lambda>(ok, w'). if ok then good (\<lambda>a. 0) w' else blank w' \<or> undone (\<lambda>a. 0) w')"
proof -
  let ?Q = "\<lambda>(ok, w'). if ok then good (\<lambda>a. 0) w' else blank w' \<or> undone (\<lambda>a. 0) w'"
  have alloc: "ensures (c_malloc X w) (\<lambda>(ok, w'). blank w')" using assms by (simp add: c_malloc_def blank_def)
  have run: "ensures (create_runtime X config w1) ?Q" if "at JNull JNull (JInt 0) (\<lambda>a. 0) w1" for w1
    by (rule ensures_conseq [OF create_runtime_ok [OF that]]) (auto split: if_splits)
  show ?thesis
    unfolding kmpjs_create_def
    by (rule ensures_bindI [OF alloc], rule ensures_if, simp, rule ensures_bindI, rule at_contracts(5),
        erule at_new_engine, rule ensures_if, force simp: undone_def, erule run)
qed

end

section \<open>Destruction releases everything\<close>

lemma fold_free_slot_upd: "upd_eng f (fold (free_slot X) ss w) = fold (free_slot X) ss (upd_eng f w)"
  by (induction ss arbitrary: w) (auto simp: free_slot_def free_upd_eng)

lemma good_fold_free_slot:
  "good (\<lambda>a. T a + (\<Sum>s\<leftarrow>ss. if 0 < s_refcount s then cnt (s_val s) a else 0)) w \<Longrightarrow>
   good T (fold (free_slot X) ss w)"
proof (induction ss arbitrary: w)
  case (Cons s ss)
  let ?R = "\<lambda>a. \<Sum>s\<leftarrow>ss. if 0 < s_refcount s then cnt (s_val s) a else 0"
  have "good (\<lambda>a. T a + ?R a) (free_slot X s w)"
  proof (cases "0 < s_refcount s")
    case True
    with Cons.prems have "good (\<lambda>a. T a + ?R a + cnt (s_val s) a) w" by (simp add: algebra_simps)
    from good_free [OF this, of "s_val s" X] True show ?thesis by (simp add: free_slot_def)
  qed (use Cons.prems in \<open>simp add: free_slot_def\<close>)
  from Cons.IH [OF this] show ?case by simp
qed simp

lemma good_free_slots: "good T w \<Longrightarrow> good T (free_slots X w)"
proof -
  assume g: "good T w"
  have "good (\<lambda>a. T a + (\<Sum>s\<leftarrow>slots (refs (eng w)). if 0 < s_refcount s then cnt (s_val s) a else 0))
      (upd_eng (\<lambda>e. e\<lparr>refs := empty_table\<rparr>) w)"
    by (rule good_eng [OF g]) (auto simp: hold_def table_held_def empty_table_def wf_table_empty [unfolded empty_table_def])
  then show ?thesis unfolding free_slots_def fold_free_slot_upd by (rule good_fold_free_slot)
qed

lemma good_forget_all: "good T w \<Longrightarrow> good T (forget_all X w) \<and> rejected (eng (forget_all X w)) = []"
  using step_forget_all [OF step_start, of T w X] forget_all_empty [OF step_start, of T w X] by (simp add: step_def)

lemma eng_forget_n: "config_of (eng (forget_n X n w)) = config_of (eng w) \<and> refs (eng (forget_n X n w)) = refs (eng w)"
  by (induction n arbitrary: w) (auto simp: forget_rejected_def Let_def upd_eng_def config_of_def)

lemma eng_forget_all:
  "rt (eng (forget_all X w)) = rt (eng w)" "ctx (eng (forget_all X w)) = ctx (eng w)"
  "bigint_ctor (eng (forget_all X w)) = bigint_ctor (eng w)" "refs (eng (forget_all X w)) = refs (eng w)"
  using eng_forget_n [of X "length (rejected (eng w))" w] config_of_fields unfolding forget_all_def by metis+

lemma fold_buf_free:
  "eng (fold (\<lambda>i. upd_mem (buf_free i)) is w) = eng w" "held (fold (\<lambda>i. upd_mem (buf_free i)) is w) = held w"
  "bad (fold (\<lambda>i. upd_mem (buf_free i)) is w) = bad w"
  by (induction "is" arbitrary: w) (auto simp: upd_mem_def)

text \<open>The world after the engine values are gone and before the buffers are.\<close>

definition destroyed :: "('h, 'u) link \<Rightarrow> ('h, 'u) world \<Rightarrow> ('h, 'u) world" where
  "destroyed X w = free_runtime X (free_context X (forget_all X (free_bigint X (free_slots X w))))"

lemma destroyed_blank:
  assumes "good (\<lambda>a. 0) w"
  shows "blank (destroyed X w)"
proof -
  let ?w1 = "free_bigint X (free_slots X w)"
  have g: "good (\<lambda>a. 0) ?w1" by (intro good_free_bigint good_free_slots assms)
  have "good (\<lambda>a. 0) (destroyed X w)"
    unfolding destroyed_def using good_forget_all [OF g, of X] by (intro good_free_runtime good_free_context) simp
  moreover have "hold (eng (destroyed X w)) a = 0" for a
    using good_forget_all [OF g, of X]
    by (simp add: destroyed_def free_runtime_def free_context_def hold_def upd_eng_def eng_forget_all
        free_bigint_def free_slots_def table_held_def empty_table_def)
  ultimately show ?thesis by (simp add: good_def blank_def)
qed

lemma destroy_blank: "good (\<lambda>a. 0) w \<Longrightarrow> blank (kmpjs_destroy X w)"
  using destroyed_blank [of w X] unfolding kmpjs_destroy_def Let_def destroyed_def blank_def fold_buf_free
  by (simp add: upd_eng_def)

lemma mem_destroyed: "mem (destroyed X w) = mem w"
proof -
  have free: "mem (JS_FreeValue X v w) = mem w" for v w by (simp add: JS_FreeValue_def disown_def)
  have slots: "mem (fold (free_slot X) ss w) = mem w" for ss w
    by (induction ss arbitrary: w) (auto simp: free_slot_def free)
  have "mem (forget_n X n w) = mem w" for n w
    by (induction n arbitrary: w) (auto simp: forget_rejected_def Let_def upd_eng_def free)
  then show ?thesis
    by (simp add: destroyed_def free_runtime_def free_context_def free_bigint_def free_slots_def forget_all_def
        upd_eng_def free slots)
qed

text \<open>The data blocks of the five buffers are freed.\<close>

lemma buf_free_blocks:
  "blocks (buf_free i m) k \<noteq> None \<Longrightarrow> blocks m k \<noteq> None \<and> b_data (bufs m i) \<noteq> Some k"
  by (auto simp: buf_free_def set_buf_def Let_def split: option.splits if_splits)

lemma buf_free_bufs: "bufs (buf_free i m) j = (if j = i then empty_buf else bufs m j)"
  by (auto simp: buf_free_def set_buf_def Let_def split: option.splits)

lemma fold_buf_free_blocks:
  "distinct is \<Longrightarrow> blocks (mem (fold (\<lambda>i. upd_mem (buf_free i)) is w)) k \<noteq> None \<Longrightarrow>
   blocks (mem w) k \<noteq> None \<and> (\<forall>i \<in> set is. b_data (bufs (mem w) i) \<noteq> Some k)"
proof (induction "is" arbitrary: w)
  case (Cons i "is")
  then have "blocks (buf_free i (mem w)) k \<noteq> None \<and> (\<forall>j \<in> set is. b_data (bufs (buf_free i (mem w)) j) \<noteq> Some k)"
    using Cons.IH [of "upd_mem (buf_free i) w"] by (simp add: upd_mem_def)
  with Cons.prems(1) buf_free_blocks [of i "mem w" k] show ?case by (auto simp: buf_free_bufs split: if_splits)
qed simp

lemma destroy_buffers:
  "b_data (bufs (mem w) i) = Some k \<Longrightarrow> i < 5 \<Longrightarrow> blocks (mem (kmpjs_destroy X w)) k = None"
proof (rule ccontr)
  let ?w = "upd_eng (\<lambda>e. e\<lparr>modules := [], module_scheme := []\<rparr>) (destroyed X w)"
  assume i: "b_data (bufs (mem w) i) = Some k" "i < 5" and alive: "blocks (mem (kmpjs_destroy X w)) k \<noteq> None"
  have "kmpjs_destroy X w = fold (\<lambda>i. upd_mem (buf_free i)) [0, 1, 2, 3, 4] ?w"
    by (simp only: kmpjs_destroy_def destroyed_def Let_def OUT_STR_def OUT_STACK_def REJ_STR_def REJ_STACK_def LOG_LINE_def)
  with alive have "\<forall>j \<in> set [0, 1, 2, 3, 4]. b_data (bufs (mem ?w) j) \<noteq> Some k"
    using fold_buf_free_blocks [of "[0, 1, 2, 3, 4]" ?w k] by simp
  then have "\<forall>j \<in> {0, 1, 2, 3, 4}. b_data (bufs (mem w) j) \<noteq> Some k"
    by (simp add: mem_destroyed upd_eng_def)
  moreover have "i \<in> {0, 1, 2, 3, 4}" using i(2) by auto
  ultimately show False using i(1) by blast
qed

end
