(* ===== verification/Demo.thy ===== *)
theory Demo
  imports Lifecycle
begin

text \<open>
  A small engine and a small host, to run the model on. The engine hands out fresh object addresses,
  calls host function 1 with an object when it evaluates the program \<open>call\<close>, rejects a promise when
  it evaluates \<open>reject\<close>, throws on \<open>throw\<close> and queues jobs on \<open>queue\<close>; the host retains the object
  it is given and evaluates another program before it returns. Both are complete machines in the sense
  of \<open>Engine\<close>, so runs of the whole system can be evaluated.
\<close>

record demo_heap =
  d_next :: nat
  d_jobs :: nat
  d_exc :: jsval

definition demo_fresh :: "jtag \<Rightarrow> demo_heap \<Rightarrow> jsout \<times> demo_heap" where
  "demo_fresh t h = (OutRet (RVal (JPtr t (d_next h))), h\<lparr>d_next := d_next h + 1\<rparr>)"

definition demo_eval :: "bytes \<Rightarrow> demo_heap \<Rightarrow> jsout \<times> demo_heap" where
  "demo_eval code h =
     (if code = ''call'' then (OutReq (QHost 3 [JPtr TagObject 0]), h)
      else if code = ''reject'' then (OutReq (QReject (JPtr TagObject 0) (JPtr TagObject 1) False), h)
      else if code = ''throw'' then (OutRet (RVal JException), h\<lparr>d_exc := JPtr TagObject 0\<rparr>)
      else if code = ''queue'' then (OutRet (RVal JUndefined), h\<lparr>d_jobs := d_jobs h + 2\<rparr>)
      else if code = ''number'' then (OutRet (RVal (JInt 42)), h)
      else demo_fresh TagObject h)"

definition demo_call :: "jscall \<Rightarrow> demo_heap \<Rightarrow> jsout \<times> demo_heap" where
  "demo_call c h =
     (case c of
        CEval code name flags \<Rightarrow>
          if flags AND 1 = 1 then demo_fresh TagModule h else demo_eval code h
      | CToCStringLen v \<Rightarrow> (OutRet (RCStr (Some (''text'', d_next h))), h\<lparr>d_next := d_next h + 1\<rparr>)
      | CModuleName cx m \<Rightarrow> (OutRet (RCStr (Some (''mod'', d_next h))), h\<lparr>d_next := d_next h + 1\<rparr>)
      | CReadObject cx body \<Rightarrow> demo_fresh TagModule h
      | CToString v \<Rightarrow> demo_fresh TagString h
      | CNewStringLen s \<Rightarrow> demo_fresh TagString h
      | CGetException \<Rightarrow> (OutRet (RVal (d_exc h)), h\<lparr>d_exc := JNull\<rparr>)
      | CThrow v \<Rightarrow> (OutRet (RVal JException), h\<lparr>d_exc := v\<rparr>)
      | CThrowError cls msg \<Rightarrow> (OutRet (RVal JException), h\<lparr>d_exc := JNull\<rparr>)
      | CExecutePendingJob \<Rightarrow>
          (OutRet (RInt (if d_jobs h = 0 then 0 else 1)), h\<lparr>d_jobs := d_jobs h - 1\<rparr>)
      | CSetPropertyStr obj name v \<Rightarrow> (OutRet (RInt 1), h)
      | CDefinePropertyValueStr obj name v flags \<Rightarrow> (OutRet (RInt 1), h)
      | CResolveModule v \<Rightarrow> (OutRet (RInt 0), h)
      | CJSONStringify v \<Rightarrow> demo_fresh TagString h
      | CSetMaxStackSize n \<Rightarrow> (OutRet (RInt 0), h)
      | CSetGCThreshold n \<Rightarrow> (OutRet (RInt 0), h)
      | CUpdateStackTop \<Rightarrow> (OutRet (RInt 0), h)
      | CComputeMemoryUsage \<Rightarrow> (OutRet (RUsage [1, 2, 3, 4, 5]), h)
      | CDumpMemoryUsage \<Rightarrow> (OutRet (RChunks [''mem'', ''ory'']), h)
      | CPrintValue v \<Rightarrow> (OutRet (RChunks [''[obj'', ''ect]'']), h)
      | _ \<Rightarrow> demo_fresh TagObject h)"

text \<open>After a request has been served the engine returns \<open>undefined\<close>.\<close>

definition demo_step :: "jsin \<Rightarrow> demo_heap \<Rightarrow> jsout \<times> demo_heap" where
  "demo_step i h =
     (case i of InCall c \<Rightarrow> demo_call c h | InAnswer a \<Rightarrow> (OutRet (RVal JUndefined), h))"

text \<open>The host counts the calls it gets; on a host call it first retains its argument, then evaluates
  the program \<open>number\<close>, then returns \<open>null\<close>.\<close>

definition demo_host :: "hin \<Rightarrow> nat \<Rightarrow> hout \<times> nat" where
  "demo_host i n =
     (case i of
        HCall f args \<Rightarrow> (HApi (ARetain (case args of [] \<Rightarrow> 0 | a # as \<Rightarrow> v_ref a)), n + 1)
      | HResult rc v ns \<Rightarrow>
          if n = 1 then (HApi (AEval ''number'' ''nested'' 0), n + 1)
          else (HDone 0 (zero_value\<lparr>v_tag := KMPJS_TAG_NULL\<rparr>), n)
      | HLog s \<Rightarrow> (HDone 0 zero_value, n)
      | HRejection v \<Rightarrow> (HDone 0 zero_value, n + 10))"

definition demo_sys :: "(demo_heap, nat) sys" where
  "demo_sys = \<lparr>q_step = demo_step, q_free = (\<lambda>v h. h), q_is_function = (\<lambda>h v. True), q_is_array = (\<lambda>h v. 0),
     q_is_error = (\<lambda>h v. False), q_class_id = (\<lambda>h v. JS_VALUE_GET_PTR v), q_promise_state = (\<lambda>h v. -1),
     q_job_pending = (\<lambda>h. 0 < d_jobs h), h_step = demo_host,
     h_load = (\<lambda>name u. ((0, zero_value\<lparr>v_tag := KMPJS_TAG_STRING, v_str := PStr ''export {}'', v_str_len := 9\<rparr>), u)),
     c_alloc = (\<lambda>n. True), c_usable = (\<lambda>n. 16), c_overhead = 8, c_clock = (\<lambda>n. 0), irq = (\<lambda>n. False),
     commit = replicate 40 CHR ''a''\<rparr>"

definition demo_config :: kmpjs_config where
  "demo_config = \<lparr>cfg_module_scheme = None, cfg_memory_limit = 0, cfg_max_stack_size = 0, cfg_gc_threshold = 0\<rparr>"

definition demo_callbacks :: kmpjs_callbacks where
  "demo_callbacks = \<lparr>cb_host = True, cb_log = True, cb_rejection = True, cb_module_loader = True\<rparr>"

text \<open>The world before \<open>kmpjs_create\<close>.\<close>

definition demo_blank :: "(demo_heap, nat) world" where
  "demo_blank = \<lparr>eng = new_engine demo_config demo_callbacks, mem = init_mem, jsmem = init_heap (- 1),
     heap = \<lparr>d_next = 1, d_jobs = 0, d_exc = JNull\<rparr>, hst = 0, ticks = 0, held = (\<lambda>_. 0), bad = False\<rparr>"

section \<open>Running the model\<close>

declare mk.simps [simp del]

text \<open>The definitions that evaluation unfolds; with \<open>bind_weak_cong\<close> the simplifier runs a call from left
  to right.\<close>

lemmas run_defs =
  empty_buf_def init_mem_def to_int32_def set_buf_def buf_reset_def block_realloc_def
  overwrite_def buf_needs_grow_def buf_reserve_def buf_copy_def buf_append_def buf_free_def
  publish_def cread_def buf_bytes_def alloc_bufs_def upd_eng_def upd_mem_def
  c_malloc_def env_irq_def own_def disown_def JS_FreeValue_def JS_DupValue_def
  js_val_def js_int_def cstr_val_def JS_ToCStringLen_def JS_FreeCString_def JS_SetPropertyStr_def
  JS_DefinePropertyValueStr_def JS_EvalFunction_def JS_Throw_def JS_ThrowError_def JS_ThrowOutOfMemory_def w_append_def
  in_bytes_def w_slot_new_def kmpjs_ref_retain_def kmpjs_ref_release_def slot_val_def copy_js_string_def
  object_kind_def binary_data_def binary_to_out_def text_to_out_def ref_to_out_def json_to_out_def
  value_to_out_def take_exception_def drop_exception_def message_out_def fail_message_def oom_to_out_def
  error_text_def error_stack_def error_to_out_def exception_to_out_def terminated_copy_def throw_message_def
  object_from_host_def bigint_from_host_def ref_from_host_def value_from_host_def swap_remove_def forget_rejected_def
  add_rejected_def kmp_rejection_tracker_def forget_all_def discard_jobs_def drain_jobs_def run_begin_def
  run_end_def resolve_def report_one_def report_rejections_def unwrap_promise_def module_name_taken_def
  modules_reserve_def claim_module_name_def set_import_meta_def module_name_of_def compile_module_def kmp_module_normalize_def
  w_check_header_def read_bytecode_body_def peek_corrupt_def peek_name_def peek_module_name_def throw_value_def
  quoted_def enter_module_def module_from_bytecode_def not_registered_def module_from_host_def load_and_claim_def
  module_def_def kmp_module_loader_def take_failure_def outcome_of_def finish_drain_def finish_unwrap_def
  late_drain_def finish_late_def finish_write_def finish_def kmpjs_eval_def kmpjs_register_module_def
  anonymous_name_def taken_unless_anonymous_def claim_unless_anonymous_def run_module_def kmpjs_eval_module_def run_script_bytecode_def
  run_module_bytecode_def kmpjs_run_bytecode_def register_read_def kmpjs_register_module_bytecode_def fn_magic_def magic_fn_id_def
  magic_flags_def kmpjs_define_function_def release_arg_def free_bufs_def host_call_def js_kmp_host_def
  print_arg_def js_print_def js_performance_now_def kmpjs_ref_get_def kmpjs_ref_get_index_def kmpjs_ref_set_def
  this_slot_def call_with_def kmpjs_ref_call_def kmpjs_ref_to_json_def kmpjs_get_stats_def kmpjs_dump_memory_def
  js_libc_def js_allocated_def give_def serve_def reply_def done'_def
  api_def new_function_def install_body_def install_globals_def probe_source_def probe_item_def
  probe_ok_def probe_classes_def scheme_of_def new_engine_def free_context_def free_runtime_def
  free_bigint_def apply_limits_def create_globals_def create_runtime_def kmpjs_create_def free_slot_def
  free_slots_def kmpjs_destroy_def
  slot_grows_def slot_new_def slot_handle_def slot_index_def handle_gen_def slot_get_def slot_free_def
  ref_retain_def ref_release_def empty_table_def INT32_MAX_def live_refs_def zero_value_def
  module_row_def buf_grow.simps check_bytecode_header_def snprintf_def c_str_def
  mk_fields Let_def js_is_defs state_begin_def state_end_def state_interrupt_def state_poll_def

lemma demo_sys_fields:
  "q_step demo_sys = demo_step"
  "q_free demo_sys = (\<lambda>v h. h)"
  "q_is_function demo_sys = (\<lambda>h v. True)"
  "q_is_array demo_sys = (\<lambda>h v. 0)"
  "q_is_error demo_sys = (\<lambda>h v. False)"
  "q_class_id demo_sys = (\<lambda>h v. JS_VALUE_GET_PTR v)"
  "q_promise_state demo_sys = (\<lambda>h v. -1)"
  "q_job_pending demo_sys = (\<lambda>h. 0 < d_jobs h)"
  "h_step demo_sys = demo_host"
  "h_load demo_sys = (\<lambda>name u. ((0, zero_value\<lparr>v_tag := KMPJS_TAG_STRING, v_str := PStr ''export {}'', v_str_len := 9\<rparr>), u))"
  "c_alloc demo_sys = (\<lambda>n. True)"
  "c_usable demo_sys = (\<lambda>n. 16)"
  "c_overhead demo_sys = 8"
  "c_clock demo_sys = (\<lambda>n. 0)"
  "irq demo_sys = (\<lambda>n. False)"
  "commit demo_sys = replicate 40 CHR ''a''"
  by (simp_all add: demo_sys_def)

lemmas demo_defs = demo_fresh_def demo_eval_def demo_call_def demo_step_def demo_host_def demo_sys_fields
  demo_config_def demo_callbacks_def demo_blank_def

lemma demo_blank_good: "good (\<lambda>a. 0) demo_blank"
  using wf_mem_init wf_table_empty
  by (auto simp: good_def hold_def demo_blank_def new_engine_def table_held_def empty_table_def demo_config_def)

end
