(* ===== verification/Behaviour.thy ===== *)
theory Behaviour
  imports Demo
begin

text \<open>
  What the operations of the shim do, beyond keeping the contract: conversions that round-trip, errors
  that are reported, an interrupt that turns a run into a failure, payloads that survive, and the one
  place where a payload does not.
\<close>

section \<open>Messages\<close>

text \<open>A message of the shim reaches the caller: the result is an exception whose string reads as the
  message, and nothing but the output buffer has changed.\<close>

lemma append_reset_ok:
  assumes "sized m i" "length p < 2 ^ 31" "buf_append True i p (buf_reset i m) = (rc, m')"
  shows "rc = 0 \<and> cread m' (fst (publish i m')) (snd (publish i m')) = Some p"
proof -
  have rc: "rc = 0" using assms(3) by (auto simp: buf_append_def split: if_splits)
  have len: "nat (b_len (bufs (buf_reset i m) i)) = 0" by (simp add: buf_reset_def set_buf_def)
  from buf_append_bytes [OF conjunct1 [OF sized_reset [OF assms(1)]], of p True m'] assms(2,3) rc len
  have "sized m' i \<and> buf_bytes m' i = p" using sized_reset [OF assms(1)] by simp
  with publish_read rc show ?thesis by simp
qed

lemma fail_message_spec:
  assumes "sized (mem w) OUT_STR" "length msg < 2 ^ 31" "\<And>n. c_alloc (lib X) n"
  shows "\<exists>v w'. fail_message X msg w = Some ((-1, v), w') \<and> v_tag v = KMPJS_TAG_EXCEPTION \<and>
    cread (mem w') (v_str v) (v_str_len v) = Some msg \<and> eng w' = eng w \<and> heap w' = heap w \<and> held w' = held w \<and> hst w' = hst w"
proof -
  let ?m = "buf_reset OUT_STR (mem w)"
  obtain rc m' where ap: "buf_append True OUT_STR msg ?m = (rc, m')" by fastforce
  have grow: "c_alloc (lib X) n = True" for n using assms(3) by simp
  from append_reset_ok [OF assms(1,2) ap] show ?thesis
    using ap by (auto simp: fail_message_def message_out_def w_append_def upd_mem_def c_malloc_def grow publish_def)
qed

text \<open>C17: an operation on a handle that does not resolve is refused without entering the engine: the host
  gets an exception that reads \<open>invalid or released ref\<close>, and engine, host, ref table and every
  reference are as before.\<close>

theorem dead_handle_refused:
  assumes "slot_get (refs (eng w)) r = None" "sized (mem w) OUT_STR" "\<And>n. c_alloc (lib X) n"
    and op: "f = kmpjs_ref_get X r name flags \<or> f = kmpjs_ref_get_index X r index flags \<or>
      f = kmpjs_ref_set X r name value \<or> f = kmpjs_ref_call X r this args flags \<or> f = kmpjs_ref_to_json X r"
  shows "\<exists>v w'. f w = Some ((-1, v), w') \<and> v_tag v = KMPJS_TAG_EXCEPTION \<and>
    cread (mem w') (v_str v) (v_str_len v) = Some ''invalid or released ref'' \<and>
    eng w' = eng w \<and> heap w' = heap w \<and> held w' = held w \<and> hst w' = hst w"
proof -
  have "f w = fail_message X ''invalid or released ref'' w"
    using op assms(1)
    by (auto simp: kmpjs_ref_get_def kmpjs_ref_get_index_def kmpjs_ref_set_def kmpjs_ref_call_def kmpjs_ref_to_json_def)
  with fail_message_spec [OF assms(2), of "''invalid or released ref''" X] assms(3) show ?thesis by simp
qed

theorem dead_handle_refused_witness:
  "\<exists>v w'. kmpjs_ref_get (mk 1 demo_sys) 5 ''x'' 0 demo_blank = Some ((-1, v), w') \<and>
    cread (mem w') (v_str v) (v_str_len v) = Some ''invalid or released ref''"
proof -
  have "slot_get (refs (eng demo_blank)) 5 = None"
    using linorder_less_linear [of "slot_index 5" 0] by (auto simp: demo_blank_def new_engine_def empty_table_def slot_get_def Let_def)
  moreover have "sized (mem demo_blank) OUT_STR" using sized_init [of OUT_STR] by (simp add: demo_blank_def)
  ultimately show ?thesis
    using dead_handle_refused [of demo_blank 5 "mk 1 demo_sys" "kmpjs_ref_get (mk 1 demo_sys) 5 ''x'' 0" "''x''" 0]
    by (auto simp: mk_fields demo_sys_fields)
qed

section \<open>Conversions\<close>

text \<open>C16: an object handed out as a ref and handed back in is the same engine value, with a reference of
  its own: \<open>value_from_host\<close> inverts \<open>value_to_out\<close> on refs.\<close>

theorem ref_round_trip:
  assumes wf: "wf_table (refs (eng w))" and v: "v = JPtr TagObject a"
    and out: "value_to_out X v b KMPJS_FLAG_REF_OBJECTS w = Some ((0, r), w')" and u: "usable_handle (v_ref r)"
  shows "v_tag r = KMPJS_TAG_REF \<and> value_from_host X r w' = Some (v, JS_DupValue v w')"
proof -
  have r: "ref_to_out X v w = Some ((0, r), w')"
    using out v by (simp add: value_to_out_def js_is_defs)
  then obtain h w1 where new: "w_slot_new X v (JS_DupValue v w) = Some (h, w1)"
    and h: "h \<noteq> 0" "w' = w1" "v_ref r = h" "v_tag r = KMPJS_TAG_REF"
    by (auto simp: ref_to_out_def Let_def split: bind_splits if_splits)
  obtain ok t where t: "slot_new ok v (refs (eng w)) = (h, t)" "refs (eng w') = t"
    using new h by (auto simp: w_slot_new_def c_malloc_def Let_def upd_eng_def split: if_splits prod.splits)
  from ref_lookup_new(1) [OF wf t(1) h(1)] u h(3) have "ref_lookup t h = Some (v, 1)"
    by (simp add: usable_handle_def)
  then obtain i where "slot_get (refs (eng w')) h = Some i" "slot_val i w' = v"
    using t(2) by (auto simp: ref_lookup_def slot_val_def)
  with h show ?thesis by (simp add: value_from_host_def ref_from_host_def)
qed

theorem ref_round_trip_witness:
  "\<exists>r w'. value_to_out (mk (Suc 0) demo_sys) (JPtr TagObject 9) OUT_STR 1 demo_blank = Some ((0, r), w') \<and>
    value_from_host (mk (Suc 0) demo_sys) r w' = Some (JPtr TagObject 9, JS_DupValue (JPtr TagObject 9) w')"
proof -
  let ?X = "mk (Suc 0) demo_sys" and ?v = "JPtr TagObject 9"
  have "\<exists>r w'. value_to_out ?X ?v OUT_STR KMPJS_FLAG_REF_OBJECTS demo_blank = Some ((0, r), w') \<and> v_ref r = 1"
    by (simp add: run_defs demo_defs cong: bind_weak_cong)
  then obtain r w' where out: "value_to_out ?X ?v OUT_STR KMPJS_FLAG_REF_OBJECTS demo_blank = Some ((0, r), w')"
    and h: "v_ref r = 1" by blast
  have "wf_table (refs (eng demo_blank))" by (simp add: demo_blank_def new_engine_def wf_table_empty)
  from ref_round_trip [OF this refl out] h out show ?thesis
    by (simp add: usable_handle_def handle_gen_def)
qed

definition primitive :: "kmpjs_value \<Rightarrow> bool" where
  "primitive v =
     (v = zero_value\<lparr>v_tag := KMPJS_TAG_UNDEFINED\<rparr> \<or> v = zero_value\<lparr>v_tag := KMPJS_TAG_NULL\<rparr> \<or>
      v = zero_value\<lparr>v_tag := KMPJS_TAG_BOOL, v_num := f64_of_int 0\<rparr> \<or>
      v = zero_value\<lparr>v_tag := KMPJS_TAG_BOOL, v_num := f64_of_int 1\<rparr> \<or>
      (\<exists>d. v = zero_value\<lparr>v_tag := KMPJS_TAG_NUMBER, v_num := d\<rparr>))"

lemma f64_one_nonzero: "\<not> f64_is_zero (f64_of_int 1)" "f64_is_zero (f64_of_int 0)"
  by code_simp+

text \<open>Primitive values cross the boundary in both directions unchanged and without touching the engine:
  \<open>undefined\<close>, \<open>null\<close>, booleans and numbers (every double, bit for bit) come back as they went in.\<close>

theorem primitive_round_trip:
  assumes "primitive v"
  shows "\<exists>j. value_from_host X v w = Some (j, w) \<and> value_to_out X j b flags w = Some ((0, v), w)"
proof -
  have num: "value_to_out X (JS_NewFloat64 d) b flags w = Some ((0, zero_value\<lparr>v_tag := KMPJS_TAG_NUMBER, v_num := d\<rparr>), w)" for d
    using to_new_float [of d] new_float_is_number(1) [of d]
    by (auto simp: value_to_out_def js_is_defs split: jsval.splits)
  have from_num: "value_from_host X (zero_value\<lparr>v_tag := KMPJS_TAG_NUMBER, v_num := d\<rparr>) w = Some (JS_NewFloat64 d, w)" for d
    by (simp add: value_from_host_def)
  have bool: "value_from_host X (zero_value\<lparr>v_tag := KMPJS_TAG_BOOL, v_num := f64_of_int n\<rparr>) w =
      Some (JBool (\<not> f64_is_zero (f64_of_int n)), w)"
    "value_to_out X (JBool c) b flags w =
      Some ((0, zero_value\<lparr>v_tag := KMPJS_TAG_BOOL, v_num := f64_of_int (if c then 1 else 0)\<rparr>), w)" for n c
    by (simp_all add: value_from_host_def JS_NewBool_def value_to_out_def js_is_defs)
  have imm: "value_from_host X (zero_value\<lparr>v_tag := KMPJS_TAG_UNDEFINED\<rparr>) w = Some (JUndefined, w)"
    "value_from_host X (zero_value\<lparr>v_tag := KMPJS_TAG_NULL\<rparr>) w = Some (JNull, w)"
    "value_to_out X JUndefined b flags w = Some ((0, zero_value\<lparr>v_tag := KMPJS_TAG_UNDEFINED\<rparr>), w)"
    "value_to_out X JNull b flags w = Some ((0, zero_value\<lparr>v_tag := KMPJS_TAG_NULL\<rparr>), w)"
    by (simp_all add: value_from_host_def value_to_out_def js_is_defs)
  show ?thesis
    using assms unfolding primitive_def
    by (elim disjE exE) (use num from_num bool imm f64_one_nonzero in \<open>simp_all del: KMPJS_TAG_UNDEFINED_def
      KMPJS_TAG_NULL_def KMPJS_TAG_BOOL_def KMPJS_TAG_NUMBER_def f64_of_int_0\<close>)
qed

theorem primitive_round_trip_witness:
  "\<exists>j. value_from_host (mk 0 demo_sys) (zero_value\<lparr>v_tag := 3, v_num := 0x8000000000000000\<rparr>) demo_blank = Some (j, demo_blank) \<and>
    value_to_out (mk 0 demo_sys) j 0 0 demo_blank = Some ((0, zero_value\<lparr>v_tag := 3, v_num := 0x8000000000000000\<rparr>), demo_blank)"
  by (rule primitive_round_trip) (auto simp: primitive_def)

definition to_int16 :: "int \<Rightarrow> int" where
  "to_int16 x = sint (word_of_int x :: 16 word)"

text \<open>The host function number and its flag survive the 16-bit \<open>magic\<close> field of the engine exactly for
  the numbers \<open>kmpjs_define_function\<close> accepts.\<close>

theorem magic_round_trip:
  assumes "0 \<le> fn_id" "fn_id \<le> KMPJS_MAX_FN_ID"
  shows "magic_fn_id (to_int16 (fn_magic fn_id flags)) = fn_id \<and>
    magic_flags (to_int16 (fn_magic fn_id flags)) = flags AND KMPJS_FLAG_REF_OBJECTS"
proof -
  have f: "flags AND 1 = 0 \<or> flags AND 1 = 1" by (simp add: and_one_eq mod2_eq_if)
  have m: "fn_magic fn_id flags = 2 * fn_id + (flags AND 1)"
    using f by (auto simp: fn_magic_def push_bit_eq_mult or_one_eq)
  have "0 \<le> fn_magic fn_id flags" "fn_magic fn_id flags < 2 ^ 15" using assms f unfolding m by auto
  then have t: "to_int16 (fn_magic fn_id flags) = fn_magic fn_id flags"
    unfolding to_int16_def by (simp add: int_word_sint)
  show ?thesis unfolding t using f m
    by (auto simp: magic_fn_id_def magic_flags_def drop_bit_eq_div and_one_eq)
qed

theorem magic_round_trip_witness: "magic_fn_id (to_int16 (fn_magic 16383 1)) = 16383"
  using magic_round_trip [of 16383 1] by simp

section \<open>Runs\<close>

lemma step_interrupted: "step T w w' \<Longrightarrow> state (eng w) = KMP_INTERRUPTED \<Longrightarrow> state (eng w') = KMP_INTERRUPTED"
  by (simp add: step_def rel_def)

context engine_link
begin

lemma ensures_any: "(\<And>r w'. Q (r, w')) \<Longrightarrow> ensures m Q"
  by (cases m) auto

lemma drain_interrupted:
  assumes "state (eng w) = KMP_INTERRUPTED"
  shows "ensures (drain_jobs X w) (\<lambda>(rc, w'). rc = -1)"
proof -
  have "state_poll (state (eng (env_irq X w)))"
    using assms by (simp add: env_irq_def Let_def upd_eng_def state_poll_def state_interrupt_def)
  then have "ensures (drain_loop n X w) (\<lambda>(rc, w'). rc = -1)" for n
    by (cases n) (auto simp: Let_def intro!: ensuresI split: bind_splits)
  then show ?thesis unfolding drain_jobs_def
    by (rule ensures_bindI) (auto intro!: ensuresI split: bind_splits)
qed

lemma finish_drain_interrupted:
  assumes "state (eng w) = KMP_INTERRUPTED"
  shows "ensures (finish_drain X True r w) (\<lambda>(r', w'). \<exists>x. r' = Inl x)"
proof -
  have "ensures (case r of Inl x \<Rightarrow> drop_exception X w1 \<bind> (\<lambda>(_, w). Some (Inl x, w))
      | Inr v \<Rightarrow> take_failure X w1 \<bind> (\<lambda>(r, w). Some (r, JS_FreeValue X v w))) (\<lambda>(r', w'). \<exists>x. r' = Inl x)" for w1
    by (cases r) (auto simp: take_failure_def intro!: ensuresI split: bind_splits)
  then show ?thesis
    unfolding finish_drain_def
    by (simp only: not_True_eq_False if_False, intro ensures_bindI [OF drain_interrupted [OF assms]]) simp
qed

lemma finish_interrupted:
  assumes good: "good T w" and st: "state (eng w) = KMP_INTERRUPTED" and v: "\<And>a. cnt v a \<le> T a"
  shows "ensures (finish X True v flags unwrap m w) (\<lambda>(r, w'). fst r = -1)"
proof -
  have out: "ensures (outcome_of X v w) (\<lambda>(r, w'). state (eng w') = KMP_INTERRUPTED)"
    by (rule ensures_tail [OF outcome_of_ok [OF step_start [OF good] v]]) (rule step_interrupted [OF _ st])
  have wr: "ensures (finish_write X True fl (Inl x) w1) (\<lambda>(r, w'). fst r = -1)" for fl x w1
    unfolding finish_write_def by (auto intro!: ensuresI split: bind_splits)
  have rest: "ensures (finish_unwrap X unwrap m flags r w1 \<bind> (\<lambda>(rf, w). (if True then report_rejections X w else Some ((), w)) \<bind>
      (\<lambda>(_, w). finish_write X True (snd rf) (fst rf) w \<bind> (\<lambda>(ro, w). Some (ro, run_end X True w))))) (\<lambda>(r, w'). fst r = -1)"
    if "\<exists>x. r = Inl x" for r w1
  proof -
    from that obtain x where "r = Inl x" by blast
    moreover have "ensures (report_rejections X w2 \<bind> (\<lambda>(_, w). finish_write X True flags (Inl x) w \<bind>
        (\<lambda>(ro, w). Some (ro, run_end X True w)))) (\<lambda>(r, w'). fst r = -1)" for w2
      by (rule ensures_bindI [of _ "\<lambda>_ _. True"], simp add: ensures_any, rule ensures_bindI [OF wr]) simp
    ultimately show ?thesis by (simp add: finish_unwrap_def)
  qed
  show ?thesis unfolding finish_def
    by (rule ensures_bindI [OF out], rule ensures_bindI, erule finish_drain_interrupted, erule rest)
qed

end

text \<open>C9: an interrupt that has hit the engine when the outermost call reaches \<open>finish\<close> is not swallowed:
  whatever the script returned, the call reports a failure.\<close>

theorem interrupted_call_fails:
  assumes "good T w" "state (eng w) = KMP_INTERRUPTED" "\<And>a. cnt v a \<le> T a"
    "finish (mk n S) True v flags unwrap m w = Some (r, w')"
  shows "fst r = -1 \<and> state (eng w') = KMP_IDLE"
proof -
  have "fst r = -1"
    using shim.finish_interrupted [OF assms(1,2,3), of n S flags unwrap m] assms(4) by simp
  moreover have "state (eng w') = KMP_IDLE"
    using assms(4) by (auto simp: finish_def run_end_def Let_def upd_eng_def state_end_def split: bind_splits)
  ultimately show ?thesis by simp
qed

definition demo_interrupted :: "(demo_heap, nat) world" where
  "demo_interrupted = upd_eng (\<lambda>e. e\<lparr>state := KMP_INTERRUPTED\<rparr>) demo_blank"

lemma demo_interrupted_good: "good (\<lambda>a. 0) demo_interrupted"
  by (simp add: demo_interrupted_def demo_blank_def good_def upd_eng_def new_engine_def hold_def table_held_def
      empty_table_def wf_mem_init wf_table_empty [unfolded empty_table_def])

theorem interrupted_call_fails_witness:
  "\<exists>r w'. finish (mk (Suc (Suc 0)) demo_sys) True (JInt 42) 0 True None demo_interrupted = Some (r, w') \<and>
    fst r = -1 \<and> state (eng w') = KMP_IDLE"
proof -
  let ?f = "finish (mk (Suc (Suc 0)) demo_sys) True (JInt 42) 0 True None demo_interrupted"
  have "\<exists>r w'. ?f = Some (r, w')"
    by (simp add: run_defs demo_defs demo_interrupted_def cong: bind_weak_cong)
  then obtain r w' where f: "?f = Some (r, w')" by blast
  have "state (eng demo_interrupted) = KMP_INTERRUPTED" by (simp add: demo_interrupted_def upd_eng_def)
  from interrupted_call_fails [OF demo_interrupted_good this _ f] f show ?thesis by simp
qed

section \<open>Payloads\<close>

text \<open>C10: when the conversion of the result has itself queued work, the finished payload is set aside while
  the jobs run: whatever they do, nested calls that write results of their own included, the caller
  reads the same bytes afterwards.\<close>

theorem late_jobs_keep_payload:
  assumes "good T w" "publish OUT_STR (mem w) = (p, n)" "late_drain (mk k S) w = Some (rc, w')"
  shows "cread (mem w') p n = cread (mem w) p n \<and> publish OUT_STR (mem w') = (p, n)"
proof -
  have "bufs (mem w') OUT_STR = bufs (mem w) OUT_STR \<and>
      (\<forall>j. b_data (bufs (mem w) OUT_STR) = Some j \<longrightarrow> blocks (mem w') j = blocks (mem w) j)"
    using shim.late_drain_payload [OF step_start [OF assms(1)], of k S] assms(3) by simp
  with assms(2) show ?thesis by (auto simp: publish_def cread_def split: option.splits)
qed

definition demo_payload :: "(demo_heap, nat) world" where
  "demo_payload = upd_mem (\<lambda>m. snd (buf_append True OUT_STR ''payload'' m)) demo_blank"

lemma demo_payload_good: "good (\<lambda>a. 0) demo_payload"
proof -
  have "good (\<lambda>a. 0) demo_blank"
    by (simp add: demo_blank_def good_def new_engine_def hold_def table_held_def
        empty_table_def wf_mem_init wf_table_empty [unfolded empty_table_def])
  moreover have "wf_mem (snd (buf_append True OUT_STR ''payload'' (mem demo_blank)))"
    using wf_buf_append [OF wf_mem_init, of OUT_STR True "''payload''"]
    by (metis OUT_STR_def demo_blank_def init_mem_def cmem.select_convs(2) prod.collapse world.select_convs(2) zero_less_numeral)
  ultimately show ?thesis by (simp add: demo_payload_def good_def upd_mem_def)
qed

theorem late_jobs_keep_payload_witness:
  "\<exists>rc w'. late_drain (mk (Suc (Suc 0)) demo_sys) demo_payload = Some (rc, w') \<and>
    cread (mem w') (fst (publish OUT_STR (mem demo_payload))) (snd (publish OUT_STR (mem demo_payload))) = Some ''payload''"
proof -
  have "\<exists>rc w'. late_drain (mk (Suc (Suc 0)) demo_sys) demo_payload = Some (rc, w')"
    by (simp add: run_defs demo_defs demo_payload_def cong: bind_weak_cong)
  then obtain rc w' where l: "late_drain (mk (Suc (Suc 0)) demo_sys) demo_payload = Some (rc, w')" by blast
  have "cread (mem demo_payload) (fst (publish OUT_STR (mem demo_payload))) (snd (publish OUT_STR (mem demo_payload))) = Some ''payload''"
    by (simp add: run_defs demo_defs demo_payload_def)
  with late_jobs_keep_payload [OF demo_payload_good surjective_pairing l] l show ?thesis by simp
qed

text \<open>
  The report of rejections that follows those jobs has no such protection. The engine below answers
  the program \<open>obj\<close> with an object whose \<open>toJSON\<close> leaves a rejected promise behind and whose JSON
  text is \<open>{result:1}\<close>; the program \<open>other\<close> yields the string \<open>XXXX\<close>. Its host evaluates \<open>other\<close>
  in its rejection callback.
\<close>

definition late_call :: "jscall \<Rightarrow> demo_heap \<Rightarrow> jsout \<times> demo_heap" where
  "late_call c h =
     (case c of
        CEval code name flags \<Rightarrow>
          if code = ''obj'' then (OutRet (RVal (JPtr TagObject 100)), h) else (OutRet (RVal (JPtr TagString 200)), h)
      | CJSONStringify v \<Rightarrow> (OutReq (QReject (JPtr TagObject 101) (JPtr TagObject 102) False), h)
      | CToCStringLen v \<Rightarrow> (OutRet (RCStr (Some (if JS_VALUE_GET_PTR v = 200 then ''XXXX'' else ''{result:1}'', 300))), h)
      | CToString v \<Rightarrow> (OutRet (RVal (JPtr TagString 103)), h)
      | CExecutePendingJob \<Rightarrow> (OutRet (RInt 0), h)
      | _ \<Rightarrow> (OutRet (RInt 0), h))"

definition late_step :: "jsin \<Rightarrow> demo_heap \<Rightarrow> jsout \<times> demo_heap" where
  "late_step i h = (case i of InCall c \<Rightarrow> late_call c h | InAnswer a \<Rightarrow> (OutRet (RVal (JPtr TagString 104)), h))"

definition late_host :: "hin \<Rightarrow> nat \<Rightarrow> hout \<times> nat" where
  "late_host i n =
     (case i of HRejection v \<Rightarrow> (HApi (AEval ''other'' ''handler'' 0), n + 1) | _ \<Rightarrow> (HDone 0 zero_value, n))"

definition late_sys :: "(demo_heap, nat) sys" where
  "late_sys = demo_sys\<lparr>q_step := late_step, q_is_function := (\<lambda>h v. False), q_class_id := (\<lambda>h v. 500), h_step := late_host\<rparr>"

lemma late_sys_fields:
  "q_step late_sys = late_step" "q_is_function late_sys h v = False" "q_class_id late_sys h v = 500"
  "h_step late_sys = late_host" "q_free late_sys = q_free demo_sys" "q_is_error late_sys = q_is_error demo_sys"
  "q_promise_state late_sys = q_promise_state demo_sys" "q_job_pending late_sys = q_job_pending demo_sys"
  "c_alloc late_sys = c_alloc demo_sys" "irq late_sys = irq demo_sys"
  by (simp_all add: late_sys_def)


section \<open>Unhandled rejections\<close>

text \<open>The list of rejected promises as a map from promise to reason.\<close>

definition rej_map :: "kmp_rejected list \<Rightarrow> nat \<rightharpoonup> jsval" where
  "rej_map rs = map_of (map (\<lambda>r. (JS_VALUE_GET_PTR (r_promise r), r_reason r)) rs)"

lemma rej_map_find: "find_rejected rs p = Some i \<Longrightarrow> rej_map rs (JS_VALUE_GET_PTR p) = Some (r_reason (rs ! i))"
  unfolding rej_map_def by (induction rs arbitrary: i) (auto split: if_splits)

lemma rej_map_none: "find_rejected rs p = None \<longleftrightarrow> rej_map rs (JS_VALUE_GET_PTR p) = None"
  by (auto simp: rej_map_def find_rejected_None map_of_eq_None_iff image_image)

lemma map_of_swap_remove:
  assumes "i < length xs" "distinct (map fst xs)"
  shows "map_of (swap_remove i xs) = (map_of xs)(fst (xs ! i) := None)"
proof -
  have perm: "mset (xs ! i # swap_remove i xs) = mset xs" using swap_remove_mset [OF assms(1)] by simp
  then have "mset (map fst (xs ! i # swap_remove i xs)) = mset (map fst xs)" by (metis mset_map)
  with assms(2) have d: "distinct (map fst (xs ! i # swap_remove i xs))" using mset_eq_imp_distinct_iff by blast
  have "map_of xs = map_of (xs ! i # swap_remove i xs)"
    using map_of_inject_set [OF assms(2) d] mset_eq_setD [OF perm] by simp
  moreover have "map_of (swap_remove i xs) (fst (xs ! i)) = None"
    using d by (simp add: map_of_eq_None_iff)
  ultimately show ?thesis by (cases "xs ! i") (auto simp: fun_eq_iff)
qed

lemma rej_map_swap_remove:
  assumes "i < length rs" "distinct (map (\<lambda>r. JS_VALUE_GET_PTR (r_promise r)) rs)"
  shows "rej_map (swap_remove i rs) = (rej_map rs)(JS_VALUE_GET_PTR (r_promise (rs ! i)) := None)"
proof -
  have "map f (swap_remove i rs) = swap_remove i (map f rs)" for f :: "kmp_rejected \<Rightarrow> nat \<times> jsval"
    using assms(1) by (cases "rs = []") (simp_all add: swap_remove_def map_butlast map_update last_map)
  then show ?thesis using assms by (simp add: rej_map_def map_of_swap_remove comp_def)
qed

lemma rejected_frame [simp]:
  "eng (JS_FreeValue X v w) = eng w" "eng (JS_DupValue v w) = eng w"
  by (simp_all add: JS_FreeValue_def JS_DupValue_def own_def disown_def)

lemma rej_map_forget:
  assumes "find_rejected (rejected (eng w)) p = Some i"
    and "distinct (map (\<lambda>r. JS_VALUE_GET_PTR (r_promise r)) (rejected (eng w)))"
  shows "rej_map (rejected (eng (forget_rejected X i w))) = (rej_map (rejected (eng w)))(JS_VALUE_GET_PTR p := None)"
  using find_rejected_Some [OF assms(1)] rej_map_swap_remove [OF _ assms(2)]
  by (auto simp: forget_rejected_def upd_eng_def Let_def)

lemma rej_map_add:
  "find_rejected (rejected (eng w)) p = None \<Longrightarrow>
   rej_map (rejected (eng (add_rejected p r w))) = (rej_map (rejected (eng w)))(JS_VALUE_GET_PTR p \<mapsto> r)"
  by (auto simp: rej_map_none rej_map_def add_rejected_def upd_eng_def map_add_def fun_eq_iff split: option.splits)

text \<open>C11: the tracker keeps a map from rejected promises to reasons. A promise that gets a handler is
  removed, wherever in the array it stands; a promise rejected without one is entered with its reason
  unless it is already there; no other entry changes. (Entering may only fail when the C allocator
  does.)\<close>

theorem tracker_refines:
  assumes "good T w" "kmp_rejection_tracker X p r handled w = Some ((), w')"
    and "\<And>n. c_alloc (lib X) n"
  defines "m \<equiv> rej_map (rejected (eng w))" and "a \<equiv> JS_VALUE_GET_PTR p"
  shows "rej_map (rejected (eng w')) = (if handled then m(a := None) else if m a = None then m(a \<mapsto> r) else m)"
proof (cases "find_rejected (rejected (eng w)) p")
  case None
  then have a: "m a = None" by (simp add: m_def a_def rej_map_none)
  have "rej_map (rejected (eng (add_rejected p r w1))) = m(a \<mapsto> r)" if "rejected (eng w1) = rejected (eng w)" for w1 :: "('a, 'b) world"
    using rej_map_add [of w1 p r] None that by (simp add: m_def a_def)
  then show ?thesis
    using assms(2,3) None a by (auto simp: kmp_rejection_tracker_def c_malloc_def upd_eng_def m_def fun_upd_idem split: if_splits)
next
  case (Some i)
  then have "m a \<noteq> None" using rej_map_find [OF Some] by (simp add: m_def a_def)
  with Some assms(1,2) rej_map_forget [OF Some] show ?thesis
    by (auto simp: kmp_rejection_tracker_def good_def m_def a_def)
qed

text \<open>Three promises rejected, then a handler for the first.\<close>

definition tracked :: "(demo_heap, nat) world" where
  "tracked = demo_blank\<lparr>held := (\<lambda>a. if a \<in> {1..6} then 1 else 0),
     eng := (eng demo_blank)\<lparr>rejected_cap := 4, rejected :=
       [\<lparr>r_promise = JPtr TagObject 1, r_reason = JPtr TagObject 4\<rparr>, \<lparr>r_promise = JPtr TagObject 2, r_reason = JPtr TagObject 5\<rparr>,
        \<lparr>r_promise = JPtr TagObject 3, r_reason = JPtr TagObject 6\<rparr>]\<rparr>\<rparr>"

lemma tracked_good: "good (\<lambda>a. 0) tracked"
  using wf_mem_init wf_table_empty by (auto simp: tracked_def good_def hold_def demo_blank_def new_engine_def table_held_def empty_table_def demo_config_def)

theorem tracker_refines_witness:
  "\<exists>w'. kmp_rejection_tracker (mk 1 demo_sys) (JPtr TagObject 1) JUndefined True tracked = Some ((), w') \<and>
    rej_map (rejected (eng w')) 1 = None \<and> rej_map (rejected (eng w')) 3 = Some (JPtr TagObject 6)"
proof -
  obtain w' where w': "kmp_rejection_tracker (mk 1 demo_sys) (JPtr TagObject 1) JUndefined True tracked = Some ((), w')"
    by (simp add: tracked_def kmp_rejection_tracker_def)
  from tracker_refines [OF tracked_good w'] w' show ?thesis
    by (simp add: mk_fields demo_sys_fields tracked_def rej_map_def)
qed

section \<open>Registering modules\<close>

lemma taken_message_length: "length (taken_message k name) < 2 ^ 31"
  by (simp add: taken_message_def)

lemma claim_module_name_appends:
  assumes "\<And>n. c_alloc (lib X) n"
  shows "\<exists>w'. claim_module_name X name k code w = Some ((0, zero_value), w') \<and>
    modules (eng w') = modules (eng w) @ [module_row name k code]"
  using assms by (auto simp: claim_module_name_def modules_reserve_def c_malloc_def upd_eng_def)

text \<open>Registering a module always returns. A fresh, non-empty name gets a row with the module's source;
  an empty name and a name that is already taken, by whatever kind of module, are refused with a message
  that says so, and the engine is unchanged.\<close>

theorem register_module_spec:
  assumes "sized (mem w) OUT_STR" "\<And>n. c_alloc (lib X) n"
  shows "\<exists>rc v w'. kmpjs_register_module X name code w = Some ((rc, v), w') \<and>
    (if name \<noteq> [] \<and> find_module (modules (eng w)) name = None
     then rc = 0 \<and> modules (eng w') = modules (eng w) @ [module_row name KMP_MODULE_SOURCE code]
     else rc = -1 \<and> eng w' = eng w \<and> v_tag v = KMPJS_TAG_EXCEPTION \<and> cread (mem w') (v_str v) (v_str_len v) =
       Some (if name = [] then ''module name must not be empty''
             else taken_message (m_kind (the (find_module (modules (eng w)) name))) name))"
proof (cases "find_module (modules (eng w)) name")
  case None
  with fail_message_spec [OF assms(1) _ assms(2), of "''module name must not be empty''"]
    claim_module_name_appends [of X name KMP_MODULE_SOURCE code w, OF assms(2)] show ?thesis
    by (auto simp: kmpjs_register_module_def module_name_taken_def)
next
  case (Some m)
  with fail_message_spec [OF assms(1) _ assms(2), of "''module name must not be empty''"]
    fail_message_spec [OF assms(1) taken_message_length assms(2), of "m_kind m" name] show ?thesis
    by (auto simp: kmpjs_register_module_def module_name_taken_def)
qed

lemma demo_sized: "sized (mem demo_blank) OUT_STR"
  using sized_init [of OUT_STR] by (simp add: demo_blank_def)

theorem register_module_spec_witness:
  "\<exists>rc v w'. kmpjs_register_module (mk 1 demo_sys) ''m'' ''export {}'' demo_blank = Some ((rc, v), w') \<and> rc = 0 \<and>
    modules (eng w') = [module_row ''m'' KMP_MODULE_SOURCE ''export {}'']"
  using register_module_spec [OF demo_sized, of "mk 1 demo_sys" "''m''" "''export {}''"]
  by (simp add: mk_fields demo_sys_fields) (simp add: demo_blank_def new_engine_def)

text \<open>A registered module is what every later import of its name resolves to: after any sequence of
  further API calls, re-entrant callbacks included, the table still answers with the source that was
  registered.\<close>

theorem registered_module_stays:
  assumes "good T w" "kmpjs_register_module (mk n S) name code w = Some ((0, out), w1)" "session m S cs w1 = Some w2"
  shows "find_module (modules (eng w2)) name = Some (module_row name KMP_MODULE_SOURCE code)"
proof -
  have w1: "step T w w1" using shim.register_module_ok [OF step_start [OF assms(1)], of n S name code] assms(2) by simp
  have "find_module (modules (eng w)) name = None \<and> modules (eng w1) = add_row name (KMP_MODULE_SOURCE, code) (modules (eng w))"
    using assms(2)
    by (auto simp: kmpjs_register_module_def module_name_taken_def claim_module_name_def modules_reserve_def c_malloc_def
        upd_eng_def fail_message_def message_out_def add_row_def split: option.splits if_splits bind_splits)
  then have "find_module (modules (eng w1)) name = Some (module_row name KMP_MODULE_SOURCE code)"
    using modtab.claim_new [of "modules (eng w)" name "(KMP_MODULE_SOURCE, code)"] by simp
  moreover have "prefix (modules (eng w1)) (modules (eng w2))"
    using session_step [OF step_start assms(3), of T] w1 by (simp add: step_def rel_def)
  ultimately show ?thesis by (rule find_module_prefix [rotated])
qed

theorem registered_module_stays_witness:
  "\<exists>w1 w2. kmpjs_register_module (mk (Suc 0) demo_sys) ''m'' ''1'' demo_blank = Some ((0, zero_value), w1) \<and>
    session (Suc 0) demo_sys [ARegisterModule ''m'' ''2'', ARegisterModule ''k'' ''3''] w1 = Some w2 \<and>
    find_module (modules (eng w2)) ''m'' = Some (module_row ''m'' KMP_MODULE_SOURCE ''1'')"
proof -
  define w1 where "w1 = snd (the (kmpjs_register_module (mk (Suc 0) demo_sys) ''m'' ''1'' demo_blank))"
  define w2 where "w2 = the (session (Suc 0) demo_sys [ARegisterModule ''m'' ''2'', ARegisterModule ''k'' ''3''] w1)"
  have r: "kmpjs_register_module (mk (Suc 0) demo_sys) ''m'' ''1'' demo_blank = Some ((0, zero_value), w1)"
    unfolding w1_def by (simp add: run_defs demo_defs cong: bind_weak_cong)
  have s: "session (Suc 0) demo_sys [ARegisterModule ''m'' ''2'', ARegisterModule ''k'' ''3''] w1 = Some w2"
    unfolding w2_def w1_def by (simp add: run_defs demo_defs taken_message_def cong: bind_weak_cong)
  from registered_module_stays [OF demo_blank_good r s] r s show ?thesis by blast
qed

end
