(* ===== verification/Compile.thy ===== *)
theory Compile
  imports Demo
begin

text \<open>
  Compiling to bytecode without an engine: \<open>kmpjs_compile\<close> makes a runtime of its own, compiles, puts
  the serialized object behind the header of \<open>Bytecode\<close> and takes everything down again. The runtime
  has none of the shim's callbacks but a module loader that answers every import with an empty module.

  Payloads are blocks from \<open>kmpjs_alloc\<close> that belong to the caller.
\<close>

section \<open>Owned payloads\<close>

text \<open>\<open>kmpjs_alloc\<close> and the copy into the block; null and length 0 when the allocation fails.\<close>

definition kmpjs_alloc :: "('h, 'u) link \<Rightarrow> bytes \<Rightarrow> ('h, 'u) world \<Rightarrow> ((cptr \<times> int) \<times> ('h, 'u) world) option" where
  "kmpjs_alloc X p w =
     do { (ok, w) \<leftarrow> c_malloc X w; Some (if ok then (PStr p, to_int32 (int (length p))) else (PNull, 0), w) }"

definition owned_text ::
  "('h, 'u) link \<Rightarrow> bytes \<Rightarrow> ('h, 'u) world \<Rightarrow> (kmpjs_value \<times> ('h, 'u) world) option" where
  "owned_text X msg w =
     do { (p, w) \<leftarrow> kmpjs_alloc X msg w;
          Some (zero_value\<lparr>v_tag := KMPJS_TAG_EXCEPTION, v_str := fst p, v_str_len := snd p\<rparr>, w) }"

definition owned_message ::
  "('h, 'u) link \<Rightarrow> bytes \<Rightarrow> ('h, 'u) world \<Rightarrow> ((int \<times> kmpjs_value) \<times> ('h, 'u) world) option" where
  "owned_message X msg w = do { (out, w) \<leftarrow> owned_text X msg w; Some ((-1, out), w) }"

text \<open>The stack of the exception, when it is an \<open>Error\<close>.\<close>

definition owned_stack ::
  "('h, 'u) link \<Rightarrow> jsval \<Rightarrow> kmpjs_value \<Rightarrow> ('h, 'u) world \<Rightarrow> (kmpjs_value \<times> ('h, 'u) world) option" where
  "owned_stack X exc out w =
     do { (st, w) \<leftarrow> js_val X (CGetPropertyStr exc ''stack'') w;
          if \<not> JS_IsString st then Some (out, JS_FreeValue X st w)
          else do {
            (p, w) \<leftarrow> JS_ToCStringLen X st w;
            case p of
              None \<Rightarrow> Some (out, JS_FreeValue X st w)
            | Some s \<Rightarrow>
                do { (q, w) \<leftarrow> kmpjs_alloc X (fst s) w;
                     Some (out\<lparr>v_stack := fst q, v_stack_len := snd q\<rparr>, JS_FreeValue X st (JS_FreeCString X (Some s) w)) } } }"

definition owned_exception ::
  "('h, 'u) link \<Rightarrow> ('h, 'u) world \<Rightarrow> ((int \<times> kmpjs_value) \<times> ('h, 'u) world) option" where
  "owned_exception X w =
     do { (exc, w) \<leftarrow> js_val X CGetException w;
          (s, w) \<leftarrow> js_val X (CToString exc) w;
          (p, w) \<leftarrow> (if JS_IsException s then Some (None, w) else JS_ToCStringLen X s w);
          (out, w) \<leftarrow> owned_text X (case p of None \<Rightarrow> ''compilation failed'' | Some t \<Rightarrow> fst t) w;
          let w = JS_FreeValue X s (JS_FreeCString X p w);
          (out, w) \<leftarrow> (if q_is_error (lib X) (heap w) exc then owned_stack X exc out w else Some (out, w));
          Some ((-1, out), JS_FreeValue X exc w) }"

section \<open>The compiler\<close>

definition stub_module_init :: int where
  "stub_module_init = 0"

definition stub_module_loader :: "('h, 'u) link \<Rightarrow> bytes \<Rightarrow> ('h, 'u) world \<Rightarrow> (jret \<times> ('h, 'u) world) option" where
  "stub_module_loader X name w = enter X (CNewCModule name) w"

definition JS_STRIP_SOURCE :: int where [simp]: "JS_STRIP_SOURCE = 1"
definition JS_STRIP_DEBUG :: int where [simp]: "JS_STRIP_DEBUG = 2"

definition strip_flags :: "int \<Rightarrow> int" where
  "strip_flags flags =
     (if flags AND KMPJS_COMPILE_STRIP_SOURCE \<noteq> 0 then JS_STRIP_SOURCE else 0) OR
     (if flags AND KMPJS_COMPILE_STRIP_DEBUG \<noteq> 0 then JS_STRIP_DEBUG else 0)"

definition compile_eval_flags :: "int \<Rightarrow> int" where
  "compile_eval_flags flags =
     JS_EVAL_FLAG_COMPILE_ONLY OR (if flags AND KMPJS_COMPILE_MODULE \<noteq> 0 then JS_EVAL_TYPE_MODULE else JS_EVAL_TYPE_GLOBAL)"

text \<open>The container around the serialized object.\<close>

definition pack_bytecode ::
  "('h, 'u) link \<Rightarrow> int \<Rightarrow> bytes \<Rightarrow> ('h, 'u) world \<Rightarrow> ((int \<times> kmpjs_value) \<times> ('h, 'u) world) option" where
  "pack_bytecode X flags data w =
     do { (q, w) \<leftarrow> kmpjs_alloc X (header_bytes (compile_header (commit (lib X)) flags) @ data) w;
          if fst q = PNull then owned_message X ''out of memory'' w
          else Some ((0, zero_value\<lparr>v_tag := KMPJS_TAG_STRING, v_str := fst q, v_str_len := snd q\<rparr>), w) }"

text \<open>From \<open>terminated_copy\<close> to the label \<open>done\<close>.\<close>

definition compile_in ::
  "('h, 'u) link \<Rightarrow> bytes \<Rightarrow> bytes \<Rightarrow> int \<Rightarrow> ('h, 'u) world \<Rightarrow> ((int \<times> kmpjs_value) \<times> ('h, 'u) world) option" where
  "compile_in X code filename flags w =
     do { (buf, w) \<leftarrow> terminated_copy X code w;
          case buf of
            None \<Rightarrow> owned_message X ''out of memory'' w
          | Some s \<Rightarrow>
              do { (obj, w) \<leftarrow> js_val X (CEval s filename (compile_eval_flags flags)) w;
                   if JS_IsException obj then owned_exception X w
                   else do {
                     (r, w) \<leftarrow> enter X (CWriteObject obj) w;
                     let w = JS_FreeValue X obj w;
                     case ret_bytes r of
                       None \<Rightarrow> owned_exception X w
                     | Some data \<Rightarrow> pack_bytecode X flags data w } } }"

definition kmpjs_compile ::
  "('h, 'u) link \<Rightarrow> bytes \<Rightarrow> bytes \<Rightarrow> int \<Rightarrow> ('h, 'u) world \<Rightarrow> ((int \<times> kmpjs_value) \<times> ('h, 'u) world) option" where
  "kmpjs_compile X code filename flags w =
     do { (r, w) \<leftarrow> js_val X CNewRuntime w;
          if JS_IsNull r then owned_message X ''could not create compile runtime'' w
          else do {
            (_, w) \<leftarrow> enter X (CSetStripInfo (strip_flags flags)) w;
            (c, w) \<leftarrow> js_val X CNewContext w;
            if JS_IsNull c then owned_message X ''could not create compile context'' (JS_FreeValue X r w)
            else do {
              (res, w) \<leftarrow> compile_in X code filename flags w;
              Some (res, JS_FreeValue X r (JS_FreeValue X c w)) } } }"

section \<open>The contract\<close>

lemma cnt_no_cstr [simp]: "cnt (cstr_val None) a = 0"
  by (simp add: cstr_val_def)

context engine_link
begin

lemma kmpjs_alloc_ok [vcg]:
  assumes "step T w0 w"
  shows "ensures (kmpjs_alloc X p w) (\<lambda>(r, w'). step T w0 w')"
  unfolding kmpjs_alloc_def using assms by - (rule flow vcg keep | assumption)+

lemma owned_text_ok [vcg]:
  assumes "step T w0 w"
  shows "ensures (owned_text X p w) (\<lambda>(r, w'). step T w0 w')"
  unfolding owned_text_def using assms by - (rule flow vcg keep | assumption)+

lemma owned_message_ok [vcg]:
  assumes "step T w0 w"
  shows "ensures (owned_message X p w) (\<lambda>(r, w'). step T w0 w')"
  unfolding owned_message_def using assms by - (rule flow vcg keep | assumption)+

lemma owned_stack_ok [vcg]:
  assumes "step T w0 w"
  shows "ensures (owned_stack X exc out w) (\<lambda>(r, w'). step T w0 w')"
  unfolding owned_stack_def using assms
  by - (erule conjE | rule conjI flow vcg keep | rule ensures_tail, rule vcg | assumption | rule step_cong | simp add: own_arith trans_le_add1)+

lemma maybe_tocstring_ok [vcg]:
  assumes "step T w0 w"
  shows "ensures (if b then Some (None, w) else JS_ToCStringLen X s w)
    (\<lambda>(p, w'). step (\<lambda>a. T a + cnt (cstr_val p) a) w0 w')"
  using assms tocstring_ok [of T w0 w s] by (auto simp: cstr_val_def)

lemma owned_exception_ok [vcg]:
  assumes "step T w0 w"
  shows "ensures (owned_exception X w) (\<lambda>(r, w'). step T w0 w')"
  unfolding owned_exception_def Let_def using assms
  by - (erule conjE | rule maybe_tocstring_ok conjI flow vcg keep | rule ensures_tail, rule vcg | assumption | rule step_cong | simp add: own_arith trans_le_add1)+

lemma pack_bytecode_ok [vcg]:
  assumes "step T w0 w"
  shows "ensures (pack_bytecode X flags data w) (\<lambda>(r, w'). step T w0 w')"
  unfolding pack_bytecode_def using assms by - (rule flow vcg keep | assumption)+

lemma compile_in_ok [vcg]:
  assumes "step T w0 w"
  shows "ensures (compile_in X code filename flags w) (\<lambda>(r, w'). step T w0 w')"
  unfolding compile_in_def Let_def using assms
  by - (erule conjE | rule conjI flow vcg keep | rule ensures_tail, rule vcg | assumption | rule step_cong | simp add: own_arith trans_le_add1 JS_IsException_def)+

lemma compile_ok [vcg]:
  assumes "step T w0 w"
  shows "ensures (kmpjs_compile X code filename flags w) (\<lambda>(r, w'). step T w0 w')"
  unfolding kmpjs_compile_def Let_def using assms
  by - (erule conjE | rule conjI flow vcg keep | rule ensures_tail, rule vcg | assumption | rule step_cong | simp add: own_arith trans_le_add1 JS_IsNull_def)+

end

section \<open>The runtime of the compiler\<close>

text \<open>The requests of a runtime that has only a module loader: the default allocator is the engine's own,
  there is no interrupt handler and no host.\<close>

definition serve_compile :: "('h, 'u) link \<Rightarrow> jsreq \<Rightarrow> ('h, 'u) world \<Rightarrow> (jret \<times> ('h, 'u) world) option" where
  "serve_compile X q w =
     (case q of
        QNormalize base name \<Rightarrow> kmp_module_normalize X base name w
      | QLoad name \<Rightarrow> stub_module_loader X name w
      | _ \<Rightarrow> Some (RInt 0, w))"

fun compile_loop :: "nat \<Rightarrow> ('h, 'u) link \<Rightarrow> jsin \<Rightarrow> ('h, 'u) world \<Rightarrow> (jret \<times> ('h, 'u) world) option" where
  "compile_loop 0 X i w = None"
| "compile_loop (Suc n) X i w =
     (let (o', h) = q_step (lib X) i (heap w); w = w\<lparr>heap := h\<rparr> in
      case o' of
        OutRet r \<Rightarrow> Some (r, w)
      | OutReq q \<Rightarrow> do { (a, w) \<leftarrow> serve_compile X q w; compile_loop n X (InAnswer a) w })"

primrec mkc :: "nat \<Rightarrow> ('h, 'u) sys \<Rightarrow> ('h, 'u) link" where
  "mkc 0 S = \<lparr>lib = S, enter = (\<lambda>c w. None), ask = (\<lambda>i w. None), fuel = 0\<rparr>"
| "mkc (Suc n) S =
     \<lparr>lib = S, enter = (\<lambda>c. compile_loop (Suc n) (mkc n S) (InCall c)), ask = (\<lambda>i w. None), fuel = Suc n\<rparr>"

declare mkc.simps [simp del]

lemma mkc_fields:
  "lib (mkc n S) = S" "enter (mkc (Suc n) S) c w = compile_loop (Suc n) (mkc n S) (InCall c) w" "ask (mkc n S) i w = None"
  by (cases n; simp add: mkc.simps del: compile_loop.simps)+

context engine_link
begin

lemma compile_loop_ok:
  "step T w0 w \<Longrightarrow> ensures (compile_loop n X i w) (\<lambda>(r, w'). step T w0 w')"
proof (induction n arbitrary: i w)
  case (Suc n)
  obtain out h where o: "q_step (lib X) i (heap w) = (out, h)" by fastforce
  have st: "step T w0 (w\<lparr>heap := h\<rparr>)" by (rule step_heap [OF Suc.prems])
  show ?case
  proof (cases out)
    case (OutReq q)
    have "ensures (serve_compile X q (w\<lparr>heap := h\<rparr>)) (\<lambda>(r, w'). step T w0 w')"
      using st by (cases q) (simp_all add: serve_compile_def kmp_module_normalize_def stub_module_loader_def enter_ok)
    then show ?thesis using o OutReq Suc.IH by (auto intro: ensures_bindI)
  qed (use o st in simp)
qed simp

end

lemma mkc_link: "engine_link (mkc n S)"
proof (induction n)
  case (Suc n)
  show ?case
  proof
    fix T w0 w c r w' assume "step T w0 w" "enter (mkc (Suc n) S) c w = Some (r, w')"
    then show "step T w0 w'"
      using engine_link.compile_loop_ok [OF Suc.IH, of T w0 w "Suc n" "InCall c"] by (simp add: mkc_fields del: compile_loop.simps)
  qed (simp add: mkc_fields)
qed (unfold_locales; simp add: mkc.simps)

interpretation compiler: engine_link "mkc n S" for n S
  by (rule mkc_link)

section \<open>Properties\<close>

text \<open>What a failure of \<open>kmpjs_compile\<close> hands out: an exception whose payloads are the caller's.\<close>

definition owned_ptr :: "cptr \<Rightarrow> bool" where
  "owned_ptr p = (case p of PBlk i \<Rightarrow> False | _ \<Rightarrow> True)"

definition owned_error :: "int \<times> kmpjs_value \<Rightarrow> bool" where
  "owned_error r = (fst r = -1 \<and> v_tag (snd r) = KMPJS_TAG_EXCEPTION \<and> owned_ptr (v_str (snd r)) \<and> owned_ptr (v_stack (snd r)))"

lemma owned_text_error:
  "owned_text X msg w = Some (out, w') \<Longrightarrow> v_tag out = KMPJS_TAG_EXCEPTION \<and> owned_ptr (v_str out) \<and> v_stack out = PNull"
  by (auto simp: owned_text_def kmpjs_alloc_def c_malloc_def owned_ptr_def zero_value_def split: if_splits)

lemma owned_message_error: "owned_message X msg w = Some (r, w') \<Longrightarrow> owned_error r"
  by (auto simp: owned_message_def owned_error_def owned_ptr_def split: bind_splits dest!: owned_text_error)

lemma owned_stack_error:
  "owned_stack X exc out w = Some (out', w') \<Longrightarrow> owned_ptr (v_stack out) \<Longrightarrow>
   v_tag out' = v_tag out \<and> v_str out' = v_str out \<and> owned_ptr (v_stack out')"
  by (auto simp: owned_stack_def kmpjs_alloc_def c_malloc_def owned_ptr_def split: bind_splits option.splits if_splits)

lemma owned_exception_error: "owned_exception X w = Some (r, w') \<Longrightarrow> owned_error r"
  by (auto simp: owned_exception_def owned_error_def Let_def owned_ptr_def split: bind_splits if_splits
      dest!: owned_text_error owned_stack_error)

text \<open>A result whose payload is a container that the engine built from commit \<open>c\<close> accepts.\<close>

definition loadable :: "bytes \<Rightarrow> nat \<Rightarrow> int \<times> kmpjs_value \<Rightarrow> bool" where
  "loadable c k r = (fst r = 0 \<and> v_tag (snd r) = KMPJS_TAG_STRING \<and>
     (case v_str (snd r) of
        PStr b \<Rightarrow> v_str_len (snd r) = to_int32 (int (length b)) \<and> check_bytecode_header c b = Inr (k, drop 52 b)
      | _ \<Rightarrow> False))"

lemma pack_loadable:
  assumes "length (commit (lib X)) = 40" "pack_bytecode X flags data w = Some (r, w')"
  shows "loadable (commit (lib X)) (if flags AND KMPJS_COMPILE_MODULE \<noteq> 0 then 1 else 0) r \<or> owned_error r"
proof -
  have "length (header_bytes (compile_header (commit (lib X)) flags)) = 52"
    using assms(1) by (simp add: header_bytes_def compile_header_def)
  with assms(2) check_compiled [OF assms(1), of flags data] show ?thesis
    by (auto simp: pack_bytecode_def kmpjs_alloc_def c_malloc_def loadable_def split: if_splits dest: owned_message_error)
qed

lemma ensures_true: "ensures m (\<lambda>(r, w'). True)"
  by (cases m) auto

lemma ensures_result: "(\<And>r w'. m = Some (r, w') \<Longrightarrow> P r) \<Longrightarrow> ensures m (\<lambda>(r, w'). P r)"
  by (cases m) auto

lemma compile_in_loadable:
  assumes "length (commit (lib X)) = 40"
  shows "ensures (compile_in X code filename flags w)
    (\<lambda>(r, w'). loadable (commit (lib X)) (if flags AND KMPJS_COMPILE_MODULE \<noteq> 0 then 1 else 0) r \<or> owned_error r)"
  unfolding compile_in_def Let_def
  by (rule ensures_bindI [OF ensures_true] ensures_if ensures_option |
      rule ensures_result, erule pack_loadable [OF assms] disjI2 [OF owned_message_error] disjI2 [OF owned_exception_error])+

lemma compile_ends:
  assumes "length (commit S) = 40" "kmpjs_compile (mkc n S) code filename flags w = Some (r, w')"
  shows "loadable (commit S) (if flags AND KMPJS_COMPILE_MODULE \<noteq> 0 then 1 else 0) r \<or> owned_error r"
proof -
  have "ensures (kmpjs_compile (mkc n S) code filename flags w)
    (\<lambda>(r, w'). loadable (commit S) (if flags AND KMPJS_COMPILE_MODULE \<noteq> 0 then 1 else 0) r \<or> owned_error r)"
    unfolding kmpjs_compile_def
    by (rule ensures_bindI [OF compile_in_loadable [of "mkc n S", unfolded mkc_fields, OF assms(1)]]
        ensures_bindI [OF ensures_true] ensures_if |
        rule ensures_result, erule disjI2 [OF owned_message_error] | rule ensures_ret, assumption)+
  with assms(2) show ?thesis by simp
qed


text \<open>\<open>kmpjs_compile\<close> gives back everything it takes, on every path: the runtime, the context, the
  compiled object, exceptions and strings are released exactly once, so the references C code holds are
  accounted for as before.\<close>

theorem compile_releases_everything:
  assumes "good T w" "kmpjs_compile (mkc n S) code filename flags w = Some (r, w')"
  shows "good T w' \<and> rel w w'"
  using compiler.compile_ok [OF step_start [OF assms(1)], of n S code filename flags] assms(2) by (simp add: step_def)

text \<open>A compiler that imports a module before it returns.\<close>

definition compile_call :: "jscall \<Rightarrow> demo_heap \<Rightarrow> jsout \<times> demo_heap" where
  "compile_call c h =
     (case c of
        CEval code name flags \<Rightarrow> (OutReq (QLoad ''dep''), h)
      | CWriteObject v \<Rightarrow> (OutRet (RBytes (Some ''code'')), h)
      | _ \<Rightarrow> demo_call c h)"

definition compile_step :: "jsin \<Rightarrow> demo_heap \<Rightarrow> jsout \<times> demo_heap" where
  "compile_step i h = (case i of InCall c \<Rightarrow> compile_call c h | InAnswer a \<Rightarrow> demo_fresh TagModule h)"

definition compile_sys :: "(demo_heap, nat) sys" where
  "compile_sys = demo_sys\<lparr>q_step := compile_step\<rparr>"

definition compile_run :: "((int \<times> kmpjs_value) \<times> (demo_heap, nat) world) option" where
  "compile_run = kmpjs_compile (mkc (Suc (Suc (Suc 0))) compile_sys) ''import x'' ''m'' 1 demo_blank"

lemmas compile_defs = compile_call_def compile_step_def compile_sys_def kmpjs_compile_def compile_in_def
  pack_bytecode_def owned_message_def owned_text_def kmpjs_alloc_def serve_compile_def stub_module_loader_def
  compile_eval_flags_def strip_flags_def mkc_fields

lemma compile_run_value: "\<exists>out w'. compile_run = Some ((0, out), w')"
  unfolding compile_run_def by (simp add: compile_defs run_defs demo_defs cong: bind_weak_cong)


theorem compile_releases_everything_witness: "\<exists>r w'. compile_run = Some (r, w') \<and> good (\<lambda>a. 0) w'"
proof -
  obtain r w' where r: "compile_run = Some (r, w')" using compile_run_value by blast
  from compile_releases_everything [OF demo_blank_good r [unfolded compile_run_def]] r show ?thesis by blast
qed

end
