(* ===== verification/Tool.thy ===== *)
theory Tool
  imports Compile
begin

text \<open>
  The command line compiler \<open>qjsc_kmp\<close>: argument parsing, reading the input, \<open>kmpjs_compile\<close> and writing
  the output. The C library's files are a parameter: what opening, seeking, reading, creating, writing
  and closing a path yields.
\<close>

record stdio =
  f_open :: "bytes \<Rightarrow> bytes option"
  f_seek :: "bytes \<Rightarrow> bool"
  f_malloc :: "nat \<Rightarrow> bool"
  f_read :: "bytes \<Rightarrow> nat"
  f_create :: "bytes \<Rightarrow> bool"
  f_write :: "bytes \<Rightarrow> nat"
  f_close :: "bytes \<Rightarrow> bool"

section \<open>Arguments\<close>

record tool_opts =
  t_flags :: int
  t_input :: "bytes option"
  t_output :: "bytes option"
  t_name :: "bytes option"

definition no_opts :: tool_opts where
  "no_opts = \<lparr>t_flags = 0, t_input = None, t_output = None, t_name = None\<rparr>"

text \<open>The loop over \<open>argv\<close>; \<open>None\<close> is the return through \<open>usage\<close>.\<close>

fun parse_args :: "bytes list \<Rightarrow> tool_opts \<Rightarrow> tool_opts option" where
  "parse_args [] t = Some t"
| "parse_args (a # as) t =
     (if a = ''-m'' then parse_args as (t\<lparr>t_flags := t_flags t OR KMPJS_COMPILE_MODULE\<rparr>)
      else if a = ''--strip-source'' then parse_args as (t\<lparr>t_flags := t_flags t OR KMPJS_COMPILE_STRIP_SOURCE\<rparr>)
      else if a = ''--strip-debug'' then parse_args as (t\<lparr>t_flags := t_flags t OR KMPJS_COMPILE_STRIP_DEBUG\<rparr>)
      else if a = ''-n'' \<and> as \<noteq> [] then parse_args (tl as) (t\<lparr>t_name := Some (hd as)\<rparr>)
      else if a = ''-o'' \<and> as \<noteq> [] then parse_args (tl as) (t\<lparr>t_output := Some (hd as)\<rparr>)
      else if take 1 a = ''-'' \<or> t_input t \<noteq> None then None
      else parse_args as (t\<lparr>t_input := Some a\<rparr>))"

definition usage :: "bytes \<Rightarrow> bytes" where
  "usage argv0 =
     ''usage: '' @ argv0 @ '' [-m] [-n NAME] [--strip-source | --strip-debug] [-o OUT] INPUT'' @ [CHR 0x0A] @
     ''  -m             compile as an ES module (registered/imported under NAME)'' @ [CHR 0x0A] @
     ''  -n NAME        script or module name recorded in the bytecode (default: INPUT)'' @ [CHR 0x0A] @
     ''  --strip-source drop the source text, keep line numbers'' @ [CHR 0x0A] @
     ''  --strip-debug  drop all debug information'' @ [CHR 0x0A] @
     ''  -o OUT         output file (default: INPUT with .bin appended)'' @ [CHR 0x0A]"

text \<open>\<open>%ld\<close> of a length.\<close>

fun decimal :: "nat \<Rightarrow> bytes" where
  "decimal n = (if n < 10 then [char_of (48 + n)] else decimal (n div 10) @ [char_of (48 + n mod 10)])"

section \<open>Files\<close>

definition read_file :: "stdio \<Rightarrow> bytes \<Rightarrow> bytes option" where
  "read_file io path =
     (case f_open io path of
        None \<Rightarrow> None
      | Some s \<Rightarrow>
          if \<not> f_seek io path then None
          else if \<not> f_malloc io (length s + 1) \<or> f_read io path \<noteq> length s then None
          else Some s)"

text \<open>Creating the output: whether everything was written, and what the file then holds.\<close>

definition write_file :: "stdio \<Rightarrow> bytes \<Rightarrow> bytes \<Rightarrow> bool \<times> (bytes \<times> bytes) option" where
  "write_file io path b =
     (if f_create io path then (f_write io path = length b \<and> f_close io path, Some (path, take (f_write io path) b))
      else (False, None))"

section \<open>The program\<close>

text \<open>\<open>%.*s\<close> prints at most so many bytes and stops at a zero byte.\<close>

definition print_str :: "int \<Rightarrow> bytes \<Rightarrow> bytes" where
  "print_str prec s = takeWhile (\<lambda>c. c \<noteq> CHR 0x00) (take (nat prec) s)"

text \<open>\<open>fprintf(stderr, "%.*s\n", ...)\<close> with the message, then the stack.\<close>

definition compile_error_text :: "('h, 'u) world \<Rightarrow> kmpjs_value \<Rightarrow> bytes" where
  "compile_error_text w r =
     print_str (v_str_len r) (if v_str r \<noteq> PNull then in_bytes w (v_str r) (v_str_len r) else ''compilation failed'') @
     [CHR 0x0A] @ (if v_stack r \<noteq> PNull then print_str (v_stack_len r) (in_bytes w (v_stack r) (v_stack_len r)) else [])"

text \<open>The result of the program: exit status, what went to \<open>stderr\<close> and the file written.\<close>

record tool_result =
  exit_status :: int
  stderr_text :: bytes
  out_file :: "(bytes \<times> bytes) option"

definition fail_with :: "int \<Rightarrow> bytes \<Rightarrow> tool_result" where
  "fail_with rc msg = \<lparr>exit_status = rc, stderr_text = msg, out_file = None\<rparr>"

text \<open>After \<open>kmpjs_compile\<close>.\<close>

definition tool_finish :: "stdio \<Rightarrow> bytes \<Rightarrow> bytes \<Rightarrow> ('h, 'u) world \<Rightarrow> int \<times> kmpjs_value \<Rightarrow> tool_result" where
  "tool_finish io argv0 output w r =
     (if fst r \<noteq> 0 then fail_with 1 (compile_error_text w (snd r))
      else
        let (wrote, f) = write_file io output (in_bytes w (v_str (snd r)) (v_str_len (snd r))) in
        \<lparr>exit_status = (if wrote then 0 else 1),
         stderr_text = (if wrote then [] else argv0 @ '': cannot write '' @ output @ [CHR 0x0A]), out_file = f\<rparr>)"

text \<open>From \<open>read_file\<close> on.\<close>

definition tool_compile ::
  "('h, 'u) link \<Rightarrow> stdio \<Rightarrow> bytes \<Rightarrow> bytes \<Rightarrow> bytes \<Rightarrow> bytes \<Rightarrow> int \<Rightarrow> ('h, 'u) world \<Rightarrow> (tool_result \<times> ('h, 'u) world) option" where
  "tool_compile X io argv0 input output name flags w =
     (case read_file io input of
        None \<Rightarrow> Some (fail_with 1 (argv0 @ '': cannot read '' @ input @ [CHR 0x0A]), w)
      | Some code \<Rightarrow>
          if INT32_MAX < int (length code) then
            Some (fail_with 1 (argv0 @ '': '' @ input @ '' is too large ('' @ decimal (length code) @ '' bytes)'' @ [CHR 0x0A]), w)
          else do { (r, w) \<leftarrow> kmpjs_compile X code name flags w; Some (tool_finish io argv0 output w r, w) })"

definition output_of :: "tool_opts \<Rightarrow> bytes \<Rightarrow> bytes" where
  "output_of t input = (case t_output t of None \<Rightarrow> input @ ''.bin'' | Some s \<Rightarrow> s)"

definition name_of :: "tool_opts \<Rightarrow> bytes \<Rightarrow> bytes" where
  "name_of t input = (case t_name t of None \<Rightarrow> input | Some s \<Rightarrow> s)"

definition main ::
  "('h, 'u) link \<Rightarrow> stdio \<Rightarrow> bytes list \<Rightarrow> ('h, 'u) world \<Rightarrow> (tool_result \<times> ('h, 'u) world) option" where
  "main X io argv w =
     (case parse_args (tl argv) no_opts of
        None \<Rightarrow> Some (fail_with 2 (usage (hd argv)), w)
      | Some t \<Rightarrow>
          (case t_input t of
             None \<Rightarrow> Some (fail_with 2 (usage (hd argv)), w)
           | Some input \<Rightarrow>
               if t_output t = None \<and> \<not> f_malloc io (length input + 5) then Some (fail_with 1 [], w)
               else tool_compile X io (hd argv) input (output_of t input) (name_of t input) (t_flags t) w))"

section \<open>Properties\<close>

lemma header_prefix:
  assumes "check_bytecode_header c b = Inr (k, d)" "52 \<le> n"
  shows "check_bytecode_header c (take n b) = Inr (k, drop 52 (take n b))"
proof -
  have len: "52 \<le> length b" using assms(1) by (simp add: check_bytecode_header_def split: if_splits)
  then have "read_header (take n b) = read_header b" "take 4 (take n b) = take 4 b"
    using assms(2) by (simp_all add: read_header_def drop_take min_def)
  with assms len show ?thesis by (auto simp: check_bytecode_header_def Let_def split: if_splits)
qed

lemma fail_with_status [simp]: "exit_status (fail_with rc msg) = rc"
  by (simp add: fail_with_def)

lemma tool_compile_success:
  assumes "tool_compile X io argv0 input output name flags w = Some (t, w')" "exit_status t = 0"
  shows "\<exists>code r. kmpjs_compile X code name flags w = Some (r, w') \<and> t = tool_finish io argv0 output w' r"
proof (cases "read_file io input")
  case (Some code)
  with assms show ?thesis
    by (cases "kmpjs_compile X code name flags w") (auto simp: tool_compile_def simp del: decimal.simps split: if_splits)
qed (use assms in \<open>auto simp: tool_compile_def\<close>)

lemma main_success:
  assumes "main X io argv w = Some (t, w')" "exit_status t = 0"
  shows "\<exists>opts input. parse_args (tl argv) no_opts = Some opts \<and> t_input opts = Some input \<and>
    tool_compile X io (hd argv) input (output_of opts input) (name_of opts input) (t_flags opts) w = Some (t, w')"
  using assms by (auto simp: main_def split: option.splits if_splits)

text \<open>When the command line compiler reports success, the output file (\<open>INPUT.bin\<close> unless \<open>-o\<close> says
  otherwise) holds bytecode that an engine of the same build accepts, of the kind \<open>-m\<close> asked for, and
  nothing was printed.\<close>

theorem tool_output_loads:
  assumes "length (commit S) = 40" "main (mkc n S) io argv w = Some (t, w')" "exit_status t = 0"
    "out_file t = Some (path, b)" "52 \<le> length b"
  shows "\<exists>opts input. parse_args (tl argv) no_opts = Some opts \<and> t_input opts = Some input \<and>
    path = output_of opts input \<and> stderr_text t = [] \<and>
    check_bytecode_header (commit S) b = Inr (if t_flags opts AND KMPJS_COMPILE_MODULE \<noteq> 0 then 1 else 0, drop 52 b)"
proof -
  obtain opts input where opts: "parse_args (tl argv) no_opts = Some opts" "t_input opts = Some input"
      "tool_compile (mkc n S) io (hd argv) input (output_of opts input) (name_of opts input) (t_flags opts) w = Some (t, w')"
    using main_success [OF assms(2,3)] by blast
  obtain code r where run: "kmpjs_compile (mkc n S) code (name_of opts input) (t_flags opts) w = Some (r, w')"
      "t = tool_finish io (hd argv) (output_of opts input) w' r"
    using tool_compile_success [OF opts(3) assms(3)] by blast
  have rc: "fst r = 0" using run(2) assms(3) by (auto simp: tool_finish_def fail_with_def split: if_splits)
  let ?k = "if t_flags opts AND KMPJS_COMPILE_MODULE \<noteq> 0 then 1 else 0"
  have l: "loadable (commit S) ?k r"
    using compile_ends [OF assms(1) run(1)] rc by (auto simp: owned_error_def)
  then obtain c where c: "v_str (snd r) = PStr c" "check_bytecode_header (commit S) c = Inr (?k, drop 52 c)"
    by (auto simp: loadable_def split: cptr.splits)
  have b: "b = in_bytes w' (PStr c) (v_str_len (snd r)) \<and> stderr_text t = [] \<and>
      path = output_of opts input"
    using run(2) rc assms(3,4) c(1) by (auto simp: tool_finish_def write_file_def split: if_splits prod.splits)
  with assms(5) have t: "b = take (nat (v_str_len (snd r))) c" by (auto simp: in_bytes_def cread_def split: if_splits)
  with assms(5) have "52 \<le> nat (v_str_len (snd r))" by simp
  from header_prefix [OF c(2) this] t b opts show ?thesis by metis
qed

definition demo_io :: stdio where
  "demo_io = \<lparr>f_open = (\<lambda>p. if p = ''a.js'' then Some ''export {}'' else None), f_seek = (\<lambda>p. True),
     f_malloc = (\<lambda>n. True), f_read = (\<lambda>p. 9), f_create = (\<lambda>p. True), f_write = (\<lambda>p. 56), f_close = (\<lambda>p. True)\<rparr>"

definition tool_run :: "(tool_result \<times> (demo_heap, nat) world) option" where
  "tool_run = main (mkc (Suc (Suc (Suc 0))) compile_sys) demo_io [''qjsc'', ''-m'', ''-n'', ''mod'', ''a.js''] demo_blank"

lemmas tool_defs = tool_run_def main_def no_opts_def tool_compile_def output_of_def name_of_def read_file_def demo_io_def
  write_file_def tool_finish_def INT32_MAX_def in_bytes_def cread_def header_bytes_def compile_header_def le32_def
  KMPJS_BYTECODE_HEADER_SIZE_def

lemma tool_run_value:
  "\<exists>t w' b. tool_run = Some (t, w') \<and> exit_status t = 0 \<and> out_file t = Some (''a.js.bin'', b) \<and> 52 \<le> length b"
  by (simp add: tool_defs compile_defs run_defs demo_defs to_int32_def cong: bind_weak_cong)

theorem tool_output_loads_witness:
  "\<exists>t w' b. tool_run = Some (t, w') \<and> out_file t = Some (''a.js.bin'', b) \<and>
     check_bytecode_header (commit compile_sys) b = Inr (1, drop 52 b)"
proof -
  obtain t w' b where r: "tool_run = Some (t, w')" "exit_status t = 0" "out_file t = Some (''a.js.bin'', b)" "52 \<le> length b"
    using tool_run_value by blast
  have "length (commit compile_sys) = 40" by (simp add: compile_sys_def demo_sys_fields)
  from tool_output_loads [OF this r(1) [unfolded tool_run_def] r(2,3,4)] r(1,3) show ?thesis
    by (auto simp: no_opts_def)
qed

text \<open>A compilation that fails for lack of memory is reported with an empty line: the text
  \<open>compilation failed\<close> that stands in for a missing message is printed with the precision of the missing
  message, which is 0.\<close>

theorem tool_hides_failure:
  "\<exists>t w'. main (mkc (Suc (Suc (Suc 0))) (compile_sys\<lparr>c_alloc := (\<lambda>n. False)\<rparr>)) demo_io [''qjsc'', ''a.js''] demo_blank = Some (t, w') \<and>
    exit_status t = 1 \<and> stderr_text t = [CHR 0x0A]"
  by (simp add: tool_defs compile_defs run_defs demo_defs compile_error_text_def print_str_def fail_with_def cong: bind_weak_cong)

end
