(* ===== verification/Jni.thy ===== *)
theory Jni
  imports Compile
begin

text \<open>
  The JNI binding \<open>quickjs_jni.c\<close>: conversions between \<open>kmpjs_value\<close> and the Java class \<open>NativeValue\<close>, the
  callbacks that take engine requests to Java, and the native methods Java calls.

  The JVM is a parameter: which of its allocations succeed, whether a local frame can be pushed, and
  what Java code does. Java is a machine like the host of \<open>Engine\<close>: it is called by a callback and may
  call native methods before it returns or throws, so re-entrant use is part of the model. The JNI state
  (\<open>jni\<close>) takes the place of the host state of a world; it counts the local frames and the global
  references that are open.
\<close>

section \<open>The Java side\<close>

text \<open>\<open>NativeValue\<close>; a \<open>byte[]\<close> is a byte string, \<open>null\<close> is \<open>None\<close>.\<close>

record jvalue =
  j_tag :: int
  j_ref :: "64 word"
  j_num :: f64
  j_str :: "bytes option"
  j_stack :: "bytes option"

datatype ncall =
    NEval bytes bytes int
  | NDefineFunction bytes int int
  | NInterrupt
  | NRegisterModule bytes bytes
  | NEvalModule bytes bytes int
  | NRunBytecode bytes int
  | NRegisterModuleBytecode bytes
  | NRefRetain "64 word"
  | NRefRelease "64 word"
  | NRefGet "64 word" bytes int
  | NRefGetIndex "64 word" int int
  | NRefSet "64 word" bytes "jvalue option"
  | NRefCall "64 word" "64 word" "jvalue option list" int
  | NRefToJson "64 word"
  | NStats
  | NDumpMemory

datatype jres = JObject "jvalue option" | JBytes "bytes option" | JLongs "int list option" | JVoid

datatype jin = JOnHostCall int "jvalue option list" | JOnLog "bytes option" | JOnRejection "jvalue option" | JNativeResult jres
datatype jout = JReturn "jvalue option" | JThrow | JNative ncall

record 'j jni =
  clock :: nat
  frames :: nat
  globals :: nat
  java :: 'j

record 'j jenv =
  jv_alloc :: "nat \<Rightarrow> bool"
  jv_malloc :: "nat \<Rightarrow> bool"
  jv_frame :: "nat \<Rightarrow> bool"
  jv_step :: "jin \<Rightarrow> 'j \<Rightarrow> jout \<times> 'j"
  jv_load :: "bytes option \<Rightarrow> 'j \<Rightarrow> jvalue option option \<times> 'j"

text \<open>One question to the environment, answered by its oracle.\<close>

definition tick :: "(nat \<Rightarrow> bool) \<Rightarrow> 'j jni \<Rightarrow> bool \<times> 'j jni" where
  "tick f u = (f (clock u), u\<lparr>clock := clock u + 1\<rparr>)"

section \<open>Conversions\<close>

text \<open>The bytes behind a payload that has been read out of the engine's buffers.\<close>

definition ptr_bytes :: "cptr \<Rightarrow> int \<Rightarrow> bytes option" where
  "ptr_bytes p len = (case p of PStr s \<Rightarrow> Some (take (nat len) s) | _ \<Rightarrow> None)"

definition new_bytes :: "'j jenv \<Rightarrow> bytes option \<Rightarrow> 'j jni \<Rightarrow> bytes option \<times> 'j jni" where
  "new_bytes J p u =
     (case p of None \<Rightarrow> (None, u)
      | Some s \<Rightarrow> let (ok, u) = tick (jv_alloc J) u in (if ok then Some s else None, u))"

definition new_value :: "'j jenv \<Rightarrow> kmpjs_value \<Rightarrow> 'j jni \<Rightarrow> jvalue option \<times> 'j jni" where
  "new_value J v u =
     (let (str, u) = new_bytes J (ptr_bytes (v_str v) (v_str_len v)) u;
          (stack, u) = new_bytes J (ptr_bytes (v_stack v) (v_stack_len v)) u;
          (ok, u) = tick (jv_alloc J) u in
      (if ok then Some \<lparr>j_tag = v_tag v, j_ref = v_ref v, j_num = v_num v, j_str = str, j_stack = stack\<rparr> else None, u))"

definition copy_bytes :: "'j jenv \<Rightarrow> bytes option \<Rightarrow> 'j jni \<Rightarrow> (cptr \<times> int) \<times> 'j jni" where
  "copy_bytes J arr u =
     (case arr of None \<Rightarrow> ((PNull, 0), u)
      | Some s \<Rightarrow> let (ok, u) = tick (jv_malloc J) u in (if ok then (PStr s, int (length s)) else (PNull, 0), u))"

definition dup_cstring :: "'j jenv \<Rightarrow> bytes \<Rightarrow> 'j jni \<Rightarrow> bytes option \<times> 'j jni" where
  "dup_cstring J arr u = (let (ok, u) = tick (jv_malloc J) u in (if ok then Some arr else None, u))"

definition set_error :: "'j jenv \<Rightarrow> bytes \<Rightarrow> 'j jni \<Rightarrow> kmpjs_value \<times> 'j jni" where
  "set_error J msg u =
     (let (p, u) = copy_bytes J (Some msg) u in
      (zero_value\<lparr>v_tag := KMPJS_TAG_EXCEPTION, v_str := fst p, v_str_len := snd p\<rparr>, u))"

definition read_value :: "'j jenv \<Rightarrow> jvalue option \<Rightarrow> 'j jni \<Rightarrow> kmpjs_value \<times> 'j jni" where
  "read_value J obj u =
     (case obj of None \<Rightarrow> (zero_value\<lparr>v_tag := KMPJS_TAG_UNDEFINED\<rparr>, u)
      | Some j \<Rightarrow>
          let (str, u) = copy_bytes J (j_str j) u;
              (stack, u) = copy_bytes J (j_stack j) u in
          (zero_value\<lparr>v_tag := j_tag j, v_ref := j_ref j, v_num := j_num j, v_str := fst str, v_str_len := snd str,
             v_stack := fst stack, v_stack_len := snd stack\<rparr>, u))"

fun new_values :: "'j jenv \<Rightarrow> kmpjs_value list \<Rightarrow> 'j jni \<Rightarrow> jvalue option list \<times> 'j jni" where
  "new_values J [] u = ([], u)"
| "new_values J (v # vs) u = (let (x, u) = new_value J v u; (xs, u) = new_values J vs u in (x # xs, u))"

fun read_values :: "'j jenv \<Rightarrow> jvalue option list \<Rightarrow> 'j jni \<Rightarrow> kmpjs_value list \<times> 'j jni" where
  "read_values J [] u = ([], u)"
| "read_values J (j # js) u = (let (x, u) = read_value J j u; (xs, u) = read_values J js u in (x # xs, u))"

section \<open>JNI state in a world\<close>

definition jdo :: "('j jni \<Rightarrow> 'a \<times> 'j jni) \<Rightarrow> ('h, 'j jni) world \<Rightarrow> ('a \<times> ('h, 'j jni) world) option" where
  "jdo f w = (let (x, u) = f (hst w) in Some (x, w\<lparr>hst := u\<rparr>))"

text \<open>\<open>current_env\<close> and \<open>PushLocalFrame\<close>; \<open>PopLocalFrame\<close>.\<close>

definition push_frame :: "'j jenv \<Rightarrow> 'j jni \<Rightarrow> bool \<times> 'j jni" where
  "push_frame J u =
     (let (ok, u) = tick (jv_frame J) u in (ok, if ok then u\<lparr>frames := frames u + 1\<rparr> else u))"

definition pop_frame :: "'j jni \<Rightarrow> unit \<times> 'j jni" where
  "pop_frame u = ((), u\<lparr>frames := frames u - 1\<rparr>)"

definition global_ref :: "'j jni \<Rightarrow> unit \<times> 'j jni" where
  "global_ref u = ((), u\<lparr>globals := globals u + 1\<rparr>)"

definition delete_global_ref :: "'j jni \<Rightarrow> unit \<times> 'j jni" where
  "delete_global_ref u = ((), u\<lparr>globals := globals u - 1\<rparr>)"

text \<open>The value of a finished call, as Java sees it.\<close>

definition out_value :: "'j jenv \<Rightarrow> kmpjs_value \<Rightarrow> ('h, 'j jni) world \<Rightarrow> (jres \<times> ('h, 'j jni) world) option" where
  "out_value J out w = do { (v, w) \<leftarrow> jdo (new_value J (resolve w out)) w; Some (JObject v, w) }"

section \<open>Native methods\<close>

text \<open>Two strings copied for a call: both are allocated before either is checked.\<close>

definition dup_two ::
  "'j jenv \<Rightarrow> bytes \<Rightarrow> bytes \<Rightarrow> ('h, 'j jni) world \<Rightarrow> ((bytes \<times> bytes) option \<times> ('h, 'j jni) world) option" where
  "dup_two J a b w =
     do { (x, w) \<leftarrow> jdo (dup_cstring J a) w;
          (y, w) \<leftarrow> jdo (dup_cstring J b) w;
          Some (case (x, y) of (Some s, Some t) \<Rightarrow> Some (s, t) | _ \<Rightarrow> None, w) }"

definition nativeEval ::
  "'j jenv \<Rightarrow> ('h, 'j jni) link \<Rightarrow> bytes \<Rightarrow> bytes \<Rightarrow> int \<Rightarrow> ('h, 'j jni) world \<Rightarrow> (jres \<times> ('h, 'j jni) world) option" where
  "nativeEval J X code filename flags w =
     do { (b, w) \<leftarrow> dup_two J code filename w;
          case b of None \<Rightarrow> Some (JObject None, w)
          | Some s \<Rightarrow> do { (r, w) \<leftarrow> kmpjs_eval X (fst s) (c_str (snd s)) flags w; out_value J (snd r) w } }"

definition nativeDefineFunction ::
  "'j jenv \<Rightarrow> ('h, 'j jni) link \<Rightarrow> bytes \<Rightarrow> int \<Rightarrow> int \<Rightarrow> ('h, 'j jni) world \<Rightarrow> (jres \<times> ('h, 'j jni) world) option" where
  "nativeDefineFunction J X name fn_id flags w =
     do { (b, w) \<leftarrow> jdo (dup_cstring J name) w;
          case b of None \<Rightarrow> Some (JObject None, w)
          | Some s \<Rightarrow> do { (r, w) \<leftarrow> kmpjs_define_function X (c_str s) fn_id flags w; out_value J (snd r) w } }"

definition nativeInterrupt :: "('h, 'j jni) world \<Rightarrow> (jres \<times> ('h, 'j jni) world) option" where
  "nativeInterrupt w = Some (JVoid, upd_eng (\<lambda>e. e\<lparr>state := state_interrupt (state e)\<rparr>) w)"

definition nativeRegisterModule ::
  "'j jenv \<Rightarrow> ('h, 'j jni) link \<Rightarrow> bytes \<Rightarrow> bytes \<Rightarrow> ('h, 'j jni) world \<Rightarrow> (jres \<times> ('h, 'j jni) world) option" where
  "nativeRegisterModule J X name code w =
     do { (b, w) \<leftarrow> dup_two J name code w;
          case b of None \<Rightarrow> Some (JObject None, w)
          | Some s \<Rightarrow> do { (r, w) \<leftarrow> kmpjs_register_module X (c_str (fst s)) (snd s) w; out_value J (snd r) w } }"

definition nativeEvalModule ::
  "'j jenv \<Rightarrow> ('h, 'j jni) link \<Rightarrow> bytes \<Rightarrow> bytes \<Rightarrow> int \<Rightarrow> ('h, 'j jni) world \<Rightarrow> (jres \<times> ('h, 'j jni) world) option" where
  "nativeEvalModule J X code name flags w =
     do { (b, w) \<leftarrow> dup_two J code name w;
          case b of None \<Rightarrow> Some (JObject None, w)
          | Some s \<Rightarrow> do { (r, w) \<leftarrow> kmpjs_eval_module X (fst s) (c_str (snd s)) flags w; out_value J (snd r) w } }"

text \<open>The link of \<open>nativeCompile\<close> is the compiler's; there is no engine.\<close>

definition nativeCompile ::
  "'j jenv \<Rightarrow> ('h, 'j jni) link \<Rightarrow> bytes \<Rightarrow> bytes \<Rightarrow> int \<Rightarrow> ('h, 'j jni) world \<Rightarrow> (jres \<times> ('h, 'j jni) world) option" where
  "nativeCompile J X code filename flags w =
     do { (b, w) \<leftarrow> dup_two J code filename w;
          case b of None \<Rightarrow> Some (JObject None, w)
          | Some s \<Rightarrow>
              do { (r, w) \<leftarrow> kmpjs_compile X (fst s) (c_str (snd s)) flags w;
                   if fst r = 0 then
                     do { (a, w) \<leftarrow> jdo (new_bytes J (ptr_bytes (v_str (snd r)) (v_str_len (snd r)))) w; Some (JBytes a, w) }
                   else out_value J (snd r) w } }"

definition nativeRunBytecode ::
  "'j jenv \<Rightarrow> ('h, 'j jni) link \<Rightarrow> bytes \<Rightarrow> int \<Rightarrow> ('h, 'j jni) world \<Rightarrow> (jres \<times> ('h, 'j jni) world) option" where
  "nativeRunBytecode J X bs flags w =
     do { (b, w) \<leftarrow> jdo (dup_cstring J bs) w;
          case b of None \<Rightarrow> Some (JObject None, w)
          | Some s \<Rightarrow> do { (r, w) \<leftarrow> kmpjs_run_bytecode X s flags w; out_value J (snd r) w } }"

definition nativeRegisterModuleBytecode ::
  "'j jenv \<Rightarrow> ('h, 'j jni) link \<Rightarrow> bytes \<Rightarrow> ('h, 'j jni) world \<Rightarrow> (jres \<times> ('h, 'j jni) world) option" where
  "nativeRegisterModuleBytecode J X bs w =
     do { (b, w) \<leftarrow> jdo (dup_cstring J bs) w;
          case b of None \<Rightarrow> Some (JObject None, w)
          | Some s \<Rightarrow> do { (r, w) \<leftarrow> kmpjs_register_module_bytecode X s w; out_value J (snd r) w } }"

definition nativeRefRetain :: "64 word \<Rightarrow> ('h, 'j jni) world \<Rightarrow> (jres \<times> ('h, 'j jni) world) option" where
  "nativeRefRetain ref w = Some (JVoid, kmpjs_ref_retain ref w)"

definition nativeRefRelease ::
  "('h, 'j jni) link \<Rightarrow> 64 word \<Rightarrow> ('h, 'j jni) world \<Rightarrow> (jres \<times> ('h, 'j jni) world) option" where
  "nativeRefRelease X ref w = Some (JVoid, kmpjs_ref_release X ref w)"

definition nativeRefGet ::
  "'j jenv \<Rightarrow> ('h, 'j jni) link \<Rightarrow> 64 word \<Rightarrow> bytes \<Rightarrow> int \<Rightarrow> ('h, 'j jni) world \<Rightarrow> (jres \<times> ('h, 'j jni) world) option" where
  "nativeRefGet J X ref name flags w =
     do { (b, w) \<leftarrow> jdo (dup_cstring J name) w;
          case b of None \<Rightarrow> Some (JObject None, w)
          | Some s \<Rightarrow> do { (r, w) \<leftarrow> kmpjs_ref_get X ref (c_str s) flags w; out_value J (snd r) w } }"

definition nativeRefGetIndex ::
  "'j jenv \<Rightarrow> ('h, 'j jni) link \<Rightarrow> 64 word \<Rightarrow> int \<Rightarrow> int \<Rightarrow> ('h, 'j jni) world \<Rightarrow> (jres \<times> ('h, 'j jni) world) option" where
  "nativeRefGetIndex J X ref index flags w =
     do { (r, w) \<leftarrow> kmpjs_ref_get_index X ref index flags w; out_value J (snd r) w }"

definition nativeRefSet ::
  "'j jenv \<Rightarrow> ('h, 'j jni) link \<Rightarrow> 64 word \<Rightarrow> bytes \<Rightarrow> jvalue option \<Rightarrow> ('h, 'j jni) world \<Rightarrow>
   (jres \<times> ('h, 'j jni) world) option" where
  "nativeRefSet J X ref name value w =
     do { (b, w) \<leftarrow> jdo (dup_cstring J name) w;
          case b of None \<Rightarrow> Some (JObject None, w)
          | Some s \<Rightarrow> do { (v, w) \<leftarrow> jdo (read_value J value) w;
                           (r, w) \<leftarrow> kmpjs_ref_set X ref (c_str s) v w;
                           out_value J (snd r) w } }"

definition nativeRefCall ::
  "'j jenv \<Rightarrow> ('h, 'j jni) link \<Rightarrow> 64 word \<Rightarrow> 64 word \<Rightarrow> jvalue option list \<Rightarrow> int \<Rightarrow> ('h, 'j jni) world \<Rightarrow>
   (jres \<times> ('h, 'j jni) world) option" where
  "nativeRefCall J X ref this_ref args flags w =
     do { (ok, w) \<leftarrow> (if args \<noteq> [] then jdo (tick (jv_malloc J)) w else Some (True, w));
          if \<not> ok then Some (JObject None, w)
          else do { (vs, w) \<leftarrow> jdo (read_values J args) w;
                    (r, w) \<leftarrow> kmpjs_ref_call X ref this_ref vs flags w;
                    out_value J (snd r) w } }"

definition nativeRefToJson ::
  "'j jenv \<Rightarrow> ('h, 'j jni) link \<Rightarrow> 64 word \<Rightarrow> ('h, 'j jni) world \<Rightarrow> (jres \<times> ('h, 'j jni) world) option" where
  "nativeRefToJson J X ref w = do { (r, w) \<leftarrow> kmpjs_ref_to_json X ref w; out_value J (snd r) w }"

definition nativeStats ::
  "'j jenv \<Rightarrow> ('h, 'j jni) link \<Rightarrow> ('h, 'j jni) world \<Rightarrow> (jres \<times> ('h, 'j jni) world) option" where
  "nativeStats J X w =
     do { (ok, w) \<leftarrow> jdo (tick (jv_alloc J)) w;
          if \<not> ok then Some (JLongs None, w)
          else do { (ns, w) \<leftarrow> kmpjs_get_stats X w; Some (JLongs (Some ns), w) } }"

definition nativeDumpMemory ::
  "'j jenv \<Rightarrow> ('h, 'j jni) link \<Rightarrow> ('h, 'j jni) world \<Rightarrow> (jres \<times> ('h, 'j jni) world) option" where
  "nativeDumpMemory J X w = do { (out, w) \<leftarrow> kmpjs_dump_memory X w; out_value J out w }"

definition native :: "'j jenv \<Rightarrow> ('h, 'j jni) link \<Rightarrow> ncall \<Rightarrow> ('h, 'j jni) world \<Rightarrow> (jres \<times> ('h, 'j jni) world) option" where
  "native J X c w =
     (case c of
        NEval code filename flags \<Rightarrow> nativeEval J X code filename flags w
      | NDefineFunction name fn_id flags \<Rightarrow> nativeDefineFunction J X name fn_id flags w
      | NInterrupt \<Rightarrow> nativeInterrupt w
      | NRegisterModule name code \<Rightarrow> nativeRegisterModule J X name code w
      | NEvalModule code name flags \<Rightarrow> nativeEvalModule J X code name flags w
      | NRunBytecode bs flags \<Rightarrow> nativeRunBytecode J X bs flags w
      | NRegisterModuleBytecode bs \<Rightarrow> nativeRegisterModuleBytecode J X bs w
      | NRefRetain ref \<Rightarrow> nativeRefRetain ref w
      | NRefRelease ref \<Rightarrow> nativeRefRelease X ref w
      | NRefGet ref name flags \<Rightarrow> nativeRefGet J X ref name flags w
      | NRefGetIndex ref index flags \<Rightarrow> nativeRefGetIndex J X ref index flags w
      | NRefSet ref name value \<Rightarrow> nativeRefSet J X ref name value w
      | NRefCall ref this_ref args flags \<Rightarrow> nativeRefCall J X ref this_ref args flags w
      | NRefToJson ref \<Rightarrow> nativeRefToJson J X ref w
      | NStats \<Rightarrow> nativeStats J X w
      | NDumpMemory \<Rightarrow> nativeDumpMemory J X w)"

section \<open>Callbacks\<close>

text \<open>A call of a static Java method: Java runs until it returns or throws, its native calls are served on
  the way. The result is \<open>None\<close> when an exception is pending.\<close>

fun call_java ::
  "nat \<Rightarrow> 'j jenv \<Rightarrow> ('h, 'j jni) link \<Rightarrow> jin \<Rightarrow> ('h, 'j jni) world \<Rightarrow> (jvalue option option \<times> ('h, 'j jni) world) option" where
  "call_java 0 J X i w = None"
| "call_java (Suc n) J X i w =
     (let (o', j) = jv_step J i (java (hst w)); w = w\<lparr>hst := (hst w)\<lparr>java := j\<rparr>\<rparr> in
      case o' of
        JReturn v \<Rightarrow> Some (Some v, w)
      | JThrow \<Rightarrow> Some (None, w)
      | JNative c \<Rightarrow> do { (r, w) \<leftarrow> native J X c w; call_java n J X (JNativeResult r) w })"

text \<open>The end of a callback that returns a value: an exception is cleared and replaced by \<open>msg\<close>.\<close>

definition take_result :: "'j jenv \<Rightarrow> bytes \<Rightarrow> jvalue option option \<Rightarrow> 'j jni \<Rightarrow> (int \<times> kmpjs_value) \<times> 'j jni" where
  "take_result J msg res u =
     (case res of
        None \<Rightarrow> let (_, u) = pop_frame u; (v, u) = set_error J msg u in ((1, v), u)
      | Some obj \<Rightarrow>
          let (v, u) = read_value J obj u; (_, u) = pop_frame u in
          ((if v_tag v = KMPJS_TAG_EXCEPTION then 1 else 0, v), u))"

definition jni_host ::
  "nat \<Rightarrow> 'j jenv \<Rightarrow> ('h, 'j jni) link \<Rightarrow> int \<Rightarrow> kmpjs_value list \<Rightarrow> ('h, 'j jni) world \<Rightarrow>
   ((int \<times> kmpjs_value) \<times> ('h, 'j jni) world) option" where
  "jni_host n J X fn_id args w =
     do { (ok, w) \<leftarrow> jdo (push_frame J) w;
          if \<not> ok then do { (v, w) \<leftarrow> jdo (set_error J ''JNI local frame unavailable'') w; Some ((1, v), w) }
          else do {
            (arr, w) \<leftarrow> jdo (new_values J args) w;
            (res, w) \<leftarrow> call_java n J X (JOnHostCall fn_id arr) w;
            jdo (take_result J ''uncaught exception in host function'' res) w } }"

definition jni_log ::
  "nat \<Rightarrow> 'j jenv \<Rightarrow> ('h, 'j jni) link \<Rightarrow> bytes \<Rightarrow> ('h, 'j jni) world \<Rightarrow> (unit \<times> ('h, 'j jni) world) option" where
  "jni_log n J X msg w =
     do { (ok, w) \<leftarrow> jdo (push_frame J) w;
          if \<not> ok then Some ((), w)
          else do { (arr, w) \<leftarrow> jdo (new_bytes J (Some msg)) w;
                    (res, w) \<leftarrow> call_java n J X (JOnLog arr) w;
                    jdo pop_frame w } }"

definition jni_rejection ::
  "nat \<Rightarrow> 'j jenv \<Rightarrow> ('h, 'j jni) link \<Rightarrow> kmpjs_value \<Rightarrow> ('h, 'j jni) world \<Rightarrow> (unit \<times> ('h, 'j jni) world) option" where
  "jni_rejection n J X reason w =
     do { (ok, w) \<leftarrow> jdo (push_frame J) w;
          if \<not> ok then Some ((), w)
          else do { (v, w) \<leftarrow> jdo (new_value J reason) w;
                    (res, w) \<leftarrow> call_java n J X (JOnRejection v) w;
                    jdo pop_frame w } }"

text \<open>The module loader must not call back into the engine.\<close>

definition jni_load_module :: "'j jenv \<Rightarrow> bytes \<Rightarrow> 'j jni \<Rightarrow> (int \<times> kmpjs_value) \<times> 'j jni" where
  "jni_load_module J name u =
     (let (ok, u) = push_frame J u in
      if \<not> ok then let (v, u) = set_error J ''JNI local frame unavailable'' u in ((1, v), u)
      else
        let (arr, u) = new_bytes J (Some name) u;
            (res, j) = jv_load J arr (java u) in
        take_result J ''uncaught exception in module loader'' res (u\<lparr>java := j\<rparr>))"

definition jni_ask ::
  "nat \<Rightarrow> 'j jenv \<Rightarrow> ('h, 'j jni) link \<Rightarrow> hin \<Rightarrow> ('h, 'j jni) world \<Rightarrow> ((int \<times> kmpjs_value) \<times> ('h, 'j jni) world) option" where
  "jni_ask n J X i w =
     (case i of
        HCall fn_id args \<Rightarrow> jni_host n J X fn_id args w
      | HLog msg \<Rightarrow> do { (_, w) \<leftarrow> jni_log n J X msg w; Some ((0, zero_value), w) }
      | HRejection reason \<Rightarrow> do { (_, w) \<leftarrow> jni_rejection n J X reason w; Some ((0, zero_value), w) }
      | HResult rc v ns \<Rightarrow> None)"

text \<open>The engine linked against the JNI binding.\<close>

definition jni_sys :: "'j jenv \<Rightarrow> ('h, 'j jni) sys \<Rightarrow> ('h, 'j jni) sys" where
  "jni_sys J S = S\<lparr>h_load := jni_load_module J\<rparr>"

primrec mkj :: "nat \<Rightarrow> 'j jenv \<Rightarrow> ('h, 'j jni) sys \<Rightarrow> ('h, 'j jni) link" where
  "mkj 0 J S = \<lparr>lib = jni_sys J S, enter = (\<lambda>c w. None), ask = (\<lambda>i w. None), fuel = 0\<rparr>"
| "mkj (Suc n) J S =
     \<lparr>lib = jni_sys J S, enter = (\<lambda>c. engine_loop (Suc n) (mkj n J S) (InCall c)),
      ask = jni_ask (Suc n) J (mkj n J S), fuel = Suc n\<rparr>"

section \<open>Creation and destruction\<close>

definition nativeAbiVersion :: int where
  "nativeAbiVersion = KMPJS_ABI_VERSION"

definition jni_config :: "bytes \<Rightarrow> int \<Rightarrow> int \<Rightarrow> int \<Rightarrow> kmpjs_config" where
  "jni_config scheme mem_limit stack_size gc_threshold =
     \<lparr>cfg_module_scheme = Some scheme, cfg_memory_limit = mem_limit, cfg_max_stack_size = stack_size,
      cfg_gc_threshold = gc_threshold\<rparr>"

definition jni_callbacks :: "bool \<Rightarrow> kmpjs_callbacks" where
  "jni_callbacks has_loader = \<lparr>cb_host = True, cb_log = True, cb_rejection = True, cb_module_loader = has_loader\<rparr>"

definition nativeCreate ::
  "'j jenv \<Rightarrow> ('h, 'j jni) link \<Rightarrow> int \<Rightarrow> int \<Rightarrow> int \<Rightarrow> bytes \<Rightarrow> bool \<Rightarrow> ('h, 'j jni) world \<Rightarrow>
   (bool \<times> ('h, 'j jni) world) option" where
  "nativeCreate J X mem_limit stack_size gc_threshold scheme_bytes has_loader w =
     do { (u_ok, w) \<leftarrow> jdo (tick (jv_malloc J)) w;
          (scheme, w) \<leftarrow> jdo (dup_cstring J scheme_bytes) w;
          if \<not> u_ok \<or> scheme = None then Some (False, w)
          else do {
            (_, w) \<leftarrow> jdo global_ref w;
            (e, w) \<leftarrow> kmpjs_create X (jni_config (c_str (the scheme)) mem_limit stack_size gc_threshold)
                        (jni_callbacks has_loader) w;
            if \<not> e then do { (_, w) \<leftarrow> jdo delete_global_ref w; Some (False, w) }
            else Some (True, w) } }"

definition nativeDestroy :: "('h, 'j jni) link \<Rightarrow> ('h, 'j jni) world \<Rightarrow> ('h, 'j jni) world" where
  "nativeDestroy X w = (let w = kmpjs_destroy X w in w\<lparr>hst := snd (delete_global_ref (hst w))\<rparr>)"

section \<open>The contract\<close>

text \<open>A native method is called over a link that keeps the contract.\<close>

locale jni_link = engine_link X for X :: "('h, 'j jni) link" +
  fixes J :: "'j jenv"
begin

lemma jdo_ok [vcg]: "step T w0 w \<Longrightarrow> ensures (jdo f w) (\<lambda>(r, w'). step T w0 w')"
  unfolding jdo_def by (cases "f (hst w)") (simp add: step_hst)

lemma out_value_ok [vcg]: "step T w0 w \<Longrightarrow> ensures (out_value J out w) (\<lambda>(r, w'). step T w0 w')"
  unfolding out_value_def by - (rule flow vcg | assumption)+

lemma dup_two_ok [vcg]: "step T w0 w \<Longrightarrow> ensures (dup_two J a b w) (\<lambda>(r, w'). step T w0 w')"
  unfolding dup_two_def by - (rule flow vcg | assumption)+

lemma step_interrupt: "step T w0 w \<Longrightarrow> step T w0 (upd_eng (\<lambda>e. e\<lparr>state := state_interrupt (state e)\<rparr>) w)"
  by (auto simp: step_def good_def rel_def upd_eng_def hold_def config_of_def state_interrupt_def)

lemma nativeEval_ok [vcg]: "step T w0 w \<Longrightarrow> ensures (nativeEval J X code filename flags w) (\<lambda>(r, w'). step T w0 w')"
  unfolding nativeEval_def by - (rule flow vcg | assumption)+

lemma nativeDefineFunction_ok [vcg]: "step T w0 w \<Longrightarrow> ensures (nativeDefineFunction J X name fn_id flags w) (\<lambda>(r, w'). step T w0 w')"
  unfolding nativeDefineFunction_def by - (rule flow vcg | assumption)+

lemma nativeRegisterModule_ok [vcg]: "step T w0 w \<Longrightarrow> ensures (nativeRegisterModule J X name code w) (\<lambda>(r, w'). step T w0 w')"
  unfolding nativeRegisterModule_def by - (rule flow vcg | assumption)+

lemma nativeEvalModule_ok [vcg]: "step T w0 w \<Longrightarrow> ensures (nativeEvalModule J X code name flags w) (\<lambda>(r, w'). step T w0 w')"
  unfolding nativeEvalModule_def by - (rule flow vcg | assumption)+

lemma nativeRunBytecode_ok [vcg]: "step T w0 w \<Longrightarrow> ensures (nativeRunBytecode J X bs flags w) (\<lambda>(r, w'). step T w0 w')"
  unfolding nativeRunBytecode_def by - (rule flow vcg | assumption)+

lemma nativeRegisterModuleBytecode_ok [vcg]: "step T w0 w \<Longrightarrow> ensures (nativeRegisterModuleBytecode J X bs w) (\<lambda>(r, w'). step T w0 w')"
  unfolding nativeRegisterModuleBytecode_def by - (rule flow vcg | assumption)+

lemma nativeRefGet_ok [vcg]: "step T w0 w \<Longrightarrow> ensures (nativeRefGet J X ref name flags w) (\<lambda>(r, w'). step T w0 w')"
  unfolding nativeRefGet_def by - (rule flow vcg | assumption)+

lemma nativeRefGetIndex_ok [vcg]: "step T w0 w \<Longrightarrow> ensures (nativeRefGetIndex J X ref index flags w) (\<lambda>(r, w'). step T w0 w')"
  unfolding nativeRefGetIndex_def by - (rule flow vcg | assumption)+

lemma nativeRefSet_ok [vcg]: "step T w0 w \<Longrightarrow> ensures (nativeRefSet J X ref name value w) (\<lambda>(r, w'). step T w0 w')"
  unfolding nativeRefSet_def by - (rule flow vcg | assumption)+

lemma nativeRefCall_ok [vcg]: "step T w0 w \<Longrightarrow> ensures (nativeRefCall J X ref this_ref args flags w) (\<lambda>(r, w'). step T w0 w')"
  unfolding nativeRefCall_def by - (rule flow vcg | assumption)+

lemma nativeRefToJson_ok [vcg]: "step T w0 w \<Longrightarrow> ensures (nativeRefToJson J X ref w) (\<lambda>(r, w'). step T w0 w')"
  unfolding nativeRefToJson_def by - (rule flow vcg | assumption)+

lemma nativeStats_ok [vcg]: "step T w0 w \<Longrightarrow> ensures (nativeStats J X w) (\<lambda>(r, w'). step T w0 w')"
  unfolding nativeStats_def by - (rule flow vcg | assumption)+

lemma nativeDumpMemory_ok [vcg]: "step T w0 w \<Longrightarrow> ensures (nativeDumpMemory J X w) (\<lambda>(r, w'). step T w0 w')"
  unfolding nativeDumpMemory_def by - (rule flow vcg | assumption)+

lemma native_ok [vcg]: "step T w0 w \<Longrightarrow> ensures (native J X c w) (\<lambda>(r, w'). step T w0 w')"
  unfolding native_def
  by (cases c; simp; (rule vcg)?; simp add: nativeInterrupt_def nativeRefRetain_def nativeRefRelease_def
      step_interrupt step_retain step_release)

lemma call_java_ok [vcg]:
  "step T w0 w \<Longrightarrow> ensures (call_java n J X i w) (\<lambda>(r, w'). step T w0 w')"
proof (induction n arbitrary: i w)
  case (Suc n)
  obtain out j where o: "jv_step J i (java (hst w)) = (out, j)" by fastforce
  have st: "step T w0 (w\<lparr>hst := (hst w)\<lparr>java := j\<rparr>\<rparr>)" by (rule step_hst [OF Suc.prems])
  show ?case
  proof (cases out)
    case (JNative c)
    with o have "call_java (Suc n) J X i w =
        native J X c (w\<lparr>hst := (hst w)\<lparr>java := j\<rparr>\<rparr>) \<bind> (\<lambda>(r, w). call_java n J X (JNativeResult r) w)" by simp
    then show ?thesis using st by - (erule ssubst, (rule flow vcg Suc.IH | assumption)+)
  qed (use o st in simp_all)
qed simp

lemma jni_host_ok [vcg]: "step T w0 w \<Longrightarrow> ensures (jni_host n J X fn_id args w) (\<lambda>(r, w'). step T w0 w')"
  unfolding jni_host_def by - (rule flow vcg | assumption)+

lemma jni_log_ok [vcg]: "step T w0 w \<Longrightarrow> ensures (jni_log n J X msg w) (\<lambda>(r, w'). step T w0 w')"
  unfolding jni_log_def by - (rule flow vcg | assumption)+

lemma jni_rejection_ok [vcg]: "step T w0 w \<Longrightarrow> ensures (jni_rejection n J X reason w) (\<lambda>(r, w'). step T w0 w')"
  unfolding jni_rejection_def by - (rule flow vcg | assumption)+

lemma jni_ask_ok [vcg]: "step T w0 w \<Longrightarrow> ensures (jni_ask n J X i w) (\<lambda>(r, w'). step T w0 w')"
  unfolding jni_ask_def
  by (cases i) (auto intro!: ensures_bindI [OF jni_log_ok] ensures_bindI [OF jni_rejection_ok] jni_host_ok)

end

lemma mkj_fields:
  "lib (mkj n J S) = jni_sys J S" "fuel (mkj n J S) = n"
  "enter (mkj (Suc n) J S) c w = engine_loop (Suc n) (mkj n J S) (InCall c) w"
  "ask (mkj (Suc n) J S) i w = jni_ask (Suc n) J (mkj n J S) i w"
  by (cases n; simp del: engine_loop.simps)+

lemma mkj_link: "engine_link (mkj n J S)"
proof (induction n)
  case (Suc n)
  show ?case
  proof
    fix T w0 w c r w' assume "step T w0 w" "enter (mkj (Suc n) J S) c w = Some (r, w')"
    then show "step T w0 w'"
      using engine_link.engine_loop_ok [OF Suc.IH, of T w0 w "Suc n" "InCall c"]
      by (simp add: mkj_fields del: engine_loop.simps mkj.simps)
  next
    fix T w0 w i x w' assume "step T w0 w" "ask (mkj (Suc n) J S) i w = Some (x, w')"
    then show "step T w0 w'"
      using jni_link.jni_ask_ok [OF jni_link.intro [OF Suc.IH], of T w0 w "Suc n" J i]
      by (simp add: mkj_fields del: mkj.simps split: prod.splits)
  qed
qed (unfold_locales; simp)

declare mkj.simps [simp del]

interpretation jni: jni_link "mkj n J S" J for n J S
  by (rule jni_link.intro [OF mkj_link])

section \<open>Properties\<close>

text \<open>A value whose payloads are null, or owned blocks of the length the value says.\<close>

definition flat_payload :: "cptr \<Rightarrow> int \<Rightarrow> bool" where
  "flat_payload p len = (case p of PNull \<Rightarrow> len = 0 | PStr s \<Rightarrow> len = int (length s) | PBlk i \<Rightarrow> False)"

definition flat_value :: "kmpjs_value \<Rightarrow> bool" where
  "flat_value v = (v_reserved v = 0 \<and> flat_payload (v_str v) (v_str_len v) \<and> flat_payload (v_stack v) (v_stack_len v))"

lemma copy_new_bytes:
  assumes "flat_payload p len" "\<And>n. jv_alloc J n" "\<And>n. jv_malloc J n"
  shows "\<exists>u'. new_bytes J (ptr_bytes p len) u = (ptr_bytes p len, u')"
    "\<exists>u'. copy_bytes J (ptr_bytes p len) u = ((p, len), u')"
  using assms by (auto simp: flat_payload_def new_bytes_def copy_bytes_def ptr_bytes_def tick_def split: cptr.splits)

text \<open>Values cross the JNI boundary unchanged: a \<open>kmpjs_value\<close> turned into a \<open>NativeValue\<close> and read back
  has the same tag, ref, number, string and stack, as long as the JVM and \<open>malloc\<close> have memory.\<close>

theorem jni_value_round_trip:
  assumes "flat_value v" "\<And>n. jv_alloc J n" "\<And>n. jv_malloc J n"
  shows "\<exists>j u1 u2. new_value J v u = (Some j, u1) \<and> read_value J (Some j) u1 = (v, u2)"
proof -
  let ?s = "ptr_bytes (v_str v) (v_str_len v)" and ?t = "ptr_bytes (v_stack v) (v_stack_len v)"
  have fl: "flat_payload (v_str v) (v_str_len v)" "flat_payload (v_stack v) (v_stack_len v)"
    using assms(1) by (simp_all add: flat_value_def)
  obtain a where a: "new_bytes J ?s u = (?s, a)" using copy_new_bytes(1) [OF fl(1) assms(2,3)] by blast
  obtain b where b: "new_bytes J ?t a = (?t, b)" using copy_new_bytes(1) [OF fl(2) assms(2,3)] by blast
  define c where "c = snd (tick (jv_alloc J) b)"
  obtain d where d: "copy_bytes J ?s c = ((v_str v, v_str_len v), d)" using copy_new_bytes(2) [OF fl(1) assms(2,3)] by blast
  obtain e where e: "copy_bytes J ?t d = ((v_stack v, v_stack_len v), e)" using copy_new_bytes(2) [OF fl(2) assms(2,3)] by blast
  have "new_value J v u = (Some \<lparr>j_tag = v_tag v, j_ref = v_ref v, j_num = v_num v, j_str = ?s, j_stack = ?t\<rparr>, c)"
    using a b assms(2) by (simp add: new_value_def c_def tick_def)
  moreover have "read_value J (Some \<lparr>j_tag = v_tag v, j_ref = v_ref v, j_num = v_num v, j_str = ?s, j_stack = ?t\<rparr>) c = (v, e)"
    using d e assms(1) by (cases v) (simp add: read_value_def zero_value_def flat_value_def)
  ultimately show ?thesis by blast
qed

text \<open>A JVM with memory, whose Java code answers a host call by evaluating a program first.\<close>

definition demo_java :: "jin \<Rightarrow> nat \<Rightarrow> jout \<times> nat" where
  "demo_java i n =
     (case i of
        JOnHostCall f args \<Rightarrow> (JNative (NEval ''number'' ''nested'' 0), n + 1)
      | JNativeResult r \<Rightarrow> (JReturn None, n)
      | _ \<Rightarrow> (JThrow, n))"

definition demo_jvm :: "nat jenv" where
  "demo_jvm = \<lparr>jv_alloc = (\<lambda>n. True), jv_malloc = (\<lambda>n. True), jv_frame = (\<lambda>n. True), jv_step = demo_java,
     jv_load = (\<lambda>name n. (None, n))\<rparr>"

definition demo_jni :: "nat jni" where
  "demo_jni = \<lparr>clock = 0, frames = 0, globals = 0, java = 0\<rparr>"

theorem jni_value_round_trip_witness:
  "\<exists>j u1 u2. new_value demo_jvm (zero_value\<lparr>v_tag := KMPJS_TAG_STRING, v_str := PStr ''hi'', v_str_len := 2\<rparr>) demo_jni = (Some j, u1) \<and>
     read_value demo_jvm (Some j) u1 = (zero_value\<lparr>v_tag := KMPJS_TAG_STRING, v_str := PStr ''hi'', v_str_len := 2\<rparr>, u2)"
  by (rule jni_value_round_trip) (simp_all add: flat_value_def flat_payload_def zero_value_def demo_jvm_def)

lemma take_result_tag:
  "take_result J msg res u = ((rc, v), u') \<Longrightarrow> rc = (if v_tag v = KMPJS_TAG_EXCEPTION then 1 else 0)"
  by (auto simp: take_result_def set_error_def pop_frame_def split: option.splits prod.splits)

text \<open>A Java callback that fails in any way (no local frame, a Java exception, or a returned exception
  value) is reported to the shim as a failure with an exception value, and nothing else is: the status
  the host callback and the module loader return is non-zero exactly when the value is an exception.\<close>

theorem jni_failure_is_exception:
  "(jni_host n J X fn_id args w = Some ((rc, v), w') \<longrightarrow> (rc \<noteq> 0 \<longleftrightarrow> v_tag v = KMPJS_TAG_EXCEPTION)) \<and>
   (jni_load_module J name u = ((rc, v), u') \<longrightarrow> (rc \<noteq> 0 \<longleftrightarrow> v_tag v = KMPJS_TAG_EXCEPTION))"
proof -
  have "rc \<noteq> 0 \<longleftrightarrow> v_tag v = KMPJS_TAG_EXCEPTION" if "jni_host n J X fn_id args w = Some ((rc, v), w')"
    using that
    by (auto simp: jni_host_def jdo_def set_error_def split: bind_splits if_splits prod.splits dest!: take_result_tag)
  moreover have "rc \<noteq> 0 \<longleftrightarrow> v_tag v = KMPJS_TAG_EXCEPTION" if "jni_load_module J name u = ((rc, v), u')"
    using that by (auto simp: jni_load_module_def set_error_def Let_def split: if_splits prod.splits dest!: take_result_tag)
  ultimately show ?thesis by blast
qed

theorem jni_failure_is_exception_witness:
  "\<exists>v u'. jni_load_module demo_jvm ''m'' demo_jni = ((1, v), u') \<and> v_tag v = KMPJS_TAG_EXCEPTION"
proof -
  obtain rc v u' where r: "jni_load_module demo_jvm ''m'' demo_jni = ((rc, v), u')" by (metis surj_pair)
  have "rc = 1" using r
    by (auto simp: jni_load_module_def demo_jvm_def push_frame_def tick_def new_bytes_def take_result_def set_error_def split: prod.splits)
  with r jni_failure_is_exception [of 0 demo_jvm undefined 0 "[]" undefined rc v undefined "''m''" demo_jni u'] show ?thesis by auto
qed

text \<open>When \<open>malloc\<close> fails while a Java value is read, a string argument is not refused but replaced: the
  engine receives the empty string instead of the text Java passed.\<close>

theorem jni_oom_empties_string:
  assumes "\<not> jv_malloc J (clock u)" "j_tag j = KMPJS_TAG_STRING" "j_str j = Some s"
  shows "value_from_host X (fst (read_value J (Some j) u)) w = js_val X (CNewStringLen []) w"
proof -
  obtain v u' where r: "read_value J (Some j) u = (v, u')" by fastforce
  then have "v_tag v = KMPJS_TAG_STRING \<and> v_str v = PNull"
    using assms by (auto simp: read_value_def copy_bytes_def tick_def split: prod.splits)
  then show ?thesis using r by (simp add: value_from_host_def in_bytes_def cread_def)
qed

theorem jni_oom_empties_string_witness:
  "value_from_host (mk 1 demo_sys) (fst (read_value (demo_jvm\<lparr>jv_malloc := (\<lambda>n. False)\<rparr>)
     (Some \<lparr>j_tag = KMPJS_TAG_STRING, j_ref = 0, j_num = 0, j_str = Some ''text'', j_stack = None\<rparr>) demo_jni)) demo_blank =
   js_val (mk 1 demo_sys) (CNewStringLen []) demo_blank"
  by (rule jni_oom_empties_string) (simp_all add: demo_jvm_def demo_jni_def)

text \<open>Java code that makes one native call after the other.\<close>

fun jni_session :: "nat \<Rightarrow> 'j jenv \<Rightarrow> ('h, 'j jni) sys \<Rightarrow> ncall list \<Rightarrow> ('h, 'j jni) world \<Rightarrow> ('h, 'j jni) world option" where
  "jni_session n J S [] w = Some w"
| "jni_session n J S (c # cs) w = do { (r, w) \<leftarrow> native J (mkj n J S) c w; jni_session n J S cs w }"

lemma native_step: "step T w0 w \<Longrightarrow> native J (mkj n J S) c w = Some (r, w') \<Longrightarrow> step T w0 w'"
  using jni.native_ok [of T w0 w J n S c] by simp

lemma jni_session_step: "step T w0 w \<Longrightarrow> jni_session n J S cs w = Some w' \<Longrightarrow> step T w0 w'"
  by (induction cs arbitrary: w) (auto split: bind_splits dest: native_step)

lemma native_create_good:
  assumes "blank w" "nativeCreate J (mkj n J S) ml ms gc sch ldr w = Some (True, w1)"
  shows "good (\<lambda>a. 0) w1"
proof -
  have b: "blank (w\<lparr>hst := u\<rparr>)" for u using assms(1) by (simp add: blank_def)
  from assms(2) obtain u sc where
    "kmpjs_create (mkj n J S) (jni_config sc ml ms gc) (jni_callbacks ldr) (w\<lparr>hst := u\<rparr>) = Some (True, w1)"
    by (auto simp: nativeCreate_def jdo_def split: bind_splits if_splits prod.splits)
  with jni.create_ok [OF b, of n J S "jni_config sc ml ms gc" "jni_callbacks ldr" u] show ?thesis by simp
qed


definition jdemo_sys :: "(demo_heap, nat jni) sys" where
  "jdemo_sys = \<lparr>q_step = demo_step, q_free = (\<lambda>v h. h), q_is_function = (\<lambda>h v. True), q_is_array = (\<lambda>h v. 0),
     q_is_error = (\<lambda>h v. False), q_class_id = (\<lambda>h v. JS_VALUE_GET_PTR v), q_promise_state = (\<lambda>h v. -1),
     q_job_pending = (\<lambda>h. 0 < d_jobs h), h_step = (\<lambda>i u. (HDone 0 zero_value, u)), h_load = (\<lambda>name u. ((0, zero_value), u)),
     c_alloc = (\<lambda>n. True), c_usable = (\<lambda>n. 16), c_overhead = 8, c_clock = (\<lambda>n. 0), irq = (\<lambda>n. False),
     commit = replicate 40 CHR ''a''\<rparr>"

definition jdemo_blank :: "(demo_heap, nat jni) world" where
  "jdemo_blank = \<lparr>eng = new_engine demo_config demo_callbacks, mem = init_mem, jsmem = init_heap (- 1),
     heap = \<lparr>d_next = 1, d_jobs = 0, d_exc = JNull\<rparr>, hst = demo_jni, ticks = 0, held = (\<lambda>_. 0), bad = False\<rparr>"

definition jdemo_engine :: "(demo_heap, nat jni) world" where
  "jdemo_engine = snd (the (nativeCreate demo_jvm (mkj (Suc 0) demo_jvm jdemo_sys) 0 0 0 ''kmp'' True jdemo_blank))"

definition jdemo_end :: "(demo_heap, nat jni) world" where
  "jdemo_end = the (jni_session (Suc (Suc (Suc (Suc 0)))) demo_jvm jdemo_sys
     [NEval ''call'' ''a.js'' 0, NRegisterModule ''m'' ''export {}''] jdemo_engine)"

lemmas jni_defs = demo_java_def demo_jvm_def demo_jni_def tick_def ptr_bytes_def new_bytes_def new_value_def copy_bytes_def
  dup_cstring_def set_error_def read_value_def jdo_def push_frame_def pop_frame_def global_ref_def delete_global_ref_def
  out_value_def dup_two_def nativeEval_def nativeRegisterModule_def native_def take_result_def jni_host_def jni_ask_def
  jni_sys_def mkj_fields jni_config_def jni_callbacks_def nativeCreate_def jdemo_sys_def jdemo_blank_def

lemma jdemo_created:
  "nativeCreate demo_jvm (mkj (Suc 0) demo_jvm jdemo_sys) 0 0 0 ''kmp'' True jdemo_blank = Some (True, jdemo_engine)"
  unfolding jdemo_engine_def by (simp add: jni_defs run_defs demo_defs cong: bind_weak_cong)

lemma jdemo_session:
  "jni_session (Suc (Suc (Suc (Suc 0)))) demo_jvm jdemo_sys
     [NEval ''call'' ''a.js'' 0, NRegisterModule ''m'' ''export {}''] jdemo_engine = Some jdemo_end"
  unfolding jdemo_end_def jdemo_engine_def by (simp add: jni_defs run_defs demo_defs cong: bind_weak_cong)


end
