(* ===== verification/Utf8.thy ===== *)
theory Utf8
  imports Prelude
begin

text \<open>
  The UTF-8 codec of \<open>cutils.c\<close>, through which every string passes between the engine and C. It encodes
  31-bit code points in up to six bytes and does not single out surrogates, so lone surrogates survive
  (WTF-8).
\<close>

type_synonym byte = "8 word"

section \<open>The codec\<close>

text \<open>A continuation byte: \<open>((c >> k) & 0x3f) | 0x80\<close>, stored into a \<open>uint8_t\<close>.\<close>

definition cont_byte :: "nat \<Rightarrow> 32 word \<Rightarrow> byte" where
  "cont_byte k c = ucast ((drop_bit k c AND 0x3F) OR 0x80)"

definition lead_byte :: "nat \<Rightarrow> 32 word \<Rightarrow> 32 word \<Rightarrow> byte" where
  "lead_byte k m c = ucast (drop_bit k c OR m)"

definition unicode_to_utf8 :: "32 word \<Rightarrow> byte list" where
  "unicode_to_utf8 c =
     (if c < 0x80 then [ucast c]
      else if c < 0x800 then [lead_byte 6 0xC0 c, cont_byte 0 c]
      else if c < 0x10000 then [lead_byte 12 0xE0 c, cont_byte 6 c, cont_byte 0 c]
      else if c < 0x00200000 then [lead_byte 18 0xF0 c, cont_byte 12 c, cont_byte 6 c, cont_byte 0 c]
      else if c < 0x04000000 then
        [lead_byte 24 0xF8 c, cont_byte 18 c, cont_byte 12 c, cont_byte 6 c, cont_byte 0 c]
      else if c < 0x80000000 then
        [lead_byte 30 0xFC c, cont_byte 24 c, cont_byte 18 c, cont_byte 12 c, cont_byte 6 c, cont_byte 0 c]
      else [])"

definition utf8_min_code :: "nat \<Rightarrow> 32 word" where
  "utf8_min_code i = [0x80, 0x800, 0x10000, 0x00200000, 0x04000000] ! i"

definition utf8_first_code_mask :: "nat \<Rightarrow> 32 word" where
  "utf8_first_code_mask i = [0x1F, 0xF, 0x7, 0x3, 0x1] ! i"

text \<open>The \<open>switch\<close> on the first byte: the number of continuation bytes.\<close>

definition utf8_len :: "32 word \<Rightarrow> nat option" where
  "utf8_len c =
     (if 0xC0 \<le> c \<and> c \<le> 0xDF then Some 1
      else if 0xE0 \<le> c \<and> c \<le> 0xEF then Some 2
      else if 0xF0 \<le> c \<and> c \<le> 0xF7 then Some 3
      else if 0xF8 \<le> c \<and> c \<le> 0xFB then Some 4
      else if 0xFC \<le> c \<and> c \<le> 0xFD then Some 5
      else None)"

text \<open>The loop over the continuation bytes.\<close>

fun utf8_rest :: "nat \<Rightarrow> 32 word \<Rightarrow> byte list \<Rightarrow> (32 word \<times> byte list) option" where
  "utf8_rest 0 c p = Some (c, p)"
| "utf8_rest (Suc l) c [] = None"
| "utf8_rest (Suc l) c (b # p) =
     (if b < 0x80 \<or> b \<ge> 0xC0 then None else utf8_rest l (push_bit 6 c OR (ucast b AND 0x3F)) p)"

text \<open>\<open>None\<close> is the return value -1; otherwise the code point and \<open>*pp\<close>.\<close>

definition unicode_from_utf8 :: "byte list \<Rightarrow> nat \<Rightarrow> (32 word \<times> byte list) option" where
  "unicode_from_utf8 p max_len =
     (case p of
        [] \<Rightarrow> None
      | b # p \<Rightarrow>
          let c = ucast b :: 32 word in
          if c < 0x80 then Some (c, p)
          else case utf8_len c of
                 None \<Rightarrow> None
               | Some l \<Rightarrow>
                   if l > max_len - 1 then None
                   else case utf8_rest l (c AND utf8_first_code_mask (l - 1)) p of
                          None \<Rightarrow> None
                        | Some (c, p) \<Rightarrow> if c < utf8_min_code (l - 1) then None else Some (c, p))"

section \<open>The bytes as numbers\<close>

lemma and_63: "(x :: 'a :: len word) AND 0x3F = take_bit 6 x"
  by (simp add: take_bit_eq_mask mask_eq_exp_minus_1)

lemma unat_shift: "unat (drop_bit k c :: 32 word) = unat c div 2 ^ k"
  unfolding unat_drop_bit_eq by (simp add: drop_bit_eq_div)

lemma or_128: "unat (take_bit 6 x OR 0x80 :: 32 word) = 128 + unat x mod 64"
proof -
  have "take_bit 6 x AND (0x80 :: 32 word) = 0"
    by (simp add: and_63 [symmetric] and.assoc)
  then have "take_bit 6 x OR 0x80 = take_bit 6 x + 0x80" by (simp add: disjunctive_add_eq_or)
  moreover have "unat (take_bit 6 x) = unat x mod 64" unfolding unsigned_take_bit_eq by (simp add: take_bit_eq_mod)
  ultimately show ?thesis by (simp add: unat_word_ariths)
qed

lemma unat_cont_byte: "unat (cont_byte k c) = 128 + unat c div 2 ^ k mod 64"
proof -
  have "unat (cont_byte k c) = take_bit 8 (unat (take_bit 6 (drop_bit k c) OR 0x80 :: 32 word))"
    by (simp add: cont_byte_def and_63 unsigned_ucast_eq)
  also have "\<dots> = take_bit 8 (128 + unat c div 2 ^ k mod 64)"
    by (simp only: or_128 unat_shift)
  finally show ?thesis by (simp add: take_bit_eq_mod)
qed

lemma or_high:
  assumes "unat x < 2 ^ n" "m AND mask n = 0"
  shows "unat (x OR m :: 32 word) = unat (x + m)"
proof -
  have "unat (take_bit n x) = unat x" using assms(1) by (simp only: unsigned_take_bit_eq take_bit_nat_eq_self)
  then have "x AND mask n = x" by (simp only: word_unat_eq_iff take_bit_eq_mask)
  then have "x AND m = x AND (m AND mask n)" by (simp add: ac_simps)
  with assms(2) have "x AND m = 0" by simp
  then show ?thesis by (simp add: disjunctive_add_eq_or)
qed

lemma unat_lead_byte:
  assumes "unat c div 2 ^ k < 2 ^ n" "m AND mask n = 0" "unat c div 2 ^ k + unat m < 256"
  shows "unat (lead_byte k m c) = unat m + unat c div 2 ^ k"
proof -
  note d = unat_shift [of k c]
  have "unat (lead_byte k m c) = take_bit 8 (unat (drop_bit k c OR m))"
    by (simp add: lead_byte_def unsigned_ucast_eq)
  also have "\<dots> = take_bit 8 (unat (drop_bit k c + m))" using or_high [of "drop_bit k c" n m] assms(1,2) d by simp
  also have "\<dots> = unat m + unat c div 2 ^ k" using assms(3) d by (simp add: unat_word_ariths take_bit_eq_mod)
  finally show ?thesis .
qed

section \<open>Continuation bytes\<close>

fun conts :: "nat \<Rightarrow> 32 word \<Rightarrow> byte list" where
  "conts 0 c = []"
| "conts (Suc l) c = cont_byte (6 * l) c # conts l c"

lemma unat_next:
  assumes "unat acc * 64 + 64 \<le> 2 ^ 32"
  shows "unat (push_bit 6 acc OR (ucast (b :: byte) AND 0x3F) :: 32 word) = unat acc * 64 + unat b mod 64"
proof -
  have p: "unat (push_bit 6 acc) = unat acc * 64"
    using assms unfolding push_bit_eq_mult by (simp add: unat_word_ariths)
  have t: "unat (ucast b AND 0x3F :: 32 word) = unat b mod 64"
    using unsigned_less [where ?'a = nat, of b] unfolding and_63 unsigned_take_bit_eq
    by (simp add: take_bit_eq_mod unsigned_ucast_eq)
  have "push_bit 6 acc AND (ucast b AND 0x3F) = (0 :: 32 word)"
    unfolding and_63 by (auto simp: bit_eq_iff bit_simps)
  then have "push_bit 6 acc OR (ucast b AND 0x3F) = push_bit 6 acc + (ucast b AND 0x3F :: 32 word)"
    by (simp add: disjunctive_add_eq_or)
  then show ?thesis using assms p t by (simp add: unat_word_ariths)
qed

lemma cont_range: "128 \<le> n \<Longrightarrow> n < 192 \<Longrightarrow> 128 + n mod 64 = (n :: nat)"
  using mod_mult_self1 [of "n - 128" 2 64] by simp

lemma cont_byte_range: "\<not> (cont_byte k c < 0x80 \<or> cont_byte k c \<ge> 0xC0)"
  using unat_cont_byte [of k c] by (simp add: word_less_nat_alt word_le_nat_alt)

lemma utf8_rest_conts:
  "unat acc = unat c div 64 ^ l \<Longrightarrow> utf8_rest l acc (conts l c @ rest) = Some (c, rest)"
proof (induction l arbitrary: acc)
  case 0
  then show ?case by (simp add: word_unat_eq_iff)
next
  case (Suc l)
  have d: "unat c div 64 ^ Suc l = unat c div 64 ^ l div 64" by (simp only: power_Suc2 div_mult2_eq)
  have "unat acc * 64 \<le> unat c" using Suc.prems 
    by (simp only: d) (rule le_trans [OF div_times_less_eq_dividend div_le_dividend])
  moreover have "unat c < 2 ^ 32" using unsigned_less [of c] by simp
  ultimately have "unat acc * 64 + 64 \<le> 2 ^ 32" by simp
  from unat_next [OF this, of "cont_byte (6 * l) c"]
  have "unat (push_bit 6 acc OR (ucast (cont_byte (6 * l) c) AND 0x3F)) = unat c div 64 ^ l"
    using Suc.prems div_mult_mod_eq [of "unat c div 64 ^ l" 64]
    by (simp add: unat_cont_byte power_mult d mod_add_left_eq [symmetric] del: power_Suc)
  from Suc.IH [OF this] cont_byte_range show ?case by simp
qed

lemma utf8_rest_only_conts:
  "utf8_rest l acc p = Some (c, rest) \<Longrightarrow> unat acc * 64 ^ l + 64 ^ l \<le> 2 ^ 32 \<Longrightarrow>
   p = conts l c @ rest \<and> unat c div 64 ^ l = unat acc"
proof (induction l arbitrary: acc p)
  case (Suc l)
  then obtain b p' where p: "p = b # p'" by (cases p) auto
  let ?acc = "push_bit 6 acc OR (ucast b AND 0x3F) :: 32 word"
  from Suc.prems p have b: "128 \<le> unat b \<and> unat b < 192" and r: "utf8_rest l ?acc p' = Some (c, rest)"
    by (auto simp: word_less_nat_alt word_le_nat_alt split: if_splits)
  have pos: "(1 :: nat) \<le> 64 ^ l" by simp
  have "(unat acc * 64 + 64) * 64 ^ l \<le> 2 ^ 32" using Suc.prems(2) by (simp add: algebra_simps)
  with pos have "unat acc * 64 + 64 \<le> 2 ^ 32" by (metis le_trans mult_le_mono2 nat_mult_1_right)
  from unat_next [OF this, of b] have a: "unat ?acc = unat acc * 64 + unat b mod 64" .
  have "unat ?acc * 64 ^ l + 64 ^ l \<le> (unat acc * 64 + 64) * 64 ^ l"
    using mult_le_mono1 [of "unat ?acc + 1" "unat acc * 64 + 64" "64 ^ l"] a by (simp add: algebra_simps)
  with \<open>(unat acc * 64 + 64) * 64 ^ l \<le> 2 ^ 32\<close> have "unat ?acc * 64 ^ l + 64 ^ l \<le> 2 ^ 32" by linarith
  from Suc.IH [OF r this] have ih: "p' = conts l c @ rest" "unat c div 64 ^ l = unat ?acc" by auto
  have "unat (cont_byte (6 * l) c) = unat b"
    using ih(2) a cont_range [of "unat b"] b by (simp add: unat_cont_byte power_mult)
  then have "cont_byte (6 * l) c = b" by (simp add: word_unat_eq_iff)
  moreover have "unat c div 64 ^ Suc l = unat acc"
    using ih(2) a by (simp add: mult.commute [of 64] div_mult2_eq)
  ultimately show ?case using p ih(1) by simp
qed simp

section \<open>First bytes\<close>

text \<open>With \<open>l\<close> continuation bytes, \<open>1 \<le> l \<le> 5\<close>, the first byte is in \<open>[256 - 2^(7-l), 256 - 2^(6-l))\<close> and
  carries \<open>6 - l\<close> bits of the code point.\<close>

lemma five: "1 \<le> l \<and> l \<le> 5 \<longleftrightarrow> l = 1 \<or> l = 2 \<or> l = 3 \<or> l = 4 \<or> (l :: nat) = 5"
  by auto

lemma utf8_len_iff:
  "utf8_len w = Some l \<longleftrightarrow> 1 \<le> l \<and> l \<le> 5 \<and> 256 - 2 ^ (7 - l) \<le> unat w \<and> unat w < 256 - 2 ^ (6 - l)"
  unfolding conj_assoc [symmetric, of "1 \<le> l"] five
  by (auto simp: utf8_len_def word_le_nat_alt)

lemma utf8_mask: "1 \<le> l \<and> l \<le> 5 \<Longrightarrow> utf8_first_code_mask (l - 1) = mask (6 - l)"
  unfolding five by (auto simp: utf8_first_code_mask_def mask_eq_exp_minus_1)

lemma unat_first:
  "1 \<le> l \<and> l \<le> 5 \<Longrightarrow> unat (w AND utf8_first_code_mask (l - 1)) = unat w mod 2 ^ (6 - l)"
  unfolding utf8_mask take_bit_eq_mask [symmetric] unsigned_take_bit_eq by (simp add: take_bit_eq_mod)

lemma utf8_first_mod:
  assumes "1 \<le> l \<and> l \<le> 5" "n < 2 ^ (6 - l)"
  shows "(256 - 2 ^ (7 - l) + n) mod 2 ^ (6 - l) = (n :: nat)"
proof -
  have "256 - 2 ^ (7 - l) = (2 ^ (2 + l) - 2) * (2 ^ (6 - l) :: nat)" using assms(1) unfolding five by auto
  then show ?thesis using assms(2) by (simp add: add.commute)
qed

lemma conts_numeral: "conts (numeral k) c = cont_byte (6 * pred_numeral k) c # conts (pred_numeral k) c"
  by (simp add: numeral_eq_Suc)

lemma encode_ranges:
  "0x80 \<le> unat c \<Longrightarrow> unat c < 0x800 \<Longrightarrow> unicode_to_utf8 c = lead_byte 6 0xC0 c # conts 1 c"
  "0x800 \<le> unat c \<Longrightarrow> unat c < 0x10000 \<Longrightarrow> unicode_to_utf8 c = lead_byte 12 0xE0 c # conts 2 c"
  "0x10000 \<le> unat c \<Longrightarrow> unat c < 0x200000 \<Longrightarrow> unicode_to_utf8 c = lead_byte 18 0xF0 c # conts 3 c"
  "0x200000 \<le> unat c \<Longrightarrow> unat c < 0x4000000 \<Longrightarrow> unicode_to_utf8 c = lead_byte 24 0xF8 c # conts 4 c"
  "0x4000000 \<le> unat c \<Longrightarrow> unat c < 0x80000000 \<Longrightarrow> unicode_to_utf8 c = lead_byte 30 0xFC c # conts 5 c"
  by (simp_all add: unicode_to_utf8_def word_less_nat_alt conts_numeral)

text \<open>The code points that need \<open>l\<close> continuation bytes.\<close>

definition needs :: "nat \<Rightarrow> 32 word \<Rightarrow> bool" where
  "needs l c = (1 \<le> l \<and> l \<le> 5 \<and> utf8_min_code (l - 1) \<le> c \<and> unat c < 64 ^ l * 2 ^ (6 - l))"

lemma needs_encode:
  assumes "needs l c"
  shows "\<exists>b. unicode_to_utf8 c = b # conts l c \<and> unat b = 256 - 2 ^ (7 - l) + unat c div 64 ^ l"
proof -
  have enc: "unicode_to_utf8 c = lead_byte (6 * l) (word_of_nat (256 - 2 ^ (7 - l))) c # conts l c"
    using assms unfolding needs_def conj_assoc [symmetric, of "1 \<le> l"] five
    by (elim conjE disjE) (simp_all add: encode_ranges utf8_min_code_def word_le_nat_alt)
  have d: "unat c div 2 ^ (6 * l) < 2 ^ (6 - l)"
    using assms less_mult_imp_div_less [of "unat c" "2 ^ (6 - l)" "64 ^ l"] by (simp add: needs_def power_mult mult.commute [of _ "64 ^ l"])
  have m: "(word_of_nat (256 - 2 ^ (7 - l)) :: 32 word) AND mask (6 - l) = 0"
      "unat (word_of_nat (256 - 2 ^ (7 - l)) :: 32 word) = 256 - 2 ^ (7 - l)" "256 - 2 ^ (7 - l) + 2 ^ (6 - l) \<le> (256 :: nat)"
    using assms unfolding needs_def conj_assoc [symmetric, of "1 \<le> l"] five by (auto simp: mask_eq_exp_minus_1)
  have "unat (lead_byte (6 * l) (word_of_nat (256 - 2 ^ (7 - l))) c) = 256 - 2 ^ (7 - l) + unat c div 64 ^ l"
    using unat_lead_byte [OF d m(1)] d m by (simp add: power_mult)
  with enc show ?thesis by blast
qed

lemma needs_some: "0x80 \<le> c \<Longrightarrow> c < 0x80000000 \<Longrightarrow> \<exists>l. needs l c"
  by (cases "c < 0x800"; cases "c < 0x10000"; cases "c < 0x200000"; cases "c < 0x4000000")
     (fastforce simp: needs_def utf8_min_code_def word_less_nat_alt word_le_nat_alt not_less
       intro: exI [of _ 1] exI [of _ 2] exI [of _ 3] exI [of _ 4] exI [of _ 5])+

section \<open>Properties\<close>

text \<open>Decoding inverts encoding: every 31-bit code point, lone surrogates included, is decoded from the
  bytes it was encoded to, and decoding stops exactly behind them.\<close>

theorem utf8_round_trip:
  assumes "c < 0x80000000" "length (unicode_to_utf8 c) \<le> max_len"
  shows "unicode_from_utf8 (unicode_to_utf8 c @ rest) max_len = Some (c, rest)"
proof (cases "c < 0x80")
  case True
  then have "unat c < 128" by (simp add: word_less_nat_alt)
  then have u: "ucast (ucast c :: byte) = c"
    by (simp only: word_unat_eq_iff unsigned_ucast_eq) (simp add: unsigned_take_bit_eq take_bit_nat_eq_self)
  with True show ?thesis by (simp add: unicode_to_utf8_def unicode_from_utf8_def)
next
  case False
  then obtain l where l: "needs l c" using needs_some assms(1) by fastforce
  from needs_encode [OF l] obtain b where b: "unicode_to_utf8 c = b # conts l c" "unat b = 256 - 2 ^ (7 - l) + unat c div 64 ^ l" by blast
  have r: "1 \<le> l \<and> l \<le> 5" and d: "unat c div 64 ^ l < 2 ^ (6 - l)"
    using l less_mult_imp_div_less [of "unat c" "2 ^ (6 - l)" "64 ^ l"] by (auto simp: needs_def mult.commute [of _ "64 ^ l"])
  have ub: "unat (ucast b :: 32 word) = unat b"
    using unsigned_less [where ?'a = nat, of b] by (simp add: unsigned_ucast_eq take_bit_eq_mod)
  have e: "256 - 2 ^ (7 - l) + 2 ^ (6 - l) = 256 - (2 ^ (6 - l) :: nat)" "128 \<le> 256 - (2 ^ (7 - l) :: nat)"
    using r unfolding five by auto
  have len: "utf8_len (ucast b) = Some l"
    unfolding utf8_len_iff using r b(2) ub d e(1) by simp
  have hi: "\<not> (ucast b :: 32 word) < 0x80" using b(2) ub e(2) by (simp add: word_less_nat_alt)
  have "unat (ucast b AND utf8_first_code_mask (l - 1) :: 32 word) = unat c div 64 ^ l"
    using unat_first [OF r] utf8_first_mod [OF r d] ub b(2) by simp
  from utf8_rest_conts [OF this, of rest] have rest: "utf8_rest l (ucast b AND utf8_first_code_mask (l - 1)) (conts l c @ rest) = Some (c, rest)" .
  have "length (conts l c) = l" by (induction l) auto
  with assms(2) b(1) have "\<not> l > max_len - 1" by simp
  moreover have "\<not> c < utf8_min_code (l - 1)" using l by (simp add: needs_def not_less)
  ultimately show ?thesis using b(1) len hi rest by (simp add: unicode_from_utf8_def Let_def)
qed


theorem utf8_round_trip_witness: "unicode_from_utf8 (unicode_to_utf8 0xD834 @ [0x41]) 3 = Some (0xD834, [0x41])"
  by (rule utf8_round_trip) code_simp+


end
