(* ===== verification/Cutils.thy ===== *)
theory Cutils
  imports Utf8 "HOL-Library.Sublist"
begin

text \<open>
  The utilities of \<open>cutils.c\<close> and \<open>cutils.h\<close> the engine is built on: bounded string functions, little-endian
  access, surrogate pairs and the dynamic buffer \<open>DynBuf\<close>, into which bytecode is written.
\<close>

section \<open>Strings\<close>

text \<open>A character array is a list of bytes; a C string in it ends at the first NUL.\<close>

definition cstr :: "byte list \<Rightarrow> byte list" where
  "cstr s = takeWhile (\<lambda>b. b \<noteq> 0) s"

definition strlen :: "byte list \<Rightarrow> nat" where
  "strlen s = length (cstr s)"

text \<open>The loop of \<open>pstrcpy\<close>; the end of the list \<open>str\<close> is its terminating NUL.\<close>

fun pstrcpy_loop :: "byte list \<Rightarrow> nat \<Rightarrow> nat \<Rightarrow> byte list \<Rightarrow> byte list" where
  "pstrcpy_loop buf q e [] = buf[q := 0]"
| "pstrcpy_loop buf q e (c # str) =
     (if c = 0 \<or> q \<ge> e - 1 then buf[q := 0] else pstrcpy_loop (buf[q := c]) (q + 1) e str)"

text \<open>\<open>pstrcpy(buf + off, buf_size, str)\<close> on the array that holds the destination.\<close>

definition pstrcpy :: "byte list \<Rightarrow> nat \<Rightarrow> int \<Rightarrow> byte list \<Rightarrow> byte list" where
  "pstrcpy buf off buf_size str =
     (if buf_size \<le> 0 then buf else pstrcpy_loop buf off (off + nat buf_size) str)"

definition pstrcat :: "byte list \<Rightarrow> int \<Rightarrow> byte list \<Rightarrow> byte list" where
  "pstrcat buf buf_size s =
     (if int (strlen buf) < buf_size then pstrcpy buf (strlen buf) (buf_size - int (strlen buf)) s else buf)"

text \<open>\<open>None\<close> for 0; otherwise \<open>*ptr\<close>.\<close>

fun strstart :: "byte list \<Rightarrow> byte list \<Rightarrow> byte list option" where
  "strstart str [] = Some str"
| "strstart [] (q # val) = (if q = 0 then Some [] else None)"
| "strstart (p # str) (q # val) = (if q = 0 then Some (p # str) else if p \<noteq> q then None else strstart str val)"

definition has_suffix :: "byte list \<Rightarrow> byte list \<Rightarrow> bool" where
  "has_suffix str sfx =
     (strlen str \<ge> strlen sfx \<and> take (strlen sfx) (drop (strlen str - strlen sfx) str) = cstr sfx)"

section \<open>Little-endian access\<close>

text \<open>The bytes of an integer as a little-endian machine stores them, and back.\<close>

fun le_bytes :: "nat \<Rightarrow> 64 word \<Rightarrow> byte list" where
  "le_bytes 0 v = []"
| "le_bytes (Suc n) v = ucast v # le_bytes n (drop_bit 8 v)"

fun of_le_bytes :: "byte list \<Rightarrow> 64 word" where
  "of_le_bytes [] = 0"
| "of_le_bytes (b # bs) = ucast b OR push_bit 8 (of_le_bytes bs)"

definition blit :: "nat \<Rightarrow> byte list \<Rightarrow> byte list \<Rightarrow> byte list" where
  "blit off data buf = take off buf @ data @ drop (off + length data) buf"

definition put_u16 :: "nat \<Rightarrow> 16 word \<Rightarrow> byte list \<Rightarrow> byte list" where
  "put_u16 off v buf = blit off (le_bytes 2 (ucast v)) buf"

definition put_u32 :: "nat \<Rightarrow> 32 word \<Rightarrow> byte list \<Rightarrow> byte list" where
  "put_u32 off v buf = blit off (le_bytes 4 (ucast v)) buf"

definition put_u64 :: "nat \<Rightarrow> 64 word \<Rightarrow> byte list \<Rightarrow> byte list" where
  "put_u64 off v buf = blit off (le_bytes 8 v) buf"

definition get_u16 :: "nat \<Rightarrow> byte list \<Rightarrow> 16 word" where
  "get_u16 off buf = ucast (of_le_bytes (take 2 (drop off buf)))"

definition get_u32 :: "nat \<Rightarrow> byte list \<Rightarrow> 32 word" where
  "get_u32 off buf = ucast (of_le_bytes (take 4 (drop off buf)))"

definition get_u64 :: "nat \<Rightarrow> byte list \<Rightarrow> 64 word" where
  "get_u64 off buf = of_le_bytes (take 8 (drop off buf))"

definition bswap16 :: "16 word \<Rightarrow> 16 word" where
  "bswap16 x = drop_bit 8 x OR push_bit 8 x"

definition bswap32 :: "32 word \<Rightarrow> 32 word" where
  "bswap32 v = drop_bit 24 (v AND 0xFF000000) OR drop_bit 8 (v AND 0x00FF0000) OR
     push_bit 8 (v AND 0x0000FF00) OR push_bit 24 (v AND 0x000000FF)"

section \<open>Surrogates\<close>

definition is_surrogate :: "32 word \<Rightarrow> bool" where
  "is_surrogate c = (drop_bit 11 c = drop_bit 11 0xD800)"

definition is_hi_surrogate :: "32 word \<Rightarrow> bool" where
  "is_hi_surrogate c = (drop_bit 10 c = drop_bit 10 0xD800)"

definition is_lo_surrogate :: "32 word \<Rightarrow> bool" where
  "is_lo_surrogate c = (drop_bit 10 c = drop_bit 10 0xDC00)"

definition get_hi_surrogate :: "32 word \<Rightarrow> 32 word" where
  "get_hi_surrogate c = drop_bit 10 c - drop_bit 10 0x10000 + 0xD800"

definition get_lo_surrogate :: "32 word \<Rightarrow> 32 word" where
  "get_lo_surrogate c = (c AND 0x3FF) OR 0xDC00"

definition from_surrogate :: "32 word \<Rightarrow> 32 word \<Rightarrow> 32 word" where
  "from_surrogate hi lo = 0x10000 + 0x400 * (hi - 0xD800) + (lo - 0xDC00)"

definition from_hex :: "int \<Rightarrow> int" where
  "from_hex c =
     (if 0x30 \<le> c \<and> c \<le> 0x39 then c - 0x30
      else if 0x41 \<le> c \<and> c \<le> 0x46 then c - 0x41 + 10
      else if 0x61 \<le> c \<and> c \<le> 0x66 then c - 0x61 + 10
      else -1)"

section \<open>Dynamic buffers\<close>

text \<open>The block \<open>buf\<close> with its \<open>allocated_size\<close> bytes; the reallocation function is a parameter of the
  operations: the new block, or \<open>None\<close> for NULL.\<close>

record DynBuf =
  d_buf :: "byte list"
  d_size :: "64 word"
  d_alloc :: "64 word"
  d_error :: bool

type_synonym reallocf = "byte list \<Rightarrow> nat \<Rightarrow> byte list option"

definition dbuf_init :: DynBuf where
  "dbuf_init = \<lparr>d_buf = [], d_size = 0, d_alloc = 0, d_error = False\<rparr>"

definition dbuf_claim :: "reallocf \<Rightarrow> DynBuf \<Rightarrow> 64 word \<Rightarrow> int \<times> DynBuf" where
  "dbuf_claim R s len =
     (let new_size = d_size s + len in
      if new_size < len then (-1, s)
      else if new_size > d_alloc s then
        if d_error s then (-1, s)
        else
          let size = d_alloc s + d_alloc s div 2 in
          if size < d_alloc s then (-1, s)
          else
            let new_size = (if size > new_size then size else new_size) in
            case R (d_buf s) (unat new_size) of
              None \<Rightarrow> (-1, s\<lparr>d_error := True\<rparr>)
            | Some b \<Rightarrow> (0, s\<lparr>d_buf := b, d_alloc := new_size\<rparr>)
      else (0, s))"

definition dbuf_store :: "byte list \<Rightarrow> DynBuf \<Rightarrow> DynBuf" where
  "dbuf_store data s =
     s\<lparr>d_buf := blit (unat (d_size s)) data (d_buf s), d_size := d_size s + word_of_nat (length data)\<rparr>"

definition dbuf_reserve :: "reallocf \<Rightarrow> DynBuf \<Rightarrow> 64 word \<Rightarrow> int \<times> DynBuf" where
  "dbuf_reserve R s len = (if d_alloc s - d_size s < len then dbuf_claim R s len else (0, s))"

definition dbuf_put :: "reallocf \<Rightarrow> DynBuf \<Rightarrow> byte list \<Rightarrow> int \<times> DynBuf" where
  "dbuf_put R s data =
     (let (rc, s) = dbuf_reserve R s (word_of_nat (length data)) in
      if rc \<noteq> 0 then (-1, s) else (0, dbuf_store data s))"

definition dbuf_put_self :: "reallocf \<Rightarrow> DynBuf \<Rightarrow> 64 word \<Rightarrow> 64 word \<Rightarrow> int \<times> DynBuf" where
  "dbuf_put_self R s offset len =
     (let (rc, s) = dbuf_reserve R s len in
      if rc \<noteq> 0 then (-1, s) else (0, dbuf_store (take (unat len) (drop (unat offset) (d_buf s))) s))"

definition dbuf_putstr :: "reallocf \<Rightarrow> DynBuf \<Rightarrow> byte list \<Rightarrow> int \<times> DynBuf" where
  "dbuf_putstr R s str = dbuf_put R s (cstr str)"

definition dbuf_putc :: "reallocf \<Rightarrow> DynBuf \<Rightarrow> byte \<Rightarrow> int \<times> DynBuf" where
  "dbuf_putc R s c =
     (if d_alloc s - d_size s < 1 then dbuf_put R s [c]
      else (0, s\<lparr>d_buf := (d_buf s)[unat (d_size s) := c], d_size := d_size s + 1\<rparr>))"

definition dbuf_put_u16 :: "reallocf \<Rightarrow> DynBuf \<Rightarrow> 16 word \<Rightarrow> int \<times> DynBuf" where
  "dbuf_put_u16 R s v =
     (if d_alloc s - d_size s < 2 then dbuf_put R s (le_bytes 2 (ucast v))
      else (0, s\<lparr>d_buf := put_u16 (unat (d_size s)) v (d_buf s), d_size := d_size s + 2\<rparr>))"

definition dbuf_put_u32 :: "reallocf \<Rightarrow> DynBuf \<Rightarrow> 32 word \<Rightarrow> int \<times> DynBuf" where
  "dbuf_put_u32 R s v =
     (if d_alloc s - d_size s < 4 then dbuf_put R s (le_bytes 4 (ucast v))
      else (0, s\<lparr>d_buf := put_u32 (unat (d_size s)) v (d_buf s), d_size := d_size s + 4\<rparr>))"

definition dbuf_put_u64 :: "reallocf \<Rightarrow> DynBuf \<Rightarrow> 64 word \<Rightarrow> int \<times> DynBuf" where
  "dbuf_put_u64 R s v =
     (if d_alloc s - d_size s < 8 then dbuf_put R s (le_bytes 8 v)
      else (0, s\<lparr>d_buf := put_u64 (unat (d_size s)) v (d_buf s), d_size := d_size s + 8\<rparr>))"

definition dbuf_free :: "DynBuf \<Rightarrow> DynBuf" where
  "dbuf_free s = dbuf_init"

definition dbuf_set_error :: "DynBuf \<Rightarrow> DynBuf" where
  "dbuf_set_error s = s\<lparr>d_error := True\<rparr>"

section \<open>Lemmas on strings\<close>

lemma pstrcpy_loop_eq:
  "q < e \<Longrightarrow> e \<le> length buf \<Longrightarrow>
   pstrcpy_loop buf q e str =
     (let t = take (e - 1 - q) (cstr str) in take q buf @ t @ 0 # drop (q + length t + 1) buf)"
proof (induction buf q e str rule: pstrcpy_loop.induct)
  case (2 buf q e c str)
  show ?case
  proof (cases "c = 0 \<or> q \<ge> e - 1")
    case True
    then have "take (e - 1 - q) (cstr (c # str)) = []" using 2 by (auto simp: cstr_def)
    with True 2 show ?thesis by (simp add: upd_conv_take_nth_drop Let_def del: take_eq_Nil)
  next
    case False
    then have "q + 1 < e" "e - 1 - q = Suc (e - 1 - (q + 1))" "cstr (c # str) = c # cstr str" by (auto simp: cstr_def)
    with 2 False show ?thesis
      by (simp add: Let_def take_Suc_conv_app_nth take_update_swap drop_update_swap list_update_append)
  qed
qed (simp add: cstr_def upd_conv_take_nth_drop)

lemma cstr_app: "0 \<notin> set xs \<Longrightarrow> cstr (xs @ 0 # ys) = xs"
  by (induction xs) (auto simp: cstr_def)

lemma cstr_nonzero: "0 \<notin> set (cstr s)"
  by (auto simp: cstr_def dest: set_takeWhileD)

lemma cstr_take: "cstr s = take (strlen s) s"
  by (simp add: strlen_def cstr_def) (metis takeWhile_eq_take)

lemma strstart_prefix: "strstart str val = Some rest \<Longrightarrow> str = cstr val @ rest"
  by (induction str val rule: strstart.induct) (auto simp: cstr_def split: if_splits)

section \<open>Lemmas on integers and surrogates\<close>

lemma length_le_bytes [simp]: "length (le_bytes n v) = n"
  by (induction n arbitrary: v) auto

lemma ucast_low_byte: "(ucast (ucast v :: byte) :: 64 word) = take_bit 8 v"
  by (rule bit_word_eqI) (auto simp: bit_simps)

lemma of_le_bytes_le_bytes: "n \<le> 8 \<Longrightarrow> of_le_bytes (le_bytes n v) = take_bit (8 * n) v"
proof (induction n arbitrary: v)
  case (Suc n)
  then show ?case
    by (intro bit_word_eqI) (auto simp: ucast_low_byte bit_simps)
qed simp

lemma get_put_u64: "off + 8 \<le> length buf \<Longrightarrow> get_u64 off (put_u64 off v buf) = v"
  by (simp add: get_u64_def put_u64_def blit_def of_le_bytes_le_bytes take_bit_word_eq_self)

lemma get_put_u32: "off + 4 \<le> length buf \<Longrightarrow> get_u32 off (put_u32 off v buf) = v"
  by (simp add: get_u32_def put_u32_def blit_def of_le_bytes_le_bytes) (rule bit_word_eqI, simp add: bit_simps)

text \<open>Splitting a code point into surrogates loses nothing.\<close>

lemma surrogate_round_trip: "from_surrogate (get_hi_surrogate c) (get_lo_surrogate c) = c"
proof -
  have "(c AND 0x3FF) AND 0xDC00 = 0" by (simp add: and.assoc)
  then have lo: "get_lo_surrogate c = take_bit 10 c + 0xDC00"
    by (simp add: get_lo_surrogate_def disjunctive_add_eq_or take_bit_eq_mask mask_eq_exp_minus_1)
  have "0x400 * drop_bit 10 c + take_bit 10 c = c"
    using bits_ident [of 10 c] by (simp add: push_bit_eq_mult mult.commute)
  moreover have "drop_bit 10 0x10000 = (0x40 :: 32 word)" by code_simp
  ultimately show ?thesis by (simp add: from_surrogate_def get_hi_surrogate_def lo algebra_simps)
qed

text \<open>\<open>pstrcat\<close> appends as much as fits and always leaves a terminated string inside the given size;
  nothing behind the size is written.\<close>

theorem pstrcat_spec:
  assumes "n \<le> length buf" "strlen buf < n"
  shows "cstr (pstrcat buf (int n) s) = take (n - 1) (cstr buf @ cstr s) \<and>
    drop n (pstrcat buf (int n) s) = drop n buf \<and> length (pstrcat buf (int n) s) = length buf"
proof -
  let ?l = "strlen buf" and ?t = "take (n - 1 - strlen buf) (cstr s)"
  have "pstrcat buf (int n) s = pstrcpy_loop buf ?l n s"
    using assms(2) by (simp add: pstrcat_def pstrcpy_def nat_diff_distrib)
  with pstrcpy_loop_eq [OF assms(2,1), of s] have r: "pstrcat buf (int n) s = cstr buf @ ?t @ 0 # drop (?l + length ?t + 1) buf"
    by (simp only: cstr_take [of buf] Let_def)
  have "0 \<notin> set (cstr buf @ ?t)" using cstr_nonzero [of buf] cstr_nonzero [of s] by (auto dest: in_set_takeD)
  from cstr_app [OF this, of "drop (?l + length ?t + 1) buf"]
  have "cstr (pstrcat buf (int n) s) = cstr buf @ ?t" unfolding r by simp
  moreover have "take (n - 1) (cstr buf @ cstr s) = cstr buf @ ?t"
    using assms(2) by (simp add: strlen_def)
  moreover have "drop n (cstr buf @ ?t @ 0 # drop (?l + length ?t + 1) buf) = drop n buf"
    using assms by (simp add: strlen_def drop_Cons' min_def) arith
  moreover have "length (cstr buf @ ?t @ 0 # drop (?l + length ?t + 1) buf) = length buf"
    using assms by (simp add: strlen_def min_def)
  ultimately show ?thesis using r by simp
qed

theorem pstrcat_spec_witness: "cstr (pstrcat [0x61, 0, 0x7A, 0x7A] 3 [0x62, 0x63]) = [0x61, 0x62]"
  using pstrcat_spec [of 3 "[0x61, 0, 0x7A, 0x7A]" "[0x62, 0x63]"] by (simp add: strlen_def cstr_def)

section \<open>Dynamic buffers\<close>

text \<open>What a reallocation function promises: the block it returns has the size asked for and keeps what
  fits of the old contents.\<close>

definition realloc_ok :: "reallocf \<Rightarrow> bool" where
  "realloc_ok R = (\<forall>b n c. R b n = Some c \<longrightarrow> length c = n \<and> take (min n (length b)) c = take (min n (length b)) b)"

definition wf_dbuf :: "DynBuf \<Rightarrow> bool" where
  "wf_dbuf s = (length (d_buf s) = unat (d_alloc s) \<and> d_size s \<le> d_alloc s)"

definition dbuf_contents :: "DynBuf \<Rightarrow> byte list" where
  "dbuf_contents s = take (unat (d_size s)) (d_buf s)"

lemma dbuf_claim_ok:
  assumes "wf_dbuf s" "realloc_ok R" "dbuf_claim R s len = (rc, s')"
  shows "wf_dbuf s' \<and> dbuf_contents s' = dbuf_contents s \<and> d_size s' = d_size s \<and>
    (rc = 0 \<longrightarrow> unat (d_size s) + unat len \<le> unat (d_alloc s'))"
proof (cases "d_size s + len < len \<or> \<not> d_size s + len > d_alloc s \<or> d_error s \<or> d_alloc s + d_alloc s div 2 < d_alloc s")
  case True
  have "rc = 0 \<Longrightarrow> \<not> d_size s + len < len \<and> d_size s + len \<le> d_alloc s \<and> s' = s"
    using True assms(3) by (auto simp: dbuf_claim_def Let_def split: if_splits option.splits)
  moreover have "s' = s"
    using True assms(3) by (auto simp: dbuf_claim_def Let_def split: if_splits option.splits)
  moreover have "unat (d_size s + len) = unat (d_size s) + unat len" if "\<not> d_size s + len < len"
    using that by (metis add.commute no_olen_add_nat not_less unat_plus_simple word_le_nat_alt)
  ultimately show ?thesis using assms(1) by (auto simp: word_le_nat_alt)
next
  case False
  let ?n = "if d_alloc s + d_alloc s div 2 > d_size s + len then d_alloc s + d_alloc s div 2 else d_size s + len"
  have un: "unat (d_size s + len) = unat (d_size s) + unat len"
    using False by (metis add.commute no_olen_add_nat not_less unat_plus_simple word_le_nat_alt)
  have n: "d_size s + len \<le> ?n" "d_alloc s \<le> ?n" using False by auto
  show ?thesis
  proof (cases "R (d_buf s) (unat ?n)")
    case None
    with False assms(3) have "s' = s\<lparr>d_error := True\<rparr>" "rc = -1"
      by (auto simp: dbuf_claim_def Let_def split: if_splits)
    with assms(1) show ?thesis by (simp add: wf_dbuf_def dbuf_contents_def)
  next
    case (Some b)
    with False assms(3) have s': "s' = s\<lparr>d_buf := b, d_alloc := ?n\<rparr>"
      by (auto simp: dbuf_claim_def Let_def split: if_splits)
    have b: "length b = unat ?n" "take (min (unat ?n) (length (d_buf s))) b = take (min (unat ?n) (length (d_buf s))) (d_buf s)"
      using assms(2) Some by (auto simp: realloc_ok_def)
    have "length (d_buf s) \<le> unat ?n" using assms(1) n(2) by (simp add: wf_dbuf_def word_le_nat_alt)
    with b(2) have t: "take (length (d_buf s)) b = d_buf s" by (simp add: min_absorb2)
    have le: "unat (d_size s) \<le> length (d_buf s)" using assms(1) by (simp add: wf_dbuf_def word_le_nat_alt)
    then have "take (unat (d_size s)) b = take (unat (d_size s)) (d_buf s)"
      by (metis t take_take min_absorb1)
    with s' b(1) n un le assms(1) show ?thesis
      by (auto simp: wf_dbuf_def dbuf_contents_def word_le_nat_alt)
  qed
qed

lemma dbuf_reserve_ok:
  assumes "wf_dbuf s" "realloc_ok R" "dbuf_reserve R s len = (rc, s')"
  shows "wf_dbuf s' \<and> dbuf_contents s' = dbuf_contents s \<and> d_size s' = d_size s \<and>
    (rc = 0 \<longrightarrow> unat (d_size s) + unat len \<le> unat (d_alloc s'))"
proof (cases "d_alloc s - d_size s < len")
  case False
  then have "s' = s" "len \<le> d_alloc s - d_size s" using assms(3) by (auto simp: dbuf_reserve_def)
  moreover have "unat (d_alloc s - d_size s) = unat (d_alloc s) - unat (d_size s)"
    using assms(1) by (simp add: wf_dbuf_def unat_sub)
  moreover have "unat (d_size s) \<le> unat (d_alloc s)" using assms(1) by (simp add: wf_dbuf_def word_le_nat_alt)
  ultimately show ?thesis using assms(1) by (auto simp: word_le_nat_alt)
qed (use assms dbuf_claim_ok in \<open>auto simp: dbuf_reserve_def\<close>)

lemma dbuf_store_ok:
  assumes "wf_dbuf s" "unat (d_size s) + length data \<le> unat (d_alloc s)"
  shows "wf_dbuf (dbuf_store data s) \<and> dbuf_contents (dbuf_store data s) = dbuf_contents s @ data"
proof -
  have "unat (d_alloc s) < 2 ^ 64" using unsigned_less [where ?'a = nat, of "d_alloc s"] by simp
  with assms(2) have "unat (d_size s + word_of_nat (length data)) = unat (d_size s) + length data"
    by (simp add: unat_word_ariths unat_of_nat take_bit_eq_mod)
  with assms show ?thesis
    by (auto simp: wf_dbuf_def dbuf_contents_def dbuf_store_def blit_def word_le_nat_alt min_def length_greater_0_conv [symmetric]
        simp del: length_greater_0_conv)
qed

text \<open>Writing to a dynamic buffer appends, or fails and leaves the contents alone; it never reports
  success without having room, also when sizes wrap around, and the buffer stays well-formed.\<close>

theorem dbuf_put_appends:
  assumes "wf_dbuf s" "realloc_ok R" "length data < 2 ^ 64" "dbuf_put R s data = (rc, s')"
  shows "wf_dbuf s' \<and> (rc = 0 \<and> dbuf_contents s' = dbuf_contents s @ data \<or> rc = -1 \<and> dbuf_contents s' = dbuf_contents s)"
proof -
  obtain rc1 s1 where r: "dbuf_reserve R s (word_of_nat (length data)) = (rc1, s1)" by fastforce
  have len: "unat (word_of_nat (length data) :: 64 word) = length data"
    using assms(3) by (simp add: unat_of_nat take_bit_eq_mod)
  note ok = dbuf_reserve_ok [OF assms(1,2) r]
  show ?thesis
  proof (cases "rc1 = 0")
    case True
    with ok len dbuf_store_ok [of s1 data] assms(4) r show ?thesis by (auto simp: dbuf_put_def)
  qed (use ok assms(4) r in \<open>auto simp: dbuf_put_def\<close>)
qed

definition demo_realloc :: reallocf where
  "demo_realloc b n = Some (take n b @ replicate (n - length b) 0)"

lemma demo_realloc_ok: "realloc_ok demo_realloc"
  by (auto simp: realloc_ok_def demo_realloc_def min_def)

theorem dbuf_put_appends_witness:
  "\<exists>s'. dbuf_put demo_realloc dbuf_init [1, 2, 3] = (0, s') \<and> dbuf_contents s' = [1, 2, 3]"
proof -
  obtain rc s' where r: "dbuf_put demo_realloc dbuf_init [1, 2, 3] = (rc, s')" by fastforce
  then have "rc = 0"
    by (simp add: dbuf_put_def dbuf_reserve_def dbuf_claim_def dbuf_init_def demo_realloc_def Let_def)
  with dbuf_put_appends [OF _ demo_realloc_ok _ r] r show ?thesis
    by (auto simp: wf_dbuf_def dbuf_init_def dbuf_contents_def)
qed

lemma room_for:
  assumes "wf_dbuf s" "\<not> d_alloc s - d_size s < k"
  shows "unat (d_size s) + unat k \<le> length (d_buf s)"
  using assms dbuf_reserve_ok [of s "\<lambda>b n. None" k 0 s] by (auto simp: dbuf_reserve_def realloc_ok_def wf_dbuf_def)

text \<open>The inlined fast paths for single bytes and for 16-, 32- and 64-bit integers do exactly what the
  general append of their little-endian bytes does.\<close>

theorem dbuf_fast_paths:
  assumes "wf_dbuf s"
  shows "dbuf_putc R s c = dbuf_put R s [c] \<and> dbuf_put_u16 R s v16 = dbuf_put R s (le_bytes 2 (ucast v16)) \<and>
    dbuf_put_u32 R s v32 = dbuf_put R s (le_bytes 4 (ucast v32)) \<and> dbuf_put_u64 R s v64 = dbuf_put R s (le_bytes 8 v64)"
proof -
  have "(d_buf s)[unat (d_size s) := c] = blit (unat (d_size s)) [c] (d_buf s)" if "\<not> d_alloc s - d_size s < 1"
    using room_for [OF assms that] by (simp add: blit_def upd_conv_take_nth_drop)
  then have "dbuf_putc R s c = dbuf_put R s [c]"
    by (simp add: dbuf_putc_def dbuf_put_def dbuf_reserve_def dbuf_store_def)
  then show ?thesis
    by (simp add: dbuf_put_u16_def dbuf_put_u32_def dbuf_put_u64_def dbuf_put_def dbuf_reserve_def dbuf_store_def
        put_u16_def put_u32_def put_u64_def)
qed

theorem dbuf_fast_paths_witness: "dbuf_put_u16 demo_realloc dbuf_init 0x1234 = dbuf_put demo_realloc dbuf_init (le_bytes 2 0x1234)"
  using dbuf_fast_paths [of dbuf_init demo_realloc 0 "0x1234" 0 0] by (simp add: wf_dbuf_def dbuf_init_def)

end
