(* ===== verification/Limbs.thy ===== *)
theory Limbs
  imports Prelude
begin

text \<open>
  Multi-precision arithmetic of the engine (the \<open>mp_\<close> functions of \<open>quickjs.c\<close>), on which its
  \<open>BigInt\<close> operations rest. A number is an array of 64-bit limbs, least significant first; \<open>js_dlimb_t\<close>
  has 128 bits, as in the 64-bit builds. A loop over limbs is a recursion on the list; an array that a
  C function updates in place at the index it reads is an argument and a result.

  \<open>uval\<close> reads a limb array as a number. Each lemma \<open>mp_\<dots>_uval\<close> states what a function computes
  on these numbers, carries and borrows included.
\<close>

type_synonym limb = "64 word"
type_synonym dlimb = "128 word"

section \<open>The functions\<close>

text \<open>The macro \<open>ADDC\<close>: the sum limb and the outgoing carry.\<close>

definition ADDC :: "limb \<Rightarrow> limb \<Rightarrow> limb \<Rightarrow> limb \<times> limb" where
  "ADDC op1 op2 carry_in =
     (let v = op1; a = v + op2; k1 = of_bool (a < v); k = carry_in; a = a + k in
      (a, of_bool (a < k) OR k1))"

fun mp_add :: "limb list \<Rightarrow> limb list \<Rightarrow> limb \<Rightarrow> limb list \<times> limb" where
  "mp_add (x # op1) (y # op2) carry =
     (let (r, carry) = ADDC x y carry; (res, carry) = mp_add op1 op2 carry in (r # res, carry))"
| "mp_add op1 op2 carry = ([], carry)"

fun mp_sub :: "limb list \<Rightarrow> limb list \<Rightarrow> limb \<Rightarrow> limb list \<times> limb" where
  "mp_sub (x # op1) (y # op2) k =
     (let v = x; a = v - y; k1 = of_bool (a > v); v = a - k; k = of_bool (v > a) OR k1;
          (res, k) = mp_sub op1 op2 k in (v # res, k))"
| "mp_sub op1 op2 k = ([], k)"

fun mp_neg_loop :: "limb list \<Rightarrow> limb \<Rightarrow> limb list \<times> limb" where
  "mp_neg_loop [] carry = ([], carry)"
| "mp_neg_loop (x # op2) carry =
     (let v = NOT x + carry; (res, c) = mp_neg_loop op2 (of_bool (v < carry)) in (v # res, c))"

definition mp_neg :: "limb list \<Rightarrow> limb list \<times> limb" where
  "mp_neg op2 = mp_neg_loop op2 1"

fun mp_mul1 :: "limb list \<Rightarrow> limb \<Rightarrow> limb \<Rightarrow> limb list \<times> limb" where
  "mp_mul1 [] b l = ([], l)"
| "mp_mul1 (x # taba) b l =
     (let t = (ucast x :: dlimb) * ucast b + ucast l;
          (res, l) = mp_mul1 taba b (ucast (drop_bit 64 t)) in (ucast t # res, l))"

text \<open>\<open>mp_div1\<close> runs from the most significant limb down: the recursive call on the higher limbs comes
  first.\<close>

fun mp_div1 :: "limb list \<Rightarrow> limb \<Rightarrow> limb \<Rightarrow> limb list \<times> limb" where
  "mp_div1 [] b r = ([], r)"
| "mp_div1 (x # taba) b r =
     (let (res, r) = mp_div1 taba b r;
          a1 = push_bit 64 (ucast r :: dlimb) OR ucast x in
      (ucast (a1 div ucast b) # res, ucast (a1 mod ucast b)))"

fun mp_add_mul1_loop :: "limb list \<Rightarrow> limb list \<Rightarrow> limb \<Rightarrow> limb \<Rightarrow> limb list \<times> limb" where
  "mp_add_mul1_loop (r # tabr) (x # taba) b l =
     (let t = (ucast x :: dlimb) * ucast b + ucast l + ucast r;
          (res, l) = mp_add_mul1_loop tabr taba b (ucast (drop_bit 64 t)) in (ucast t # res, l))"
| "mp_add_mul1_loop tabr taba b l = ([], l)"

definition mp_add_mul1 :: "limb list \<Rightarrow> limb list \<Rightarrow> limb \<Rightarrow> limb list \<times> limb" where
  "mp_add_mul1 tabr taba b = mp_add_mul1_loop tabr taba b 0"

text \<open>\<open>mp_mul_basecase\<close>: the first row stores \<open>op1_size + 1\<close> limbs; row \<open>i\<close> adds at offset \<open>i\<close> to the
  top \<open>op1_size\<close> limbs written so far and appends one. The recursion carries the limbs from offset \<open>i\<close>
  on; the limb at offset \<open>i - 1\<close> is final.\<close>

fun mp_mul_rows :: "limb list \<Rightarrow> limb list \<Rightarrow> limb list \<Rightarrow> limb list" where
  "mp_mul_rows op1 [] row = row"
| "mp_mul_rows op1 (y # op2) row =
     (let (res, r) = mp_add_mul1 (tl row) op1 y in hd row # mp_mul_rows op1 op2 (res @ [r]))"

definition mp_mul_basecase :: "limb list \<Rightarrow> limb list \<Rightarrow> limb list" where
  "mp_mul_basecase op1 op2 =
     (let (res, h) = mp_mul1 op1 (hd op2) 0 in mp_mul_rows op1 (tl op2) (res @ [h]))"

fun mp_sub_mul1_loop :: "limb list \<Rightarrow> limb list \<Rightarrow> limb \<Rightarrow> limb \<Rightarrow> limb list \<times> limb" where
  "mp_sub_mul1_loop (r # tabr) (x # taba) b l =
     (let t = (ucast r :: dlimb) - ucast x * ucast b - ucast l;
          (res, l) = mp_sub_mul1_loop tabr taba b (ucast (- drop_bit 64 t)) in (ucast t # res, l))"
| "mp_sub_mul1_loop tabr taba b l = ([], l)"

definition mp_sub_mul1 :: "limb list \<Rightarrow> limb list \<Rightarrow> limb \<Rightarrow> limb list \<times> limb" where
  "mp_sub_mul1 tabr taba b = mp_sub_mul1_loop tabr taba b 0"

fun mp_shl_loop :: "limb list \<Rightarrow> nat \<Rightarrow> limb \<Rightarrow> limb list \<times> limb" where
  "mp_shl_loop [] shift l = ([], l)"
| "mp_shl_loop (v # taba) shift l =
     (let (res, h) = mp_shl_loop taba shift (drop_bit (64 - shift) v) in ((push_bit shift v OR l) # res, h))"

definition mp_shl :: "limb list \<Rightarrow> nat \<Rightarrow> limb list \<times> limb" where
  "mp_shl taba shift = mp_shl_loop taba shift 0"

text \<open>\<open>mp_shr\<close> also runs downwards; the limb above the first one is \<open>high\<close>.\<close>

fun mp_shr_loop :: "limb list \<Rightarrow> nat \<Rightarrow> limb \<Rightarrow> limb list \<times> limb" where
  "mp_shr_loop [] shift l = ([], l)"
| "mp_shr_loop (a # tab) shift l =
     (let (res, l) = mp_shr_loop tab shift l in ((drop_bit shift a OR push_bit (64 - shift) l) # res, a))"

definition mp_shr :: "limb list \<Rightarrow> nat \<Rightarrow> limb \<Rightarrow> limb list \<times> limb" where
  "mp_shr tab shift high = (let (res, l) = mp_shr_loop tab shift high in (res, l AND (push_bit shift 1 - 1)))"

section \<open>What they compute\<close>

fun uval :: "limb list \<Rightarrow> int" where
  "uval [] = 0"
| "uval (x # xs) = uint x + 2 ^ 64 * uval xs"

definition base :: "nat \<Rightarrow> int" where
  "base n = (2 ^ 64) ^ n"

lemma base_simps [simp]: "base 0 = 1" "base (Suc n) = 2 ^ 64 * base n"
  by (simp_all add: base_def)

lemma base_pos [simp]: "0 < base n" "0 \<le> base n" "base n \<noteq> 0"
  by (simp_all add: base_def)

lemma uint_limb: "0 \<le> uint (x :: limb)" "uint (x :: limb) < 18446744073709551616"
  using uint_bounded [of x] by simp_all

lemma uint_dlimb: "0 \<le> uint (x :: dlimb)" "uint (x :: dlimb) < 2 ^ 128"
  using uint_bounded [of x] by simp_all

lemma uval_bounds: "0 \<le> uval xs \<and> uval xs < base (length xs)"
proof (induction xs)
  case (Cons x xs)
  have "uint x + 2 ^ 64 * uval xs \<le> uint x + 2 ^ 64 * (base (length xs) - 1)" using Cons by simp
  also have "\<dots> < 2 ^ 64 * base (length xs)" using uint_limb(2) [of x] by (simp add: algebra_simps)
  finally show ?case using Cons by simp
qed simp

lemmas uval_nonneg [simp] = uval_bounds [THEN conjunct1]
lemmas uval_less [simp] = uval_bounds [THEN conjunct2]

lemma uval_append [simp]: "uval (xs @ ys) = uval xs + base (length xs) * uval ys"
  by (induction xs) (simp_all add: algebra_simps)

lemma base_add: "base (m + n) = base m * base n"
  by (simp add: base_def power_add)

lemma limb_add: "uint (x + y :: limb) = (if uint x + uint y < 2 ^ 64 then uint x + uint y else uint x + uint y - 2 ^ 64)"
  by (simp add: uint_plus_if_size word_size)

lemma limb_sub: "uint (x - y :: limb) = (if uint y \<le> uint x then uint x - uint y else uint x - uint y + 2 ^ 64)"
  by (simp add: uint_sub_if_size word_size)

lemma uint_of_bool_or [simp]: "uint (of_bool a OR of_bool b :: limb) = (if a \<or> b then 1 else 0)"
  by simp

text \<open>The carry tests of the code, on the numbers: a sum wrapped around exactly if it is below an operand.\<close>

lemma add_wraps:
  fixes x y k s r B :: int
  assumes "0 \<le> x" "x < B" "0 \<le> y" "y < B" "0 \<le> k" "k \<le> 1" "1 < B"
    "s = (if x + y < B then x + y else x + y - B)" "r = (if s + k < B then s + k else s + k - B)"
  shows "r + B * (if r < k \<or> s < x then 1 else 0) = x + y + k"
  using assms by (auto split: if_splits)

lemma sub_wraps:
  fixes x y k s r B :: int
  assumes "0 \<le> x" "x < B" "0 \<le> y" "y < B" "0 \<le> k" "k \<le> 1" "1 < B"
    "s = (if y \<le> x then x - y else x - y + B)" "r = (if k \<le> s then s - k else s - k + B)"
  shows "r - B * (if s < r \<or> x < s then 1 else 0) = x - y - k"
  using assms by (auto split: if_splits)

lemma ADDC_ok:
  assumes "ADDC x y k = (r, c)" "uint k \<le> 1"
  shows "uint r + 2 ^ 64 * uint c = uint x + uint y + uint k \<and> uint c \<le> 1"
proof -
  have r: "r = x + y + k" "c = of_bool (x + y + k < k) OR of_bool (x + y < x)"
    using assms(1) unfolding ADDC_def Let_def prod.inject by metis+
  have c: "uint c = (if x + y + k < k \<or> x + y < x then 1 else 0)" unfolding r(2) by simp
  have "uint r + 2 ^ 64 * (if x + y + k < k \<or> x + y < x then 1 else 0) = uint x + uint y + uint k"
    unfolding word_less_def r(1)
    by (rule add_wraps [OF _ _ _ _ _ assms(2) _ limb_add limb_add]) (use uint_limb in simp_all)
  then show ?thesis by (simp add: c)
qed

lemma mp_add_uval:
  assumes "mp_add op1 op2 k = (res, c)" "length op1 = length op2" "uint k \<le> 1"
  shows "uval res + base (length op1) * uint c = uval op1 + uval op2 + uint k \<and> uint c \<le> 1 \<and> length res = length op1"
  using assms
proof (induction op1 op2 k arbitrary: res c rule: mp_add.induct)
  case (1 x op1 y op2 k)
  obtain r k' where a: "ADDC x y k = (r, k')" by fastforce
  obtain res' where m: "mp_add op1 op2 k' = (res', c)" "res = r # res'" using 1(2) a by (auto split: prod.splits)
  have "uint r + 2 ^ 64 * uint k' = uint x + uint y + uint k" and k: "uint k' \<le> 1"
    using ADDC_ok [OF a 1(4)] by auto
  moreover have "uval res' + base (length op1) * uint c = uval op1 + uval op2 + uint k' \<and> uint c \<le> 1 \<and> length res' = length op1"
    using 1(1) [OF a [symmetric] _ m(1)] 1(3) k by simp
  ultimately show ?case using m(2) by (simp add: algebra_simps)
qed simp_all

lemma mp_sub_uval:
  assumes "mp_sub op1 op2 k = (res, c)" "length op1 = length op2" "uint k \<le> 1"
  shows "uval res - base (length op1) * uint c = uval op1 - uval op2 - uint k \<and> uint c \<le> 1 \<and> length res = length op1"
  using assms
proof (induction op1 op2 k arbitrary: res c rule: mp_sub.induct)
  case (1 x op1 y op2 k)
  define r where "r = x - y - k"
  define k' :: limb where "k' = of_bool (x - y < r) OR of_bool (x < x - y)"
  obtain res' where m: "mp_sub op1 op2 k' = (res', c)" "res = r # res'"
    using 1(2) by (auto simp: r_def k'_def Let_def split: prod.splits)
  have k: "uint k' = (if x - y < r \<or> x < x - y then 1 else 0)" unfolding k'_def by simp
  have "uint r - 2 ^ 64 * uint k' = uint x - uint y - uint k" unfolding k word_less_def r_def
    by (rule sub_wraps [OF _ _ _ _ _ 1(4) _ limb_sub limb_sub]) (use uint_limb in simp_all)
  moreover have "uval res' - base (length op1) * uint c = uval op1 - uval op2 - uint k' \<and> uint c \<le> 1 \<and> length res' = length op1"
    using 1(1) [OF refl refl refl refl _ m(1) [unfolded k'_def r_def]] 1(3) by (simp add: k'_def r_def)
  ultimately show ?case using m(2) by (simp add: algebra_simps)
qed simp_all

lemma uint_not [simp]: "uint (NOT x :: limb) = 2 ^ 64 - 1 - uint x"
proof -
  have "NOT x = - 1 - x" by (simp add: not_eq_complement)
  moreover have "uint (- 1 :: limb) = 2 ^ 64 - 1" by (simp add: unsigned_minus_1_eq_mask mask_eq_exp_minus_1)
  ultimately show ?thesis using limb_sub [of "- 1" x] uint_limb [of x] by simp
qed

lemma mp_neg_loop_uval:
  assumes "mp_neg_loop op2 k = (res, c)" "uint k \<le> 1"
  shows "uval res + base (length op2) * uint c = base (length op2) - 1 - uval op2 + uint k \<and>
    uint c \<le> 1 \<and> length res = length op2"
  using assms
proof (induction op2 arbitrary: k res)
  case (Cons x op2)
  define k' :: limb where "k' = of_bool (NOT x + k < k)"
  obtain res' where m: "mp_neg_loop op2 k' = (res', c)" "res = (NOT x + k) # res'"
    using Cons(2) by (auto simp: k'_def Let_def split: prod.splits)
  have k: "uint k' = (if NOT x + k < k then 1 else 0)" by (simp add: k'_def)
  have "uint (NOT x + k) + 2 ^ 64 * uint k' = 2 ^ 64 - 1 - uint x + uint k" unfolding k word_less_def
    using add_wraps [OF _ _ _ _ _ Cons(3) _ _ limb_add, of 0 "uint (NOT x)" "NOT x"] uint_limb [of "NOT x"]
    by simp
  moreover have "uval res' + base (length op2) * uint c = base (length op2) - 1 - uval op2 + uint k' \<and>
      uint c \<le> 1 \<and> length res' = length op2"
    using Cons(1) [OF m(1)] k by simp
  ultimately show ?case using m(2) by (simp add: algebra_simps)
qed simp

text \<open>A 128-bit sum of products that fits is split into its two limbs without loss.\<close>

lemma uint_ucast_dlimb [simp]: "uint (ucast (x :: limb) :: dlimb) = uint x"
  using uint_limb [of x] by (simp add: unsigned_ucast_eq take_bit_eq_mod)

lemma uint_dlimb_high: "uint (drop_bit 64 t :: dlimb) = uint t div 2 ^ 64"
proof -
  have "uint (drop_bit 64 t) = drop_bit 64 (take_bit 128 (uint t))" by (simp only: unsigned_drop_bit_eq) simp
  also have "\<dots> = uint t div 2 ^ 64" using uint_dlimb [of t] by (simp only: take_bit_int_eq_self drop_bit_eq_div)
  finally show ?thesis .
qed

lemma uint_high: "uint (ucast (drop_bit 64 t :: dlimb) :: limb) = uint t div 2 ^ 64"
proof -
  have "uint t div 2 ^ 64 < 2 ^ 64" using uint_dlimb [of t] by simp
  moreover have "0 \<le> uint t div 2 ^ 64" by (simp add: pos_imp_zdiv_nonneg_iff)
  ultimately have "take_bit 64 (uint (drop_bit 64 t)) = uint t div 2 ^ 64"
    unfolding uint_dlimb_high by (simp only: take_bit_int_eq_self)
  then show ?thesis by (simp only: unsigned_ucast_eq) simp
qed

lemma uint_low: "uint (ucast (t :: dlimb) :: limb) = uint t mod 2 ^ 64"
  by (simp add: unsigned_ucast_eq take_bit_eq_mod)

lemma dlimb_split: "uint (ucast (t :: dlimb) :: limb) + 2 ^ 64 * uint (ucast (drop_bit 64 t) :: limb) = uint t"
proof -
  have "uint (ucast t :: limb) + 2 ^ 64 * uint (ucast (drop_bit 64 t) :: limb) = uint t mod 2 ^ 64 + 2 ^ 64 * (uint t div 2 ^ 64)"
    unfolding uint_high [symmetric] uint_low [symmetric] ..
  then show ?thesis by (simp only: mod_mult_div_eq)
qed

lemma limb_product: "uint (x :: limb) * uint (y :: limb) \<le> (2 ^ 64 - 1) * (2 ^ 64 - 1)"
  using uint_limb [of x] uint_limb [of y] by (intro mult_mono) simp_all

lemma dlimb_add: "uint a + uint b < 2 ^ 128 \<Longrightarrow> uint (a + b :: dlimb) = uint a + uint b"
  by (simp add: uint_plus_if_size word_size)

lemma dlimb_mul: "uint ((ucast (x :: limb) :: dlimb) * ucast (y :: limb)) = uint x * uint y"
proof -
  have "uint x * uint y < 2 ^ 128" using limb_product [of x y] by simp
  then show ?thesis by (simp add: uint_word_ariths)
qed

lemma dlimb_mul1:
  "uint ((ucast (x :: limb) :: dlimb) * ucast (y :: limb) + ucast (l :: limb)) = uint x * uint y + uint l"
  using limb_product [of x y] uint_limb [of l] by (subst dlimb_add) (simp_all add: dlimb_mul)

lemma dlimb_muladd:
  "uint ((ucast (x :: limb) :: dlimb) * ucast (y :: limb) + ucast (l :: limb) + ucast (r :: limb)) =
     uint x * uint y + uint l + uint r"
  using limb_product [of x y] uint_limb [of l] uint_limb [of r] by (subst dlimb_add) (simp_all add: dlimb_mul1)

lemma mp_mul1_uval:
  assumes "mp_mul1 taba b l = (res, c)"
  shows "uval res + base (length taba) * uint c = uval taba * uint b + uint l \<and> length res = length taba"
  using assms
proof (induction taba arbitrary: l res)
  case (Cons x taba)
  define t where "t = (ucast x :: dlimb) * ucast b + ucast l"
  obtain res' where m: "mp_mul1 taba b (ucast (drop_bit 64 t)) = (res', c)" "res = ucast t # res'"
    using Cons(2) by (auto simp: t_def Let_def split: prod.splits)
  have "uint (ucast t :: limb) + 2 ^ 64 * uint (ucast (drop_bit 64 t) :: limb) = uint x * uint b + uint l"
    using dlimb_split [of t] dlimb_mul1 [of x b l] by (simp add: t_def)
  then show ?case using Cons(1) [OF m(1)] m(2) by (simp add: algebra_simps)
qed simp

lemma mp_add_mul1_loop_uval:
  assumes "mp_add_mul1_loop tabr taba b l = (res, c)" "length tabr = length taba"
  shows "uval res + base (length taba) * uint c = uval tabr + uval taba * uint b + uint l \<and> length res = length taba"
  using assms
proof (induction tabr taba b l arbitrary: res rule: mp_add_mul1_loop.induct)
  case (1 r tabr x taba b l)
  define t where "t = (ucast x :: dlimb) * ucast b + ucast l + ucast r"
  obtain res' where m: "mp_add_mul1_loop tabr taba b (ucast (drop_bit 64 t)) = (res', c)" "res = ucast t # res'"
    using 1(2) by (auto simp: t_def Let_def split: prod.splits)
  have "uint (ucast t :: limb) + 2 ^ 64 * uint (ucast (drop_bit 64 t) :: limb) = uint x * uint b + uint l + uint r"
    using dlimb_split [of t] dlimb_muladd [of x b l r] by (simp add: t_def)
  then show ?case using 1(1) [OF t_def m(1)] m(2) 1(3) by (simp add: algebra_simps)
qed simp_all

lemma mp_mul_rows_uval:
  assumes "length row = Suc (length op1)"
  shows "uval (mp_mul_rows op1 op2 row) = uval row + 2 ^ 64 * (uval op1 * uval op2) \<and>
    length (mp_mul_rows op1 op2 row) = length row + length op2"
  using assms
proof (induction op2 arbitrary: row)
  case (Cons y op2)
  obtain h row' where row: "row = h # row'" "length row' = length op1" using Cons(2) by (cases row) auto
  obtain res r where m: "mp_add_mul1_loop row' op1 y 0 = (res, r)" by fastforce
  have "uval res + base (length op1) * uint r = uval row' + uval op1 * uint y" and l: "length res = length op1"
    using mp_add_mul1_loop_uval [OF m row(2)] by simp_all
  with Cons(1) [of "res @ [r]"] show ?case
    by (simp add: row m mp_add_mul1_def algebra_simps)
qed simp

lemma mp_mul_basecase_uval:
  assumes "op2 \<noteq> []"
  shows "uval (mp_mul_basecase op1 op2) = uval op1 * uval op2 \<and> length (mp_mul_basecase op1 op2) = length op1 + length op2"
proof -
  obtain y ys where y: "op2 = y # ys" using assms by (cases op2) auto
  obtain res h where m: "mp_mul1 op1 y 0 = (res, h)" by fastforce
  show ?thesis using mp_mul1_uval [OF m] mp_mul_rows_uval [of "res @ [h]" op1 ys]
    by (simp add: y m mp_mul_basecase_def algebra_simps)
qed

lemma submul_range:
  fixes r l p B :: int
  assumes "0 \<le> r" "r < B" "0 \<le> l" "l < B" "0 \<le> p" "p \<le> (B - 1) * (B - 1)"
  shows "- (B * (B - 1)) \<le> r - p - l \<and> r - p - l < B"
  using assms by (auto simp: algebra_simps)

lemma dlimb_submul:
  assumes "t = (ucast (r :: limb) :: dlimb) - ucast (x :: limb) * ucast (b :: limb) - ucast (l :: limb)"
  shows "uint (ucast t :: limb) - 2 ^ 64 * uint (ucast (- drop_bit 64 t) :: limb) = uint r - uint x * uint b - uint l"
proof -
  define v where "v = uint r - uint x * uint b - uint l"
  have "uint t = v mod 2 ^ 128"
    unfolding assms v_def by (simp add: uint_word_ariths mod_diff_left_eq mod_diff_right_eq)
  then have low: "uint t mod 2 ^ 64 = v mod 2 ^ 64" and high: "uint t div 2 ^ 64 = v div 2 ^ 64 mod 2 ^ 64"
    using mod_mult2_eq' [of v "2 ^ 64" "2 ^ 64"]
    by (simp_all add: mod_mod_cancel)
  have "- (2 ^ 64 * (2 ^ 64 - 1)) \<le> v" "v < 2 ^ 64"
    using submul_range [of "uint r" "2 ^ 64" "uint l" "uint x * uint b"] limb_product [of x b] uint_limb
    by (simp_all add: v_def)
  then have d: "- (2 ^ 64 - 1) \<le> v div 2 ^ 64" "v div 2 ^ 64 \<le> 0" by simp_all
  have "uint (ucast (- drop_bit 64 t) :: limb) = (- uint (drop_bit 64 t)) mod 2 ^ 128 mod 2 ^ 64"
    unfolding uint_low by (simp only: uint_word_ariths) simp
  also have "\<dots> = (- (v div 2 ^ 64 mod 2 ^ 64)) mod 2 ^ 64"
    unfolding uint_dlimb_high high by (rule mod_mod_cancel) simp
  also have "\<dots> = (- (v div 2 ^ 64)) mod 2 ^ 64" by (rule mod_minus_eq)
  also have "\<dots> = - (v div 2 ^ 64)" using d by (intro mod_pos_pos_trivial) simp_all
  finally show ?thesis by (simp only: uint_low low v_def [symmetric]) (simp add: minus_mult_div_eq_mod)
qed

lemma mp_sub_mul1_loop_uval:
  assumes "mp_sub_mul1_loop tabr taba b l = (res, c)" "length tabr = length taba"
  shows "uval res - base (length taba) * uint c = uval tabr - uval taba * uint b - uint l \<and> length res = length taba"
  using assms
proof (induction tabr taba b l arbitrary: res rule: mp_sub_mul1_loop.induct)
  case (1 r tabr x taba b l)
  define t where "t = (ucast r :: dlimb) - ucast x * ucast b - ucast l"
  obtain res' where m: "mp_sub_mul1_loop tabr taba b (ucast (- drop_bit 64 t)) = (res', c)" "res = ucast t # res'"
    using 1(2) by (auto simp: t_def Let_def split: prod.splits)
  show ?case using dlimb_submul [OF t_def] 1(1) [OF t_def m(1)] m(2) 1(3) by (simp add: algebra_simps)
qed simp_all

lemma dlimb_join: "uint (push_bit 64 (ucast (r :: limb)) OR ucast (x :: limb) :: dlimb) = 2 ^ 64 * uint r + uint x"
proof -
  have "push_bit 64 (ucast r) AND (ucast x :: dlimb) = 0"
    by (rule bit_word_eqI) (auto simp: bit_simps dest: bit_imp_le_length)
  then have "push_bit 64 (ucast r) OR (ucast x :: dlimb) = push_bit 64 (ucast r) + ucast x"
    by (simp add: disjunctive_add_eq_or)
  moreover have "uint (push_bit 64 (ucast r) :: dlimb) = 2 ^ 64 * uint r"
    using uint_limb [of r] by (simp add: push_bit_eq_mult uint_word_ariths)
  ultimately show ?thesis using uint_limb [of r] uint_limb [of x] by (simp add: dlimb_add)
qed

lemma int_div_less:
  fixes a b c :: int
  assumes "a < c * b" "0 < b"
  shows "a div b < c"
proof (rule ccontr)
  assume "\<not> a div b < c"
  then have "c * b \<le> a div b * b" using assms(2) by (simp add: mult_right_mono)
  also have "\<dots> \<le> a" using div_mult_mod_eq [of a b] pos_mod_sign [OF assms(2), of a] by linarith
  finally show False using assms(1) by simp
qed

lemma div1_step:
  assumes "a1 = push_bit 64 (ucast (r :: limb) :: dlimb) OR ucast (x :: limb)" "r < b"
  shows "2 ^ 64 * uint r + uint x = uint b * uint (ucast (a1 div ucast b) :: limb) + uint (ucast (a1 mod ucast b) :: limb)"
    and "ucast (a1 mod ucast b) < b"
proof -
  note a1 = dlimb_join [of r x, folded assms(1)]
  have rb: "uint r + 1 \<le> uint b" using assms(2) by (simp add: word_less_def)
  then have b: "0 < uint b" using uint_limb(1) [of r] by linarith
  have "uint a1 < 2 ^ 64 * (uint r + 1)" using a1 uint_limb [of x] by simp
  also have "\<dots> \<le> 2 ^ 64 * uint b" using rb by (rule mult_left_mono) simp
  finally have q: "uint a1 div uint b < 2 ^ 64" using b by (rule int_div_less)
  have "uint (a1 div ucast b) = uint a1 div uint b" "uint (a1 mod ucast b) = uint a1 mod uint b"
    by (simp_all add: uint_div_distrib uint_mod_distrib)
  moreover have "0 \<le> uint a1 div uint b" using b by (simp add: pos_imp_zdiv_nonneg_iff)
  moreover have "uint a1 mod uint b < 2 ^ 64" "0 \<le> uint a1 mod uint b" "uint a1 mod uint b < uint b"
    using pos_mod_bound [OF b, of "uint a1"] pos_mod_sign [OF b, of "uint a1"] uint_limb(2) [of b] by simp_all
  ultimately have u: "uint (ucast (a1 div ucast b) :: limb) = uint a1 div uint b"
    "uint (ucast (a1 mod ucast b) :: limb) = uint a1 mod uint b" "uint a1 mod uint b < uint b"
    using q by (simp_all add: uint_low)
  show "2 ^ 64 * uint r + uint x = uint b * uint (ucast (a1 div ucast b) :: limb) + uint (ucast (a1 mod ucast b) :: limb)"
    unfolding u a1 [symmetric] by simp
  show "ucast (a1 mod ucast b) < b" using u by (simp add: word_less_def)
qed

lemma mp_div1_uval:
  assumes "mp_div1 taba b r = (res, r')" "r < b"
  shows "uval taba + base (length taba) * uint r = uint b * uval res + uint r' \<and> r' < b \<and> length res = length taba"
  using assms
proof (induction taba arbitrary: res r')
  case (Cons x taba)
  obtain res1 r1 where m: "mp_div1 taba b r = (res1, r1)" by fastforce
  define a1 where "a1 = push_bit 64 (ucast r1 :: dlimb) OR ucast x"
  have r: "res = ucast (a1 div ucast b) # res1" "r' = ucast (a1 mod ucast b)"
    using Cons(2) m by (simp_all add: a1_def Let_def)
  note IH = Cons(1) [OF m Cons(3)]
  show ?case using IH div1_step [OF a1_def, of b] by (simp add: r algebra_simps)
qed simp

lemma uint_shl: "s \<le> 64 \<Longrightarrow> uint (push_bit s (v :: limb)) = 2 ^ s * (uint v mod 2 ^ (64 - s))"
proof -
  assume "s \<le> 64"
  then have e: "(2 :: int) ^ 64 = 2 ^ s * 2 ^ (64 - s)" by (simp only: power_add [symmetric]) simp
  have "uint (push_bit s v) = 2 ^ s * uint v mod 2 ^ 64"
    by (simp only: unsigned_push_bit_eq) (simp add: take_bit_eq_mod push_bit_eq_mult mult.commute)
  then show ?thesis unfolding e by (simp only: mult_mod_right)
qed

lemma uint_shr: "uint (drop_bit s (v :: limb)) = uint v div 2 ^ s"
proof -
  have "uint (drop_bit s v) = drop_bit s (take_bit 64 (uint v))" by (simp only: unsigned_drop_bit_eq) simp
  also have "take_bit 64 (uint v) = uint v" using uint_limb [of v] by (simp add: take_bit_eq_mod)
  also have "drop_bit s (uint v) = uint v div 2 ^ s" by (rule drop_bit_eq_div)
  finally show ?thesis .
qed

lemma uint_or_low:
  assumes "uint l < 2 ^ s" "2 ^ s dvd uint (h :: limb)"
  shows "uint (h OR l) = uint h + uint l"
proof -
  have "\<not> (bit h n \<and> bit l n)" for n
  proof (cases "n < s")
    case True
    then obtain d where d: "s = Suc (n + d)" by (auto simp: less_iff_Suc_add)
    obtain k where "uint h = 2 ^ s * k" using assms(2) by (rule dvdE)
    then have "uint h = 2 ^ n * (2 * 2 ^ d * k)" by (simp add: d power_add)
    then have "\<not> bit (uint h) n" by (simp add: bit_iff_odd)
    then show ?thesis by (auto simp: bit_uint_iff dest: bit_imp_le_length)
  next
    case False
    then have "uint l div 2 ^ n = 0" using assms(1) order.strict_trans2 [OF assms(1), of "2 ^ n"]
      by (intro div_pos_pos_trivial) (simp_all add: uint_limb)
    then have "\<not> bit (uint l) n" by (simp add: bit_iff_odd)
    then show ?thesis by (auto simp: bit_uint_iff dest: bit_imp_le_length)
  qed
  then have 0: "h AND l = 0" by (intro bit_word_eqI) (simp add: bit_simps)
  then have "uint h AND uint l = 0" by (metis unsigned_0 unsigned_and_eq)
  then have "uint h OR uint l = uint h + uint l" by (simp add: disjunctive_add_eq_or)
  then show ?thesis by (simp add: unsigned_or_eq)
qed

lemma mp_shl_loop_uval:
  assumes "mp_shl_loop taba s l = (res, h)" "s \<le> 64" "uint l < 2 ^ s"
  shows "uval res + base (length taba) * uint h = 2 ^ s * uval taba + uint l \<and> uint h < 2 ^ s \<and> length res = length taba"
  using assms(1,3)
proof (induction taba arbitrary: l res)
  case (Cons v taba)
  define k where "k = drop_bit (64 - s) v"
  obtain res' where m: "mp_shl_loop taba s k = (res', h)" "res = (push_bit s v OR l) # res'"
    using Cons(2) by (auto simp: k_def Let_def split: prod.splits)
  have k: "uint k = uint v div 2 ^ (64 - s)" by (simp add: k_def uint_shr)
  have e: "(2 :: int) ^ 64 = 2 ^ s * 2 ^ (64 - s)" using assms(2) by (simp only: power_add [symmetric]) simp
  have "uint v < 2 ^ s * 2 ^ (64 - s)" unfolding e [symmetric] using uint_limb [of v] by simp
  then have "uint k < 2 ^ s" unfolding k by (rule int_div_less) simp
  note IH = Cons(1) [OF m(1) this]
  have "uint (push_bit s v OR l) = 2 ^ s * (uint v mod 2 ^ (64 - s)) + uint l"
    using uint_or_low [OF Cons(3), of "push_bit s v"] assms(2) by (simp add: uint_shl)
  moreover have "2 ^ s * (uint v mod 2 ^ (64 - s)) + 2 ^ 64 * uint k = 2 ^ s * uint v"
    unfolding k e by (metis distrib_left mod_mult_div_eq mult.assoc)
  ultimately show ?case using IH m(2) by (simp add: algebra_simps)
qed simp

lemma mp_shr_loop_uval:
  assumes "mp_shr_loop tab s l = (res, l')" "0 < s" "s \<le> 64"
  shows "2 ^ s * uval res + uint l' mod 2 ^ s = uval tab + base (length tab) * (uint l mod 2 ^ s) \<and> length res = length tab"
  using assms(1)
proof (induction tab arbitrary: res l')
  case (Cons a tab)
  obtain res' m where r: "mp_shr_loop tab s l = (res', m)" by fastforce
  have e: "(2 :: int) ^ 64 = 2 ^ s * 2 ^ (64 - s)" using assms(3) by (simp only: power_add [symmetric]) simp
  have res: "res = (drop_bit s a OR push_bit (64 - s) m) # res'" "l' = a" using Cons(2) r by auto
  have "uint a < 2 ^ (64 - s) * 2 ^ s" unfolding mult.commute [of "2 ^ (64 - s)"] e [symmetric] using uint_limb [of a] by simp
  then have "uint (drop_bit s a) < 2 ^ (64 - s)" unfolding uint_shr by (rule int_div_less) simp
  from uint_or_low [OF this, of "push_bit (64 - s) m"] assms(3)
  have "uint (drop_bit s a OR push_bit (64 - s) m) = uint a div 2 ^ s + 2 ^ (64 - s) * (uint m mod 2 ^ s)"
    by (simp add: uint_shl uint_shr or.commute)
  then have "2 ^ s * uint (drop_bit s a OR push_bit (64 - s) m) + uint a mod 2 ^ s = uint a + 2 ^ 64 * (uint m mod 2 ^ s)"
    unfolding e by (simp add: algebra_simps)
  moreover note Cons(1) [OF r]
  ultimately show ?case by (simp add: res algebra_simps)
qed simp

end
