(* ===== verification/BigInt.thy ===== *)
theory BigInt
  imports Limbs
begin

text \<open>
  The \<open>BigInt\<close> arithmetic of the engine (the \<open>js_bigint_\<close> functions of \<open>quickjs.c\<close>). A \<open>JSBigInt\<close> is
  its limb array in two's complement, \<open>len\<close> being the length of the list. An operation returns a value
  or the error it has thrown. The allocator is a parameter: \<open>A k size\<close> says whether the \<open>k\<close>-th allocation
  of an operation is granted.

  \<open>sval\<close> is the integer a limb array stands for and \<open>normalized\<close> the invariant of the type (no redundant
  high limb). The lemmas show that the operations compute the integer operations of ECMAScript on
  \<open>sval\<close>, always in normal form, and fail only for lack of memory or for the size limit.
\<close>

section \<open>Creation and normal form\<close>

datatype bigint_error = TooLarge | DivisionByZero | NoMemory

type_synonym bigint = "limb list"
type_synonym alloc = "nat \<Rightarrow> nat \<Rightarrow> bool"

definition JS_BIGINT_MAX_SIZE :: nat where
  "JS_BIGINT_MAX_SIZE = (1024 * 1024) div 64"

definition js_bigint_bytes :: "nat \<Rightarrow> nat" where
  "js_bigint_bytes len = 8 + len * 8"

text \<open>The limbs of a new \<open>BigInt\<close> are written by the caller.\<close>

definition js_bigint_new :: "alloc \<Rightarrow> nat \<Rightarrow> nat \<Rightarrow> bigint_error + unit" where
  "js_bigint_new A k len =
     (if len > JS_BIGINT_MAX_SIZE then Inl TooLarge
      else if \<not> A k (js_bigint_bytes len) then Inl NoMemory
      else Inr ())"

definition js_bigint_set_si :: "limb \<Rightarrow> bigint" where
  "js_bigint_set_si a = [a]"

definition js_bigint_new_si :: "alloc \<Rightarrow> nat \<Rightarrow> limb \<Rightarrow> bigint_error + bigint" where
  "js_bigint_new_si A k a = (case js_bigint_new A k 1 of Inl e \<Rightarrow> Inl e | Inr _ \<Rightarrow> Inr [a])"

definition js_bigint_new_ui64 :: "alloc \<Rightarrow> nat \<Rightarrow> 64 word \<Rightarrow> bigint_error + bigint" where
  "js_bigint_new_ui64 A k a =
     (if a \<le> 0x7FFFFFFFFFFFFFFF then js_bigint_new_si A k a
      else case js_bigint_new A k 2 of Inl e \<Rightarrow> Inl e | Inr _ \<Rightarrow> Inr [a, 0])"

definition js_bigint_new_di :: "alloc \<Rightarrow> nat \<Rightarrow> dlimb \<Rightarrow> bigint_error + bigint" where
  "js_bigint_new_di A k a =
     (if a = scast (ucast a :: limb) then
        (case js_bigint_new A k 1 of Inl e \<Rightarrow> Inl e | Inr _ \<Rightarrow> Inr [ucast a])
      else
        (case js_bigint_new A k 2 of Inl e \<Rightarrow> Inl e | Inr _ \<Rightarrow> Inr [ucast a, ucast (signed_drop_bit 64 a)]))"

text \<open>The test on a high limb \<open>v\<close> above a limb \<open>x\<close>, in \<open>js_bigint_normalize1\<close> and \<open>js_bigint_extend\<close>.\<close>

definition significant :: "limb \<Rightarrow> limb \<Rightarrow> bool" where
  "significant x v \<longleftrightarrow> (v \<noteq> 0 \<and> v \<noteq> - 1) \<or> v AND 1 \<noteq> drop_bit 63 x"

fun norm_len :: "bigint \<Rightarrow> nat \<Rightarrow> nat" where
  "norm_len a (Suc (Suc l)) = (if significant (a ! l) (a ! Suc l) then Suc (Suc l) else norm_len a (Suc l))"
| "norm_len a l = l"

text \<open>Shrinking the block cannot fail: if \<open>js_realloc\<close> does, the old block is kept.\<close>

definition js_bigint_normalize1 :: "bigint \<Rightarrow> nat \<Rightarrow> bigint" where
  "js_bigint_normalize1 a l = take (norm_len a l) a"

definition js_bigint_normalize :: "bigint \<Rightarrow> bigint" where
  "js_bigint_normalize a = js_bigint_normalize1 a (length a)"

definition js_bigint_sign :: "bigint \<Rightarrow> limb" where
  "js_bigint_sign a = drop_bit 63 (last a)"

definition js_bigint_get_si_sat :: "bigint \<Rightarrow> limb" where
  "js_bigint_get_si_sat a =
     (if length a = 1 then a ! 0
      else if js_bigint_sign a \<noteq> 0 then 0x8000000000000000 else 0x7FFFFFFFFFFFFFFF)"

definition js_bigint_extend :: "alloc \<Rightarrow> nat \<Rightarrow> bigint \<Rightarrow> limb \<Rightarrow> bigint_error + bigint" where
  "js_bigint_extend A k r op1 =
     (if significant (r ! (length r - 1)) op1 then
        (if \<not> A k (js_bigint_bytes (length r + 1)) then Inl NoMemory else Inr (r @ [op1]))
      else Inr (js_bigint_normalize r))"

section \<open>Arithmetic\<close>

text \<open>The three loops of \<open>js_bigint_add\<close> run the same \<open>ADDC\<close> on successive limbs, as \<open>mp_add\<close> does.\<close>

definition js_bigint_add :: "alloc \<Rightarrow> bigint \<Rightarrow> bigint \<Rightarrow> bool \<Rightarrow> bigint_error + bigint" where
  "js_bigint_add A a b b_neg =
     (let n2 = max (length a) (length b); n1 = min (length a) (length b); m = - of_bool b_neg in
      case js_bigint_new A 0 n2 of
        Inl e \<Rightarrow> Inl e
      | Inr _ \<Rightarrow>
          let (lo, carry) = mp_add (take n1 a) (map (\<lambda>y. y XOR m) (take n1 b)) (of_bool b_neg);
              a_sign = - js_bigint_sign a;
              b_sign = (- js_bigint_sign b) XOR m;
              (hi, carry) =
                (if length a > length b then mp_add (drop n1 a) (replicate (n2 - n1) b_sign) carry
                 else if length a < length b then
                   mp_add (replicate (n2 - n1) a_sign) (map (\<lambda>y. y XOR m) (drop n1 b)) carry
                 else ([], carry)) in
          js_bigint_extend A 1 (lo @ hi) (a_sign + b_sign + carry))"

definition js_bigint_neg :: "alloc \<Rightarrow> bigint \<Rightarrow> bigint_error + bigint" where
  "js_bigint_neg A a = js_bigint_add A (js_bigint_set_si 0) a True"

definition js_bigint_mul :: "alloc \<Rightarrow> bigint \<Rightarrow> bigint \<Rightarrow> bigint_error + bigint" where
  "js_bigint_mul A a b =
     (case js_bigint_new A 0 (length a + length b) of
        Inl e \<Rightarrow> Inl e
      | Inr _ \<Rightarrow>
          let r = mp_mul_basecase a b;
              r = (if js_bigint_sign a \<noteq> 0 then take (length a) r @ fst (mp_sub (drop (length a) r) b 0) else r);
              r = (if js_bigint_sign b \<noteq> 0 then take (length b) r @ fst (mp_sub (drop (length b) r) a 0) else r) in
          Inr (js_bigint_normalize r))"

datatype logic_op = OP_or | OP_and | OP_xor

fun limb_op :: "logic_op \<Rightarrow> limb \<Rightarrow> limb \<Rightarrow> limb" where
  "limb_op OP_or x y = x OR y"
| "limb_op OP_and x y = x AND y"
| "limb_op OP_xor x y = x XOR y"

definition js_bigint_logic :: "alloc \<Rightarrow> bigint \<Rightarrow> bigint \<Rightarrow> logic_op \<Rightarrow> bigint_error + bigint" where
  "js_bigint_logic A a b opn =
     (let (a, b) = (if length a < length b then (b, a) else (a, b));
          b_sign = - js_bigint_sign b in
      case js_bigint_new A 0 (length a) of
        Inl e \<Rightarrow> Inl e
      | Inr _ \<Rightarrow>
          Inr (js_bigint_normalize
            (map2 (limb_op opn) (take (length b) a) b @ map (\<lambda>x. limb_op opn x b_sign) (drop (length b) a))))"

definition js_bigint_not :: "alloc \<Rightarrow> bigint \<Rightarrow> bigint_error + bigint" where
  "js_bigint_not A a = (case js_bigint_new A 0 (length a) of Inl e \<Rightarrow> Inl e | Inr _ \<Rightarrow> Inr (map NOT a))"

definition js_bigint_shl :: "alloc \<Rightarrow> bigint \<Rightarrow> 32 word \<Rightarrow> bigint_error + bigint" where
  "js_bigint_shl A a shift1 =
     (if length a = 1 \<and> a ! 0 = 0 then js_bigint_new_si A 0 0
      else
        let d = unat shift1 div 64; shift = unat shift1 mod 64 in
        case js_bigint_new A 0 (length a + d) of
          Inl e \<Rightarrow> Inl e
        | Inr _ \<Rightarrow>
            if shift = 0 then Inr (replicate d 0 @ a)
            else
              let (res, l) = mp_shl a shift;
                  l = (if js_bigint_sign a \<noteq> 0 then l OR push_bit shift (- 1) else l) in
              js_bigint_extend A 1 (replicate d 0 @ res) l)"

definition js_bigint_shr :: "alloc \<Rightarrow> bigint \<Rightarrow> 32 word \<Rightarrow> bigint_error + bigint" where
  "js_bigint_shr A a shift1 =
     (let d = unat shift1 div 64; shift = unat shift1 mod 64; a_sign = js_bigint_sign a in
      if d \<ge> length a then js_bigint_new_si A 0 (- a_sign)
      else
        case js_bigint_new A 0 (length a - d) of
          Inl e \<Rightarrow> Inl e
        | Inr _ \<Rightarrow>
            if shift = 0 then Inr (drop d a)
            else Inr (js_bigint_normalize (fst (mp_shr (drop d a) shift (- a_sign)))))"

text \<open>The loop of \<open>js_bigint_cmp\<close> from the most significant limb down.\<close>

fun cmp_limbs :: "bigint \<Rightarrow> bigint \<Rightarrow> int" where
  "cmp_limbs (x # xs) (y # ys) = (if x \<noteq> y then if x < y then -1 else 1 else cmp_limbs xs ys)"
| "cmp_limbs xs ys = 0"

definition js_bigint_cmp :: "bigint \<Rightarrow> bigint \<Rightarrow> int" where
  "js_bigint_cmp a b =
     (let a_sign = uint (js_bigint_sign a); b_sign = uint (js_bigint_sign b) in
      if a_sign \<noteq> b_sign then 1 - 2 * a_sign
      else if length a \<noteq> length b then (if length a < length b then 2 * a_sign - 1 else 1 - 2 * a_sign)
      else cmp_limbs (rev a) (rev b))"

section \<open>The integer of a limb array\<close>

fun sval :: "bigint \<Rightarrow> int" where
  "sval [] = 0"
| "sval [x] = sint x"
| "sval (x # y # xs) = uint x + 2 ^ 64 * sval (y # xs)"

definition negative :: "bigint \<Rightarrow> bool" where
  "negative a \<longleftrightarrow> bit (last a) 63"

definition normalized :: "bigint \<Rightarrow> bool" where
  "normalized a \<longleftrightarrow> a \<noteq> [] \<and> (length a \<ge> 2 \<longrightarrow> significant (a ! (length a - 2)) (a ! (length a - 1)))"

lemma sval_Cons: "xs \<noteq> [] \<Longrightarrow> sval (x # xs) = uint x + 2 ^ 64 * sval xs"
  by (cases xs) simp_all

lemma sval_append: "ys \<noteq> [] \<Longrightarrow> sval (xs @ ys) = uval xs + base (length xs) * sval ys"
  by (induction xs) (simp_all add: sval_Cons algebra_simps)

lemma sint_limb: "sint (x :: limb) = uint x - (if bit x 63 then 2 ^ 64 else 0)"
proof -
  have "sint x = take_bit 64 (uint x) - 2 ^ 64 * of_bool (bit (uint x) 63)"
    by (simp add: sint_uint signed_take_bit_eq_take_bit_minus)
  moreover have "take_bit 64 (uint x) = uint x" using uint_limb [of x] by (simp add: take_bit_eq_mod)
  ultimately show ?thesis by (simp add: bit_uint_iff)
qed

lemma sval_uval: "a \<noteq> [] \<Longrightarrow> sval a = uval a - (if negative a then base (length a) else 0)"
  by (induction a rule: sval.induct) (simp_all add: sint_limb negative_def)

lemma bit_63: "bit (x :: limb) 63 \<longleftrightarrow> 2 ^ 63 \<le> uint x"
proof -
  have "bit x 63 \<longleftrightarrow> odd (uint x div 2 ^ 63)" using bit_uint_iff [of x 63] by (simp add: bit_iff_odd)
  moreover have "uint x div 2 ^ 63 < 2" by (rule int_div_less) (use uint_limb [of x] in simp_all)
  moreover have "0 \<le> uint x div 2 ^ 63" by (simp add: pos_imp_zdiv_nonneg_iff)
  ultimately have "bit x 63 \<longleftrightarrow> uint x div 2 ^ 63 \<noteq> 0" by (auto simp: odd_iff_mod_2_eq_one)
  also have "\<dots> \<longleftrightarrow> 2 ^ 63 \<le> uint x" using uint_limb [of x] by (simp add: zdiv_eq_0_iff not_less)
  finally show ?thesis .
qed

lemma top_bit: "drop_bit 63 (x :: limb) = of_bool (bit x 63)"
proof (rule bit_word_eqI)
  show "bit (drop_bit 63 x) n \<longleftrightarrow> bit (of_bool (bit x 63) :: limb) n" for n
    by (cases n) (auto simp: bit_simps dest: bit_imp_le_length)
qed

lemma sign_negative [simp]: "js_bigint_sign a = of_bool (negative a)"
  by (simp add: js_bigint_sign_def negative_def top_bit)

text \<open>A high limb is redundant exactly if the limb below it, read as signed, says the same.\<close>

lemma significant_iff: "significant x v \<longleftrightarrow> uint x + 2 ^ 64 * sint v \<noteq> sint x"
proof -
  have v: "sint v = 0 \<longleftrightarrow> v = 0" "sint v = - 1 \<longleftrightarrow> v = - 1"
    by (metis signed_0 sint_word_ariths(8) signed_word_eqI) (metis sint_n1 signed_word_eqI)
  have "(- 1 :: limb) AND 1 = 1" by simp
  then show ?thesis by (cases "bit x 63") (auto simp: significant_def top_bit sint_limb [of x] v)
qed

lemma sval_redundant: "\<not> significant x v \<Longrightarrow> sval (xs @ [x, v]) = sval (xs @ [x])"
  by (simp add: sval_append significant_iff)

lemma norm_len_bounds: "0 < l \<Longrightarrow> 0 < norm_len a l \<and> norm_len a l \<le> l"
  by (induction a l rule: norm_len.induct) auto

lemma sval_norm_len: "0 < l \<Longrightarrow> l \<le> length a \<Longrightarrow> sval (take (norm_len a l) a) = sval (take l a)"
proof (induction a l rule: norm_len.induct)
  case (1 a l)
  have "take (Suc (Suc l)) a = take l a @ [a ! l, a ! Suc l]" "take (Suc l) a = take l a @ [a ! l]"
    using 1(3) by (simp_all add: take_Suc_conv_app_nth)
  then show ?case using 1 sval_redundant [of "a ! l" "a ! Suc l" "take l a"] by simp
qed simp_all

lemma normalized_norm_len: "0 < l \<Longrightarrow> l \<le> length a \<Longrightarrow> normalized (take (norm_len a l) a)"
proof (induction a l rule: norm_len.induct)
  case (1 a l)
  then show ?case by (cases "significant (a ! l) (a ! Suc l)") (auto simp: normalized_def)
qed (auto simp: normalized_def)

lemma normalize1_ok:
  assumes "0 < l" "l \<le> length a"
  shows "normalized (js_bigint_normalize1 a l)" "sval (js_bigint_normalize1 a l) = sval (take l a)"
  using assms by (simp_all add: js_bigint_normalize1_def sval_norm_len normalized_norm_len)

lemma normalize_ok:
  assumes "a \<noteq> []"
  shows "normalized (js_bigint_normalize a)" "sval (js_bigint_normalize a) = sval a"
  using normalize1_ok [of "length a" a] assms by (simp_all add: js_bigint_normalize_def)

lemma extend_ok:
  assumes "r \<noteq> []" "js_bigint_extend A k r op1 = Inr r'"
  shows "normalized r' \<and> sval r' = sval (r @ [op1])"
proof (cases "significant (last r) op1")
  case True
  then have "r' = r @ [op1]" using assms by (auto simp: js_bigint_extend_def last_conv_nth split: if_splits)
  then show ?thesis using True assms(1) by (simp add: normalized_def last_conv_nth nth_append)
next
  case False
  then have "r' = js_bigint_normalize r" using assms by (auto simp: js_bigint_extend_def last_conv_nth)
  moreover have "sval (r @ [op1]) = sval r"
    using sval_redundant [OF False, of "butlast r"] append_butlast_last_id [OF assms(1)] by (metis append.assoc append_Cons append_Nil)
  ultimately show ?thesis using normalize_ok [OF assms(1)] by simp
qed

lemma extend_err: "js_bigint_extend A k r op1 = Inl e \<Longrightarrow> e = NoMemory \<and> (\<exists>s. \<not> A k s)"
  by (auto simp: js_bigint_extend_def split: if_splits)

lemma sval_bounds:
  assumes "a \<noteq> []"
  shows "- base (length a) \<le> 2 * sval a \<and> 2 * sval a < base (length a)"
  using assms
proof (induction a rule: sval.induct)
  case (2 x)
  show ?case using sint_range_size [of x] by (simp add: word_size)
next
  case (3 x y xs)
  define h where "h = 2 ^ 63 * base (length xs)"
  have h: "base (length (y # xs)) = 2 * h" by (simp add: h_def)
  with 3 have "- h \<le> sval (y # xs)" "sval (y # xs) + 1 \<le> h" by auto
  then have "2 ^ 64 * - h \<le> 2 ^ 64 * sval (y # xs)" "2 ^ 64 * (sval (y # xs) + 1) \<le> 2 ^ 64 * h"
    by (intro mult_left_mono; simp)+
  then have "- (2 ^ 64 * h) \<le> sval (x # y # xs)" "sval (x # y # xs) < 2 ^ 64 * h"
    using uint_limb [of x] add_mono [OF uint_limb(1) [of x], of "2 ^ 64 * - h" "2 ^ 64 * sval (y # xs)"] by simp_all
  moreover have "base (length (x # y # xs)) = 2 * (2 ^ 64 * h)" by (simp add: h_def)
  ultimately show ?case by linarith
qed simp

text \<open>A limb array is determined, up to its length, by its integer modulo the size of the array.\<close>

lemma sval_unique:
  assumes "a \<noteq> []" "uval a = v + base (length a) * k" "- base (length a) \<le> 2 * v" "2 * v < base (length a)"
  shows "sval a = v"
proof -
  define B where "B = base (length a)"
  obtain s where s: "sval a = v + B * s"
    using sval_uval [OF assms(1)] assms(2) that [of k] that [of "k - 1"] by (auto simp: B_def algebra_simps split: if_splits)
  have "- B < v - sval a" "v - sval a < B" using sval_bounds [OF assms(1)] assms(3,4) unfolding B_def by linarith+
  then have "B * (- 1) < B * s" "B * s < B * 1" using s by simp_all
  then have "s = 0" unfolding mult_less_cancel_left by (auto simp: B_def)
  then show ?thesis using s by simp
qed

lemma uval_low: "uval (x # xs) mod 2 ^ 64 = uint x"
proof -
  have "uval (x # xs) mod 2 ^ 64 = uint x mod 2 ^ 64" unfolding uval.simps by (rule mod_mult_self2)
  also have "\<dots> = uint x" using uint_limb [of x] by simp
  finally show ?thesis .
qed

lemma uval_inject: "length a = length b \<Longrightarrow> uval a = uval b \<Longrightarrow> a = b"
proof (induction a b rule: list_induct2)
  case (Cons x xs y ys)
  have "uint x = uint y" using uval_low [of x xs] uval_low [of y ys] unfolding Cons(3) by (rule trans [OF sym])
  with Cons show ?case by (simp add: word_uint_eq_iff)
qed simp

text \<open>Between lengths: a normalized number of several limbs is larger in absolute value than any shorter one.\<close>

lemma top_limb_range:
  fixes x s B B2 :: int
  assumes "x + B2 * s \<noteq> (if B \<le> x then x - B2 else x)" "0 \<le> x" "x < B2" "B2 = 2 * B" "0 < B" "s < 0 \<longleftrightarrow> bv"
  shows "if bv then x + B2 * s < - B else B \<le> x + B2 * s"
proof -
  consider "s = - 1" | "s = 0" | "s \<le> - 2" | "1 \<le> s" by linarith
  then show ?thesis
  proof cases
    case 3
    then have "B2 * s \<le> B2 * - 2" using assms(4,5) by (intro mult_left_mono) auto
    then have "x + B2 * s < - B" using assms(3,4,5) by linarith
    then show ?thesis using assms(6) 3 by simp
  next
    case 4
    then have "B2 * 1 \<le> B2 * s" using assms(4,5) by (intro mult_left_mono) auto
    then have "B \<le> x + B2 * s" using assms(2,4,5) by linarith
    then show ?thesis using assms(6) 4 by simp
  qed (use assms in \<open>auto split: if_splits\<close>)
qed

lemma significant_range:
  assumes "significant x v"
  shows "if bit v 63 then uint x + 2 ^ 64 * sint v < - (2 ^ 63) else 2 ^ 63 \<le> uint x + 2 ^ 64 * sint v"
proof (rule top_limb_range)
  have "sint x = (if 2 ^ 63 \<le> uint x then uint x - 2 ^ 64 else uint x)"
    unfolding sint_limb bit_63 by (cases "2 ^ 63 \<le> uint x") simp_all
  then show "uint x + 2 ^ 64 * sint v \<noteq> (if 2 ^ 63 \<le> uint x then uint x - 2 ^ 64 else uint x)"
    using assms unfolding significant_iff by simp
  show "sint v < 0 \<longleftrightarrow> bit v 63" using uint_limb [of v] by (simp add: sint_limb)
qed (use uint_limb [of x] in simp_all)

lemma normalized_range:
  assumes "normalized a" "length a = Suc (Suc n)"
  shows "if negative a then 2 * sval a < - base (Suc n) else base (Suc n) \<le> 2 * sval a"
proof -
  define xs x v where a: "xs = take n a" "x = a ! n" "v = a ! Suc n"
  have a': "a = xs @ [x, v]" "length xs = n" using assms(2) id_take_nth_drop [of n a] by (simp_all add: a Cons_nth_drop_Suc [symmetric])
  then have s: "significant x v" using assms(1) by (simp add: normalized_def nth_append)
  define y where "y = uint x + 2 ^ 64 * sint v"
  have v: "sval a = uval xs + base n * y" using a' by (simp add: sval_append y_def algebra_simps)
  have u: "0 \<le> uval xs" "uval xs < base n" using uval_bounds [of xs] a' by simp_all
  show ?thesis
  proof (cases "negative a")
    case True
    then have "y + 1 \<le> - (2 ^ 63)" using significant_range [OF s] by (simp add: negative_def y_def a')
    then have "base n * (y + 1) \<le> base n * - (2 ^ 63)" by (intro mult_left_mono) simp_all
    then have "sval a < - (base n * 2 ^ 63)" unfolding v using u(2) by (simp add: algebra_simps)
    then show ?thesis using True by simp
  next
    case False
    then have "2 ^ 63 \<le> y" using significant_range [OF s] by (simp add: negative_def y_def a')
    then have "base n * 2 ^ 63 \<le> base n * y" by (intro mult_left_mono) simp_all
    then have "base n * 2 ^ 63 \<le> sval a" unfolding v using u(1) by linarith
    then show ?thesis using False by simp
  qed
qed

lemma negative_iff: "a \<noteq> [] \<Longrightarrow> negative a \<longleftrightarrow> sval a < 0"
  using uval_nonneg [of a] uval_less [of a] unfolding sval_uval by (auto simp: sval_uval not_less)

section \<open>Addition and negation\<close>

definition sext :: "nat \<Rightarrow> bigint \<Rightarrow> bigint" where
  "sext n a = a @ replicate (n - length a) (- of_bool (negative a))"

lemma uval_replicate [simp]: "uval (replicate k 0) = 0" "uval (replicate k (- 1)) = base k - 1"
  by (induction k) (simp_all add: unsigned_minus_1_eq_mask mask_eq_exp_minus_1)

lemma length_sext [simp]: "length a \<le> n \<Longrightarrow> length (sext n a) = n"
  by (simp add: sext_def)

lemma uval_sext:
  assumes "a \<noteq> []" "length a \<le> n"
  shows "uval (sext n a) = sval a + base n * of_bool (negative a)"
  using assms base_add [of "length a" "n - length a"] by (simp add: sext_def sval_uval algebra_simps)

lemma sval_map_not: "a \<noteq> [] \<Longrightarrow> sval (map NOT a) = - 1 - sval a"
proof (induction a rule: sval.induct)
  case (2 x)
  then show ?case by (simp add: sint_limb bit_simps)
qed simp_all

lemma negative_map_not: "a \<noteq> [] \<Longrightarrow> negative (map NOT a) \<longleftrightarrow> \<not> negative a"
  by (simp add: negative_def last_map bit_simps)

lemma mp_add_append:
  assumes "length a1 = length b1"
  shows "mp_add (a1 @ a2) (b1 @ b2) c = (let (lo, c) = mp_add a1 b1 c; (hi, c) = mp_add a2 b2 c in (lo @ hi, c))"
  using assms by (induction a1 b1 arbitrary: c rule: list_induct2) (simp_all add: split_def Let_def)

lemma add_loops:
  assumes "a \<noteq> []" "b \<noteq> []" "n1 = min (length a) (length b)" "n2 = max (length a) (length b)"
    "mp_add (take n1 a) (take n1 b) c = (lo, c1)"
    "(if length a > length b then mp_add (drop n1 a) (replicate (n2 - n1) (- of_bool (negative b))) c1
      else if length a < length b then mp_add (replicate (n2 - n1) (- of_bool (negative a))) (drop n1 b) c1
      else ([], c1)) = (hi, c2)"
  shows "mp_add (sext n2 a) (sext n2 b) c = (lo @ hi, c2)"
proof -
  consider "length a > length b" | "length a < length b" | "length a = length b" by linarith
  then show ?thesis
  proof cases
    case 1
    then have "sext n2 a = take n1 a @ drop n1 a" "sext n2 b = take n1 b @ replicate (n2 - n1) (- of_bool (negative b))"
      using assms by (simp_all add: sext_def)
    then have "mp_add (sext n2 a) (sext n2 b) c = (let (lo, c) = mp_add (take n1 a) (take n1 b) c;
        (hi, c) = mp_add (drop n1 a) (replicate (n2 - n1) (- of_bool (negative b))) c in (lo @ hi, c))"
      using assms(3) by (simp only: mp_add_append length_take)
    then show ?thesis using 1 assms(5,6) by simp
  next
    case 2
    then have "sext n2 b = take n1 b @ drop n1 b" "sext n2 a = take n1 a @ replicate (n2 - n1) (- of_bool (negative a))"
      using assms by (simp_all add: sext_def)
    then have "mp_add (sext n2 a) (sext n2 b) c = (let (lo, c) = mp_add (take n1 a) (take n1 b) c;
        (hi, c) = mp_add (replicate (n2 - n1) (- of_bool (negative a))) (drop n1 b) c in (lo @ hi, c))"
      using assms(3) by (simp only: mp_add_append length_take)
    then show ?thesis using 2 assms(5,6) by simp
  next
    case 3
    then show ?thesis using assms by (simp add: sext_def)
  qed
qed

lemma carry_cases: "uint (c :: limb) \<le> 1 \<Longrightarrow> c = 0 \<or> c = 1"
proof -
  assume "uint c \<le> 1"
  then have "uint c = 0 \<or> uint c = 1" using uint_limb(1) [of c] by linarith
  then show ?thesis by (simp add: word_uint_eq_iff)
qed

lemma sint_carry: "uint (c :: limb) \<le> 1 \<Longrightarrow> sint (- of_bool p + - of_bool q + c) = uint c - of_bool p - of_bool q"
  by (drule carry_cases) (auto simp: sint_n1)

lemma add_limbs:
  assumes "a \<noteq> []" "b \<noteq> []" "n = max (length a) (length b)" "mp_add (sext n a) (sext n b) k = (r, c)" "uint k \<le> 1"
  shows "sval (r @ [- of_bool (negative a) + - of_bool (negative b) + c]) = sval a + sval b + uint k \<and> r \<noteq> []"
proof -
  have "uval r + base n * uint c = uval (sext n a) + uval (sext n b) + uint k" "uint c \<le> 1" "length r = n"
    using mp_add_uval [OF assms(4) _ assms(5)] assms(3) by simp_all
  moreover define h where "h = - of_bool (negative a) + - of_bool (negative b) + c"
  ultimately have "sint h = uint c - of_bool (negative a) - of_bool (negative b)" by (simp only: sint_carry)
  moreover have "sval (r @ [h]) = uval r + base n * sint h" using \<open>length r = n\<close> by (simp add: sval_append)
  ultimately have "sval (r @ [h]) = uval r + base n * uint c - base n * of_bool (negative a) - base n * of_bool (negative b)"
    by (simp only: right_diff_distrib)
  then have "sval (r @ [h]) = sval a + sval b + uint k"
    using assms(1,2,3) \<open>uval r + _ = _\<close> by (simp add: uval_sext)
  moreover have "r \<noteq> []" using assms(1,3) \<open>length r = n\<close> by (cases r) auto
  ultimately show ?thesis unfolding h_def by (rule conjI)
qed

text \<open>Complementing every limb, or none, as the \<open>XOR\<close> with \<open>-b_neg\<close> does.\<close>

lemma xor_mask:
  assumes "b \<noteq> []"
  shows "sval (map (\<lambda>y. y XOR - of_bool p) b) = (if p then - 1 - sval b else sval b)"
    and "(- of_bool (negative b)) XOR - of_bool p = - (of_bool (negative (map (\<lambda>y. y XOR - of_bool p) b)) :: limb)"
proof -
  have "map (\<lambda>y. y XOR - of_bool p) b = (if p then map NOT b else b)" by (auto intro: map_idI)
  then show "sval (map (\<lambda>y. y XOR - of_bool p) b) = (if p then - 1 - sval b else sval b)"
    "(- of_bool (negative b)) XOR - of_bool p = - (of_bool (negative (map (\<lambda>y. y XOR - of_bool p) b)) :: limb)"
    using sval_map_not [OF assms] negative_map_not [OF assms] by auto
qed

definition failed :: "alloc \<Rightarrow> nat \<Rightarrow> bigint_error \<Rightarrow> bool" where
  "failed A n e \<longleftrightarrow> e = TooLarge \<and> JS_BIGINT_MAX_SIZE < n \<or> e = NoMemory \<and> (\<exists>k s. \<not> A k s)"

lemma failed_mono: "failed A m e \<Longrightarrow> m \<le> n \<Longrightarrow> failed A n e"
  unfolding failed_def by (blast intro: less_le_trans)

lemma new_cases:
  "js_bigint_new A k n = Inr () \<or> (\<exists>e. js_bigint_new A k n = Inl e \<and> failed A n e)"
  by (auto simp: js_bigint_new_def failed_def)

lemma new_si_ok: "case js_bigint_new_si A k x of Inr r \<Rightarrow> r = [x] | Inl e \<Rightarrow> failed A n e"
proof -
  have "js_bigint_new_si A k x = (if A k (js_bigint_bytes 1) then Inr [x] else Inl NoMemory)"
    by (simp add: js_bigint_new_si_def js_bigint_new_def JS_BIGINT_MAX_SIZE_def)
  then show ?thesis by (auto simp: failed_def)
qed

lemma add_ok:
  assumes "a \<noteq> []" "b \<noteq> []"
  shows "case js_bigint_add A a b p of
      Inr r \<Rightarrow> normalized r \<and> sval r = sval a + (if p then - sval b else sval b)
    | Inl e \<Rightarrow> failed A (max (length a) (length b)) e"
proof -
  define n1 n2 bx where n: "n1 = min (length a) (length b)" "n2 = max (length a) (length b)" and bx: "bx = map (\<lambda>y. y XOR - of_bool p) b"
  have lb: "length bx = length b" "bx \<noteq> []" using assms(2) by (simp_all add: bx)
  obtain lo c1 where lo: "mp_add (take n1 a) (take n1 bx) (of_bool p) = (lo, c1)" by fastforce
  obtain hi c2 where hi: "(if length a > length bx then mp_add (drop n1 a) (replicate (n2 - n1) (- of_bool (negative bx))) c1
      else if length a < length bx then mp_add (replicate (n2 - n1) (- of_bool (negative a))) (drop n1 bx) c1
      else ([], c1)) = (hi, c2)" by fastforce
  define h where "h = - of_bool (negative a) + - of_bool (negative bx) + c2"
  have loops: "mp_add (sext n2 a) (sext n2 bx) (of_bool p) = (lo @ hi, c2)"
    by (rule add_loops [OF assms(1) lb(2) _ _ lo hi]) (simp_all add: n lb)
  have v: "sval ((lo @ hi) @ [h]) = sval a + sval bx + of_bool p \<and> lo @ hi \<noteq> []"
    using add_limbs [OF assms(1) lb(2) _ loops] unfolding h_def n lb by simp
  have t: "map (\<lambda>y. y XOR - of_bool p) (take n1 b) = take n1 bx" "map (\<lambda>y. y XOR - of_bool p) (drop n1 b) = drop n1 bx"
    by (simp_all add: bx take_map drop_map)
  have add: "js_bigint_add A a b p = (case js_bigint_new A 0 n2 of Inl e \<Rightarrow> Inl e | Inr _ \<Rightarrow> js_bigint_extend A 1 (lo @ hi) h)"
    unfolding js_bigint_add_def Let_def n [symmetric] sign_negative xor_mask(2) [OF assms(2)] t bx [symmetric] h_def
    by (simp only: lo prod.case hi [unfolded lb])
  show ?thesis
  proof (cases "js_bigint_add A a b p")
    case (Inl e)
    then show ?thesis using new_cases [of A 0 n2] extend_err [of A 1 "lo @ hi" h e] by (auto simp: add n failed_def)
  next
    case (Inr r)
    then have "js_bigint_extend A 1 (lo @ hi) h = Inr r" using new_cases [of A 0 n2] by (auto simp: add)
    from extend_ok [OF _ this] v have "normalized r" "sval r = sval a + sval bx + of_bool p" by simp_all
    then show ?thesis using Inr xor_mask(1) [OF assms(2), of p] by (simp add: bx)
  qed
qed

section \<open>Multiplication\<close>

lemma mp_sub_at:
  assumes "length r = l + length b" "r' = take l r @ fst (mp_sub (drop l r) b 0)"
  shows "\<exists>k. uval r' = uval r - base l * uval b + base (length r) * k \<and> length r' = length r"
proof -
  obtain res c where m: "mp_sub (drop l r) b 0 = (res, c)" by fastforce
  have "uval res = uval (drop l r) - uval b + base (length b) * uint c \<and> length res = length b"
    using mp_sub_uval [OF m] assms(1) by auto
  moreover have "uval r = uval (take l r) + base l * uval (drop l r)"
    using uval_append [of "take l r" "drop l r"] assms(1) by simp
  moreover have "uval r' = uval (take l r) + base l * uval res" using assms by (simp add: m)
  ultimately have "uval r' = uval r - base l * uval b + base (length r) * uint c" "length r' = length r"
    using assms by (simp_all add: m base_add distrib_left right_diff_distrib)
  then show ?thesis by blast
qed

lemma product_bounds:
  assumes "- p \<le> 2 * a" "2 * a < p" "- q \<le> 2 * b" "2 * b < q" "0 < p" "0 < q"
  shows "- (p * q) \<le> 2 * (a * b) \<and> 2 * (a * b) < p * (q :: int)"
proof -
  have "\<bar>2 * a\<bar> \<le> p" "\<bar>2 * b\<bar> \<le> q" using assms by auto
  then have "\<bar>2 * a\<bar> * \<bar>2 * b\<bar> \<le> p * q" using assms(5) by (intro mult_mono) simp_all
  then have "4 * \<bar>a * b\<bar> \<le> p * q" by (simp add: abs_mult)
  moreover have "0 < p * q" using assms(5,6) by simp
  ultimately show ?thesis by (auto simp: abs_le_iff)
qed

lemma mul_ok:
  assumes "a \<noteq> []" "b \<noteq> []"
  shows "case js_bigint_mul A a b of
      Inr r \<Rightarrow> normalized r \<and> sval r = sval a * sval b
    | Inl e \<Rightarrow> failed A (length a + length b) e"
proof -
  define n where "n = length a + length b"
  define r0 where "r0 = mp_mul_basecase a b"
  define r1 where "r1 = (if negative a then take (length a) r0 @ fst (mp_sub (drop (length a) r0) b 0) else r0)"
  define r2 where "r2 = (if negative b then take (length b) r1 @ fst (mp_sub (drop (length b) r1) a 0) else r1)"
  have r0: "uval r0 = uval a * uval b" "length r0 = n" using mp_mul_basecase_uval [OF assms(2)] by (simp_all add: r0_def n_def)
  obtain k where r1: "uval r1 = uval r0 - (if negative a then base (length a) * uval b else 0) + base n * k" "length r1 = n"
  proof (cases "negative a")
    case True
    then show ?thesis using mp_sub_at [of r0 "length a" b r1] r0(2) that by (auto simp: r1_def n_def)
  qed (use r0 that [of 0] in \<open>auto simp: r1_def\<close>)
  obtain j where r2: "uval r2 = uval r1 - (if negative b then base (length b) * uval a else 0) + base n * j" "length r2 = n"
  proof (cases "negative b")
    case True
    then show ?thesis using mp_sub_at [of r1 "length b" a r2] r1(2) that by (auto simp: r2_def n_def)
  qed (use r1(2) that [of 0] in \<open>auto simp: r2_def\<close>)
  have "uval r2 = sval a * sval b + base n * (k + j - of_bool (negative a) * of_bool (negative b))"
    unfolding r2(1) r1(1) r0(1) using assms
    by (cases "negative a"; cases "negative b") (simp_all add: sval_uval n_def base_add algebra_simps)
  moreover have "- base n \<le> 2 * (sval a * sval b)" "2 * (sval a * sval b) < base n"
    using product_bounds [of "base (length a)" "sval a" "base (length b)" "sval b"] sval_bounds [OF assms(1)] sval_bounds [OF assms(2)]
    by (simp_all add: n_def base_add)
  moreover have ne: "r2 \<noteq> []" using r2(2) assms(1) by (auto simp: n_def)
  ultimately have "sval r2 = sval a * sval b" using sval_unique [OF ne] r2(2) by simp
  moreover have "js_bigint_mul A a b = (case js_bigint_new A 0 n of Inl e \<Rightarrow> Inl e | Inr _ \<Rightarrow> Inr (js_bigint_normalize r2))"
    unfolding js_bigint_mul_def Let_def n_def r0_def r1_def r2_def sign_negative of_bool_eq_0_iff not_not ..
  ultimately show ?thesis using new_cases [of A 0 n] normalize_ok [OF ne] by (auto simp: n_def)
qed

section \<open>Bitwise operations\<close>

lemma sval_sext:
  assumes "a \<noteq> []" "length a \<le> n"
  shows "sval (sext n a) = sval a"
proof (rule sval_unique)
  have "base (length a) \<le> base n" using assms(2) by (simp add: base_def power_increasing)
  then show "- base (length (sext n a)) \<le> 2 * sval a" "2 * sval a < base (length (sext n a))"
    using sval_bounds [OF assms(1)] assms(2) by auto
qed (use assms uval_sext [OF assms] in \<open>auto simp: sext_def\<close>)

fun int_op :: "logic_op \<Rightarrow> int \<Rightarrow> int \<Rightarrow> int" where
  "int_op OP_or x y = x OR y"
| "int_op OP_and x y = x AND y"
| "int_op OP_xor x y = x XOR y"

lemma concat_limb: "uint (x :: limb) + 2 ^ 64 * s = concat_bit 64 (uint x) s"
  using uint_limb [of x] by (simp add: concat_bit_eq take_bit_eq_mod push_bit_eq_mult)

lemma int_op_limb: "uint (limb_op f x y) + 2 ^ 64 * int_op f s t = int_op f (uint x + 2 ^ 64 * s) (uint y + 2 ^ 64 * t)"
  unfolding concat_limb
  by (cases f) (auto intro!: bit_eqI simp: bit_simps bit_concat_bit_iff unsigned_or_eq unsigned_and_eq unsigned_xor_eq)

lemma int_op_sint: "sint (limb_op f x y) = int_op f (sint x) (sint y)"
  by (cases f) (simp_all add: signed_or_eq signed_and_eq signed_xor_eq)

lemma sval_map2:
  assumes "length a = length b"
  shows "sval (map2 (limb_op f) a b) = (if a = [] then 0 else int_op f (sval a) (sval b))"
  using assms
proof (induction a b rule: list_induct2)
  case (Cons x xs y ys)
  then show ?case by (cases xs; cases ys) (simp_all add: int_op_limb [simplified] int_op_sint)
qed simp

lemma int_op_commute: "int_op f x y = int_op f y x"
  by (cases f) (simp_all add: ac_simps)

lemma logic_limbs:
  assumes "b \<noteq> []" "length b \<le> length a"
  shows "sval (map2 (limb_op f) (take (length b) a) b @ map (\<lambda>x. limb_op f x (- of_bool (negative b))) (drop (length b) a)) =
    int_op f (sval a) (sval b)"
proof -
  have "map2 (limb_op f) xs (replicate (length xs) y) = map (\<lambda>x. limb_op f x y) xs" for xs y
    by (induction xs) simp_all
  from this [of "drop (length b) a"]
  have "map2 (limb_op f) a (sext (length a) b) =
      map2 (limb_op f) (take (length b) a) b @ map (\<lambda>x. limb_op f x (- of_bool (negative b))) (drop (length b) a)"
    using zip_append [of "take (length b) a" b "drop (length b) a"] assms(2) unfolding sext_def by simp
  then show ?thesis using sval_map2 [of a "sext (length a) b" f] sval_sext [OF assms] assms by auto
qed

lemma logic_ok:
  assumes "a \<noteq> []" "b \<noteq> []"
  shows "case js_bigint_logic A a b f of
      Inr r \<Rightarrow> normalized r \<and> sval r = int_op f (sval a) (sval b)
    | Inl e \<Rightarrow> failed A (max (length a) (length b)) e"
proof -
  define x y where "x = (if length a < length b then b else a)" "y = (if length a < length b then a else b)"
  note xy = this
  define r where "r = map2 (limb_op f) (take (length y) x) y @ map (\<lambda>v. limb_op f v (- of_bool (negative y))) (drop (length y) x)"
  have y: "y \<noteq> []" "length y \<le> length x" "length x = max (length a) (length b)" using assms by (simp_all add: xy)
  have "sval r = int_op f (sval a) (sval b)"
    using logic_limbs [OF y(1,2), of f] int_op_commute [of f "sval a" "sval b"] by (auto simp: r_def xy)
  moreover have ne: "r \<noteq> []" using y by (auto simp: r_def)
  moreover have "(if length a < length b then (b, a) else (a, b)) = (x, y)" by (simp add: xy)
  then have "js_bigint_logic A a b f = (case js_bigint_new A 0 (length x) of Inl e \<Rightarrow> Inl e | Inr _ \<Rightarrow> Inr (js_bigint_normalize r))"
    unfolding js_bigint_logic_def r_def by (simp only: prod.case Let_def sign_negative)
  ultimately show ?thesis using new_cases [of A 0 "length x"] normalize_ok [OF ne] y(3) by auto
qed

lemma significant_not: "significant (NOT x) (NOT v) \<longleftrightarrow> significant x v"
proof -
  have "sint (NOT z) = - 1 - sint z" for z :: limb by (simp add: sint_limb bit_simps)
  then show ?thesis by (auto simp: significant_iff)
qed

lemma not_ok:
  assumes "normalized a"
  shows "case js_bigint_not A a of Inr r \<Rightarrow> normalized r \<and> sval r = - 1 - sval a | Inl e \<Rightarrow> failed A (length a) e"
proof -
  have "a \<noteq> []" "normalized (map NOT a)" using assms by (auto simp: normalized_def significant_not)
  then show ?thesis using new_cases [of A 0 "length a"] sval_map_not by (auto simp: js_bigint_not_def)
qed

section \<open>Shifts\<close>

text \<open>A shift by \<open>d\<close> whole limbs and \<open>s\<close> bits.\<close>

lemma shift_split: "(2 :: int) ^ k = base (k div 64) * 2 ^ (k mod 64)"
  unfolding base_def power_mult [symmetric] power_add [symmetric] by simp

lemma shl_limbs:
  assumes "a \<noteq> []" "mp_shl a s = (res, h)" "0 < s" "s < 64"
  shows "sval (res @ [if negative a then h OR push_bit s (- 1) else h]) = 2 ^ s * sval a \<and> res \<noteq> []"
proof -
  define l where "l = (if negative a then h OR push_bit s (- 1) else h)"
  have r: "uval res + base (length a) * uint h = 2 ^ s * uval a" "uint h < 2 ^ s" "length res = length a"
    using mp_shl_loop_uval [of a s 0 res h] assms by (simp_all add: mp_shl_def)
  have hi: "(2 :: int) ^ s \<le> 2 ^ 63" using assms(4) by (intro power_increasing) simp_all
  have e: "(2 :: int) ^ 64 = 2 ^ s * 2 ^ (64 - s)" using assms(4) by (simp only: power_add [symmetric]) simp
  have "uint (- 1 :: limb) mod 2 ^ (64 - s) = 2 ^ (64 - s) - 1" using assms(3)
    by (simp add: unsigned_minus_1_eq_mask take_bit_eq_mod [symmetric] min_def) (simp add: mask_eq_exp_minus_1)
  then have m: "uint (push_bit s (- 1 :: limb)) = 2 ^ 64 - 2 ^ s"
    unfolding e uint_shl [OF less_imp_le [OF assms(4)]] by (simp add: right_diff_distrib)
  have "uint (push_bit s (- 1) OR h) = 2 ^ 64 - 2 ^ s + uint h"
    using uint_or_low [OF r(2), of "push_bit s (- 1)"] m uint_shl [of s "- 1"] assms(4) by simp
  then have neg: "uint (h OR push_bit s (- 1)) = 2 ^ 64 - 2 ^ s + uint h" by (simp only: or.commute)
  have "sint l = uint h - (if negative a then 2 ^ s else 0)"
  proof (cases "negative a")
    case True
    have "(2 :: int) ^ 63 \<le> 2 ^ 64 - 2 ^ s" using hi by simp
    then have "(2 :: int) ^ 63 \<le> 2 ^ 64 - 2 ^ s + uint h" by (rule order_trans) simp
    then show ?thesis using True unfolding l_def sint_limb bit_63 by (simp only: if_True neg)
  next
    case False
    then show ?thesis using r(2) hi by (simp add: l_def sint_limb bit_63)
  qed
  moreover have "sval (res @ [l]) = uval res + base (length a) * sint l" using r(3) by (simp add: sval_append)
  ultimately have "sval (res @ [l]) = 2 ^ s * uval a - base (length a) * (if negative a then 2 ^ s else 0)"
    using r(1) by (simp only: right_diff_distrib)
  then have "sval (res @ [l]) = 2 ^ s * sval a" unfolding sval_uval [OF assms(1)] by (simp add: right_diff_distrib)
  then show ?thesis using r(3) assms(1) unfolding l_def by auto
qed

lemma normalized_shift:
  assumes "normalized a" "a \<noteq> [0]"
  shows "normalized (replicate d 0 @ a)"
proof (cases "length a = 1")
  case True
  then obtain x where "a = [x]" "x \<noteq> 0" using assms(2) by (cases a) auto
  then have "significant 0 x" by (auto simp: significant_def)
  then show ?thesis using \<open>a = [x]\<close> by (auto simp: normalized_def nth_append)
next
  case False
  then have "length a \<ge> 2" using assms(1) by (cases a) (auto simp: normalized_def Suc_le_eq)
  then have "(replicate d 0 @ a) ! (d + length a - 2) = a ! (length a - 2)" "(replicate d 0 @ a) ! (d + length a - 1) = a ! (length a - 1)"
    using nth_append_length_plus [of "replicate d 0" a] by (simp_all only: length_replicate add_diff_assoc [symmetric])
  then show ?thesis using assms(1) \<open>length a \<ge> 2\<close> by (simp add: normalized_def)
qed

lemma shl_ok:
  assumes "normalized a"
  shows "case js_bigint_shl A a k of
      Inr r \<Rightarrow> normalized r \<and> sval r = sval a * 2 ^ unat k
    | Inl e \<Rightarrow> failed A (length a + unat k div 64) e"
proof (cases "a = [0]")
  case True
  then show ?thesis using new_si_ok [where A = A and k = 0 and x = 0 and n = "length a + unat k div 64"]
    by (auto simp: js_bigint_shl_def normalized_def split: sum.splits)
next
  case False
  define d s where ds: "d = unat k div 64" "s = unat k mod 64"
  have a: "a \<noteq> []" using assms by (simp add: normalized_def)
  have k: "(2 :: int) ^ unat k = base d * 2 ^ s" unfolding ds by (rule shift_split)
  have nz: "\<not> (length a = 1 \<and> a ! 0 = 0)" using False by (cases a) auto
  obtain res h where m: "mp_shl a s = (res, h)" by fastforce
  define l where "l = (if negative a then h OR push_bit s (- 1) else h)"
  have e: "js_bigint_shl A a k = (case js_bigint_new A 0 (length a + d) of Inl e \<Rightarrow> Inl e
      | Inr _ \<Rightarrow> if s = 0 then Inr (replicate d 0 @ a) else js_bigint_extend A 1 (replicate d 0 @ res) l)"
    unfolding js_bigint_shl_def if_not_P [OF nz] ds [symmetric] Let_def m prod.case sign_negative of_bool_eq_0_iff not_not l_def ..
  show ?thesis
  proof (cases "js_bigint_shl A a k")
    case (Inl err)
    then show ?thesis using e new_cases [of A 0 "length a + d"] extend_err [of A 1 "replicate d 0 @ res" l err]
      by (auto simp: ds failed_def split: if_splits)
  next
    case (Inr r)
    show ?thesis
    proof (cases "s = 0")
      case True
      then have "r = replicate d 0 @ a" using Inr e new_cases [of A 0 "length a + d"] by auto
      moreover have "normalized (replicate d 0 @ a)" using assms False by (rule normalized_shift)
      ultimately show ?thesis using Inr True k a by (simp add: sval_append)
    next
      case s: False
      then have x: "js_bigint_extend A 1 (replicate d 0 @ res) l = Inr r" using Inr e new_cases [of A 0 "length a + d"] by auto
      have "s < 64" by (simp add: ds)
      with shl_limbs [OF a m] s have v: "sval (res @ [l]) = 2 ^ s * sval a \<and> res \<noteq> []" by (simp add: l_def)
      from extend_ok [OF _ x] v have "normalized r \<and> sval r = sval (replicate d 0 @ (res @ [l]))" by simp
      moreover have "sval (replicate d 0 @ (res @ [l])) = base d * (2 ^ s * sval a)" using v by (subst sval_append) simp_all
      ultimately show ?thesis using Inr k by simp
    qed
  qed
qed

lemma int_div_ge:
  fixes a b c :: int
  assumes "c * b \<le> a" "0 < b"
  shows "c \<le> a div b"
  using zdiv_mono1 [OF assms] assms(2) by simp

lemma sval_drop:
  assumes "d < length a"
  shows "sval (drop d a) = sval a div base d" "negative (drop d a) \<longleftrightarrow> negative a"
proof -
  have "sval a = uval (take d a) + base d * sval (drop d a)"
    using sval_append [of "drop d a" "take d a"] assms by simp
  moreover have "0 \<le> uval (take d a)" "uval (take d a) < base d" using uval_bounds [of "take d a"] assms by auto
  ultimately show "sval (drop d a) = sval a div base d" by simp
  show "negative (drop d a) \<longleftrightarrow> negative a" using assms by (simp add: negative_def)
qed

lemma shr_limbs:
  assumes "a \<noteq> []" "mp_shr a s (- of_bool (negative a)) = (res, l)" "0 < s" "s < 64"
  shows "sval res = sval a div 2 ^ s \<and> res \<noteq> []"
proof -
  define n where "n = length a"
  obtain l' where m: "mp_shr_loop a s (- of_bool (negative a)) = (res, l')"
    using assms(2) by (auto simp: mp_shr_def split: prod.splits)
  have "uint (- 1 :: limb) mod 2 ^ s = 2 ^ s - 1" using assms(4)
    by (simp add: unsigned_minus_1_eq_mask take_bit_eq_mod [symmetric] min_def) (simp add: mask_eq_exp_minus_1)
  then have "2 ^ s * uval res + uint l' mod 2 ^ s = uval a + base n * (if negative a then 2 ^ s - 1 else 0)"
    and len: "length res = n"
    using mp_shr_loop_uval [OF m assms(3)] assms(4) by (auto simp: n_def)
  then have e: "sval a = 2 ^ s * (uval res - base n * of_bool (negative a)) + uint l' mod 2 ^ s"
    using sval_uval [OF assms(1)] by (cases "negative a") (simp_all add: n_def algebra_simps)
  have u: "uval res = sval a div 2 ^ s + base n * of_bool (negative a)" unfolding e by simp
  define H where "H = 2 ^ 63 * base (n - 1)"
  have H: "base n = 2 * H" "0 < H" using assms(1) base_simps(2) [of "n - 1"] by (simp_all add: H_def n_def)
  have p: "(0 :: int) < 2 ^ s" by simp
  have "H * 1 \<le> H * 2 ^ s" using H(2) by (intro mult_left_mono) simp_all
  moreover have "- H \<le> sval a" "sval a < H" using sval_bounds [OF assms(1)] H(1) unfolding n_def by linarith+
  ultimately have "- H * 2 ^ s \<le> sval a" "sval a < H * 2 ^ s" by linarith+
  then have "- H \<le> sval a div 2 ^ s" "sval a div 2 ^ s < H"
    using int_div_ge [OF _ p] int_div_less [OF _ p] by blast+
  moreover have ne: "res \<noteq> []" using len assms(1) by (auto simp: n_def)
  ultimately show ?thesis using sval_unique [OF ne, of "sval a div 2 ^ s"] u len H(1) by simp
qed

lemma shr_ok:
  assumes "normalized a"
  shows "case js_bigint_shr A a k of
      Inr r \<Rightarrow> normalized r \<and> sval r = sval a div 2 ^ unat k
    | Inl e \<Rightarrow> failed A (length a) e"
proof -
  define d s where ds: "d = unat k div 64" "s = unat k mod 64"
  have a: "a \<noteq> []" using assms by (simp add: normalized_def)
  have k: "(2 :: int) ^ unat k = base d * 2 ^ s" unfolding ds by (rule shift_split)
  show ?thesis
  proof (cases "length a \<le> d")
    case True
    have "base (length a) \<le> 2 ^ unat k" using True unfolding k base_def
      by (metis mult.right_neutral mult_mono one_le_numeral one_le_power power_increasing zero_le_numeral zero_le_power zero_le_one)
    then have "sval a div 2 ^ unat k = - of_bool (negative a)"
      using sval_bounds [OF a] negative_iff [OF a] int_div_ge [of "- 1" "2 ^ unat k" "sval a"] int_div_less [of "sval a" 0 "2 ^ unat k"]
      by (auto intro!: div_pos_pos_trivial order.antisym)
    then show ?thesis using new_si_ok [where A = A and k = 0 and x = "- of_bool (negative a)" and n = "length a"] True
      by (auto simp: js_bigint_shr_def Let_def ds normalized_def sint_n1 split: sum.splits)
  next
    case False
    then have d: "d < length a" by simp
    obtain res l where m: "mp_shr (drop d a) s (- of_bool (negative a)) = (res, l)" by fastforce
    have e: "js_bigint_shr A a k = (case js_bigint_new A 0 (length a - d) of Inl e \<Rightarrow> Inl e
        | Inr _ \<Rightarrow> if s = 0 then Inr (drop d a) else Inr (js_bigint_normalize res))"
      unfolding js_bigint_shr_def Let_def ds [symmetric] if_not_P [OF False] sign_negative m fst_conv ..
    have new: "js_bigint_new A 0 (length a - d) = Inr () \<or> (\<exists>e. js_bigint_new A 0 (length a - d) = Inl e \<and> failed A (length a) e)"
      using new_cases [of A 0 "length a - d"] failed_mono [of A "length a - d" _ "length a"] by (metis diff_le_self)
    have q: "sval a div 2 ^ unat k = sval (drop d a) div 2 ^ s" unfolding k sval_drop(1) [OF d] by (simp add: zdiv_zmult2_eq)
    show ?thesis
    proof (cases "s = 0")
      case True
      have "normalized (drop d a)" using assms d by (auto simp: normalized_def)
      then show ?thesis using e True q new by auto
    next
      case s: False
      have "s < 64" by (simp add: ds)
      with shr_limbs [of "drop d a" s res l] m s d have "sval res = sval (drop d a) div 2 ^ s \<and> res \<noteq> []"
        by (simp add: sval_drop(2))
      then show ?thesis using e s q normalize_ok [of res] new by auto
    qed
  qed
qed

section \<open>Comparison\<close>

lemma cmp_limbs_sgn: "length xs = length ys \<Longrightarrow> cmp_limbs xs ys = sgn (uval (rev xs) - uval (rev ys))"
proof (induction xs ys rule: list_induct2)
  case (Cons x xs y ys)
  define n where "n = length xs"
  have b: "0 \<le> uval (rev xs)" "uval (rev xs) < base n" "0 \<le> uval (rev ys)" "uval (rev ys) < base n"
    using uval_bounds [of "rev xs"] uval_bounds [of "rev ys"] Cons(1) by (simp_all add: n_def)
  have less: "u + base n * i < v + base n * j" if "i < j" "u < base n" "0 \<le> v" for u v i j
  proof -
    have "base n * (i + 1) \<le> base n * j" using that(1) by (intro mult_left_mono) simp_all
    then show ?thesis using that by (simp add: algebra_simps)
  qed
  have v: "uval (rev (x # xs)) = uval (rev xs) + base n * uint x" "uval (rev (y # ys)) = uval (rev ys) + base n * uint y"
    using Cons(1) by (simp_all add: n_def)
  consider "uint x < uint y" | "uint y < uint x" | "x = y" by (metis linorder_neqE word_uint_eq_iff)
  then show ?case
  proof cases
    case 1
    then show ?thesis using less [OF 1 b(2,3)] unfolding v by (auto simp: word_less_def sgn_if)
  next
    case 2
    then show ?thesis using less [OF 2 b(4,1)] unfolding v by (auto simp: word_less_def sgn_if)
  next
    case 3
    then show ?thesis using Cons unfolding v by simp
  qed
qed simp

text \<open>Numbers of more limbs are larger in absolute value.\<close>

lemma longer_larger:
  assumes "normalized a" "b \<noteq> []" "length b < length a"
  shows "if negative a then sval a < sval b else sval b < sval a"
proof -
  obtain n where n: "length a = Suc (Suc n)" using assms(2,3) by (cases "length a"; cases "length a - 1") auto
  have "base (length b) \<le> base (Suc n)" using assms(3) n unfolding base_def by (intro power_increasing) simp_all
  then show ?thesis using normalized_range [OF assms(1) n] sval_bounds [OF assms(2)] by (auto split: if_splits)
qed

lemma cmp_ok:
  assumes "normalized a" "normalized b"
  shows "js_bigint_cmp a b = sgn (sval a - sval b)"
proof -
  have ne: "a \<noteq> []" "b \<noteq> []" using assms by (simp_all add: normalized_def)
  note neg = negative_iff [OF ne(1)] negative_iff [OF ne(2)]
  consider "negative a \<noteq> negative b" | "negative a = negative b" "length a < length b" | "negative a = negative b" "length b < length a"
    | "negative a = negative b" "length a = length b" by linarith
  then show ?thesis
  proof cases
    case 1
    then show ?thesis using neg by (auto simp: js_bigint_cmp_def sgn_if)
  next
    case 2
    then show ?thesis using longer_larger [OF assms(2) ne(1)] by (auto simp: js_bigint_cmp_def sgn_if)
  next
    case 3
    then show ?thesis using longer_larger [OF assms(1) ne(2)] by (auto simp: js_bigint_cmp_def sgn_if)
  next
    case 4
    then have "sval a - sval b = uval a - uval b" using ne by (simp add: sval_uval)
    then show ?thesis using 4 by (simp add: js_bigint_cmp_def cmp_limbs_sgn)
  qed
qed

section \<open>Canonical representations\<close>

text \<open>A representation of integers in which every integer has one form, so that comparing data is comparing
  integers.\<close>

locale canonical =
  fixes wf :: "'r \<Rightarrow> bool" and val :: "'r \<Rightarrow> int"
  assumes unique: "wf x \<Longrightarrow> wf y \<Longrightarrow> val x = val y \<Longrightarrow> x = y"
begin

lemma equal_iff: "wf x \<Longrightarrow> wf y \<Longrightarrow> x = y \<longleftrightarrow> val x = val y"
  by (auto intro: unique)

end

lemma sval_inject:
  assumes "normalized a" "normalized b" "sval a = sval b"
  shows "a = b"
proof -
  have ne: "a \<noteq> []" "b \<noteq> []" using assms by (simp_all add: normalized_def)
  have l: "length a = length b"
    using longer_larger [OF assms(1) ne(2)] longer_larger [OF assms(2) ne(1)] assms(3)
    by (cases "length a" "length b" rule: linorder_cases) (auto split: if_splits)
  moreover have "negative a \<longleftrightarrow> negative b" using negative_iff [OF ne(1)] negative_iff [OF ne(2)] assms(3) by simp
  ultimately have "uval a = uval b" using assms(3) by (simp add: sval_uval ne split: if_splits)
  with l show ?thesis by (rule uval_inject)
qed

interpretation bigint: canonical normalized sval
  by unfold_locales (rule sval_inject)

lemma within_memory: "n \<le> JS_BIGINT_MAX_SIZE \<Longrightarrow> \<not> failed (\<lambda>k s. True) n e"
  by (simp add: failed_def)

lemma normalized_ne: "normalized a \<Longrightarrow> a \<noteq> []"
  by (simp add: normalized_def)

section \<open>Properties\<close>

text \<open>Adding and subtracting \<open>BigInt\<close> values is integer addition and subtraction, in normal form whatever the
  signs and lengths of the operands; the only failures are the size limit of the larger operand and
  memory.\<close>

theorem bigint_add_correct:
  assumes "normalized a" "normalized b"
  shows "case js_bigint_add A a b b_neg of
      Inr r \<Rightarrow> normalized r \<and> sval r = (if b_neg then sval a - sval b else sval a + sval b)
    | Inl e \<Rightarrow> failed A (max (length a) (length b)) e"
  using add_ok [OF normalized_ne [OF assms(1)] normalized_ne [OF assms(2)], of A b_neg]
  by (auto split: sum.splits)

theorem bigint_add_correct_witness:
  "\<exists>r. js_bigint_add (\<lambda>k s. True) [0x7FFFFFFFFFFFFFFF] [- 1] True = Inr r \<and> normalized r \<and> sval r = 2 ^ 63"
proof -
  have "normalized [0x7FFFFFFFFFFFFFFF]" "normalized [- 1]" by (simp_all add: normalized_def)
  from bigint_add_correct [OF this, of "\<lambda>k s. True" True] within_memory [of 1]
  show ?thesis by (auto simp: JS_BIGINT_MAX_SIZE_def sint_n1 split: sum.splits)
qed

text \<open>C33: multiplying \<open>BigInt\<close> values is integer multiplication, in normal form; the only failures are the size
  limit of the product and memory.\<close>

theorem bigint_mul_correct:
  assumes "normalized a" "normalized b"
  shows "case js_bigint_mul A a b of
      Inr r \<Rightarrow> normalized r \<and> sval r = sval a * sval b
    | Inl e \<Rightarrow> failed A (length a + length b) e"
  using assms by (intro mul_ok) (simp_all add: normalized_def)

theorem bigint_mul_correct_witness:
  "\<exists>r. js_bigint_mul (\<lambda>k s. True) [0x8000000000000000] [- 1] = Inr r \<and> normalized r \<and> sval r = 2 ^ 63"
proof -
  have "normalized [0x8000000000000000]" "normalized [- 1]" by (simp_all add: normalized_def)
  from bigint_mul_correct [OF this, of "\<lambda>k s. True"] within_memory [of 2]
  show ?thesis by (auto simp: JS_BIGINT_MAX_SIZE_def sint_n1 numeral_2_eq_2 split: sum.splits)
qed

text \<open>The bitwise operators act on the infinite two's complement of the integers, as ECMAScript defines
  them, whatever the lengths of the operands; \<open>js_bigint_not\<close> needs no normalization.\<close>

theorem bigint_bitwise_correct:
  assumes "normalized a" "normalized b"
  shows "(case js_bigint_logic A a b opn of
      Inr r \<Rightarrow> normalized r \<and> sval r = int_op opn (sval a) (sval b)
    | Inl e \<Rightarrow> failed A (max (length a) (length b)) e) \<and>
    (case js_bigint_not A a of
      Inr r \<Rightarrow> normalized r \<and> sval r = NOT (sval a)
    | Inl e \<Rightarrow> failed A (length a) e)"
  using logic_ok [OF normalized_ne [OF assms(1)] normalized_ne [OF assms(2)]] not_ok [OF assms(1), of A]
  by (auto simp: not_eq_complement split: sum.splits)

theorem bigint_bitwise_correct_witness:
  "\<exists>r. js_bigint_logic (\<lambda>k s. True) [0, 1] [- 2] OP_and = Inr r \<and> normalized r \<and> sval r = 2 ^ 64"
proof -
  have "normalized [0, 1]" "normalized [- 2]" by (simp_all add: normalized_def significant_def)
  from bigint_bitwise_correct [OF this, THEN conjunct1, of "\<lambda>k s. True" OP_and] within_memory [of 2]
  show ?thesis by (auto simp: JS_BIGINT_MAX_SIZE_def numeral_2_eq_2 split: sum.splits)
qed

text \<open>C34: shifting left multiplies by a power of two, and shifting right divides by it, rounding towards minus
  infinity, for every shift count; both results are in normal form.\<close>

theorem bigint_shift_correct:
  assumes "normalized a"
  shows "(case js_bigint_shl A a k of
      Inr r \<Rightarrow> normalized r \<and> sval r = sval a * 2 ^ unat k
    | Inl e \<Rightarrow> failed A (length a + unat k div 64) e) \<and>
    (case js_bigint_shr A a k of
      Inr r \<Rightarrow> normalized r \<and> sval r = sval a div 2 ^ unat k
    | Inl e \<Rightarrow> failed A (length a) e)"
  using shl_ok [OF assms] shr_ok [OF assms] by simp_all

theorem bigint_shift_correct_witness:
  "\<exists>r. js_bigint_shr (\<lambda>k s. True) [- 3] 1 = Inr r \<and> normalized r \<and> sval r = - 2"
proof -
  have "normalized [- 3]" by (simp add: normalized_def)
  from bigint_shift_correct [OF this, THEN conjunct2, of "\<lambda>k s. True" 1] within_memory [of 1]
  show ?thesis by (auto simp: JS_BIGINT_MAX_SIZE_def split: sum.splits)
qed

text \<open>Comparing \<open>BigInt\<close> values is comparing the integers, and two of them are equal integers exactly if
  they are the same limbs.\<close>

theorem bigint_cmp_correct:
  assumes "normalized a" "normalized b"
  shows "js_bigint_cmp a b = sgn (sval a - sval b) \<and> (js_bigint_cmp a b = 0 \<longleftrightarrow> a = b)"
  using cmp_ok [OF assms] bigint.equal_iff [OF assms] by (simp add: sgn_if)

theorem bigint_cmp_correct_witness: "js_bigint_cmp [0, - 1] [5] = sgn (- (2 ^ 64) - 5)"
proof -
  have "normalized [0, - 1]" "normalized [5]" by (simp_all add: normalized_def significant_def)
  from bigint_cmp_correct [OF this] show ?thesis by (simp add: sint_n1)
qed

end
