(* ===== verification/Division.thy ===== *)
theory Division
  imports BigInt "HOL-Library.Signed_Division"
begin

text \<open>
  Division of limb arrays (\<open>mp_div1norm\<close>, \<open>mp_divnorm\<close>) and of \<open>BigInt\<close> values (\<open>js_bigint_divrem\<close>) in
  \<open>quickjs.c\<close>: division of two limbs by one with a precomputed inverse, and schoolbook division whose
  estimated quotient digits are corrected by adding the divisor back.

  The correction loop ends when the partial remainder becomes nonnegative. It is written with a bound on
  its rounds, and the bound chosen, the estimated digit itself, is shown to be enough.
\<close>

section \<open>Two limbs by one\<close>

definition udiv1norm_init :: "limb \<Rightarrow> limb" where
  "udiv1norm_init d =
     (let a1 = - d - 1; a0 = - 1 in ucast ((push_bit 64 (ucast a1 :: dlimb) OR ucast (a0 :: limb)) div ucast d))"

definition udiv1norm :: "limb \<Rightarrow> limb \<Rightarrow> limb \<Rightarrow> limb \<Rightarrow> limb \<times> limb" where
  "udiv1norm a1 a0 d d_inv =
     (let n1m = signed_drop_bit 63 a0;
          n_adj = a0 + (n1m AND d);
          a = (ucast d_inv :: dlimb) * ucast (a1 - n1m) + ucast n_adj;
          q = ucast (drop_bit 64 a) + a1;
          a = push_bit 64 (ucast a1 :: dlimb) OR ucast a0;
          a = a - ucast q * ucast d - ucast d;
          ah = ucast (drop_bit 64 a) :: limb;
          q = q + (1 + ah);
          r = ucast a + (ah AND d) in
      (q, r))"

section \<open>Limb arrays\<close>

definition UDIV1NORM_THRESHOLD :: nat where
  "UDIV1NORM_THRESHOLD = 3"

fun div1norm_inv :: "limb list \<Rightarrow> limb \<Rightarrow> limb \<Rightarrow> limb \<Rightarrow> limb list \<times> limb" where
  "div1norm_inv [] b b_inv r = ([], r)"
| "div1norm_inv (x # taba) b b_inv r =
     (let (res, r) = div1norm_inv taba b b_inv r; (q, r) = udiv1norm r x b b_inv in (q # res, r))"

text \<open>For short arrays the loop is that of \<open>mp_div1\<close>.\<close>

definition mp_div1norm :: "limb list \<Rightarrow> limb \<Rightarrow> limb \<Rightarrow> limb list \<times> limb" where
  "mp_div1norm taba b r =
     (if length taba \<ge> UDIV1NORM_THRESHOLD then div1norm_inv taba b (udiv1norm_init b) r else mp_div1 taba b r)"

text \<open>The first digit of \<open>mp_divnorm\<close>, 0 or 1: the loop compares from the most significant limb down.\<close>

fun first_digit :: "limb list \<Rightarrow> limb list \<Rightarrow> limb" where
  "first_digit (x # xs) (y # ys) = (if x \<noteq> y then if x < y then 0 else 1 else first_digit xs ys)"
| "first_digit xs ys = 1"

text \<open>Adding the divisor back: \<open>taba[i .. i + nb - 1]\<close> is \<open>win\<close>, \<open>taba[i + nb]\<close> is \<open>high\<close>. \<open>None\<close> if the rounds
  are used up.\<close>

fun add_back :: "nat \<Rightarrow> limb list \<Rightarrow> limb \<Rightarrow> limb list \<Rightarrow> limb \<Rightarrow> (limb \<times> limb list) option" where
  "add_back 0 tabb q win high = None"
| "add_back (Suc fuel) tabb q win high =
     (let q = q - 1; (win, c) = mp_add win tabb 0 in
      if c \<noteq> 0 then
        (let high = high + 1 in if high = 0 then Some (q, win) else add_back fuel tabb q win high)
      else add_back fuel tabb q win high)"

text \<open>The estimate of a digit from the two high limbs.\<close>

definition digit_estimate :: "limb \<Rightarrow> limb \<Rightarrow> limb \<Rightarrow> limb \<Rightarrow> limb" where
  "digit_estimate b1 b1_inv a1 a0 =
     (if a1 \<ge> b1 then - 1
      else if b1_inv \<noteq> 0 then fst (udiv1norm a1 a0 b1 b1_inv)
      else ucast ((push_bit 64 (ucast a1 :: dlimb) OR ucast a0) div ucast b1))"

text \<open>One iteration: the limb \<open>x\<close> is appended below the partial remainder \<open>cur\<close> of \<open>nb\<close> limbs.\<close>

definition divnorm_step :: "limb list \<Rightarrow> limb \<Rightarrow> limb \<Rightarrow> limb list \<Rightarrow> (limb \<times> limb list) option" where
  "divnorm_step tabb b1_inv x cur =
     (let nb = length tabb; win = x # cur;
          q = digit_estimate (last tabb) b1_inv (win ! nb) (win ! (nb - 1));
          (res, r) = mp_sub_mul1 (take nb win) tabb q;
          v = win ! nb;
          a = v - r in
      if a > v then add_back (unat q) tabb q res a else Some (q, res))"

fun divnorm_loop :: "limb list \<Rightarrow> limb \<Rightarrow> limb list \<Rightarrow> limb list \<Rightarrow> (limb list \<times> limb list) option" where
  "divnorm_loop tabb b1_inv [] cur = Some ([], cur)"
| "divnorm_loop tabb b1_inv (x # taba) cur =
     (case divnorm_loop tabb b1_inv taba cur of
        None \<Rightarrow> None
      | Some (qs, cur) \<Rightarrow> map_option (\<lambda>(q, cur). (q # qs, cur)) (divnorm_step tabb b1_inv x cur))"

text \<open>The quotient and the remainder.\<close>

definition mp_divnorm :: "limb list \<Rightarrow> limb list \<Rightarrow> (limb list \<times> limb list) option" where
  "mp_divnorm taba tabb =
     (let nb = length tabb; b1 = last tabb in
      if nb = 1 then (let (tabq, r) = mp_div1norm taba b1 0 in Some (tabq, [r]))
      else
        let n = length taba - nb;
            b1_inv = (if n \<ge> UDIV1NORM_THRESHOLD then udiv1norm_init b1 else 0);
            cur = drop n taba;
            q = first_digit (rev cur) (rev tabb);
            cur = (if q \<noteq> 0 then fst (mp_sub cur tabb 0) else cur) in
        map_option (\<lambda>(qs, cur). (qs @ [q], cur)) (divnorm_loop tabb b1_inv (take n taba) cur))"

section \<open>Division of \<open>BigInt\<close> values\<close>

text \<open>\<open>clz64\<close>: the number of zero bits above the highest set bit.\<close>

fun zeros_above :: "nat \<Rightarrow> limb \<Rightarrow> nat" where
  "zeros_above 0 a = 0"
| "zeros_above (Suc k) a = (if bit a k then 0 else Suc (zeros_above k a))"

definition js_limb_clz :: "limb \<Rightarrow> nat" where
  "js_limb_clz a = zeros_above 64 a"

text \<open>Dropping zero limbs: \<open>while (na > 1 && r->tab[na - 1] == 0) na--\<close>.\<close>

fun strip_len :: "limb list \<Rightarrow> nat \<Rightarrow> nat" where
  "strip_len r (Suc (Suc n)) = (if r ! Suc n = 0 then strip_len r (Suc n) else Suc (Suc n))"
| "strip_len r n = n"

definition strip :: "limb list \<Rightarrow> limb list" where
  "strip r = take (strip_len r (length r)) r"

definition magnitude :: "bigint \<Rightarrow> limb list" where
  "magnitude a = strip (if js_bigint_sign a \<noteq> 0 then fst (mp_neg a) else a)"

text \<open>Shifting both operands so that the high bit of the divisor is set.\<close>

definition shifted_divisor :: "nat \<Rightarrow> limb list \<Rightarrow> limb list" where
  "shifted_divisor shift tabb = (if shift \<noteq> 0 then fst (mp_shl tabb shift) else tabb)"

definition shifted_dividend :: "nat \<Rightarrow> limb list \<Rightarrow> limb list" where
  "shifted_dividend shift r =
     (if shift \<noteq> 0 then (let (r, h) = mp_shl r shift in if h \<noteq> 0 then r @ [h] else r) else r)"

definition finish_rem :: "nat \<Rightarrow> bool \<Rightarrow> limb list \<Rightarrow> bigint" where
  "finish_rem shift a_sign r =
     (let r = (if shift \<noteq> 0 then fst (mp_shr r shift 0) else r);
          r = r @ [0];
          r = (if a_sign then fst (mp_neg r) else r) in
      js_bigint_normalize1 r (length r))"

definition finish_quot :: "bool \<Rightarrow> limb list \<Rightarrow> bigint" where
  "finish_quot neg q =
     (let q = q @ [0]; q = (if neg then fst (mp_neg q) else q) in js_bigint_normalize q)"

text \<open>\<open>None\<close> stands for a correction loop that does not end.\<close>

definition js_bigint_divrem :: "alloc \<Rightarrow> bigint \<Rightarrow> bigint \<Rightarrow> bool \<Rightarrow> (bigint_error + bigint) option" where
  "js_bigint_divrem A a b is_rem =
     (if length b = 1 \<and> b ! 0 = 0 then Some (Inl DivisionByZero)
      else
        let a_sign = js_bigint_sign a \<noteq> 0; b_sign = js_bigint_sign b \<noteq> 0 in
        case js_bigint_new A 0 (length a + 2) of
          Inl e \<Rightarrow> Some (Inl e)
        | Inr _ \<Rightarrow>
            if \<not> A 1 (length b * 8) then Some (Inl NoMemory)
            else
              let r = magnitude a; tabb = magnitude b in
              if length r < length tabb then
                Some (if is_rem then
                        (case js_bigint_new A 2 (length a) of Inl e \<Rightarrow> Inl e | Inr _ \<Rightarrow> Inr a)
                      else js_bigint_new_si A 2 0)
              else
                let shift = js_limb_clz (last tabb);
                    tabb = shifted_divisor shift tabb;
                    r = shifted_dividend shift r in
                case js_bigint_new A 2 (length r - length tabb + 2) of
                  Inl e \<Rightarrow> Some (Inl e)
                | Inr _ \<Rightarrow>
                    map_option
                      (\<lambda>(q, r). Inr (if is_rem then finish_rem shift a_sign r else finish_quot (a_sign \<noteq> b_sign) q))
                      (mp_divnorm r tabb))"

section \<open>Correctness\<close>

lemma udiv1norm_init_ok:
  assumes "2 ^ 63 \<le> uint d" "B = 2 ^ 64"
  shows "\<exists>k. uint (udiv1norm_init d) * uint d = B * (B - uint d) - k \<and> 1 \<le> k \<and> k \<le> uint d"
proof -
  define a :: dlimb where "a = push_bit 64 (ucast (- d - 1)) OR ucast (- 1 :: limb)"
  have n1: "uint (- 1 :: limb) = 2 ^ 64 - 1" by (simp add: unsigned_minus_1_eq_mask mask_eq_exp_minus_1)
  have d: "0 < uint d" using assms(1) by simp
  have "- d - 1 = NOT d" by (simp add: not_eq_complement)
  then have "uint (- d - 1) = B - 1 - uint d" using assms(2) by simp
  then have "uint a = B * (B - 1 - uint d) + (B - 1)" unfolding a_def dlimb_join n1 assms(2) [symmetric] by simp
  then have a: "uint a = B * (B - uint d) - 1" by (simp add: algebra_simps)
  have "uint a < B * uint d" unfolding a using assms by (simp add: algebra_simps)
  then have "uint a div uint d < B" using d by (intro int_div_less)
  moreover have "0 \<le> uint a div uint d" using d by (simp add: pos_imp_zdiv_nonneg_iff)
  ultimately have i: "uint (udiv1norm_init d) = uint a div uint d"
    unfolding udiv1norm_init_def Let_def a_def [symmetric] uint_low assms(2) by (simp add: uint_div_distrib)
  have "uint a div uint d * uint d = B * (B - uint d) - (1 + uint a mod uint d)"
    using div_mult_mod_eq [of "uint a" "uint d"] a by linarith
  moreover have "uint a mod uint d < uint d" "0 \<le> uint a mod uint d" using pos_mod_bound [OF d] pos_mod_sign [OF d] by auto
  ultimately show ?thesis unfolding i by (intro exI [of _ "1 + uint a mod uint d"]) auto
qed

text \<open>The quotient estimate, on numbers: off by at most one.\<close>

lemma estimate_bounds:
  fixes B d m k a1 a0 X n1 f :: int
  assumes "m * d = B * (B - d) - k" "1 \<le> k" "k \<le> d" "B \<le> 2 * d" "d < B" "0 \<le> a1" "a1 < d" "0 \<le> a0" "a0 < B"
    "n1 = (if B \<le> 2 * a0 then 1 else 0)" "X = m * (a1 + n1) + (a0 + n1 * (d - B))"
    "q = a1 + X div B"
  shows "0 \<le> a1 * B + a0 - q * d" "a1 * B + a0 - q * d < 2 * d"
proof -
  define f where "f = X mod B"
  have B: "0 < B" using assms(5,6,7) by linarith
  have f: "0 \<le> f" "f < B" using B by (simp_all add: f_def)
  have Bq: "B * q = B * a1 + X - f" unfolding assms(12) f_def by (simp add: distrib_left minus_mod_eq_mult_div [symmetric])
  have "B * (a1 * B + a0 - q * d) = B * a1 * B + B * a0 - (B * q) * d" by (simp add: algebra_simps)
  also have "\<dots> = B * a1 * B + B * a0 - B * a1 * d - d * X + d * f" unfolding Bq by (simp add: algebra_simps)
  also have "d * X = (m * d) * (a1 + n1) + d * (a0 + n1 * (d - B))" unfolding assms(11) by (simp add: algebra_simps)
  finally have e: "B * (a1 * B + a0 - q * d) =
      (B - d) * a0 - (B - d) * (B - d) * n1 + k * (a1 + n1) + d * f"
    unfolding assms(1) by (simp add: algebra_simps)
  have p: "0 \<le> (B - d) * (2 * d - B)" "k * (a1 + n1) \<le> d * (d - 1 + n1)" "0 \<le> k * (a1 + n1)" "d * f \<le> d * (B - 1)" "0 \<le> d * f"
    using assms f by (auto intro!: mult_mono mult_left_mono)
  have "0 \<le> B * (a1 * B + a0 - q * d) \<and> B * (a1 * B + a0 - q * d) < B * (2 * d)"
  proof (cases "B \<le> 2 * a0")
    case True
    have "(B - d) * (B - d) \<le> (B - d) * a0" "(B - d) * a0 \<le> (B - d) * (B - 1)"
      using True assms(4,5,9) by (intro mult_left_mono; simp)+
    then show ?thesis unfolding e using True p assms(2,3,10) B by (simp add: algebra_simps)
  next
    case False
    have "(B - d) * (2 * a0) \<le> (B - d) * B" "0 \<le> (B - d) * a0" using False assms(5,8) by (auto intro: mult_left_mono)
    then show ?thesis unfolding e using False p assms(2,3,10) by (simp add: algebra_simps)
  qed
  then show "0 \<le> a1 * B + a0 - q * d" "a1 * B + a0 - q * d < 2 * d" using B by (simp_all add: zero_le_mult_iff)
qed

lemma sign_mask: "signed_drop_bit 63 (x :: limb) = - of_bool (bit x 63)"
proof (rule bit_word_eqI)
  show "bit (signed_drop_bit 63 x) n \<longleftrightarrow> bit (- of_bool (bit x 63) :: limb) n" if "n < LENGTH(64)" for n
    using that by (cases n) (auto simp: bit_signed_drop_bit_iff)
qed

lemma udiv1norm_ok:
  assumes "2 ^ 63 \<le> uint d" "a1 < d" "udiv1norm a1 a0 d (udiv1norm_init d) = (q, r)"
  shows "2 ^ 64 * uint a1 + uint a0 = uint q * uint d + uint r" "r < d"
proof -
  define B :: int where "B = 2 ^ 64"
  obtain k where k: "uint (udiv1norm_init d) * uint d = B * (B - uint d) - k" "1 \<le> k" "k \<le> uint d"
    using udiv1norm_init_ok [OF assms(1) B_def] by blast
  define n1 :: int where "n1 = (if B \<le> 2 * uint a0 then 1 else 0)"
  define n_adj where "n_adj = a0 + (signed_drop_bit 63 a0 AND d)"
  define m where "m = udiv1norm_init d"
  define X where "X = (ucast m :: dlimb) * ucast (a1 - signed_drop_bit 63 a0) + ucast n_adj"
  have bit: "bit a0 63 \<longleftrightarrow> B \<le> 2 * uint a0" by (simp add: bit_63 B_def)
  have d: "uint d < B" "B \<le> 2 * uint d" "uint a1 < uint d" using assms(1,2) uint_limb [of d] by (simp_all add: B_def word_less_def)
  have adj: "uint n_adj = uint a0 + n1 * (uint d - B)"
    using limb_add [of a0 d] d(2) uint_limb [of a0] uint_limb [of d] bit
    by (auto simp: n_adj_def sign_mask n1_def B_def)
  have h: "uint (a1 - signed_drop_bit 63 a0) = uint a1 + n1"
    using limb_add [of a1 1] d bit by (auto simp: sign_mask n1_def B_def)
  have X: "uint X = uint m * (uint a1 + n1) + (uint a0 + n1 * (uint d - B))"
    unfolding X_def dlimb_mul1 adj h ..
  define q1 where "q1 = ucast (drop_bit 64 X) + a1"
  define Z where "Z = uint a1 * B + uint a0 - uint q1 * uint d - uint d"
  have XB: "0 \<le> uint X div B" by (simp add: B_def pos_imp_zdiv_nonneg_iff)
  note est = estimate_bounds [OF k(1) [folded m_def] k(2,3) d(2,1) uint_limb(1) d(3) uint_limb(1) _ n1_def X refl]
  have est: "0 \<le> uint a1 * B + uint a0 - (uint a1 + uint X div B) * uint d"
    "uint a1 * B + uint a0 - (uint a1 + uint X div B) * uint d < 2 * uint d"
    using est uint_limb [of a0] by (simp_all add: B_def)
  have N: "uint a1 * B + uint a0 < uint d * B"
  proof -
    have "(uint a1 + 1) * B \<le> uint d * B" using d(3) by (intro mult_right_mono) (simp_all add: B_def)
    then show ?thesis using uint_limb(2) [of a0] by (simp add: B_def algebra_simps)
  qed
  have "(uint a1 + uint X div B) * uint d < B * uint d" using est(1) N by (simp add: mult.commute)
  then have q1B: "uint a1 + uint X div B < B" using mult_less_cancel_right [of _ "uint d" B] by auto
  then have q1: "uint q1 = uint a1 + uint X div B"
    using limb_add [of "ucast (drop_bit 64 X)" a1] by (simp add: q1_def uint_high B_def)
  then have Z: "- uint d \<le> Z" "Z < uint d" using est by (simp_all add: Z_def)
  define a where "a = (push_bit 64 (ucast a1 :: dlimb) OR ucast a0) - ucast q1 * ucast d - ucast d"
  have a: "uint a = Z mod 2 ^ 128"
    unfolding a_def Z_def by (simp add: uint_word_ariths(2) dlimb_join dlimb_mul B_def mod_diff_left_eq mult.commute)
  define ah :: limb where "ah = ucast (drop_bit 64 a)"
  have qr: "q = q1 + (1 + ah)" "r = ucast a + (ah AND d)"
    using assms(3) unfolding udiv1norm_def Let_def prod.inject
    by (simp_all add: q1_def X_def n_adj_def m_def a_def ah_def)
  have "uint r = (if 0 \<le> Z then Z else Z + uint d) \<and> uint q = uint q1 + (if 0 \<le> Z then 1 else 0)"
  proof (cases "0 \<le> Z")
    case True
    then have "uint a = Z" using a Z(2) d(1) by (simp add: B_def)
    then have "uint a < 2 ^ 64" using Z(2) d(1) by (simp add: B_def)
    then have "uint ah = 0" "uint (ucast a :: limb) = uint a"
      using uint_high [of a] uint_low [of a] uint_dlimb(1) [of a] by (simp_all add: ah_def)
    moreover have "(uint q1 + 1) * uint d \<le> uint a1 * B + uint a0" using True by (simp add: Z_def algebra_simps)
    then have "(uint q1 + 1) * uint d < B * uint d" using N by (simp add: mult.commute)
    then have "uint q1 + 1 < 2 ^ 64" using mult_less_cancel_right [of "uint q1 + 1" "uint d" B] by (auto simp: B_def)
    moreover have "ah = 0" using \<open>uint ah = 0\<close> by (simp only: uint_0_iff)
    ultimately show ?thesis using True \<open>uint a = Z\<close> limb_add [of q1 1] by (simp add: qr)
  next
    case False
    then have Zn: "Z < 0" "- (2 ^ 64) < Z" using Z d(1) by (simp_all add: B_def)
    have a': "uint a = Z + 2 ^ 64 * 2 ^ 64"
      unfolding a using Zn mod_pos_pos_trivial [of "Z + 2 ^ 128" "2 ^ 128"] by simp
    have Zd: "Z div 2 ^ 64 = - 1"
      using Zn int_div_ge [of "- 1" "2 ^ 64" Z] int_div_less [of Z 0 "2 ^ 64"] by simp
    then have Zm: "Z mod 2 ^ 64 = Z + 2 ^ 64" using div_mult_mod_eq [of Z "2 ^ 64"] by simp
    have "uint a div 2 ^ 64 = 2 ^ 64 + Z div 2 ^ 64" unfolding a' by (rule div_mult_self2) simp
    then have "uint a div 2 ^ 64 = 2 ^ 64 - 1" unfolding Zd by simp
    then have "uint ah = uint (- 1 :: limb)"
      using uint_high [of a] by (simp add: ah_def unsigned_minus_1_eq_mask mask_eq_exp_minus_1)
    then have ah: "ah = - 1" by (simp add: word_uint_eq_iff)
    have "uint (ucast a :: limb) = Z + 2 ^ 64" unfolding uint_low a' mod_mult_self2 by (rule Zm)
    then have "uint r = Z + uint d" using limb_add [of "ucast a" d] Z(1) uint_limb [of d] by (simp add: qr ah)
    then show ?thesis using False by (simp add: qr ah)
  qed
  then show "2 ^ 64 * uint a1 + uint a0 = uint q * uint d + uint r" "r < d"
    using Z by (auto simp: Z_def B_def word_less_def algebra_simps)
qed

lemma division_unique:
  fixes x y x' y' m :: int
  assumes "x * m + y = x' * m + y'" "0 \<le> y" "y < m" "0 \<le> y'" "y' < m"
  shows "x = x' \<and> y = y'"
proof -
  have "(u * m + v) div m = u \<and> (u * m + v) mod m = v" if "0 \<le> v" "v < m" for u v :: int using that by simp
  from this [OF assms(2,3), of x] this [OF assms(4,5), of x'] show ?thesis unfolding assms(1) by metis
qed

text \<open>Dividing with the inverse gives what the division instruction gives.\<close>

lemma udiv1norm_div:
  assumes "2 ^ 63 \<le> uint d" "a1 < d" "a = push_bit 64 (ucast a1 :: dlimb) OR ucast a0"
  shows "udiv1norm a1 a0 d (udiv1norm_init d) = (ucast (a div ucast d), ucast (a mod ucast d))"
proof -
  obtain q r where qr: "udiv1norm a1 a0 d (udiv1norm_init d) = (q, r)" by fastforce
  note 1 = udiv1norm_ok [OF assms(1,2) qr] and 2 = div1_step [OF assms(3,2)]
  define q' r' :: limb where "q' = ucast (a div ucast d)" "r' = ucast (a mod ucast d)"
  note 2 = 2 [folded q'_r'_def]
  have "uint q * uint d + uint r = uint q' * uint d + uint r'" using 1(1) 2(1) unfolding mult.commute [of "uint d"] by (rule trans [OF sym])
  then have "uint q = uint q' \<and> uint r = uint r'"
    by (rule division_unique) (use 1(2) 2(2) in \<open>simp_all add: word_less_def\<close>)
  then show ?thesis unfolding qr q'_r'_def [symmetric] by (simp add: word_uint_eq_iff)
qed

lemma div1norm_inv_eq:
  assumes "2 ^ 63 \<le> uint b" "r < b"
  shows "div1norm_inv taba b (udiv1norm_init b) r = mp_div1 taba b r"
proof (induction taba)
  case (Cons x taba)
  obtain res r' where m: "mp_div1 taba b r = (res, r')" by fastforce
  then have "r' < b" using mp_div1_uval [OF m assms(2)] by simp
  then show ?case using Cons m udiv1norm_div [OF assms(1) \<open>r' < b\<close> refl, of x] by (simp add: Let_def)
qed simp

lemma div1norm_eq: "2 ^ 63 \<le> uint b \<Longrightarrow> r < b \<Longrightarrow> mp_div1norm taba b r = mp_div1 taba b r"
  by (simp add: mp_div1norm_def div1norm_inv_eq)

text \<open>Adding back ends, at the latest when the digit has come down to 0, with the true digit and remainder.\<close>

lemma window_negative: "uval win + base (length win) * (uint (h :: limb) - 2 ^ 64) < 0"
proof -
  have "base (length win) * (uint h - 2 ^ 64) \<le> base (length win) * (- 1)" using uint_limb(2) [of h] by (intro mult_left_mono) simp_all
  moreover note uval_less [of win]
  ultimately show ?thesis by linarith
qed

lemma add_back_ok:
  assumes "length win = length tabb" "uint q \<le> int fuel"
    "U = uval win + base (length tabb) * (uint high - 2 ^ 64) + uint q * uval tabb" "0 \<le> U"
  shows "\<exists>q' win'. add_back fuel tabb q win high = Some (q', win') \<and> length win' = length tabb \<and>
    uval win' + uint q' * uval tabb = U \<and> uval win' < uval tabb"
  using assms(1,2,3)
proof (induction fuel arbitrary: q win high)
  case 0
  then have "uint q = 0" using uint_limb(1) [of q] by simp
  then show ?case using 0 window_negative [of win high] assms(4) by simp
next
  case (Suc fuel)
  define n where "n = length tabb"
  have neg: "uval win + base n * (uint high - 2 ^ 64) < 0" using window_negative [of win high] Suc(2) by (simp add: n_def)
  obtain win' c where m: "mp_add win tabb 0 = (win', c)" by fastforce
  have w: "uval win' + base n * uint c = uval win + uval tabb" "uint c \<le> 1" "length win' = n"
    using mp_add_uval [OF m Suc(2)] Suc(2) by (simp_all add: n_def)
  have nz: "uint q \<noteq> 0" using Suc(4) neg assms(4) by (auto simp: n_def)
  then have q1: "uint (q - 1) = uint q - 1" using limb_sub [of q 1] uint_limb(1) [of q] by simp
  have U: "U = uval win + uval tabb + base n * (uint high - 2 ^ 64) + uint (q - 1) * uval tabb"
    unfolding q1 Suc(4) n_def by (simp add: left_diff_distrib)
  have f: "uint (q - 1) \<le> int fuel" using Suc(3) q1 by simp
  consider "c = 0" | "c = 1" "high + 1 = 0" | "c = 1" "high + 1 \<noteq> 0" using carry_cases [OF w(2)] by blast
  then show ?case
  proof cases
    case 1
    then have "U = uval win' + base n * (uint high - 2 ^ 64) + uint (q - 1) * uval tabb" using U w(1) by simp
    from Suc(1) [OF _ f this [unfolded n_def]] show ?thesis using w(3) m 1 by (simp add: n_def)
  next
    case 2
    then have "high = - 1" by (simp add: eq_neg_iff_add_eq_0)
    then have h: "uint high = 2 ^ 64 - 1" by (simp add: unsigned_minus_1_eq_mask mask_eq_exp_minus_1)
    then have "uval win' = uval win + uval tabb + base n * (uint high - 2 ^ 64)" using w 2 by simp
    moreover have "add_back (Suc fuel) tabb q win high = Some (q - 1, win')" using m 2 by simp
    ultimately show ?thesis using neg U w(3) by (simp add: n_def)
  next
    case 3
    then have "uint high + 1 < 2 ^ 64" using limb_add [of high 1] uint_limb [of high]
      by (auto split: if_splits simp: word_uint_eq_iff)
    then have "uint (high + 1) = uint high + 1" using limb_add [of high 1] by simp
    then have "U = uval win' + base n * (uint (high + 1) - 2 ^ 64) + uint (q - 1) * uval tabb"
      using w(1) U 3 by (simp add: algebra_simps)
    from Suc(1) [OF _ f this [unfolded n_def]] show ?thesis using w(3) m 3 by (simp add: n_def)
  qed
qed

text \<open>The digit estimated from the two high limbs is never too small.\<close>

lemma digit_estimate_div:
  assumes "2 ^ 63 \<le> uint b1" "a1 < b1" "b1_inv = 0 \<or> b1_inv = udiv1norm_init b1"
  shows "uint (digit_estimate b1 b1_inv a1 a0) = (2 ^ 64 * uint a1 + uint a0) div uint b1"
proof -
  define a where "a = push_bit 64 (ucast a1 :: dlimb) OR ucast a0"
  have d: "digit_estimate b1 b1_inv a1 a0 = ucast (a div ucast b1)"
    using assms udiv1norm_div [OF assms(1,2) a_def] by (auto simp: digit_estimate_def a_def)
  note s = div1_step [OF a_def assms(2)]
  have "(uint b1 * uint (ucast (a div ucast b1) :: limb) + uint (ucast (a mod ucast b1) :: limb)) div uint b1 =
      uint (ucast (a div ucast b1) :: limb)"
    using s(2) assms(1) by (simp add: word_less_def div_add1_eq)
  then show ?thesis unfolding d s(1) by simp
qed

lemma uval_butlast: "xs \<noteq> [] \<Longrightarrow> uval xs = uval (butlast xs) + base (length xs - 1) * uint (last xs)"
  using uval_append [of "butlast xs" "[last xs]"] by simp

lemma top_le_uval: "0 < length xs \<Longrightarrow> base (length xs - 1) * uint (last xs) \<le> uval xs"
  using uval_butlast [of xs] uval_nonneg [of "butlast xs"] by auto

lemma uval_less_top: "xs \<noteq> [] \<Longrightarrow> uval xs < base (length xs - 1) * (uint (last xs) + 1)"
  using uval_butlast [of xs] uval_bounds [of "butlast xs"] by (simp add: distrib_left)

lemma uval_top2:
  assumes "length win = Suc (Suc n)"
  shows "uval win = uval (take n win) + base n * (2 ^ 64 * uint (win ! Suc n) + uint (win ! n))"
proof -
  have "win = take n win @ [win ! n, win ! Suc n]"
    using assms id_take_nth_drop [of n win] by (simp add: Cons_nth_drop_Suc [symmetric])
  then show ?thesis using assms uval_append [of "take n win" "[win ! n, win ! Suc n]"] by simp
qed

lemma digit_estimate_ge:
  assumes "length tabb = Suc n" "length win = Suc (Suc n)" "2 ^ 63 \<le> uint (last tabb)" "uval win < 2 ^ 64 * uval tabb"
    "b1_inv = 0 \<or> b1_inv = udiv1norm_init (last tabb)"
  shows "uval win < (uint (digit_estimate (last tabb) b1_inv (win ! Suc n) (win ! n)) + 1) * uval tabb"
proof (cases "win ! Suc n < last tabb")
  case True
  define b1 A q where "b1 = uint (last tabb)" "A = 2 ^ 64 * uint (win ! Suc n) + uint (win ! n)"
    "q = uint (digit_estimate (last tabb) b1_inv (win ! Suc n) (win ! n))"
  note defs = this
  have b1: "0 < b1" using assms(3) by (simp add: defs)
  have q: "q = A div b1" using digit_estimate_div [OF assms(3) True assms(5)] by (simp add: defs)
  have "A + 1 \<le> (q + 1) * b1" using div_mult_mod_eq [of A b1] pos_mod_bound [OF b1, of A] unfolding q distrib_right by linarith
  then have "base n * (A + 1) \<le> base n * ((q + 1) * b1)" by (intro mult_left_mono) simp_all
  moreover have "uval win < base n * (A + 1)"
    using uval_top2 [OF assms(2)] uval_less [of "take n win"] assms(2) by (simp add: defs algebra_simps)
  moreover have "0 \<le> A" by (simp add: defs)
  then have "0 \<le> q" using b1 by (simp add: q pos_imp_zdiv_nonneg_iff)
  moreover have "base n * b1 \<le> uval tabb"
    using top_le_uval [of tabb] assms(1) by (simp add: defs)
  then have "(q + 1) * (base n * b1) \<le> (q + 1) * uval tabb" using \<open>0 \<le> q\<close> by (intro mult_left_mono) simp_all
  ultimately show ?thesis unfolding defs(3) [symmetric] by (simp add: algebra_simps)
next
  case False
  then have "digit_estimate (last tabb) b1_inv (win ! Suc n) (win ! n) = - 1" by (simp add: digit_estimate_def not_less)
  moreover have "uint (- 1 :: limb) + 1 = 2 ^ 64" by (simp add: unsigned_minus_1_eq_mask mask_eq_exp_minus_1)
  ultimately show ?thesis using assms(4) by (simp only: )
qed

lemma divnorm_step_ok:
  assumes "length tabb = Suc n" "length cur = Suc n" "2 ^ 63 \<le> uint (last tabb)" "uval cur < uval tabb"
    "b1_inv = 0 \<or> b1_inv = udiv1norm_init (last tabb)"
  shows "\<exists>q cur'. divnorm_step tabb b1_inv x cur = Some (q, cur') \<and> length cur' = Suc n \<and>
    uint x + 2 ^ 64 * uval cur = uval cur' + uint q * uval tabb \<and> uval cur' < uval tabb"
proof -
  define win where "win = x # cur"
  define q where "q = digit_estimate (last tabb) b1_inv (win ! Suc n) (win ! n)"
  obtain res r where m: "mp_sub_mul1_loop (take (Suc n) win) tabb q 0 = (res, r)" by fastforce
  define v where "v = win ! Suc n"
  have l: "length win = Suc (Suc n)" using assms(2) by (simp add: win_def)
  have step: "divnorm_step tabb b1_inv x cur = (if v - r > v then add_back (unat q) tabb q res (v - r) else Some (q, res))"
    using m assms(1) unfolding divnorm_step_def Let_def mp_sub_mul1_def by (simp add: win_def [symmetric] q_def v_def)
  have "2 ^ 64 * (uval cur + 1) \<le> 2 ^ 64 * uval tabb" using assms(4) by (intro mult_left_mono) simp_all
  then have "uval win < 2 ^ 64 * uval tabb" using uint_limb(2) [of x] by (simp add: win_def algebra_simps)
  then have est: "uval win < (uint q + 1) * uval tabb" unfolding q_def by (rule digit_estimate_ge [OF assms(1) l assms(3) _ assms(5)])
  have res: "uval res - base (Suc n) * uint r = uval (take (Suc n) win) - uval tabb * uint q" "length res = Suc n"
    using mp_sub_mul1_loop_uval [OF m] assms(1) l by simp_all
  have "win = take (Suc n) win @ [v]" using l by (simp add: v_def take_Suc_conv_app_nth [symmetric])
  then have "uval win = uval (take (Suc n) win) + base (Suc n) * uint v" using uval_append [of "take (Suc n) win" "[v]"] l by simp
  with res have U: "uval win - uint q * uval tabb = uval res + base (Suc n) * (uint v - uint r)" by (simp add: algebra_simps)
  show ?thesis
  proof (cases "uint v < uint r")
    case True
    then have a: "uint (v - r) = uint v - uint r + 2 ^ 64" using limb_sub [of v r] by simp
    then have "v < v - r" using True uint_limb [of r] by (simp add: word_less_def)
    then have s: "divnorm_step tabb b1_inv x cur = add_back (unat q) tabb q res (v - r)" using step by simp
    have "\<exists>q' win'. add_back (unat q) tabb q res (v - r) = Some (q', win') \<and> length win' = length tabb \<and>
        uval win' + uint q' * uval tabb = uval win \<and> uval win' < uval tabb"
      by (rule add_back_ok) (use res(2) U a assms(1) in \<open>simp_all\<close>)
    then show ?thesis unfolding s using assms(1) by (auto simp: win_def)
  next
    case False
    then have a: "uint (v - r) = uint v - uint r" using limb_sub [of v r] by simp
    then have s: "divnorm_step tabb b1_inv x cur = Some (q, res)" using step uint_limb(1) [of r] by (simp add: word_less_def)
    have "uval tabb < base (Suc n)" using uval_less [of tabb] assms(1) by simp
    then have "uval res + base (Suc n) * (uint v - uint r) < base (Suc n)" using U est by (simp add: algebra_simps)
    then have "base (Suc n) * (uint v - uint r) < base (Suc n) * 1" using uval_nonneg [of res] by linarith
    then have "uint v - uint r < 1" by (simp only: mult_less_cancel_left_pos base_pos)
    then have "uint v = uint r" using False by simp
    then show ?thesis using s U est res(2) by (simp add: win_def algebra_simps)
  qed
qed

lemma divnorm_loop_ok:
  assumes "length tabb = Suc n" "length cur = Suc n" "2 ^ 63 \<le> uint (last tabb)" "uval cur < uval tabb"
    "b1_inv = 0 \<or> b1_inv = udiv1norm_init (last tabb)"
  shows "\<exists>qs cur'. divnorm_loop tabb b1_inv taba cur = Some (qs, cur') \<and> length qs = length taba \<and> length cur' = Suc n \<and>
    uval taba + base (length taba) * uval cur = uval cur' + uval qs * uval tabb \<and> uval cur' < uval tabb"
proof (induction taba)
  case (Cons x taba)
  then obtain qs c where c: "divnorm_loop tabb b1_inv taba cur = Some (qs, c)" "length qs = length taba" "length c = Suc n"
    "uval taba + base (length taba) * uval cur = uval c + uval qs * uval tabb" "uval c < uval tabb" by blast
  obtain q c' where s: "divnorm_step tabb b1_inv x c = Some (q, c')" "length c' = Suc n"
    "uint x + 2 ^ 64 * uval c = uval c' + uint q * uval tabb" "uval c' < uval tabb"
    using divnorm_step_ok [OF assms(1) c(3) assms(3) c(5) assms(5)] by blast
  have "uval (x # taba) + base (length (x # taba)) * uval cur = uint x + 2 ^ 64 * (uval taba + base (length taba) * uval cur)"
    by (simp add: algebra_simps)
  also have "\<dots> = uint x + 2 ^ 64 * uval c + 2 ^ 64 * (uval qs * uval tabb)" unfolding c(4) by (simp add: algebra_simps)
  also have "\<dots> = uval c' + uval (q # qs) * uval tabb" unfolding s(3) by (simp add: algebra_simps)
  finally have "uval (x # taba) + base (length (x # taba)) * uval cur = uval c' + uval (q # qs) * uval tabb" .
  moreover have "divnorm_loop tabb b1_inv (x # taba) cur = Some (q # qs, c')" using c(1) s(1) by simp
  ultimately show ?case using s(2,4) c(2) by auto
qed (use assms in simp)

lemma first_digit_ge: "length xs = length ys \<Longrightarrow> first_digit xs ys = of_bool (uval (rev ys) \<le> uval (rev xs))"
proof -
  assume l: "length xs = length ys"
  then have "first_digit xs ys = (if cmp_limbs xs ys < 0 then 0 else 1)" by (induction xs ys rule: list_induct2) auto
  then show ?thesis using cmp_limbs_sgn [OF l] by (auto simp: sgn_if split: if_splits)
qed

text \<open>The contract of \<open>mp_divnorm\<close>, for a divisor whose high bit is set.\<close>

lemma mp_divnorm_ok:
  assumes "tabb \<noteq> []" "length tabb \<le> length taba" "2 ^ 63 \<le> uint (last tabb)"
  shows "\<exists>qs rs. mp_divnorm taba tabb = Some (qs, rs) \<and> length qs = length taba - length tabb + 1 \<and> length rs = length tabb \<and>
    uval taba = uval rs + uval qs * uval tabb \<and> uval rs < uval tabb"
proof (cases "length tabb = 1")
  case True
  then obtain b where b: "tabb = [b]" by (cases tabb) auto
  obtain q r where m: "mp_div1 taba b 0 = (q, r)" by fastforce
  have z: "0 < b" using assms(3) b by (simp add: word_less_def)
  have "mp_divnorm taba tabb = Some (q, [r])" using m div1norm_eq [of b 0 taba] assms(3) z by (simp add: mp_divnorm_def b)
  then show ?thesis using mp_div1_uval [OF m z] assms(2) b by (auto simp: word_less_def mult.commute)
next
  case False
  then obtain n where n: "length tabb = Suc n" using assms(1) by (cases tabb) auto
  define k where "k = length taba - length tabb"
  define inv where "inv = (if UDIV1NORM_THRESHOLD \<le> k then udiv1norm_init (last tabb) else 0)"
  define hi where "hi = drop k taba"
  define q where "q = first_digit (rev hi) (rev tabb)"
  define cur where "cur = (if q \<noteq> 0 then fst (mp_sub hi tabb 0) else hi)"
  have hi: "length hi = Suc n" "uval taba = uval (take k taba) + base k * uval hi"
    using uval_append [of "take k taba" hi] assms(2) n by (simp_all add: hi_def k_def)
  have inv: "inv = 0 \<or> inv = udiv1norm_init (last tabb)" and k: "length (take k taba) = k" by (simp_all add: inv_def k_def)
  have q: "q = of_bool (uval tabb \<le> uval hi)" using first_digit_ge [of "rev hi" "rev tabb"] hi(1) n by (simp add: q_def)
  have half: "uval hi < 2 * uval tabb"
  proof -
    have "base n * 2 ^ 63 \<le> base n * uint (last tabb)" using assms(3) by (intro mult_left_mono) simp_all
    also have "\<dots> \<le> uval tabb" using top_le_uval [of tabb] n by simp
    finally have "2 * (base n * 2 ^ 63) \<le> 2 * uval tabb" by (intro mult_left_mono) simp_all
    moreover have "uval hi < 2 * (base n * 2 ^ 63)" using uval_less [of hi] hi(1) by simp
    ultimately show ?thesis by linarith
  qed
  have cur: "length cur = Suc n" "uval hi = uval cur + uint q * uval tabb" "uval cur < uval tabb"
  proof -
    obtain res c where m: "mp_sub hi tabb 0 = (res, c)" by fastforce
    have r: "uval res - base (Suc n) * uint c = uval hi - uval tabb" "uint c \<le> 1" "length res = Suc n"
      using mp_sub_uval [OF m] hi(1) n by simp_all
    have "uint c = 0" if "uval tabb \<le> uval hi"
      using carry_cases [OF r(2)] r(1) that uval_less [of res] r(3) by auto
    then show "length cur = Suc n" "uval hi = uval cur + uint q * uval tabb" "uval cur < uval tabb"
      using q m r hi(1) half by (auto simp: cur_def)
  qed
  obtain qs rs where l: "divnorm_loop tabb inv (take k taba) cur = Some (qs, rs)" "length qs = k" "length rs = Suc n"
    "uval (take k taba) + base k * uval cur = uval rs + uval qs * uval tabb" "uval rs < uval tabb"
    using divnorm_loop_ok [OF n cur(1) assms(3) cur(3), of inv "take k taba"] inv k by auto
  have "mp_divnorm taba tabb = Some (qs @ [q], rs)"
    using False l(1) unfolding mp_divnorm_def Let_def k_def [symmetric] inv_def [symmetric] hi_def [symmetric] q_def [symmetric] cur_def [symmetric]
    by simp
  moreover have "uval taba = uval rs + uval (qs @ [q]) * uval tabb"
    using hi(2) l(4) l(2) cur(2) by (simp add: algebra_simps)
  ultimately show ?thesis using l(2,3,5) n by (simp add: k_def)
qed

section \<open>Magnitudes\<close>

lemma strip_len_bounds: "0 < n \<Longrightarrow> 0 < strip_len r n \<and> strip_len r n \<le> n"
  by (induction r n rule: strip_len.induct) auto

lemma uval_strip_len: "n \<le> length r \<Longrightarrow> uval (take (strip_len r n) r) = uval (take n r)"
proof (induction r n rule: strip_len.induct)
  case (1 r n)
  have "take (Suc (Suc n)) r = take (Suc n) r @ [r ! Suc n]" using 1(2) by (simp add: take_Suc_conv_app_nth)
  then show ?case using 1 by simp
qed simp_all

lemma strip_len_top: "strip_len r n \<le> 1 \<or> r ! (strip_len r n - 1) \<noteq> 0"
  by (induction r n rule: strip_len.induct) auto

lemma strip_ok:
  assumes "r \<noteq> []"
  shows "uval (strip r) = uval r" "strip r \<noteq> []" "length (strip r) \<le> length r" "1 < length (strip r) \<Longrightarrow> last (strip r) \<noteq> 0"
proof -
  note b = strip_len_bounds [of "length r" r] strip_len_top [of r "length r"]
  show "uval (strip r) = uval r" using uval_strip_len [of "length r" r] by (simp add: strip_def)
  show "strip r \<noteq> []" "length (strip r) \<le> length r" using b assms by (simp_all add: strip_def)
  show "last (strip r) \<noteq> 0" if "1 < length (strip r)" using that b assms by (auto simp: strip_def last_conv_nth min_def split: if_splits)
qed

lemma mp_neg_uval:
  assumes "mp_neg a = (res, c)"
  shows "uval res + base (length a) * uint c = base (length a) - uval a" "uint c \<le> 1" "length res = length a"
  using mp_neg_loop_uval [of a 1 res c] assms by (simp_all add: mp_neg_def)

lemma magnitude_ok:
  assumes "a \<noteq> []"
  shows "uval (magnitude a) = \<bar>sval a\<bar>" "magnitude a \<noteq> []" "length (magnitude a) \<le> length a"
    "1 < length (magnitude a) \<Longrightarrow> last (magnitude a) \<noteq> 0"
proof -
  define m where "m = (if negative a then fst (mp_neg a) else a)"
  have "uval m = \<bar>sval a\<bar> \<and> length m = length a"
  proof (cases "negative a")
    case True
    obtain res c where n: "mp_neg a = (res, c)" by fastforce
    note r = mp_neg_uval [OF n]
    have s: "uval res + base (length a) * uint c = - sval a" using r(1) True sval_uval [OF assms] by simp
    have "- sval a < base (length a)" using sval_bounds [OF assms] base_pos(1) [of "length a"] by linarith
    moreover have "base (length a) \<le> - sval a" if "c = 1" using s that uval_nonneg [of res] by (simp del: uval_nonneg)
    ultimately have "c \<noteq> 1" by auto
    then have "uval res = - sval a" using carry_cases [OF r(2)] s by auto
    moreover have "sval a < 0" using True negative_iff [OF assms] by simp
    ultimately show ?thesis using True r(3) n by (simp add: m_def)
  next
    case False
    then have "sval a = uval a" using sval_uval [OF assms] by simp
    then show ?thesis using False uval_nonneg [of a] by (simp add: m_def)
  qed
  moreover have "magnitude a = strip m" by (simp add: magnitude_def m_def)
  moreover have "m \<noteq> []" using calculation(1) assms by auto
  ultimately show "uval (magnitude a) = \<bar>sval a\<bar>" "magnitude a \<noteq> []" "length (magnitude a) \<le> length a"
    "1 < length (magnitude a) \<Longrightarrow> last (magnitude a) \<noteq> 0"
    using strip_ok [of m] by simp_all
qed

lemma zeros_above_bounds:
  assumes "uint a < 2 ^ k" "0 < uint a" "k \<le> 64"
  shows "zeros_above k a < k \<and> 2 ^ (k - 1) \<le> 2 ^ zeros_above k a * uint a \<and> 2 ^ zeros_above k a * uint a < 2 ^ k"
  using assms
proof (induction k)
  case (Suc k)
  show ?case
  proof (cases "bit a k")
    case True
    then have "odd (uint a div 2 ^ k)" using bit_uint_iff [of a k] Suc(4) by (simp add: bit_iff_odd)
    then have "uint a div 2 ^ k \<noteq> 0" by auto
    then have "2 ^ k \<le> uint a" using zdiv_eq_0_iff [of "uint a" "2 ^ k"] Suc(3) by auto
    then show ?thesis using True Suc(2) by simp
  next
    case False
    then have "even (uint a div 2 ^ k)" using bit_uint_iff [of a k] Suc(4) by (simp add: bit_iff_odd)
    moreover have "uint a div 2 ^ k < 2" by (rule int_div_less) (use Suc(2) in simp_all)
    moreover have "0 \<le> uint a div 2 ^ k" by (simp add: pos_imp_zdiv_nonneg_iff)
    ultimately have "uint a div 2 ^ k = 0" by (auto elim!: evenE)
    then have "uint a < 2 ^ k" using zdiv_eq_0_iff [of "uint a" "2 ^ k"] Suc(3) by auto
    with Suc have IH: "zeros_above k a < k" "2 ^ (k - 1) \<le> 2 ^ zeros_above k a * uint a" "2 ^ zeros_above k a * uint a < 2 ^ k" by simp_all
    have "(2 :: int) ^ k = 2 * 2 ^ (k - 1)" using IH(1) by (cases k) simp_all
    moreover have "2 ^ zeros_above (Suc k) a * uint a = 2 * (2 ^ zeros_above k a * uint a)" using False by simp
    ultimately show ?thesis using False IH by (simp add: mult.commute [of "uint a"])
  qed
qed simp

lemma clz_bounds:
  assumes "a \<noteq> 0"
  shows "js_limb_clz a < 64" "2 ^ 63 \<le> 2 ^ js_limb_clz a * uint a" "2 ^ js_limb_clz a * uint a < 2 ^ 64"
proof -
  have "0 < uint a" using assms uint_limb(1) [of a] by (simp add: order.strict_iff_order uint_0_iff)
  with zeros_above_bounds [of a 64] uint_limb(2) [of a]
  show "js_limb_clz a < 64" "2 ^ 63 \<le> 2 ^ js_limb_clz a * uint a" "2 ^ js_limb_clz a * uint a < 2 ^ 64"
    by (simp_all add: js_limb_clz_def)
qed

section \<open>Operands with the high bit of the divisor set\<close>

lemma shifted_divisor_ok:
  assumes "b \<noteq> []" "last b \<noteq> 0" "s = js_limb_clz (last b)"
  shows "uval (shifted_divisor s b) = 2 ^ s * uval b" "length (shifted_divisor s b) = length b"
    "2 ^ 63 \<le> uint (last (shifted_divisor s b))"
proof -
  define n where "n = length b - 1"
  have n: "length b = Suc n" using assms(1) by (cases b) (simp_all add: n_def)
  note clz = clz_bounds [OF assms(2), folded assms(3)]
  obtain r h where m: "mp_shl_loop b s 0 = (r, h)" by fastforce
  have r: "uval r + base (Suc n) * uint h = 2 ^ s * uval b" "length r = Suc n"
    using mp_shl_loop_uval [OF m] clz(1) n by simp_all
  have e: "(2 :: int) ^ 64 = 2 ^ s * 2 ^ (64 - s)" using clz(1) by (simp only: power_add [symmetric]) simp
  have "uint (last b) < 2 ^ (64 - s)" using clz(3) unfolding e by simp
  then have "2 ^ s * (uint (last b) + 1) \<le> 2 ^ 64" unfolding e by (intro mult_left_mono) simp_all
  then have "base n * (2 ^ s * (uint (last b) + 1)) \<le> base n * 2 ^ 64" by (intro mult_left_mono) simp_all
  moreover have "uval b < base n * (uint (last b) + 1)" using uval_less_top [OF assms(1)] n by simp
  then have "2 ^ s * uval b < 2 ^ s * (base n * (uint (last b) + 1))" by (intro mult_strict_left_mono) simp_all
  ultimately have lt: "2 ^ s * uval b < base (Suc n)" by (simp add: algebra_simps)
  have "h = 0"
  proof (rule ccontr)
    assume "h \<noteq> 0"
    then have "1 \<le> uint h" using uint_limb(1) [of h] uint_0_iff [of h] by linarith
    then have "base (Suc n) * 1 \<le> base (Suc n) * uint h" by (intro mult_left_mono) simp_all
    then show False using r(1) lt uval_nonneg [of r] by linarith
  qed
  then have u: "uval r = 2 ^ s * uval b" using r(1) by simp
  have "base n * 2 ^ 63 \<le> base n * (2 ^ s * uint (last b))" using clz(2) by (intro mult_left_mono) simp_all
  also have "\<dots> = 2 ^ s * (base n * uint (last b))" by (simp add: algebra_simps)
  also have "\<dots> \<le> 2 ^ s * uval b" using top_le_uval [of b] n by (intro mult_left_mono) simp_all
  also have "\<dots> < base n * (uint (last r) + 1)"
    unfolding u [symmetric] using uval_less_top [of r] r(2) by (cases "r = []") auto
  finally have "2 ^ 63 < uint (last r) + 1" by (simp only: mult_less_cancel_left_pos base_pos)
  moreover have "shifted_divisor s b = r" using m uval_inject [of r b] u n r(2) by (auto simp: shifted_divisor_def mp_shl_def)
  ultimately show "uval (shifted_divisor s b) = 2 ^ s * uval b" "length (shifted_divisor s b) = length b"
    "2 ^ 63 \<le> uint (last (shifted_divisor s b))" using u r(2) n by simp_all
qed

lemma shifted_dividend_ok:
  assumes "s < 64"
  shows "uval (shifted_dividend s r) = 2 ^ s * uval r" "length r \<le> length (shifted_dividend s r)"
    "length (shifted_dividend s r) \<le> Suc (length r)"
proof -
  obtain x h where m: "mp_shl_loop r s 0 = (x, h)" by fastforce
  have "uval x + base (length r) * uint h = 2 ^ s * uval r" "length x = length r"
    using mp_shl_loop_uval [OF m] assms by simp_all
  then show "uval (shifted_dividend s r) = 2 ^ s * uval r" "length r \<le> length (shifted_dividend s r)"
    "length (shifted_dividend s r) \<le> Suc (length r)"
    using m by (auto simp: shifted_dividend_def mp_shl_def)
qed

section \<open>Signs\<close>

lemma neg_limbs:
  shows "sval (if neg then fst (mp_neg (xs @ [0])) else xs @ [0]) = (if neg then - uval xs else uval xs)"
    and "length (if neg then fst (mp_neg (xs @ [0])) else xs @ [0]) = Suc (length xs)"
proof -
  obtain r c where m: "mp_neg (xs @ [0]) = (r, c)" by fastforce
  note n = mp_neg_uval [OF m]
  have ne: "r \<noteq> []" using n(3) by auto
  have "sval r = - uval xs"
  proof (rule sval_unique [OF ne])
    show "uval r = - uval xs + base (length r) * (1 - uint c)" using n(1,3) by (simp add: algebra_simps)
    have "base (length r) = 2 ^ 64 * base (length xs)" using n(3) by simp
    then show "- base (length r) \<le> 2 * - uval xs" "2 * - uval xs < base (length r)"
      using uval_bounds [of xs] base_pos(1) [of "length xs"] by (simp_all del: uval_nonneg uval_less)
  qed
  then show "sval (if neg then fst (mp_neg (xs @ [0])) else xs @ [0]) = (if neg then - uval xs else uval xs)"
    using m by (simp add: sval_append)
  show "length (if neg then fst (mp_neg (xs @ [0])) else xs @ [0]) = Suc (length xs)" using m n(3) by simp
qed

lemma finish_quot_ok: "normalized (finish_quot neg q) \<and> sval (finish_quot neg q) = (if neg then - uval q else uval q)"
proof -
  define r where "r = (if neg then fst (mp_neg (q @ [0])) else q @ [0])"
  have "r \<noteq> []" "sval r = (if neg then - uval q else uval q)" using neg_limbs [of neg q] by (auto simp: r_def)
  moreover have "finish_quot neg q = js_bigint_normalize r" by (simp add: finish_quot_def Let_def r_def)
  ultimately show ?thesis using normalize_ok [of r] by simp
qed

lemma finish_rem_ok:
  assumes "uval rs = 2 ^ s * m" "s < 64"
  shows "normalized (finish_rem s neg rs) \<and> sval (finish_rem s neg rs) = (if neg then - m else m)"
proof -
  define x where "x = (if s \<noteq> 0 then fst (mp_shr rs s 0) else rs)"
  obtain y l where l: "mp_shr_loop rs s 0 = (y, l)" by fastforce
  have "uval x = m"
  proof (cases "s = 0")
    case False
    then have "2 ^ s * uval y + uint l mod 2 ^ s = 2 ^ s * m" using mp_shr_loop_uval [OF l] assms by simp
    then have "uval y * 2 ^ s + uint l mod 2 ^ s = m * 2 ^ s + 0" by (simp add: mult.commute)
    from division_unique [OF this] show ?thesis using l False by (simp add: x_def mp_shr_def)
  qed (use assms in \<open>simp add: x_def\<close>)
  moreover have "finish_rem s neg rs = finish_quot neg x"
    by (simp add: finish_rem_def finish_quot_def Let_def x_def js_bigint_normalize_def)
  ultimately show ?thesis using finish_quot_ok [of neg x] by simp
qed

section \<open>The contract of \<open>js_bigint_divrem\<close>\<close>

lemma magnitude_last:
  assumes "b \<noteq> []" "sval b \<noteq> 0"
  shows "last (magnitude b) \<noteq> 0"
proof (cases "1 < length (magnitude b)")
  case False
  then obtain x where "magnitude b = [x]" using magnitude_ok(2) [OF assms(1)] by (cases "magnitude b"; cases "tl (magnitude b)") auto
  then show ?thesis using magnitude_ok(1) [OF assms(1)] assms(2) by auto
qed (rule magnitude_ok(4) [OF assms(1)])

text \<open>A shorter magnitude is smaller.\<close>

lemma magnitude_shorter:
  assumes "a \<noteq> []" "b \<noteq> []" "length (magnitude a) < length (magnitude b)"
  shows "\<bar>sval a\<bar> < \<bar>sval b\<bar>"
proof -
  define n where "n = length (magnitude b) - 1"
  have n: "length (magnitude a) \<le> n" "1 < length (magnitude b)"
    using assms(3) magnitude_ok(2) [OF assms(1)] by (cases "magnitude a"; simp add: n_def)+
  have "1 \<le> uint (last (magnitude b))"
    using magnitude_ok(4) [OF assms(2) n(2)] uint_limb(1) [of "last (magnitude b)"] uint_0_iff [of "last (magnitude b)"] by linarith
  then have "base n * 1 \<le> base n * uint (last (magnitude b))" by (intro mult_left_mono) simp_all
  also have "\<dots> \<le> uval (magnitude b)" using top_le_uval [of "magnitude b"] n(2) by (cases "magnitude b = []") (simp_all add: n_def)
  finally have "base n \<le> \<bar>sval b\<bar>" using magnitude_ok(1) [OF assms(2)] by simp
  moreover have "base (length (magnitude a)) \<le> base n" using n(1) unfolding base_def by (intro power_increasing) simp_all
  moreover have "\<bar>sval a\<bar> < base (length (magnitude a))" using uval_bounds [of "magnitude a"] magnitude_ok(1) [OF assms(1)] by simp
  ultimately show ?thesis by linarith
qed

lemma sdiv_eq: "(a :: int) sdiv b = (if (a < 0) \<noteq> (b < 0) then - (\<bar>a\<bar> div \<bar>b\<bar>) else \<bar>a\<bar> div \<bar>b\<bar>)"
  by (auto simp: signed_divide_int_def sgn_if)

lemma smod_eq: "(a :: int) smod b = (if a < 0 then - (\<bar>a\<bar> mod \<bar>b\<bar>) else \<bar>a\<bar> mod \<bar>b\<bar>)"
  by (simp add: smod_int_alt_def sgn_if)

lemma scaled_division:
  fixes x y m q r :: int
  assumes "m * x = r + q * (m * y)" "0 \<le> r" "r < m * y" "0 < m"
  shows "q = x div y \<and> r = m * (x mod y)"
proof (rule division_unique)
  have y: "0 < y" using assms(2,3,4) by (metis le_less_trans zero_less_mult_pos)
  have "m * x = m * (x div y * y + x mod y)" by simp
  also have "\<dots> = (x div y) * (m * y) + m * (x mod y)" by (simp only: distrib_left ac_simps)
  finally show "q * (m * y) + r = (x div y) * (m * y) + m * (x mod y)" using assms(1) by linarith
  show "0 \<le> m * (x mod y)" "m * (x mod y) < m * y" using assms(4) y by simp_all
qed (use assms in simp_all)

text \<open>Past the trivial case, quotient and remainder of the magnitudes.\<close>

lemma divide_magnitudes:
  assumes "a \<noteq> []" "b \<noteq> []" "sval b \<noteq> 0" "length (magnitude b) \<le> length (magnitude a)"
    "s = js_limb_clz (last (magnitude b))" "r = shifted_dividend s (magnitude a)" "t = shifted_divisor s (magnitude b)"
  shows "\<exists>q rs. mp_divnorm r t = Some (q, rs) \<and> uval q = \<bar>sval a\<bar> div \<bar>sval b\<bar> \<and> uval rs = 2 ^ s * (\<bar>sval a\<bar> mod \<bar>sval b\<bar>)"
    and "length r - length t + 2 \<le> length a + 2" "s < 64"
proof -
  note nz = magnitude_last [OF assms(2,3)]
  note t = shifted_divisor_ok [OF magnitude_ok(2) [OF assms(2)] nz assms(5), folded assms(7)]
  show s: "s < 64" using clz_bounds(1) [OF nz] assms(5) by simp
  note r = shifted_dividend_ok [OF s, of "magnitude a", folded assms(6)]
  have "t \<noteq> []" "length t \<le> length r" using t(2) r(2) assms(4) magnitude_ok(2) [OF assms(2)] by auto
  from mp_divnorm_ok [OF this t(3)] obtain q rs where q: "mp_divnorm r t = Some (q, rs)"
    "uval r = uval rs + uval q * uval t" "uval rs < uval t" by blast
  have "2 ^ s * \<bar>sval a\<bar> = uval rs + uval q * (2 ^ s * \<bar>sval b\<bar>)" "uval rs < 2 ^ s * \<bar>sval b\<bar>"
    using q(2,3) r(1) t(1) magnitude_ok(1) [OF assms(1)] magnitude_ok(1) [OF assms(2)] by simp_all
  from scaled_division [OF this(1) uval_nonneg this(2)] q(1)
  show "\<exists>q rs. mp_divnorm r t = Some (q, rs) \<and> uval q = \<bar>sval a\<bar> div \<bar>sval b\<bar> \<and> uval rs = 2 ^ s * (\<bar>sval a\<bar> mod \<bar>sval b\<bar>)"
    by simp
  show "length r - length t + 2 \<le> length a + 2"
    using r(3) t(2) magnitude_ok(3) [OF assms(1)] magnitude_ok(2) [OF assms(2)] by (cases "magnitude b") auto
qed

lemma zero_limbs: "normalized b \<Longrightarrow> sval b = 0 \<longleftrightarrow> length b = 1 \<and> b ! 0 = 0"
proof -
  assume "normalized b"
  then have "sval b = 0 \<longleftrightarrow> b = [0]" using bigint.equal_iff [of b "[0]"] by (simp add: normalized_def)
  then show ?thesis by (cases b) auto
qed

text \<open>What is computed once the allocations of an operation have succeeded.\<close>

definition divrem_spec :: "int \<Rightarrow> int \<Rightarrow> bool \<Rightarrow> int" where
  "divrem_spec x y is_rem = (if is_rem then x smod y else x sdiv y)"

lemma divrem_ok:
  assumes "normalized a" "normalized b" "sval b \<noteq> 0"
  shows "\<exists>res. js_bigint_divrem A a b is_rem = Some res \<and>
    (case res of Inr r \<Rightarrow> normalized r \<and> sval r = divrem_spec (sval a) (sval b) is_rem | Inl e \<Rightarrow> failed A (length a + 2) e)"
proof -
  have ne: "a \<noteq> []" "b \<noteq> []" using assms by (simp_all add: normalized_def)
  have nz: "\<not> (length b = 1 \<and> b ! 0 = 0)" using zero_limbs [OF assms(2)] assms(3) by simp
  have new: "js_bigint_new A k n = Inr () \<or> (\<exists>e. js_bigint_new A k n = Inl e \<and> failed A (length a + 2) e)" if "n \<le> length a + 2" for k n
    using new_cases [of A k n] failed_mono [OF _ that] by blast
  have sign: "js_bigint_sign x \<noteq> 0 \<longleftrightarrow> sval x < 0" if "x \<noteq> []" for x using negative_iff [OF that] by simp
  note defs = js_bigint_divrem_def if_not_P [OF nz] Let_def sign [OF ne(1)] sign [OF ne(2)]
  consider e where "js_bigint_new A 0 (length a + 2) = Inl e" "failed A (length a + 2) e"
    | "js_bigint_new A 0 (length a + 2) = Inr ()" "\<not> A 1 (length b * 8)"
    | "js_bigint_new A 0 (length a + 2) = Inr ()" "A 1 (length b * 8)" using new [of "length a + 2" 0] by auto
  then show ?thesis
  proof cases
    case 3
    show ?thesis
    proof (cases "length (magnitude a) < length (magnitude b)")
      case True
      have "\<bar>sval a\<bar> < \<bar>sval b\<bar>" by (rule magnitude_shorter [OF ne True])
      then have s: "divrem_spec (sval a) (sval b) is_rem = (if is_rem then sval a else 0)"
        by (simp add: divrem_spec_def sdiv_eq smod_eq div_pos_pos_trivial)
      have "js_bigint_divrem A a b is_rem = Some (if is_rem then
          (case js_bigint_new A 2 (length a) of Inl e \<Rightarrow> Inl e | Inr _ \<Rightarrow> Inr a) else js_bigint_new_si A 2 0)"
        unfolding defs using 3 True by simp
      moreover have "normalized [0]" "sval [0] = 0" by (simp_all add: normalized_def)
      ultimately show ?thesis
        using s assms(1) new [of "length a" 2] new_si_ok [where A = A and k = 2 and x = 0 and n = "length a + 2"]
        by (cases is_rem) (auto split: sum.splits)
    next
      case False
      define s r t where "s = js_limb_clz (last (magnitude b))" "r = shifted_dividend s (magnitude a)" "t = shifted_divisor s (magnitude b)"
      note srt = this
      note d = divide_magnitudes [OF ne assms(3) _ srt] False
      obtain q rs where q: "mp_divnorm r t = Some (q, rs)" "uval q = \<bar>sval a\<bar> div \<bar>sval b\<bar>"
        "uval rs = 2 ^ s * (\<bar>sval a\<bar> mod \<bar>sval b\<bar>)" using d by auto
      have e: "js_bigint_divrem A a b is_rem = (case js_bigint_new A 2 (length r - length t + 2) of
          Inl e \<Rightarrow> Some (Inl e)
        | Inr _ \<Rightarrow> Some (Inr (if is_rem then finish_rem s (sval a < 0) rs else finish_quot ((sval a < 0) \<noteq> (sval b < 0)) q)))"
        unfolding defs srt(1) [symmetric] srt(2,3) [symmetric] using 3 False q(1) by (simp split: sum.split)
      have len: "length r - length t + 2 \<le> length a + 2" and s64: "s < 64" using d(2,3) False by simp_all
      have v: "normalized (if is_rem then finish_rem s (sval a < 0) rs else finish_quot ((sval a < 0) \<noteq> (sval b < 0)) q)"
        "sval (if is_rem then finish_rem s (sval a < 0) rs else finish_quot ((sval a < 0) \<noteq> (sval b < 0)) q) =
          divrem_spec (sval a) (sval b) is_rem"
        using finish_quot_ok [of "(sval a < 0) \<noteq> (sval b < 0)" q] finish_rem_ok [OF q(3) s64, of "sval a < 0"] q(2)
        by (cases is_rem; simp add: divrem_spec_def sdiv_eq smod_eq)+
      show ?thesis using new [OF len, of 2]
      proof
        assume "js_bigint_new A 2 (length r - length t + 2) = Inr ()"
        then show ?thesis unfolding e using v by (simp only: sum.case) simp
      qed (auto simp: e)
    qed
  qed (use nz in \<open>auto simp: defs failed_def\<close>)
qed

section \<open>Properties\<close>

text \<open>C31: dividing \<open>BigInt\<close> values always ends, with the quotient rounded towards zero or the remainder with the
  sign of the dividend, in normal form; the only failures are division by zero, the size limit and
  memory.\<close>

theorem bigint_divrem_correct:
  assumes "normalized a" "normalized b"
  shows "\<exists>res. js_bigint_divrem A a b is_rem = Some res \<and>
    (case res of
       Inr r \<Rightarrow> sval b \<noteq> 0 \<and> normalized r \<and> sval r = (if is_rem then sval a smod sval b else sval a sdiv sval b)
     | Inl e \<Rightarrow> if sval b = 0 then e = DivisionByZero else failed A (length a + 2) e)"
proof (cases "sval b = 0")
  case True
  then have "js_bigint_divrem A a b is_rem = Some (Inl DivisionByZero)"
    using zero_limbs [OF assms(2)] by (simp add: js_bigint_divrem_def)
  then show ?thesis using True by simp
next
  case False
  obtain res where "js_bigint_divrem A a b is_rem = Some res"
    "case res of Inr r \<Rightarrow> normalized r \<and> sval r = divrem_spec (sval a) (sval b) is_rem | Inl e \<Rightarrow> failed A (length a + 2) e"
    using divrem_ok [OF assms False, of A is_rem] by blast
  then show ?thesis using False by (cases res) (simp_all add: divrem_spec_def)
qed

theorem bigint_divrem_correct_witness:
  "\<exists>r. js_bigint_divrem (\<lambda>k s. True) [0, 0, 1] [- 3] False = Some (Inr r) \<and> normalized r \<and> sval r = - (2 ^ 128 div 3)"
proof -
  have n: "normalized [0, 0, 1]" "normalized [- 3]" by (simp_all add: normalized_def significant_def)
  have v: "sval [0, 0, 1] = 2 ^ 128" "sval [- 3] = - 3" by simp_all
  have f: "\<not> failed (\<lambda>k s. True) (length [0 :: limb, 0, 1] + 2) e" for e by (rule within_memory) (simp add: JS_BIGINT_MAX_SIZE_def)
  obtain res where res: "js_bigint_divrem (\<lambda>k s. True) [0, 0, 1] [- 3] False = Some res"
    "case res of
       Inr r \<Rightarrow> sval [- 3] \<noteq> 0 \<and> normalized r \<and> sval r = (if False then sval [0, 0, 1] smod sval [- 3] else sval [0, 0, 1] sdiv sval [- 3])
     | Inl e \<Rightarrow> if sval [- 3] = 0 then e = DivisionByZero else failed (\<lambda>k s. True) (length [0 :: limb, 0, 1] + 2) e"
    using bigint_divrem_correct [OF n, of "\<lambda>k s. True" False] by blast
  show ?thesis
  proof (cases res)
    case (Inl e)
    then show ?thesis using res(2) f [of e] by (simp only: sum.case v) simp
  next
    case (Inr r)
    then show ?thesis using res by (simp only: sum.case v) (simp add: sdiv_eq)
  qed
qed

text \<open>C35: dividing two limbs by one through the precomputed inverse, as \<open>mp_div1norm\<close> does for long arrays, gives
  the same digits and the same remainder as the plain loop \<open>mp_div1\<close>.\<close>

theorem div1norm_equivalent:
  assumes "2 ^ 63 \<le> uint b" "r < b"
  shows "mp_div1norm taba b r = mp_div1 taba b r"
  using assms by (rule div1norm_eq)

theorem div1norm_equivalent_witness:
  "mp_div1norm [1, 2, 3, 4] 0x8000000000000001 5 = mp_div1 [1, 2, 3, 4] 0x8000000000000001 5"
  by (rule div1norm_equivalent) simp_all

end
