(* ===== verification/BigPow.thy ===== *)
theory BigPow
  imports Division
begin

text \<open>
  Creating \<open>BigInt\<close> values from machine integers, reading them back with saturation, and exponentiation
  (\<open>js_bigint_pow\<close>): special cases for a single limb, a direct result for powers of two, and repeated
  squaring.
\<close>

section \<open>Machine integers\<close>

lemma new_ok:
  assumes "n \<le> JS_BIGINT_MAX_SIZE" "normalized r" "sval r = v"
  shows "case (case js_bigint_new A k n of Inl e \<Rightarrow> Inl e | Inr _ \<Rightarrow> Inr r) of
    Inr r \<Rightarrow> normalized r \<and> sval r = v | Inl e \<Rightarrow> e = NoMemory \<and> (\<exists>k s. \<not> A k s)"
  using assms by (auto simp: js_bigint_new_def)

lemma small_sizes: "1 \<le> JS_BIGINT_MAX_SIZE" "2 \<le> JS_BIGINT_MAX_SIZE"
  by (simp_all add: JS_BIGINT_MAX_SIZE_def)

lemma normalized_single [simp]: "normalized [x]"
  by (simp add: normalized_def)

lemma new_si_value:
  "case js_bigint_new_si A k x of Inr r \<Rightarrow> normalized r \<and> sval r = sint x | Inl e \<Rightarrow> e = NoMemory \<and> (\<exists>k s. \<not> A k s)"
  unfolding js_bigint_new_si_def by (rule new_ok) (simp_all add: JS_BIGINT_MAX_SIZE_def)

lemma new_ui64_value:
  "case js_bigint_new_ui64 A k a of Inr r \<Rightarrow> normalized r \<and> sval r = uint a | Inl e \<Rightarrow> e = NoMemory \<and> (\<exists>k s. \<not> A k s)"
proof (cases "a \<le> 0x7FFFFFFFFFFFFFFF")
  case True
  then have "\<not> bit a 63" by (simp add: bit_63 word_le_def)
  then have a: "sint a = uint a" by (simp add: sint_limb)
  show ?thesis using new_si_value [where A = A and k = k and x = a] True unfolding a by (simp add: js_bigint_new_ui64_def)
next
  case False
  then have b: "bit a 63" by (simp add: bit_63 word_le_def)
  then have "normalized [a, 0]" by (simp add: normalized_def significant_def top_bit)
  moreover have "js_bigint_new_ui64 A k a = (case js_bigint_new A k 2 of Inl e \<Rightarrow> Inl e | Inr _ \<Rightarrow> Inr [a, 0])"
    using False by (simp add: js_bigint_new_ui64_def)
  ultimately show ?thesis using new_ok [OF small_sizes(2), where A = A and k = k and r = "[a, 0]" and v = "uint a"] by simp
qed

lemma sint_sdrop: "sint (ucast (signed_drop_bit 64 (a :: dlimb)) :: limb) = sint a div 2 ^ 64"
proof -
  define d where "d = signed_drop_bit 64 a"
  have d: "sint d = sint a div 2 ^ 64" by (simp add: d_def sint_signed_drop_bit_eq drop_bit_eq_div)
  have "- (2 ^ 127) \<le> sint a" "sint a < 2 ^ 127" using sint_range_size [of a] by (simp_all add: word_size)
  then have r: "- (2 ^ 63) \<le> sint d" "sint d < 2 ^ 63"
    unfolding d by (simp_all add: int_div_ge int_div_less)
  have "sint (ucast d :: limb) = signed_take_bit 63 (uint d)" by (simp add: signed_ucast_eq)
  also have "uint d = take_bit 128 (sint d)" by (simp add: uint_sint)
  also have "signed_take_bit 63 (take_bit 128 (sint d)) = signed_take_bit 63 (sint d)" by (simp add: signed_take_bit_take_bit)
  also have "\<dots> = sint d" using r by (simp add: signed_take_bit_int_eq_self)
  finally show ?thesis unfolding d_def [symmetric] d .
qed

lemma sint_scast_limb: "sint (scast (x :: limb) :: dlimb) = sint x"
proof -
  have "- (2 ^ 63) \<le> sint x" "sint x < 2 ^ 63" using sint_range_size [of x] by (simp_all add: word_size)
  then have "signed_take_bit 127 (sint x) = sint x" by (intro signed_take_bit_int_eq_self) simp_all
  then show ?thesis by (simp add: signed_scast_eq)
qed

lemma new_di_value:
  "case js_bigint_new_di A k a of Inr r \<Rightarrow> normalized r \<and> sval r = sint a | Inl e \<Rightarrow> e = NoMemory \<and> (\<exists>k s. \<not> A k s)"
proof (cases "a = scast (ucast a :: limb)")
  case True
  have "sint (ucast a :: limb) = sint a" using arg_cong [OF True, of sint] unfolding sint_scast_limb by (rule sym)
  then show ?thesis using new_ok [OF small_sizes(1), where A = A and k = k and r = "[ucast a]" and v = "sint a"] True
    by (simp add: js_bigint_new_di_def)
next
  case False
  define l h :: limb where "l = ucast a" "h = ucast (signed_drop_bit 64 a)"
  note lh = this
  have "uint a = sint a mod 2 ^ 128" by (simp add: uint_sint take_bit_eq_mod)
  then have "uint l = sint a mod 2 ^ 128 mod 2 ^ 64" unfolding lh uint_low by (simp only: )
  also have "\<dots> = sint a mod 2 ^ 64" by (rule mod_mod_cancel) simp
  finally have v: "uint l + 2 ^ 64 * sint h = sint a" unfolding lh sint_sdrop by (simp only: mod_mult_div_eq)
  have "sint a \<noteq> sint l" using False sint_scast_limb [of l] signed_word_eqI [of a "scast l"] unfolding lh by metis
  then have "normalized [l, h]" using v by (simp add: normalized_def significant_iff)
  moreover have "js_bigint_new_di A k a = (case js_bigint_new A k 2 of Inl e \<Rightarrow> Inl e | Inr _ \<Rightarrow> Inr [l, h])"
    unfolding js_bigint_new_di_def if_not_P [OF False] lh ..
  ultimately show ?thesis using new_ok [OF small_sizes(2), where A = A and k = k and r = "[l, h]" and v = "sint a"] v by simp
qed

text \<open>Reading with saturation.\<close>

lemma get_si_sat_value:
  assumes "normalized a"
  shows "sint (js_bigint_get_si_sat a) = max (- (2 ^ 63)) (min (2 ^ 63 - 1) (sval a))"
proof (cases "length a = 1")
  case True
  then obtain x where "a = [x]" by (cases a) auto
  then show ?thesis using sint_range_size [of x] by (simp add: js_bigint_get_si_sat_def word_size)
next
  case False
  then obtain n where n: "length a = Suc (Suc n)" using assms by (cases a; cases "tl a") (auto simp: normalized_def)
  have "1 \<le> base n" using base_pos(1) [of n] by linarith
  then have "2 ^ 64 \<le> base (Suc n)" by simp
  then show ?thesis using normalized_range [OF assms n] False by (auto simp: js_bigint_get_si_sat_def split: if_splits)
qed

section \<open>Exponentiation\<close>

datatype pow_error = NegativeExponent | PowTooLarge | PowFailed bigint_error

text \<open>A power of two to the power \<open>b\<close>: one bit, at the right place.\<close>

definition pow2_result :: "alloc \<Rightarrow> limb \<Rightarrow> bool \<Rightarrow> bigint \<Rightarrow> pow_error + bigint" where
  "pow2_result A v is_neg b =
     (let n = 63 - js_limb_clz v in
      if length b > 1 then Inl PowTooLarge
      else if b ! 0 > 0x7FFFFFFF then Inl PowTooLarge
      else
        let e1 = unat (b ! 0) * n in
        if e1 > JS_BIGINT_MAX_SIZE * 64 then Inl PowTooLarge
        else
          let e = e1; is_neg = (is_neg \<and> b ! 0 AND 1 \<noteq> 0); len = (e + 64 + 1 - of_bool is_neg) div 64 in
          case js_bigint_new A 0 len of
            Inl x \<Rightarrow> Inl (PowFailed x)
          | Inr _ \<Rightarrow> Inr ((replicate len 0)[e div 64 := push_bit (e mod 64) (1 - 2 * of_bool is_neg)]))"

text \<open>The loop over the bits of the exponent, from the second highest down; \<open>j\<close> counts the allocations.\<close>

fun pow_loop :: "alloc \<Rightarrow> nat \<Rightarrow> bigint \<Rightarrow> 32 word \<Rightarrow> nat \<Rightarrow> bigint \<Rightarrow> pow_error + bigint" where
  "pow_loop A j a e 0 r = Inr r"
| "pow_loop A j a e (Suc i) r =
     (case js_bigint_mul (\<lambda>k. A (j + k)) r r of
        Inl x \<Rightarrow> Inl (PowFailed x)
      | Inr r \<Rightarrow>
          if drop_bit i e AND 1 \<noteq> 0 then
            (case js_bigint_mul (\<lambda>k. A (j + 1 + k)) r a of
               Inl x \<Rightarrow> Inl (PowFailed x)
             | Inr r \<Rightarrow> pow_loop A (j + 2) a e i r)
          else pow_loop A (j + 1) a e i r)"

text \<open>\<open>clz32\<close>.\<close>

definition clz32 :: "32 word \<Rightarrow> nat" where
  "clz32 e = zeros_above 32 (ucast e)"

definition pow_squaring :: "alloc \<Rightarrow> bigint \<Rightarrow> bigint \<Rightarrow> pow_error + bigint" where
  "pow_squaring A a b =
     (if length b > 1 then Inl PowTooLarge
      else if b ! 0 > 0x7FFFFFFF then Inl PowTooLarge
      else
        let e = ucast (b ! 0); n_bits = 32 - clz32 e in
        case js_bigint_new A 0 (length a) of
          Inl x \<Rightarrow> Inl (PowFailed x)
        | Inr _ \<Rightarrow> pow_loop A 1 a e (n_bits - 1) a)"

definition js_bigint_pow :: "alloc \<Rightarrow> bigint \<Rightarrow> bigint \<Rightarrow> pow_error + bigint" where
  "js_bigint_pow A a b =
     (let lift = map_sum PowFailed id in
      if js_bigint_sign b \<noteq> 0 then Inl NegativeExponent
      else if length b = 1 \<and> b ! 0 = 0 then lift (js_bigint_new_si A 0 1)
      else if length a = 1 then
        (let v = a ! 0 in
         if v \<le> 1 then lift (js_bigint_new_si A 0 v)
         else if v = - 1 then lift (js_bigint_new_si A 0 (1 - 2 * (b ! 0 AND 1)))
         else
           let is_neg = v <s 0; v = (if is_neg then - v else v) in
           if v AND (v - 1) = 0 then pow2_result A v is_neg b
           else pow_squaring A a b)
      else pow_squaring A a b)"

subsection \<open>Repeated squaring\<close>

text \<open>A value close to the size limit, and the failures of one operation that computes it.\<close>

definition too_large :: "int \<Rightarrow> bool" where
  "too_large v \<longleftrightarrow> 2 ^ (JS_BIGINT_MAX_SIZE * 64 - 66) \<le> \<bar>v\<bar>"

definition resource_error :: "alloc \<Rightarrow> int \<Rightarrow> bigint_error \<Rightarrow> bool" where
  "resource_error A v e \<longleftrightarrow> e = TooLarge \<and> too_large v \<or> e = NoMemory \<and> (\<exists>k s. \<not> A k s)"

definition pow_returns :: "alloc \<Rightarrow> int \<Rightarrow> pow_error + bigint \<Rightarrow> bool" where
  "pow_returns A v res \<longleftrightarrow> (case res of
     Inr r \<Rightarrow> normalized r \<and> sval r = v
   | Inl NegativeExponent \<Rightarrow> False
   | Inl PowTooLarge \<Rightarrow> too_large v
   | Inl (PowFailed e) \<Rightarrow> resource_error A v e)"

lemma too_large_power: "2 ^ n \<le> \<bar>v\<bar> \<Longrightarrow> JS_BIGINT_MAX_SIZE * 64 - 66 \<le> n \<Longrightarrow> too_large v"
  unfolding too_large_def by (rule order_trans [OF power_increasing]) simp_all

lemma too_large_mono: "too_large u \<Longrightarrow> \<bar>u\<bar> \<le> \<bar>v\<bar> \<Longrightarrow> too_large v"
  unfolding too_large_def by (rule order_trans)

lemma resource_error_mono: "resource_error A u e \<Longrightarrow> \<bar>u\<bar> \<le> \<bar>v\<bar> \<Longrightarrow> resource_error A v e"
  unfolding resource_error_def using too_large_mono by blast

lemma base_eq_power: "base n = 2 ^ (64 * n)"
  by (simp only: base_def power_mult)

lemma normalized_size:
  assumes "normalized a" "sval a \<noteq> 0"
  shows "base (length a - 1) \<le> 2 * \<bar>sval a\<bar>"
proof (cases "length a = 1")
  case False
  then obtain n where n: "length a = Suc (Suc n)" using normalized_ne [OF assms(1)] by (cases a; cases "tl a") auto
  then show ?thesis using normalized_range [OF assms(1) n] by (simp split: if_splits)
qed (use assms(2) in simp)

lemma too_large_single:
  assumes "normalized a" "sval a \<noteq> 0" "JS_BIGINT_MAX_SIZE < length a"
  shows "too_large (sval a)"
proof (rule too_large_power)
  define n where "n = length a - 2"
  have "length a - 1 = Suc n" using assms(3) by (simp add: n_def JS_BIGINT_MAX_SIZE_def)
  then show "2 ^ (64 * n) \<le> \<bar>sval a\<bar>" using normalized_size [OF assms(1,2)] unfolding base_eq_power [symmetric] by simp
qed (use assms(3) in \<open>simp add: JS_BIGINT_MAX_SIZE_def\<close>)

lemma too_large_product:
  assumes "normalized a" "normalized b" "sval a \<noteq> 0" "sval b \<noteq> 0" "JS_BIGINT_MAX_SIZE < length a + length b"
  shows "too_large (sval a * sval b)"
proof (rule too_large_power)
  define l where "l = length a + length b - 2"
  have "length a - 1 + (length b - 1) = l" using normalized_ne [OF assms(1)] normalized_ne [OF assms(2)]
    by (cases a; cases b) (simp_all add: l_def)
  then have "base l = base (length a - 1) * base (length b - 1)" using base_add by metis
  also have "\<dots> \<le> 2 * \<bar>sval a\<bar> * (2 * \<bar>sval b\<bar>)"
    by (intro mult_mono normalized_size assms(1-4)) simp_all
  finally have "base l \<le> 2 ^ 2 * \<bar>sval a * sval b\<bar>" by (simp add: abs_mult)
  moreover have "64 * l = 2 + (64 * l - 2)" using assms(5) by (simp add: l_def JS_BIGINT_MAX_SIZE_def)
  then have "base l = 2 ^ 2 * 2 ^ (64 * l - 2)" unfolding base_eq_power power_add [symmetric] by (rule arg_cong)
  ultimately show "2 ^ (64 * l - 2) \<le> \<bar>sval a * sval b\<bar>" by (simp only: mult_le_cancel_left_pos zero_less_power zero_less_numeral)
qed (use assms(5) in \<open>simp add: JS_BIGINT_MAX_SIZE_def\<close>)

lemma mul_cases:
  assumes "normalized a" "normalized b" "sval a \<noteq> 0" "sval b \<noteq> 0"
  shows "(\<exists>r. js_bigint_mul (\<lambda>k. A (j + k)) a b = Inr r \<and> normalized r \<and> sval r = sval a * sval b) \<or>
    (\<exists>e. js_bigint_mul (\<lambda>k. A (j + k)) a b = Inl e \<and> resource_error A (sval a * sval b) e)"
  using mul_ok [OF normalized_ne [OF assms(1)] normalized_ne [OF assms(2)], of "\<lambda>k. A (j + k)"] too_large_product [OF assms]
  unfolding failed_def resource_error_def
  by (cases "js_bigint_mul (\<lambda>k. A (j + k)) a b") auto

lemma abs_power_mono: "2 \<le> \<bar>x :: int\<bar> \<Longrightarrow> m \<le> n \<Longrightarrow> \<bar>x ^ m\<bar> \<le> \<bar>x ^ n\<bar>"
  unfolding power_abs by (rule power_increasing) simp_all

lemma low_bit: "drop_bit i e AND 1 \<noteq> 0 \<longleftrightarrow> odd (unat (e :: 'a :: len word) div 2 ^ i)"
proof -
  have "drop_bit i e AND 1 \<noteq> 0 \<longleftrightarrow> bit e i" by (simp add: and_one_eq bit_iff_odd_drop_bit odd_iff_mod_2_eq_one)
  also have "\<dots> \<longleftrightarrow> bit (unat e) i" by (auto simp: bit_unsigned_iff dest: bit_imp_le_length)
  finally show ?thesis by (simp add: bit_iff_odd)
qed

lemma pow_loop_ok:
  assumes "normalized a" "2 \<le> \<bar>sval a\<bar>" "normalized r" "sval r = sval a ^ (unat e div 2 ^ i)"
  shows "pow_returns A (sval a ^ unat e) (pow_loop A j a e i r)"
  using assms
proof (induction A j a e i r rule: pow_loop.induct)
  case (2 A j a e i r)
  define E where "E = unat e div 2 ^ i"
  have E: "unat e div 2 ^ Suc i = E div 2" "2 * (E div 2) \<le> E" "E \<le> unat e" unfolding E_def power_Suc2 div_mult2_eq by simp_all
  note below = resource_error_mono [OF _ abs_power_mono [OF 2(4)]]
  have nz: "sval a \<noteq> 0" "sval r \<noteq> 0" using 2(4,6) by auto
  have sq: "sval r * sval r = sval a ^ (2 * (E div 2))" using 2(6) E(1) by (simp add: power_add [symmetric] mult_2)
  from mul_cases [OF 2(5,5) nz(2,2), of A j] show ?case unfolding sq
  proof
    assume "\<exists>r'. js_bigint_mul (\<lambda>k. A (j + k)) r r = Inr r' \<and> normalized r' \<and> sval r' = sval a ^ (2 * (E div 2))"
    then obtain s where s: "js_bigint_mul (\<lambda>k. A (j + k)) r r = Inr s" "normalized s" "sval s = sval a ^ (2 * (E div 2))" by blast
    show ?thesis
    proof (cases "odd E")
      case True
      then have c: "drop_bit i e AND 1 \<noteq> 0" by (simp add: low_bit E_def)
      have "sval s \<noteq> 0" using s(3) nz(1) by simp
      have "Suc (2 * (E div 2)) = E" using odd_two_times_div_two_succ [OF True] by linarith
      then have sa: "sval s * sval a = sval a ^ E" using s(3) power_Suc2 [of "sval a" "2 * (E div 2)"] by (simp only: )
      from mul_cases [OF s(2) 2(3) \<open>sval s \<noteq> 0\<close> nz(1), of A "j + 1"] show ?thesis unfolding sa
      proof
        assume "\<exists>r'. js_bigint_mul (\<lambda>k. A (j + 1 + k)) s a = Inr r' \<and> normalized r' \<and> sval r' = sval a ^ E"
        then obtain t where t: "js_bigint_mul (\<lambda>k. A (j + 1 + k)) s a = Inr t" "normalized t" "sval t = sval a ^ E" by blast
        from 2(1) [OF s(1) c t(1) 2(3,4) t(2) t(3) [unfolded E_def]] show ?thesis using s(1) t(1) c by simp
      next
        assume "\<exists>x. js_bigint_mul (\<lambda>k. A (j + 1 + k)) s a = Inl x \<and> resource_error A (sval a ^ E) x"
        then show ?thesis using s(1) c below [OF _ E(3)] by (auto simp: pow_returns_def)
      qed
    next
      case False
      then have c: "\<not> drop_bit i e AND 1 \<noteq> 0" using low_bit [of i e] by (simp add: E_def)
      have "sval s = sval a ^ (unat e div 2 ^ i)" using s(3) False by (simp add: E_def)
      from 2(2) [OF s(1) c 2(3,4) s(2) this] show ?thesis using s(1) c by simp
    qed
  next
    assume "\<exists>x. js_bigint_mul (\<lambda>k. A (j + k)) r r = Inl x \<and> resource_error A (sval a ^ (2 * (E div 2))) x"
    then show ?thesis using below [OF _ order_trans [OF E(2,3)]] by (auto simp: pow_returns_def)
  qed
qed (simp add: pow_returns_def)

lemma huge_power:
  assumes "2 \<le> \<bar>x :: int\<bar>" "JS_BIGINT_MAX_SIZE * 64 < n"
  shows "too_large (x ^ n)"
proof (rule too_large_power)
  show "2 ^ n \<le> \<bar>x ^ n\<bar>" unfolding power_abs using assms(1) by (intro power_mono) simp_all
qed (use assms(2) in simp)

text \<open>An exponent that does not fit in 31 bits makes every power of a number other than 0, 1 and -1 too large.\<close>

lemma exponent_cases:
  assumes "normalized b" "0 < sval b"
  obtains (fits) x where "b = [x]" "x \<le> 0x7FFFFFFF" "unat x = nat (sval b)" "0 < unat x"
    | (large) "length b > 1 \<or> b ! 0 > 0x7FFFFFFF" "JS_BIGINT_MAX_SIZE * 64 < nat (sval b)"
proof (cases "length b = 1")
  case True
  then obtain x where b: "b = [x]" by (cases b) auto
  have nb: "\<not> bit x 63" using assms(2) negative_iff [of b] b by (simp add: negative_def)
  then have v: "sval b = uint x" using b by (simp add: sint_limb)
  show thesis
  proof (cases "x \<le> 0x7FFFFFFF")
    case True
    moreover have u: "unat x = nat (sval b)" unfolding v by simp
    moreover have "0 < unat x" unfolding u using assms(2) by simp
    ultimately show thesis using fits b by blast
  next
    case False
    then have "0x7FFFFFFF < uint x" by (simp add: word_le_def)
    then have "JS_BIGINT_MAX_SIZE * 64 < nat (sval b)" unfolding v JS_BIGINT_MAX_SIZE_def by linarith
    then show thesis using large False b by simp
  qed
next
  case False
  then obtain n where n: "length b = Suc (Suc n)" using assms(1) by (cases b; cases "tl b") (auto simp: normalized_def)
  have "\<not> negative b" using assms(2) negative_iff [of b] normalized_ne [OF assms(1)] by simp
  then have "base (Suc n) \<le> 2 * sval b" using normalized_range [OF assms(1) n] by simp
  moreover have "1 \<le> base n" using base_pos(1) [of n] by linarith
  ultimately have "2 ^ 63 \<le> sval b" by simp
  then show thesis using large n by (simp add: JS_BIGINT_MAX_SIZE_def)
qed

lemma top_bit_index:
  assumes "0 < unat e"
  shows "unat e div 2 ^ (32 - clz32 e - 1) = 1"
proof -
  define x :: limb where "x = ucast e"
  have "uint e < 2 ^ 32" using uint_bounded [of e] by simp
  then have x: "uint x = uint e" by (simp add: x_def unsigned_ucast_eq take_bit_eq_mod)
  have "0 < uint e" using assms unfolding unat_eq_nat_uint by (simp only: zero_less_nat_eq)
  with \<open>uint e < 2 ^ 32\<close> have b: "clz32 e < 32" "2 ^ 31 \<le> 2 ^ clz32 e * uint e" "2 ^ clz32 e * uint e < 2 ^ 32"
    using zeros_above_bounds [of x 32] x by (simp_all add: clz32_def x_def)
  define t where "t = 31 - clz32 e"
  have "(2 :: int) ^ 31 = 2 ^ clz32 e * 2 ^ t" "(2 :: int) ^ 32 = 2 ^ clz32 e * 2 ^ Suc t"
    using b(1) unfolding power_add [symmetric] by (simp_all add: t_def)
  then have "2 ^ t \<le> uint e" "uint e < 2 ^ Suc t" using b(2,3)
    mult_le_cancel_left_pos [of "2 ^ clz32 e" "2 ^ t" "uint e"] mult_less_cancel_left_pos [of "2 ^ clz32 e" "uint e" "2 ^ Suc t"]
    by (simp_all only: zero_less_power zero_less_numeral)
  then have "2 ^ t \<le> unat e" "unat e < 2 ^ Suc t" unfolding unat_eq_nat_uint by (simp_all only: nat_less_iff le_nat_iff uint_ge_0) simp_all
  then have "unat e div 2 ^ t = 1" by (simp add: div_nat_eqI)
  then show ?thesis by (simp add: t_def)
qed

lemma pow_squaring_ok:
  assumes "normalized a" "2 \<le> \<bar>sval a\<bar>" "normalized b" "0 < sval b"
  shows "pow_returns A (sval a ^ nat (sval b)) (pow_squaring A a b)"
  using assms(3,4)
proof (cases rule: exponent_cases)
  case (fits x)
  define e :: "32 word" where "e = ucast x"
  have "uint x < 2 ^ 32" using fits(2) by (simp add: word_le_def)
  then have "uint e = uint x" by (simp add: e_def unsigned_ucast_eq take_bit_eq_mod)
  then have e: "unat e = nat (sval b)" unfolding fits(3) [symmetric] unat_eq_nat_uint by (simp only: )
  have "pow_squaring A a b = (case js_bigint_new A 0 (length a) of Inl x \<Rightarrow> Inl (PowFailed x) | Inr _ \<Rightarrow> pow_loop A 1 a e (32 - clz32 e - 1) a)"
    using fits(2) unfolding pow_squaring_def Let_def e_def fits(1) not_le [symmetric] nth_Cons_0 by simp
  moreover have "pow_returns A (sval a ^ unat e) (pow_loop A 1 a e (32 - clz32 e - 1) a)"
  proof (rule pow_loop_ok [OF assms(1,2,1)])
    have "0 < unat e" using e fits(3,4) by linarith
    then show "sval a = sval a ^ (unat e div 2 ^ (32 - clz32 e - 1))" unfolding top_bit_index [OF \<open>0 < unat e\<close>] by simp
  qed
  moreover have "resource_error A (sval a ^ unat e) err" if "failed A (length a) err" for err
  proof (rule resource_error_mono)
    have "sval a \<noteq> 0" using assms(2) by auto
    then show "resource_error A (sval a) err" using that too_large_single [OF assms(1)] by (auto simp: failed_def resource_error_def)
    show "\<bar>sval a\<bar> \<le> \<bar>sval a ^ unat e\<bar>" using abs_power_mono [OF assms(2), of 1 "unat e"] e fits(3,4) by simp
  qed
  ultimately show ?thesis using new_cases [of A 0 "length a"] unfolding e by (auto simp: pow_returns_def)
next
  case large
  then have "pow_squaring A a b = Inl PowTooLarge" by (auto simp: pow_squaring_def)
  then show ?thesis using huge_power [OF assms(2) large(2)] by (simp add: pow_returns_def)
qed

subsection \<open>Powers of two\<close>

lemma power_of_two:
  assumes "v \<noteq> 0" "v AND (v - 1) = 0"
  shows "uint v = 2 ^ (63 - js_limb_clz v)"
proof (rule ccontr)
  define n where "n = 63 - js_limb_clz v"
  note c = clz_bounds [OF assms(1)]
  have p: "(2 :: int) ^ 63 = 2 ^ js_limb_clz v * 2 ^ n" "(2 :: int) ^ 64 = 2 ^ js_limb_clz v * 2 ^ Suc n"
    using c(1) unfolding power_add [symmetric] by (simp_all add: n_def)
  then have r: "2 ^ n \<le> uint v" "uint v < 2 ^ Suc n" using c(2,3)
    mult_le_cancel_left_pos [of "2 ^ js_limb_clz v" "2 ^ n" "uint v"] mult_less_cancel_left_pos [of "2 ^ js_limb_clz v" "uint v" "2 ^ Suc n"]
    by (simp_all only: zero_less_power zero_less_numeral)
  assume "uint v \<noteq> 2 ^ (63 - js_limb_clz v)"
  then have l: "2 ^ n \<le> uint v - 1" using r(1) unfolding n_def [symmetric] by linarith
  have "0 < uint v" using r(1) zero_less_power [of "2 :: int" n] by linarith
  then have "uint (v - 1) = uint v - 1" using uint_sub_lem [of 1 v] by simp
  then have "2 ^ n \<le> uint (v - 1)" "uint (v - 1) < 2 ^ Suc n" using l r(2) by simp_all
  with r have "uint v div 2 ^ n = 1" "uint (v - 1) div 2 ^ n = 1" by (simp_all add: int_div_pos_eq [where r = "_ - 2 ^ n"])
  then have "bit (uint v) n" "bit (uint (v - 1)) n" unfolding bit_iff_odd by simp_all
  then have "bit (v AND (v - 1)) n" by (simp add: bit_and_iff bit_uint_iff)
  then show False using assms(2) by simp
qed

text \<open>The limbs of a single bit, with the sign.\<close>

lemma one_bit_limbs:
  assumes "s < 64" "t = (if \<not> neg \<and> s = 63 then [push_bit s 1, 0] else [push_bit s (1 - 2 * of_bool neg)])"
  shows "normalized t" "t \<noteq> [0]" "sval t = (if neg then - 1 else 1) * 2 ^ s"
proof -
  define x :: limb where "x = push_bit s (1 - 2 * of_bool neg)"
  have p: "(1 :: int) \<le> 2 ^ s" "(2 :: int) ^ s \<le> 2 ^ 63" using assms(1) by (simp, intro power_increasing) simp_all
  have x: "sint x = signed_take_bit 63 ((1 - 2 * of_bool neg) * 2 ^ s)"
    unfolding x_def signed_push_bit_eq by (cases neg) (simp_all add: push_bit_eq_mult)
  have "normalized t \<and> t \<noteq> [0] \<and> sval t = (if neg then - 1 else 1) * 2 ^ s"
  proof (cases "\<not> neg \<and> s = 63")
    case True
    then have "t = [0x8000000000000000, 0]" using assms(2) by (simp add: push_bit_eq_mult)
    then show ?thesis using True by (simp add: normalized_def significant_iff)
  next
    case False
    then have "- (2 ^ 63) \<le> (1 - 2 * of_bool neg) * (2 :: int) ^ s \<and> (1 - 2 * of_bool neg) * (2 :: int) ^ s < 2 ^ 63"
    proof (cases neg)
      case False
      then have "(2 :: int) ^ s < 2 ^ 63" using \<open>\<not> (\<not> neg \<and> s = 63)\<close> assms(1) by (intro power_strict_increasing) simp_all
      moreover have "- (2 ^ 63) \<le> (2 :: int) ^ s" by (rule order_trans [OF _ p(1)]) simp
      ultimately show ?thesis using False by simp
    next
      case True
      have "- ((2 :: int) ^ s) < 2 ^ 63" by (rule order_less_trans [of _ 0]) simp_all
      then show ?thesis using True p(2) by simp
    qed
    then have "sint x = (1 - 2 * of_bool neg) * 2 ^ s" unfolding x by (intro signed_take_bit_int_eq_self) simp_all
    moreover have "t = [x]" using False assms(2) unfolding x_def by (simp only: if_False)
    ultimately show ?thesis using p(1) by (cases neg) auto
  qed
  then show "normalized t" "t \<noteq> [0]" "sval t = (if neg then - 1 else 1) * 2 ^ s" by simp_all
qed

lemma update_at_end: "(replicate (d + n) z)[d := x] = replicate d z @ (replicate n z)[0 := x]"
  by (simp add: list_update_append replicate_add)

lemma pow2_limbs:
  fixes neg :: bool
  assumes "len = (e + 64 + 1 - of_bool neg) div 64"
  defines "r \<equiv> (replicate len (0 :: limb))[e div 64 := push_bit (e mod 64) (1 - 2 * of_bool neg)]"
  shows "normalized r" "sval r = (if neg then - 1 else 1) * 2 ^ e"
proof -
  define d s where "d = e div 64" "s = e mod 64"
  note ds = this
  define t :: "limb list" where "t = (if \<not> neg \<and> s = 63 then [push_bit s 1, 0] else [push_bit s (1 - 2 * of_bool neg)])"
  have s: "s < 64" "e = 64 * d + s" by (simp_all add: ds)
  have len: "len = d + (if \<not> neg \<and> s = 63 then 2 else 1)" unfolding assms(1) s(2) using s(1) by auto
  have "r = replicate d 0 @ t" unfolding r_def len ds(1) [symmetric] ds(2) [symmetric] update_at_end t_def
    by (auto simp: numeral_2_eq_2)
  note t = one_bit_limbs [OF s(1) t_def]
  show "normalized r" unfolding \<open>r = _\<close> by (rule normalized_shift [OF t(1,2)])
  have "sval r = base d * sval t" unfolding \<open>r = _\<close> sval_append [OF normalized_ne [OF t(1)]] by simp
  then show "sval r = (if neg then - 1 else 1) * 2 ^ e" unfolding t(3) shift_split [of e] ds [symmetric] by simp
qed

lemma signed_power:
  assumes "x = (if neg then - 1 else 1) * (2 :: int) ^ n"
  shows "x ^ k = (if neg \<and> odd k then - 1 else 1) * 2 ^ (k * n)"
  unfolding assms by (cases "odd k") (auto simp: power_mult_distrib power_mult [symmetric] mult.commute)

lemma pow2_result_ok:
  assumes "v \<noteq> 0" "v AND (v - 1) = 0" "x = (if neg then - 1 else 1) * uint v" "1 < uint v" "normalized b" "0 < sval b"
  shows "pow_returns A (x ^ nat (sval b)) (pow2_result A v neg b)"
  using assms(5,6)
proof (cases rule: exponent_cases)
  case (fits y)
  define n E where "n = 63 - js_limb_clz v" "E = nat (sval b)"
  have x: "x = (if neg then - 1 else 1) * 2 ^ n" using assms(3) power_of_two [OF assms(1,2)] by (simp add: n_E_def)
  have "n \<noteq> 0" using assms(4) power_of_two [OF assms(1,2)] by (auto simp: n_E_def)
  have y: "y AND 1 \<noteq> 0 \<longleftrightarrow> odd E" using low_bit [of 0 y] fits(3) by (simp add: n_E_def)
  define e ng where "e = E * n" "ng = (neg \<and> odd E)"
  define len where "len = (e + 64 + 1 - of_bool ng) div 64"
  have p: "pow2_result A v neg b = (if JS_BIGINT_MAX_SIZE * 64 < e then Inl PowTooLarge
    else case js_bigint_new A 0 len of Inl x \<Rightarrow> Inl (PowFailed x)
      | Inr _ \<Rightarrow> Inr ((replicate len 0)[e div 64 := push_bit (e mod 64) (1 - 2 * of_bool ng)]))"
    using fits(2,3) y unfolding pow2_result_def Let_def fits(1) not_le [symmetric] nth_Cons_0 e_ng_def n_E_def len_def
    by (simp only: list.size simp_thms if_True if_False) simp
  have val: "x ^ E = (if ng then - 1 else 1) * 2 ^ e" unfolding signed_power [OF x] e_ng_def ..
  have large: "too_large (x ^ E)" if "JS_BIGINT_MAX_SIZE * 64 - 66 \<le> e"
    using that by (intro too_large_power [of e]) (simp_all add: val abs_mult)
  have "JS_BIGINT_MAX_SIZE * 64 - 66 \<le> e" if "JS_BIGINT_MAX_SIZE < len"
    using that unfolding len_def JS_BIGINT_MAX_SIZE_def by (cases ng) simp_all
  then have failed: "resource_error A (x ^ E) err" if "failed A len err" for err
    using that large by (auto simp: failed_def resource_error_def)
  show ?thesis using new_cases [of A 0 len] failed large pow2_limbs [OF len_def] unfolding p n_E_def(2) [symmetric]
    by (auto simp: pow_returns_def val)
next
  case large
  have "2 \<le> \<bar>x\<bar>" using assms(3,4) by simp
  moreover have "pow2_result A v neg b = Inl PowTooLarge" using large(1) by (auto simp: pow2_result_def)
  ultimately show ?thesis using huge_power large(2) by (simp add: pow_returns_def)
qed

subsection \<open>The operation\<close>

lemma new_si_returns:
  assumes "sint x = v"
  shows "pow_returns A v (map_sum PowFailed id (js_bigint_new_si A 0 x))"
  using new_si_value [where A = A and k = 0 and x = x] assms by (auto simp: pow_returns_def resource_error_def split: sum.splits)

text \<open>A base of one limb that is neither 0, 1 nor -1.\<close>

lemma single_limb_base:
  fixes x :: limb
  assumes "\<not> x \<le> 1" "x \<noteq> - 1" "neg = (x <s 0)" "v = (if neg then - x else x)"
  shows "v \<noteq> 0" "1 < uint v" "sint x = (if neg then - 1 else 1) * uint v"
proof -
  have b: "neg \<longleftrightarrow> bit x 63" using negative_iff [of "[x]"] unfolding assms(3) by (simp add: word_sless_alt negative_def)
  have u: "1 < uint x" using assms(1) by (simp add: word_le_def)
  have m: "uint x \<noteq> 2 ^ 64 - 1" using assms(2) unfolding word_uint_eq_iff by (simp add: unsigned_minus_1_eq_mask mask_eq_exp_minus_1)
  have n: "uint (- x) = 2 ^ 64 - uint x" using u uint_limb(2) [of x] by (simp add: uint_word_ariths zmod_zminus1_eq_if)
  show "sint x = (if neg then - 1 else 1) * uint v" unfolding sint_limb assms(4) b using n by simp
  show "1 < uint v" using u m n uint_limb(2) [of x] unfolding assms(4) by simp
  then show "v \<noteq> 0" by auto
qed

lemma odd_limbs:
  assumes "normalized b" "0 \<le> sval b"
  shows "b ! 0 AND 1 = of_bool (odd (nat (sval b)))"
proof -
  obtain x xs where b: "b = x # xs" using normalized_ne [OF assms(1)] by (cases b) auto
  have "odd (sval b) \<longleftrightarrow> odd (uint x)" unfolding b by (cases "xs = []") (simp_all add: sval_Cons sint_limb)
  moreover have "odd (uint x) \<longleftrightarrow> odd x" by (simp add: bit_0 [symmetric] bit_uint_iff)
  ultimately show ?thesis using assms(2) b by (simp add: and_one_eq even_nat_iff mod_2_eq_odd)
qed

lemma pow_one_limb:
  assumes "normalized b" "0 < sval b"
  shows "pow_returns A (sint x ^ nat (sval b)) (js_bigint_pow A [x] b)"
proof -
  have nb: "\<not> negative b" "b \<noteq> [0]" using negative_iff [OF normalized_ne [OF assms(1)]] assms(2) by auto
  then have pow: "js_bigint_pow A [x] b =
    (if x \<le> 1 then map_sum PowFailed id (js_bigint_new_si A 0 x)
     else if x = - 1 then map_sum PowFailed id (js_bigint_new_si A 0 (1 - 2 * (b ! 0 AND 1)))
     else let is_neg = x <s 0; v = (if is_neg then - x else x) in
       if v AND (v - 1) = 0 then pow2_result A v is_neg b else pow_squaring A [x] b)"
    by (cases b) (auto simp: js_bigint_pow_def Let_def)
  consider (small) "x \<le> 1" | (minus) "x = - 1" "\<not> x \<le> 1" | (other) "\<not> x \<le> 1" "x \<noteq> - 1" by blast
  then show ?thesis
  proof cases
    case small
    then have "x = 0 \<or> x = 1" using carry_cases [of x] by (simp add: word_le_def)
    then have "sint x ^ nat (sval b) = sint x" using assms(2) by (auto simp: zero_power)
    then show ?thesis using small new_si_returns unfolding pow by simp
  next
    case minus
    have "sint (1 - 2 * (b ! 0 AND 1)) = sint x ^ nat (sval b)" unfolding odd_limbs [OF assms(1) less_imp_le [OF assms(2)]] minus(1)
      by (cases "odd (nat (sval b))") simp_all
    then show ?thesis using minus new_si_returns unfolding pow by simp
  next
    case other
    define ng v where "ng = (x <s 0)" "v = (if ng then - x else x)"
    note sb = single_limb_base [OF other ng_v_def]
    have "2 \<le> \<bar>sval [x]\<bar>" using sb(2,3) by (cases ng) simp_all
    from pow_squaring_ok [OF normalized_single this assms] pow2_result_ok [OF sb(1) _ sb(3,2) assms]
    show ?thesis using other unfolding pow Let_def ng_v_def [symmetric] by simp
  qed
qed

text \<open>C32: \<open>js_bigint_pow\<close> raises the range error for a negative exponent and otherwise returns the normalized
  power, for every base and exponent; it reports a result that is too large only when the power is at least
  \<open>2 ^ (2 ^ 20 - 66)\<close>, and a failure of memory only when an allocation fails.\<close>

theorem bigint_pow_correct:
  assumes "normalized a" "normalized b"
  shows "if sval b < 0 then js_bigint_pow A a b = Inl NegativeExponent
    else pow_returns A (sval a ^ nat (sval b)) (js_bigint_pow A a b)"
proof -
  note s = negative_iff [OF normalized_ne [OF assms(2)]]
  consider (neg) "sval b < 0" | (zero) "sval b = 0" | (one) "0 < sval b" "length a = 1" | (many) "0 < sval b" "length a \<noteq> 1" by linarith
  then show ?thesis
  proof cases
    case neg
    then show ?thesis using s by (simp add: js_bigint_pow_def)
  next
    case zero
    then have "b = [0]" using sval_inject [OF assms(2), of "[0]"] by simp
    then show ?thesis using new_si_returns [of 1] zero s by (simp add: js_bigint_pow_def)
  next
    case one
    then obtain x where "a = [x]" by (cases a) auto
    then show ?thesis using pow_one_limb [OF assms(2) one(1)] one(1) by simp
  next
    case many
    then obtain n where n: "length a = Suc (Suc n)" using normalized_ne [OF assms(1)] by (cases a; cases "tl a") auto
    have "1 \<le> base n" using base_pos(1) [of n] by linarith
    then have "2 \<le> \<bar>sval a\<bar>" using normalized_range [OF assms(1) n] by (auto split: if_splits)
    from pow_squaring_ok [OF assms(1) this assms(2) many(1)] show ?thesis using many s
      by (cases b) (auto simp: js_bigint_pow_def Let_def)
  qed
qed

theorem bigint_pow_correct_witness:
  "\<exists>r. js_bigint_pow (\<lambda>k s. True) [- 3] [41] = Inr r \<and> normalized r \<and> sval r = (- 3) ^ 41"
proof -
  have "\<not> too_large ((- 3) ^ 41)"
  proof
    assume "too_large ((- 3) ^ 41)"
    moreover have "(2 :: int) ^ 100 \<le> 2 ^ (JS_BIGINT_MAX_SIZE * 64 - 66)"
      by (rule power_increasing) (simp_all add: JS_BIGINT_MAX_SIZE_def)
    ultimately have "(2 :: int) ^ 100 \<le> \<bar>(- 3) ^ 41\<bar>" unfolding too_large_def by (rule order_trans [rotated])
    then show False by simp
  qed
  with bigint_pow_correct [of "[- 3]" "[41]" "\<lambda>k s. True"] show ?thesis
    by (auto simp: pow_returns_def resource_error_def split: sum.splits pow_error.splits)
qed

end
