(* ===== verification/CharRange.thy ===== *)
theory CharRange
  imports Prelude
begin

text \<open>
  Sets of code points (\<open>CharRange\<close> of \<open>libunicode.c\<close> and \<open>libunicode.h\<close>), from which the regular expression
  compiler builds its character classes. A set is a sorted array of points; the points at even and at odd
  positions open and close half-open intervals. The allocator is a parameter: \<open>R size\<close> says whether an array
  of \<open>size\<close> bytes is granted; the requests of one operation grow, so any of them may be the one that
  fails.

  \<open>cr_set\<close> is the set an array stands for. Union, intersection, difference, symmetric difference and
  complement are shown to be the operations on sets, with a canonical result: strictly increasing points.
\<close>

section \<open>Operations\<close>

record CharRange =
  cr_size :: nat
  points :: "32 word list"

datatype CharRangeOpEnum = CR_OP_UNION | CR_OP_INTER | CR_OP_XOR | CR_OP_SUB

definition cr_init :: CharRange where
  "cr_init = \<lparr>cr_size = 0, points = []\<rparr>"

definition cr_realloc :: "(nat \<Rightarrow> bool) \<Rightarrow> CharRange \<Rightarrow> nat \<Rightarrow> int \<times> CharRange" where
  "cr_realloc R cr n =
     (if n > cr_size cr then
        let new_size = max n (cr_size cr * 3 div 2) in
        if \<not> R (new_size * 4) then (-1, cr) else (0, cr\<lparr>cr_size := new_size\<rparr>)
      else (0, cr))"

definition cr_copy :: "(nat \<Rightarrow> bool) \<Rightarrow> CharRange \<Rightarrow> CharRange \<Rightarrow> int \<times> CharRange" where
  "cr_copy R cr cr1 =
     (let (rc, cr) = cr_realloc R cr (length (points cr1)) in
      if rc \<noteq> 0 then (-1, cr) else (0, cr\<lparr>points := points cr1\<rparr>))"

definition cr_add_point :: "(nat \<Rightarrow> bool) \<Rightarrow> 32 word \<Rightarrow> CharRange \<Rightarrow> int \<times> CharRange" where
  "cr_add_point R v cr =
     (let (rc, cr) = (if length (points cr) \<ge> cr_size cr then cr_realloc R cr (length (points cr) + 1) else (0, cr)) in
      if rc \<noteq> 0 then (-1, cr) else (0, cr\<lparr>points := points cr @ [v]\<rparr>))"

definition cr_add_interval :: "(nat \<Rightarrow> bool) \<Rightarrow> 32 word \<Rightarrow> 32 word \<Rightarrow> CharRange \<Rightarrow> int \<times> CharRange" where
  "cr_add_interval R c1 c2 cr =
     (let (rc, cr) = (if length (points cr) + 2 > cr_size cr then cr_realloc R cr (length (points cr) + 2) else (0, cr)) in
      if rc \<noteq> 0 then (-1, cr) else (0, cr\<lparr>points := points cr @ [c1, c2]\<rparr>))"

text \<open>The inner loop of \<open>cr_compress\<close>: the end of a run of adjacent intervals, and what follows the run.\<close>

fun end_of_run :: "32 word \<Rightarrow> 32 word list \<Rightarrow> 32 word \<times> 32 word list" where
  "end_of_run y (z # w # pt) = (if y = z then end_of_run w pt else (y, z # w # pt))"
| "end_of_run y pt = (y, pt)"

lemma end_of_run_length [termination_simp]: "length (snd (end_of_run y pt)) < Suc (Suc (length pt))"
  by (induction y pt rule: end_of_run.induct) auto

text \<open>The array is compressed in place, and the write position never passes the read position.\<close>

fun compress :: "32 word list \<Rightarrow> 32 word list" where
  "compress (x # y # pt) =
     (if x = y then compress pt else x # fst (end_of_run y pt) # compress (snd (end_of_run y pt)))"
| "compress pt = []"

definition cr_compress :: "CharRange \<Rightarrow> CharRange" where
  "cr_compress cr = cr\<lparr>points := compress (points cr)\<rparr>"

definition is_in :: "CharRangeOpEnum \<Rightarrow> nat \<Rightarrow> nat \<Rightarrow> bool" where
  "is_in opn a_idx b_idx =
     (case opn of
        CR_OP_UNION \<Rightarrow> odd a_idx \<or> odd b_idx
      | CR_OP_INTER \<Rightarrow> odd a_idx \<and> odd b_idx
      | CR_OP_XOR \<Rightarrow> odd a_idx \<noteq> odd b_idx
      | CR_OP_SUB \<Rightarrow> odd a_idx \<and> \<not> odd b_idx)"

text \<open>The end of a round of the loop of \<open>cr_op\<close>: the point is added if the status changes.\<close>

definition op_point :: "(nat \<Rightarrow> bool) \<Rightarrow> CharRangeOpEnum \<Rightarrow> nat \<Rightarrow> nat \<Rightarrow> 32 word \<Rightarrow> CharRange \<Rightarrow> int \<times> CharRange" where
  "op_point R opn a_idx b_idx v cr =
     (if is_in opn a_idx b_idx \<noteq> odd (length (points cr)) then cr_add_point R v cr else (0, cr))"

text \<open>The points not yet read, and how many have been read.\<close>

fun op_loop :: "(nat \<Rightarrow> bool) \<Rightarrow> CharRangeOpEnum \<Rightarrow> 32 word list \<Rightarrow> 32 word list \<Rightarrow> nat \<Rightarrow> nat \<Rightarrow> CharRange \<Rightarrow> int \<times> CharRange" where
  "op_loop R opn (a # as) (b # bs) i j cr =
     (if a < b then
        (let (rc, cr) = op_point R opn (Suc i) j a cr in if rc \<noteq> 0 then (-1, cr) else op_loop R opn as (b # bs) (Suc i) j cr)
      else if a = b then
        (let (rc, cr) = op_point R opn (Suc i) (Suc j) a cr in if rc \<noteq> 0 then (-1, cr) else op_loop R opn as bs (Suc i) (Suc j) cr)
      else
        (let (rc, cr) = op_point R opn i (Suc j) b cr in if rc \<noteq> 0 then (-1, cr) else op_loop R opn (a # as) bs i (Suc j) cr))"
| "op_loop R opn (a # as) [] i j cr =
     (let (rc, cr) = op_point R opn (Suc i) j a cr in if rc \<noteq> 0 then (-1, cr) else op_loop R opn as [] (Suc i) j cr)"
| "op_loop R opn [] (b # bs) i j cr =
     (let (rc, cr) = op_point R opn i (Suc j) b cr in if rc \<noteq> 0 then (-1, cr) else op_loop R opn [] bs i (Suc j) cr)"
| "op_loop R opn [] [] i j cr = (0, cr)"

definition cr_op :: "(nat \<Rightarrow> bool) \<Rightarrow> CharRange \<Rightarrow> 32 word list \<Rightarrow> 32 word list \<Rightarrow> CharRangeOpEnum \<Rightarrow> int \<times> CharRange" where
  "cr_op R cr a_pt b_pt opn =
     (let (rc, cr) = op_loop R opn a_pt b_pt 0 0 cr in if rc \<noteq> 0 then (-1, cr) else (0, cr_compress cr))"

definition cr_op1 :: "(nat \<Rightarrow> bool) \<Rightarrow> CharRange \<Rightarrow> 32 word list \<Rightarrow> CharRangeOpEnum \<Rightarrow> int \<times> CharRange" where
  "cr_op1 R cr b_pt opn = cr_op R \<lparr>cr_size = 0, points = []\<rparr> (points cr) b_pt opn"

definition cr_union_interval :: "(nat \<Rightarrow> bool) \<Rightarrow> CharRange \<Rightarrow> 32 word \<Rightarrow> 32 word \<Rightarrow> int \<times> CharRange" where
  "cr_union_interval R cr c1 c2 = cr_op1 R cr [c1, c2 + 1] CR_OP_UNION"

definition cr_invert :: "(nat \<Rightarrow> bool) \<Rightarrow> CharRange \<Rightarrow> int \<times> CharRange" where
  "cr_invert R cr =
     (let (rc, cr) = cr_realloc R cr (length (points cr) + 2) in
      if rc \<noteq> 0 then (-1, cr) else (0, cr_compress (cr\<lparr>points := 0 # points cr @ [0xFFFFFFFF]\<rparr>)))"

section \<open>The set of an array\<close>

fun cr_set :: "32 word list \<Rightarrow> 32 word set" where
  "cr_set (a # b # pt) = {a ..< b} \<union> cr_set pt"
| "cr_set pt = {}"

text \<open>How many points are at or below \<open>x\<close>.\<close>

definition below :: "32 word \<Rightarrow> 32 word list \<Rightarrow> nat" where
  "below x pt = length (filter (\<lambda>p. p \<le> x) pt)"

lemma below_simps [simp]: "below x [] = 0" "below x (p # pt) = (if p \<le> x then Suc (below x pt) else below x pt)"
  "below x (pt @ pt') = below x pt + below x pt'"
  by (simp_all add: below_def)

lemma below_none: "\<forall>p \<in> set pt. x < p \<Longrightarrow> below x pt = 0"
  by (auto simp: below_def filter_empty_conv)

lemma cr_set_below:
  assumes "sorted pt" "even (length pt)"
  shows "x \<in> cr_set pt \<longleftrightarrow> odd (below x pt)"
  using assms
proof (induction pt rule: cr_set.induct)
  case (1 a b pt)
  show ?case
  proof (cases "b \<le> x")
    case True
    then show ?thesis using 1 by auto
  next
    case False
    then have "below x pt = 0" using 1(2) by (intro below_none) auto
    then show ?thesis using 1 False by auto
  qed
qed auto

lemma cr_set_sorted_bound: "sorted pt \<Longrightarrow> \<forall>p \<in> set pt. b \<le> p \<Longrightarrow> x \<in> cr_set pt \<Longrightarrow> b \<le> x"
  by (induction pt rule: cr_set.induct) auto

section \<open>Compression\<close>

lemma end_of_run_ok:
  assumes "end_of_run y pt = (e, pt')" "sorted (y # pt)" "even (length pt)" "x \<le> y"
  shows "y \<le> e \<and> sorted (e # pt') \<and> even (length pt') \<and> {x ..< y} \<union> cr_set pt = {x ..< e} \<union> cr_set pt' \<and>
    (pt' \<noteq> [] \<longrightarrow> e < hd pt')"
  using assms
proof (induction y pt rule: end_of_run.induct)
  case (1 y z w pt)
  show ?case
  proof (cases "y = z")
    case True
    then have "y \<le> w" "x \<le> w" using 1(3,5) by auto
    moreover have "{x ..< y} \<union> ({y ..< w} \<union> cr_set pt) = {x ..< w} \<union> cr_set pt"
      using ivl_disj_un_two(3) [of x y w] 1(5) \<open>y \<le> w\<close> by (simp add: Un_assoc [symmetric])
    ultimately show ?thesis using 1 True by auto
  next
    case False
    then show ?thesis using 1 by auto
  qed
qed auto

lemma end_of_run_set: "end_of_run y pt = (e, pt') \<Longrightarrow> e \<in> insert y (set pt) \<and> set pt' \<subseteq> set pt"
  by (induction y pt rule: end_of_run.induct) (auto split: if_splits)

text \<open>Compressing keeps the set and leaves strictly increasing points.\<close>

lemma compress_ok:
  assumes "sorted pt" "even (length pt)"
  shows "cr_set (compress pt) = cr_set pt \<and> sorted_wrt (<) (compress pt) \<and> even (length (compress pt)) \<and> set (compress pt) \<subseteq> set pt"
  using assms
proof (induction pt rule: compress.induct)
  case (1 x y pt)
  show ?case
  proof (cases "x = y")
    case True
    then show ?thesis using 1 by auto
  next
    case False
    obtain e pt' where e: "end_of_run y pt = (e, pt')" by fastforce
    have r: "y \<le> e" "sorted (e # pt')" "even (length pt')" "{x ..< y} \<union> cr_set pt = {x ..< e} \<union> cr_set pt'" "pt' \<noteq> [] \<longrightarrow> e < hd pt'"
      using end_of_run_ok [OF e, of x] 1(3,4) by auto
    have IH: "cr_set (compress pt') = cr_set pt' \<and> sorted_wrt (<) (compress pt') \<and> even (length (compress pt')) \<and> set (compress pt') \<subseteq> set pt'"
      using 1(2) [OF False] r(2,3) e by simp
    have "\<forall>p \<in> set pt'. e < p" using r(2,5) by (cases pt') auto
    moreover have "x < y" using False 1(3) by auto
    ultimately have "sorted_wrt (<) (x # e # compress pt')" using IH r(1) by force
    then show ?thesis using e IH r(4) False end_of_run_set [OF e] by auto
  qed
qed auto

section \<open>The merge of \<open>cr_op\<close>\<close>

lemma realloc_ok:
  assumes "cr_realloc R cr n = (rc, cr')"
  shows "points cr' = points cr \<and> (rc = 0 \<or> rc = -1 \<and> (\<exists>k. \<not> R k))"
  using assms by (auto simp: cr_realloc_def Let_def split: if_splits)

lemma op_point_ok:
  assumes "op_point R opn i j v cr = (rc, cr')"
  shows "rc = 0 \<and> points cr' = points cr @ (if is_in opn i j \<noteq> odd (length (points cr)) then [v] else []) \<or> rc \<noteq> 0 \<and> (\<exists>k. \<not> R k)"
  using assms realloc_ok [of R cr "length (points cr) + 1"]
  by (fastforce simp: op_point_def cr_add_point_def split: if_splits prod.splits)

text \<open>What the loop has to establish from a state in which \<open>pts\<close> has been written, and \<open>as\<close> and \<open>bs\<close> remain.\<close>

definition merged :: "CharRangeOpEnum \<Rightarrow> 32 word list \<Rightarrow> 32 word list \<Rightarrow> nat \<Rightarrow> nat \<Rightarrow> 32 word list \<Rightarrow> 32 word list \<Rightarrow> bool" where
  "merged opn as bs i j pts pts' \<longleftrightarrow> sorted pts' \<and> odd (length pts') = is_in opn (i + length as) (j + length bs) \<and>
     (\<forall>x. if \<forall>p \<in> set pts. p \<le> x then odd (below x pts') = is_in opn (i + below x as) (j + below x bs)
        else below x pts' = below x pts)"

definition mergeable :: "CharRangeOpEnum \<Rightarrow> 32 word list \<Rightarrow> 32 word list \<Rightarrow> nat \<Rightarrow> nat \<Rightarrow> 32 word list \<Rightarrow> bool" where
  "mergeable opn as bs i j pts \<longleftrightarrow> sorted as \<and> sorted bs \<and> sorted pts \<and> odd (length pts) = is_in opn i j \<and>
     (\<forall>p \<in> set pts. \<forall>q \<in> set as \<union> set bs. p \<le> q)"

text \<open>A list from which the point \<open>v\<close> has been read, or not.\<close>

definition reads :: "32 word \<Rightarrow> 32 word list \<Rightarrow> nat \<Rightarrow> 32 word list \<Rightarrow> nat \<Rightarrow> bool" where
  "reads v as i as' i' \<longleftrightarrow> as = as' \<and> i' = i \<or> as = v # as' \<and> i' = Suc i"

lemma reads_below: "reads v as i as' i' \<Longrightarrow> v \<le> x \<Longrightarrow> i' + below x as' = i + below x as"
  by (auto simp: reads_def)

lemma below_all: "\<forall>p \<in> set pt. p \<le> x \<Longrightarrow> below x pt = length pt"
  by (simp add: below_def)

lemma round_ok:
  assumes "mergeable opn as bs i j pts" "\<forall>q \<in> set as \<union> set bs. v \<le> q" "v \<in> set as \<union> set bs"
    "reads v as i as' i'" "reads v bs j bs' j'" "pts1 = pts @ (if is_in opn i' j' \<noteq> odd (length pts) then [v] else [])"
  shows "mergeable opn as' bs' i' j' pts1" "merged opn as' bs' i' j' pts1 pts' \<Longrightarrow> merged opn as bs i j pts pts'"
proof -
  have sub: "set as' \<subseteq> set as" "set bs' \<subseteq> set bs" using assms(4,5) by (auto simp: reads_def)
  show "mergeable opn as' bs' i' j' pts1"
    using assms sub by (fastforce simp: mergeable_def reads_def sorted_append)
  assume m: "merged opn as' bs' i' j' pts1 pts'"
  have len: "i' + length as' = i + length as" "j' + length bs' = j + length bs" using assms(4,5) by (auto simp: reads_def)
  have "if \<forall>p \<in> set pts. p \<le> x then odd (below x pts') = is_in opn (i + below x as) (j + below x bs)
      else below x pts' = below x pts" for x
  proof (cases "v \<le> x")
    case True
    then have "\<forall>p \<in> set pts. p \<le> x" using assms(1,3) unfolding mergeable_def by (blast intro: order_trans)
    moreover from this True have "\<forall>p \<in> set pts1. p \<le> x" using assms(6) by auto
    ultimately show ?thesis
      using m reads_below [OF assms(4) True] reads_below [OF assms(5) True] by (simp add: merged_def)
  next
    case False
    have "below x l = 0" if "set l \<subseteq> set as \<union> set bs" for l
      using that False assms(2) by (intro below_none) (force simp: not_le)
    then have none: "below x as = 0" "below x bs = 0" "below x as' = 0" "below x bs' = 0" using sub by auto
    show ?thesis
    proof (cases "is_in opn i' j' \<noteq> odd (length pts)")
      case True
      then have "below x pts' = below x pts1" "below x pts1 = below x pts"
        using m False assms(6) by (auto simp: merged_def)
      then show ?thesis using none assms(1) below_all [of pts x] by (simp add: mergeable_def)
    next
      case keep: False
      then have "pts1 = pts" using assms(6) by simp
      then show ?thesis using m none keep assms(1) by (auto simp: merged_def mergeable_def)
    qed
  qed
  then show "merged opn as bs i j pts pts'" using m len by (simp add: merged_def)
qed

lemma round_step:
  assumes "mergeable opn as bs i j (points cr)" "\<forall>q \<in> set as \<union> set bs. v \<le> q" "v \<in> set as \<union> set bs"
    "reads v as i as' i'" "reads v bs j bs' j'" "op_point R opn i' j' v cr = (rc1, cr1)"
    "(if rc1 \<noteq> 0 then (-1, cr1) else op_loop R opn as' bs' i' j' cr1) = (rc, cr')"
    "rc1 = 0 \<Longrightarrow> op_loop R opn as' bs' i' j' cr1 = (rc, cr') \<Longrightarrow> mergeable opn as' bs' i' j' (points cr1) \<Longrightarrow>
      rc = 0 \<and> merged opn as' bs' i' j' (points cr1) (points cr') \<or> rc \<noteq> 0 \<and> (\<exists>k. \<not> R k)"
  shows "rc = 0 \<and> merged opn as bs i j (points cr) (points cr') \<or> rc \<noteq> 0 \<and> (\<exists>k. \<not> R k)"
proof (cases "rc1 = 0")
  case True
  then have pts: "points cr1 = points cr @ (if is_in opn i' j' \<noteq> odd (length (points cr)) then [v] else [])"
    using op_point_ok [OF assms(6)] by simp
  note r = round_ok [OF assms(1-5) pts]
  show ?thesis using assms(8) [OF True _ r(1)] assms(7) True r(2) by auto
next
  case False
  then show ?thesis using assms(7) op_point_ok [OF assms(6)] by auto
qed

lemma op_loop_ok:
  assumes "op_loop R opn as bs i j cr = (rc, cr')" "mergeable opn as bs i j (points cr)"
  shows "rc = 0 \<and> merged opn as bs i j (points cr) (points cr') \<or> rc \<noteq> 0 \<and> (\<exists>k. \<not> R k)"
  using assms
proof (induction R opn as bs i j cr rule: op_loop.induct)
  case loop: (1 R opn a as b bs i j cr)
  note m = loop(5)
  have s: "sorted (a # as)" "sorted (b # bs)" using m by (simp_all add: mergeable_def)
  consider (less) "a < b" | (equal) "a = b" | (greater) "b < a" by force
  then show ?case
  proof cases
    case less
    obtain rc1 cr1 where p: "op_point R opn (Suc i) j a cr = (rc1, cr1)" by fastforce
    show ?thesis
      by (rule round_step [OF m _ _ _ _ p, of as "b # bs"])
        (use less s p loop(4) loop(1) [OF less p [symmetric] refl] in \<open>auto simp: reads_def\<close>)
  next
    case equal
    obtain rc1 cr1 where p: "op_point R opn (Suc i) (Suc j) a cr = (rc1, cr1)" by fastforce
    show ?thesis
      by (rule round_step [OF m _ _ _ _ p, of as bs])
        (use equal s p loop(4) loop(2) [OF _ equal p [symmetric] refl] in \<open>auto simp: reads_def\<close>)
  next
    case greater
    obtain rc1 cr1 where p: "op_point R opn i (Suc j) b cr = (rc1, cr1)" by fastforce
    have n: "\<not> a < b" "a \<noteq> b" using greater by auto
    show ?thesis
      by (rule round_step [OF m _ _ _ _ p, of "a # as" bs])
        (use greater n s p loop(4) loop(3) [OF n p [symmetric] refl] in \<open>auto simp: reads_def\<close>)
  qed
next
  case (2 R opn a as i j cr)
  obtain rc1 cr1 where p: "op_point R opn (Suc i) j a cr = (rc1, cr1)" by fastforce
  show ?case
    by (rule round_step [OF 2(3) _ _ _ _ p, of as "[]"])
      (use 2(2,3) p 2(1) [OF p [symmetric] refl] in \<open>auto simp: reads_def mergeable_def\<close>)
next
  case (3 R opn b bs i j cr)
  obtain rc1 cr1 where p: "op_point R opn i (Suc j) b cr = (rc1, cr1)" by fastforce
  show ?case
    by (rule round_step [OF 3(3) _ _ _ _ p, of "[]" bs])
      (use 3(2,3) p 3(1) [OF p [symmetric] refl] in \<open>auto simp: reads_def mergeable_def\<close>)
next
  case (4 R opn i j cr)
  then show ?case by (auto simp: merged_def mergeable_def below_all)
qed

section \<open>The operations on sets\<close>

definition set_op :: "CharRangeOpEnum \<Rightarrow> 'a set \<Rightarrow> 'a set \<Rightarrow> 'a set" where
  "set_op opn A B =
     (case opn of
        CR_OP_UNION \<Rightarrow> A \<union> B
      | CR_OP_INTER \<Rightarrow> A \<inter> B
      | CR_OP_XOR \<Rightarrow> (A - B) \<union> (B - A)
      | CR_OP_SUB \<Rightarrow> A - B)"

text \<open>The invariant of the type: an even number of strictly increasing points.\<close>

definition wf_points :: "32 word list \<Rightarrow> bool" where
  "wf_points pt \<longleftrightarrow> sorted_wrt (<) pt \<and> even (length pt)"

lemma wf_points_sorted: "wf_points pt \<Longrightarrow> sorted pt \<and> even (length pt)"
  by (auto simp: wf_points_def strict_sorted_imp_sorted)

lemma op_ok:
  assumes "cr_op R cr a b opn = (rc, cr')" "points cr = []" "sorted a" "even (length a)" "sorted b" "even (length b)"
  shows "rc = 0 \<and> wf_points (points cr') \<and> cr_set (points cr') = set_op opn (cr_set a) (cr_set b) \<or> rc \<noteq> 0 \<and> (\<exists>k. \<not> R k)"
proof -
  obtain rc1 cr1 where l: "op_loop R opn a b 0 0 cr = (rc1, cr1)" by fastforce
  have zero: "\<not> is_in opn i j" if "even i" "even j" for i j using that by (cases opn) (simp_all add: is_in_def)
  have "mergeable opn a b 0 0 (points cr)" using assms zero [of 0 0] by (simp add: mergeable_def)
  note ok = op_loop_ok [OF l this]
  show ?thesis
  proof (cases "rc1 = 0")
    case True
    then have m: "sorted (points cr1)" "even (length (points cr1))"
      "odd (below x (points cr1)) = is_in opn (below x a) (below x b)" for x
      using ok assms zero by (auto simp: merged_def)
    have "x \<in> cr_set (points cr1) \<longleftrightarrow> x \<in> set_op opn (cr_set a) (cr_set b)" for x
      using m(3) [of x] cr_set_below [OF m(1,2)] cr_set_below [OF assms(3,4)] cr_set_below [OF assms(5,6)]
      by (cases opn) (auto simp: set_op_def is_in_def)
    moreover have "rc = 0" "points cr' = compress (points cr1)" using assms(1) l True by (auto simp: cr_op_def cr_compress_def)
    ultimately show ?thesis using compress_ok [OF m(1,2)] by (auto simp: wf_points_def)
  next
    case False
    then show ?thesis using ok assms(1) l by (auto simp: cr_op_def)
  qed
qed

lemma invert_ok:
  assumes "cr_invert R cr = (rc, cr')" "wf_points (points cr)"
  shows "rc = 0 \<and> wf_points (points cr') \<and> cr_set (points cr') = {x. x < 0xFFFFFFFF \<and> x \<notin> cr_set (points cr)} \<or> rc \<noteq> 0 \<and> (\<exists>k. \<not> R k)"
proof -
  obtain rc1 cr1 where l: "cr_realloc R cr (length (points cr) + 2) = (rc1, cr1)" by fastforce
  note p = realloc_ok [OF l]
  define pt where "pt = 0 # points cr @ [0xFFFFFFFF]"
  note s = wf_points_sorted [OF assms(2)]
  have top: "x \<le> 0xFFFFFFFF" for x :: "32 word" using uint_bounded [of x] by (simp add: word_le_def)
  have pt: "sorted pt" "even (length pt)" using s top by (auto simp: pt_def sorted_append)
  have "x \<in> cr_set pt \<longleftrightarrow> x < 0xFFFFFFFF \<and> x \<notin> cr_set (points cr)" for x
    using cr_set_below [OF pt, of x] cr_set_below [of "points cr" x] s top [of x] below_all [of "points cr" "0xFFFFFFFF"]
    by (auto simp: pt_def top order.strict_iff_order)
  moreover have "rc1 = 0 \<Longrightarrow> rc = 0 \<and> points cr' = compress pt" "rc1 \<noteq> 0 \<Longrightarrow> rc \<noteq> 0"
    using assms(1) l p by (auto simp: cr_invert_def cr_compress_def pt_def)
  ultimately show ?thesis using p compress_ok [OF pt] by (auto simp: wf_points_def)
qed

section \<open>Properties\<close>

text \<open>C36: union, intersection, symmetric difference and difference of character sets are those of the sets of code
  points, for any two sorted arrays (empty and adjacent intervals included), and the result is canonical;
  the only failure is that of the allocator.\<close>

theorem cr_op_correct:
  assumes "sorted (points cr)" "even (length (points cr))" "sorted b" "even (length b)" "cr_op1 R cr b opn = (rc, cr')"
  shows "rc = 0 \<and> wf_points (points cr') \<and> cr_set (points cr') = set_op opn (cr_set (points cr)) (cr_set b) \<or>
    rc \<noteq> 0 \<and> (\<exists>k. \<not> R k)"
  using op_ok [OF assms(5) [unfolded cr_op1_def] _ assms(1-4)] by simp

theorem cr_op_correct_witness:
  "\<exists>cr'. cr_op1 (\<lambda>n. True) \<lparr>cr_size = 4, points = [97, 100, 100, 123]\<rparr> [110, 200] CR_OP_SUB = (0, cr') \<and>
     cr_set (points cr') = {97 ..< 110}"
proof -
  obtain rc cr' where r: "cr_op1 (\<lambda>n. True) \<lparr>cr_size = 4, points = [97, 100, 100, 123]\<rparr> [110, 200] CR_OP_SUB = (rc, cr')" by fastforce
  have "rc = 0 \<and> cr_set (points cr') = cr_set [97, 100, 100, 123] - cr_set [110, 200]"
    using cr_op_correct [OF _ _ _ _ r] by (simp add: set_op_def)
  moreover have "cr_set [97, 100, 100, 123] - cr_set [110, 200] = {97 ..< 110 :: 32 word}"
    by (auto simp: word_less_nat_alt word_le_nat_alt)
  ultimately show ?thesis using r by auto
qed

text \<open>Inverting a character set gives the complement among the code points below the largest 32-bit value, in
  canonical form.\<close>

theorem cr_invert_correct:
  assumes "wf_points (points cr)" "cr_invert R cr = (rc, cr')"
  shows "rc = 0 \<and> wf_points (points cr') \<and> cr_set (points cr') = {x. x < 0xFFFFFFFF \<and> x \<notin> cr_set (points cr)} \<or>
    rc \<noteq> 0 \<and> (\<exists>k. \<not> R k)"
  using invert_ok [OF assms(2,1)] .

theorem cr_invert_correct_witness:
  "\<exists>cr'. cr_invert (\<lambda>n. True) \<lparr>cr_size = 2, points = [0, 65]\<rparr> = (0, cr') \<and> cr_set (points cr') = {65 ..< 0xFFFFFFFF}"
proof -
  obtain rc cr' where r: "cr_invert (\<lambda>n. True) \<lparr>cr_size = 2, points = [0, 65]\<rparr> = (rc, cr')" by fastforce
  have "rc = 0 \<and> cr_set (points cr') = {x. x < 0xFFFFFFFF \<and> x \<notin> cr_set [0, 65]}"
    using cr_invert_correct [OF _ r] by (simp add: wf_points_def)
  moreover have "{x. x < 0xFFFFFFFF \<and> x \<notin> cr_set [0, 65]} = {65 ..< 0xFFFFFFFF :: 32 word}" by auto
  ultimately show ?thesis using r by auto
qed

end
