(* ===== verification/GcNodes.thy ===== *)
theory GcNodes
  imports Prelude "HOL-Library.Multiset"
begin

text \<open>
  The objects the garbage collector of \<open>quickjs.c\<close> knows, and for each kind the two functions on which the
  collector rests: the one that marks its children and the one that releases them. The theorem at the end
  says that the two agree for every kind of object and every built-in class.

  An object is named by its address. Values are the \<^typ>\<open>jsval\<close> of the prelude; strings, symbols and big
  integers cannot be part of a cycle and are not nodes. A record keeps the fields that hold references.
\<close>

type_synonym gref = nat

section \<open>Data\<close>

record JSShapeProperty =
  sp_flags :: "8 word"
  sp_atom :: nat

record JSShape =
  proto :: "gref option"
  shape_prop :: "JSShapeProperty list"

text \<open>The union of \<open>JSProperty\<close>; the flags of the shape say which member is in use.\<close>

datatype JSProperty = PValue jsval | PGetSet "gref option" "gref option" | PVarRef gref | PAutoInit gref

record JSMapRecord =
  mr_empty :: bool
  mr_key :: jsval
  mr_value :: jsval

record JSPromiseReactionData =
  rd_resolving_funcs :: "jsval \<times> jsval"
  rd_handler :: jsval

record JSAsyncGeneratorRequest =
  req_result :: jsval
  req_promise :: jsval
  req_resolving_funcs :: "jsval \<times> jsval"

record JSFinRecEntry =
  fre_target :: jsval
  fre_held_val :: jsval
  fre_token :: jsval

datatype JSGeneratorStateEnum = GEN_SUSPENDED_START | GEN_SUSPENDED_YIELD | GEN_SUSPENDED_YIELD_STAR | GEN_EXECUTING
  | GEN_COMPLETED

text \<open>
  The union \<open>u\<close> of \<open>JSObject\<close>, one constructor for each pair of functions in the class tables. \<open>None\<close> is a null
  pointer. \<open>U_plain\<close> stands for the classes whose data holds no reference to a node: plain objects, errors,
  regular expressions, array buffers, and the classes of an embedder that store none.
\<close>

datatype JSObject_u =
    U_plain
  | U_array "jsval list"
  | U_mapped_arguments "gref list"
  | U_object_data jsval
  | U_cfunc "gref option"
  | U_func "gref option" "gref option" "gref option list option"
  | U_bound_function jsval jsval "jsval list"
  | U_c_function_data "jsval list option"
  | U_for_in_iterator jsval
  | U_typed_array "gref option"
  | U_proxy "(jsval \<times> jsval) option"
  | U_map "(bool \<times> JSMapRecord list) option"
  | U_map_iterator "(jsval \<times> bool) option"
  | U_array_iterator "jsval option"
  | U_iterator_concat "(jsval \<times> jsval \<times> nat \<times> jsval list) option"
  | U_iterator_helper "(jsval \<times> jsval \<times> jsval \<times> jsval) option"
  | U_iterator_wrap "(jsval \<times> jsval) option"
  | U_regexp_string_iterator "(jsval \<times> jsval) option"
  | U_generator "(JSGeneratorStateEnum \<times> gref option) option"
  | U_global_object jsval
  | U_promise "(JSPromiseReactionData list \<times> JSPromiseReactionData list \<times> jsval) option"
  | U_promise_resolve_function "jsval option"
  | U_async_function_resolve "gref option"
  | U_async_from_sync_iterator "(jsval \<times> jsval) option"
  | U_async_generator "(JSAsyncGeneratorRequest list \<times> gref option) option"
  | U_weakref "jsval option"
  | U_finrec "(JSFinRecEntry list \<times> jsval \<times> gref) option"

record JSObject =
  free_mark :: bool
  obj_shape :: "gref option"
  obj_prop :: "JSProperty list"
  obj_u :: JSObject_u

record JSFunctionBytecode =
  cpool :: "jsval list"
  closure_var_count :: nat
  bc_realm :: "gref option"

text \<open>A variable that is not detached lives in a stack frame; \<open>vr_async\<close> is the function that owns it when this
  is the frame of an async function.\<close>

record JSVarRef =
  is_detached :: bool
  vr_value :: jsval
  vr_async :: "gref option"

text \<open>The values from \<open>arg_buf\<close> up to \<open>cur_sp\<close>, which is null while the function runs.\<close>

record JSAsyncFunctionState =
  is_completed :: bool
  cur_func :: jsval
  as_this_val :: jsval
  frame_values :: "jsval list option"
  as_resolving_funcs :: "jsval \<times> jsval"

record JSContext =
  loaded_modules :: "gref list"
  global_obj :: jsval
  global_var_obj :: jsval
  throw_type_error :: jsval
  eval_obj :: jsval
  array_proto_values :: jsval
  native_error_proto :: "jsval list"
  class_proto :: "jsval list"
  iterator_ctor :: jsval
  async_iterator_proto :: jsval
  promise_ctor :: jsval
  array_ctor :: jsval
  regexp_ctor :: jsval
  function_ctor :: jsval
  function_proto :: jsval
  array_shape :: "gref option"
  arguments_shape :: "gref option"
  mapped_arguments_shape :: "gref option"
  regexp_shape :: "gref option"
  regexp_result_shape :: "gref option"

text \<open>An export entry is local, with its variable, or indirect.\<close>

datatype JSExportEntry = ExportLocal "gref option" | ExportIndirect

record JSModuleDef =
  req_attributes :: "jsval list"
  export_entries :: "JSExportEntry list"
  module_ns :: jsval
  func_obj :: jsval
  eval_exception :: jsval
  meta_obj :: jsval
  m_promise :: jsval
  m_resolving_funcs :: "jsval \<times> jsval"
  private_value :: jsval

datatype gc_node = is_NObject: NObject JSObject | is_NBytecode: NBytecode JSFunctionBytecode | is_NShape: NShape JSShape
  | is_NVarRef: NVarRef JSVarRef | is_NAsync: NAsync JSAsyncFunctionState | is_NContext: NContext JSContext
  | is_NModule: NModule JSModuleDef

type_synonym gc_heap = "gref \<Rightarrow> gc_node option"

section \<open>Marking\<close>

definition JS_PROP_TMASK :: "8 word" where "JS_PROP_TMASK = 48"
definition JS_PROP_GETSET :: "8 word" where "JS_PROP_GETSET = 16"
definition JS_PROP_VARREF :: "8 word" where "JS_PROP_VARREF = 32"
definition JS_PROP_AUTOINIT :: "8 word" where "JS_PROP_AUTOINIT = 48"

text \<open>The functions below list the arguments of the calls of \<open>mark_func\<close> in their order. The value \<open>None\<close> is a read
  of a freed or ill-typed object.\<close>

abbreviation opt_list :: "'a option \<Rightarrow> 'a list" where
  "opt_list x \<equiv> (case x of None \<Rightarrow> [] | Some y \<Rightarrow> [y])"

fun JS_MarkValue :: "jsval \<Rightarrow> gref list" where
  "JS_MarkValue (JPtr TagObject p) = [p]"
| "JS_MarkValue (JPtr TagFunctionBytecode p) = [p]"
| "JS_MarkValue (JPtr TagModule p) = [p]"
| "JS_MarkValue _ = []"

abbreviation mark_values :: "jsval list \<Rightarrow> gref list" where
  "mark_values vs \<equiv> concat (map JS_MarkValue vs)"

text \<open>One property; a member of the union other than the flags say is an ill-typed read.\<close>

definition mark_property :: "JSShapeProperty \<Rightarrow> JSProperty \<Rightarrow> gref list option" where
  "mark_property prs pr =
     (if sp_atom prs = 0 then Some []
      else if sp_flags prs AND JS_PROP_TMASK \<noteq> 0 then
        if sp_flags prs AND JS_PROP_TMASK = JS_PROP_GETSET then
          (case pr of PGetSet g s \<Rightarrow> Some (opt_list g @ opt_list s) | _ \<Rightarrow> None)
        else if sp_flags prs AND JS_PROP_TMASK = JS_PROP_VARREF then
          (case pr of PVarRef v \<Rightarrow> Some [v] | _ \<Rightarrow> None)
        else if sp_flags prs AND JS_PROP_TMASK = JS_PROP_AUTOINIT then
          (case pr of PAutoInit r \<Rightarrow> Some [r] | _ \<Rightarrow> None)
        else Some []
      else (case pr of PValue v \<Rightarrow> Some (JS_MarkValue v) | _ \<Rightarrow> None))"

fun mark_properties :: "JSShapeProperty list \<Rightarrow> JSProperty list \<Rightarrow> gref list option" where
  "mark_properties [] ps = Some []"
| "mark_properties (s # ss) [] = None"
| "mark_properties (s # ss) (p # ps) =
     do { m \<leftarrow> mark_property s p; ms \<leftarrow> mark_properties ss ps; Some (m @ ms) }"

definition js_bytecode_function_mark :: "gc_heap \<Rightarrow> gref option \<Rightarrow> gref option \<Rightarrow> gref option list option \<Rightarrow> gref list option" where
  "js_bytecode_function_mark h home fb var_refs =
     (case fb of
        None \<Rightarrow> Some (opt_list home)
      | Some b \<Rightarrow>
          (case h b of
             Some (NBytecode bc) \<Rightarrow>
               Some (opt_list home @
                 (case var_refs of None \<Rightarrow> [] | Some vs \<Rightarrow> concat (map opt_list (take (closure_var_count bc) vs))) @ [b])
           | _ \<Rightarrow> None))"

definition js_map_mark :: "bool \<Rightarrow> JSMapRecord list \<Rightarrow> gref list" where
  "js_map_mark is_weak records =
     concat (map (\<lambda>mr. (if is_weak then [] else JS_MarkValue (mr_key mr)) @ JS_MarkValue (mr_value mr)) records)"

definition mark_reaction :: "JSPromiseReactionData \<Rightarrow> gref list" where
  "mark_reaction rd = mark_values [fst (rd_resolving_funcs rd), snd (rd_resolving_funcs rd), rd_handler rd]"

definition js_promise_mark :: "JSPromiseReactionData list \<Rightarrow> JSPromiseReactionData list \<Rightarrow> jsval \<Rightarrow> gref list" where
  "js_promise_mark r0 r1 result = concat (map mark_reaction r0) @ concat (map mark_reaction r1) @ JS_MarkValue result"

definition mark_request :: "JSAsyncGeneratorRequest \<Rightarrow> gref list" where
  "mark_request req =
     mark_values [req_result req, req_promise req, fst (req_resolving_funcs req), snd (req_resolving_funcs req)]"

definition js_async_generator_mark :: "JSAsyncGeneratorRequest list \<Rightarrow> gref option \<Rightarrow> gref list" where
  "js_async_generator_mark queue func_state = concat (map mark_request queue) @ opt_list func_state"

definition js_finrec_mark :: "JSFinRecEntry list \<Rightarrow> jsval \<Rightarrow> gref \<Rightarrow> gref list" where
  "js_finrec_mark entries cb realm = concat (map (\<lambda>fre. JS_MarkValue (fre_held_val fre)) entries) @ JS_MarkValue cb @ [realm]"

definition js_array_mark :: "jsval list \<Rightarrow> gref list" where
  "js_array_mark values = mark_values values"

definition js_mapped_arguments_mark :: "gref list \<Rightarrow> gref list" where
  "js_mapped_arguments_mark var_refs = var_refs"

definition js_object_data_mark :: "jsval \<Rightarrow> gref list" where
  "js_object_data_mark v = JS_MarkValue v"

definition js_c_function_mark :: "gref option \<Rightarrow> gref list" where
  "js_c_function_mark realm = opt_list realm"

definition js_bound_function_mark :: "jsval \<Rightarrow> jsval \<Rightarrow> jsval list \<Rightarrow> gref list" where
  "js_bound_function_mark f this argv = JS_MarkValue f @ JS_MarkValue this @ mark_values argv"

definition js_c_function_data_mark :: "jsval list option \<Rightarrow> gref list" where
  "js_c_function_data_mark s =
     (case s of None \<Rightarrow> [] | Some data \<Rightarrow> mark_values data)"

definition js_for_in_iterator_mark :: "jsval \<Rightarrow> gref list" where
  "js_for_in_iterator_mark v = JS_MarkValue v"

definition js_typed_array_mark :: "gref option \<Rightarrow> gref list" where
  "js_typed_array_mark buffer = opt_list buffer"

definition js_proxy_mark :: "(jsval \<times> jsval) option \<Rightarrow> gref list" where
  "js_proxy_mark s =
     (case s of None \<Rightarrow> [] | Some (target, handler) \<Rightarrow> mark_values [target, handler])"

definition js_map_iterator_mark :: "(jsval \<times> bool) option \<Rightarrow> gref list" where
  "js_map_iterator_mark it =
     (case it of None \<Rightarrow> [] | Some (v, _) \<Rightarrow> JS_MarkValue v)"

definition js_array_iterator_mark :: "jsval option \<Rightarrow> gref list" where
  "js_array_iterator_mark it =
     (case it of None \<Rightarrow> [] | Some v \<Rightarrow> JS_MarkValue v)"

definition js_iterator_concat_mark :: "(jsval \<times> jsval \<times> nat \<times> jsval list) option \<Rightarrow> gref list" where
  "js_iterator_concat_mark it =
     (case it of None \<Rightarrow> [] | Some (iter, nx, index, values) \<Rightarrow> JS_MarkValue iter @ JS_MarkValue nx @ mark_values (drop index values))"

definition js_iterator_helper_mark :: "(jsval \<times> jsval \<times> jsval \<times> jsval) option \<Rightarrow> gref list" where
  "js_iterator_helper_mark it =
     (case it of None \<Rightarrow> [] | Some (v, f, nx, inner) \<Rightarrow> mark_values [v, f, nx, inner])"

definition js_iterator_wrap_mark :: "(jsval \<times> jsval) option \<Rightarrow> gref list" where
  "js_iterator_wrap_mark it =
     (case it of None \<Rightarrow> [] | Some (iter, nx) \<Rightarrow> mark_values [iter, nx])"

definition js_regexp_string_iterator_mark :: "(jsval \<times> jsval) option \<Rightarrow> gref list" where
  "js_regexp_string_iterator_mark it =
     (case it of None \<Rightarrow> [] | Some (re, str) \<Rightarrow> mark_values [re, str])"

definition js_generator_mark :: "(JSGeneratorStateEnum \<times> gref option) option \<Rightarrow> gref list" where
  "js_generator_mark s =
     (case s of None \<Rightarrow> [] | Some (_, func_state) \<Rightarrow> opt_list func_state)"

definition js_global_object_mark :: "jsval \<Rightarrow> gref list" where
  "js_global_object_mark v = JS_MarkValue v"

definition js_promise_resolve_function_mark :: "jsval option \<Rightarrow> gref list" where
  "js_promise_resolve_function_mark s =
     (case s of None \<Rightarrow> [] | Some promise \<Rightarrow> JS_MarkValue promise)"

definition js_async_function_resolve_mark :: "gref option \<Rightarrow> gref list" where
  "js_async_function_resolve_mark s = opt_list s"

definition js_async_from_sync_iterator_mark :: "(jsval \<times> jsval) option \<Rightarrow> gref list" where
  "js_async_from_sync_iterator_mark s =
     (case s of None \<Rightarrow> [] | Some (iter, nx) \<Rightarrow> mark_values [iter, nx])"

text \<open>The \<open>gc_mark\<close> entries of the class tables.\<close>

definition gc_mark :: "gc_heap \<Rightarrow> JSObject_u \<Rightarrow> gref list option" where
  "gc_mark h u = (case u of
     U_plain \<Rightarrow> Some []
   | U_array values \<Rightarrow> Some (js_array_mark values)
   | U_mapped_arguments var_refs \<Rightarrow> Some (js_mapped_arguments_mark var_refs)
   | U_object_data v \<Rightarrow> Some (js_object_data_mark v)
   | U_cfunc realm \<Rightarrow> Some (js_c_function_mark realm)
   | U_func home fb var_refs \<Rightarrow> js_bytecode_function_mark h home fb var_refs
   | U_bound_function f this argv \<Rightarrow> Some (js_bound_function_mark f this argv)
   | U_c_function_data s \<Rightarrow> Some (js_c_function_data_mark s)
   | U_for_in_iterator v \<Rightarrow> Some (js_for_in_iterator_mark v)
   | U_typed_array buffer \<Rightarrow> Some (js_typed_array_mark buffer)
   | U_proxy s \<Rightarrow> Some (js_proxy_mark s)
   | U_map s \<Rightarrow> Some (case s of None \<Rightarrow> [] | Some (is_weak, records) \<Rightarrow> js_map_mark is_weak records)
   | U_map_iterator it \<Rightarrow> Some (js_map_iterator_mark it)
   | U_array_iterator it \<Rightarrow> Some (js_array_iterator_mark it)
   | U_iterator_concat it \<Rightarrow> Some (js_iterator_concat_mark it)
   | U_iterator_helper it \<Rightarrow> Some (js_iterator_helper_mark it)
   | U_iterator_wrap it \<Rightarrow> Some (js_iterator_wrap_mark it)
   | U_regexp_string_iterator it \<Rightarrow> Some (js_regexp_string_iterator_mark it)
   | U_generator s \<Rightarrow> Some (js_generator_mark s)
   | U_global_object v \<Rightarrow> Some (js_global_object_mark v)
   | U_promise s \<Rightarrow> Some (case s of None \<Rightarrow> [] | Some (r0, r1, result) \<Rightarrow> js_promise_mark r0 r1 result)
   | U_promise_resolve_function s \<Rightarrow> Some (js_promise_resolve_function_mark s)
   | U_async_function_resolve s \<Rightarrow> Some (js_async_function_resolve_mark s)
   | U_async_from_sync_iterator s \<Rightarrow> Some (js_async_from_sync_iterator_mark s)
   | U_async_generator s \<Rightarrow> Some (case s of None \<Rightarrow> [] | Some (queue, func_state) \<Rightarrow> js_async_generator_mark queue func_state)
   | U_weakref _ \<Rightarrow> Some []
   | U_finrec s \<Rightarrow> Some (case s of None \<Rightarrow> [] | Some (entries, cb, realm) \<Rightarrow> js_finrec_mark entries cb realm))"

definition JS_MarkContext :: "JSContext \<Rightarrow> gref list" where
  "JS_MarkContext ctx =
     mark_values (map (JPtr TagModule) (loaded_modules ctx)) @
     mark_values [global_obj ctx, global_var_obj ctx, throw_type_error ctx, eval_obj ctx, array_proto_values ctx] @
     mark_values (native_error_proto ctx) @ mark_values (class_proto ctx) @
     mark_values [iterator_ctor ctx, async_iterator_proto ctx, promise_ctor ctx, array_ctor ctx, regexp_ctor ctx,
       function_ctor ctx, function_proto ctx] @
     opt_list (array_shape ctx) @ opt_list (arguments_shape ctx) @ opt_list (mapped_arguments_shape ctx) @
     opt_list (regexp_shape ctx) @ opt_list (regexp_result_shape ctx)"

definition js_mark_module_def :: "JSModuleDef \<Rightarrow> gref list" where
  "js_mark_module_def m =
     mark_values (req_attributes m) @
     concat (map (\<lambda>me. case me of ExportLocal v \<Rightarrow> opt_list v | ExportIndirect \<Rightarrow> []) (export_entries m)) @
     mark_values [module_ns m, func_obj m, eval_exception m, meta_obj m, m_promise m, fst (m_resolving_funcs m),
       snd (m_resolving_funcs m), private_value m]"

definition mark_object :: "gc_heap \<Rightarrow> JSObject \<Rightarrow> gref list option" where
  "mark_object h p =
     (case obj_shape p of
        None \<Rightarrow> None
      | Some sh \<Rightarrow>
          (case h sh of
             Some (NShape s) \<Rightarrow>
               do { ps \<leftarrow> mark_properties (shape_prop s) (obj_prop p); cs \<leftarrow> gc_mark h (obj_u p); Some (sh # ps @ cs) }
           | _ \<Rightarrow> None))"

definition mark_async :: "JSAsyncFunctionState \<Rightarrow> gref list" where
  "mark_async s =
     (if is_completed s then []
      else mark_values [cur_func s, as_this_val s] @ (case frame_values s of None \<Rightarrow> [] | Some vs \<Rightarrow> mark_values vs)) @
     mark_values [fst (as_resolving_funcs s), snd (as_resolving_funcs s)]"

definition mark_children :: "gc_heap \<Rightarrow> gref \<Rightarrow> gref list option" where
  "mark_children h gp =
     (case h gp of
        None \<Rightarrow> None
      | Some (NObject p) \<Rightarrow> mark_object h p
      | Some (NBytecode b) \<Rightarrow> Some (mark_values (cpool b) @ opt_list (bc_realm b))
      | Some (NVarRef v) \<Rightarrow> Some (if is_detached v then JS_MarkValue (vr_value v) else opt_list (vr_async v))
      | Some (NAsync s) \<Rightarrow> Some (mark_async s)
      | Some (NShape sh) \<Rightarrow> Some (opt_list (proto sh))
      | Some (NContext ctx) \<Rightarrow> Some (JS_MarkContext ctx)
      | Some (NModule m) \<Rightarrow> Some (js_mark_module_def m))"

section \<open>Releasing\<close>

text \<open>
  The calls by which a finalizer gives up what the object holds, in their order: \<open>JS_FreeValueRT\<close>,
  \<open>js_free_shape\<close>, \<open>free_var_ref\<close>, \<open>JS_FreeContext\<close>, \<open>async_func_free\<close> and \<open>js_weakref_free\<close>; \<open>PeekObject\<close> is the
  look at another object by \<open>JS_IsLiveObject\<close>, and \<open>AssertFails\<close> an assertion that does not hold.
\<close>

datatype release = FreeValue jsval | FreeShape gref | FreeVarRef "gref option" | FreeContext gref | FreeAsync gref
  | FreeWeakref jsval | PeekObject jsval | AssertFails

definition free_property :: "JSShapeProperty \<Rightarrow> JSProperty \<Rightarrow> release list option" where
  "free_property prs pr =
     (if sp_flags prs AND JS_PROP_TMASK \<noteq> 0 then
        if sp_flags prs AND JS_PROP_TMASK = JS_PROP_GETSET then
          (case pr of
             PGetSet g s \<Rightarrow> Some (map (\<lambda>p. FreeValue (JPtr TagObject p)) (opt_list g @ opt_list s))
           | _ \<Rightarrow> None)
        else if sp_flags prs AND JS_PROP_TMASK = JS_PROP_VARREF then
          (case pr of PVarRef v \<Rightarrow> Some [FreeVarRef (Some v)] | _ \<Rightarrow> None)
        else if sp_flags prs AND JS_PROP_TMASK = JS_PROP_AUTOINIT then
          (case pr of PAutoInit r \<Rightarrow> Some [FreeContext r] | _ \<Rightarrow> None)
        else Some []
      else (case pr of PValue v \<Rightarrow> Some [FreeValue v] | _ \<Rightarrow> None))"

fun free_properties :: "JSShapeProperty list \<Rightarrow> JSProperty list \<Rightarrow> release list option" where
  "free_properties [] ps = Some []"
| "free_properties (s # ss) [] = None"
| "free_properties (s # ss) (p # ps) =
     do { r \<leftarrow> free_property s p; rs \<leftarrow> free_properties ss ps; Some (r @ rs) }"

abbreviation free_values :: "jsval list \<Rightarrow> release list" where
  "free_values \<equiv> map FreeValue"

definition js_bytecode_function_finalizer ::
    "gc_heap \<Rightarrow> gref option \<Rightarrow> gref option \<Rightarrow> gref option list option \<Rightarrow> release list option" where
  "js_bytecode_function_finalizer h home fb var_refs =
     (case fb of
        None \<Rightarrow> Some (free_values (map (JPtr TagObject) (opt_list home)))
      | Some b \<Rightarrow>
          (case h b of
             Some (NBytecode bc) \<Rightarrow>
               Some (free_values (map (JPtr TagObject) (opt_list home)) @
                 (case var_refs of None \<Rightarrow> [] | Some vs \<Rightarrow> map FreeVarRef (take (closure_var_count bc) vs)) @
                 [FreeValue (JPtr TagFunctionBytecode b)])
           | _ \<Rightarrow> None))"

definition js_map_finalizer :: "bool \<Rightarrow> JSMapRecord list \<Rightarrow> release list" where
  "js_map_finalizer is_weak records =
     concat (map (\<lambda>mr. if mr_empty mr then []
       else [if is_weak then FreeWeakref (mr_key mr) else FreeValue (mr_key mr), FreeValue (mr_value mr)]) records)"

definition promise_reaction_data_free :: "JSPromiseReactionData \<Rightarrow> release list" where
  "promise_reaction_data_free rd =
     free_values [fst (rd_resolving_funcs rd), snd (rd_resolving_funcs rd), rd_handler rd]"

definition js_promise_finalizer :: "JSPromiseReactionData list \<Rightarrow> JSPromiseReactionData list \<Rightarrow> jsval \<Rightarrow> release list" where
  "js_promise_finalizer r0 r1 result =
     concat (map promise_reaction_data_free r0) @ concat (map promise_reaction_data_free r1) @ [FreeValue result]"

definition free_generator_stack_rt :: "JSGeneratorStateEnum \<Rightarrow> gref option \<Rightarrow> release list" where
  "free_generator_stack_rt state func_state =
     (if state = GEN_COMPLETED then [] else map FreeAsync (opt_list func_state))"

definition js_async_generator_free :: "JSAsyncGeneratorRequest list \<Rightarrow> gref option \<Rightarrow> release list" where
  "js_async_generator_free queue func_state =
     concat (map (\<lambda>req. free_values [req_result req, req_promise req, fst (req_resolving_funcs req), snd (req_resolving_funcs req)]) queue) @
     map FreeAsync (opt_list func_state)"

definition js_finrec_finalizer :: "JSFinRecEntry list \<Rightarrow> jsval \<Rightarrow> gref \<Rightarrow> release list" where
  "js_finrec_finalizer entries cb realm =
     concat (map (\<lambda>fre. [FreeWeakref (fre_target fre), FreeWeakref (fre_token fre), FreeValue (fre_held_val fre)]) entries) @
     [FreeValue cb, FreeContext realm]"

definition js_array_finalizer :: "jsval list \<Rightarrow> release list" where
  "js_array_finalizer values = free_values values"

definition js_mapped_arguments_finalizer :: "gref list \<Rightarrow> release list" where
  "js_mapped_arguments_finalizer var_refs = map (\<lambda>v. FreeVarRef (Some v)) var_refs"

definition js_object_data_finalizer :: "jsval \<Rightarrow> release list" where
  "js_object_data_finalizer v = [FreeValue v]"

definition js_c_function_finalizer :: "gref option \<Rightarrow> release list" where
  "js_c_function_finalizer realm = map FreeContext (opt_list realm)"

definition js_bound_function_finalizer :: "jsval \<Rightarrow> jsval \<Rightarrow> jsval list \<Rightarrow> release list" where
  "js_bound_function_finalizer f this argv = FreeValue f # FreeValue this # free_values argv"

definition js_c_function_data_finalizer :: "jsval list option \<Rightarrow> release list" where
  "js_c_function_data_finalizer s =
     (case s of None \<Rightarrow> [] | Some data \<Rightarrow> free_values data)"

definition js_for_in_iterator_finalizer :: "jsval \<Rightarrow> release list" where
  "js_for_in_iterator_finalizer v = [FreeValue v]"

definition js_typed_array_finalizer :: "gref option \<Rightarrow> release list" where
  "js_typed_array_finalizer buffer = free_values (map (JPtr TagObject) (opt_list buffer))"

definition js_proxy_finalizer :: "(jsval \<times> jsval) option \<Rightarrow> release list" where
  "js_proxy_finalizer s =
     (case s of None \<Rightarrow> [] | Some (target, handler) \<Rightarrow> free_values [target, handler])"

definition js_map_iterator_finalizer :: "(jsval \<times> bool) option \<Rightarrow> release list" where
  "js_map_iterator_finalizer it =
     (case it of None \<Rightarrow> [] | Some (v, _) \<Rightarrow> [PeekObject v, FreeValue v])"

definition js_array_iterator_finalizer :: "jsval option \<Rightarrow> release list" where
  "js_array_iterator_finalizer it =
     (case it of None \<Rightarrow> [] | Some v \<Rightarrow> [FreeValue v])"

definition js_iterator_concat_finalizer :: "(jsval \<times> jsval \<times> nat \<times> jsval list) option \<Rightarrow> release list" where
  "js_iterator_concat_finalizer it =
     (case it of None \<Rightarrow> [] | Some (iter, nx, index, values) \<Rightarrow> FreeValue iter # FreeValue nx # free_values (drop index values))"

definition js_iterator_helper_finalizer :: "(jsval \<times> jsval \<times> jsval \<times> jsval) option \<Rightarrow> release list" where
  "js_iterator_helper_finalizer it =
     (case it of None \<Rightarrow> [] | Some (v, f, nx, inner) \<Rightarrow> free_values [v, f, nx, inner])"

definition js_iterator_wrap_finalizer :: "(jsval \<times> jsval) option \<Rightarrow> release list" where
  "js_iterator_wrap_finalizer it =
     (case it of None \<Rightarrow> [] | Some (iter, nx) \<Rightarrow> free_values [iter, nx])"

definition js_regexp_string_iterator_finalizer :: "(jsval \<times> jsval) option \<Rightarrow> release list" where
  "js_regexp_string_iterator_finalizer it =
     (case it of None \<Rightarrow> [] | Some (re, str) \<Rightarrow> free_values [re, str])"

definition js_generator_finalizer :: "(JSGeneratorStateEnum \<times> gref option) option \<Rightarrow> release list" where
  "js_generator_finalizer s =
     (case s of None \<Rightarrow> [] | Some (state, func_state) \<Rightarrow> free_generator_stack_rt state func_state)"

definition js_global_object_finalizer :: "jsval \<Rightarrow> release list" where
  "js_global_object_finalizer v = [FreeValue v]"

definition js_promise_resolve_function_finalizer :: "jsval option \<Rightarrow> release list" where
  "js_promise_resolve_function_finalizer s =
     (case s of None \<Rightarrow> [] | Some promise \<Rightarrow> [FreeValue promise])"

definition js_async_function_resolve_finalizer :: "gref option \<Rightarrow> release list" where
  "js_async_function_resolve_finalizer s = map FreeAsync (opt_list s)"

definition js_async_from_sync_iterator_finalizer :: "(jsval \<times> jsval) option \<Rightarrow> release list" where
  "js_async_from_sync_iterator_finalizer s =
     (case s of None \<Rightarrow> [] | Some (iter, nx) \<Rightarrow> free_values [iter, nx])"

definition js_weakref_finalizer :: "jsval option \<Rightarrow> release list" where
  "js_weakref_finalizer s =
     (case s of None \<Rightarrow> [] | Some target \<Rightarrow> [FreeWeakref target])"

text \<open>The \<open>finalizer\<close> entries of the class tables.\<close>

definition finalizer :: "gc_heap \<Rightarrow> JSObject_u \<Rightarrow> release list option" where
  "finalizer h u = (case u of
     U_plain \<Rightarrow> Some []
   | U_array values \<Rightarrow> Some (js_array_finalizer values)
   | U_mapped_arguments var_refs \<Rightarrow> Some (js_mapped_arguments_finalizer var_refs)
   | U_object_data v \<Rightarrow> Some (js_object_data_finalizer v)
   | U_cfunc realm \<Rightarrow> Some (js_c_function_finalizer realm)
   | U_func home fb var_refs \<Rightarrow> js_bytecode_function_finalizer h home fb var_refs
   | U_bound_function f this argv \<Rightarrow> Some (js_bound_function_finalizer f this argv)
   | U_c_function_data s \<Rightarrow> Some (js_c_function_data_finalizer s)
   | U_for_in_iterator v \<Rightarrow> Some (js_for_in_iterator_finalizer v)
   | U_typed_array buffer \<Rightarrow> Some (js_typed_array_finalizer buffer)
   | U_proxy s \<Rightarrow> Some (js_proxy_finalizer s)
   | U_map s \<Rightarrow> Some (case s of None \<Rightarrow> [] | Some (is_weak, records) \<Rightarrow> js_map_finalizer is_weak records)
   | U_map_iterator it \<Rightarrow> Some (js_map_iterator_finalizer it)
   | U_array_iterator it \<Rightarrow> Some (js_array_iterator_finalizer it)
   | U_iterator_concat it \<Rightarrow> Some (js_iterator_concat_finalizer it)
   | U_iterator_helper it \<Rightarrow> Some (js_iterator_helper_finalizer it)
   | U_iterator_wrap it \<Rightarrow> Some (js_iterator_wrap_finalizer it)
   | U_regexp_string_iterator it \<Rightarrow> Some (js_regexp_string_iterator_finalizer it)
   | U_generator s \<Rightarrow> Some (js_generator_finalizer s)
   | U_global_object v \<Rightarrow> Some (js_global_object_finalizer v)
   | U_promise s \<Rightarrow> Some (case s of None \<Rightarrow> [] | Some (r0, r1, result) \<Rightarrow> js_promise_finalizer r0 r1 result)
   | U_promise_resolve_function s \<Rightarrow> Some (js_promise_resolve_function_finalizer s)
   | U_async_function_resolve s \<Rightarrow> Some (js_async_function_resolve_finalizer s)
   | U_async_from_sync_iterator s \<Rightarrow> Some (js_async_from_sync_iterator_finalizer s)
   | U_async_generator s \<Rightarrow> Some (case s of None \<Rightarrow> [] | Some (queue, func_state) \<Rightarrow> js_async_generator_free queue func_state)
   | U_weakref s \<Rightarrow> Some (js_weakref_finalizer s)
   | U_finrec s \<Rightarrow> Some (case s of None \<Rightarrow> [] | Some (entries, cb, realm) \<Rightarrow> js_finrec_finalizer entries cb realm))"

text \<open>The fields of an object: the properties, the shape, then the class data.\<close>

definition free_object_fields :: "gc_heap \<Rightarrow> JSObject \<Rightarrow> release list option" where
  "free_object_fields h p =
     (case obj_shape p of
        None \<Rightarrow> None
      | Some sh \<Rightarrow>
          (case h sh of
             Some (NShape s) \<Rightarrow>
               do { ps \<leftarrow> free_properties (shape_prop s) (obj_prop p); cs \<leftarrow> finalizer h (obj_u p); Some (ps @ [FreeShape sh] @ cs) }
           | _ \<Rightarrow> None))"

definition async_func_free_frame :: "JSAsyncFunctionState \<Rightarrow> release list" where
  "async_func_free_frame s =
     (case frame_values s of None \<Rightarrow> [AssertFails] | Some vs \<Rightarrow> free_values vs @ free_values [cur_func s, as_this_val s])"

definition free_async_fields :: "JSAsyncFunctionState \<Rightarrow> release list" where
  "free_async_fields s =
     (if is_completed s then [] else async_func_free_frame s) @
     free_values [fst (as_resolving_funcs s), snd (as_resolving_funcs s)]"

definition free_context_fields :: "JSContext \<Rightarrow> release list" where
  "free_context_fields ctx =
     free_values (map (JPtr TagModule) (loaded_modules ctx)) @
     free_values [global_obj ctx, global_var_obj ctx, throw_type_error ctx, eval_obj ctx, array_proto_values ctx] @
     free_values (native_error_proto ctx) @ free_values (class_proto ctx) @
     free_values [iterator_ctor ctx, async_iterator_proto ctx, promise_ctor ctx, array_ctor ctx, regexp_ctor ctx,
       function_ctor ctx, function_proto ctx] @
     map FreeShape (opt_list (array_shape ctx) @ opt_list (arguments_shape ctx) @ opt_list (mapped_arguments_shape ctx) @
       opt_list (regexp_shape ctx) @ opt_list (regexp_result_shape ctx))"

definition free_module_fields :: "JSModuleDef \<Rightarrow> release list" where
  "free_module_fields m =
     free_values (req_attributes m) @
     concat (map (\<lambda>me. case me of ExportLocal v \<Rightarrow> [FreeVarRef v] | ExportIndirect \<Rightarrow> []) (export_entries m)) @
     free_values [module_ns m, func_obj m, eval_exception m, meta_obj m, m_promise m, fst (m_resolving_funcs m),
       snd (m_resolving_funcs m), private_value m]"

definition free_bytecode_fields :: "JSFunctionBytecode \<Rightarrow> release list" where
  "free_bytecode_fields b = free_values (cpool b) @ map FreeContext (opt_list (bc_realm b))"

definition free_var_ref_fields :: "JSVarRef \<Rightarrow> release list" where
  "free_var_ref_fields v = (if is_detached v then [FreeValue (vr_value v)] else map FreeAsync (opt_list (vr_async v)))"

definition free_shape_fields :: "JSShape \<Rightarrow> release list" where
  "free_shape_fields sh = free_values (map (JPtr TagObject) (opt_list (proto sh)))"

definition free_children :: "gc_heap \<Rightarrow> gref \<Rightarrow> release list option" where
  "free_children h gp =
     (case h gp of
        None \<Rightarrow> None
      | Some (NObject p) \<Rightarrow> free_object_fields h p
      | Some (NBytecode b) \<Rightarrow> Some (free_bytecode_fields b)
      | Some (NVarRef v) \<Rightarrow> Some (free_var_ref_fields v)
      | Some (NAsync s) \<Rightarrow> Some (free_async_fields s)
      | Some (NShape sh) \<Rightarrow> Some (free_shape_fields sh)
      | Some (NContext ctx) \<Rightarrow> Some (free_context_fields ctx)
      | Some (NModule m) \<Rightarrow> Some (free_module_fields m))"

section \<open>Marking and releasing agree\<close>

lemmas class_mark_defs =
  js_array_mark_def js_mapped_arguments_mark_def js_object_data_mark_def js_c_function_mark_def js_bound_function_mark_def js_c_function_data_mark_def js_for_in_iterator_mark_def js_typed_array_mark_def js_proxy_mark_def js_map_iterator_mark_def js_array_iterator_mark_def js_iterator_concat_mark_def js_iterator_helper_mark_def js_iterator_wrap_mark_def js_regexp_string_iterator_mark_def js_generator_mark_def js_global_object_mark_def js_promise_resolve_function_mark_def js_async_function_resolve_mark_def js_async_from_sync_iterator_mark_def

lemmas class_finalizer_defs =
  js_array_finalizer_def js_mapped_arguments_finalizer_def js_object_data_finalizer_def js_c_function_finalizer_def js_bound_function_finalizer_def js_c_function_data_finalizer_def js_for_in_iterator_finalizer_def js_typed_array_finalizer_def js_proxy_finalizer_def js_map_iterator_finalizer_def js_array_iterator_finalizer_def js_iterator_concat_finalizer_def js_iterator_helper_finalizer_def js_iterator_wrap_finalizer_def js_regexp_string_iterator_finalizer_def js_generator_finalizer_def js_global_object_finalizer_def js_promise_resolve_function_finalizer_def js_async_function_resolve_finalizer_def js_async_from_sync_iterator_finalizer_def js_weakref_finalizer_def

text \<open>The references a call gives up.\<close>

fun released :: "release \<Rightarrow> gref list" where
  "released (FreeValue v) = JS_MarkValue v"
| "released (FreeShape p) = [p]"
| "released (FreeVarRef p) = opt_list p"
| "released (FreeContext p) = [p]"
| "released (FreeAsync p) = [p]"
| "released _ = []"

text \<open>
  What the rest of the engine keeps true of the fields: a property fits its flags and a deleted one holds
  nothing, a deleted map record holds nothing, and a generator that has ended has no frame. \<open>node_idle\<close>
  says that an async function is not running.
\<close>

definition property_ok :: "JSShapeProperty \<Rightarrow> JSProperty \<Rightarrow> bool" where
  "property_ok prs pr =
     (let t = sp_flags prs AND JS_PROP_TMASK in
      (case pr of
         PValue v \<Rightarrow> t = 0 \<and> (sp_atom prs = 0 \<longrightarrow> JS_MarkValue v = [])
       | PGetSet _ _ \<Rightarrow> t = JS_PROP_GETSET \<and> sp_atom prs \<noteq> 0
       | PVarRef _ \<Rightarrow> t = JS_PROP_VARREF \<and> sp_atom prs \<noteq> 0
       | PAutoInit _ \<Rightarrow> t = JS_PROP_AUTOINIT \<and> sp_atom prs \<noteq> 0))"

definition record_ok :: "JSMapRecord \<Rightarrow> bool" where
  "record_ok mr = (mr_empty mr \<longrightarrow> JS_MarkValue (mr_key mr) = [] \<and> JS_MarkValue (mr_value mr) = [])"

definition payload_ok :: "gc_heap \<Rightarrow> JSObject_u \<Rightarrow> bool" where
  "payload_ok h u = (case u of
     U_func _ (Some b) _ \<Rightarrow> (case h b of Some (NBytecode _) \<Rightarrow> True | _ \<Rightarrow> False)
   | U_map (Some (_, records)) \<Rightarrow> list_all record_ok records
   | U_generator (Some (state, func_state)) \<Rightarrow> state = GEN_COMPLETED \<longrightarrow> func_state = None
   | _ \<Rightarrow> True)"

definition node_ok :: "gc_heap \<Rightarrow> gc_node \<Rightarrow> bool" where
  "node_ok h n = (case n of
     NObject p \<Rightarrow> (case obj_shape p of None \<Rightarrow> False
       | Some sh \<Rightarrow> (case h sh of Some (NShape s) \<Rightarrow> list_all2 property_ok (shape_prop s) (obj_prop p) | _ \<Rightarrow> False)) \<and>
       payload_ok h (obj_u p)
   | _ \<Rightarrow> True)"

definition node_idle :: "gc_node \<Rightarrow> bool" where
  "node_idle n = (case n of NAsync s \<Rightarrow> is_completed s \<or> frame_values s \<noteq> None | _ \<Rightarrow> True)"

abbreviation released_all :: "release list \<Rightarrow> gref list" where
  "released_all rs \<equiv> concat (map released rs)"

lemma released_compose [simp]:
  "released \<circ> FreeValue = JS_MarkValue" "released \<circ> FreeVarRef = opt_list" "released \<circ> FreeShape = (\<lambda>p. [p])"
  "released \<circ> FreeContext = (\<lambda>p. [p])" "released \<circ> FreeAsync = (\<lambda>p. [p])" "JS_MarkValue \<circ> JPtr TagObject = (\<lambda>p. [p])"
  "JS_MarkValue \<circ> JPtr TagModule = (\<lambda>p. [p])"
  "released \<circ> (\<lambda>v. FreeVarRef (Some v)) = (\<lambda>p. [p])" "released \<circ> (\<lambda>p. FreeValue (JPtr TagObject p)) = (\<lambda>p. [p])"
  "released \<circ> (FreeValue \<circ> JPtr TagObject) = (\<lambda>p. [p])" "released \<circ> (FreeValue \<circ> JPtr TagModule) = (\<lambda>p. [p])"
  by auto

lemma property_agrees:
  assumes "property_ok prs pr"
  shows "\<exists>ms rs. mark_property prs pr = Some ms \<and> free_property prs pr = Some rs \<and> released_all rs = ms \<and> AssertFails \<notin> set rs"
  using assms by (cases pr) (auto simp: property_ok_def mark_property_def free_property_def Let_def JS_PROP_GETSET_def
    JS_PROP_VARREF_def JS_PROP_AUTOINIT_def split: option.splits)

lemma properties_agree:
  assumes "list_all2 property_ok ss ps"
  shows "\<exists>ms rs. mark_properties ss ps = Some ms \<and> free_properties ss ps = Some rs \<and> released_all rs = ms \<and> AssertFails \<notin> set rs"
  using assms
proof induction
  case (Cons s ss p ps)
  with property_agrees [of s p] show ?case by auto
qed simp

lemma map_agrees: "list_all record_ok rs \<Longrightarrow> released_all (js_map_finalizer w rs) = js_map_mark w rs"
  by (induction rs) (auto simp: js_map_finalizer_def js_map_mark_def record_ok_def)

lemma promise_agrees: "released_all (js_promise_finalizer r0 r1 v) = js_promise_mark r0 r1 v"
proof -
  have "released_all (concat (map promise_reaction_data_free r)) = concat (map mark_reaction r)" for r
    by (induction r) (simp_all add: promise_reaction_data_free_def mark_reaction_def)
  then show ?thesis by (simp add: js_promise_finalizer_def js_promise_mark_def)
qed

lemma async_generator_agrees: "released_all (js_async_generator_free q f) = js_async_generator_mark q f"
  by (induction q) (simp_all add: js_async_generator_free_def js_async_generator_mark_def mark_request_def)

lemma finrec_agrees: "released_all (js_finrec_finalizer es cb realm) = js_finrec_mark es cb realm"
  by (induction es) (simp_all add: js_finrec_finalizer_def js_finrec_mark_def)

lemma finalizer_no_assert:
  "AssertFails \<notin> set (js_map_finalizer w rs)" "AssertFails \<notin> set (js_promise_finalizer r0 r1 v)"
  "AssertFails \<notin> set (js_async_generator_free q f)" "AssertFails \<notin> set (js_finrec_finalizer es cb realm)"
  "AssertFails \<notin> set (free_generator_stack_rt st fs)"
  by (auto simp: js_map_finalizer_def js_promise_finalizer_def promise_reaction_data_free_def js_async_generator_free_def
    js_finrec_finalizer_def free_generator_stack_rt_def split: if_splits)

lemma payload_agrees:
  assumes "payload_ok h u"
  shows "\<exists>ms rs. gc_mark h u = Some ms \<and> finalizer h u = Some rs \<and> released_all rs = ms \<and> AssertFails \<notin> set rs"
  using assms
  by (cases u) (auto simp: map_agrees promise_agrees async_generator_agrees finrec_agrees finalizer_no_assert payload_ok_def gc_mark_def finalizer_def class_mark_defs class_finalizer_defs js_bytecode_function_mark_def js_bytecode_function_finalizer_def
    free_generator_stack_rt_def split: option.splits gc_node.splits if_splits)

lemma object_agrees:
  assumes "node_ok h (NObject p)"
  shows "\<exists>ms rs. mark_object h p = Some ms \<and> free_object_fields h p = Some rs \<and> mset (released_all rs) = mset ms \<and> AssertFails \<notin> set rs"
proof -
  obtain sh s where s: "obj_shape p = Some sh" "h sh = Some (NShape s)" "list_all2 property_ok (shape_prop s) (obj_prop p)"
    "payload_ok h (obj_u p)"
    using assms by (auto simp: node_ok_def split: option.splits gc_node.splits)
  with properties_agree [OF s(3)] payload_agrees [OF s(4)] show ?thesis
    by (auto simp: mark_object_def free_object_fields_def)
qed

lemma context_agrees: "released_all (free_context_fields ctx) = JS_MarkContext ctx"
  by (simp add: free_context_fields_def JS_MarkContext_def)

lemma module_agrees: "released_all (free_module_fields m) = js_mark_module_def m"
proof -
  have "released_all (concat (map (\<lambda>me. case me of ExportLocal v \<Rightarrow> [FreeVarRef v] | ExportIndirect \<Rightarrow> []) es)) =
      concat (map (\<lambda>me. case me of ExportLocal v \<Rightarrow> opt_list v | ExportIndirect \<Rightarrow> []) es)" for es
    by (induction es) (simp_all split: JSExportEntry.split)
  then show ?thesis by (simp add: free_module_fields_def js_mark_module_def_def)
qed

lemma children_agree:
  assumes "h p = Some n" "node_ok h n" "node_idle n"
  shows "\<exists>ms rs. mark_children h p = Some ms \<and> free_children h p = Some rs \<and>
    mset (released_all rs) = mset ms \<and> AssertFails \<notin> set rs"
proof (cases n)
  case (NObject q)
  then show ?thesis using object_agrees [of h q] assms by (simp add: mark_children_def free_children_def)
next
  case (NAsync s)
  then show ?thesis using assms
    by (auto simp: mark_children_def free_children_def mark_async_def free_async_fields_def async_func_free_frame_def node_idle_def)
next
  case (NContext c)
  then show ?thesis using assms context_agrees [of c]
    by (auto simp: mark_children_def free_children_def free_context_fields_def)
next
  case (NModule m)
  then show ?thesis using assms module_agrees [of m]
    by (auto simp: mark_children_def free_children_def free_module_fields_def split: JSExportEntry.splits)
qed (use assms in \<open>auto simp: mark_children_def free_children_def free_bytecode_fields_def free_var_ref_fields_def
  free_shape_fields_def split: option.splits\<close>)

text \<open>C22: marking and releasing agree: for every kind of object the collector knows and every class of the class
  tables, the references that \<open>mark_children\<close> visits are exactly those that freeing the object releases, with the
  same multiplicity, and neither reads a freed object nor fails an assertion. This is what makes it sound to
  take the references found by marking away from the reference counts.\<close>

theorem mark_matches_release:
  assumes "h p = Some n" "node_ok h n" "node_idle n"
  shows "\<exists>ms rs. mark_children h p = Some ms \<and> free_children h p = Some rs \<and>
    mset (released_all rs) = mset ms \<and> AssertFails \<notin> set rs"
  using assms by (rule children_agree)

text \<open>A promise with a reaction, stored in a property of itself: a cycle.\<close>

definition demo_heap :: gc_heap where
  "demo_heap = [4 \<mapsto> NShape \<lparr>proto = None, shape_prop = [\<lparr>sp_flags = 7, sp_atom = 3\<rparr>]\<rparr>,
     5 \<mapsto> NObject \<lparr>free_mark = False, obj_shape = Some 4, obj_prop = [PValue (JPtr TagObject 5)],
       obj_u = U_promise (Some ([\<lparr>rd_resolving_funcs = (JUndefined, JUndefined), rd_handler = JPtr TagObject 5\<rparr>], [], JUndefined))\<rparr>]"

theorem mark_matches_release_witness:
  "\<exists>rs. mark_children demo_heap 5 = Some [4, 5, 5] \<and> free_children demo_heap 5 = Some rs \<and>
    mset (released_all rs) = {#4, 5, 5#} \<and> AssertFails \<notin> set rs"
proof -
  have "property_ok \<lparr>sp_flags = 7, sp_atom = 3\<rparr> (PValue (JPtr TagObject 5))" by (simp add: property_ok_def JS_PROP_TMASK_def)
  then have "node_ok demo_heap (the (demo_heap 5))" by (simp add: demo_heap_def node_ok_def payload_ok_def)
  moreover have "mark_children demo_heap 5 = Some [4, 5, 5]" by code_simp
  ultimately show ?thesis using mark_matches_release [of demo_heap 5 "the (demo_heap 5)"]
    by (simp add: demo_heap_def node_idle_def)
qed

end
