(* ===== verification/Linked.thy ===== *)
theory Linked
  imports Prelude
begin

text \<open>
  The intrusive doubly linked lists of \<open>list.h\<close>, on which the engine keeps its job queue and its object
  lists: a circular chain through a head element. The links are a store of two pointers per address;
  address 0 is NULL.
\<close>

record links =
  prv :: "nat \<Rightarrow> nat"
  nxt :: "nat \<Rightarrow> nat"

section \<open>Operations\<close>

definition init_list_head :: "nat \<Rightarrow> links \<Rightarrow> links" where
  "init_list_head head h = h\<lparr>prv := (prv h)(head := head), nxt := (nxt h)(head := head)\<rparr>"

text \<open>The four assignments of \<open>__list_add\<close> in their order.\<close>

definition list_insert :: "nat \<Rightarrow> nat \<Rightarrow> nat \<Rightarrow> links \<Rightarrow> links" where
  "list_insert el p n h =
     (let h = h\<lparr>nxt := (nxt h)(p := el)\<rparr>;
          h = h\<lparr>prv := (prv h)(el := p)\<rparr>;
          h = h\<lparr>nxt := (nxt h)(el := n)\<rparr> in
      h\<lparr>prv := (prv h)(n := el)\<rparr>)"

definition list_add :: "nat \<Rightarrow> nat \<Rightarrow> links \<Rightarrow> links" where
  "list_add el head h = list_insert el head (nxt h head) h"

definition list_add_tail :: "nat \<Rightarrow> nat \<Rightarrow> links \<Rightarrow> links" where
  "list_add_tail el head h = list_insert el (prv h head) head h"

definition list_del :: "nat \<Rightarrow> links \<Rightarrow> links" where
  "list_del el h =
     (let p = prv h el; n = nxt h el;
          h = h\<lparr>nxt := (nxt h)(p := n)\<rparr>;
          h = h\<lparr>prv := (prv h)(n := p)\<rparr> in
      h\<lparr>prv := (prv h)(el := 0), nxt := (nxt h)(el := 0)\<rparr>)"

definition list_empty :: "nat \<Rightarrow> links \<Rightarrow> bool" where
  "list_empty el h = (nxt h el = el)"

text \<open>\<open>list_for_each\<close>, with a bound on the rounds.\<close>

fun list_for_each :: "nat \<Rightarrow> nat \<Rightarrow> nat \<Rightarrow> links \<Rightarrow> nat list option" where
  "list_for_each 0 el head h = (if el = head then Some [] else None)"
| "list_for_each (Suc n) el head h =
     (if el = head then Some [] else map_option (\<lambda>xs. el # xs) (list_for_each n (nxt h el) head h))"

section \<open>Chains\<close>

fun chain :: "links \<Rightarrow> nat \<Rightarrow> nat list \<Rightarrow> nat \<Rightarrow> bool" where
  "chain h a [] b = (nxt h a = b \<and> prv h b = a)"
| "chain h a (x # xs) b = (nxt h a = x \<and> prv h x = a \<and> chain h x xs b)"

text \<open>The list with head \<open>head\<close> has the elements \<open>xs\<close>, in this order.\<close>

definition is_list :: "links \<Rightarrow> nat \<Rightarrow> nat list \<Rightarrow> bool" where
  "is_list h head xs = (chain h head xs head \<and> distinct (head # xs) \<and> 0 \<notin> set (head # xs))"

lemma chain_append [simp]: "chain h a (xs @ x # ys) b \<longleftrightarrow> chain h a xs x \<and> chain h x ys b"
  by (induction xs arbitrary: a) auto

lemma chain_frame:
  "chain h a xs b \<Longrightarrow> (\<And>y. y \<in> set (a # xs) \<Longrightarrow> nxt h' y = nxt h y) \<Longrightarrow>
   (\<And>y. y \<in> set (xs @ [b]) \<Longrightarrow> prv h' y = prv h y) \<Longrightarrow> chain h' a xs b"
  by (induction xs arbitrary: a) auto

lemmas link_defs = init_list_head_def list_insert_def list_add_def list_add_tail_def list_del_def Let_def

lemma list_add_ok:
  assumes "is_list h head xs" "el \<notin> set (head # xs)" "el \<noteq> 0"
  shows "is_list (list_add el head h) head (el # xs)"
proof (cases xs)
  case (Cons x ys)
  have "chain (list_add el head h) x ys head"
    by (rule chain_frame [of h]) (use assms Cons in \<open>auto simp: is_list_def link_defs\<close>)
  with assms Cons show ?thesis by (auto simp: is_list_def link_defs)
qed (use assms in \<open>auto simp: is_list_def link_defs\<close>)

lemma list_add_tail_ok:
  assumes "is_list h head xs" "el \<notin> set (head # xs)" "el \<noteq> 0"
  shows "is_list (list_add_tail el head h) head (xs @ [el])"
proof (cases xs rule: rev_cases)
  case (snoc ys x)
  have "chain (list_add_tail el head h) head ys x"
    by (rule chain_frame [of h]) (use assms snoc in \<open>auto simp: is_list_def link_defs\<close>)
  with assms snoc show ?thesis by (auto simp: is_list_def link_defs)
qed (use assms in \<open>auto simp: is_list_def link_defs\<close>)

lemma chain_first: "chain h a xs b \<Longrightarrow> nxt h a = hd (xs @ [b])"
  by (cases xs) auto

lemma chain_last: "chain h a xs b \<Longrightarrow> prv h b = last (a # xs)"
  by (induction xs arbitrary: a) auto

lemma list_del_ok:
  assumes "is_list h head (xs @ el # ys)"
  shows "is_list (list_del el h) head (xs @ ys)"
proof -
  let ?h = "list_del el h"
  have c: "chain h head xs el" "chain h el ys head" using assms by (auto simp: is_list_def)
  note ends = chain_last [OF c(1)] chain_first [OF c(2)]
  have h: "nxt ?h = (nxt h)(last (head # xs) := hd (ys @ [head]), el := 0)"
      "prv ?h = (prv h)(hd (ys @ [head]) := last (head # xs), el := 0)"
    using ends by (simp_all add: list_del_def Let_def)
  have d: "distinct (head # xs @ el # ys)" "0 \<notin> set (head # xs @ el # ys)" using assms by (auto simp: is_list_def)
  have n: "hd (ys @ [head]) \<notin> set (xs @ [el])" using d by (cases ys) auto
  have p: "last (head # xs) \<notin> set (el # ys)" using d by (cases xs rule: rev_cases) auto
  have fst_part: "chain ?h head xs' x" if "xs = xs' @ [x]" for xs' x
    by (rule chain_frame [of h]) (use c(1) d n that in \<open>auto simp: h simp del: hd_append\<close>)
  have snd_part: "chain ?h y ys' head" if "ys = y # ys'" for y ys'
    by (rule chain_frame [of h]) (use c(2) d p that in \<open>auto simp: h simp del: last.simps\<close>)
  have "chain ?h head (xs @ ys) head"
    using fst_part snd_part d p n by (cases xs rule: rev_cases; cases ys) (auto simp: h)
  then show ?thesis using d by (auto simp: is_list_def)
qed

lemma list_for_each_ok:
  "chain h a xs b \<Longrightarrow> b \<notin> set xs \<Longrightarrow> length xs \<le> n \<Longrightarrow> list_for_each n (nxt h a) b h = Some xs"
proof (induction xs arbitrary: a n)
  case (Cons x xs)
  then obtain m where "n = Suc m" by (cases n) auto
  with Cons show ?case by auto
next
  case Nil
  then show ?case by (cases n) auto
qed

section \<open>Properties\<close>

text \<open>C40: the pointer operations of \<open>list.h\<close> implement lists: initialising makes the empty list, adding puts
  an element first or last, deleting takes out exactly the given element wherever it is and clears its
  links, emptiness is tested correctly and a traversal visits the elements in order.\<close>

theorem list_ops_refine:
  assumes "is_list h head (xs @ el # ys)" "new \<notin> set (head # xs @ el # ys)" "new \<noteq> 0"
  shows "is_list (list_add new head h) head (new # xs @ el # ys) \<and>
    is_list (list_add_tail new head h) head (xs @ el # ys @ [new]) \<and>
    is_list (list_del el h) head (xs @ ys) \<and> nxt (list_del el h) el = 0 \<and> prv (list_del el h) el = 0 \<and>
    is_list (init_list_head head h) head [] \<and> list_empty head (init_list_head head h) \<and> \<not> list_empty head h \<and>
    list_for_each (length (xs @ el # ys)) (nxt h head) head h = Some (xs @ el # ys)"
proof -
  have "is_list (list_add_tail new head h) head (xs @ el # ys @ [new])"
    using list_add_tail_ok [OF assms] by simp
  moreover have "is_list (init_list_head head h) head [] \<and> list_empty head (init_list_head head h)"
    using assms(1) by (auto simp: is_list_def link_defs list_empty_def)
  moreover have "\<not> list_empty head h"
    using assms(1) chain_first [of h head "xs @ el # ys" head] by (cases xs) (auto simp: is_list_def list_empty_def)
  moreover have "list_for_each (length (xs @ el # ys)) (nxt h head) head h = Some (xs @ el # ys)"
    by (rule list_for_each_ok) (use assms(1) in \<open>auto simp: is_list_def\<close>)
  ultimately show ?thesis
    using list_add_ok [OF assms] list_del_ok [OF assms(1)] by (simp add: link_defs)
qed

definition three :: links where
  "three = list_add_tail 4 1 (list_add_tail 3 1 (list_add_tail 2 1 (init_list_head 1 \<lparr>prv = (\<lambda>a. 0), nxt = (\<lambda>a. 0)\<rparr>)))"

theorem list_ops_refine_witness: "is_list (list_del 3 three) 1 [2, 4] \<and> list_for_each 3 (nxt three 1) 1 three = Some [2, 3, 4]"
proof -
  have "is_list three 1 ([2] @ 3 # [4])" by (simp add: three_def is_list_def link_defs)
  from list_ops_refine [OF this, of 5] show ?thesis by (simp add: numeral_3_eq_3 del: list_for_each.simps)
qed

end
