(* ===== verification/GcMark.thy ===== *)
theory GcMark
  imports GcNodes Linked
begin

text \<open>
  The marking phases of the cycle collector (\<open>gc_decref\<close>, \<open>gc_scan\<close>): the references between the objects are
  taken away from the reference counts, what keeps a positive count is held from outside, and everything
  reachable from there is kept. The lists of the runtime are the linked lists of \<open>Linked\<close>.
\<close>

section \<open>State\<close>

datatype JSGCPhaseEnum = JS_GC_PHASE_NONE | JS_GC_PHASE_DECREF | JS_GC_PHASE_REMOVE_CYCLES

text \<open>The reference count and the mark are in the block header that \<open>js_rc\<close> finds; \<open>weakref_count\<close> is a field of
  \<open>JSObject\<close>.\<close>

record gc_state =
  heap :: gc_heap
  ref_count :: "gref \<Rightarrow> int"
  mark :: "gref \<Rightarrow> nat"
  weakref_count :: "gref \<Rightarrow> int"
  links_of :: links
  gc_phase :: JSGCPhaseEnum

text \<open>The addresses of the list heads in \<open>JSRuntime\<close>.\<close>

definition gc_obj_list :: nat where "gc_obj_list = 1"
definition tmp_obj_list :: nat where "tmp_obj_list = 2"
definition gc_zero_ref_count_list :: nat where "gc_zero_ref_count_list = 3"

lemmas head_defs = gc_obj_list_def tmp_obj_list_def gc_zero_ref_count_list_def

definition set_rc :: "gref \<Rightarrow> int \<Rightarrow> gc_state \<Rightarrow> gc_state" where
  "set_rc p n s = s\<lparr>ref_count := (ref_count s)(p := n)\<rparr>"

definition set_mark :: "gref \<Rightarrow> nat \<Rightarrow> gc_state \<Rightarrow> gc_state" where
  "set_mark p m s = s\<lparr>mark := (mark s)(p := m)\<rparr>"

text \<open>\<open>list_del\<close> and then \<open>list_add_tail\<close>.\<close>

definition move_tail :: "gref \<Rightarrow> nat \<Rightarrow> gc_state \<Rightarrow> gc_state" where
  "move_tail p head s = s\<lparr>links_of := list_add_tail p head (list_del p (links_of s))\<rparr>"

section \<open>Operations\<close>

text \<open>The value \<open>None\<close> is a failed assertion or the use of a freed object.\<close>

fun for_all :: "('a \<Rightarrow> gc_state \<Rightarrow> gc_state option) \<Rightarrow> 'a list \<Rightarrow> gc_state \<Rightarrow> gc_state option" where
  "for_all f [] s = Some s"
| "for_all f (x # xs) s = do { s \<leftarrow> f x s; for_all f xs s }"

definition mark_with :: "(gref \<Rightarrow> gc_state \<Rightarrow> gc_state option) \<Rightarrow> gref \<Rightarrow> gc_state \<Rightarrow> gc_state option" where
  "mark_with mark_func p s = do { cs \<leftarrow> mark_children (heap s) p; for_all mark_func cs s }"

definition gc_decref_child :: "gref \<Rightarrow> gc_state \<Rightarrow> gc_state option" where
  "gc_decref_child p s =
     (if heap s p = None \<or> \<not> ref_count s p > 0 then None
      else
        let s = set_rc p (ref_count s p - 1) s in
        Some (if ref_count s p = 0 \<and> mark s p = 1 then move_tail p tmp_obj_list s else s))"

text \<open>\<open>list_for_each_safe\<close>: the next element is read before the body.\<close>

partial_function (option) gc_decref_loop :: "nat \<Rightarrow> gc_state \<Rightarrow> gc_state option" where
  "gc_decref_loop el s =
     (if el = gc_obj_list then Some s
      else if mark s el \<noteq> 0 then None
      else
        let el1 = nxt (links_of s) el in
        do { s \<leftarrow> mark_with gc_decref_child el s;
             let s = set_mark el 1 s;
             let s = (if ref_count s el = 0 then move_tail el tmp_obj_list s else s);
             gc_decref_loop el1 s })"

definition gc_decref :: "gc_state \<Rightarrow> gc_state option" where
  "gc_decref s =
     (let s = s\<lparr>links_of := init_list_head tmp_obj_list (links_of s)\<rparr> in
      gc_decref_loop (nxt (links_of s) gc_obj_list) s)"

definition gc_scan_incref_child :: "gref \<Rightarrow> gc_state \<Rightarrow> gc_state option" where
  "gc_scan_incref_child p s =
     (if heap s p = None then None
      else
        let s = set_rc p (ref_count s p + 1) s in
        Some (if ref_count s p = 1 then set_mark p 0 (move_tail p gc_obj_list s) else s))"

definition gc_scan_incref_child2 :: "gref \<Rightarrow> gc_state \<Rightarrow> gc_state option" where
  "gc_scan_incref_child2 p s = (if heap s p = None then None else Some (set_rc p (ref_count s p + 1) s))"

text \<open>\<open>list_for_each\<close>: the next element is read after the body.\<close>

partial_function (option) gc_scan_loop :: "nat \<Rightarrow> gc_state \<Rightarrow> gc_state option" where
  "gc_scan_loop el s =
     (if el = gc_obj_list then Some s
      else if \<not> ref_count s el > 0 then None
      else
        do { s \<leftarrow> mark_with gc_scan_incref_child el (set_mark el 0 s);
             gc_scan_loop (nxt (links_of s) el) s })"

partial_function (option) gc_restore_loop :: "nat \<Rightarrow> gc_state \<Rightarrow> gc_state option" where
  "gc_restore_loop el s =
     (if el = tmp_obj_list then Some s
      else do { s \<leftarrow> mark_with gc_scan_incref_child2 el s; gc_restore_loop (nxt (links_of s) el) s })"

definition gc_scan :: "gc_state \<Rightarrow> gc_state option" where
  "gc_scan s =
     do { s \<leftarrow> gc_scan_loop (nxt (links_of s) gc_obj_list) s;
          gc_restore_loop (nxt (links_of s) tmp_obj_list) s }"

section \<open>The lists of the runtime\<close>

definition heads :: "nat set" where
  "heads = {gc_obj_list, tmp_obj_list, gc_zero_ref_count_list}"

text \<open>\<open>L a\<close> is the list with head \<open>a\<close>.\<close>

definition rt_lists :: "links \<Rightarrow> (nat \<Rightarrow> gref list) \<Rightarrow> bool" where
  "rt_lists h L = (\<forall>a\<in>heads. is_list h a (L a) \<and> set (L a) \<inter> heads = {} \<and> (\<forall>b\<in>heads. a \<noteq> b \<longrightarrow> set (L a) \<inter> set (L b) = {}))"

lemma list_frame:
  assumes "is_list h a xs" "\<And>y. y \<in> set (a # xs) \<Longrightarrow> nxt h' y = nxt h y \<and> prv h' y = prv h y"
  shows "is_list h' a xs"
  using assms unfolding is_list_def by (auto intro: chain_frame [of h])

lemma del_links:
  assumes "is_list h b (ys @ el # zs)" "y \<notin> set (b # ys @ el # zs)"
  shows "nxt (list_del el h) y = nxt h y \<and> prv (list_del el h) y = prv h y"
proof -
  have "chain h b ys el" "chain h el zs b" using assms(1) by (auto simp: is_list_def)
  from chain_last [OF this(1)] chain_first [OF this(2)] have "prv h el \<in> set (b # ys)" "nxt h el \<in> set (zs @ [b])"
    by (auto simp: hd_append split: if_splits intro: hd_in_set last_in_set)
  with assms(2) show ?thesis by (auto simp: list_del_def Let_def)
qed

lemma add_tail_links:
  assumes "is_list h b ys" "y \<notin> set (el # b # ys)"
  shows "nxt (list_add_tail el b h) y = nxt h y \<and> prv (list_add_tail el b h) y = prv h y"
proof -
  have "prv h b \<in> set (b # ys)" using chain_last [of h b ys b] assms(1) by (auto simp: is_list_def)
  with assms(2) show ?thesis by (auto simp: list_add_tail_def list_insert_def Let_def)
qed

lemma add_links:
  assumes "is_list h b ys" "y \<notin> set (el # b # ys)"
  shows "nxt (list_add el b h) y = nxt h y \<and> prv (list_add el b h) y = prv h y"
proof -
  have "nxt h b \<in> set (b # ys)" using chain_first [of h b ys b] assms(1) by (cases ys) (auto simp: is_list_def)
  with assms(2) show ?thesis by (auto simp: list_add_def list_insert_def Let_def)
qed

lemma rt_listsD:
  assumes "rt_lists h L" "a \<in> heads"
  shows "is_list h a (L a)" "x \<in> set (L a) \<Longrightarrow> x \<notin> heads" "b \<in> heads \<Longrightarrow> a \<noteq> b \<Longrightarrow> x \<in> set (L a) \<Longrightarrow> x \<notin> set (L b)"
  using assms unfolding rt_lists_def by blast+

lemma rt_lists_update:
  assumes "rt_lists h L" "a \<in> heads" "\<And>b. b \<in> heads \<Longrightarrow> b \<noteq> a \<Longrightarrow> is_list h' b (L b)" "is_list h' a xs"
    "\<And>x. x \<in> set xs \<Longrightarrow> x \<in> set (L a) \<or> x \<notin> heads \<and> (\<forall>b\<in>heads. x \<notin> set (L b))"
  shows "rt_lists h' (L(a := xs))"
proof -
  note l = rt_listsD [OF assms(1)]
  have "set xs \<inter> heads = {}" using assms(5) l(2) [OF assms(2)] by blast
  moreover have "set xs \<inter> set (L b) = {}" if "b \<in> heads" "b \<noteq> a" for b using assms(5) l(3) [OF assms(2) that(1)] that by blast
  moreover have "set (L b) \<inter> heads = {}" if "b \<in> heads" for b using l(2) [OF that] by blast
  moreover have "set (L b) \<inter> set (L c) = {}" if "b \<in> heads" "c \<in> heads" "b \<noteq> c" for b c using l(3) [OF that] by blast
  ultimately show ?thesis unfolding rt_lists_def using assms(3,4) by (simp add: Int_commute)
qed

lemma lists_del:
  assumes "rt_lists h L" "a \<in> heads" "L a = xs @ p # ys"
  shows "rt_lists (list_del p h) (L(a := xs @ ys))"
proof -
  note l = rt_listsD [OF assms(1)]
  have sub: "x \<in> set (L a)" if "x \<in> set (xs @ ys)" for x using that assms(3) by auto
  have "is_list (list_del p h) b (L b)" if "b \<in> heads" "b \<noteq> a" for b
  proof (rule list_frame [OF l(1) [OF that(1)]])
    fix y assume "y \<in> set (b # L b)"
    then have "y \<notin> set (a # L a)"
      using l(2) [OF that(1)] l(2) [OF assms(2)] l(3) [OF that(1) assms(2) that(2)] that assms(2) by auto
    then show "nxt (list_del p h) y = nxt h y \<and> prv (list_del p h) y = prv h y"
      using del_links l(1) [OF assms(2)] unfolding assms(3) by blast
  qed
  moreover have "is_list (list_del p h) a (xs @ ys)" using list_del_ok l(1) [OF assms(2)] assms(3) by simp
  ultimately show ?thesis using sub by (intro rt_lists_update [OF assms(1,2)]) simp_all
qed

lemma lists_add:
  assumes "rt_lists h L" "a \<in> heads" "p \<notin> heads" "p \<noteq> 0" "\<And>b. b \<in> heads \<Longrightarrow> p \<notin> set (L b)"
  shows "rt_lists (list_add_tail p a h) (L(a := L a @ [p]))" "rt_lists (list_add p a h) (L(a := p # L a))"
proof -
  note l = rt_listsD [OF assms(1)]
  have fresh: "y \<notin> set (p # a # L a)" if "b \<in> heads" "b \<noteq> a" "y \<in> set (b # L b)" for b y
    using that l(2) [OF that(1)] l(2) [OF assms(2)] l(3) [OF that(1) assms(2) that(2)] assms(2,3,5) by auto
  have "is_list (list_add_tail p a h) b (L b)" "is_list (list_add p a h) b (L b)" if "b \<in> heads" "b \<noteq> a" for b
    using list_frame [OF l(1) [OF that(1)]] fresh [OF that] add_tail_links add_links l(1) [OF assms(2)] by blast+
  moreover have "p \<notin> set (a # L a)" using assms(2,3,5) by auto
  then have "is_list (list_add_tail p a h) a (L a @ [p])" "is_list (list_add p a h) a (p # L a)"
    using list_add_tail_ok [OF l(1) [OF assms(2)]] list_add_ok [OF l(1) [OF assms(2)]] assms(4) by blast+
  ultimately show "rt_lists (list_add_tail p a h) (L(a := L a @ [p]))" "rt_lists (list_add p a h) (L(a := p # L a))"
    using assms(3,5) by (auto intro!: rt_lists_update [OF assms(1,2)])
qed

lemma in_heads [simp]: "gc_obj_list \<in> heads" "tmp_obj_list \<in> heads" "gc_zero_ref_count_list \<in> heads"
  by (simp_all add: heads_def)

lemma heads_distinct [simp]: "gc_obj_list \<noteq> tmp_obj_list" "tmp_obj_list \<noteq> gc_obj_list"
  "gc_obj_list \<noteq> gc_zero_ref_count_list" "gc_zero_ref_count_list \<noteq> gc_obj_list"
  "tmp_obj_list \<noteq> gc_zero_ref_count_list" "gc_zero_ref_count_list \<noteq> tmp_obj_list"
  by (simp_all add: head_defs)

lemma lists_elem:
  assumes "rt_lists h L" "a \<in> heads" "p \<in> set (L a)"
  shows "p \<noteq> 0" "p \<notin> heads" "distinct (L a)" "b \<in> heads \<Longrightarrow> p \<in> set (L b) \<longleftrightarrow> b = a"
proof -
  have i: "is_list h a (L a)" by (rule rt_listsD(1) [OF assms(1,2)])
  show "p \<noteq> 0" using i assms(3) unfolding is_list_def by (metis list.set_intros(2))
  show "p \<notin> heads" "distinct (L a)" "b \<in> heads \<Longrightarrow> p \<in> set (L b) \<longleftrightarrow> b = a"
    using rt_listsD(2,3) [OF assms(1,2)] i assms(3) by (auto simp: is_list_def)
qed

lemma lists_move:
  assumes "rt_lists (links_of s) L" "a \<in> heads" "b \<in> heads" "a \<noteq> b" "L a = xs @ p # ys"
  shows "rt_lists (links_of (move_tail p b s)) (L(a := xs @ ys, b := L b @ [p]))"
proof -
  note e = lists_elem [OF assms(1,2), of p]
  have "distinct (L a)" using e(3) assms(5) by simp
  then have "p \<notin> set ((L(a := xs @ ys)) c)" if "c \<in> heads" for c using that e(4) [of c] assms(5) by auto
  with lists_add(1) [OF lists_del [OF assms(1,2,5)] assms(3), of p] e(1,2) assms(4,5)
  show ?thesis by (simp add: move_tail_def)
qed

lemma lists_next:
  assumes "rt_lists h L" "a \<in> heads"
  shows "L a = xs @ p # ys \<Longrightarrow> nxt h p = hd (ys @ [a])" "nxt h a = hd (L a @ [a])"
  using rt_listsD(1) [OF assms] by (auto simp: is_list_def dest: chain_first)

section \<open>Counting references\<close>

definition refs :: "gc_heap \<Rightarrow> gref \<Rightarrow> gref \<Rightarrow> int" where
  "refs h p q = (case mark_children h p of None \<Rightarrow> 0 | Some cs \<Rightarrow> int (count_list cs q))"

text \<open>The references to \<open>q\<close> from a set of objects.\<close>

definition refs_from :: "gc_heap \<Rightarrow> gref set \<Rightarrow> gref \<Rightarrow> int" where
  "refs_from h S q = (\<Sum>p\<in>S. refs h p q)"

text \<open>The objects of a set and the references between them: none is freed, and no reference leaves the set.\<close>

definition closed :: "gc_heap \<Rightarrow> gref set \<Rightarrow> bool" where
  "closed h X = (\<forall>p\<in>X. h p \<noteq> None \<and> (\<exists>cs. mark_children h p = Some cs \<and> set cs \<subseteq> X))"

lemma closedD: "closed h X \<Longrightarrow> p \<in> X \<Longrightarrow> mark_children h p = Some cs \<Longrightarrow> q \<in> set cs \<Longrightarrow> q \<in> X"
  by (fastforce simp: closed_def)

lemma refs_nonneg [simp]: "0 \<le> refs h p q"
  by (simp add: refs_def split: option.split)

lemma refs_from_nonneg [simp]: "0 \<le> refs_from h S q"
  by (simp add: refs_from_def sum_nonneg)

lemma refs_from_insert: "finite S \<Longrightarrow> p \<notin> S \<Longrightarrow> refs_from h (insert p S) q = refs h p q + refs_from h S q"
  by (simp add: refs_from_def)

lemma refs_from_union: "finite S \<Longrightarrow> finite T \<Longrightarrow> S \<inter> T = {} \<Longrightarrow> refs_from h (S \<union> T) q = refs_from h S q + refs_from h T q"
  by (simp add: refs_from_def sum.union_disjoint)

section \<open>Taking references away\<close>

text \<open>The state apart from counts, marks and lists.\<close>

definition same_heap :: "gc_state \<Rightarrow> gc_state \<Rightarrow> bool" where
  "same_heap s s' = (heap s' = heap s \<and> weakref_count s' = weakref_count s \<and> gc_phase s' = gc_phase s)"

lemma same_heap_trans: "same_heap s s' \<Longrightarrow> same_heap s' s'' \<Longrightarrow> same_heap s s''"
  by (simp add: same_heap_def)

lemma state_simps [simp]:
  "ref_count (set_rc p n s) = (ref_count s)(p := n)" "mark (set_rc p n s) = mark s" "links_of (set_rc p n s) = links_of s"
  "heap (set_rc p n s) = heap s" "same_heap s (set_rc p n s')  = same_heap s s'"
  "ref_count (set_mark p m s) = ref_count s" "mark (set_mark p m s) = (mark s)(p := m)" "links_of (set_mark p m s) = links_of s"
  "heap (set_mark p m s) = heap s" "same_heap s (set_mark p m s')  = same_heap s s'"
  "ref_count (move_tail p a s) = ref_count s" "mark (move_tail p a s) = mark s" "heap (move_tail p a s) = heap s"
  "same_heap s (move_tail p a s')  = same_heap s s'" "same_heap s s"
  by (simp_all add: set_rc_def set_mark_def move_tail_def same_heap_def)

abbreviation on_lists :: "(nat \<Rightarrow> gref list) \<Rightarrow> gref set" where
  "on_lists L \<equiv> set (L gc_obj_list) \<union> set (L tmp_obj_list)"

text \<open>What is left of an object that is on no list has the mark 0.\<close>

definition rest_unmarked :: "gc_state \<Rightarrow> gref set \<Rightarrow> bool" where
  "rest_unmarked s X = (\<forall>x. x \<notin> X \<longrightarrow> heap s x \<noteq> None \<longrightarrow> mark s x = 0)"

lemma rest_unmarked_simps [simp]:
  "rest_unmarked (set_rc p n s) X = rest_unmarked s X" "rest_unmarked (move_tail p a s) X = rest_unmarked s X"
  "p \<in> X \<Longrightarrow> rest_unmarked (set_mark p m s) X = rest_unmarked s X" "rest_unmarked (s\<lparr>links_of := l\<rparr>) X = rest_unmarked s X"
  "rest_unmarked (s\<lparr>ref_count := r\<rparr>) X = rest_unmarked s X"
  by (auto simp: rest_unmarked_def)

lemma rest_unmarked_change:
  assumes "rest_unmarked s X" "heap s' = heap s" "\<And>x. x \<notin> X \<Longrightarrow> mark s' x = 0 \<or> mark s' x = mark s x"
  shows "rest_unmarked s' X"
  using assms by (metis rest_unmarked_def)

text \<open>\<open>A\<close> has been visited and keeps a positive count, \<open>B\<close> is still to be visited.\<close>

definition dec_inv :: "gc_state \<Rightarrow> (nat \<Rightarrow> gref list) \<Rightarrow> gref list \<Rightarrow> gref list \<Rightarrow> bool" where
  "dec_inv s L A B =
     (rt_lists (links_of s) L \<and> L gc_obj_list = A @ B \<and>
      (\<forall>x \<in> set A. mark s x = 1 \<and> ref_count s x \<noteq> 0) \<and> (\<forall>x \<in> set (L tmp_obj_list). mark s x = 1 \<and> ref_count s x = 0) \<and>
      (\<forall>x \<in> set B. mark s x = 0) \<and> rest_unmarked s (on_lists L))"

lemma decref_child:
  assumes inv: "dec_inv s L A B" and q: "q \<in> on_lists L" "0 < ref_count s q" "heap s q \<noteq> None"
  shows "\<exists>s' L' A'. gc_decref_child q s = Some s' \<and> dec_inv s' L' A' B \<and> on_lists L' = on_lists L \<and>
    L' gc_zero_ref_count_list = L gc_zero_ref_count_list \<and> ref_count s' = (ref_count s)(q := ref_count s q - 1) \<and>
    mark s' = mark s \<and> same_heap s s'"
proof -
  define s1 where "s1 = set_rc q (ref_count s q - 1) s"
  have l: "rt_lists (links_of s1) L" using inv by (simp add: dec_inv_def s1_def)
  have d: "distinct (A @ B)" "set (A @ B) \<inter> set (L tmp_obj_list) = {}"
    using rt_listsD [OF l, of gc_obj_list] inv by (auto simp: dec_inv_def is_list_def)
  have notT: "q \<notin> set (L tmp_obj_list)" using inv q(2) by (auto simp: dec_inv_def)
  show ?thesis
  proof (cases "ref_count s q = 1 \<and> mark s q = 1")
    case True
    then have "q \<in> set A" using q(1) inv notT by (auto simp: dec_inv_def)
    then obtain A1 A2 where A: "A = A1 @ q # A2" by (meson split_list)
    have L: "L gc_obj_list = A1 @ q # A2 @ B" using inv A by (simp add: dec_inv_def)
    have "gc_decref_child q s = Some (move_tail q tmp_obj_list s1)" using True q(3) by (simp add: gc_decref_child_def s1_def)
    moreover have "dec_inv (move_tail q tmp_obj_list s1) (L(gc_obj_list := A1 @ A2 @ B, tmp_obj_list := L tmp_obj_list @ [q])) (A1 @ A2) B"
      using lists_move [OF l, of gc_obj_list tmp_obj_list, OF _ _ _ L] inv A d True by (auto simp: dec_inv_def s1_def)
    moreover have "on_lists (L(gc_obj_list := A1 @ A2 @ B, tmp_obj_list := L tmp_obj_list @ [q])) = on_lists L" using L by auto
    ultimately show ?thesis by (force simp: s1_def)
  next
    case False
    then have "gc_decref_child q s = Some s1" using q by (auto simp: gc_decref_child_def s1_def Let_def)
    moreover have "dec_inv s1 L A B" using inv q(2) notT False by (auto simp: dec_inv_def s1_def)
    ultimately show ?thesis by (force simp: s1_def)
  qed
qed

lemma decref_children:
  assumes "dec_inv s L A B" "set cs \<subseteq> on_lists L" "\<And>q. int (count_list cs q) \<le> ref_count s q \<or> q \<notin> on_lists L"
    "\<And>q. q \<in> on_lists L \<Longrightarrow> heap s q \<noteq> None"
  shows "\<exists>s' L' A'. for_all gc_decref_child cs s = Some s' \<and> dec_inv s' L' A' B \<and> on_lists L' = on_lists L \<and>
    L' gc_zero_ref_count_list = L gc_zero_ref_count_list \<and> (\<forall>q. ref_count s' q = ref_count s q - int (count_list cs q)) \<and>
    mark s' = mark s \<and> same_heap s s'"
  using assms
proof (induction cs arbitrary: s L A)
  case Nil
  then show ?case by force
next
  case (Cons c cs)
  have "0 < ref_count s c" using Cons.prems(2) Cons.prems(3) [of c] by auto
  from decref_child [OF Cons.prems(1) _ this Cons.prems(4)] Cons.prems(2)
  obtain s1 L1 A1 where 1: "gc_decref_child c s = Some s1" "dec_inv s1 L1 A1 B" "on_lists L1 = on_lists L"
    "L1 gc_zero_ref_count_list = L gc_zero_ref_count_list" "ref_count s1 = (ref_count s)(c := ref_count s c - 1)"
    "mark s1 = mark s" "same_heap s s1" by auto
  have "int (count_list cs q) \<le> ref_count s1 q \<or> q \<notin> on_lists L1" for q using Cons.prems(3) [of q] 1(3,5) by auto
  moreover have "heap s1 q \<noteq> None" if "q \<in> on_lists L1" for q using Cons.prems(4) that 1(3,7) by (simp add: same_heap_def)
  ultimately obtain s2 L2 A2 where 2: "for_all gc_decref_child cs s1 = Some s2" "dec_inv s2 L2 A2 B" "on_lists L2 = on_lists L1"
    "L2 gc_zero_ref_count_list = L1 gc_zero_ref_count_list" "\<forall>q. ref_count s2 q = ref_count s1 q - int (count_list cs q)"
    "mark s2 = mark s1" "same_heap s1 s2"
    using Cons.IH [OF 1(2)] Cons.prems(2) 1(3) by auto
  have "for_all gc_decref_child (c # cs) s = Some s2" using 1(1) 2(1) by simp
  moreover have "\<forall>q. ref_count s2 q = ref_count s q - int (count_list (c # cs) q)" using 2(5) 1(5) by auto
  ultimately show ?case using 1 2 same_heap_trans by metis
qed

text \<open>One round of the loop of \<open>gc_decref\<close>.\<close>

lemma decref_round:
  assumes inv: "dec_inv s L A (p # R)" and cl: "closed (heap s) (on_lists L)"
    and cnt: "\<And>q. q \<in> on_lists L \<Longrightarrow> ref_count s q = ext q + refs_from (heap s) (set (p # R)) q" "\<And>q. 0 \<le> ext q"
  shows "\<exists>s' L' A'. gc_decref_loop p s = gc_decref_loop (hd (R @ [gc_obj_list])) s' \<and> dec_inv s' L' A' R \<and>
    on_lists L' = on_lists L \<and> L' gc_zero_ref_count_list = L gc_zero_ref_count_list \<and>
    (\<forall>q. ref_count s' q = ref_count s q - refs (heap s) p q) \<and> same_heap s s'"
proof -
  have l: "rt_lists (links_of s) L" and L: "L gc_obj_list = A @ p # R" using inv by (auto simp: dec_inv_def)
  have p: "p \<noteq> gc_obj_list" "distinct (A @ p # R)" using lists_elem [OF l, of gc_obj_list p] L by (auto simp: heads_def)
  obtain cs where cs: "mark_children (heap s) p = Some cs" "set cs \<subseteq> on_lists L" using cl L unfolding closed_def by auto
  have r: "refs (heap s) p q = int (count_list cs q)" for q using cs(1) by (simp add: refs_def)
  have "int (count_list cs q) \<le> ref_count s q \<or> q \<notin> on_lists L" for q
    using cnt(1) [of q] cnt(2) [of q] refs_from_insert [of "set R" p "heap s" q] p(2) refs_from_nonneg [of "heap s" "set R" q] r [of q] by auto
  from decref_children [OF inv cs(2) this] cl
  obtain s1 L1 A1 where 1: "for_all gc_decref_child cs s = Some s1" "dec_inv s1 L1 A1 (p # R)" "on_lists L1 = on_lists L"
    "L1 gc_zero_ref_count_list = L gc_zero_ref_count_list" "\<forall>q. ref_count s1 q = ref_count s q - int (count_list cs q)"
    "same_heap s s1" unfolding closed_def by auto
  define s2 where "s2 = set_mark p 1 s1"
  define s3 where "s3 = (if ref_count s2 p = 0 then move_tail p tmp_obj_list s2 else s2)"
  have loop: "gc_decref_loop p s = gc_decref_loop (hd (R @ [gc_obj_list])) s3"
    using p(1) inv lists_next(1) [OF l, of gc_obj_list A p R] L cs(1) 1(1)
    by (subst gc_decref_loop.simps) (auto simp: dec_inv_def mark_with_def s2_def s3_def Let_def)
  have l1: "rt_lists (links_of s2) L1" and L1: "L1 gc_obj_list = A1 @ p # R" using 1(2) by (auto simp: dec_inv_def s2_def)
  have d: "distinct (A1 @ p # R)" "p \<notin> set (L1 tmp_obj_list)"
    using lists_elem(3,4) [OF l1, of gc_obj_list p] L1 by auto
  have rc: "\<forall>q. ref_count s3 q = ref_count s q - refs (heap s) p q" "same_heap s s3" using 1(5,6) r by (auto simp: s2_def s3_def)
  show ?thesis
  proof (cases "ref_count s2 p = 0")
    case True
    let ?L = "L1(gc_obj_list := A1 @ R, tmp_obj_list := L1 tmp_obj_list @ [p])"
    have "dec_inv s3 ?L A1 R" using lists_move [OF l1, of gc_obj_list tmp_obj_list, OF _ _ _ L1] 1(2) True d
      by (auto simp: dec_inv_def s2_def s3_def)
    moreover have "on_lists ?L = on_lists L" using 1(3) L1 by auto
    ultimately show ?thesis using loop rc 1(4) by (intro exI [of _ s3] exI [of _ ?L] exI [of _ A1]) simp
  next
    case False
    then have "dec_inv s3 L1 (A1 @ [p]) R" using 1(2) d by (auto simp: dec_inv_def s2_def s3_def)
    then show ?thesis using loop rc 1(3,4) by (intro exI [of _ s3] exI [of _ L1] exI [of _ "A1 @ [p]"]) simp
  qed
qed

lemma decref_loop:
  assumes "dec_inv s L A B" "closed (heap s) (on_lists L)"
    "\<And>q. q \<in> on_lists L \<Longrightarrow> ref_count s q = ext q + refs_from (heap s) (set B) q" "\<And>q. 0 \<le> ext q"
  shows "\<exists>s' L'. gc_decref_loop (hd (B @ [gc_obj_list])) s = Some s' \<and> dec_inv s' L' (L' gc_obj_list) [] \<and> on_lists L' = on_lists L \<and>
    L' gc_zero_ref_count_list = L gc_zero_ref_count_list \<and>
    (\<forall>q. ref_count s' q = ref_count s q - refs_from (heap s) (set B) q) \<and> same_heap s s'"
  using assms
proof (induction B arbitrary: s L A)
  case Nil
  then have "L gc_obj_list = A" by (simp add: dec_inv_def)
  moreover have "gc_decref_loop gc_obj_list s = Some s" by (subst gc_decref_loop.simps) simp
  ultimately show ?case using Nil.prems(1) by (intro exI [of _ s] exI [of _ L]) (simp add: refs_from_def)
next
  case (Cons p R)
  from decref_round [OF Cons.prems] obtain s1 L1 A1 where 1: "gc_decref_loop p s = gc_decref_loop (hd (R @ [gc_obj_list])) s1"
    "dec_inv s1 L1 A1 R" "on_lists L1 = on_lists L" "L1 gc_zero_ref_count_list = L gc_zero_ref_count_list"
    "\<forall>q. ref_count s1 q = ref_count s q - refs (heap s) p q" "same_heap s s1" by blast
  have h: "heap s1 = heap s" using 1(6) by (simp add: same_heap_def)
  have "p \<notin> set R" using rt_listsD(1) [of "links_of s" L gc_obj_list] Cons.prems(1) by (auto simp: dec_inv_def is_list_def)
  then have t: "refs_from (heap s) (set (p # R)) q = refs (heap s) p q + refs_from (heap s) (set R) q" for q by (simp add: refs_from_insert)
  have "ref_count s1 q = ext q + refs_from (heap s1) (set R) q" if "q \<in> on_lists L1" for q
    using Cons.prems(3) [of q] that 1(3,5) t h by simp
  from Cons.IH [OF 1(2) _ this Cons.prems(4)] Cons.prems(2) h 1(3)
  obtain s' L' where "gc_decref_loop (hd (R @ [gc_obj_list])) s1 = Some s'" "dec_inv s' L' (L' gc_obj_list) []" "on_lists L' = on_lists L1"
    "L' gc_zero_ref_count_list = L1 gc_zero_ref_count_list" "\<forall>q. ref_count s' q = ref_count s1 q - refs_from (heap s1) (set R) q"
    "same_heap s1 s'" by auto
  then show ?case using 1 t h same_heap_trans by (intro exI [of _ s'] exI [of _ L']) auto
qed

section \<open>Finding what is reachable\<close>

inductive reachable :: "gc_heap \<Rightarrow> gref set \<Rightarrow> gref \<Rightarrow> bool" for h R where
  root: "q \<in> R \<Longrightarrow> reachable h R q"
| step: "reachable h R p \<Longrightarrow> mark_children h p = Some cs \<Longrightarrow> q \<in> set cs \<Longrightarrow> reachable h R q"

definition scan_lists :: "gc_state \<Rightarrow> (nat \<Rightarrow> gref list) \<Rightarrow> bool" where
  "scan_lists s L =
     (rt_lists (links_of s) L \<and> (\<forall>x \<in> set (L gc_obj_list). 0 < ref_count s x) \<and>
      (\<forall>x \<in> set (L tmp_obj_list). ref_count s x = 0 \<and> mark s x = 1))"

lemma incref_child:
  assumes inv: "scan_lists s L" and q: "q \<in> on_lists L" "heap s q \<noteq> None"
  shows "\<exists>s' L' N. gc_scan_incref_child q s = Some s' \<and> scan_lists s' L' \<and> L' gc_obj_list = L gc_obj_list @ N \<and> set N \<subseteq> {q} \<and>
    on_lists L' = on_lists L \<and> L' gc_zero_ref_count_list = L gc_zero_ref_count_list \<and> ref_count s' = (ref_count s)(q := ref_count s q + 1) \<and>
    (\<forall>x. mark s' x = (if x \<in> set N then 0 else mark s x)) \<and> length (L' tmp_obj_list) + length N = length (L tmp_obj_list) \<and> same_heap s s'"
proof -
  define s1 where "s1 = set_rc q (ref_count s q + 1) s"
  have l: "rt_lists (links_of s1) L" using inv by (simp add: scan_lists_def s1_def)
  show ?thesis
  proof (cases "q \<in> set (L tmp_obj_list)")
    case True
    then obtain T1 T2 where T: "L tmp_obj_list = T1 @ q # T2" by (meson split_list)
    let ?s = "set_mark q 0 (move_tail q gc_obj_list s1)"
    let ?L = "L(tmp_obj_list := T1 @ T2, gc_obj_list := L gc_obj_list @ [q])"
    have "ref_count s q = 0" using inv True by (simp add: scan_lists_def)
    then have "gc_scan_incref_child q s = Some ?s" using q(2) by (simp add: gc_scan_incref_child_def s1_def)
    moreover have "distinct (L tmp_obj_list)" using lists_elem(3) [OF l] True by simp
    then have "scan_lists ?s ?L"
      using lists_move [OF l, of tmp_obj_list gc_obj_list, OF _ _ _ T] inv T unfolding scan_lists_def by (auto simp: s1_def)
    moreover have "on_lists ?L = on_lists L" using T by auto
    ultimately show ?thesis by (intro exI [of _ ?s] exI [of _ ?L] exI [of _ "[q]"]) (auto simp: s1_def T)
  next
    case False
    then have "0 < ref_count s q" using inv q(1) by (auto simp: scan_lists_def)
    then have "gc_scan_incref_child q s = Some s1" using q(2) by (simp add: gc_scan_incref_child_def s1_def)
    moreover have "scan_lists s1 L" using inv False unfolding scan_lists_def by (auto simp: s1_def)
    ultimately show ?thesis by (intro exI [of _ s1] exI [of _ L] exI [of _ "[]"]) (auto simp: s1_def)
  qed
qed

lemma incref_children:
  assumes "scan_lists s L" "set cs \<subseteq> on_lists L" "\<And>q. q \<in> on_lists L \<Longrightarrow> heap s q \<noteq> None"
  shows "\<exists>s' L' N. for_all gc_scan_incref_child cs s = Some s' \<and> scan_lists s' L' \<and> L' gc_obj_list = L gc_obj_list @ N \<and>
    set N \<subseteq> set cs \<and> on_lists L' = on_lists L \<and> L' gc_zero_ref_count_list = L gc_zero_ref_count_list \<and>
    (\<forall>q. ref_count s' q = ref_count s q + int (count_list cs q)) \<and> (\<forall>x. mark s' x = (if x \<in> set N then 0 else mark s x)) \<and>
    length (L' tmp_obj_list) + length N = length (L tmp_obj_list) \<and> same_heap s s'"
  using assms
proof (induction cs arbitrary: s L)
  case Nil
  then show ?case by force
next
  case (Cons c cs)
  from incref_child [OF Cons.prems(1), of c] Cons.prems(2,3)
  obtain s1 L1 N1 where 1: "gc_scan_incref_child c s = Some s1" "scan_lists s1 L1" "L1 gc_obj_list = L gc_obj_list @ N1" "set N1 \<subseteq> {c}"
    "on_lists L1 = on_lists L" "L1 gc_zero_ref_count_list = L gc_zero_ref_count_list" "ref_count s1 = (ref_count s)(c := ref_count s c + 1)"
    "\<forall>x. mark s1 x = (if x \<in> set N1 then 0 else mark s x)" "length (L1 tmp_obj_list) + length N1 = length (L tmp_obj_list)" "same_heap s s1"
    by (auto simp del: Un_iff)
  have "heap s1 q \<noteq> None" if "q \<in> on_lists L1" for q using Cons.prems(3) that 1(5,10) by (simp add: same_heap_def)
  with Cons.IH [OF 1(2)] Cons.prems(2) 1(5) obtain s2 L2 N2 where 2: "for_all gc_scan_incref_child cs s1 = Some s2" "scan_lists s2 L2"
    "L2 gc_obj_list = L1 gc_obj_list @ N2" "set N2 \<subseteq> set cs" "on_lists L2 = on_lists L1" "L2 gc_zero_ref_count_list = L1 gc_zero_ref_count_list"
    "\<forall>q. ref_count s2 q = ref_count s1 q + int (count_list cs q)" "\<forall>x. mark s2 x = (if x \<in> set N2 then 0 else mark s1 x)"
    "length (L2 tmp_obj_list) + length N2 = length (L1 tmp_obj_list)" "same_heap s1 s2" by auto
  have "\<forall>q. ref_count s2 q = ref_count s q + int (count_list (c # cs) q)" using 2(7) 1(7) by auto
  moreover have "\<forall>x. mark s2 x = (if x \<in> set (N1 @ N2) then 0 else mark s x)" using 2(8) 1(8) by simp
  ultimately show ?case using 1 2 same_heap_trans [OF 1(10) 2(10)] by (intro exI [of _ s2] exI [of _ L2] exI [of _ "N1 @ N2"]) auto
qed

text \<open>\<open>P\<close> has been visited.\<close>

definition scan_inv :: "gc_state \<Rightarrow> (nat \<Rightarrow> gref list) \<Rightarrow> gref list \<Rightarrow> gref list \<Rightarrow> (gref \<Rightarrow> int) \<Rightarrow> gref set \<Rightarrow> bool" where
  "scan_inv s L P Q ext R =
     (scan_lists s L \<and> L gc_obj_list = P @ Q \<and> (\<forall>q \<in> on_lists L. ref_count s q = ext q + refs_from (heap s) (set P) q) \<and>
      (\<forall>x \<in> set P. mark s x = 0) \<and> (\<forall>x \<in> set (P @ Q). reachable (heap s) R x) \<and> rest_unmarked s (on_lists L))"

lemma scan_round:
  assumes inv: "scan_inv s L P (p # Q) ext R" and cl: "closed (heap s) (on_lists L)"
  shows "\<exists>s' L' N. gc_scan_loop p s = gc_scan_loop (hd ((Q @ N) @ [gc_obj_list])) s' \<and> scan_inv s' L' (P @ [p]) (Q @ N) ext R \<and>
    on_lists L' = on_lists L \<and> L' gc_zero_ref_count_list = L gc_zero_ref_count_list \<and>
    length (L' tmp_obj_list) + length N = length (L tmp_obj_list) \<and>
    (\<forall>q. ref_count s' q = ref_count s q + refs (heap s) p q) \<and> same_heap s s'"
proof -
  have l: "rt_lists (links_of s) L" and L: "L gc_obj_list = P @ p # Q" using inv by (auto simp: scan_inv_def scan_lists_def)
  have p: "p \<noteq> gc_obj_list" "distinct (P @ p # Q)" "p \<notin> set (L tmp_obj_list)"
    using lists_elem [OF l, of gc_obj_list p] L by (auto simp: heads_def)
  obtain cs where cs: "mark_children (heap s) p = Some cs" "set cs \<subseteq> on_lists L" using cl L unfolding closed_def by auto
  have "scan_lists (set_mark p 0 s) L" using inv p(3) by (auto simp: scan_inv_def scan_lists_def)
  from incref_children [OF this cs(2)] cl obtain s1 L1 N where 1: "for_all gc_scan_incref_child cs (set_mark p 0 s) = Some s1" "scan_lists s1 L1"
    "L1 gc_obj_list = L gc_obj_list @ N" "set N \<subseteq> set cs" "on_lists L1 = on_lists L" "L1 gc_zero_ref_count_list = L gc_zero_ref_count_list"
    "\<forall>q. ref_count s1 q = ref_count s q + int (count_list cs q)" "\<forall>x. mark s1 x = (if x \<in> set N then 0 else ((mark s)(p := 0)) x)"
    "length (L1 tmp_obj_list) + length N = length (L tmp_obj_list)" "same_heap (set_mark p 0 s) s1" unfolding closed_def by auto
  have h: "heap s1 = heap s" "same_heap s s1" using 1(10) by (simp_all add: same_heap_def set_mark_def)
  have r: "refs (heap s) p q = int (count_list cs q)" for q using cs(1) by (simp add: refs_def)
  have l1: "rt_lists (links_of s1) L1" and L1: "L1 gc_obj_list = P @ p # Q @ N" using 1(2,3) L by (auto simp: scan_lists_def)
  have loop: "gc_scan_loop p s = gc_scan_loop (hd ((Q @ N) @ [gc_obj_list])) s1"
    using p(1) inv L cs(1) 1(1) lists_next(1) [OF l1, of gc_obj_list P p "Q @ N"] L1
    by (subst gc_scan_loop.simps) (auto simp: scan_inv_def scan_lists_def mark_with_def)
  have t: "refs_from (heap s) (set (P @ [p])) q = refs (heap s) p q + refs_from (heap s) (set P) q" for q
    using p(2) refs_from_insert [of "set P" p "heap s" q] by simp
  have "reachable (heap s) R x" if "x \<in> set N" for x
    using that 1(4) cs(1) inv reachable.step [of "heap s" R p cs x] by (auto simp: scan_inv_def)
  moreover have "rest_unmarked s (on_lists L1)" using inv unfolding scan_inv_def 1(5) by blast
  then have "rest_unmarked s1 (on_lists L1)" using h(1) by (rule rest_unmarked_change) (simp add: 1(8))
  ultimately have "scan_inv s1 L1 (P @ [p]) (Q @ N) ext R"
    using inv 1(2,5,7,8) L1 h r t unfolding scan_inv_def by auto
  then show ?thesis using loop 1(5,6,7,9) r h by (intro exI [of _ s1] exI [of _ L1] exI [of _ N]) simp
qed

lemma scan_loop:
  assumes "scan_inv s L P Q ext R" "closed (heap s) (on_lists L)" "n = length Q + length (L tmp_obj_list)"
  shows "\<exists>s' L'. gc_scan_loop (hd (Q @ [gc_obj_list])) s = Some s' \<and> scan_inv s' L' (L' gc_obj_list) [] ext R \<and>
    on_lists L' = on_lists L \<and> L' gc_zero_ref_count_list = L gc_zero_ref_count_list \<and> set P \<subseteq> set (L' gc_obj_list) \<and>
    (\<forall>q. q \<notin> on_lists L \<longrightarrow> ref_count s' q = ref_count s q) \<and> same_heap s s'"
  using assms
proof (induction n arbitrary: s L P Q)
  case 0
  then have "L gc_obj_list = P" "Q = []" by (auto simp: scan_inv_def)
  moreover have "gc_scan_loop gc_obj_list s = Some s" by (subst gc_scan_loop.simps) simp
  ultimately show ?case using 0(1) by (intro exI [of _ s] exI [of _ L]) simp
next
  case (Suc n)
  show ?case
  proof (cases Q)
    case Nil
    then have "L gc_obj_list = P" using Suc.prems(1) by (auto simp: scan_inv_def)
    moreover have "gc_scan_loop gc_obj_list s = Some s" by (subst gc_scan_loop.simps) simp
    ultimately show ?thesis using Suc.prems(1) Nil by (intro exI [of _ s] exI [of _ L]) simp
  next
    case (Cons p Q')
    from scan_round [OF Suc.prems(1) [unfolded Cons] Suc.prems(2)] obtain s1 L1 N where
      1: "gc_scan_loop p s = gc_scan_loop (hd ((Q' @ N) @ [gc_obj_list])) s1" "scan_inv s1 L1 (P @ [p]) (Q' @ N) ext R" "on_lists L1 = on_lists L"
      "L1 gc_zero_ref_count_list = L gc_zero_ref_count_list" "length (L1 tmp_obj_list) + length N = length (L tmp_obj_list)"
      "\<forall>q. ref_count s1 q = ref_count s q + refs (heap s) p q" "same_heap s s1" by blast
    have cl: "closed (heap s1) (on_lists L1)" using Suc.prems(2) 1(3,7) by (simp add: same_heap_def)
    have "p \<in> on_lists L" using Suc.prems(1) Cons by (auto simp: scan_inv_def)
    then have nr: "refs (heap s) p q = 0" if "q \<notin> on_lists L" for q
      using Suc.prems(2) that unfolding closed_def refs_def by (force simp: count_list_0_iff)
    from Suc.IH [OF 1(2) cl] 1(5) Cons Suc.prems(3) obtain s' L' where
      "gc_scan_loop (hd ((Q' @ N) @ [gc_obj_list])) s1 = Some s'" "scan_inv s' L' (L' gc_obj_list) [] ext R" "on_lists L' = on_lists L1"
      "L' gc_zero_ref_count_list = L1 gc_zero_ref_count_list" "set (P @ [p]) \<subseteq> set (L' gc_obj_list)"
      "\<forall>q. q \<notin> on_lists L1 \<longrightarrow> ref_count s' q = ref_count s1 q" "same_heap s1 s'" by auto
    then show ?thesis using 1 nr Cons same_heap_trans by (intro exI [of _ s'] exI [of _ L']) auto
  qed
qed

text \<open>The second loop of \<open>gc_scan\<close> gives the counts back.\<close>

lemma incref_children2:
  assumes "\<And>q. q \<in> set cs \<Longrightarrow> heap s q \<noteq> None"
  shows "for_all gc_scan_incref_child2 cs s = Some (s\<lparr>ref_count := (\<lambda>q. ref_count s q + int (count_list cs q))\<rparr>)"
  using assms
proof (induction cs arbitrary: s)
  case (Cons c cs)
  then show ?case using Cons.IH [of "set_rc c (ref_count s c + 1) s"]
    by (auto simp: gc_scan_incref_child2_def set_rc_def algebra_simps intro!: gc_state.fold_congs)
qed simp

lemma restore_loop:
  assumes "rt_lists (links_of s) L" "L tmp_obj_list = P @ Q" "closed (heap s) X" "set (L tmp_obj_list) \<subseteq> X"
  shows "gc_restore_loop (hd (Q @ [tmp_obj_list])) s = Some (s\<lparr>ref_count := (\<lambda>q. ref_count s q + refs_from (heap s) (set Q) q)\<rparr>)"
  using assms
proof (induction Q arbitrary: s P)
  case Nil
  then show ?case by (subst gc_restore_loop.simps) (simp add: refs_from_def)
next
  case (Cons p Q)
  have p: "p \<noteq> tmp_obj_list" "distinct (P @ p # Q)" using lists_elem [OF Cons.prems(1), of tmp_obj_list p] Cons.prems(2) by (auto simp: heads_def)
  obtain cs where cs: "mark_children (heap s) p = Some cs" "set cs \<subseteq> X" using Cons.prems(2,3,4) unfolding closed_def by auto
  let ?s = "s\<lparr>ref_count := (\<lambda>q. ref_count s q + int (count_list cs q))\<rparr>"
  have "mark_with gc_scan_incref_child2 p s = Some ?s"
    using cs incref_children2 [of cs s] Cons.prems(3) unfolding closed_def by (auto simp: mark_with_def)
  then have "gc_restore_loop p s = gc_restore_loop (hd (Q @ [tmp_obj_list])) ?s"
    using p(1) lists_next(1) [OF Cons.prems(1), of tmp_obj_list P p Q] Cons.prems(2) by (subst gc_restore_loop.simps) simp
  moreover have "refs (heap s) p q = int (count_list cs q)" for q using cs(1) by (simp add: refs_def)
  then have "int (count_list cs q) + refs_from (heap s) (set Q) q = refs_from (heap s) (set (p # Q)) q" for q
    using p(2) refs_from_insert [of "set Q" p "heap s" q] by simp
  ultimately show ?case using Cons.IH [of ?s "P @ [p]"] Cons.prems by (simp add: algebra_simps)
qed

section \<open>The marking theorem\<close>

definition gc_lists :: "gref list \<Rightarrow> gref list \<Rightarrow> gref list \<Rightarrow> nat \<Rightarrow> gref list" where
  "gc_lists G T Z a = (if a = gc_obj_list then G else if a = tmp_obj_list then T else Z)"

lemma gc_lists_simps [simp]: "gc_lists G T Z gc_obj_list = G" "gc_lists G T Z tmp_obj_list = T" "gc_lists G T Z gc_zero_ref_count_list = Z"
  by (simp_all add: gc_lists_def)

lemma gc_lists_collapse: "rt_lists h L \<Longrightarrow> rt_lists h (gc_lists (L gc_obj_list) (L tmp_obj_list) (L gc_zero_ref_count_list))"
  by (simp add: rt_lists_def heads_def)

text \<open>
  The runtime between two collections: \<open>G\<close> lists the objects, the list of objects about to be freed is empty,
  and each count is the number of references from objects plus \<open>ext\<close>, those from outside: the C stack, the
  job queue, the runtime.
\<close>

definition gc_inv :: "gc_state \<Rightarrow> gref list \<Rightarrow> (gref \<Rightarrow> int) \<Rightarrow> bool" where
  "gc_inv s G ext =
     (rt_lists (init_list_head tmp_obj_list (links_of s)) (gc_lists G [] []) \<and> closed (heap s) (set G) \<and>
      (\<forall>q \<in> set G. mark s q = 0 \<and> 0 \<le> ext q \<and> ref_count s q = ext q + refs_from (heap s) (set G) q) \<and>
      rest_unmarked s (set G))"

definition roots :: "gref list \<Rightarrow> (gref \<Rightarrow> int) \<Rightarrow> gref set" where
  "roots G ext = {q \<in> set G. 0 < ext q}"

lemma decref_ok:
  assumes "gc_inv s G ext"
  shows "\<exists>s' L'. gc_decref s = Some s' \<and> dec_inv s' L' (L' gc_obj_list) [] \<and> on_lists L' = set G \<and> L' gc_zero_ref_count_list = [] \<and>
    (\<forall>q. ref_count s' q = ref_count s q - refs_from (heap s) (set G) q) \<and> same_heap s s'"
proof -
  define s1 where "s1 = s\<lparr>links_of := init_list_head tmp_obj_list (links_of s)\<rparr>"
  define e where "e q = (if q \<in> set G then ext q else 0)" for q
  have s1: "heap s1 = heap s" "ref_count s1 = ref_count s" "same_heap s s'' = same_heap s1 s''" for s''
    by (simp_all add: s1_def same_heap_def)
  have l: "rt_lists (links_of s1) (gc_lists G [] [])" using assms by (simp add: gc_inv_def s1_def)
  have "dec_inv s1 (gc_lists G [] []) [] G" using assms l by (simp add: gc_inv_def dec_inv_def s1_def)
  moreover have "0 \<le> e q" for q using assms by (simp add: gc_inv_def e_def)
  ultimately have "\<exists>s' L'. gc_decref_loop (hd (G @ [gc_obj_list])) s1 = Some s' \<and> dec_inv s' L' (L' gc_obj_list) [] \<and>
      on_lists L' = on_lists (gc_lists G [] []) \<and> L' gc_zero_ref_count_list = gc_lists G [] [] gc_zero_ref_count_list \<and>
      (\<forall>q. ref_count s' q = ref_count s1 q - refs_from (heap s1) (set G) q) \<and> same_heap s1 s'"
    using assms s1(1,2) by (intro decref_loop [where ext = e]) (auto simp: gc_inv_def e_def)
  then obtain s' L' where
    "gc_decref_loop (hd (G @ [gc_obj_list])) s1 = Some s'" "dec_inv s' L' (L' gc_obj_list) []" "on_lists L' = set G"
    "L' gc_zero_ref_count_list = []" "\<forall>q. ref_count s' q = ref_count s q - refs_from (heap s) (set G) q" "same_heap s1 s'"
    using s1(1,2) by auto
  moreover have "gc_decref s = gc_decref_loop (hd (G @ [gc_obj_list])) s1"
    using lists_next(2) [OF l, of gc_obj_list] by (simp add: gc_decref_def s1_def)
  ultimately show ?thesis using s1(3) by auto
qed

lemma refs_from_outside: "closed h X \<Longrightarrow> S \<subseteq> X \<Longrightarrow> q \<notin> X \<Longrightarrow> refs_from h S q = 0"
  unfolding refs_from_def closed_def refs_def by (intro sum.neutral) (force simp: count_list_0_iff)

lemma refs_from_child:
  assumes "finite S" "p \<in> S" "mark_children h p = Some cs" "q \<in> set cs"
  shows "0 < refs_from h S q"
proof -
  have "0 < refs h p q" using assms(3,4) count_list_0_iff [of cs q] by (simp add: refs_def)
  also have "\<dots> \<le> refs_from h S q" unfolding refs_from_def using assms(1,2) by (intro member_le_sum) auto
  finally show ?thesis .
qed

text \<open>When nothing is left to visit, the objects kept are the reachable ones.\<close>

lemma scan_complete:
  assumes inv: "scan_inv s L (L gc_obj_list) [] ext (roots G ext)" and X: "on_lists L = set G" "closed (heap s) (set G)"
    and ext: "\<And>q. q \<in> set G \<Longrightarrow> 0 \<le> ext q"
  shows "set (L gc_obj_list) = {q \<in> set G. reachable (heap s) (roots G ext) q}"
proof -
  have live: "q \<in> set (L gc_obj_list)" if "q \<in> set G" "0 < ref_count s q" for q
  proof -
    have "q \<in> on_lists L" using that(1) X(1) by blast
    then show ?thesis using that(2) inv by (auto simp: scan_inv_def scan_lists_def)
  qed
  have rc: "ref_count s q = ext q + refs_from (heap s) (set (L gc_obj_list)) q" if "q \<in> set G" for q
    using inv that X(1) by (simp add: scan_inv_def)
  have "q \<in> set (L gc_obj_list)" if "reachable (heap s) (roots G ext) q" for q
    using that
  proof induction
    case (root q)
    then have "q \<in> set G" "0 < ext q" by (simp_all add: roots_def)
    then show ?case using live [of q] rc [of q] add_pos_nonneg [OF _ refs_from_nonneg] by simp
  next
    case (step p cs q)
    then have "p \<in> set G" using X(1) by auto
    then have "q \<in> set G" using closedD [OF X(2)] step.hyps(2,3) by blast
    moreover have "0 < refs_from (heap s) (set (L gc_obj_list)) q" using refs_from_child step by blast
    ultimately show ?case using live rc ext by (smt (verit))
  qed
  then show ?thesis using inv X(1) by (auto simp: scan_inv_def)
qed

lemma marking_ok:
  assumes "gc_inv s G ext"
  shows "\<exists>s1 s2 live dead. gc_decref s = Some s1 \<and> gc_scan s1 = Some s2 \<and>
    rt_lists (links_of s2) (gc_lists live dead []) \<and>
    set live = {q \<in> set G. reachable (heap s) (roots G ext) q} \<and> set dead = set G - set live \<and>
    ref_count s2 = ref_count s \<and> (\<forall>q\<in>set live. mark s2 q = 0) \<and> (\<forall>q\<in>set dead. mark s2 q = 1) \<and> same_heap s s2 \<and>
    rest_unmarked s2 (set G)"
proof -
  from decref_ok [OF assms] obtain s1 L1 where 1: "gc_decref s = Some s1" "dec_inv s1 L1 (L1 gc_obj_list) []" "on_lists L1 = set G"
    "L1 gc_zero_ref_count_list = []" "\<forall>q. ref_count s1 q = ref_count s q - refs_from (heap s) (set G) q" "same_heap s s1" by blast
  have cl: "closed (heap s) (set G)" and ext: "0 \<le> ext q" "ref_count s q = ext q + refs_from (heap s) (set G) q" if "q \<in> set G" for q
    using assms that by (auto simp: gc_inv_def)
  have cl: "closed (heap s) (set G)" using assms by (simp add: gc_inv_def)
  have h: "heap s1 = heap s" using 1(6) by (simp add: same_heap_def)
  have rc1: "ref_count s1 q = ext q" if "q \<in> set G" for q using 1(5) ext(2) [OF that] by simp
  have pos: "0 < ext x" if "x \<in> set (L1 gc_obj_list)" for x
  proof -
    have "x \<in> set G" using that 1(3) by blast
    then show ?thesis using that 1(2) rc1 [of x] ext(1) [of x] by (auto simp: dec_inv_def order_less_le)
  qed
  moreover note pos
  moreover have "ref_count s1 x = ext x" if "x \<in> set (L1 gc_obj_list)" for x using that 1(3) rc1 by blast
  ultimately have "scan_lists s1 L1" using 1(2) by (simp add: scan_lists_def dec_inv_def)
  moreover have "x \<in> roots G ext" if "x \<in> set (L1 gc_obj_list)" for x using that 1(3) pos by (auto simp: roots_def)
  moreover have "rest_unmarked s1 (on_lists L1)" using 1(2) unfolding dec_inv_def by blast
  ultimately have "scan_inv s1 L1 [] (L1 gc_obj_list) ext (roots G ext)"
    using 1(3) rc1 by (simp add: scan_inv_def refs_from_def reachable.root)
  from scan_loop [OF this _ refl] cl h 1(3) obtain s2 L2 where
    2: "gc_scan_loop (hd (L1 gc_obj_list @ [gc_obj_list])) s1 = Some s2" "scan_inv s2 L2 (L2 gc_obj_list) [] ext (roots G ext)"
    "on_lists L2 = set G" "L2 gc_zero_ref_count_list = []" "\<forall>q. q \<notin> set G \<longrightarrow> ref_count s2 q = ref_count s1 q" "same_heap s1 s2"
    using 1(4) by auto
  have h2: "heap s2 = heap s" using 2(6) h by (simp add: same_heap_def)
  define live dead where ld: "live = L2 gc_obj_list" "dead = L2 tmp_obj_list"
  have l2: "rt_lists (links_of s2) L2" using 2(2) by (simp add: scan_inv_def scan_lists_def)
  have d: "set live \<inter> set dead = {}" using lists_elem(4) [OF l2, of gc_obj_list _ tmp_obj_list] by (auto simp: ld)
  define s3 where "s3 = s2\<lparr>ref_count := (\<lambda>q. ref_count s2 q + refs_from (heap s2) (set dead) q)\<rparr>"
  have "gc_scan s1 = Some s3"
    using 2(1) restore_loop [OF l2, of "[]" dead "set G"] lists_next(2) [of "links_of s1" L1 gc_obj_list] 1(2) lists_next(2) [OF l2, of tmp_obj_list]
      cl h2 2(3) by (auto simp: gc_scan_def s3_def ld dec_inv_def)
  moreover have "ref_count s3 q = ref_count s q" for q
  proof (cases "q \<in> set G")
    case True
    then have "ref_count s2 q = ext q + refs_from (heap s) (set live) q" using 2(2,3) h2 by (simp add: scan_inv_def ld)
    moreover have "set G = set live \<union> set dead" using 2(3) by (simp add: ld)
    ultimately show ?thesis using ext(2) [OF True] refs_from_union [of "set live" "set dead" "heap s" q] d h2 by (simp add: s3_def)
  next
    case False
    moreover have "set dead \<subseteq> set G" using 2(3) by (auto simp: ld)
    ultimately show ?thesis using 1(5) 2(5) refs_from_outside [OF cl] h2 by (simp add: s3_def)
  qed
  moreover have "set live = {q \<in> set G. reachable (heap s) (roots G ext) q}"
    using scan_complete [OF 2(2,3)] cl ext(1) h2 by (simp add: ld)
  moreover have "rt_lists (links_of s3) (gc_lists live dead [])" using gc_lists_collapse [OF l2] 2(4) by (simp add: ld s3_def)
  moreover have "set dead = set G - set live" using 2(3) d by (auto simp: ld)
  moreover have "same_heap s s3" using same_heap_trans [OF 1(6) 2(6)] by (simp add: s3_def same_heap_def)
  moreover have "\<forall>q\<in>set live. mark s3 q = 0" "\<forall>q\<in>set dead. mark s3 q = 1" using 2(2)
    by (simp_all add: scan_inv_def scan_lists_def ld s3_def)
  moreover have "rest_unmarked s3 (set G)" using 2(2,3) unfolding scan_inv_def s3_def by simp
  ultimately show ?thesis using 1(1) by (intro exI [of _ s1] exI [of _ s3] exI [of _ live] exI [of _ dead] conjI) (assumption | simp add: fun_eq_iff)+
qed

text \<open>C21: the marking phases of the collector find exactly the garbage: run between two operations of the engine,
  \<open>gc_decref\<close> and \<open>gc_scan\<close> come to an end without a failed assertion or a use of freed memory, leave in
  \<open>gc_obj_list\<close> the objects reachable from one that is referenced from outside, move all other objects and no
  others to \<open>tmp_obj_list\<close>, and restore every reference count and the marks of the objects kept.\<close>

theorem gc_finds_garbage:
  assumes "gc_inv s G ext"
  shows "\<exists>s1 s2 live dead. gc_decref s = Some s1 \<and> gc_scan s1 = Some s2 \<and>
    rt_lists (links_of s2) (gc_lists live dead []) \<and>
    set live = {q \<in> set G. reachable (heap s) (roots G ext) q} \<and> set dead = set G - set live \<and>
    ref_count s2 = ref_count s \<and> (\<forall>q\<in>set live. mark s2 q = 0) \<and> (\<forall>q\<in>set dead. mark s2 q = 1) \<and> same_heap s s2"
  using marking_ok [OF assms] by blast

text \<open>An object with a reference to itself that nothing else references, and one held from outside; both have the
  same shape.\<close>

definition demo_gc :: gc_state where
  "demo_gc = \<lparr>heap = demo_heap(6 \<mapsto> NObject \<lparr>free_mark = False, obj_shape = Some 4, obj_prop = [PValue JUndefined], obj_u = U_plain\<rparr>),
     ref_count = (\<lambda>p. 0)(4 := 2, 5 := 2, 6 := 1), mark = (\<lambda>p. 0), weakref_count = (\<lambda>p. 0),
     links_of = list_add_tail 6 1 (list_add_tail 5 1 (list_add_tail 4 1
       (init_list_head 1 (init_list_head 2 (init_list_head 3 \<lparr>prv = (\<lambda>a. 0), nxt = (\<lambda>a. 0)\<rparr>))))),
     gc_phase = JS_GC_PHASE_NONE\<rparr>"

lemma demo_gc_children:
  "mark_children (heap demo_gc) 4 = Some []" "mark_children (heap demo_gc) 5 = Some [4, 5, 5]" "mark_children (heap demo_gc) 6 = Some [4]"
  by code_simp+

lemma demo_gc_inv: "gc_inv demo_gc [4, 5, 6] ((\<lambda>p. 0)(6 := 1))"
proof -
  have "rt_lists (init_list_head tmp_obj_list (links_of demo_gc)) (gc_lists [4, 5, 6] [] [])"
    by (simp add: demo_gc_def rt_lists_def heads_def head_defs gc_lists_def is_list_def link_defs)
  moreover have "closed (heap demo_gc) (set [4, 5, 6])" using demo_gc_children by (simp add: closed_def demo_gc_def demo_heap_def)
  ultimately show ?thesis using demo_gc_children by (simp add: gc_inv_def refs_from_def refs_def) (simp add: demo_gc_def rest_unmarked_def)
qed

theorem gc_finds_garbage_witness:
  "\<exists>s1 s2 live dead. gc_decref demo_gc = Some s1 \<and> gc_scan s1 = Some s2 \<and> rt_lists (links_of s2) (gc_lists live dead []) \<and>
    5 \<in> set dead \<and> 4 \<in> set live \<and> 6 \<in> set live"
proof -
  let ?R = "roots [4, 5, 6] ((\<lambda>p. 0)(6 := 1))"
  have 6: "reachable (heap demo_gc) ?R 6" by (rule reachable.root) (simp add: roots_def)
  then have 4: "reachable (heap demo_gc) ?R 4" using demo_gc_children(3) by (rule reachable.step) simp
  have "q \<in> {4, 6}" if "reachable (heap demo_gc) ?R q" for q
    using that by induction (auto simp: roots_def demo_gc_children split: if_splits)
  then have "\<not> reachable (heap demo_gc) ?R 5" by fastforce
  moreover obtain s1 s2 live dead where "gc_decref demo_gc = Some s1" "gc_scan s1 = Some s2" "rt_lists (links_of s2) (gc_lists live dead [])"
    "set live = {q \<in> set [4, 5, 6]. reachable (heap demo_gc) ?R q}" "set dead = set [4, 5, 6] - set live"
    using gc_finds_garbage [OF demo_gc_inv] by blast
  ultimately show ?thesis using 4 6 by (intro exI [of _ s1] exI [of _ s2] exI [of _ live] exI [of _ dead]) simp
qed

end
