(* ===== verification/GcFree.thy ===== *)
theory GcFree
  imports GcMark
begin

text \<open>
  Freeing objects (\<open>free_gc_object\<close> and the functions it calls) and the last phase of the collector
  (\<open>gc_free_cycles\<close>). While a collection frees objects or a list of objects with count zero is worked off, the
  nested calls below only decrement counts, except for shapes, variable references and contexts, which are
  freed on the spot.
\<close>

section \<open>Operations\<close>

text \<open>The value \<open>None\<close> is a failed assertion, the use of a freed object or a double free.\<close>

definition js_free_rt :: "gref \<Rightarrow> gc_state \<Rightarrow> gc_state option" where
  "js_free_rt p s = (if heap s p = None then None else Some (s\<lparr>heap := (heap s)(p := None)\<rparr>))"

definition remove_gc_object :: "gref \<Rightarrow> gc_state \<Rightarrow> gc_state" where
  "remove_gc_object p s = s\<lparr>links_of := list_del p (links_of s)\<rparr>"

text \<open>\<open>list_del\<close> and then \<open>list_add\<close> on the list of objects with count zero.\<close>

definition queue_zero :: "gref \<Rightarrow> gc_state \<Rightarrow> gc_state" where
  "queue_zero p s = s\<lparr>links_of := list_add p gc_zero_ref_count_list (list_del p (links_of s))\<rparr>"

text \<open>\<open>__JS_FreeValueRT\<close> on a node, called while \<open>gc_phase\<close> is not \<open>JS_GC_PHASE_NONE\<close>: the object is freed later.\<close>

definition free_value_zero :: "gref \<Rightarrow> gc_state \<Rightarrow> gc_state" where
  "free_value_zero p s = (if gc_phase s \<noteq> JS_GC_PHASE_REMOVE_CYCLES then set_mark p 1 (queue_zero p s) else s)"

definition JS_FreeValueRT :: "jsval \<Rightarrow> gc_state \<Rightarrow> gc_state option" where
  "JS_FreeValueRT v s =
     (case JS_MarkValue v of
        [] \<Rightarrow> Some s
      | p # _ \<Rightarrow>
          if heap s p = None then None
          else
            let s = set_rc p (ref_count s p - 1) s in
            Some (if ref_count s p \<le> 0 then free_value_zero p s else s))"

definition async_func_free :: "gref \<Rightarrow> gc_state \<Rightarrow> gc_state option" where
  "async_func_free p s =
     (if heap s p = None then None
      else
        let s = set_rc p (ref_count s p - 1) s in
        if ref_count s p = 0 \<and> gc_phase s \<noteq> JS_GC_PHASE_REMOVE_CYCLES then Some (queue_zero p s) else Some s)"

definition js_weakref_free :: "jsval \<Rightarrow> gc_state \<Rightarrow> gc_state option" where
  "js_weakref_free v s =
     (case v of
        JPtr TagObject p \<Rightarrow>
          if heap s p = None \<or> \<not> weakref_count s p \<ge> 1 then None
          else
            let s = s\<lparr>weakref_count := (weakref_count s)(p := weakref_count s p - 1)\<rparr> in
            if weakref_count s p = 0 \<and> ref_count s p = 0 \<and> mark s p = 0 then js_free_rt p s else Some s
      | _ \<Rightarrow> Some s)"

definition JS_IsLiveObject_read :: "jsval \<Rightarrow> gc_state \<Rightarrow> gc_state option" where
  "JS_IsLiveObject_read v s = (case v of JPtr TagObject p \<Rightarrow> (if heap s p = None then None else Some s) | _ \<Rightarrow> Some s)"

text \<open>The calls that free no shape, variable reference or context.\<close>

fun release0 :: "release \<Rightarrow> gc_state \<Rightarrow> gc_state option" where
  "release0 (FreeValue v) s = JS_FreeValueRT v s"
| "release0 (FreeAsync p) s = async_func_free p s"
| "release0 (FreeWeakref v) s = js_weakref_free v s"
| "release0 (PeekObject v) s = JS_IsLiveObject_read v s"
| "release0 _ s = None"

definition js_free_shape0 :: "gref \<Rightarrow> JSShape \<Rightarrow> gc_state \<Rightarrow> gc_state option" where
  "js_free_shape0 p sh s =
     (if ref_count s p \<noteq> 0 then None
      else do { s \<leftarrow> for_all release0 (free_shape_fields sh) s; js_free_rt p (remove_gc_object p s) })"

definition js_free_shape :: "gref \<Rightarrow> gc_state \<Rightarrow> gc_state option" where
  "js_free_shape p s =
     (case heap s p of
        Some (NShape sh) \<Rightarrow>
          let s = set_rc p (ref_count s p - 1) s in
          if ref_count s p \<le> 0 then js_free_shape0 p sh s else Some s
      | _ \<Rightarrow> None)"

definition free_var_ref :: "gref option \<Rightarrow> gc_state \<Rightarrow> gc_state option" where
  "free_var_ref vr s =
     (case vr of
        None \<Rightarrow> Some s
      | Some p \<Rightarrow>
          (case heap s p of
             Some (NVarRef v) \<Rightarrow>
               if \<not> ref_count s p > 0 then None
               else
                 let s = set_rc p (ref_count s p - 1) s in
                 if ref_count s p = 0 then
                   do { s \<leftarrow> for_all release0 (free_var_ref_fields v) s; js_free_rt p (remove_gc_object p s) }
                 else Some s
           | _ \<Rightarrow> None))"

text \<open>The calls that free no context.\<close>

fun release1 :: "release \<Rightarrow> gc_state \<Rightarrow> gc_state option" where
  "release1 (FreeShape p) s = js_free_shape p s"
| "release1 (FreeVarRef p) s = free_var_ref p s"
| "release1 (FreeContext p) s = None"
| "release1 r s = release0 r s"

definition JS_FreeContext :: "gref \<Rightarrow> gc_state \<Rightarrow> gc_state option" where
  "JS_FreeContext p s =
     (case heap s p of
        Some (NContext ctx) \<Rightarrow>
          let s = set_rc p (ref_count s p - 1) s in
          if ref_count s p > 0 then Some s
          else if ref_count s p \<noteq> 0 then None
          else do { s \<leftarrow> for_all release1 (free_context_fields ctx) s; js_free_rt p (remove_gc_object p s) }
      | _ \<Rightarrow> None)"

fun release :: "release \<Rightarrow> gc_state \<Rightarrow> gc_state option" where
  "release (FreeContext p) s = JS_FreeContext p s"
| "release r s = release1 r s"

text \<open>What is left of an object whose fields have been freed. The code sets \<open>free_mark\<close> before it frees the fields
  and the other fields after it; a finalizer reads none of them but \<open>free_mark\<close>, which decides only what
  happens to a map record.\<close>

definition freed_object :: JSObject where
  "freed_object = \<lparr>free_mark = True, obj_shape = None, obj_prop = [], obj_u = U_plain\<rparr>"

definition set_node :: "gref \<Rightarrow> gc_node \<Rightarrow> gc_state \<Rightarrow> gc_state" where
  "set_node p n s = s\<lparr>heap := (heap s)(p \<mapsto> n)\<rparr>"

definition add_zero_tail :: "gref \<Rightarrow> gc_state \<Rightarrow> gc_state" where
  "add_zero_tail p s = s\<lparr>links_of := list_add_tail p gc_zero_ref_count_list (links_of s)\<rparr>"

definition free_object :: "gref \<Rightarrow> JSObject \<Rightarrow> gc_state \<Rightarrow> gc_state option" where
  "free_object p ob s =
     do { rs \<leftarrow> free_object_fields (heap s) ob;
          s \<leftarrow> for_all release rs s;
          let s = remove_gc_object p (set_node p (NObject freed_object) s);
          if gc_phase s = JS_GC_PHASE_REMOVE_CYCLES then
            if ref_count s p = 0 \<and> weakref_count s p = 0 then js_free_rt p s else Some (add_zero_tail p s)
          else if weakref_count s p = 0 then js_free_rt p s else Some (set_mark p 0 s) }"

text \<open>The end of \<open>free_function_bytecode\<close>, \<open>__async_func_free\<close> and \<open>js_free_module_def\<close>.\<close>

definition free_or_keep :: "gref \<Rightarrow> gc_state \<Rightarrow> gc_state option" where
  "free_or_keep p s =
     (let s = remove_gc_object p s in
      if gc_phase s = JS_GC_PHASE_REMOVE_CYCLES \<and> ref_count s p \<noteq> 0 then Some (add_zero_tail p s) else js_free_rt p s)"

definition free_function_bytecode :: "gref \<Rightarrow> JSFunctionBytecode \<Rightarrow> gc_state \<Rightarrow> gc_state option" where
  "free_function_bytecode p b s = do { s \<leftarrow> for_all release (free_bytecode_fields b) s; free_or_keep p s }"

definition async_func_free0 :: "gref \<Rightarrow> JSAsyncFunctionState \<Rightarrow> gc_state \<Rightarrow> gc_state option" where
  "async_func_free0 p a s = do { s \<leftarrow> for_all release (free_async_fields a) s; free_or_keep p s }"

text \<open>A module takes itself out of the list of its context.\<close>

fun unlink_node :: "gref set \<Rightarrow> gc_node \<Rightarrow> gc_node" where
  "unlink_node ms (NContext ctx) = NContext (ctx\<lparr>loaded_modules := filter (\<lambda>m. m \<notin> ms) (loaded_modules ctx)\<rparr>)"
| "unlink_node ms n = n"

definition unlink_module :: "gref \<Rightarrow> gc_state \<Rightarrow> gc_state" where
  "unlink_module m s = s\<lparr>heap := (\<lambda>q. map_option (unlink_node {m}) (heap s q))\<rparr>"

definition js_free_module_def :: "gref \<Rightarrow> JSModuleDef \<Rightarrow> gc_state \<Rightarrow> gc_state option" where
  "js_free_module_def p m s = do { s \<leftarrow> for_all release (free_module_fields m) s; free_or_keep p (unlink_module p s) }"

definition free_gc_object :: "gref \<Rightarrow> gc_state \<Rightarrow> gc_state option" where
  "free_gc_object p s =
     (case heap s p of
        Some (NObject ob) \<Rightarrow> free_object p ob s
      | Some (NBytecode b) \<Rightarrow> free_function_bytecode p b s
      | Some (NAsync a) \<Rightarrow> async_func_free0 p a s
      | Some (NModule m) \<Rightarrow> js_free_module_def p m s
      | _ \<Rightarrow> None)"

text \<open>The kinds of object that the object referencing them frees.\<close>

fun freed_by_owner :: "gc_node \<Rightarrow> bool" where
  "freed_by_owner (NShape _) = True"
| "freed_by_owner (NVarRef _) = True"
| "freed_by_owner (NContext _) = True"
| "freed_by_owner _ = False"

partial_function (option) free_cycles_loop :: "gc_state \<Rightarrow> gc_state option" where
  "free_cycles_loop s =
     (let p = nxt (links_of s) tmp_obj_list in
      if p = tmp_obj_list then Some s
      else
        case heap s p of
          None \<Rightarrow> None
        | Some n \<Rightarrow>
            if freed_by_owner n then free_cycles_loop (move_tail p gc_zero_ref_count_list s)
            else do { s \<leftarrow> free_gc_object p s; free_cycles_loop s })"

partial_function (option) free_zero_loop :: "nat \<Rightarrow> gc_state \<Rightarrow> gc_state option" where
  "free_zero_loop el s =
     (if el = gc_zero_ref_count_list then Some s
      else
        let el1 = nxt (links_of s) el in
        case heap s el of
          None \<Rightarrow> None
        | Some n \<Rightarrow>
            if freed_by_owner n then None
            else if (case n of NObject _ \<Rightarrow> weakref_count s el \<noteq> 0 | _ \<Rightarrow> False) then free_zero_loop el1 (set_mark el 0 s)
            else do { s \<leftarrow> js_free_rt el s; free_zero_loop el1 s })"

definition gc_free_cycles :: "gc_state \<Rightarrow> gc_state option" where
  "gc_free_cycles s =
     do { s \<leftarrow> free_cycles_loop (s\<lparr>gc_phase := JS_GC_PHASE_REMOVE_CYCLES\<rparr>);
          let s = s\<lparr>gc_phase := JS_GC_PHASE_NONE\<rparr>;
          s \<leftarrow> free_zero_loop (nxt (links_of s) gc_zero_ref_count_list) s;
          Some (s\<lparr>links_of := init_list_head gc_zero_ref_count_list (links_of s)\<rparr>) }"

text \<open>\<open>JS_RunGCInternal\<close> without \<open>remove_weak_objects\<close>.\<close>

definition run_gc :: "gc_state \<Rightarrow> gc_state option" where
  "run_gc s = do { s \<leftarrow> gc_decref s; s \<leftarrow> gc_scan s; gc_free_cycles s }"

section \<open>What freeing keeps true\<close>

text \<open>The kinds of objects the calls expect.\<close>

definition kind :: "(gc_node \<Rightarrow> bool) \<Rightarrow> gc_heap \<Rightarrow> gref \<Rightarrow> bool" where
  "kind d h p = (case h p of None \<Rightarrow> False | Some n \<Rightarrow> d n)"

fun value_typed :: "gc_heap \<Rightarrow> jsval \<Rightarrow> bool" where
  "value_typed h (JPtr TagObject p) = kind is_NObject h p"
| "value_typed h (JPtr TagFunctionBytecode p) = kind is_NBytecode h p"
| "value_typed h (JPtr TagModule p) = kind is_NModule h p"
| "value_typed h _ = True"

fun release_typed :: "gc_heap \<Rightarrow> release \<Rightarrow> bool" where
  "release_typed h (FreeValue v) = value_typed h v"
| "release_typed h (FreeShape p) = kind is_NShape h p"
| "release_typed h (FreeVarRef vr) = (case vr of None \<Rightarrow> True | Some p \<Rightarrow> kind is_NVarRef h p)"
| "release_typed h (FreeContext p) = kind is_NContext h p"
| "release_typed h (FreeAsync p) = kind is_NAsync h p"
| "release_typed h (FreeWeakref v) = (case v of JPtr TagObject p \<Rightarrow> kind is_NObject h p | _ \<Rightarrow> True)"
| "release_typed h (PeekObject v) = True"
| "release_typed h AssertFails = True"

lemma kindE: "kind d h p \<Longrightarrow> (\<And>n. h p = Some n \<Longrightarrow> d n \<Longrightarrow> P) \<Longrightarrow> P"
  by (auto simp: kind_def split: option.splits)

text \<open>The weak references a call gives up.\<close>

fun weak_released :: "release \<Rightarrow> gref list" where
  "weak_released (FreeWeakref (JPtr TagObject p)) = [p]"
| "weak_released _ = []"

abbreviation weak_all :: "release list \<Rightarrow> gref list" where
  "weak_all rs \<equiv> concat (map weak_released rs)"

definition weak_refs :: "gc_heap \<Rightarrow> gref \<Rightarrow> gref \<Rightarrow> int" where
  "weak_refs h p q = (case free_children h p of None \<Rightarrow> 0 | Some rs \<Rightarrow> int (count_list (weak_all rs) q))"

definition weak_from :: "gc_heap \<Rightarrow> gref set \<Rightarrow> gref \<Rightarrow> int" where
  "weak_from h S q = (\<Sum>p\<in>S. weak_refs h p q)"

text \<open>An object is looked at only before the reference to it is given up.\<close>

fun peeks_ok :: "release list \<Rightarrow> bool" where
  "peeks_ok [] = True"
| "peeks_ok (PeekObject v # rs) = (FreeValue v \<in> set rs \<and> peeks_ok rs)"
| "peeks_ok (r # rs) = peeks_ok rs"

text \<open>The heap \<open>h\<close> at the start of the last phase, with objects \<open>X\<close> of which \<open>D\<close> are garbage.\<close>

record gc_env =
  eh :: gc_heap
  eX :: "gref set"
  eD :: "gref set"
  eext :: "gref \<Rightarrow> int"

definition env_ok :: "gc_env \<Rightarrow> bool" where
  "env_ok e =
     (finite (eX e) \<and> eD e \<subseteq> eX e \<and> closed (eh e) (eX e) \<and> (\<forall>q\<in>eX e. 0 \<le> eext e q) \<and> (\<forall>q\<in>eD e. eext e q = 0) \<and>
      (\<forall>q\<in>eX e - eD e. 0 < eext e q + refs_from (eh e) (eX e - eD e) q) \<and> (\<forall>q\<in>eD e. refs_from (eh e) (eX e - eD e) q = 0) \<and>
      (\<forall>p\<in>eX e. \<exists>n rs. eh e p = Some n \<and> node_ok (eh e) n \<and> free_children (eh e) p = Some rs \<and> list_all (release_typed (eh e)) rs) \<and>
      (\<forall>p\<in>eD e. node_idle (the (eh e p))) \<and> (\<forall>q. q \<notin> eX e \<longrightarrow> eh e q = None \<or> eh e q = Some (NObject freed_object)))"

text \<open>
  What has happened so far: the objects whose fields are being or have been freed, the modules taken out of
  their lists, the objects still on a list while their fields are freed, the object whose count has just
  become zero, and the references and weak references that are no longer in the heap but still counted.
\<close>

record gc_ghost =
  fin :: "gref set"
  unl :: "gref set"
  prog :: "gref set"
  due :: "gref set"
  pend :: "gref multiset"
  wpend :: "gref multiset"

definition owned :: "gc_env \<Rightarrow> gref \<Rightarrow> bool" where
  "owned e q = freed_by_owner (the (eh e q))"

definition held :: "gc_env \<Rightarrow> gc_ghost \<Rightarrow> gref \<Rightarrow> int" where
  "held e g q = refs_from (eh e) (eX e - fin g) q + int (count (pend g) q)"

definition weakly_held :: "gc_env \<Rightarrow> gc_ghost \<Rightarrow> gref \<Rightarrow> int" where
  "weakly_held e g q = weak_from (eh e) (eX e - fin g) q + int (count (wpend g) q)"

definition ghost_ok :: "gc_env \<Rightarrow> gc_ghost \<Rightarrow> bool" where
  "ghost_ok e g =
     (fin g \<subseteq> eD e \<and> unl g \<subseteq> fin g \<and> prog g \<subseteq> fin g \<and> (\<forall>m\<in>unl g. \<exists>d. eh e m = Some (NModule d)) \<and>
      set_mset (pend g) \<subseteq> eX e \<and> set_mset (wpend g) \<subseteq> {q. \<exists>ob. eh e q = Some (NObject ob)} \<and> (\<forall>q\<in>fin g. owned e q \<longrightarrow> held e g q = 0))"

definition lists_ok :: "gc_env \<Rightarrow> gc_ghost \<Rightarrow> (nat \<Rightarrow> gref list) \<Rightarrow> gc_state \<Rightarrow> bool" where
  "lists_ok e g L s =
     (rt_lists (links_of s) L \<and> set (L gc_obj_list) = eX e - eD e \<and>
      set (L tmp_obj_list) \<union> set (L gc_zero_ref_count_list) = {q \<in> eD e. heap s q \<noteq> None} \<and>
      set (L tmp_obj_list) \<inter> fin g \<subseteq> prog g \<and> (\<forall>q\<in>set (L gc_zero_ref_count_list). \<not> owned e q \<longrightarrow> q \<in> fin g))"

definition heap_ok :: "gc_env \<Rightarrow> gc_ghost \<Rightarrow> gc_state \<Rightarrow> bool" where
  "heap_ok e g s =
     ((\<forall>q\<in>eX e. heap s q = None \<longrightarrow> q \<in> fin g - prog g \<and> held e g q = 0) \<and>
      (\<forall>q\<in>eX e. heap s q \<noteq> None \<longrightarrow> heap s q = map_option (unlink_node (unl g)) (eh e q) \<or>
        q \<in> fin g - prog g \<and> (\<exists>ob. eh e q = Some (NObject ob)) \<and> heap s q = Some (NObject freed_object)) \<and>
      (\<forall>q\<in>fin g - prog g. owned e q \<longrightarrow> heap s q = None) \<and>
      (\<forall>q. q \<notin> eX e \<longrightarrow> heap s q = None \<or> heap s q = eh e q) \<and>
      (\<forall>q\<in>eX e - eD e. mark s q = 0) \<and> (\<forall>q\<in>eD e. mark s q = 1) \<and> gc_phase s = JS_GC_PHASE_REMOVE_CYCLES)"

definition counts_ok :: "gc_env \<Rightarrow> gc_ghost \<Rightarrow> gc_state \<Rightarrow> bool" where
  "counts_ok e g s =
     ((\<forall>q\<in>eX e - unl g. heap s q \<noteq> None \<longrightarrow> ref_count s q = eext e q + held e g q) \<and>
      (\<forall>q\<in>eD e - fin g - due g. owned e q \<longrightarrow> 0 < ref_count s q) \<and>
      (\<forall>q. weakref_count s q = weakly_held e g q) \<and> (\<forall>q. heap s q = None \<longrightarrow> weakly_held e g q = 0))"

text \<open>What is left of objects freed earlier is kept for weak references only.\<close>

definition husks_ok :: "gc_env \<Rightarrow> gc_ghost \<Rightarrow> gc_state \<Rightarrow> bool" where
  "husks_ok e g s = (\<forall>q. q \<notin> eX e \<longrightarrow> heap s q = None \<or> mark s q = 0 \<and> ref_count s q = 0 \<and> 0 < weakly_held e g q)"

definition zombies_ok :: "gc_env \<Rightarrow> gc_ghost \<Rightarrow> gc_state \<Rightarrow> bool" where
  "zombies_ok e g s = (\<forall>q\<in>fin g - prog g. kind is_NObject (eh e) q \<longrightarrow> heap s q = None \<or> heap s q = Some (NObject freed_object))"

definition free_inv :: "gc_env \<Rightarrow> gc_ghost \<Rightarrow> (nat \<Rightarrow> gref list) \<Rightarrow> gc_state \<Rightarrow> bool" where
  "free_inv e g L s = (env_ok e \<and> ghost_ok e g \<and> lists_ok e g L s \<and> heap_ok e g s \<and> counts_ok e g s \<and> husks_ok e g s \<and> zombies_ok e g s)"

lemma weak_refs_nonneg [simp]: "0 \<le> weak_refs h p q"
  by (simp add: weak_refs_def split: option.split)

lemma weak_from_nonneg [simp]: "0 \<le> weak_from h S q"
  by (simp add: weak_from_def sum_nonneg)

lemma held_nonneg [simp]: "0 \<le> held e g q" "0 \<le> weakly_held e g q"
  by (simp_all add: held_def weakly_held_def)

lemma free_invD:
  assumes "free_inv e g L s"
  shows "env_ok e" "ghost_ok e g" "lists_ok e g L s" "heap_ok e g s" "counts_ok e g s" "husks_ok e g s" "zombies_ok e g s"
  using assms by (auto simp: free_inv_def)

lemma env_okD:
  assumes "env_ok e"
  shows "finite (eX e)" "eD e \<subseteq> eX e" "closed (eh e) (eX e)" "q \<in> eX e \<Longrightarrow> 0 \<le> eext e q" "q \<in> eD e \<Longrightarrow> eext e q = 0"
    "q \<in> eX e - eD e \<Longrightarrow> 0 < eext e q + refs_from (eh e) (eX e - eD e) q" "q \<in> eD e \<Longrightarrow> refs_from (eh e) (eX e - eD e) q = 0"
    "p \<in> eX e \<Longrightarrow> \<exists>n rs. eh e p = Some n \<and> node_ok (eh e) n \<and> free_children (eh e) p = Some rs \<and> list_all (release_typed (eh e)) rs"
    "p \<in> eD e \<Longrightarrow> node_idle (the (eh e p))" "q \<notin> eX e \<Longrightarrow> eh e q = None \<or> eh e q = Some (NObject freed_object)"
  using assms unfolding env_ok_def by blast+

lemma ghost_okD:
  assumes "ghost_ok e g"
  shows "fin g \<subseteq> eD e" "unl g \<subseteq> fin g" "prog g \<subseteq> fin g" "m \<in> unl g \<Longrightarrow> \<exists>d. eh e m = Some (NModule d)"
    "q \<in># pend g \<Longrightarrow> q \<in> eX e" "q \<in># wpend g \<Longrightarrow> \<exists>ob. eh e q = Some (NObject ob)" "q \<in> fin g \<Longrightarrow> owned e q \<Longrightarrow> held e g q = 0"
  using assms unfolding ghost_ok_def by blast+

lemma heap_okD:
  assumes "heap_ok e g s"
  shows "q \<in> eX e \<Longrightarrow> heap s q = None \<Longrightarrow> q \<in> fin g - prog g" "q \<in> eX e \<Longrightarrow> heap s q = None \<Longrightarrow> held e g q = 0"
    "q \<in> eX e \<Longrightarrow> heap s q \<noteq> None \<Longrightarrow> heap s q = map_option (unlink_node (unl g)) (eh e q) \<or>
        q \<in> fin g - prog g \<and> (\<exists>ob. eh e q = Some (NObject ob)) \<and> heap s q = Some (NObject freed_object)"
    "q \<in> fin g - prog g \<Longrightarrow> owned e q \<Longrightarrow> heap s q = None" "q \<notin> eX e \<Longrightarrow> heap s q = None \<or> heap s q = eh e q"
    "q \<in> eX e - eD e \<Longrightarrow> mark s q = 0" "q \<in> eD e \<Longrightarrow> mark s q = 1" "gc_phase s = JS_GC_PHASE_REMOVE_CYCLES"
  using assms unfolding heap_ok_def by blast+

lemma counts_okD:
  assumes "counts_ok e g s"
  shows "q \<in> eX e - unl g \<Longrightarrow> heap s q \<noteq> None \<Longrightarrow> ref_count s q = eext e q + held e g q"
    "q \<in> eD e - fin g - due g \<Longrightarrow> owned e q \<Longrightarrow> 0 < ref_count s q" "weakref_count s q = weakly_held e g q"
    "heap s q = None \<Longrightarrow> weakly_held e g q = 0"
  using assms unfolding counts_ok_def by blast+

text \<open>A change of the counts.\<close>

lemma heap_ok_change:
  assumes "heap_ok e g s" "\<And>q. q \<in> eX e \<Longrightarrow> heap s' q = heap s q" "\<And>q. q \<notin> eX e \<Longrightarrow> heap s' q = heap s q \<or> heap s' q = None"
    "mark s' = mark s" "gc_phase s' = gc_phase s" "fin g' = fin g" "unl g' = unl g" "prog g' = prog g" "fin g \<subseteq> eX e"
    "\<And>q. q \<in> eX e \<Longrightarrow> heap s q = None \<Longrightarrow> held e g' q \<le> held e g q"
  shows "heap_ok e g' s'"
proof -
  note d = heap_okD [OF assms(1)]
  have z: "held e g' q = 0" if "q \<in> eX e" "heap s q = None" for q
    using d(2) [OF that] assms(10) [OF that] held_nonneg(1) [of e g' q] by linarith
  show ?thesis unfolding heap_ok_def assms(4-8)
  proof (intro conjI ballI allI impI)
    fix q assume "q \<in> eX e" "heap s' q \<noteq> None"
    then show "heap s' q = map_option (unlink_node (unl g)) (eh e q) \<or>
        q \<in> fin g - prog g \<and> (\<exists>ob. eh e q = Some (NObject ob)) \<and> heap s' q = Some (NObject freed_object)"
      using d(3) [of q] unfolding assms(2) [OF \<open>q \<in> eX e\<close>] by blast
  next
    fix q assume "q \<notin> eX e"
    then show "heap s' q = None \<or> heap s' q = eh e q" using d(5) [of q] assms(3) [of q] by metis
  next
    fix q assume "q \<in> fin g - prog g" "owned e q"
    then show "heap s' q = None" using d(4) [of q] assms(2) [of q] assms(9) by auto
  qed (use z d(1,6,7,8) assms(2) in auto)
qed

lemma fin_sub: "env_ok e \<Longrightarrow> ghost_ok e g \<Longrightarrow> fin g \<subseteq> eX e"
  using ghost_okD(1) env_okD(2) by blast

text \<open>A reference that is still counted keeps the object.\<close>

lemma pending_held: "p \<in># pend g \<Longrightarrow> 0 < held e g p"
  unfolding held_def by (rule add_nonneg_pos) simp_all

lemma pending_alive:
  assumes "free_inv e g L s" "p \<in># pend g"
  shows "heap s p \<noteq> None" "p \<in> eX e" "owned e p \<Longrightarrow> p \<notin> fin g"
proof -
  show "p \<in> eX e" using ghost_okD(5) free_invD(2) assms by blast
  then show "heap s p \<noteq> None" using heap_okD(2) [OF free_invD(4) [OF assms(1)], of p] pending_held [OF assms(2), of e] by auto
  show "owned e p \<Longrightarrow> p \<notin> fin g" using ghost_okD(7) [OF free_invD(2) [OF assms(1)], of p] pending_held [OF assms(2), of e] by auto
qed

text \<open>Giving up a reference.\<close>

lemma dec_rc:
  assumes inv: "free_inv e g L s" and p: "pend g = add_mset p M" and rc: "owned e p \<longrightarrow> 1 < ref_count s p \<or> p \<in> N"
  shows "free_inv e (g\<lparr>pend := M, due := due g \<union> N\<rparr>) L (set_rc p (ref_count s p - 1) s)"
proof -
  let ?g = "g\<lparr>pend := M, due := due g \<union> N\<rparr>"
  have pX: "heap s p \<noteq> None" "owned e p \<Longrightarrow> p \<notin> fin g" using pending_alive [OF inv, of p] p by auto
  have h: "held e ?g q = held e g q - (if q = p then 1 else 0)" for q using p by (simp add: held_def)
  have w: "weakly_held e ?g q = weakly_held e g q" for q by (simp add: weakly_held_def)
  have "ghost_ok e ?g" using free_invD(2) [OF inv] pX(2) p unfolding ghost_ok_def h by auto
  moreover have "heap_ok e ?g (set_rc p (ref_count s p - 1) s)"
    using fin_sub free_invD(1,2) [OF inv] by (intro heap_ok_change [OF free_invD(4) [OF inv]]) (simp_all add: h set_rc_def)
  moreover have "counts_ok e ?g (set_rc p (ref_count s p - 1) s)"
    using free_invD(5) [OF inv] pX(1) rc unfolding counts_ok_def h w by (auto simp: set_rc_def)
  moreover have "husks_ok e ?g (set_rc p (ref_count s p - 1) s)"
    using free_invD(6) [OF inv] pending_alive(2) [OF inv, of p] p unfolding husks_ok_def w by auto
  moreover have "zombies_ok e ?g (set_rc p (ref_count s p - 1) s)" using free_invD(7) [OF inv] by (simp add: zombies_ok_def)
  ultimately show ?thesis using inv by (simp add: free_inv_def lists_ok_def)
qed

section \<open>Calls that free nothing on the spot\<close>

text \<open>The invariant after a call that gave up all but the references \<open>M\<close> and the weak references \<open>W\<close>.\<close>

definition advances :: "gc_env \<Rightarrow> gc_ghost \<Rightarrow> (nat \<Rightarrow> gref list) \<Rightarrow> gref multiset \<Rightarrow> gref multiset \<Rightarrow>
    gc_ghost \<Rightarrow> (nat \<Rightarrow> gref list) \<Rightarrow> gc_state \<Rightarrow> bool" where
  "advances e g L M W g' L' s' =
     (free_inv e g' L' s' \<and> pend g' = M \<and> wpend g' = W \<and> prog g' = prog g \<and> unl g' = unl g \<and> due g' \<subseteq> due g \<and>
      fin g \<subseteq> fin g' \<and> (\<forall>q\<in>fin g' - fin g. owned e q) \<and> set (L' tmp_obj_list) \<subseteq> set (L tmp_obj_list))"

lemma advances_refl: "free_inv e g L s \<Longrightarrow> pend g = M \<Longrightarrow> wpend g = W \<Longrightarrow> advances e g L M W g L s"
  by (simp add: advances_def)

lemma advances_trans: "advances e g L M W g' L' s' \<Longrightarrow> advances e g' L' M' W' g'' L'' s'' \<Longrightarrow> advances e g L M' W' g'' L'' s''"
  unfolding advances_def by (intro conjI) auto

text \<open>
  The functions that free an object run a list of calls through one of three dispatchers. What they rely on
  is that the dispatcher \<open>f\<close> carries out each call it accepts (\<open>P\<close>) and gives up exactly the references of it.
\<close>

locale releaser =
  fixes f :: "release \<Rightarrow> gc_state \<Rightarrow> gc_state option" and P :: "release \<Rightarrow> bool"
  assumes handles: "P r \<Longrightarrow> free_inv e g L s \<Longrightarrow> release_typed (eh e) r \<Longrightarrow> pend g = mset (released r) + M \<Longrightarrow>
    wpend g = mset (weak_released r) + W \<Longrightarrow> (\<forall>v. r = PeekObject v \<longrightarrow> set (JS_MarkValue v) \<subseteq> set_mset M) \<Longrightarrow>
    \<exists>g' L' s'. f r s = Some s' \<and> advances e g L M W g' L' s'"
begin

lemma all_handled:
  "free_inv e g L s \<Longrightarrow> list_all P rs \<Longrightarrow> list_all (release_typed (eh e)) rs \<Longrightarrow> peeks_ok rs \<Longrightarrow>
    pend g = mset (released_all rs) + M \<Longrightarrow> wpend g = mset (weak_all rs) + W \<Longrightarrow>
    \<exists>g' L' s'. for_all f rs s = Some s' \<and> advances e g L M W g' L' s'"
proof (induction rs arbitrary: g L s)
  case Nil
  then show ?case by (auto intro: advances_refl)
next
  case (Cons r rs)
  have peek: "set (JS_MarkValue v) \<subseteq> set_mset (mset (released_all rs) + M)" if "r = PeekObject v" for v
    using Cons.prems(4) that by force
  from handles [of r e g L s "mset (released_all rs) + M" "mset (weak_all rs) + W"] Cons.prems peek
  obtain g1 L1 s1 where 1: "f r s = Some s1" "advances e g L (mset (released_all rs) + M) (mset (weak_all rs) + W) g1 L1 s1"
    by (auto simp: ac_simps)
  moreover have "peeks_ok rs" using Cons.prems(4) by (cases r) auto
  ultimately obtain g2 L2 s2 where "for_all f rs s1 = Some s2" "advances e g1 L1 M W g2 L2 s2"
    using Cons.IH [of g1 L1 s1] Cons.prems by (auto simp: advances_def)
  then show ?case using 1 advances_trans by fastforce
qed

end

lemma value_cases:
  obtains "JS_MarkValue v = []" | p where "JS_MarkValue v = [p]" "v \<in> {JPtr TagObject p, JPtr TagFunctionBytecode p, JPtr TagModule p}"
  by (cases v rule: JS_MarkValue.cases) auto

lemma kind_owned:
  "kind is_NObject (eh e) p \<Longrightarrow> \<not> owned e p" "kind is_NBytecode (eh e) p \<Longrightarrow> \<not> owned e p" "kind is_NModule (eh e) p \<Longrightarrow> \<not> owned e p"
  "kind is_NAsync (eh e) p \<Longrightarrow> \<not> owned e p" "kind is_NShape (eh e) p \<Longrightarrow> owned e p" "kind is_NVarRef (eh e) p \<Longrightarrow> owned e p"
  "kind is_NContext (eh e) p \<Longrightarrow> owned e p"
  by (auto simp: owned_def is_NObject_def is_NBytecode_def is_NModule_def is_NAsync_def is_NShape_def is_NVarRef_def is_NContext_def
    elim!: kindE)

lemma ghost_same: "pend g = M \<Longrightarrow> g\<lparr>pend := M\<rparr> = g"
  by auto

lemma value_ok:
  assumes inv: "free_inv e g L s" and t: "release_typed (eh e) (FreeValue v)" and m: "pend g = mset (JS_MarkValue v) + M"
  shows "\<exists>s'. JS_FreeValueRT v s = Some s' \<and> advances e g L M (wpend g) (g\<lparr>pend := M\<rparr>) L s'"
proof (cases rule: value_cases [of v])
  case 1
  then have "pend g = M" using m by simp
  then show ?thesis using 1 advances_refl [OF inv, of M] unfolding ghost_same [OF \<open>pend g = M\<close>] by (simp add: JS_FreeValueRT_def)
next
  case (2 p)
  have "\<not> owned e p" using t 2(2) kind_owned by auto
  then have "free_inv e (g\<lparr>pend := M\<rparr>) L (set_rc p (ref_count s p - 1) s)"
    using dec_rc [OF inv, of p M "{}"] m 2(1) by simp
  moreover have "heap s p \<noteq> None" using pending_alive(1) [OF inv] m 2(1) by simp
  moreover have "gc_phase (set_rc p n s) = JS_GC_PHASE_REMOVE_CYCLES" for n
    using heap_okD(8) [OF free_invD(4) [OF inv]] by (simp add: set_rc_def)
  ultimately show ?thesis using 2(1) by (auto simp: JS_FreeValueRT_def free_value_zero_def Let_def advances_def)
qed

lemma async_ok:
  assumes inv: "free_inv e g L s" and t: "release_typed (eh e) (FreeAsync p)" and m: "pend g = add_mset p M"
  shows "\<exists>s'. async_func_free p s = Some s' \<and> advances e g L M (wpend g) (g\<lparr>pend := M\<rparr>) L s'"
proof -
  have "\<not> owned e p" using t kind_owned by auto
  then have "free_inv e (g\<lparr>pend := M\<rparr>) L (set_rc p (ref_count s p - 1) s)"
    using dec_rc [OF inv m, of "{}"] by simp
  moreover have "heap s p \<noteq> None" using pending_alive(1) [OF inv] m by simp
  moreover have "gc_phase (set_rc p n s) = JS_GC_PHASE_REMOVE_CYCLES" for n
    using heap_okD(8) [OF free_invD(4) [OF inv]] by (simp add: set_rc_def)
  ultimately show ?thesis by (auto simp: async_func_free_def Let_def advances_def)
qed

text \<open>A weak reference to an object that is not there any more frees what is left of it; it is none of the objects
  of the collection.\<close>

lemma live_rc:
  assumes "free_inv e g L s" "q \<in> eX e - eD e"
  shows "0 < ref_count s q" "heap s q \<noteq> None"
proof -
  note e = env_okD [OF free_invD(1) [OF assms(1)]] and gh = ghost_okD [OF free_invD(2) [OF assms(1)]]
  show h: "heap s q \<noteq> None" using heap_okD(1) [OF free_invD(4) [OF assms(1)], of q] assms(2) gh(1) by blast
  have "eX e - eD e \<subseteq> eX e - fin g" using gh(1) by blast
  then have "refs_from (eh e) (eX e - eD e) q \<le> refs_from (eh e) (eX e - fin g) q"
    unfolding refs_from_def using e(1) by (intro sum_mono2) auto
  then have "0 < eext e q + held e g q" using e(6) [OF assms(2)] unfolding held_def by simp
  moreover have "q \<in> eX e - unl g" using assms(2) gh(1,2) by blast
  ultimately show "0 < ref_count s q" using counts_okD(1) [OF free_invD(5) [OF assms(1)]] h by simp
qed

lemma free_outside:
  assumes parts: "env_ok e" "ghost_ok e g" "lists_ok e g L s" "heap_ok e g s" "counts_ok e g s" "zombies_ok e g s"
    and p: "p \<notin> eX e" "weakref_count s p = 0" and hu: "husks_ok e g (s\<lparr>heap := (heap s)(p := None)\<rparr>)"
  shows "free_inv e g L (s\<lparr>heap := (heap s)(p := None)\<rparr>)"
proof -
  have "p \<notin> eD e" using p(1) env_okD(2) [OF parts(1)] by blast
  then have "lists_ok e g L (s\<lparr>heap := (heap s)(p := None)\<rparr>)" using parts(3) by (auto simp: lists_ok_def)
  moreover have "heap_ok e g (s\<lparr>heap := (heap s)(p := None)\<rparr>)"
    using fin_sub parts(1,2) p(1) by (intro heap_ok_change [OF parts(4)]) auto
  moreover have "counts_ok e g (s\<lparr>heap := (heap s)(p := None)\<rparr>)"
    using parts(5) p unfolding counts_ok_def by auto
  moreover have "zombies_ok e g (s\<lparr>heap := (heap s)(p := None)\<rparr>)" using parts(6) by (auto simp: zombies_ok_def)
  ultimately show ?thesis using parts(1,2) hu by (simp add: free_inv_def)
qed

lemma weakref_ok:
  assumes inv: "free_inv e g L s" and w: "wpend g = mset (weak_released (FreeWeakref v)) + W"
  shows "\<exists>s'. js_weakref_free v s = Some s' \<and> advances e g L (pend g) W (g\<lparr>wpend := W\<rparr>) L s'"
proof (cases "weak_released (FreeWeakref v)")
  case Nil
  then have "js_weakref_free v s = Some s" by (cases "FreeWeakref v" rule: weak_released.cases) (auto simp: js_weakref_free_def)
  moreover have "wpend g = W" and "g\<lparr>wpend := W\<rparr> = g" using Nil w by auto
  ultimately show ?thesis using advances_refl [OF inv refl, of W] unfolding \<open>g\<lparr>wpend := W\<rparr> = g\<close> by blast
next
  case (Cons p ps)
  then have v: "v = JPtr TagObject p" and w': "wpend g = add_mset p W" using w
    by (cases "FreeWeakref v" rule: weak_released.cases; simp)+
  let ?g = "g\<lparr>wpend := W\<rparr>"
  let ?s = "s\<lparr>weakref_count := (weakref_count s)(p := weakref_count s p - 1)\<rparr>"
  note ct = counts_okD [OF free_invD(5) [OF inv]] and hp = heap_okD [OF free_invD(4) [OF inv]]
  have h: "held e ?g q = held e g q" "weakly_held e ?g q = weakly_held e g q - (if q = p then 1 else 0)" for q
    using w' by (simp_all add: held_def weakly_held_def)
  have pos: "0 < weakly_held e g p" unfolding weakly_held_def using w' by (intro add_nonneg_pos) simp_all
  then have alive: "heap s p \<noteq> None" "1 \<le> weakref_count s p" using ct(3,4) [of p] by auto
  have gh: "ghost_ok e ?g" using free_invD(2) [OF inv] w' unfolding ghost_ok_def h by auto
  have "heap_ok e ?g ?s"
    using fin_sub free_invD(1,2) [OF inv] by (intro heap_ok_change [OF free_invD(4) [OF inv]]) (simp_all add: h)
  moreover have "counts_ok e ?g ?s" using free_invD(5) [OF inv] alive unfolding counts_ok_def h by auto
  moreover have "lists_ok e ?g L ?s" using inv by (simp add: free_inv_def lists_ok_def)
  moreover have "env_ok e" "zombies_ok e ?g ?s" using inv by (simp_all add: free_inv_def zombies_ok_def)
  moreover note gh
  ultimately have parts: "env_ok e" "ghost_ok e ?g" "lists_ok e ?g L ?s" "heap_ok e ?g ?s" "counts_ok e ?g ?s" "zombies_ok e ?g ?s" by blast+
  have hu: "heap s q = None \<or> mark s q = 0 \<and> ref_count s q = 0 \<and> (q = p \<or> 0 < weakly_held e ?g q)" if "q \<notin> eX e" for q
    using free_invD(6) [OF inv] that unfolding husks_ok_def h by auto
  have wp: "weakref_count ?s p = weakly_held e ?g p" using ct(3) [of p] by (simp add: h(2))
  show ?thesis
  proof (cases "weakref_count ?s p = 0 \<and> ref_count ?s p = 0 \<and> mark ?s p = 0")
    case True
    let ?s' = "?s\<lparr>heap := (heap ?s)(p := None)\<rparr>"
    have pX: "p \<notin> eX e" using True live_rc(1) [OF inv, of p] hp(7) [of p] by auto
    then have "p \<notin> eD e" using env_okD(2) [OF free_invD(1) [OF inv]] by blast
    have "husks_ok e ?g ?s'" unfolding husks_ok_def by (auto dest: hu)
    with pX True parts have "free_inv e ?g L ?s'" by (intro free_outside) auto
    then show ?thesis using True alive v by (auto simp: js_weakref_free_def js_free_rt_def advances_def)
  next
    case False
    have "heap ?s q = None \<or> mark ?s q = 0 \<and> ref_count ?s q = 0 \<and> 0 < weakly_held e ?g q" if "q \<notin> eX e" for q
    proof (cases "q = p")
      case True
      have st: "heap ?s p = heap s p" "mark ?s p = mark s p" "ref_count ?s p = ref_count s p" by simp_all
      have "mark s p = 0 \<and> ref_count s p = 0" using hu [OF that] True alive(1) by blast
      moreover have "weakly_held e ?g p \<noteq> 0" using calculation False unfolding wp st by blast
      ultimately show ?thesis using held_nonneg(2) [of e ?g p] unfolding True st by linarith
    next
      case q: False
      then show ?thesis using hu [OF that] by simp
    qed
    then have "husks_ok e ?g ?s" unfolding husks_ok_def by blast
    then have "free_inv e ?g L ?s" using parts by (simp add: free_inv_def)
    then show ?thesis using False alive v by (auto simp: js_weakref_free_def Let_def advances_def)
  qed
qed

fun level0 :: "release \<Rightarrow> bool" where
  "level0 AssertFails = False"
| "level0 (FreeShape p) = False"
| "level0 (FreeVarRef p) = False"
| "level0 (FreeContext p) = False"
| "level0 _ = True"

interpretation free_nothing: releaser release0 level0
proof
  fix e g L s r M W
  assume r: "level0 r" and inv: "free_inv e g L s" and t: "release_typed (eh e) r"
    and m: "pend g = mset (released r) + M" "wpend g = mset (weak_released r) + W"
    and peek: "\<forall>v. r = PeekObject v \<longrightarrow> set (JS_MarkValue v) \<subseteq> set_mset M"
  show "\<exists>g' L' s'. release0 r s = Some s' \<and> advances e g L M W g' L' s'"
  proof (cases r)
    case (FreeValue v)
    then show ?thesis using value_ok [OF inv, of v M] t m by auto
  next
    case (FreeAsync p)
    then show ?thesis using async_ok [OF inv, of p M] t m by auto
  next
    case (FreeWeakref v)
    then show ?thesis using weakref_ok [OF inv, of v W] m by auto
  next
    case (PeekObject v)
    then have "pend g = M" "wpend g = W" using m by auto
    moreover have "JS_IsLiveObject_read v s = Some s"
      using pending_alive(1) [OF inv] peek PeekObject \<open>pend g = M\<close>
      by (cases v rule: JS_MarkValue.cases) (auto simp: JS_IsLiveObject_read_def)
    ultimately show ?thesis using PeekObject advances_refl [OF inv] by auto
  qed (use r in auto)
qed

section \<open>Starting and ending the freeing of an object\<close>

text \<open>The fields of an object that is not yet finalized are those it had at the start, except that a context has
  lost the modules freed meanwhile.\<close>

lemma child_alive:
  assumes inv: "free_inv e g L s" and p: "p \<in> eX e - fin g" and c: "mark_children (eh e) p = Some cs" "q \<in> set cs"
  shows "heap s q \<noteq> None" "q \<in> eX e"
proof -
  note e = env_okD [OF free_invD(1) [OF inv]]
  show q: "q \<in> eX e" using closedD [OF e(3)] p c by blast
  have "0 < refs_from (eh e) (eX e - fin g) q" using refs_from_child [OF _ p c] e(1) by simp
  then have "0 < held e g q" unfolding held_def by simp
  then show "heap s q \<noteq> None" using heap_okD(2) [OF free_invD(4) [OF inv] q] by auto
qed

lemma same_node:
  assumes inv: "free_inv e g L s" and q: "q \<in> eX e" "heap s q \<noteq> None" "eh e q = Some n" "\<not> is_NObject n" "\<not> is_NContext n"
  shows "heap s q = Some n"
proof -
  have "unlink_node (unl g) n = n" using q(5) by (cases n) auto
  then show ?thesis using heap_okD(3) [OF free_invD(4) [OF inv] q(1,2)] q(3,4) by auto
qed

lemma finalizer_cong:
  assumes "\<And>a b c. u = U_func a (Some b) c \<Longrightarrow> h' b = h b"
  shows "finalizer h' u = finalizer h u"
  using assms by (cases u) (auto simp: finalizer_def js_bytecode_function_finalizer_def split: option.splits)

lemma func_marked:
  assumes "mark_object h ob = Some cs" "obj_u ob = U_func a (Some b) c"
  shows "b \<in> set cs"
  using assms by (auto simp: mark_object_def gc_mark_def js_bytecode_function_mark_def split: option.splits gc_node.splits bind_splits)

lemma shape_marked:
  assumes "mark_object h ob = Some cs"
  obtains sh d where "obj_shape ob = Some sh" "h sh = Some (NShape d)" "sh \<in> set cs"
  using assms by (auto simp: mark_object_def split: option.splits gc_node.splits bind_splits)

lemma object_fields_same:
  assumes inv: "free_inv e g L s" and p: "p \<in> eX e - fin g" "eh e p = Some (NObject ob)"
  shows "free_object_fields (heap s) ob = free_object_fields (eh e) ob"
proof -
  note e = env_okD [OF free_invD(1) [OF inv]]
  obtain cs where cs: "mark_children (eh e) p = Some cs" using e(3) p(1) unfolding closed_def by blast
  then have m: "mark_object (eh e) ob = Some cs" using p(2) by (simp add: mark_children_def)
  from shape_marked [OF this] obtain sh d where sh: "obj_shape ob = Some sh" "eh e sh = Some (NShape d)" "sh \<in> set cs" .
  have "heap s sh = Some (NShape d)" using same_node [OF inv] child_alive [OF inv p(1) cs sh(3)] sh(2) by simp
  moreover have "finalizer (heap s) (obj_u ob) = finalizer (eh e) (obj_u ob)"
  proof (rule finalizer_cong)
    fix a b c assume u: "obj_u ob = U_func a (Some b) c"
    have "node_ok (eh e) (NObject ob)" using e(8) p by fastforce
    then obtain bc where "eh e b = Some (NBytecode bc)" using u by (auto simp: node_ok_def payload_ok_def split: option.splits gc_node.splits)
    then show "heap s b = eh e b" using same_node [OF inv] child_alive [OF inv p(1) cs func_marked [OF m u]] by simp
  qed
  ultimately show ?thesis using sh(1,2) by (simp add: free_object_fields_def)
qed

fun is_peek :: "release \<Rightarrow> bool" where
  "is_peek (PeekObject v) = True"
| "is_peek _ = False"

lemma peeks_append: "peeks_ok xs \<Longrightarrow> peeks_ok ys \<Longrightarrow> peeks_ok (xs @ ys)"
  by (induction xs rule: peeks_ok.induct) auto

lemma peeks_none: "list_all (\<lambda>r. \<not> is_peek r) rs \<Longrightarrow> peeks_ok rs"
  by (induction rs rule: peeks_ok.induct) auto

lemma no_peek_property: "free_property a b = Some rs \<Longrightarrow> list_all (\<lambda>r. \<not> is_peek r) rs"
  by (auto simp: free_property_def list_all_iff split: if_splits JSProperty.splits option.splits)

lemma no_peek_properties: "free_properties ss ps = Some rs \<Longrightarrow> list_all (\<lambda>r. \<not> is_peek r) rs"
  by (induction ss ps arbitrary: rs rule: free_properties.induct) (auto split: bind_splits dest: no_peek_property)

lemma peeks_finalizer: "finalizer h u = Some rs \<Longrightarrow> peeks_ok rs"
proof (cases "\<exists>v b. u = U_map_iterator (Some (v, b))")
  case False
  assume "finalizer h u = Some rs"
  with False have "list_all (\<lambda>r. \<not> is_peek r) rs"
    by (cases u) (auto simp: finalizer_def class_finalizer_defs list_all_iff js_bytecode_function_finalizer_def js_map_finalizer_def js_promise_finalizer_def
      promise_reaction_data_free_def free_generator_stack_rt_def js_async_generator_free_def js_finrec_finalizer_def
      split: option.splits gc_node.splits if_splits)
  then show ?thesis by (rule peeks_none)
qed (auto simp: finalizer_def js_map_iterator_finalizer_def)

lemma peeks_children: "free_children h p = Some rs \<Longrightarrow> peeks_ok rs"
proof -
  assume f: "free_children h p = Some rs"
  show ?thesis
  proof (cases "\<exists>ob. h p = Some (NObject ob)")
    case True
    then show ?thesis using f peeks_finalizer peeks_none [OF no_peek_properties]
      by (auto simp: free_children_def free_object_fields_def split: option.splits gc_node.splits bind_splits intro!: peeks_append)
  next
    case False
    then have "list_all (\<lambda>r. \<not> is_peek r) rs" using f
      by (auto simp: free_children_def list_all_iff free_bytecode_fields_def free_var_ref_fields_def free_async_fields_def
        async_func_free_frame_def free_shape_fields_def free_context_fields_def free_module_fields_def
        split: option.splits gc_node.splits if_splits JSExportEntry.splits)
    then show ?thesis by (rule peeks_none)
  qed
qed

lemma concat_map_nil: "concat (map (\<lambda>v. []) xs) = []"
  by (induction xs) auto

lemma context_fields_filtered:
  fixes ctx U
  defines "rs0 \<equiv> free_context_fields ctx"
  defines "rs \<equiv> free_context_fields (ctx\<lparr>loaded_modules := filter (\<lambda>m. m \<notin> U) (loaded_modules ctx)\<rparr>)"
  shows "weak_all rs = weak_all rs0" "set rs \<subseteq> set rs0" "count_list (released_all rs) q \<le> count_list (released_all rs0) q"
    "q \<notin> U \<Longrightarrow> count_list (released_all rs) q = count_list (released_all rs0) q"
proof -
  have w: "weak_released \<circ> FreeValue = (\<lambda>v. [])" "weak_released \<circ> FreeShape = (\<lambda>v. [])" "weak_released \<circ> (FreeValue \<circ> JPtr TagModule) = (\<lambda>v. [])"
    by auto
  show "weak_all rs = weak_all rs0" by (simp add: rs_def rs0_def free_context_fields_def w concat_map_nil)
  show "set rs \<subseteq> set rs0" by (auto simp: rs_def rs0_def free_context_fields_def)
  have f: "count_list (filter (\<lambda>m. m \<notin> U) ms) q \<le> count_list ms q" "q \<notin> U \<Longrightarrow> count_list (filter (\<lambda>m. m \<notin> U) ms) q = count_list ms q" for ms
    by (induction ms) auto
  have c: "concat (map (\<lambda>p. [p]) ms) = ms" for ms :: "gref list" by (induction ms) auto
  show "count_list (released_all rs) q \<le> count_list (released_all rs0) q"
    using f(1) [of "loaded_modules ctx"] by (simp add: rs_def rs0_def context_agrees JS_MarkContext_def c)
  show "q \<notin> U \<Longrightarrow> count_list (released_all rs) q = count_list (released_all rs0) q"
    using f(2) [of "loaded_modules ctx"] by (simp add: rs_def rs0_def context_agrees JS_MarkContext_def c)
qed

lemma fields_now:
  assumes inv: "free_inv e g L s" and p: "p \<in> eX e - fin g"
  shows "\<exists>rs0 rs. free_children (eh e) p = Some rs0 \<and> free_children (heap s) p = Some rs \<and> weak_all rs = weak_all rs0 \<and> set rs \<subseteq> set rs0 \<and>
    (\<forall>q. count_list (released_all rs) q \<le> count_list (released_all rs0) q \<and>
      (q \<notin> unl g \<longrightarrow> count_list (released_all rs) q = count_list (released_all rs0) q))"
proof -
  note e = env_okD [OF free_invD(1) [OF inv]] and h = heap_okD [OF free_invD(4) [OF inv]]
  obtain n rs0 where n: "eh e p = Some n" "free_children (eh e) p = Some rs0" using e(8) [of p] p by blast
  have now: "heap s p = Some (unlink_node (unl g) n)" using h(1,3) [of p] p n(1) by auto
  show ?thesis
  proof (cases n)
    case (NObject ob)
    then show ?thesis using n now object_fields_same [OF inv p, of ob] by (auto simp: free_children_def)
  next
    case (NContext ctx)
    then show ?thesis using n now context_fields_filtered [where ctx = ctx and U = "unl g"] by (auto simp: free_children_def)
  qed (use n now in \<open>auto simp: free_children_def\<close>)
qed

lemma refs_released:
  assumes "env_ok e" "p \<in> eD e" "free_children (eh e) p = Some rs"
  shows "refs (eh e) p q = int (count_list (released_all rs) q)" "AssertFails \<notin> set rs"
proof -
  have "p \<in> eX e" using env_okD(2) [OF assms(1)] assms(2) by blast
  then obtain n where n: "eh e p = Some n" "node_ok (eh e) n" using env_okD(8) [OF assms(1)] by blast
  have "node_idle n" using env_okD(9) [OF assms(1,2)] n(1) by simp
  from children_agree [OF n this] obtain ms where ms: "mark_children (eh e) p = Some ms" "mset (released_all rs) = mset ms" "AssertFails \<notin> set rs"
    unfolding assms(3) by blast
  from ms(3) show "AssertFails \<notin> set rs" .
  have "count_list (released_all rs) q = count_list ms q" using ms(2) by (metis count_mset)
  then show "refs (eh e) p q = int (count_list (released_all rs) q)" using ms(1) by (simp add: refs_def)
qed

lemma weak_typed: "list_all (release_typed h) rs \<Longrightarrow> q \<in> set (weak_all rs) \<Longrightarrow> kind is_NObject h q"
proof (induction rs)
  case (Cons r rs)
  then show ?case by (cases r rule: weak_released.cases) auto
qed simp

lemma unl_not_owned: "ghost_ok e g \<Longrightarrow> q \<in> unl g \<Longrightarrow> \<not> owned e q"
  using ghost_okD(4) [of e g q] by (auto simp: owned_def)

lemma start_final:
  assumes inv: "free_inv e g L s" and p: "p \<in> eD e - fin g" "owned e p \<longrightarrow> held e g p = 0"
  shows "\<exists>rs. free_children (heap s) p = Some rs \<and> list_all (release_typed (eh e)) rs \<and> peeks_ok rs \<and> AssertFails \<notin> set rs \<and>
    free_inv e (g\<lparr>fin := insert p (fin g), prog := insert p (prog g), due := due g - {p},
      pend := mset (released_all rs) + pend g, wpend := mset (weak_all rs) + wpend g\<rparr>) L s"
proof -
  note e = env_okD [OF free_invD(1) [OF inv]] and gh = ghost_okD [OF free_invD(2) [OF inv]]
  have pX: "p \<in> eX e - fin g" using p(1) e(2) by blast
  from fields_now [OF inv pX] obtain rs0 rs where rs: "free_children (eh e) p = Some rs0" "free_children (heap s) p = Some rs"
    "weak_all rs = weak_all rs0" "set rs \<subseteq> set rs0" "count_list (released_all rs) q \<le> count_list (released_all rs0) q"
    "q \<notin> unl g \<Longrightarrow> count_list (released_all rs) q = count_list (released_all rs0) q" for q by blast
  have t: "list_all (release_typed (eh e)) rs" using e(8) [of p] pX rs(1,4) by (auto simp: list_all_iff)
  let ?g = "g\<lparr>fin := insert p (fin g), prog := insert p (prog g), due := due g - {p},
      pend := mset (released_all rs) + pend g, wpend := mset (weak_all rs) + wpend g\<rparr>"
  have pD: "p \<in> eD e" using p(1) by blast
  have ins: "eX e - fin g = insert p (eX e - fin ?g)" "p \<notin> eX e - fin ?g" "finite (eX e - fin ?g)" using pX e(1) by auto
  have "held e ?g q = held e g q - int (count_list (released_all rs0) q) + int (count_list (released_all rs) q)" for q
    using refs_from_insert [OF ins(3,2), of "eh e" q] refs_released(1) [OF free_invD(1) [OF inv] pD rs(1)] ins(1)
    by (simp add: held_def count_mset)
  then have h: "held e ?g q \<le> held e g q" "q \<notin> unl g \<Longrightarrow> held e ?g q = held e g q" for q using rs(5,6) [of q] by simp_all
  have "weak_from (eh e) (eX e - fin g) q = weak_refs (eh e) p q + weak_from (eh e) (eX e - fin ?g) q" for q
    unfolding ins(1) weak_from_def using ins(2,3) by (rule sum.insert [rotated])
  then have w: "weakly_held e ?g q = weakly_held e g q" for q
    using rs(1,3) by (simp add: weakly_held_def weak_refs_def count_mset)
  have "q \<in> eX e" if "q \<in> set (released_all rs)" for q
  proof -
    have "0 < int (count_list (released_all rs0) q)" using that rs(5) [of q] count_list_0_iff [of "released_all rs" q] by linarith
    then show ?thesis using refs_released(1) [OF free_invD(1) [OF inv] pD rs(1), of q] closedD [OF e(3), of p _ q] pX
      by (auto simp: refs_def split: option.splits) (metis count_list_0_iff less_irrefl)
  qed
  moreover have "\<exists>ob. eh e q = Some (NObject ob)" if "q \<in> set (weak_all rs)" for q
    using weak_typed [OF t that] by (auto simp: is_NObject_def elim!: kindE)
  moreover have "held e ?g q = 0" if "q \<in> insert p (fin g)" "owned e q" for q
  proof -
    have "q \<notin> unl g" using that(2) unl_not_owned [OF free_invD(2) [OF inv]] by blast
    then show ?thesis using that gh(7) [of q] p(2) unfolding h(2) [OF \<open>q \<notin> unl g\<close>] by blast
  qed
  ultimately have "ghost_ok e ?g" using free_invD(2) [OF inv] pD unfolding ghost_ok_def by (auto simp del: set_concat)
  moreover have "lists_ok e ?g L s" using free_invD(3) [OF inv] unfolding lists_ok_def by auto
  moreover have "heap_ok e ?g s"
  proof -
    have f: "fin ?g - prog ?g = fin g - prog g" "unl ?g = unl g" using p(1) gh(3) by auto
    have z: "held e ?g q = 0" if "q \<in> eX e" "heap s q = None" for q
      using heap_okD(2) [OF free_invD(4) [OF inv] that] h(1) [of q] held_nonneg(1) [of e ?g q] by linarith
    note d = heap_okD [OF free_invD(4) [OF inv]]
    show ?thesis unfolding heap_ok_def f by (intro conjI ballI allI impI) (erule (1) d z | rule d z | blast intro: d z)+
  qed
  moreover have "counts_ok e ?g s" using free_invD(5) [OF inv] h(2) unfolding counts_ok_def w by auto
  moreover have "husks_ok e ?g s" using free_invD(6) [OF inv] unfolding husks_ok_def w .
  moreover have "fin ?g - prog ?g = fin g - prog g" using p(1) gh(3) by auto
  then have "zombies_ok e ?g s" using free_invD(7) [OF inv] unfolding zombies_ok_def by simp
  moreover have "AssertFails \<notin> set rs" using refs_released(2) [OF free_invD(1) [OF inv] pD rs(1)] rs(4) by blast
  ultimately show ?thesis using rs(2) t peeks_children [OF rs(2)] free_invD(1) [OF inv] unfolding free_inv_def by blast
qed

text \<open>Taking an object off its list.\<close>

lemma take_off:
  assumes "rt_lists h L" "a \<in> heads" "p \<in> set (L a)"
  shows "\<exists>L'. rt_lists (list_del p h) L' \<and> (\<forall>b\<in>heads. set (L' b) = set (L b) - {p})"
proof -
  obtain xs ys where x: "L a = xs @ p # ys" using assms(3) by (meson split_list)
  have d: "distinct (L a)" "\<And>b. b \<in> heads \<Longrightarrow> p \<in> set (L b) \<longleftrightarrow> b = a" using lists_elem [OF assms] by auto
  then have "set ((L(a := xs @ ys)) b) = set (L b) - {p}" if "b \<in> heads" for b using x that by auto
  then show ?thesis using lists_del [OF assms(1,2) x] by blast
qed

lemma weakly_held_object:
  assumes "env_ok e" "ghost_ok e g" "0 < weakly_held e g q"
  shows "kind is_NObject (eh e) q"
proof (cases "q \<in># wpend g")
  case True
  then obtain ob where "eh e q = Some (NObject ob)" using ghost_okD(6) [OF assms(2)] by blast
  then show ?thesis by (simp add: kind_def)
next
  case False
  then have "weak_from (eh e) (eX e - fin g) q \<noteq> 0" using assms(3) by (simp add: weakly_held_def not_in_iff)
  then obtain p where p: "p \<in> eX e" "weak_refs (eh e) p q \<noteq> 0" unfolding weak_from_def by (meson DiffD1 sum.neutral)
  then obtain rs where rs: "free_children (eh e) p = Some rs" "list_all (release_typed (eh e)) rs" using env_okD(8) [OF assms(1)] by blast
  then have "q \<in> set (weak_all rs)" using p(2) by (auto simp: weak_refs_def count_list_0_iff simp del: set_concat)
  then show ?thesis using weak_typed rs(2) by blast
qed

lemma prog_alive:
  assumes inv: "free_inv e g L s" and p: "p \<in> prog g"
  shows "heap s p \<noteq> None" "p \<in> eD e" "p \<in> fin g" "\<exists>a\<in>{tmp_obj_list, gc_zero_ref_count_list}. p \<in> set (L a)"
proof -
  note gh = ghost_okD [OF free_invD(2) [OF inv]]
  show f: "p \<in> fin g" "p \<in> eD e" using p gh(1,3) by auto
  then have "p \<in> eX e" using env_okD(2) [OF free_invD(1) [OF inv]] by blast
  then show h: "heap s p \<noteq> None" using heap_okD(1) [OF free_invD(4) [OF inv], of p] p by blast
  have "set (L tmp_obj_list) \<union> set (L gc_zero_ref_count_list) = {q \<in> eD e. heap s q \<noteq> None}"
    using free_invD(3) [OF inv] by (simp add: lists_ok_def)
  then show "\<exists>a\<in>{tmp_obj_list, gc_zero_ref_count_list}. p \<in> set (L a)" using f(2) h by auto
qed

lemma end_free:
  assumes inv: "free_inv e g L s" and p: "p \<in> prog g" "held e g p = 0" "weakly_held e g p = 0"
  shows "\<exists>L' s'. js_free_rt p (remove_gc_object p s) = Some s' \<and> free_inv e (g\<lparr>prog := prog g - {p}\<rparr>) L' s' \<and>
    set (L' tmp_obj_list) = set (L tmp_obj_list) - {p}"
proof -
  note a = prog_alive [OF inv p(1)]
  have l: "rt_lists (links_of s) L" "set (L gc_obj_list) = eX e - eD e"
     "set (L tmp_obj_list) \<union> set (L gc_zero_ref_count_list) = {q \<in> eD e. heap s q \<noteq> None}"
     "set (L tmp_obj_list) \<inter> fin g \<subseteq> prog g" "\<forall>q\<in>set (L gc_zero_ref_count_list). \<not> owned e q \<longrightarrow> q \<in> fin g"
    using free_invD(3) [OF inv] by (auto simp: lists_ok_def)
  obtain b where "b \<in> heads" "p \<in> set (L b)" using a(4) in_heads by blast
  from take_off [OF l(1) this] obtain L' where L': "rt_lists (list_del p (links_of s)) L'" "\<forall>b\<in>heads. set (L' b) = set (L b) - {p}"
    by blast
  let ?s = "(remove_gc_object p s)\<lparr>heap := (heap s)(p := None)\<rparr>"
  let ?g = "g\<lparr>prog := prog g - {p}\<rparr>"
  have h: "held e ?g q = held e g q" "weakly_held e ?g q = weakly_held e g q" for q by (simp_all add: held_def weakly_held_def)
  have "ghost_ok e ?g" using free_invD(2) [OF inv] unfolding ghost_ok_def h by auto
  moreover have "lists_ok e ?g L' ?s"
  proof -
    have s: "set (L' gc_obj_list) = set (L gc_obj_list) - {p}" "set (L' tmp_obj_list) = set (L tmp_obj_list) - {p}"
      "set (L' gc_zero_ref_count_list) = set (L gc_zero_ref_count_list) - {p}" using L'(2) by simp_all
    have "set (L' gc_obj_list) = eX e - eD e" unfolding s l(2) using a(2) by blast
    moreover have "set (L' tmp_obj_list) \<union> set (L' gc_zero_ref_count_list) = {q \<in> eD e. heap ?s q \<noteq> None}"
    proof -
      have "set (L' tmp_obj_list) \<union> set (L' gc_zero_ref_count_list) = {q \<in> eD e. heap s q \<noteq> None} - {p}" unfolding s using l(3) by blast
      then show ?thesis by auto
    qed
    moreover have "set (L' tmp_obj_list) \<inter> fin ?g \<subseteq> prog ?g" unfolding s using l(4) by auto
    moreover have "\<forall>q\<in>set (L' gc_zero_ref_count_list). \<not> owned e q \<longrightarrow> q \<in> fin ?g" unfolding s using l(5) by auto
    ultimately show ?thesis using L'(1) unfolding lists_ok_def by (simp add: remove_gc_object_def)
  qed
  moreover have "heap_ok e ?g ?s"
  proof -
    note hp = heap_okD [OF free_invD(4) [OF inv]]
    have f: "fin ?g - prog ?g = insert p (fin g - prog g)" using a(3) p(1) by auto
    have pX: "p \<in> eX e" using a(2) env_okD(2) [OF free_invD(1) [OF inv]] by blast
    show ?thesis unfolding heap_ok_def h f
    proof (intro conjI ballI allI impI)
      fix q assume q: "q \<in> eX e" "heap ?s q \<noteq> None"
      then have "q \<noteq> p" by auto
      with hp(3) [OF q(1)] q(2) show "heap ?s q = map_option (unlink_node (unl ?g)) (eh e q) \<or>
        q \<in> insert p (fin g - prog g) \<and> (\<exists>ob. eh e q = Some (NObject ob)) \<and> heap ?s q = Some (NObject freed_object)" by auto
    next
      fix q assume q: "q \<notin> eX e"
      then show "heap ?s q = None \<or> heap ?s q = eh e q" using hp(5) [OF q] by auto
    next
      fix q assume q: "q \<in> eX e" "heap ?s q = None"
      show "q \<in> insert p (fin g - prog g)" using q hp(1) [of q] by (cases "q = p") auto
      show "held e g q = 0" using q hp(2) [of q] p(2) by (cases "q = p") auto
    next
      fix q assume q: "q \<in> insert p (fin g - prog g)" "owned e q"
      show "heap ?s q = None" using q hp(4) [of q] by (cases "q = p") auto
    next
      show "mark ?s q = 0" if "q \<in> eX e - eD e" for q using hp(6) [OF that] by (simp add: remove_gc_object_def)
      show "mark ?s q = 1" if "q \<in> eD e" for q using hp(7) [OF that] by (simp add: remove_gc_object_def)
      show "gc_phase ?s = JS_GC_PHASE_REMOVE_CYCLES" using hp(8) by (simp add: remove_gc_object_def)
    qed
  qed
  moreover have "counts_ok e ?g ?s"
    using free_invD(5) [OF inv] p(3) unfolding counts_ok_def h by (auto simp: remove_gc_object_def)
  moreover have "husks_ok e ?g ?s" using free_invD(6) [OF inv] unfolding husks_ok_def h by (auto simp: remove_gc_object_def)
  moreover have "zombies_ok e ?g ?s" using free_invD(7) [OF inv] unfolding zombies_ok_def by auto
  ultimately have "free_inv e ?g L' ?s" using free_invD(1) [OF inv] by (simp add: free_inv_def)
  then show ?thesis using a(1) L'(2) by (auto simp: js_free_rt_def remove_gc_object_def)
qed

section \<open>Calls that free on the spot\<close>

lemma last_reference:
  assumes inv: "free_inv e g L s" and p: "owned e p" "pend g = add_mset p M" "\<not> 1 < ref_count s p"
  shows "ref_count s p = 1" "held e g p = 1" "p \<in> eD e - fin g"
proof -
  have m: "p \<in># pend g" using p(2) by simp
  note a = pending_alive [OF inv m]
  have "p \<notin> unl g" using p(1) unl_not_owned [OF free_invD(2) [OF inv]] by blast
  then have rc: "ref_count s p = eext e p + held e g p" using counts_okD(1) [OF free_invD(5) [OF inv]] a(1,2) by blast
  have ext: "0 \<le> eext e p" using env_okD(4) [OF free_invD(1) [OF inv] a(2)] .
  have h: "1 \<le> held e g p" using pending_held [OF m, of e] by simp
  show "ref_count s p = 1" "held e g p = 1" using rc ext h p(3) by linarith+
  have "p \<in> eD e"
  proof (rule ccontr)
    assume "p \<notin> eD e"
    then have "p \<in> eX e - eD e" using a(2) by blast
    moreover have "refs_from (eh e) (eX e - eD e) p \<le> refs_from (eh e) (eX e - fin g) p"
      unfolding refs_from_def using env_okD(1) [OF free_invD(1) [OF inv]] ghost_okD(1) [OF free_invD(2) [OF inv]] by (intro sum_mono2) auto
    moreover have "refs_from (eh e) (eX e - fin g) p + 1 \<le> held e g p" using p(2) by (simp add: held_def)
    ultimately show False using env_okD(6) [OF free_invD(1) [OF inv], of p] rc p(3) by linarith
  qed
  then show "p \<in> eD e - fin g" using a(3) p(1) by blast
qed

context releaser
begin

lemma owner_frees:
  assumes inv: "free_inv e g L s" and p: "owned e p" "pend g = add_mset p M" "\<not> 1 < ref_count s p"
    and P: "\<And>rs. free_children (heap s) p = Some rs \<Longrightarrow> list_all P rs"
  shows "ref_count s p = 1 \<and> (\<exists>rs s1 s2 g' L'. free_children (heap s) p = Some rs \<and>
    for_all f rs (set_rc p (ref_count s p - 1) s) = Some s1 \<and> js_free_rt p (remove_gc_object p s1) = Some s2 \<and>
    advances e g L M (wpend g) g' L' s2)"
proof -
  note one = last_reference [OF inv p]
  define g1 where "g1 = g\<lparr>pend := M, due := due g \<union> {p}\<rparr>"
  define s0 where "s0 = set_rc p (ref_count s p - 1) s"
  have i1: "free_inv e g1 L s0" unfolding g1_def s0_def by (rule dec_rc [OF inv p(2)]) simp
  have "held e g1 p = 0" using one(2) p(2) by (simp add: held_def g1_def)
  then have "owned e p \<longrightarrow> held e g1 p = 0" by simp
  moreover have pf: "p \<in> eD e - fin g1" using one(3) by (simp add: g1_def)
  ultimately obtain rs g2 where rs: "free_children (heap s0) p = Some rs" "list_all (release_typed (eh e)) rs" "peeks_ok rs"
    and g2: "free_inv e g2 L s0" "g2 = g1\<lparr>fin := insert p (fin g1), prog := insert p (prog g1), due := due g1 - {p},
      pend := mset (released_all rs) + pend g1, wpend := mset (weak_all rs) + wpend g1\<rparr>"
    using start_final [OF i1] by blast
  have fc: "free_children (heap s) p = Some rs" using rs(1) by (simp add: s0_def)
  have "pend g2 = mset (released_all rs) + M" "wpend g2 = mset (weak_all rs) + wpend g" by (simp_all add: g2(2) g1_def)
  from all_handled [OF g2(1) P [OF fc] rs(2,3) this] obtain g3 L3 s3 where
    3: "for_all f rs s0 = Some s3" "advances e g2 L M (wpend g) g3 L3 s3" by blast
  have i3: "free_inv e g3 L3 s3" and pr: "p \<in> prog g3" "p \<in> fin g3"
    using 3(2) by (auto simp: advances_def g2(2))
  have "held e g3 p = 0" using ghost_okD(7) [OF free_invD(2) [OF i3] pr(2) p(1)] .
  moreover have "weakly_held e g3 p = 0"
    using weakly_held_object [OF free_invD(1,2) [OF i3], of p] kind_owned(1) [of e p] p(1) held_nonneg(2) [of e g3 p] by (metis order_less_le)
  ultimately obtain L4 s4 where 4: "js_free_rt p (remove_gc_object p s3) = Some s4" "free_inv e (g3\<lparr>prog := prog g3 - {p}\<rparr>) L4 s4"
    "set (L4 tmp_obj_list) = set (L3 tmp_obj_list) - {p}" using end_free [OF i3 pr(1)] by blast
  have "p \<notin> prog g" using pf ghost_okD(3) [OF free_invD(2) [OF inv]] by (auto simp: g1_def)
  then have "advances e g L M (wpend g) (g3\<lparr>prog := prog g3 - {p}\<rparr>) L4 s4"
    using 3(2) 4(2,3) p(1) unfolding advances_def by (auto simp: g2(2) g1_def)
  then show ?thesis using one(1) fc 3(1) 4(1) unfolding s0_def by blast
qed

end

lemma owner_keeps:
  assumes inv: "free_inv e g L s" and p: "pend g = add_mset p M" "1 < ref_count s p"
  shows "advances e g L M (wpend g) (g\<lparr>pend := M\<rparr>) L (set_rc p (ref_count s p - 1) s)"
  using dec_rc [OF inv p(1), of "{}"] p(2) by (simp add: advances_def)

lemma node_now:
  assumes inv: "free_inv e g L s" and p: "p \<in># pend g" "eh e p = Some n" "freed_by_owner n"
  shows "heap s p = Some (unlink_node (unl g) n)"
proof -
  have "owned e p" using p(2,3) by (simp add: owned_def)
  then have "p \<notin> fin g" "heap s p \<noteq> None" "p \<in> eX e" using pending_alive [OF inv p(1)] by auto
  then show ?thesis using heap_okD(3) [OF free_invD(4) [OF inv], of p] p(2) by auto
qed

lemma shape_ok:
  assumes inv: "free_inv e g L s" and t: "release_typed (eh e) (FreeShape p)" and m: "pend g = add_mset p M"
  shows "\<exists>g' L' s'. js_free_shape p s = Some s' \<and> advances e g L M (wpend g) g' L' s'"
proof -
  have o: "owned e p" using t kind_owned by simp
  obtain sh where h: "heap s p = Some (NShape sh)" using t node_now [OF inv, of p] m by (auto simp: is_NShape_def elim!: kindE)
  then have fc: "free_children (heap s) p = Some (free_shape_fields sh)" by (simp add: free_children_def)
  moreover have "list_all level0 (free_shape_fields sh)" by (simp add: free_shape_fields_def list_all_iff)
  ultimately show ?thesis
    using free_nothing.owner_frees [OF inv o m] owner_keeps [OF inv m] h
    by (cases "1 < ref_count s p") (auto simp: js_free_shape_def js_free_shape0_def Let_def, blast)
qed

lemma var_ref_ok:
  assumes inv: "free_inv e g L s" and t: "release_typed (eh e) (FreeVarRef (Some p))" and m: "pend g = add_mset p M"
  shows "\<exists>g' L' s'. free_var_ref (Some p) s = Some s' \<and> advances e g L M (wpend g) g' L' s'"
proof -
  have o: "owned e p" using t kind_owned by simp
  obtain v where h: "heap s p = Some (NVarRef v)" using t node_now [OF inv, of p] m by (auto simp: is_NVarRef_def elim!: kindE)
  then have fc: "free_children (heap s) p = Some (free_var_ref_fields v)" by (simp add: free_children_def)
  moreover have "list_all level0 (free_var_ref_fields v)" by (simp add: free_var_ref_fields_def list_all_iff)
  ultimately show ?thesis
    using free_nothing.owner_frees [OF inv o m] owner_keeps [OF inv m] h
    by (cases "1 < ref_count s p") (auto simp: free_var_ref_def Let_def, blast)
qed

fun level1 :: "release \<Rightarrow> bool" where
  "level1 AssertFails = False"
| "level1 (FreeContext p) = False"
| "level1 _ = True"

interpretation free_no_context: releaser release1 level1
proof
  fix e g L s r M W
  assume r: "level1 r" and inv: "free_inv e g L s" and t: "release_typed (eh e) r"
    and m: "pend g = mset (released r) + M" "wpend g = mset (weak_released r) + W"
    and peek: "\<forall>v. r = PeekObject v \<longrightarrow> set (JS_MarkValue v) \<subseteq> set_mset M"
  show "\<exists>g' L' s'. release1 r s = Some s' \<and> advances e g L M W g' L' s'"
  proof (cases "level0 r")
    case True
    then have "release1 r s = release0 r s" by (cases r) auto
    with free_nothing.handles [OF True inv t m peek] show ?thesis by auto
  next
    case False
    with r consider p where "r = FreeShape p" | vr where "r = FreeVarRef vr" by (cases r) auto
    then show ?thesis
    proof cases
      case (1 p)
      then show ?thesis using shape_ok [OF inv, of p M] t m by auto
    next
      case (2 vr)
      then show ?thesis using advances_refl [OF inv] var_ref_ok [OF inv, of _ M] t m by (cases vr) (auto simp: free_var_ref_def)
    qed
  qed
qed

lemma context_ok:
  assumes inv: "free_inv e g L s" and t: "release_typed (eh e) (FreeContext p)" and m: "pend g = add_mset p M"
  shows "\<exists>g' L' s'. JS_FreeContext p s = Some s' \<and> advances e g L M (wpend g) g' L' s'"
proof -
  have o: "owned e p" using t kind_owned by simp
  obtain ctx where h: "heap s p = Some (NContext ctx)" using t node_now [OF inv, of p] m by (auto simp: is_NContext_def elim!: kindE)
  then have fc: "free_children (heap s) p = Some (free_context_fields ctx)" by (simp add: free_children_def)
  moreover have "list_all level1 (free_context_fields ctx)" by (auto simp: free_context_fields_def list_all_iff)
  ultimately show ?thesis
    using free_no_context.owner_frees [OF inv o m] owner_keeps [OF inv m] h
    by (cases "1 < ref_count s p") (auto simp: JS_FreeContext_def Let_def, blast)
qed

interpretation free_any: releaser release "\<lambda>r. r \<noteq> AssertFails"
proof
  fix e g L s r M W
  assume r: "r \<noteq> AssertFails" and inv: "free_inv e g L s" and t: "release_typed (eh e) r"
    and m: "pend g = mset (released r) + M" "wpend g = mset (weak_released r) + W"
    and peek: "\<forall>v. r = PeekObject v \<longrightarrow> set (JS_MarkValue v) \<subseteq> set_mset M"
  show "\<exists>g' L' s'. release r s = Some s' \<and> advances e g L M W g' L' s'"
  proof (cases "level1 r")
    case True
    then have "release r s = release1 r s" by (cases r) auto
    with free_no_context.handles [OF True inv t m peek] show ?thesis by auto
  next
    case False
    then obtain p where "r = FreeContext p" using r by (cases r) auto
    then show ?thesis using context_ok [OF inv, of p M] t m by auto
  qed
qed

section \<open>Freeing one object\<close>

lemma end_keep:
  assumes inv: "free_inv e g L s" and p: "p \<in> prog g" "\<not> owned e p"
    and n: "heap s p = Some n \<and> \<not> kind is_NObject (eh e) p \<or> n = NObject freed_object \<and> (\<exists>ob. eh e p = Some (NObject ob))"
  shows "\<exists>L'. free_inv e (g\<lparr>prog := prog g - {p}\<rparr>) L' (add_zero_tail p (remove_gc_object p (set_node p n s))) \<and>
    set (L' tmp_obj_list) = set (L tmp_obj_list) - {p}"
proof -
  note a = prog_alive [OF inv p(1)]
  have l: "rt_lists (links_of s) L" "set (L gc_obj_list) = eX e - eD e"
     "set (L tmp_obj_list) \<union> set (L gc_zero_ref_count_list) = {q \<in> eD e. heap s q \<noteq> None}"
     "set (L tmp_obj_list) \<inter> fin g \<subseteq> prog g" "\<forall>q\<in>set (L gc_zero_ref_count_list). \<not> owned e q \<longrightarrow> q \<in> fin g"
    using free_invD(3) [OF inv] by (auto simp: lists_ok_def)
  obtain b where b: "b \<in> heads" "p \<in> set (L b)" using a(4) in_heads by blast
  from take_off [OF l(1) this] obtain L1 where L1: "rt_lists (list_del p (links_of s)) L1" "\<forall>b\<in>heads. set (L1 b) = set (L b) - {p}"
    by blast
  define L' where "L' = L1(gc_zero_ref_count_list := L1 gc_zero_ref_count_list @ [p])"
  let ?s = "add_zero_tail p (remove_gc_object p (set_node p n s))"
  let ?g = "g\<lparr>prog := prog g - {p}\<rparr>"
  have st: "heap ?s = (heap s)(p \<mapsto> n)" "mark ?s = mark s" "ref_count ?s = ref_count s" "weakref_count ?s = weakref_count s" "gc_phase ?s = gc_phase s"
    "links_of ?s = list_add_tail p gc_zero_ref_count_list (list_del p (links_of s))"
    by (simp_all add: add_zero_tail_def remove_gc_object_def set_node_def)
  have h: "held e ?g q = held e g q" "weakly_held e ?g q = weakly_held e g q" for q by (simp_all add: held_def weakly_held_def)
  have none: "heap ?s q = None \<longleftrightarrow> heap s q = None" for q using a(1) st(1) by auto
  have "ghost_ok e ?g" using free_invD(2) [OF inv] unfolding ghost_ok_def h by auto
  moreover have "lists_ok e ?g L' ?s"
  proof -
    have s: "set (L' gc_obj_list) = set (L gc_obj_list) - {p}" "set (L' tmp_obj_list) = set (L tmp_obj_list) - {p}"
      "set (L' gc_zero_ref_count_list) = insert p (set (L gc_zero_ref_count_list))" using L1(2) by (auto simp: L'_def)
    have "p \<notin> set (L1 c)" if "c \<in> heads" for c using L1(2) that by blast
    then have "rt_lists (links_of ?s) L'"
      unfolding st L'_def using lists_add(1) [OF L1(1), of gc_zero_ref_count_list p] lists_elem(1,2) [OF l(1) b] by simp
    moreover have "set (L' gc_obj_list) = eX e - eD e" unfolding s l(2) using a(2) by blast
    moreover have "set (L' tmp_obj_list) \<union> set (L' gc_zero_ref_count_list) = {q \<in> eD e. heap ?s q \<noteq> None}"
      unfolding none s using l(3) a(1,2) by blast
    moreover have "set (L' tmp_obj_list) \<inter> fin ?g \<subseteq> prog ?g" unfolding s using l(4) by auto
    moreover have "\<forall>q\<in>set (L' gc_zero_ref_count_list). \<not> owned e q \<longrightarrow> q \<in> fin ?g" unfolding s using l(5) a(3) by auto
    ultimately show ?thesis unfolding lists_ok_def by blast
  qed
  moreover have "heap_ok e ?g ?s"
  proof -
    note hp = heap_okD [OF free_invD(4) [OF inv]]
    have f: "fin ?g - prog ?g = insert p (fin g - prog g)" "unl ?g = unl g" using a(3) p(1) by auto
    have pX: "p \<in> eX e" using a(2) env_okD(2) [OF free_invD(1) [OF inv]] by blast
    show ?thesis unfolding heap_ok_def h f none st(2,5)
    proof (intro conjI ballI allI impI)
      fix q assume q: "q \<in> eX e" "heap s q \<noteq> None"
      show "heap ?s q = map_option (unlink_node (unl g)) (eh e q) \<or>
        q \<in> insert p (fin g - prog g) \<and> (\<exists>ob. eh e q = Some (NObject ob)) \<and> heap ?s q = Some (NObject freed_object)"
        using hp(3) [OF q] n unfolding st(1) by (cases "q = p") auto
    next
      fix q assume q: "q \<notin> eX e"
      then show "heap s q = None \<or> heap ?s q = eh e q" using hp(5) [OF q] pX unfolding st(1) by auto
    next
      fix q assume q: "q \<in> insert p (fin g - prog g)" "owned e q"
      show "heap s q = None" using q hp(4) [of q] p(2) by auto
    qed (use hp(1,2,6,7,8) in blast)+
  qed
  moreover have "counts_ok e ?g ?s" using free_invD(5) [OF inv] unfolding counts_ok_def h none st(3,4) by simp
  moreover have "husks_ok e ?g ?s" using free_invD(6) [OF inv] unfolding husks_ok_def h none st(2,3) .
  moreover have "zombies_ok e ?g ?s" using free_invD(7) [OF inv] n unfolding zombies_ok_def none st(1) by auto
  ultimately have "free_inv e ?g L' ?s" using free_invD(1) [OF inv] by (simp add: free_inv_def)
  moreover have "set (L' tmp_obj_list) = set (L tmp_obj_list) - {p}" using L1(2) by (simp add: L'_def)
  ultimately show ?thesis by blast
qed

lemma unlink_twice: "unlink_node {p} (unlink_node U n) = unlink_node (insert p U) n"
  by (cases n) (auto intro!: JSContext.fold_congs filter_cong)

lemma unlink_ok:
  assumes inv: "free_inv e g L s" and p: "p \<in> fin g" "eh e p = Some (NModule d)"
  shows "free_inv e (g\<lparr>unl := insert p (unl g)\<rparr>) L (unlink_module p s)"
proof -
  let ?g = "g\<lparr>unl := insert p (unl g)\<rparr>" and ?s = "unlink_module p s"
  have h: "held e ?g q = held e g q" "weakly_held e ?g q = weakly_held e g q" for q by (simp_all add: held_def weakly_held_def)
  have st: "heap ?s q = map_option (unlink_node {p}) (heap s q)" "mark ?s = mark s" "ref_count ?s = ref_count s"
    "weakref_count ?s = weakref_count s" "gc_phase ?s = gc_phase s" "links_of ?s = links_of s" for q
    by (simp_all add: unlink_module_def)
  have none: "heap ?s q = None \<longleftrightarrow> heap s q = None" for q by (simp add: st(1))
  have "ghost_ok e ?g" using free_invD(2) [OF inv] p unfolding ghost_ok_def h by auto
  moreover have "lists_ok e ?g L ?s" using free_invD(3) [OF inv] unfolding lists_ok_def none st by simp
  moreover have "heap_ok e ?g ?s"
  proof -
    note hp = heap_okD [OF free_invD(4) [OF inv]]
    have f: "fin ?g - prog ?g = fin g - prog g" "unl ?g = insert p (unl g)" by auto
    show ?thesis unfolding heap_ok_def h f none st(2,5)
    proof (intro conjI ballI allI impI)
      fix q assume q: "q \<in> eX e" "heap s q \<noteq> None"
      from hp(3) [OF q] show "heap ?s q = map_option (unlink_node (insert p (unl g))) (eh e q) \<or>
        q \<in> fin g - prog g \<and> (\<exists>ob. eh e q = Some (NObject ob)) \<and> heap ?s q = Some (NObject freed_object)"
        by (auto simp: st(1) option.map_comp o_def unlink_twice)
    next
      fix q assume q: "q \<notin> eX e"
      show "heap s q = None \<or> heap ?s q = eh e q" using hp(5) [OF q] env_okD(10) [OF free_invD(1) [OF inv] q] by (auto simp: st(1))
    qed (use hp(1,2,4,6,7,8) in blast)+
  qed
  moreover have "counts_ok e ?g ?s" using free_invD(5) [OF inv] unfolding counts_ok_def h none st by auto
  moreover have "husks_ok e ?g ?s" using free_invD(6) [OF inv] unfolding husks_ok_def h none st(2,3) .
  moreover have "zombies_ok e ?g ?s" using free_invD(7) [OF inv] unfolding zombies_ok_def by (auto simp: st(1))
  ultimately show ?thesis using free_invD(1) [OF inv] by (simp add: free_inv_def)
qed

text \<open>Between two objects.\<close>

definition idle :: "gc_ghost \<Rightarrow> bool" where
  "idle g = (prog g = {} \<and> due g = {} \<and> pend g = {#} \<and> wpend g = {#})"

lemma fields_freed:
  assumes inv: "free_inv e g L s" and g: "idle g" and p: "p \<in> set (L tmp_obj_list)" "\<not> owned e p"
  shows "\<exists>rs g2 L2 s2. free_children (heap s) p = Some rs \<and> for_all release rs s = Some s2 \<and> free_inv e g2 L2 s2 \<and> idle (g2\<lparr>prog := {}\<rparr>) \<and>
    prog g2 = {p} \<and> p \<notin> unl g2 \<and> set (L2 tmp_obj_list) \<subseteq> set (L tmp_obj_list)"
proof -
  have "set (L tmp_obj_list) \<union> set (L gc_zero_ref_count_list) = {q \<in> eD e. heap s q \<noteq> None}" "set (L tmp_obj_list) \<inter> fin g \<subseteq> prog g"
    using free_invD(3) [OF inv] by (auto simp: lists_ok_def)
  then have pf: "p \<in> eD e - fin g" using p(1) g by (auto simp: idle_def)
  from start_final [OF inv pf] p(2) obtain rs g1 where rs: "free_children (heap s) p = Some rs" "list_all (release_typed (eh e)) rs" "peeks_ok rs" "AssertFails \<notin> set rs"
    and g1: "free_inv e g1 L s" "g1 = g\<lparr>fin := insert p (fin g), prog := insert p (prog g), due := due g - {p},
      pend := mset (released_all rs) + pend g, wpend := mset (weak_all rs) + wpend g\<rparr>" by blast
  have "pend g1 = mset (released_all rs) + {#}" "wpend g1 = mset (weak_all rs) + {#}" "list_all (\<lambda>r. r \<noteq> AssertFails) rs"
    using g rs(4) by (auto simp: g1(2) idle_def list_all_iff)
  then obtain g2 L2 s2 where 2: "for_all release rs s = Some s2" "advances e g1 L {#} {#} g2 L2 s2"
    using free_any.all_handled [OF g1(1), of rs "{#}" "{#}"] rs(2,3) by blast
  have "p \<notin> unl g" using pf ghost_okD(2) [OF free_invD(2) [OF inv]] by blast
  with 2(2) g have "free_inv e g2 L2 s2 \<and> idle (g2\<lparr>prog := {}\<rparr>) \<and> prog g2 = {p} \<and> p \<notin> unl g2 \<and> set (L2 tmp_obj_list) \<subseteq> set (L tmp_obj_list)"
    by (simp add: advances_def idle_def g1(2))
  then show ?thesis using rs(1) 2(1) by blast
qed

lemma rc_held:
  assumes inv: "free_inv e g L s" and p: "p \<in> prog g" "p \<notin> unl g"
  shows "ref_count s p = held e g p"
proof -
  note a = prog_alive [OF inv p(1)]
  have "p \<in> eX e - unl g" using a(2) p(2) env_okD(2) [OF free_invD(1) [OF inv]] by blast
  then show ?thesis using counts_okD(1) [OF free_invD(5) [OF inv] _ a(1)] env_okD(5) [OF free_invD(1) [OF inv] a(2)] by simp
qed

definition progress :: "gc_env \<Rightarrow> (nat \<Rightarrow> gref list) \<Rightarrow> gref \<Rightarrow> gc_state \<Rightarrow> bool" where
  "progress e L p s' = (\<exists>g' L'. free_inv e g' L' s' \<and> idle g' \<and> set (L' tmp_obj_list) \<subseteq> set (L tmp_obj_list) - {p})"

lemma free_or_keep_ok:
  assumes inv: "free_inv e g L s" and g: "idle (g\<lparr>prog := {}\<rparr>)" "prog g = {p}" and p: "\<not> owned e p" "\<not> kind is_NObject (eh e) p"
    and rc: "ref_count s p = held e g p"
  shows "\<exists>s'. free_or_keep p s = Some s' \<and> progress e L p s'"
proof -
  have ph: "gc_phase (remove_gc_object p s) = JS_GC_PHASE_REMOVE_CYCLES" "ref_count (remove_gc_object p s) = ref_count s"
    using heap_okD(8) [OF free_invD(4) [OF inv]] by (simp_all add: remove_gc_object_def)
  have pr: "p \<in> prog g" "g\<lparr>prog := prog g - {p}\<rparr> = g\<lparr>prog := {}\<rparr>" using g(2) by simp_all
  show ?thesis
  proof (cases "ref_count s p = 0")
    case True
    moreover have "weakly_held e g p = 0"
      using weakly_held_object [OF free_invD(1,2) [OF inv], of p] p(2) held_nonneg(2) [of e g p] by (metis order_less_le)
    ultimately obtain L' s' where "js_free_rt p (remove_gc_object p s) = Some s'" "free_inv e (g\<lparr>prog := {}\<rparr>) L' s'"
      "set (L' tmp_obj_list) = set (L tmp_obj_list) - {p}" using end_free [OF inv pr(1)] rc pr(2) by auto
    then show ?thesis using True ph g(1) unfolding free_or_keep_def Let_def progress_def by auto
  next
    case False
    obtain n where n: "heap s p = Some n" using prog_alive(1) [OF inv pr(1)] by blast
    then have "set_node p n s = s" by (simp add: set_node_def fun_upd_idem)
    with end_keep [OF inv pr(1) p(1), of n] n p(2) pr(2) obtain L' where
      "free_inv e (g\<lparr>prog := {}\<rparr>) L' (add_zero_tail p (remove_gc_object p s))" "set (L' tmp_obj_list) = set (L tmp_obj_list) - {p}" by auto
    then show ?thesis using False ph g(1) unfolding free_or_keep_def Let_def progress_def by auto
  qed
qed

lemma progress_mono: "set (L' tmp_obj_list) \<subseteq> set (L tmp_obj_list) \<Longrightarrow> progress e L' p s' \<Longrightarrow> progress e L p s'"
  unfolding progress_def by blast

lemma free_object_ok:
  assumes inv: "free_inv e g L s" and g: "idle g" and p: "p \<in> set (L tmp_obj_list)" "heap s p = Some (NObject ob)" "kind is_NObject (eh e) p"
  shows "\<exists>s'. free_object p ob s = Some s' \<and> progress e L p s'"
proof -
  have no: "\<not> owned e p" using p(3) kind_owned by simp
  from fields_freed [OF inv g p(1) no] obtain rs g2 L2 s2 where 2: "free_children (heap s) p = Some rs" "for_all release rs s = Some s2"
    "free_inv e g2 L2 s2" "idle (g2\<lparr>prog := {}\<rparr>)" "prog g2 = {p}" "p \<notin> unl g2" "set (L2 tmp_obj_list) \<subseteq> set (L tmp_obj_list)" by blast
  have pr: "p \<in> prog g2" "g2\<lparr>prog := prog g2 - {p}\<rparr> = g2\<lparr>prog := {}\<rparr>" using 2(5) by simp_all
  let ?s = "remove_gc_object p (set_node p (NObject freed_object) s2)"
  have st: "gc_phase ?s = JS_GC_PHASE_REMOVE_CYCLES" "ref_count ?s = ref_count s2" "weakref_count ?s = weakref_count s2"
    using heap_okD(8) [OF free_invD(4) [OF 2(3)]] by (simp_all add: remove_gc_object_def set_node_def)
  have eq: "free_object p ob s = (if ref_count s2 p = 0 \<and> weakref_count s2 p = 0 then js_free_rt p ?s else Some (add_zero_tail p ?s))"
    using 2(1,2) p(2) st by (simp add: free_object_def free_children_def Let_def)
  have fr: "js_free_rt p ?s = js_free_rt p (remove_gc_object p s2)"
    using prog_alive(1) [OF 2(3) pr(1)] by (simp add: js_free_rt_def remove_gc_object_def set_node_def)
  show ?thesis
  proof (cases "ref_count s2 p = 0 \<and> weakref_count s2 p = 0")
    case True
    then have "held e g2 p = 0" "weakly_held e g2 p = 0" using rc_held [OF 2(3) pr(1) 2(6)] counts_okD(3) [OF free_invD(5) [OF 2(3)], of p] by simp_all
    from end_free [OF 2(3) pr(1) this] have "\<exists>s'. js_free_rt p (remove_gc_object p s2) = Some s' \<and> progress e L2 p s'"
      using 2(4) unfolding pr(2) progress_def by auto
    then show ?thesis using progress_mono [where L = L and L' = L2, OF 2(7)] True unfolding eq fr by auto
  next
    case False
    have "\<exists>ob. eh e p = Some (NObject ob)" using p(3) by (auto simp: is_NObject_def elim!: kindE)
    with end_keep [OF 2(3) pr(1) no, of "NObject freed_object"] have "progress e L2 p (add_zero_tail p ?s)"
      using 2(4) unfolding pr(2) progress_def by auto
    then show ?thesis using progress_mono [where L = L and L' = L2, OF 2(7)] False unfolding eq by auto
  qed
qed

lemma module_ok:
  assumes inv: "free_inv e g L s" and g: "idle (g\<lparr>prog := {}\<rparr>)" "prog g = {p}" "p \<notin> unl g" and p: "kind is_NModule (eh e) p"
  shows "\<exists>s'. free_or_keep p (unlink_module p s) = Some s' \<and> progress e L p s'"
proof -
  obtain d where d: "eh e p = Some (NModule d)" using p by (auto simp: is_NModule_def elim!: kindE)
  have pr: "p \<in> prog g" using g(2) by simp
  note un = unlink_ok [OF inv prog_alive(3) [OF inv pr] d]
  have "\<not> owned e p" "\<not> kind is_NObject (eh e) p" using d by (simp_all add: owned_def kind_def)
  moreover have "ref_count (unlink_module p s) p = held e (g\<lparr>unl := insert p (unl g)\<rparr>) p"
    using rc_held [OF inv pr g(3)] by (simp add: held_def unlink_module_def)
  moreover have "idle (g\<lparr>unl := insert p (unl g), prog := {}\<rparr>)" "prog (g\<lparr>unl := insert p (unl g)\<rparr>) = {p}" using g(1,2) by (simp_all add: idle_def)
  ultimately show ?thesis using free_or_keep_ok [OF un, of p] by simp
qed

lemma free_gc_object_ok:
  assumes inv: "free_inv e g L s" and g: "idle g" and p: "p \<in> set (L tmp_obj_list)" "\<not> owned e p"
  shows "\<exists>s'. free_gc_object p s = Some s' \<and> progress e L p s'"
proof -
  have "set (L tmp_obj_list) \<union> set (L gc_zero_ref_count_list) = {q \<in> eD e. heap s q \<noteq> None}" "set (L tmp_obj_list) \<inter> fin g \<subseteq> prog g"
    using free_invD(3) [OF inv] by (auto simp: lists_ok_def)
  then have pf: "p \<in> eD e" "heap s p \<noteq> None" "p \<notin> fin g" using p(1) g by (auto simp: idle_def)
  then have pX: "p \<in> eX e" using env_okD(2) [OF free_invD(1) [OF inv]] by blast
  then obtain n where n: "eh e p = Some n" using env_okD(8) [OF free_invD(1) [OF inv]] by blast
  then have now: "heap s p = Some (unlink_node (unl g) n)" using heap_okD(3) [OF free_invD(4) [OF inv] pX pf(2)] pf(3) by auto
  from fields_freed [OF inv g p] obtain rs g2 L2 s2 where 2: "free_children (heap s) p = Some rs" "for_all release rs s = Some s2"
    "free_inv e g2 L2 s2" "idle (g2\<lparr>prog := {}\<rparr>)" "prog g2 = {p}" "p \<notin> unl g2" "set (L2 tmp_obj_list) \<subseteq> set (L tmp_obj_list)" by blast
  have rc: "ref_count s2 p = held e g2 p" using rc_held [OF 2(3) _ 2(6)] 2(5) by simp
  note keep = free_or_keep_ok [OF 2(3,4,5) p(2) _ rc]
  have kind: "kind is_NObject (eh e) p \<longleftrightarrow> is_NObject n" using n by (simp add: kind_def)
  show ?thesis
  proof (cases n)
    case (NObject ob)
    then show ?thesis using free_object_ok [OF inv g p(1), of ob] now kind by (simp add: free_gc_object_def)
  next
    case (NBytecode b)
    then show ?thesis using keep 2(1,2) now kind progress_mono [where L = L and L' = L2, OF 2(7)]
      by (auto simp: free_gc_object_def free_function_bytecode_def free_children_def)
  next
    case (NAsync a)
    then show ?thesis using keep 2(1,2) now kind progress_mono [where L = L and L' = L2, OF 2(7)]
      by (auto simp: free_gc_object_def async_func_free0_def free_children_def)
  next
    case (NModule m)
    then have "kind is_NModule (eh e) p" using n by (simp add: kind_def)
    then show ?thesis using module_ok [OF 2(3,4,5,6)] 2(1,2) now NModule progress_mono [where L = L and L' = L2, OF 2(7)]
      by (auto simp: free_gc_object_def js_free_module_def_def free_children_def)
  qed (use p(2) n in \<open>simp_all add: owned_def\<close>)
qed

lemma skip_owned:
  assumes inv: "free_inv e g L s" and g: "idle g" and p: "p \<in> set (L tmp_obj_list)" "owned e p"
  shows "progress e L p (move_tail p gc_zero_ref_count_list s)"
proof -
  have l: "rt_lists (links_of s) L" "set (L gc_obj_list) = eX e - eD e"
     "set (L tmp_obj_list) \<union> set (L gc_zero_ref_count_list) = {q \<in> eD e. heap s q \<noteq> None}"
     "set (L tmp_obj_list) \<inter> fin g \<subseteq> prog g" "\<forall>q\<in>set (L gc_zero_ref_count_list). \<not> owned e q \<longrightarrow> q \<in> fin g"
    using free_invD(3) [OF inv] by (auto simp: lists_ok_def)
  obtain xs ys where x: "L tmp_obj_list = xs @ p # ys" using p(1) by (meson split_list)
  have d: "distinct (L tmp_obj_list)" using lists_elem(3) [OF l(1) _ p(1)] by simp
  let ?s = "move_tail p gc_zero_ref_count_list s"
  let ?L = "L(tmp_obj_list := xs @ ys, gc_zero_ref_count_list := L gc_zero_ref_count_list @ [p])"
  have "rt_lists (links_of ?s) ?L" using lists_move [OF l(1) _ _ _ x] by simp
  moreover have s: "set (?L tmp_obj_list) = set (L tmp_obj_list) - {p}" using x d by auto
  moreover have z: "set (?L gc_zero_ref_count_list) = insert p (set (L gc_zero_ref_count_list))" "set (?L gc_obj_list) = set (L gc_obj_list)" by auto
  moreover have "heap ?s = heap s" by (simp add: move_tail_def)
  moreover have "set (?L tmp_obj_list) \<union> set (?L gc_zero_ref_count_list) = set (L tmp_obj_list) \<union> set (L gc_zero_ref_count_list)"
    unfolding s z using p(1) by blast
  moreover have "set (?L tmp_obj_list) \<inter> fin g \<subseteq> prog g" "\<forall>q\<in>set (?L gc_zero_ref_count_list). \<not> owned e q \<longrightarrow> q \<in> fin g"
    unfolding s z using l(4,5) p(2) by blast+
  ultimately have "lists_ok e g ?L ?s" unfolding lists_ok_def using l(2,3) by (intro conjI) (assumption | simp only:)+
  moreover have "heap ?s = heap s" "mark ?s = mark s" "gc_phase ?s = gc_phase s" "ref_count ?s = ref_count s" "weakref_count ?s = weakref_count s"
    by (simp_all add: move_tail_def)
  then have "heap_ok e g ?s = heap_ok e g s" "counts_ok e g ?s = counts_ok e g s" "husks_ok e g ?s = husks_ok e g s"
      "zombies_ok e g ?s = zombies_ok e g s" by (simp_all only: heap_ok_def counts_ok_def husks_ok_def zombies_ok_def)
  ultimately have "free_inv e g ?L ?s" using inv by (simp add: free_inv_def)
  then show ?thesis using g s unfolding progress_def by (intro exI [of _ g] exI [of _ ?L]) auto
qed

text \<open>The first loop of \<open>gc_free_cycles\<close> empties the list.\<close>

lemma free_cycles_loop_ok:
  assumes "free_inv e g L s" "idle g"
  shows "\<exists>s' g' L'. free_cycles_loop s = Some s' \<and> free_inv e g' L' s' \<and> idle g' \<and> L' tmp_obj_list = []"
  using assms
proof (induction "card (set (L tmp_obj_list))" arbitrary: g L s rule: less_induct)
  case less
  have l: "rt_lists (links_of s) L" "set (L tmp_obj_list) \<union> set (L gc_zero_ref_count_list) = {q \<in> eD e. heap s q \<noteq> None}"
    using free_invD(3) [OF less.prems(1)] by (auto simp: lists_ok_def)
  have nx: "nxt (links_of s) tmp_obj_list = hd (L tmp_obj_list @ [tmp_obj_list])" by (rule lists_next(2) [OF l(1)]) simp
  show ?case
  proof (cases "L tmp_obj_list")
    case Nil
    then have "free_cycles_loop s = Some s" using nx by (subst free_cycles_loop.simps) simp
    then show ?thesis using less.prems Nil by blast
  next
    case (Cons p ps)
    then have p: "p \<in> set (L tmp_obj_list)" "nxt (links_of s) tmp_obj_list = p" using nx by auto
    have ne: "p \<noteq> tmp_obj_list" using lists_elem(2) [OF l(1) _ p(1)] by auto
    have pD: "p \<in> eD e" "heap s p \<noteq> None" using l(2) p(1) by auto
    have step: ?thesis if eq: "free_cycles_loop s = free_cycles_loop s1" and pr: "progress e L p s1" for s1
    proof -
      obtain g1 L1 where 1: "free_inv e g1 L1 s1" "idle g1" "set (L1 tmp_obj_list) \<subseteq> set (L tmp_obj_list) - {p}"
        using pr unfolding progress_def by blast
      then have "card (set (L1 tmp_obj_list)) < card (set (L tmp_obj_list))" using p(1) by (intro psubset_card_mono) auto
      from less.hyps [OF this 1(1,2)] show ?thesis using eq by simp
    qed
    obtain n where n: "heap s p = Some n" "freed_by_owner n \<longleftrightarrow> owned e p"
    proof -
      have "p \<in> eX e" using pD(1) env_okD(2) [OF free_invD(1) [OF less.prems(1)]] by blast
      then obtain m where m: "eh e p = Some m" using env_okD(8) [OF free_invD(1) [OF less.prems(1)]] by blast
      have u: "freed_by_owner (unlink_node U m) = freed_by_owner m" for U by (cases m) auto
      show thesis using that heap_okD(3) [OF free_invD(4) [OF less.prems(1)] \<open>p \<in> eX e\<close> pD(2)] m u by (auto simp: owned_def)
    qed
    show ?thesis
    proof (cases "owned e p")
      case True
      then show ?thesis using step skip_owned [OF less.prems p(1)] n p(2) ne by (subst (asm) free_cycles_loop.simps) simp
    next
      case False
      then obtain s1 where "free_gc_object p s = Some s1" "progress e L p s1" using free_gc_object_ok [OF less.prems p(1)] by blast
      then show ?thesis using step n p(2) ne False by (subst (asm) free_cycles_loop.simps) simp
    qed
  qed
qed

end
