(* ===== verification/GcRun.thy ===== *)
theory GcRun
  imports GcFree
begin

text \<open>
  The end of a collection: once the first loop of \<open>gc_free_cycles\<close> is through, no shape, variable reference or
  context of the garbage is left, the second loop frees what was kept, and the runtime is again in the
  state in which a collection may start.
\<close>

section \<open>Nothing of the garbage is left over\<close>

lemma value_not_owned: "value_typed (eh e) v \<Longrightarrow> q \<in> set (JS_MarkValue v) \<Longrightarrow> \<not> owned e q"
  using kind_owned(1-3) [of e q] by (cases v rule: JS_MarkValue.cases) auto

lemma owned_child:
  assumes e: "env_ok e" and p: "p \<in> eD e" "owned e p" and q: "refs (eh e) p q \<noteq> 0" "owned e q"
  shows "kind is_NContext (eh e) p" "kind is_NShape (eh e) q"
proof -
  have "p \<in> eX e" using p(1) env_okD(2) [OF e] by blast
  then obtain n rs where n: "eh e p = Some n" "free_children (eh e) p = Some rs" "list_all (release_typed (eh e)) rs"
    using env_okD(8) [OF e] by blast
  have "count_list (released_all rs) q \<noteq> 0" using refs_released(1) [OF e p(1) n(2), of q] q(1) by linarith
  then have "q \<in> set (released_all rs)" unfolding count_list_0_iff by blast
  then obtain r where r: "r \<in> set rs" "q \<in> set (released r)" by auto
  have t: "release_typed (eh e) r" using r(1) n(3) by (simp add: list_all_iff)
  have "\<not> (\<exists>v. r = FreeValue v)" using r(2) t q(2) value_not_owned by auto
  moreover have "\<not> (\<exists>a. r = FreeAsync a)" using r(2) t q(2) kind_owned by auto
  moreover have "freed_by_owner n" using p(2) n(1) by (simp add: owned_def)
  ultimately have "\<exists>sh. r = FreeShape sh" "is_NContext n" using n(1,2) r(1)
    by (cases n; auto simp: free_children_def free_shape_fields_def free_var_ref_fields_def free_context_fields_def split: if_splits)+
  then show "kind is_NContext (eh e) p" "kind is_NShape (eh e) q" using t r(2) n(1) by (auto simp: kind_def)
qed

lemma all_final:
  assumes inv: "free_inv e g L s" and g: "idle g" and L: "L tmp_obj_list = []"
  shows "fin g = eD e"
proof -
  note e = env_okD [OF free_invD(1) [OF inv]]
  have other: "q \<in> fin g" if "q \<in> eD e" "\<not> owned e q" for q
  proof (cases "heap s q = None")
    case True
    then show ?thesis using that(1) e(2) heap_okD(1) [OF free_invD(4) [OF inv], of q] by blast
  next
    case False
    then show ?thesis using that free_invD(3) [OF inv] L by (auto simp: lists_ok_def)
  qed
  have holder: "\<exists>p\<in>eD e - fin g. owned e p \<and> refs (eh e) p q \<noteq> 0" if q: "q \<in> eD e - fin g" "owned e q" for q
  proof -
    have "q \<notin> unl g" using q(2) unl_not_owned [OF free_invD(2) [OF inv]] by blast
    moreover have "heap s q \<noteq> None" "q \<in> eX e" using q(1) e(2) heap_okD(1) [OF free_invD(4) [OF inv], of q] by blast+
    ultimately have "ref_count s q = eext e q + held e g q" using counts_okD(1) [OF free_invD(5) [OF inv]] by blast
    moreover have "0 < ref_count s q" using counts_okD(2) [OF free_invD(5) [OF inv], of q] q g by (simp add: idle_def)
    moreover have "eext e q = 0" using e(5) q(1) by blast
    ultimately have "refs_from (eh e) (eX e - fin g) q \<noteq> 0" using g by (simp add: held_def idle_def)
    then obtain p where p: "p \<in> eX e - fin g" "refs (eh e) p q \<noteq> 0" unfolding refs_from_def by (meson sum.neutral)
    have "p \<in> eD e"
    proof (rule ccontr)
      assume "p \<notin> eD e"
      then have "refs (eh e) p q \<le> refs_from (eh e) (eX e - eD e) q"
        unfolding refs_from_def using p(1) e(1) by (intro member_le_sum) auto
      then show False using e(7) [of q] q(1) p(2) refs_nonneg [of "eh e" p q] by simp
    qed
    then show ?thesis using p other by blast
  qed
  have "q \<in> fin g" if q: "q \<in> eD e" "owned e q" for q
  proof (rule ccontr)
    assume "q \<notin> fin g"
    then obtain p where p: "p \<in> eD e - fin g" "owned e p" "refs (eh e) p q \<noteq> 0" using holder [of q] q by blast
    then obtain p' where p': "p' \<in> eD e - fin g" "owned e p'" "refs (eh e) p' p \<noteq> 0" using holder by blast
    have "kind is_NContext (eh e) p" using owned_child(1) [OF free_invD(1) [OF inv]] p q by blast
    moreover have "kind is_NShape (eh e) p" using owned_child(2) [OF free_invD(1) [OF inv]] p p' by blast
    ultimately show False by (auto simp: is_NContext_def is_NShape_def elim!: kindE)
  qed
  then show ?thesis using other ghost_okD(1) [OF free_invD(2) [OF inv]] by blast
qed

text \<open>The objects kept are as they were.\<close>

lemma live_same:
  assumes inv: "free_inv e g L s" and q: "q \<in> eX e - eD e"
  shows "heap s q = eh e q"
proof -
  note e = env_okD [OF free_invD(1) [OF inv]] and gh = ghost_okD [OF free_invD(2) [OF inv]]
  obtain n where n: "eh e q = Some n" using e(8) [of q] q by blast
  have "heap s q = Some (unlink_node (unl g) n)"
    using heap_okD(3) [OF free_invD(4) [OF inv], of q] live_rc(2) [OF inv q] q gh(1) n by auto
  moreover have "unlink_node (unl g) n = n"
  proof (cases n)
    case (NContext ctx)
    have "m \<notin> unl g" if "m \<in> set (loaded_modules ctx)" for m
    proof
      assume "m \<in> unl g"
      then have "refs_from (eh e) (eX e - eD e) m = 0" using e(7) gh(1,2) by blast
      moreover have "mark_children (eh e) q = Some (JS_MarkContext ctx)" using n NContext by (simp add: mark_children_def)
      moreover have "m \<in> set (JS_MarkContext ctx)" using that by (simp add: JS_MarkContext_def)
      ultimately show False using refs_from_child [of "eX e - eD e" q "eh e" _ m] q e(1) by fastforce
    qed
    then have "filter (\<lambda>m. m \<notin> unl g) (loaded_modules ctx) = loaded_modules ctx" by (simp add: filter_id_conv)
    then show ?thesis using NContext by simp
  qed simp_all
  ultimately show ?thesis using n by simp
qed

section \<open>The second loop\<close>

definition kept_weakly :: "gc_state \<Rightarrow> gref \<Rightarrow> bool" where
  "kept_weakly s q = (kind is_NObject (heap s) q \<and> weakref_count s q \<noteq> 0)"

lemma kept_alive: "kept_weakly s q \<Longrightarrow> heap s q \<noteq> None"
  by (auto simp: kept_weakly_def kind_def split: option.splits)

lemma free_zero_loop_ok:
  assumes "rt_lists (links_of s) L" "L gc_zero_ref_count_list = P @ Q" "\<And>q. q \<in> set Q \<Longrightarrow> \<exists>n. heap s q = Some n \<and> \<not> freed_by_owner n"
  shows "free_zero_loop (hd (Q @ [gc_zero_ref_count_list])) s =
    Some (s\<lparr>heap := (\<lambda>q. if q \<in> set Q \<and> \<not> kept_weakly s q then None else heap s q),
      mark := (\<lambda>q. if q \<in> set Q \<and> kept_weakly s q then 0 else mark s q)\<rparr>)"
  using assms
proof (induction Q arbitrary: P s)
  case Nil
  then show ?case by (subst free_zero_loop.simps) simp
next
  case (Cons p Q)
  have p: "p \<noteq> gc_zero_ref_count_list" "distinct (P @ p # Q)"
    using lists_elem(2) [OF Cons.prems(1), where a = gc_zero_ref_count_list and p = p]
      lists_elem(3) [OF Cons.prems(1), where a = gc_zero_ref_count_list and p = p] Cons.prems(2) by auto
  have nx: "nxt (links_of s) p = hd (Q @ [gc_zero_ref_count_list])" using lists_next(1) [OF Cons.prems(1) _ Cons.prems(2)] by simp
  obtain n where n: "heap s p = Some n" "\<not> freed_by_owner n" using Cons.prems(3) [of p] by auto
  have k: "(case n of NObject _ \<Rightarrow> weakref_count s p \<noteq> 0 | _ \<Rightarrow> False) \<longleftrightarrow> kept_weakly s p"
    using n(1) by (auto simp: kept_weakly_def kind_def is_NObject_def split: gc_node.splits)
  define s1 where "s1 = (if kept_weakly s p then set_mark p 0 s else s\<lparr>heap := (heap s)(p := None)\<rparr>)"
  have "free_zero_loop p s = free_zero_loop (hd (Q @ [gc_zero_ref_count_list])) s1"
    using p(1) nx n k by (subst free_zero_loop.simps) (auto simp: s1_def js_free_rt_def Let_def)
  moreover have s1: "links_of s1 = links_of s" "weakref_count s1 = weakref_count s" "\<And>q. q \<noteq> p \<Longrightarrow> heap s1 q = heap s q"
    by (auto simp: s1_def set_mark_def)
  moreover have kq: "kept_weakly s1 q = kept_weakly s q" if "q \<in> set Q" for q
  proof -
    have "heap s1 q = heap s q" using that p(2) by (intro s1(3)) auto
    then show ?thesis using s1(2) by (simp add: kept_weakly_def kind_def)
  qed
  moreover have "\<exists>n. heap s1 q = Some n \<and> \<not> freed_by_owner n" if "q \<in> set Q" for q
  proof -
    have "heap s1 q = heap s q" using that p(2) by (intro s1(3)) auto
    then show ?thesis using that Cons.prems(3) [of q] by simp
  qed
  ultimately have "free_zero_loop p s = Some (s1\<lparr>heap := (\<lambda>q. if q \<in> set Q \<and> \<not> kept_weakly s1 q then None else heap s1 q),
      mark := (\<lambda>q. if q \<in> set Q \<and> kept_weakly s1 q then 0 else mark s1 q)\<rparr>)"
    using Cons.IH [of s1 "P @ [p]"] Cons.prems(1,2) by simp
  also have "(\<lambda>q. if q \<in> set Q \<and> \<not> kept_weakly s1 q then None else heap s1 q) =
      (\<lambda>q. if q \<in> set (p # Q) \<and> \<not> kept_weakly s q then None else heap s q)"
  proof
    fix q show "(if q \<in> set Q \<and> \<not> kept_weakly s1 q then None else heap s1 q) =
      (if q \<in> set (p # Q) \<and> \<not> kept_weakly s q then None else heap s q)"
      using kq [of q] p(2) by (cases "q = p") (auto simp: s1_def set_mark_def)
  qed
  also have "(\<lambda>q. if q \<in> set Q \<and> kept_weakly s1 q then 0 else mark s1 q) =
      (\<lambda>q. if q \<in> set (p # Q) \<and> kept_weakly s q then 0 else mark s q)"
  proof
    fix q show "(if q \<in> set Q \<and> kept_weakly s1 q then 0 else mark s1 q) =
      (if q \<in> set (p # Q) \<and> kept_weakly s q then 0 else mark s q)"
      using kq [of q] p(2) by (cases "q = p") (auto simp: s1_def set_mark_def)
  qed
  also have "s1\<lparr>heap := h, mark := m\<rparr> = s\<lparr>heap := h, mark := m\<rparr>" for h m by (simp add: s1_def set_mark_def)
  finally show ?case by simp
qed

lemma lists_init:
  assumes "rt_lists h L" "a \<in> heads"
  shows "rt_lists (init_list_head a h) (L(a := []))"
proof (rule rt_lists_update [OF assms])
  fix b assume b: "b \<in> heads" "b \<noteq> a"
  have "a \<notin> set (L b)" using rt_listsD(2) [OF assms(1) b(1)] assms(2) by blast
  then have "nxt (init_list_head a h) y = nxt h y \<and> prv (init_list_head a h) y = prv h y" if "y \<in> set (b # L b)" for y
    using that b(2) by (auto simp: init_list_head_def)
  then show "is_list (init_list_head a h) b (L b)" using list_frame [OF rt_listsD(1) [OF assms(1) b(1)]] by blast
next
  show "is_list (init_list_head a h) a []" using assms(2) by (auto simp: is_list_def init_list_head_def heads_def head_defs)
qed simp

section \<open>Objects and what they see of the heap\<close>

lemma object_local:
  assumes m: "mark_object h ob = Some cs" and same: "\<And>q. q \<in> set cs \<Longrightarrow> h' q = h q"
  shows "mark_object h' ob = Some cs" "free_object_fields h' ob = free_object_fields h ob" "node_ok h' (NObject ob) = node_ok h (NObject ob)"
proof -
  obtain sh d where sh: "obj_shape ob = Some sh" "h sh = Some (NShape d)" "sh \<in> set cs" using shape_marked [OF m] .
  have u: "h' b = h b" if "obj_u ob = U_func x (Some b) y" for x b y using same func_marked [OF m that] by blast
  have "gc_mark h' (obj_u ob) = gc_mark h (obj_u ob)" using u
    by (cases "obj_u ob") (auto simp: gc_mark_def js_bytecode_function_mark_def split: option.splits)
  moreover have "finalizer h' (obj_u ob) = finalizer h (obj_u ob)" using finalizer_cong u by blast
  moreover have "payload_ok h' (obj_u ob) = payload_ok h (obj_u ob)" using u
    by (cases "obj_u ob") (auto simp: payload_ok_def split: option.splits)
  moreover have "h' sh = Some (NShape d)" using same sh(2,3) by simp
  ultimately show "mark_object h' ob = Some cs" "free_object_fields h' ob = free_object_fields h ob" "node_ok h' (NObject ob) = node_ok h (NObject ob)"
    using m sh(1,2) by (simp_all add: mark_object_def free_object_fields_def node_ok_def)
qed

lemma node_local:
  assumes m: "mark_children h p = Some cs" and same: "h' p = h p" "\<And>q. q \<in> set cs \<Longrightarrow> h' q = h q"
  shows "mark_children h' p = Some cs" "free_children h' p = free_children h p" "node_ok h' (the (h p)) = node_ok h (the (h p))"
proof -
  obtain n where n: "h p = Some n" using m by (auto simp: mark_children_def split: option.splits)
  have "mark_children h' p = Some cs \<and> free_children h' p = free_children h p \<and> node_ok h' n = node_ok h n"
  proof (cases n)
    case (NObject ob)
    then show ?thesis using object_local [of h ob cs h'] m n same by (simp add: mark_children_def free_children_def)
  qed (use m n same(1) in \<open>simp_all add: mark_children_def free_children_def node_ok_def\<close>)
  then show "mark_children h' p = Some cs" "free_children h' p = free_children h p" "node_ok h' (the (h p)) = node_ok h (the (h p))"
    using n by simp_all
qed

lemma released_marked:
  assumes "h p = Some n" "node_ok h n" "mark_children h p = Some cs" "free_children h p = Some rs"
  shows "set (released_all rs) \<subseteq> set cs"
proof (cases "node_idle n")
  case True
  from children_agree [OF assms(1,2) True] have "mset (released_all rs) = mset cs" using assms(3,4) by auto
  then show ?thesis by (metis set_mset_mset subset_refl)
next
  case False
  then show ?thesis using assms(1,3,4)
    by (cases n) (auto simp: node_idle_def mark_children_def free_children_def mark_async_def free_async_fields_def async_func_free_frame_def)
qed

lemma typed_same:
  assumes "release_typed h r" "\<And>q. q \<in> set (released r) \<Longrightarrow> h' q = h q" "\<And>q. q \<in> set (weak_released r) \<Longrightarrow> kind is_NObject h' q"
  shows "release_typed h' r"
proof (cases r)
  case (FreeValue v)
  then show ?thesis using assms(1,2) by (cases v rule: JS_MarkValue.cases) (simp_all add: kind_def)
next
  case (FreeWeakref v)
  then show ?thesis using assms(3) by (cases r rule: weak_released.cases) (auto split: jsval.splits)
qed (use assms(1,2) in \<open>auto simp: kind_def split: option.splits\<close>)

section \<open>A whole collection\<close>

text \<open>
  The runtime when a collection may start. In addition to \<^const>\<open>gc_inv\<close>: no object on the list has the count 0,
  the fields are as the rest of the engine leaves them, an async function that nothing reaches is not
  running, the counts of weak references are right, and all that is left of other objects are structures
  kept for weak references.
\<close>

definition gc_ready :: "gc_state \<Rightarrow> gref list \<Rightarrow> (gref \<Rightarrow> int) \<Rightarrow> bool" where
  "gc_ready s G ext =
     (gc_inv s G ext \<and> gc_phase s = JS_GC_PHASE_NONE \<and> (\<forall>p\<in>set G. 0 < ref_count s p) \<and>
      (\<forall>p\<in>set G. node_ok (heap s) (the (heap s p)) \<and>
        (\<exists>rs. free_children (heap s) p = Some rs \<and> list_all (release_typed (heap s)) rs)) \<and>
      (\<forall>p\<in>set G. reachable (heap s) (roots G ext) p \<or> node_idle (the (heap s p))) \<and>
      (\<forall>q. weakref_count s q = weak_from (heap s) (set G) q) \<and> (\<forall>q. heap s q = None \<longrightarrow> weakref_count s q = 0) \<and>
      (\<forall>q. q \<notin> set G \<longrightarrow> heap s q = None \<or> heap s q = Some (NObject freed_object) \<and> ref_count s q = 0 \<and> 0 < weakref_count s q))"

lemma gc_readyD:
  assumes "gc_ready s G ext"
  shows "gc_inv s G ext" "gc_phase s = JS_GC_PHASE_NONE" "p \<in> set G \<Longrightarrow> 0 < ref_count s p"
    "p \<in> set G \<Longrightarrow> node_ok (heap s) (the (heap s p))"
    "p \<in> set G \<Longrightarrow> \<exists>rs. free_children (heap s) p = Some rs \<and> list_all (release_typed (heap s)) rs"
    "p \<in> set G \<Longrightarrow> reachable (heap s) (roots G ext) p \<or> node_idle (the (heap s p))"
    "weakref_count s q = weak_from (heap s) (set G) q" "heap s q = None \<Longrightarrow> weakref_count s q = 0"
    "q \<notin> set G \<Longrightarrow> heap s q = None \<or> heap s q = Some (NObject freed_object) \<and> ref_count s q = 0 \<and> 0 < weakref_count s q"
  using assms unfolding gc_ready_def by blast+

lemma gc_invD:
  assumes "gc_inv s G ext"
  shows "closed (heap s) (set G)" "q \<in> set G \<Longrightarrow> mark s q = 0" "q \<in> set G \<Longrightarrow> 0 \<le> ext q"
    "q \<in> set G \<Longrightarrow> ref_count s q = ext q + refs_from (heap s) (set G) q" "rest_unmarked s (set G)"
  using assms unfolding gc_inv_def by blast+

definition live_of :: "gc_state \<Rightarrow> gref list \<Rightarrow> (gref \<Rightarrow> int) \<Rightarrow> gref set" where
  "live_of s G ext = {q \<in> set G. reachable (heap s) (roots G ext) q}"

definition start_env :: "gc_state \<Rightarrow> gref list \<Rightarrow> (gref \<Rightarrow> int) \<Rightarrow> gc_env" where
  "start_env s G ext = \<lparr>eh = heap s, eX = set G, eD = set G - live_of s G ext, eext = ext\<rparr>"

definition start_ghost :: gc_ghost where
  "start_ghost = \<lparr>fin = {}, unl = {}, prog = {}, due = {}, pend = {#}, wpend = {#}\<rparr>"

lemma live_held:
  assumes "gc_inv s G ext" "q \<in> live_of s G ext"
  shows "0 < ext q + refs_from (heap s) (live_of s G ext) q"
proof -
  note i = gc_invD [OF assms(1)]
  have "reachable (heap s) (roots G ext) q" "q \<in> set G" using assms(2) by (auto simp: live_of_def)
  then show ?thesis
  proof cases
    case root
    then have "0 < ext q" by (simp add: roots_def)
    then show ?thesis using refs_from_nonneg [of "heap s" "live_of s G ext" q] by linarith
  next
    case (step p cs)
    have "p \<in> set G" if "reachable (heap s) (roots G ext) p" for p
      using that by induction (use closedD [OF i(1)] in \<open>auto simp: roots_def\<close>)
    then have "p \<in> live_of s G ext" using step(1) by (simp add: live_of_def)
    moreover have "finite (live_of s G ext)" by (simp add: live_of_def)
    ultimately have "0 < refs_from (heap s) (live_of s G ext) q" using refs_from_child [OF _ _ step(2,3)] by blast
    then show ?thesis using i(3) [of q] \<open>q \<in> set G\<close> by simp
  qed
qed

lemma dead_unheld:
  assumes "gc_inv s G ext" "q \<in> set G - live_of s G ext"
  shows "ext q = 0" "refs_from (heap s) (live_of s G ext) q = 0"
proof -
  note i = gc_invD [OF assms(1)]
  have nr: "\<not> reachable (heap s) (roots G ext) q" "q \<in> set G" using assms(2) by (auto simp: live_of_def)
  then have "q \<notin> roots G ext" using reachable.root by blast
  then show "ext q = 0" using nr(2) i(3) [of q] by (auto simp: roots_def)
  have "refs (heap s) p q = 0" if p: "p \<in> live_of s G ext" for p
  proof -
    obtain cs where cs: "mark_children (heap s) p = Some cs" using i(1) p unfolding closed_def live_of_def by blast
    moreover have "reachable (heap s) (roots G ext) p" using p by (simp add: live_of_def)
    ultimately have "q \<notin> set cs" using nr(1) reachable.step by blast
    then show ?thesis using cs by (simp add: refs_def count_list_0_iff)
  qed
  then show "refs_from (heap s) (live_of s G ext) q = 0" unfolding refs_from_def by (intro sum.neutral ballI)
qed

lemma start_env_ok:
  assumes r: "gc_ready s G ext"
  shows "env_ok (start_env s G ext)"
proof -
  note d = gc_readyD [OF r] and i = gc_invD [OF gc_readyD(1) [OF r]]
  have X: "set G - (set G - live_of s G ext) = live_of s G ext" by (auto simp: live_of_def)
  have "\<exists>n rs. heap s p = Some n \<and> node_ok (heap s) n \<and> free_children (heap s) p = Some rs \<and> list_all (release_typed (heap s)) rs"
    if p: "p \<in> set G" for p
  proof -
    obtain n where "heap s p = Some n" using i(1) p unfolding closed_def by blast
    then show ?thesis using d(4,5) [OF p] by auto
  qed
  moreover have "node_idle (the (heap s p))" if "p \<in> set G - live_of s G ext" for p
    using d(6) [of p] that by (simp add: live_of_def)
  moreover have "heap s q = None \<or> heap s q = Some (NObject freed_object)" if "q \<notin> set G" for q using d(9) [OF that] by blast
  ultimately show ?thesis
    unfolding env_ok_def start_env_def gc_env.simps X
    using i(1,3) live_held [OF d(1)] dead_unheld [OF d(1)] by (intro conjI ballI allI impI) (assumption | blast)+
qed

lemma unlink_none: "unlink_node {} = (\<lambda>n. n)"
proof
  show "unlink_node {} n = n" for n by (cases n) simp_all
qed

lemma start_inv:
  assumes r: "gc_ready s G ext" and l: "rt_lists (links_of s2) (gc_lists live dead [])" "set live = live_of s G ext" "set dead = set G - set live"
    and rc: "ref_count s2 = ref_count s" and m: "\<forall>q\<in>set live. mark s2 q = 0" "\<forall>q\<in>set dead. mark s2 q = 1" "rest_unmarked s2 (set G)"
    and h: "same_heap s s2"
  shows "free_inv (start_env s G ext) start_ghost (gc_lists live dead []) (s2\<lparr>gc_phase := JS_GC_PHASE_REMOVE_CYCLES\<rparr>)"
proof -
  note d = gc_readyD [OF r] and i = gc_invD [OF gc_readyD(1) [OF r]]
  let ?e = "start_env s G ext" and ?g = start_ghost and ?s = "s2\<lparr>gc_phase := JS_GC_PHASE_REMOVE_CYCLES\<rparr>"
  have e: "eh ?e = heap s" "eX ?e = set G" "eD ?e = set dead" "eext ?e = ext" "eX ?e - eD ?e = set live" "eX ?e - fin ?g = set G"
    using l(2,3) by (auto simp: start_env_def start_ghost_def live_of_def)
  have g: "fin ?g = {}" "unl ?g = {}" "prog ?g = {}" "due ?g = {}" "pend ?g = {#}" "wpend ?g = {#}" by (simp_all add: start_ghost_def)
  have st: "heap ?s = heap s" "weakref_count ?s = weakref_count s" "ref_count ?s = ref_count s" "mark ?s = mark s2" "links_of ?s = links_of s2"
    using h rc by (simp_all add: same_heap_def)
  have alive: "heap s q \<noteq> None" if "q \<in> set G" for q using i(1) that unfolding closed_def by blast
  have w: "weakly_held ?e ?g q = weakref_count s q" "held ?e ?g q = refs_from (heap s) (set G) q" for q
    unfolding weakly_held_def held_def e g d(7) by simp_all
  have dG: "set dead \<subseteq> set G" "set live = set G - set dead" using l(2,3) by (auto simp: live_of_def)
  have "ghost_ok ?e ?g" unfolding ghost_ok_def g by simp
  moreover have "lists_ok ?e ?g (gc_lists live dead []) ?s"
    unfolding lists_ok_def e(2,3) g st gc_lists_simps dG(2) using l(1) alive dG(1) by auto
  moreover have "heap_ok ?e ?g ?s" unfolding heap_ok_def e(1,2,3) g st
    using alive m(1,2) dG(2) by (auto simp: unlink_none option.map_ident)
  moreover have "counts_ok ?e ?g ?s" unfolding counts_ok_def e(2,3,4) g st w using i(4) d(3,8) dG(1) by auto
  moreover have "husks_ok ?e ?g ?s" unfolding husks_ok_def e g st w
  proof (intro allI impI)
    fix q assume q: "q \<notin> set G"
    have "heap s q \<noteq> None \<Longrightarrow> mark s2 q = 0" using m(3) q h by (auto simp: rest_unmarked_def same_heap_def)
    then show "heap s q = None \<or> mark s2 q = 0 \<and> ref_count s q = 0 \<and> 0 < weakref_count s q" using d(9) [OF q] by blast
  qed
  moreover have "zombies_ok ?e ?g ?s" unfolding zombies_ok_def g by simp
  ultimately show ?thesis using start_env_ok [OF r] by (simp add: free_inv_def)
qed

lemma gc_free_cycles_eq:
  assumes inv: "free_inv e g L s1" and g: "idle g" and L: "L tmp_obj_list = []"
    and loop: "free_cycles_loop (s\<lparr>gc_phase := JS_GC_PHASE_REMOVE_CYCLES\<rparr>) = Some s1"
  shows "gc_free_cycles s = Some (s1\<lparr>heap := (\<lambda>q. if q \<in> eD e \<and> \<not> kept_weakly s1 q then None else heap s1 q),
      mark := (\<lambda>q. if q \<in> eD e \<and> kept_weakly s1 q then 0 else mark s1 q),
      links_of := init_list_head gc_zero_ref_count_list (links_of s1), gc_phase := JS_GC_PHASE_NONE\<rparr>)"
proof -
  have l: "rt_lists (links_of s1) L" "set (L gc_zero_ref_count_list) = {q \<in> eD e. heap s1 q \<noteq> None}"
    using free_invD(3) [OF inv] L by (auto simp: lists_ok_def)
  let ?Q = "L gc_zero_ref_count_list" and ?s = "s1\<lparr>gc_phase := JS_GC_PHASE_NONE\<rparr>"
  have "\<exists>n. heap ?s q = Some n \<and> \<not> freed_by_owner n" if q: "q \<in> set ?Q" for q
  proof -
    have qD: "q \<in> eD e" "heap s1 q \<noteq> None" using q l(2) by auto
    then have "\<not> owned e q" using heap_okD(4) [OF free_invD(4) [OF inv], of q] all_final [OF inv g L] g by (auto simp: idle_def)
    moreover have "q \<in> eX e" using qD(1) env_okD(2) [OF free_invD(1) [OF inv]] by blast
    moreover obtain n where "eh e q = Some n" using env_okD(8) [OF free_invD(1) [OF inv] \<open>q \<in> eX e\<close>] by blast
    moreover have "freed_by_owner (unlink_node U n) = freed_by_owner n" for U by (cases n) auto
    ultimately show ?thesis using heap_okD(3) [OF free_invD(4) [OF inv] _ qD(2)] by (auto simp: owned_def)
  qed
  from free_zero_loop_ok [of ?s L "[]" ?Q, OF _ _ this] l(1)
  have z: "free_zero_loop (hd (?Q @ [gc_zero_ref_count_list])) ?s = Some (?s\<lparr>heap := (\<lambda>q. if q \<in> set ?Q \<and> \<not> kept_weakly ?s q then None else heap ?s q),
      mark := (\<lambda>q. if q \<in> set ?Q \<and> kept_weakly ?s q then 0 else mark ?s q)\<rparr>)" by simp
  have k: "kept_weakly ?s q = kept_weakly s1 q" for q by (simp add: kept_weakly_def kind_def)
  have st: "heap ?s = heap s1" "mark ?s = mark s1" by simp_all
  have q: "(\<lambda>q. if q \<in> set ?Q \<and> \<not> kept_weakly s1 q then None else heap s1 q) = (\<lambda>q. if q \<in> eD e \<and> \<not> kept_weakly s1 q then None else heap s1 q)"
    "(\<lambda>q. if q \<in> set ?Q \<and> kept_weakly s1 q then 0 else mark s1 q) = (\<lambda>q. if q \<in> eD e \<and> kept_weakly s1 q then 0 else mark s1 q)"
    using kept_alive [of s1] l(2) by (auto simp: fun_eq_iff)
  have "nxt (links_of s1) gc_zero_ref_count_list = hd (?Q @ [gc_zero_ref_count_list])" by (rule lists_next(2) [OF l(1)]) simp
  then show ?thesis using z [unfolded k st q] loop by (simp add: gc_free_cycles_def Let_def)
qed

lemma reachable_same:
  assumes "reachable h R q" "\<And>p. reachable h R p \<Longrightarrow> mark_children h' p = mark_children h p"
  shows "reachable h' R q"
  using assms(1)
proof induction
  case (step p cs q)
  then show ?case using assms(2) reachable.step [of h' R p cs q] by simp
qed (rule reachable.root)

text \<open>What the objects that stay see of the heap has not changed.\<close>

lemma live_closed:
  assumes "gc_inv s G ext" "p \<in> live_of s G ext"
  obtains cs where "mark_children (heap s) p = Some cs" "set cs \<subseteq> live_of s G ext"
proof -
  note i = gc_invD(1) [OF assms(1)]
  have p: "p \<in> set G" "reachable (heap s) (roots G ext) p" using assms(2) by (auto simp: live_of_def)
  then obtain cs where cs: "mark_children (heap s) p = Some cs" "set cs \<subseteq> set G" using i unfolding closed_def by blast
  then have "set cs \<subseteq> live_of s G ext" using reachable.step [OF p(2) cs(1)] by (auto simp: live_of_def)
  then show thesis using that cs(1) by blast
qed

lemma live_view:
  assumes r: "gc_ready s G ext" and same: "\<And>q. q \<in> live_of s G ext \<Longrightarrow> h' q = heap s q" and p: "p \<in> live_of s G ext"
  shows "mark_children h' p = mark_children (heap s) p" "free_children h' p = free_children (heap s) p" "node_ok h' (the (h' p))"
proof -
  from live_closed [OF gc_readyD(1) [OF r] p] obtain cs where cs: "mark_children (heap s) p = Some cs" "set cs \<subseteq> live_of s G ext" .
  have "h' q = heap s q" if "q \<in> set cs" for q using same cs(2) that by blast
  note n = node_local [OF cs(1) same [OF p] this]
  then show "mark_children h' p = mark_children (heap s) p" "free_children h' p = free_children (heap s) p" using cs(1) by simp_all
  have "p \<in> set G" using p by (simp add: live_of_def)
  then show "node_ok h' (the (h' p))" using n(3) gc_readyD(4) [OF r] same [OF p] by simp
qed

lemma live_typed:
  assumes r: "gc_ready s G ext" and same: "\<And>q. q \<in> live_of s G ext \<Longrightarrow> h' q = heap s q" and p: "p \<in> live_of s G ext"
    and w: "\<And>q. 0 < weak_refs (heap s) p q \<Longrightarrow> kind is_NObject h' q"
  shows "\<exists>rs. free_children h' p = Some rs \<and> list_all (release_typed h') rs"
proof -
  have pG: "p \<in> set G" using p by (simp add: live_of_def)
  obtain rs where rs: "free_children (heap s) p = Some rs" "list_all (release_typed (heap s)) rs" using gc_readyD(5) [OF r pG] by blast
  from live_closed [OF gc_readyD(1) [OF r] p] obtain cs where cs: "mark_children (heap s) p = Some cs" "set cs \<subseteq> live_of s G ext" .
  obtain n where n: "heap s p = Some n" using cs(1) by (auto simp: mark_children_def split: option.splits)
  have sub: "set (released_all rs) \<subseteq> set cs" using released_marked [OF n _ cs(1) rs(1)] gc_readyD(4) [OF r pG] n by simp
  have "release_typed h' x" if x: "x \<in> set rs" for x
  proof (rule typed_same)
    show "release_typed (heap s) x" using rs(2) x by (simp add: list_all_iff)
    show "h' q = heap s q" if "q \<in> set (released x)" for q
    proof -
      have "q \<in> set (released_all rs)" using that x by auto
      then show ?thesis using same sub cs(2) by blast
    qed
    show "kind is_NObject h' q" if "q \<in> set (weak_released x)" for q
    proof -
      have "q \<in> set (weak_all rs)" using that x by auto
      then have "count_list (weak_all rs) q \<noteq> 0" unfolding count_list_0_iff by blast
      then show ?thesis using w [of q] rs(1) by (simp add: weak_refs_def)
    qed
  qed
  then show ?thesis using live_view(2) [OF r same p] rs(1) by (auto simp: list_all_iff)
qed

definition swept :: "gc_env \<Rightarrow> gc_state \<Rightarrow> gc_state" where
  "swept e s1 = s1\<lparr>heap := (\<lambda>q. if q \<in> eD e \<and> \<not> kept_weakly s1 q then None else heap s1 q),
      mark := (\<lambda>q. if q \<in> eD e \<and> kept_weakly s1 q then 0 else mark s1 q),
      links_of := init_list_head gc_zero_ref_count_list (links_of s1), gc_phase := JS_GC_PHASE_NONE\<rparr>"

lemma swept_simps:
  "heap (swept e s1) q = (if q \<in> eD e \<and> \<not> kept_weakly s1 q then None else heap s1 q)"
  "mark (swept e s1) q = (if q \<in> eD e \<and> kept_weakly s1 q then 0 else mark s1 q)"
  "ref_count (swept e s1) = ref_count s1" "weakref_count (swept e s1) = weakref_count s1"
  "links_of (swept e s1) = init_list_head gc_zero_ref_count_list (links_of s1)" "gc_phase (swept e s1) = JS_GC_PHASE_NONE"
  by (simp_all add: swept_def)

lemma final_counts:
  assumes inv: "free_inv e g L s1" and g: "idle g" and L: "L tmp_obj_list = []"
  shows "weakref_count s1 q = weak_from (eh e) (eX e - eD e) q" "held e g q = refs_from (eh e) (eX e - eD e) q"
  using counts_okD(3) [OF free_invD(5) [OF inv], of q] g all_final [OF inv g L] by (simp_all add: weakly_held_def held_def idle_def)

lemma zombieD:
  "zombies_ok e g s \<Longrightarrow> q \<in> fin g - prog g \<Longrightarrow> kind is_NObject (eh e) q \<Longrightarrow> heap s q \<noteq> None \<Longrightarrow> heap s q = Some (NObject freed_object)"
  unfolding zombies_ok_def by metis

text \<open>Garbage that is kept is what is left of an object with weak references to it.\<close>

lemma kept_is_zombie:
  assumes inv: "free_inv e g L s1" and g: "idle g" and L: "L tmp_obj_list = []" and q: "q \<in> eD e" "heap (swept e s1) q \<noteq> None"
  shows "heap (swept e s1) q = Some (NObject freed_object)" "ref_count s1 q = 0" "0 < weakref_count s1 q" "kept_weakly s1 q"
proof -
  note e = env_okD [OF free_invD(1) [OF inv]]
  have k: "kept_weakly s1 q" "heap s1 q \<noteq> None" using q by (auto simp: swept_simps split: if_splits)
  then show "kept_weakly s1 q" by blast
  have w: "weakref_count s1 q = weakly_held e g q" using counts_okD(3) [OF free_invD(5) [OF inv]] .
  then show w0: "0 < weakref_count s1 q" using k(1) held_nonneg(2) [of e g q] by (simp add: kept_weakly_def order_less_le)
  have o: "kind is_NObject (eh e) q" using weakly_held_object [OF free_invD(1,2) [OF inv]] w w0 by simp
  have f: "q \<in> fin g - prog g" using all_final [OF inv g L] q(1) g by (simp add: idle_def)
  have "heap s1 q = Some (NObject freed_object)" using zombieD [OF free_invD(7) [OF inv] f o k(2)] .
  then show "heap (swept e s1) q = Some (NObject freed_object)" using k(1) by (simp add: swept_simps)
  have "q \<notin> unl g" using ghost_okD(4) [OF free_invD(2) [OF inv], of q] o by (auto simp: kind_def)
  moreover have "q \<in> eX e" using q(1) e(2) by blast
  ultimately have "ref_count s1 q = eext e q + held e g q" using counts_okD(1) [OF free_invD(5) [OF inv]] k(2) by blast
  then show "ref_count s1 q = 0" using e(5,7) [OF q(1)] final_counts(2) [OF inv g L] by simp
qed

lemma rest_is_zombie:
  assumes inv: "free_inv e g L s1" and g: "idle g" and L: "L tmp_obj_list = []" and q: "q \<notin> eX e - eD e"
  shows "heap (swept e s1) q = None \<or> heap (swept e s1) q = Some (NObject freed_object) \<and> ref_count s1 q = 0 \<and> 0 < weakref_count s1 q"
    "heap (swept e s1) q \<noteq> None \<Longrightarrow> mark (swept e s1) q = 0" "heap (swept e s1) q = None \<Longrightarrow> weakref_count s1 q = 0"
proof -
  have w: "weakref_count s1 q = weakly_held e g q" using counts_okD(3) [OF free_invD(5) [OF inv]] .
  have "(heap (swept e s1) q = None \<or> heap (swept e s1) q = Some (NObject freed_object) \<and> ref_count s1 q = 0 \<and> 0 < weakref_count s1 q) \<and>
    (heap (swept e s1) q \<noteq> None \<longrightarrow> mark (swept e s1) q = 0) \<and> (heap (swept e s1) q = None \<longrightarrow> weakref_count s1 q = 0)"
  proof (cases "q \<in> eD e")
    case True
    have "kept_weakly s1 q" if "0 < weakly_held e g q"
    proof -
      have "heap s1 q \<noteq> None" using counts_okD(4) [OF free_invD(5) [OF inv], of q] that by auto
      moreover have "kind is_NObject (eh e) q" using weakly_held_object [OF free_invD(1,2) [OF inv] that] .
      moreover have "q \<in> fin g - prog g" using all_final [OF inv g L] True g by (simp add: idle_def)
      ultimately have "heap s1 q = Some (NObject freed_object)" by (intro zombieD [OF free_invD(7) [OF inv]])
      then show ?thesis using that w by (simp add: kept_weakly_def kind_def)
    qed
    moreover note kept_alive [of s1 q]
    ultimately have "heap (swept e s1) q = None \<Longrightarrow> weakref_count s1 q = 0"
      using True w held_nonneg(2) [of e g q] by (auto simp: swept_simps order_less_le split: if_splits)
    then show ?thesis using kept_is_zombie [OF inv g L True] True by (auto simp: swept_simps(2))
  next
    case False
    then have "q \<notin> eX e" "heap (swept e s1) q = heap s1 q" "mark (swept e s1) q = mark s1 q" using q by (auto simp: swept_simps)
    then show ?thesis using heap_okD(5) [OF free_invD(4) [OF inv], of q] env_okD(10) [OF free_invD(1) [OF inv], of q]
      free_invD(6) [OF inv] w counts_okD(4) [OF free_invD(5) [OF inv], of q] unfolding husks_ok_def by auto
  qed
  then show "heap (swept e s1) q = None \<or> heap (swept e s1) q = Some (NObject freed_object) \<and> ref_count s1 q = 0 \<and> 0 < weakref_count s1 q"
    "heap (swept e s1) q \<noteq> None \<Longrightarrow> mark (swept e s1) q = 0" "heap (swept e s1) q = None \<Longrightarrow> weakref_count s1 q = 0" by blast+
qed

lemma sum_live: "(\<And>p. p \<in> S \<Longrightarrow> mark_children h' p = mark_children h p) \<Longrightarrow> refs_from h' S q = refs_from h S q"
  "(\<And>p. p \<in> S \<Longrightarrow> free_children h' p = free_children h p) \<Longrightarrow> weak_from h' S q = weak_from h S q"
  unfolding refs_from_def weak_from_def refs_def weak_refs_def by (auto intro!: sum.cong)

lemma end_ready:
  assumes r: "gc_ready s G ext" and inv: "free_inv (start_env s G ext) g L s1" and g: "idle g" and L: "L tmp_obj_list = []"
  shows "gc_ready (swept (start_env s G ext) s1) (L gc_obj_list) ext" "set (L gc_obj_list) = live_of s G ext"
    "q \<in> live_of s G ext \<Longrightarrow> heap (swept (start_env s G ext) s1) q = heap s q"
proof -
  let ?e = "start_env s G ext" and ?A = "live_of s G ext" and ?G = "L gc_obj_list"
  define s' where "s' = swept ?e s1"
  note i = gc_invD [OF gc_readyD(1) [OF r]]
  have e: "eh ?e = heap s" "eext ?e = ext" "eX ?e - eD ?e = ?A" "q \<in> ?A \<Longrightarrow> q \<notin> eD ?e" "q \<in> ?A \<Longrightarrow> q \<in> set G" for q
    by (auto simp: start_env_def live_of_def)
  have l: "rt_lists (links_of s1) L" "set ?G = ?A" using free_invD(3) [OF inv] e(3) by (auto simp: lists_ok_def)
  then show "set ?G = ?A" by blast
  have same: "heap s' q = heap s q" if "q \<in> ?A" for q
    using live_same [OF inv, of q] that e(1,3,4) by (simp add: s'_def swept_simps)
  then show "q \<in> ?A \<Longrightarrow> heap (swept ?e s1) q = heap s q" by (simp add: s'_def)
  have view: "mark_children (heap s') p = mark_children (heap s) p" "free_children (heap s') p = free_children (heap s) p"
    "node_ok (heap s') (the (heap s' p))" if "p \<in> ?A" for p using live_view [OF r _ that, of "heap s'"] same by auto
  have rf: "refs_from (heap s') ?A q = refs_from (heap s) ?A q" "weak_from (heap s') ?A q = weak_from (heap s) ?A q" for q
    using view(1,2) by (auto intro!: sum_live)
  have wc: "weakref_count s' q = weak_from (heap s) ?A q" for q using final_counts(1) [OF inv g L] e(1,3) by (simp add: s'_def swept_simps)
  note rest = rest_is_zombie [OF inv g L, unfolded e(3), folded s'_def]
  have sw: "ref_count s' = ref_count s1" "weakref_count s' = weakref_count s1" by (simp_all add: s'_def swept_simps)
  have lists: "rt_lists (init_list_head tmp_obj_list (links_of s')) (gc_lists ?G [] [])"
    using gc_lists_collapse [OF lists_init [OF lists_init [OF l(1), of gc_zero_ref_count_list], of tmp_obj_list]]
    by (simp add: s'_def swept_simps)
  have cl: "closed (heap s') ?A" unfolding closed_def
  proof
    fix p assume p: "p \<in> ?A"
    from live_closed [OF gc_readyD(1) [OF r] p] obtain cs where "mark_children (heap s) p = Some cs" "set cs \<subseteq> ?A" .
    moreover have "heap s p \<noteq> None" using i(1) e(5) [OF p] unfolding closed_def by blast
    ultimately show "heap s' p \<noteq> None \<and> (\<exists>cs. mark_children (heap s') p = Some cs \<and> set cs \<subseteq> ?A)" using view(1) [OF p] same [OF p] by simp
  qed
  have rc: "ref_count s' q = ext q + refs_from (heap s') ?A q" "0 < ref_count s' q" "mark s' q = 0" if q: "q \<in> ?A" for q
  proof -
    have qX: "q \<in> eX ?e - eD ?e" using q e(3) by simp
    have "q \<notin> unl g" using qX ghost_okD(1,2) [OF free_invD(2) [OF inv]] by blast
    then have "ref_count s1 q = ext q + held ?e g q"
      using counts_okD(1) [OF free_invD(5) [OF inv], of q] live_rc(2) [OF inv qX] qX e(2) by auto
    then show "ref_count s' q = ext q + refs_from (heap s') ?A q" using final_counts(2) [OF inv g L, of q] e(1,3) rf(1) sw by simp
    show "0 < ref_count s' q" using live_rc(1) [OF inv qX] sw by simp
    show "mark s' q = 0" using heap_okD(6) [OF free_invD(4) [OF inv] qX] qX by (simp add: s'_def swept_simps)
  qed
  have ra: "q \<in> ?A" if "q \<in> roots G ext" for q
  proof -
    have "q \<in> set G" using that by (simp add: roots_def)
    then show ?thesis using reachable.root [OF that] by (simp add: live_of_def)
  qed
  have roots: "roots ?G ext = roots G ext"
  proof (intro set_eqI iffI)
    show "q \<in> roots G ext" if "q \<in> roots ?G ext" for q using that e(5) [of q] l(2) by (simp add: roots_def)
    show "q \<in> roots ?G ext" if "q \<in> roots G ext" for q using that ra [OF that] l(2) by (simp add: roots_def)
  qed
  have reach: "reachable (heap s') (roots ?G ext) q" if "q \<in> ?A" for q
  proof -
    have q: "reachable (heap s) (roots G ext) q" using that by (simp add: live_of_def)
    have "p \<in> set G" if "reachable (heap s) (roots G ext) p" for p
      using that by induction (use closedD [OF i(1)] in \<open>auto simp: roots_def\<close>)
    then have "mark_children (heap s') p = mark_children (heap s) p" if "reachable (heap s) (roots G ext) p" for p
      using view(1) [of p] that by (simp add: live_of_def)
    with q show ?thesis unfolding roots by (rule reachable_same)
  qed
  have typed: "\<exists>rs. free_children (heap s') p = Some rs \<and> list_all (release_typed (heap s')) rs" if p: "p \<in> ?A" for p
  proof (rule live_typed [OF r _ p])
    show "q \<in> ?A \<Longrightarrow> heap s' q = heap s q" for q by (rule same)
  next
    fix q assume "0 < weak_refs (heap s) p q"
    also have "\<dots> \<le> weak_from (heap s) ?A q" unfolding weak_from_def using p by (intro member_le_sum) (auto simp: live_of_def)
    finally have "0 < weakref_count s1 q" using wc sw(2) by simp
    moreover have "kind is_NObject (heap s) q"
      using weakly_held_object [OF free_invD(1,2) [OF inv], of q] calculation counts_okD(3) [OF free_invD(5) [OF inv], of q] e(1) by simp
    ultimately show "kind is_NObject (heap s') q"
      using rest(1,3) [of q] same [of q] by (cases "q \<in> ?A") (auto simp: kind_def)
  qed
  have "gc_inv s' ?G ext"
    unfolding gc_inv_def l(2) using lists cl rc(1,3) i(3) e(5) rest(2) by (auto simp: rest_unmarked_def)
  moreover have "weakref_count s' q = weak_from (heap s') ?A q" for q using wc rf(2) by simp
  moreover have "heap s' q = None \<Longrightarrow> weakref_count s' q = 0" for q
  proof (cases "q \<in> ?A")
    case True
    then show "heap s' q = None \<Longrightarrow> weakref_count s' q = 0" using cl unfolding closed_def by blast
  qed (use rest(3) sw in auto)
  moreover have "gc_phase s' = JS_GC_PHASE_NONE" by (simp add: s'_def swept_simps)
  ultimately show "gc_ready (swept ?e s1) ?G ext"
    unfolding gc_ready_def l(2) s'_def [symmetric] using rc(2) view(3) typed reach rest(1) sw by (intro conjI ballI allI impI) (blast | simp)+
qed


lemma demo_free_children:
  "free_children (heap demo_gc) 4 = Some []"
  "free_children (heap demo_gc) 5 = Some [FreeValue (JPtr TagObject 5), FreeShape 4, FreeValue JUndefined, FreeValue JUndefined,
     FreeValue (JPtr TagObject 5), FreeValue JUndefined]"
  "free_children (heap demo_gc) 6 = Some [FreeValue JUndefined, FreeShape 4]"
  by code_simp+

lemma demo_ready: "gc_ready demo_gc [4, 5, 6] ((\<lambda>p. 0)(6 := 1))"
proof -
  have ok: "property_ok \<lparr>sp_flags = 7, sp_atom = 3\<rparr> (PValue v)" for v by (simp add: property_ok_def JS_PROP_TMASK_def)
  have "\<forall>p\<in>set [4, 5, 6]. node_ok (heap demo_gc) (the (heap demo_gc p)) \<and> node_idle (the (heap demo_gc p)) \<and> 0 < ref_count demo_gc p"
    using ok by (simp add: demo_gc_def demo_heap_def node_ok_def payload_ok_def node_idle_def)
  moreover have "\<forall>p\<in>set [4, 5, 6]. \<exists>rs. free_children (heap demo_gc) p = Some rs \<and> list_all (release_typed (heap demo_gc)) rs"
    using demo_free_children by (simp add: kind_def demo_gc_def demo_heap_def)
  moreover have "weak_from (heap demo_gc) (set [4, 5, 6]) q = 0" for q
    using demo_free_children by (simp add: weak_from_def weak_refs_def)
  moreover have "gc_phase demo_gc = JS_GC_PHASE_NONE" "weakref_count demo_gc q = 0" "q \<notin> set [4, 5, 6] \<Longrightarrow> heap demo_gc q = None" for q
    by (simp_all add: demo_gc_def demo_heap_def)
  ultimately show ?thesis unfolding gc_ready_def using demo_gc_inv by (intro conjI) (simp_all)
qed


end
