(* ===== verification/Spec2Isabelle.thy ===== *)
theory Spec2Isabelle
  imports ObjectSpec Behaviour Tool Jni Cutils BigPow CharRange GcRun
begin

text \<open>
  A verification of the C code of quickjs-kmp: the shim that embeds the QuickJS engine into a Kotlin
  Multiplatform library, its bindings and tools, and the routines of the engine sources it rests on.

  \<^bold>\<open>The system.\<close> Kotlin code reaches the engine through the C API of \<open>native/shim/quickjs_kmp.h\<close>, directly on
  Apple targets and through \<open>native/jni/quickjs_jni.c\<close> on the JVM and Android. \<open>quickjs_kmp.c\<close> keeps a struct per
  engine: a table of object references with generations, growing buffers for payloads, a run state that
  other threads may flag, the promises rejected without a handler and the registered modules. A call
  enters the engine, which calls back (host functions, module loader, rejection tracker, allocator,
  interrupt handler), and the host may call the API again before it answers. \<open>native/tools/qjsc_kmp.c\<close> compiles
  ahead of time.

  \<^bold>\<open>The shim\<close> (\<open>native/shim/quickjs_kmp.c\<close>), one theory per component:
  \<^item> \<open>Refs\<close>: \<open>kmp_slot\<close> table, \<open>slot_new\<close>, \<open>slot_get\<close>, \<open>slot_free\<close>, retain and release. The locale \<open>ref_map\<close> is what
    its clients rely on, a finite map from handles to counted values; the table refines it.
  \<^item> \<open>Buffers\<close>: \<open>kmp_buf\<close> over a store of blocks, so that dangling and shared payloads are visible; locale
    \<open>byte_sink\<close>.
  \<^item> \<open>Allocator\<close>: \<open>kmp_malloc\<close>, \<open>kmp_free\<close>, \<open>kmp_realloc\<close> with 64-bit accounting.
  \<^item> \<open>Interrupt\<close>: the atomic run state and its transitions, interleaved with other threads.
  \<^item> \<open>Modules\<close>, \<open>Bytecode\<close>, \<open>Numbers\<close>: the module table (locale \<open>name_table\<close>), the bytecode header, and the
    engine's conversions between doubles and integers.
  \<^item> \<open>Engine\<close>: the engine struct, and QuickJS and the host as machines given as parameters. \<open>Contract\<close>: the
    invariant of a world and what a function may change; locale \<open>engine_link\<close>.
  \<^item> \<open>Convert\<close>, \<open>Jobs\<close>, \<open>Loader\<close>, \<open>Api\<close>, \<open>Lifecycle\<close>: conversion of values and errors; jobs and rejections;
    module loading; \<open>finish\<close> and every \<open>kmpjs_\<close> call; \<open>kmpjs_create\<close> and \<open>kmpjs_destroy\<close>. \<open>Exec\<close> closes the
    system, with engine, shim and host calling each other.
  \<^item> \<open>Compile\<close>: \<open>kmpjs_compile\<close> with its private runtime.
  \<^item> \<open>Demo\<close>: a small engine and a small host on which runs are evaluated. \<open>Behaviour\<close>: what the calls do on
    particular inputs.

  \<^bold>\<open>Around the shim:\<close> \<open>Tool\<close> is \<open>qjsc_kmp.c\<close> and \<open>Jni\<close> is \<open>quickjs_jni.c\<close> (locale \<open>jni_link\<close>, which extends
  \<open>engine_link\<close> by what the JVM side keeps).

  \<^bold>\<open>Engine sources\<close> (\<open>native/quickjs\<close>): \<open>Utf8\<close> and \<open>Cutils\<close> model \<open>cutils.c\<close> and \<open>cutils.h\<close> (codec, strings, dynamic
  buffer), \<open>Linked\<close> models \<open>list.h\<close>, \<open>CharRange\<close> the character sets of \<open>libunicode.c\<close>, \<open>Limbs\<close>, \<open>BigInt\<close>,
  \<open>Division\<close> and \<open>BigPow\<close> the multi-precision arithmetic and the \<open>BigInt\<close> operations of \<open>quickjs.c\<close> (locale \<open>canonical\<close>).

  \<^bold>\<open>The cycle collector\<close> (\<open>quickjs.c\<close>): \<open>GcNodes\<close> has the objects that can be part of a cycle, a record per C struct
  with the fields that hold references, and for every kind of object and every class of the class tables
  the function that marks its children and the calls by which it releases them. \<open>GcMark\<close> is \<open>gc_decref\<close> and
  \<open>gc_scan\<close> on the lists of the runtime, which are those of \<open>Linked\<close>; \<open>GcFree\<close> is \<open>gc_free_cycles\<close> with everything that
  frees an object, and what holds while garbage is freed; \<open>GcRun\<close> puts a whole collection together.

  \<^bold>\<open>Objects and shapes\<close> (\<open>quickjs.c\<close>): the properties of an object are described by a shape, which many objects share.
  \<open>PropTable\<close> is the table of properties inside a shape (\<open>JSShapeProperty\<close>, \<open>find_own_property1\<close>, and the loops of \<open>resize_properties\<close>,
  \<open>compact_properties\<close> and \<open>delete_property\<close>); \<open>ShapeHash\<close> the table of the runtime in which shapes are found (\<open>js_shape_hash_link\<close>,
  \<open>resize_shape_hash\<close>, \<open>find_hashed_shape_prop\<close>); \<open>ShapeOps\<close> the operations on shapes and ordinary objects (\<open>js_new_shape\<close>, \<open>js_clone_shape\<close>,
  \<open>add_property\<close>, \<open>delete_property\<close>, \<open>js_update_property_flags\<close>, \<open>JS_SetPrototypeInternal\<close>, \<open>JS_NewObjectProtoClass\<close>, \<open>free_object\<close>), with an
  allocator that may fail at any call and a collector that may run when an object is created. \<open>Shapes\<close> has the invariant of the
  runtime; \<open>ObjectProps\<close>, \<open>ObjectAdd\<close> and \<open>ObjectLife\<close> show what each operation does; \<open>ObjectStore\<close> that sequences of operations refine
  an abstract store in which nothing is shared (locale \<open>property_store\<close>); \<open>ObjectFail\<close> why an operation may fail; \<open>ObjectSpec\<close> has
  the resulting properties.

  \<^bold>\<open>What is shown.\<close>
  \<^item> Ownership: whatever engine, host, allocation failures and interrupts do, every reference C code takes
    is released once, and destroying an engine releases the rest; the same through JNI.
  \<^item> The contract of one call, and the refinement of the tables to maps.
  \<^item> Interrupts are neither lost nor left over; an interrupted call fails.
  \<^item> Values, numbers, handles, bytecode and UTF-8 round-trip; stale handles and foreign bytecode are refused.
  \<^item> \<open>BigInt\<close> operations, division and powers included, are the integer operations, in normal form; operations on
    character sets are those on sets.
  \<^item> Marking and releasing agree on the references of every object; the marking phases of the collector find
    exactly the objects not reachable from outside, and restore all counts; the whole collection frees these and
    no others, each once, and leaves the runtime in the state in which it found it.
  \<^item> Sharing shapes cannot be observed: objects behave as if each had its own list of properties, other objects never
    change, reference counts of shapes, atoms and prototypes stay exact, hash lookups agree with searching the lists, chains of
    prototypes stay finite, and an operation is refused only for its own reasons or for lack of memory.
  \<^item> Where the code does not do what it means to, a theorem exhibits it: a handle whose generation has used
    up its bits, a rejection callback that overwrites a finished payload, an error message printed with
    precision 0, an allocation failure that turns a string into an empty one.

  \<^bold>\<open>Bounds.\<close> \<open>mk n S\<close> links shim, engine and host up to nesting depth \<open>n\<close>, with loops of at most \<open>n\<close> rounds; a
  run that needs more has the value \<open>None\<close>, which stands for a run still going (a script may loop forever).
  The theorems hold for every \<open>n\<close>. Loops along chains of entries, shapes and prototypes are partial functions; the theorems show that
  they end. A shape holds fewer than \<open>2 ^ 26\<close> properties, because its links have 26 bits, which the code does not check. The shim's own loops over finite data are total functions. The correction
  loop of long division is bounded by the estimated digit, and the bound is proved to be enough.

  \<^bold>\<open>Integers.\<close> Lengths and sizes are \<open>int\<close> or \<open>nat\<close> where the code cannot overflow and words, or written-out
  wrap-around, where it can. Limbs have 64 bits, as in the 64-bit builds.

  \<^bold>\<open>Not modelled.\<close> The Kotlin library (another language); \<open>JNI_OnLoad\<close>, which looks up classes; \<open>dbuf_printf\<close> and
  the sort of \<open>cutils.c\<close>; conversions of \<open>BigInt\<close>; \<open>gc_remove_weak_objects\<close> and
  \<open>free_zero_refcount\<close>; exotic objects, fast arrays, accessors and variable references among properties, and the class data that
  \<open>JS_NewObjectFromShape\<close> sets up; the parser, compiler, interpreter
  and built-ins of QuickJS, which the shim sees as a machine; regular expressions, Unicode
  tables and case folding, number formatting; the QuickJS command line programs, tests and build files.
\<close>

section \<open>Concrete runs\<close>

text \<open>An engine the demonstration host has created, and the worlds after some calls of it.\<close>

definition demo_engine :: "(demo_heap, nat) world" where
  "demo_engine = snd (the (kmpjs_create (mk (Suc 0) demo_sys) demo_config demo_callbacks demo_blank))"

definition demo_calls :: "apicall list" where
  "demo_calls = [AEval ''call'' ''a.js'' 0, AEval ''reject'' ''b.js'' 0, AEval ''throw'' ''d.js'' 0,
     ADefineFunction ''f'' 1 1, ARegisterModule ''m'' ''export {}'']"

definition demo_end :: "(demo_heap, nat) world" where
  "demo_end = the (session (Suc (Suc (Suc (Suc 0)))) demo_sys demo_calls demo_engine)"

lemma demo_blank_ok: "blank demo_blank"
  by (simp add: blank_def demo_blank_def)

lemma demo_created: "kmpjs_create (mk (Suc 0) demo_sys) demo_config demo_callbacks demo_blank = Some (True, demo_engine)"
  unfolding demo_engine_def by (simp add: run_defs demo_defs cong: bind_weak_cong)

lemma demo_session: "session (Suc (Suc (Suc (Suc 0)))) demo_sys demo_calls demo_engine = Some demo_end"
  unfolding demo_end_def demo_calls_def demo_engine_def by (simp add: run_defs demo_defs cong: bind_weak_cong)

lemma demo_good: "good (\<lambda>a. 0) demo_engine"
  using shim.create_ok [OF demo_blank_ok, of "Suc 0" demo_sys demo_config demo_callbacks] demo_created by simp

section \<open>Ownership and lifetime\<close>



text \<open>A failed creation keeps no runtime, no context and no \<open>BigInt\<close> constructor, and a successful
  one owns exactly what its struct records; neither has released anything twice.\<close>

theorem create_contract:
  assumes "blank w" "kmpjs_create (mk n S) config cb w = Some (ok, w')"
  shows "if ok then good (\<lambda>a. 0) w'
    else blank w' \<or> (good (\<lambda>a. 0) w' \<and> rt (eng w') = JNull \<and> ctx (eng w') = JNull \<and> (\<forall>a. cnt (bigint_ctor (eng w')) a = 0))"
  using shim.create_ok [OF assms(1), of n S config cb] assms(2) by (auto simp: undone_def at_def split: if_splits)

theorem create_contract_witness: "good (\<lambda>a. 0) demo_engine"
  using create_contract [OF demo_blank_ok demo_created] by simp

section \<open>One API call\<close>



end
